(* ===== verification/Prelude.thy ===== *)
theory Prelude
  imports Main "HOL-Library.Word" "HOL-Library.List_Lexorder"
begin

text \<open>
  Shared vocabulary of the development.  Rust's fixed width integers are HOL words
  (\<open>u64\<close> and \<open>i64\<close> are both 64 bit words: \<open>uint\<close>/\<open>unat\<close> read the first, \<open>sint\<close> the
  second), a \<open>Vec<u8>\<close> or \<open>&[u8]\<close> is a list of bytes, and Rust's \<open>Ord\<close> on slices is the
  lexicographic order of the library theory List_Lexorder.  The theory holds the
  \<open>to_be_bytes\<close>/\<open>from_be_bytes\<close> conversions of Rust's standard library, the separation
  order on byte strings that makes an encoding order preserving under concatenation,
  and the generic lemmas on lists and options that the components share.

  A Rust panic (a slice index out of range, \<open>unwrap\<close> of \<open>None\<close>, a failed \<open>assert\<close>) is the
  value \<open>None\<close> of an option; arithmetic wraps, as in the release profile of the crate.
\<close>

unbundle bit_operations_syntax

section \<open>Machine integers and byte strings\<close>

type_synonym u8 = "8 word"
type_synonym u16 = "16 word"
type_synonym u32 = "32 word"
type_synonym u64 = "64 word"
type_synonym i32 = "32 word"
type_synonym i64 = "64 word"
type_synonym bytes = "u8 list"

named_theorems bytes_simps \<open>evaluation of the byte conversions\<close>
named_theorems enc_intro \<open>introduction rules for encodings\<close>

fun be_bytes :: "nat \<Rightarrow> nat \<Rightarrow> bytes" where
  "be_bytes 0 v = []"
| "be_bytes (Suc n) v = be_bytes n (v div 256) @ [word_of_nat v]"

definition be_val :: "bytes \<Rightarrow> nat" where
  "be_val bs = foldl (\<lambda>a b. a * 256 + unat b) 0 bs"

definition le_bytes :: "nat \<Rightarrow> nat \<Rightarrow> bytes" where
  "le_bytes n v = rev (be_bytes n v)"

definition le_val :: "bytes \<Rightarrow> nat" where
  "le_val bs = be_val (rev bs)"

text \<open>\<open>to_be_bytes\<close> and \<open>from_be_bytes\<close> at the widths the code uses.\<close>

definition u16_to_be :: "u16 \<Rightarrow> bytes" where "u16_to_be w = be_bytes 2 (unat w)"
definition u32_to_be :: "u32 \<Rightarrow> bytes" where "u32_to_be w = be_bytes 4 (unat w)"
definition u64_to_be :: "u64 \<Rightarrow> bytes" where "u64_to_be w = be_bytes 8 (unat w)"
definition u16_of_be :: "bytes \<Rightarrow> u16" where "u16_of_be bs = word_of_nat (be_val bs)"
definition u32_of_be :: "bytes \<Rightarrow> u32" where "u32_of_be bs = word_of_nat (be_val bs)"
definition u64_of_be :: "bytes \<Rightarrow> u64" where "u64_of_be bs = word_of_nat (be_val bs)"

text \<open>\<open>&buf[..n]\<close> and \<open>&buf[n..]\<close> panic when the slice is too short.\<close>

definition split_at :: "nat \<Rightarrow> 'a list \<Rightarrow> ('a list \<times> 'a list) option" where
  "split_at n xs = (if n \<le> length xs then Some (take n xs, drop n xs) else None)"

text \<open>\<open>sep_lt xs ys\<close>: the byte strings differ at a common position, and \<open>xs\<close> has the
  smaller byte there.\<close>

fun sep_lt :: "'a::linorder list \<Rightarrow> 'a list \<Rightarrow> bool" where
  "sep_lt (x # xs) (y # ys) = (x < y \<or> x = y \<and> sep_lt xs ys)"
| "sep_lt _ _ = False"

section \<open>Lemmas on the conversions\<close>

lemma length_be_bytes [simp]: "length (be_bytes n v) = n"
  by (induction n arbitrary: v) auto

lemma length_le_bytes [simp]: "length (le_bytes n v) = n"
  by (simp add: le_bytes_def)

lemma be_val_Nil [simp]: "be_val [] = 0"
  by (simp add: be_val_def)

lemma be_val_snoc [simp]: "be_val (bs @ [b]) = be_val bs * 256 + unat b"
  by (simp add: be_val_def)

lemma be_val_be_bytes: "be_val (be_bytes n v) = v mod 256 ^ n"
proof (induction n arbitrary: v)
  case 0
  then show ?case by simp
next
  case (Suc n)
  have "be_val (be_bytes (Suc n) v) = (v div 256) mod 256 ^ n * 256 + v mod 256"
    by (simp add: Suc.IH unat_of_nat)
  also have "\<dots> = v mod 256 ^ Suc n"
    by (simp add: mod_mult2_eq)
  finally show ?case .
qed

lemma be_val_be_bytes_id [simp]: "v < 256 ^ n \<Longrightarrow> be_val (be_bytes n v) = v"
  by (simp add: be_val_be_bytes)

lemma le_val_le_bytes: "le_val (le_bytes n v) = v mod 256 ^ n"
  by (simp add: le_val_def le_bytes_def be_val_be_bytes)

lemma unat_u8_less: "unat (b :: u8) < 256"
  using unsigned_less [of b, where ?'a = nat] by simp

lemma be_val_less: "be_val bs < 256 ^ length bs"
proof (induction bs rule: rev_induct)
  case Nil
  then show ?case by simp
next
  case (snoc b bs)
  with unat_u8_less [of b] show ?case by simp
qed

lemma be_bytes_be_val [simp]: "be_bytes (length bs) (be_val bs) = bs"
proof (induction bs rule: rev_induct)
  case Nil
  then show ?case by simp
next
  case (snoc b bs)
  have "be_bytes (length bs) ((be_val bs * 256 + unat b) div 256) = bs"
    using snoc unat_u8_less [of b] by simp
  moreover have "(word_of_nat (be_val bs * 256 + unat b) :: u8) = b"
    unfolding word_unat_eq_iff unat_of_nat using unat_u8_less [of b] by simp
  ultimately show ?case by simp
qed

lemma split_at_append [simp]: "length xs = n \<Longrightarrow> split_at n (xs @ ys) = Some (xs, ys)"
  by (simp add: split_at_def)

lemma split_at_Some_iff: "split_at n xs = Some (a, b) \<longleftrightarrow> xs = a @ b \<and> length a = n"
  by (auto simp: split_at_def)

section \<open>The separation order\<close>

lemma sep_lt_append: "sep_lt xs ys \<Longrightarrow> sep_lt (xs @ us) (ys @ vs)"
  by (induction xs ys rule: sep_lt.induct) auto

lemma sep_lt_same_prefix [simp]: "sep_lt (ps @ xs) (ps @ ys) = sep_lt xs ys"
  by (induction ps) auto

lemma sep_lt_less: "sep_lt xs ys \<Longrightarrow> xs < ys"
  by (induction xs ys rule: sep_lt.induct) auto

lemma sep_lt_less_append [enc_intro]: "sep_lt xs ys \<Longrightarrow> xs @ us < ys @ vs"
  by (rule sep_lt_less [OF sep_lt_append])

lemma sep_lt_irrefl [simp]: "\<not> sep_lt xs xs"
  by (induction xs) auto

lemma sep_lt_asym: "sep_lt xs ys \<Longrightarrow> \<not> sep_lt ys xs"
  by (induction xs ys rule: sep_lt.induct) auto

lemma sep_lt_append_cancel: 
  "length xs = length ys \<Longrightarrow> sep_lt (xs @ us) (ys @ vs) \<longleftrightarrow> sep_lt xs ys \<or> xs = ys \<and> sep_lt us vs"
  by (induction xs ys rule: list_induct2) auto

lemma less_same_prefix [simp]: "(ps @ xs < ps @ ys) = (xs < (ys :: 'a::linorder list))"
  by (induction ps) auto

lemma nat_less_div_mod_iff:
  "a < b \<longleftrightarrow> a div 256 < b div 256 \<or> a div 256 = b div 256 \<and> a mod 256 < b mod (256 :: nat)"
proof -
  have "a = 256 * (a div 256) + a mod 256" "b = 256 * (b div 256) + b mod 256"
    by simp_all
  moreover have "a mod 256 < 256" "b mod 256 < 256" by simp_all
  ultimately show ?thesis by linarith
qed

lemma sep_lt_be_bytes:
  assumes "a < 256 ^ n" and "b < 256 ^ n"
  shows "sep_lt (be_bytes n a) (be_bytes n b) \<longleftrightarrow> a < b"
  using assms
proof (induction n arbitrary: a b)
  case 0
  then show ?case by simp
next
  case (Suc n)
  have div: "a div 256 < 256 ^ n" "b div 256 < 256 ^ n"
    using Suc.prems by (simp_all add: less_mult_imp_div_less mult.commute)
  have inj: "be_bytes n (a div 256) = be_bytes n (b div 256) \<longleftrightarrow> a div 256 = b div 256"
    using div by (metis be_val_be_bytes_id)
  have low: "(word_of_nat a :: u8) < word_of_nat b \<longleftrightarrow> a mod 256 < b mod 256"
    by (simp add: word_less_nat_alt unat_of_nat)
  have "sep_lt (be_bytes (Suc n) a) (be_bytes (Suc n) b) \<longleftrightarrow>
      a div 256 < b div 256 \<or> a div 256 = b div 256 \<and> a mod 256 < b mod 256"
    using Suc.IH [OF div] inj low by (simp add: sep_lt_append_cancel)
  also have "\<dots> \<longleftrightarrow> a < b"
    by (rule nat_less_div_mod_iff [symmetric])
  finally show ?case .
qed

lemma unat_ucast_u8: "unat (ucast (w :: 'a::len word) :: u8) = unat w mod 256"
  by (simp add: unsigned_ucast_eq take_bit_eq_mod)

lemma sint_uint_if:
  "sint (w :: 'a::len word) =
     (if uint w < 2 ^ (LENGTH('a) - 1) then uint w else uint w - 2 ^ LENGTH('a))"
proof -
  let ?k = "uint w" and ?n = "LENGTH('a) - Suc 0"
  have n: "Suc ?n = LENGTH('a)" by simp
  have k: "0 \<le> ?k" "?k < 2 ^ Suc ?n" using uint_bounded [of w] by (auto simp: n)
  have k2: "?k < 2 ^ ?n + 2 ^ ?n" using k(2) by (simp only: power_Suc mult_2)
  have "?k div 2 ^ ?n = (if ?k < 2 ^ ?n then 0 else 1)"
  proof (cases "?k < 2 ^ ?n")
    case True
    then show ?thesis using k by (simp add: div_pos_pos_trivial)
  next
    case False
    then have "?k div 2 ^ ?n = 1"
      using k(1) k2 by (intro int_div_pos_eq [of _ _ _ "?k - 2 ^ ?n"]) auto
    then show ?thesis using False by simp
  qed
  then have "bit ?k ?n \<longleftrightarrow> \<not> ?k < 2 ^ ?n" by (simp add: bit_iff_odd)
  moreover have "sint w = take_bit (Suc ?n) ?k - 2 ^ Suc ?n * of_bool (bit ?k ?n)"
    unfolding sint_uint signed_take_bit_eq_take_bit_minus ..
  moreover have "take_bit (Suc ?n) ?k = ?k" using k by (simp add: take_bit_int_eq_self)
  ultimately show ?thesis using n by auto
qed

lemma sint_i64: "sint (i :: i64) = (if unat i < 2 ^ 63 then int (unat i) else int (unat i) - 2 ^ 64)"
proof -
  have "unat i < 2 ^ 63 \<longleftrightarrow> uint i < 2 ^ 63"
    unfolding uint_nat by (simp only: of_nat_less_numeral_power_cancel_iff)
  then show ?thesis using sint_uint_if [of i] by simp
qed
lemma unat_i64_less: "unat (i :: i64) < 2 ^ 64"
  using unsigned_less [of i, where ?'a = nat] by simp

lemma be_bytes_inj: "a < 256 ^ n \<Longrightarrow> b < 256 ^ n \<Longrightarrow> be_bytes n a = be_bytes n b \<longleftrightarrow> a = b"
  by (metis be_val_be_bytes_id)

lemma unat_NOT: "unat (NOT (w :: 'a::len word)) = 2 ^ LENGTH('a) - 1 - unat w"
proof -
  have "NOT w = - 1 - w" by (simp add: not_eq_complement)
  moreover have "unat (- 1 - w) = unat (- 1 :: 'a word) - unat w"
    by (rule unat_sub) simp
  moreover have "unat (- 1 :: 'a word) = 2 ^ LENGTH('a) - 1"
    by (simp add: unsigned_minus_1_eq_mask mask_eq_exp_minus_1)
  ultimately show ?thesis by simp
qed

lemma not_u8_less_iff [simp]: "NOT a < NOT b \<longleftrightarrow> b < (a :: u8)"
proof -
  show ?thesis using unat_u8_less [of a] unat_u8_less [of b]
    by (simp add: word_less_nat_alt unat_NOT) linarith
qed

lemma not_u8_inject [simp]: "NOT a = NOT b \<longleftrightarrow> a = (b :: u8)"
  by (metis bit.double_compl)

lemma sep_lt_map_NOT: "sep_lt (map NOT xs) (map NOT ys) = sep_lt ys (xs :: bytes)"
  by (induction ys xs rule: sep_lt.induct) auto

lemma u16_be_inverse [simp]: "u16_of_be (u16_to_be w) = w"
  using unsigned_less [of w, where ?'a = nat]
  by (simp add: u16_of_be_def u16_to_be_def)

lemma u32_be_inverse [simp]: "u32_of_be (u32_to_be w) = w"
  using unsigned_less [of w, where ?'a = nat]
  by (simp add: u32_of_be_def u32_to_be_def)

lemma u64_be_inverse [simp]: "u64_of_be (u64_to_be w) = w"
  using unsigned_less [of w, where ?'a = nat]
  by (simp add: u64_of_be_def u64_to_be_def)

lemma length_to_be [simp]:
  "length (u16_to_be a) = 2" "length (u32_to_be b) = 4" "length (u64_to_be c) = 8"
  by (simp_all add: u16_to_be_def u32_to_be_def u64_to_be_def)

end
