(* ===== verification/Encoding_Core.thy ===== *)
theory Encoding_Core
  imports Prelude
begin

text \<open>
  The sortable byte encodings of the data crate (\<open>data/src/encoding_core.rs\<close>) for integers and
  byte strings, and the sort order of \<open>data/src/lib.rs\<close>.  The writers append to the buffer they
  are given, as the code does; the readers return the value and the rest of the buffer, and
  \<open>None\<close> where the code indexes past the end of the slice.  The lemmas show that every reader
  undoes its writer and that the bytes sort as the values do, ascending or descending.
\<close>

section \<open>Sort order\<close>

datatype sort_order = Asc | Desc

fun is_asc :: "sort_order \<Rightarrow> bool" where
  "is_asc Asc = True"
| "is_asc Desc = False"

fun is_desc :: "sort_order \<Rightarrow> bool" where
  "is_desc Desc = True"
| "is_desc Asc = False"

section \<open>Unsigned integers\<close>

definition write_varint_unsigned :: "u64 \<Rightarrow> sort_order \<Rightarrow> bytes \<Rightarrow> bytes" where
  "write_varint_unsigned i so buffer =
     (if is_desc so then
        if i < 253 then buffer @ [NOT (ucast i)]
        else if i \<le> 0xFFFF then buffer @ [NOT 253] @ u16_to_be (NOT (ucast i))
        else if i \<le> 0xFFFFFFFF then buffer @ [NOT 254] @ u32_to_be (NOT (ucast i))
        else buffer @ [NOT 255] @ u64_to_be (NOT i)
      else
        if i < 253 then buffer @ [ucast i]
        else if i \<le> 0xFFFF then buffer @ [253] @ u16_to_be (ucast i)
        else if i \<le> 0xFFFFFFFF then buffer @ [254] @ u32_to_be (ucast i)
        else buffer @ [255] @ u64_to_be i)"

definition read_varint_unsigned :: "sort_order \<Rightarrow> bytes \<Rightarrow> (u64 \<times> bytes) option" where
  "read_varint_unsigned so buffer =
     (case buffer of [] \<Rightarrow> None
      | b # rem \<Rightarrow>
        if is_desc so then
          if b = 2 then map_option (apfst (\<lambda>h. ucast (NOT (u16_of_be h)))) (split_at 2 rem)
          else if b = 1 then map_option (apfst (\<lambda>h. ucast (NOT (u32_of_be h)))) (split_at 4 rem)
          else if b = 0 then map_option (apfst (\<lambda>h. NOT (u64_of_be h))) (split_at 8 rem)
          else Some (ucast (NOT b), rem)
        else
          if b = 253 then map_option (apfst (\<lambda>h. ucast (u16_of_be h))) (split_at 2 rem)
          else if b = 254 then map_option (apfst (\<lambda>h. ucast (u32_of_be h))) (split_at 4 rem)
          else if b = 255 then map_option (apfst u64_of_be) (split_at 8 rem)
          else Some (ucast b, rem))"

section \<open>Signed integers\<close>

definition VARINT_SIGNED_ZERO_ENC :: u8 where
  "VARINT_SIGNED_ZERO_ENC = 103"

definition i64_min :: i64 where
  "i64_min = 0x8000000000000000"

definition write_varint_signed :: "i64 \<Rightarrow> sort_order \<Rightarrow> bytes \<Rightarrow> bytes" where
  "write_varint_signed i0 so buffer =
     (if is_desc so \<and> i0 = i64_min then buffer @ [255] @ u64_to_be (- 1)
      else
        let i = (if is_desc so then - i0 else i0) in
        if 0 \<le> sint i then
          if sint i \<le> 148 then buffer @ [ucast i + 103]
          else if sint i \<le> 0xFF then buffer @ [252] @ [ucast i]
          else if sint i \<le> 0xFFFF then buffer @ [253] @ u16_to_be (ucast i)
          else if sint i \<le> 0xFFFFFFFF then buffer @ [254] @ u32_to_be (ucast i)
          else buffer @ [255] @ u64_to_be i
        else
          if sint i \<ge> - 99 then buffer @ [ucast (i + 103)]
          else if sint i \<ge> - 0xFF then buffer @ [3] @ [NOT (ucast (- i))]
          else if sint i \<ge> - 0xFFFF then buffer @ [2] @ u16_to_be (NOT (ucast (- i)))
          else if sint i \<ge> - 0xFFFFFFFF then buffer @ [1] @ u32_to_be (NOT (ucast (- i)))
          else buffer @ [0] @ u64_to_be i)"

definition read_varint_signed :: "sort_order \<Rightarrow> bytes \<Rightarrow> (i64 \<times> bytes) option" where
  "read_varint_signed so buffer =
     (case buffer of [] \<Rightarrow> None
      | b # rem \<Rightarrow>
        let fin = (\<lambda>(i, rest). (if is_desc so then - i else i, rest)) in
        if b = 0 then map_option fin (map_option (apfst u64_of_be) (split_at 8 rem))
        else if b = 1 then
          map_option fin (map_option (apfst (\<lambda>h. - ucast (NOT (u32_of_be h)))) (split_at 4 rem))
        else if b = 2 then
          map_option fin (map_option (apfst (\<lambda>h. - ucast (NOT (u16_of_be h)))) (split_at 2 rem))
        else if b = 3 then
          map_option fin (map_option (apfst (\<lambda>h. - ucast (NOT (hd h)))) (split_at 1 rem))
        else if b = 252 then map_option fin (map_option (apfst (\<lambda>h. ucast (hd h))) (split_at 1 rem))
        else if b = 253 then
          map_option fin (map_option (apfst (\<lambda>h. ucast (u16_of_be h))) (split_at 2 rem))
        else if b = 254 then
          map_option fin (map_option (apfst (\<lambda>h. ucast (u32_of_be h))) (split_at 4 rem))
        else if b = 255 then
          (case split_at 8 rem of None \<Rightarrow> None
           | Some (h, rest) \<Rightarrow>
             let u = u64_of_be h in
             if is_desc so \<and> u = - 1 then Some (i64_min, rest) else Some (fin (u, rest)))
        else Some (fin (ucast b - 103, rem)))"

text \<open>\<open>i32\<close> goes through the \<open>i64\<close> encoding, sign extended on the way in and truncated on the
  way out.\<close>

definition write_sortable_i32 :: "i32 \<Rightarrow> sort_order \<Rightarrow> bytes \<Rightarrow> bytes" where
  "write_sortable_i32 i so buffer = write_varint_signed (scast i) so buffer"

definition read_sortable_i32 :: "sort_order \<Rightarrow> bytes \<Rightarrow> (i32 \<times> bytes) option" where
  "read_sortable_i32 so buffer = map_option (apfst ucast) (read_varint_signed so buffer)"

section \<open>Byte strings\<close>

function write_sortable_bytes :: "bytes \<Rightarrow> sort_order \<Rightarrow> bytes \<Rightarrow> bytes" where
  "write_sortable_bytes bs so buffer =
     (if is_asc so then
        if length bs > 8 then write_sortable_bytes (drop 8 bs) so (buffer @ take 8 bs @ [9])
        else buffer @ bs @ replicate (8 - length bs) 0 @ [word_of_nat (length bs)]
      else
        if length bs > 8 then
          let inverted = NOT (word_of_nat (le_val (take 8 bs)) :: u64) in
          write_sortable_bytes (drop 8 bs) so (buffer @ le_bytes 8 (unat inverted) @ [NOT 9])
        else buffer @ map NOT bs @ replicate (8 - length bs) (NOT 0) @ [NOT (word_of_nat (length bs))])"
  by pat_completeness auto
termination
  by (relation "measure (\<lambda>(bs, so, buffer). length bs)") auto

function read_sortable_bytes_loop :: "sort_order \<Rightarrow> bytes \<Rightarrow> bytes \<Rightarrow> (bytes \<times> bytes) option" where
  "read_sortable_bytes_loop so acc rem =
     (if length rem < 9 then None
      else if is_asc so then
        let t = rem ! 8; chunk_len = min (unat t) 8; acc' = acc @ take chunk_len rem in
        if t \<noteq> 9 then Some (acc', drop 9 rem) else read_sortable_bytes_loop so acc' (drop 9 rem)
      else
        let t = NOT (rem ! 8); chunk_len = min (unat t) 8;
            acc' = acc @ (if chunk_len \<ge> 8
              then le_bytes 8 (unat (NOT (word_of_nat (le_val (take 8 rem)) :: u64)))
              else map NOT (take chunk_len rem)) in
        if t \<noteq> 9 then Some (acc', drop 9 rem) else read_sortable_bytes_loop so acc' (drop 9 rem))"
  by pat_completeness auto
termination
  by (relation "measure (\<lambda>(so, acc, rem). length rem)") auto

definition read_sortable_bytes :: "sort_order \<Rightarrow> bytes \<Rightarrow> (bytes \<times> bytes) option" where
  "read_sortable_bytes so buffer = read_sortable_bytes_loop so [] buffer"

declare write_sortable_bytes.simps [simp del] read_sortable_bytes_loop.simps [simp del]

section \<open>Tagged integers\<close>

text \<open>Every integer encoding is a tag byte followed by a fixed number of big endian bytes.\<close>

definition tagged :: "nat \<Rightarrow> nat \<Rightarrow> nat \<Rightarrow> bytes" where
  "tagged t n v = word_of_nat t # be_bytes n v"

lemma tagged_sep_lt:
  assumes "t < 256" "t' < 256" "v < 256 ^ n" "v' < 256 ^ n'" "t = t' \<Longrightarrow> n = n'"
  shows "sep_lt (tagged t n v) (tagged t' n' v') \<longleftrightarrow> t < t' \<or> t = t' \<and> v < v'"
proof -
  have "(word_of_nat t :: u8) < word_of_nat t' \<longleftrightarrow> t < t'"
    using assms by (simp add: word_less_nat_alt unat_of_nat)
  moreover have "(word_of_nat t :: u8) = word_of_nat t' \<longleftrightarrow> t = t'"
    using assms by (simp add: word_unat_eq_iff unat_of_nat)
  ultimately show ?thesis using assms by (auto simp: tagged_def sep_lt_be_bytes)
qed

lemma be_bytes_mod [simp]: "be_bytes n (v mod 256 ^ n) = be_bytes n v"
  by (metis be_bytes_be_val be_val_be_bytes length_be_bytes)

lemma be_bytes_ucast:
  assumes n: "256 ^ n = (2 :: nat) ^ LENGTH('b)"
  shows "be_bytes n (unat (ucast (w :: 'a::len word) :: 'b::len word)) = be_bytes n (unat w)"
proof -
  have "unat (ucast w :: 'b word) = unat w mod 256 ^ n"
    by (simp add: unsigned_ucast_eq take_bit_eq_mod n)
  then show ?thesis by simp
qed

lemma be_bytes_NOT: 
  assumes "length bs = n" shows "be_bytes n (256 ^ n - 1 - be_val bs) = map NOT bs"
  using assms
proof (induction bs arbitrary: n rule: rev_induct)
  case Nil
  then show ?case by simp
next
  case (snoc b bs)
  then obtain m where m: "n = Suc m" "length bs = m" by auto
  have lt: "be_val bs < 256 ^ m" using be_val_less [of bs] m by simp
  have eq: "256 ^ n - 1 - be_val (bs @ [b]) = (256 ^ m - 1 - be_val bs) * 256 + (255 - unat b)"
    using lt unat_u8_less [of b] m by (simp add: algebra_simps)
  have "((256 ^ m - 1 - be_val bs) * 256 + (255 - unat b)) div 256 = 256 ^ m - 1 - be_val bs"
    by simp
  moreover have "(word_of_nat ((256 ^ m - 1 - be_val bs) * 256 + (255 - unat b)) :: u8) = NOT b"
  proof -
    have "(k * 256 + (255 - unat b)) mod 256 = 255 - unat b" for k :: nat
      by (rule mod_mult_self3 [THEN trans]) simp
    then show ?thesis unfolding word_unat_eq_iff unat_of_nat unat_NOT by simp
  qed
  ultimately show ?case using snoc.IH [OF m(2)] m eq by simp
qed

lemma le_bytes_NOT_u64:
  assumes "length bs = 8"
  shows "le_bytes 8 (unat (NOT (word_of_nat (le_val bs) :: u64))) = map NOT bs"
proof -
  have lt: "be_val (rev bs) < 256 ^ 8" using be_val_less [of "rev bs"] assms by simp
  have "unat (NOT (word_of_nat (le_val bs) :: u64)) = 256 ^ 8 - 1 - be_val (rev bs)"
    using lt by (simp add: unat_NOT unat_of_nat le_val_def)
  then have "be_bytes 8 (unat (NOT (word_of_nat (le_val bs) :: u64))) = map NOT (rev bs)"
    using be_bytes_NOT [of "rev bs" 8] assms by simp
  then show ?thesis by (simp add: le_bytes_def rev_map)
qed

section \<open>The signed encoding\<close>

text \<open>What the writer produces, over the mathematical integers: the reference the code is proved
  equal to.\<close>

definition varint_spec :: "int \<Rightarrow> bytes" where
  "varint_spec k =
     (if k < - 0xFFFFFFFF then tagged 0 8 (nat (2 ^ 64 + k))
      else if k < - 0xFFFF then tagged 1 4 (nat (2 ^ 32 - 1 + k))
      else if k < - 0xFF then tagged 2 2 (nat (2 ^ 16 - 1 + k))
      else if k < - 99 then tagged 3 1 (nat (2 ^ 8 - 1 + k))
      else if k \<le> 148 then tagged (nat (k + 103)) 0 0
      else if k \<le> 0xFF then tagged 252 1 (nat k)
      else if k \<le> 0xFFFF then tagged 253 2 (nat k)
      else if k \<le> 0xFFFFFFFF then tagged 254 4 (nat k)
      else tagged 255 8 (nat k))"

lemma varint_spec_mono:
  assumes "- (2 ^ 63) \<le> j" "j < k" "k < 2 ^ 63"
  shows "sep_lt (varint_spec j) (varint_spec k)"
  using assms unfolding varint_spec_def
  by (auto simp: tagged_sep_lt)

lemma i64_nonneg: "0 \<le> sint (i :: i64) \<Longrightarrow> unat i = nat (sint i)"
  using unat_i64_less [of i] sint_i64 [of i] by (simp del: of_nat_unat split: if_splits)

lemma i64_neg: "sint (i :: i64) < 0 \<Longrightarrow> unat i = nat (2 ^ 64 + sint i)"
  using unat_i64_less [of i] sint_i64 [of i] by (simp del: of_nat_unat split: if_splits)

lemma i64_uminus: "sint (i :: i64) < 0 \<Longrightarrow> unat (- i) = nat (- sint i)"
proof -
  assume n: "sint i < 0"
  have "- (2 ^ 63) \<le> sint i" using sint_ge [of i] by simp
  moreover have "- i = word_of_int (- sint i)" by simp
  then have "uint (- i) = (- sint i) mod 2 ^ 64" by (simp only: uint_word_of_int) simp
  ultimately have "uint (- i) = - sint i" using n by simp
  then show ?thesis by (metis unat_eq_nat_uint)
qed

lemma ucast_as_of_nat: "(ucast (w :: 'a::len word) :: 'b::len word) = word_of_nat (unat w)"
  by (simp add: word_unat_eq_iff)

lemma tagged_intros:
  "[ucast w + 103] = tagged (unat (w :: i64) + 103) 0 0"
  "[252, ucast w] = tagged 252 1 (unat w)"
  "253 # u16_to_be (ucast w) = tagged 253 2 (unat w)"
  "254 # u32_to_be (ucast w) = tagged 254 4 (unat w)"
  "255 # u64_to_be w = tagged 255 8 (unat w)"
  "0 # u64_to_be w = tagged 0 8 (unat w)"
proof -
  show "[ucast w + 103] = tagged (unat w + 103) 0 0" by (simp add: tagged_def)
  show "[252, ucast w] = tagged 252 1 (unat w)" by (simp add: tagged_def)
  show "253 # u16_to_be (ucast w) = tagged 253 2 (unat w)"
    unfolding tagged_def u16_to_be_def by (subst be_bytes_ucast) simp_all
  show "254 # u32_to_be (ucast w) = tagged 254 4 (unat w)"
    unfolding tagged_def u32_to_be_def by (subst be_bytes_ucast) simp_all
  show "255 # u64_to_be w = tagged 255 8 (unat w)" by (simp only: tagged_def u64_to_be_def of_nat_numeral)
  show "0 # u64_to_be w = tagged 0 8 (unat w)" by (simp add: tagged_def u64_to_be_def del: be_bytes.simps)
qed

lemma tagged_NOT_intros:
  assumes "unat (w :: i64) = nat (- k)" "k \<le> 0"
  shows "- 0xFF \<le> k \<Longrightarrow> [3, NOT (ucast w)] = tagged 3 1 (nat (2 ^ 8 - 1 + k))"
    and "- 0xFFFF \<le> k \<Longrightarrow> 2 # u16_to_be (NOT (ucast w)) = tagged 2 2 (nat (2 ^ 16 - 1 + k))"
    and "- 0xFFFFFFFF \<le> k \<Longrightarrow> 1 # u32_to_be (NOT (ucast w)) = tagged 1 4 (nat (2 ^ 32 - 1 + k))"
proof -
  assume k: "- 0xFF \<le> k"
  have "unat (NOT (ucast w) :: u8) = nat (2 ^ 8 - 1 + k)"
    using assms k by (simp add: unat_NOT unsigned_ucast_eq take_bit_eq_mod)
  then have "NOT (ucast w) = (word_of_nat (nat (2 ^ 8 - 1 + k)) :: u8)"
    by (metis of_nat_unat ucast_id)
  then show "[3, NOT (ucast w)] = tagged 3 1 (nat (2 ^ 8 - 1 + k))" by (simp add: tagged_def)
next
  assume k: "- 0xFFFF \<le> k"
  have "unat (NOT (ucast w) :: u16) = nat (2 ^ 16 - 1 + k)"
    using assms k by (simp add: unat_NOT unsigned_ucast_eq take_bit_eq_mod)
  then show "2 # u16_to_be (NOT (ucast w)) = tagged 2 2 (nat (2 ^ 16 - 1 + k))"
    by (simp add: tagged_def u16_to_be_def)
next
  assume k: "- 0xFFFFFFFF \<le> k"
  have "unat (NOT (ucast w) :: u32) = nat (2 ^ 32 - 1 + k)"
    using assms k by (simp add: unat_NOT unsigned_ucast_eq take_bit_eq_mod)
  then show "1 # u32_to_be (NOT (ucast w)) = tagged 1 4 (nat (2 ^ 32 - 1 + k))"
    by (simp add: tagged_def u32_to_be_def)
qed

lemma small_negative: "sint (i :: i64) < 0 \<Longrightarrow> - 99 \<le> sint i \<Longrightarrow> [ucast (i + 103)] = tagged (nat (sint i + 103)) 0 0"
proof -
  assume i: "sint i < 0" "- 99 \<le> sint i"
  have "unat i = nat (2 ^ 64 + sint i)" using i64_neg i by blast
  moreover have "unat (i + 103) = (unat i + 103) mod 2 ^ 64" by (simp add: unat_word_ariths)
  moreover have "nat (2 ^ 64 + sint i) + 103 = 2 ^ 64 + nat (sint i + 103)" using i by simp
  ultimately have "unat (i + 103) = nat (sint i + 103)"
    using i by simp
  then show ?thesis by (simp add: tagged_def ucast_as_of_nat)
qed

lemma write_varint_signed_Asc: "write_varint_signed i Asc buf = buf @ varint_spec (sint i)"
proof (cases "0 \<le> sint i")
  case True
  then show ?thesis
    by (simp add: write_varint_signed_def varint_spec_def tagged_intros i64_nonneg nat_add_distrib)
next
  case False
  then have n: "sint i < 0" by simp
  note t = tagged_NOT_intros [of "- i" "sint i"] 
  show ?thesis using n i64_neg [OF n] i64_uminus [OF n] t
    by (simp add: write_varint_signed_def varint_spec_def tagged_intros small_negative)
qed

lemma u8_of_nat_eq_iff: "t < 256 \<Longrightarrow> c < 256 \<Longrightarrow> (word_of_nat t :: u8) = word_of_nat c \<longleftrightarrow> t = c"
  by (simp add: word_unat_eq_iff unat_of_nat)

lemma neg_ucast_NOT:
  assumes "v = nat (2 ^ LENGTH('a) - 1 + k)" "- (2 ^ LENGTH('a) - 1) \<le> k" "k \<le> 0"
  shows "- ucast (NOT (word_of_nat v :: 'a::len word)) = (word_of_int k :: i64)"
proof -
  have v: "v < 2 ^ LENGTH('a)" using assms by (simp add: nat_less_iff)
  then have "unat (word_of_nat v :: 'a word) = v" by (simp add: unat_of_nat)
  then have "unat (NOT (word_of_nat v :: 'a word)) = 2 ^ LENGTH('a) - 1 - v" by (simp add: unat_NOT)
  also have "\<dots> = nat (- k)"
  proof -
    have "int v = 2 ^ LENGTH('a) - 1 + k" using assms by simp
    moreover have "int (2 ^ LENGTH('a) - 1 - v) = 2 ^ LENGTH('a) - 1 - int v"
      using v by (simp add: of_nat_diff)
    ultimately show ?thesis by linarith
  qed
  finally show ?thesis using assms(3) by (simp only: ucast_as_of_nat) simp
qed

lemma ucast_of_nat_small:
  "v < 2 ^ LENGTH('a) \<Longrightarrow> (ucast (word_of_nat v :: 'a::len word) :: 'b::len word) = word_of_nat v"
  by (simp only: ucast_as_of_nat) (simp add: unat_of_nat)

definition fin :: "sort_order \<Rightarrow> i64 \<Rightarrow> i64" where
  "fin so i = (if is_desc so then - i else i)"

lemma read_small:
  assumes "4 \<le> t" "t \<le> 251" 
  shows "read_varint_signed so (tagged t 0 0 @ rest) = Some (fin so (word_of_nat t - 103), rest)"
proof -
  have ne: "(word_of_nat t :: u8) = word_of_nat c \<longleftrightarrow> t = c" if "c < 256" for c
    using that assms by (intro u8_of_nat_eq_iff) auto
  have "(word_of_nat t :: u8) \<noteq> 0" "(word_of_nat t :: u8) \<noteq> 1" "(word_of_nat t :: u8) \<noteq> 2"
    "(word_of_nat t :: u8) \<noteq> 3" "(word_of_nat t :: u8) \<noteq> 252" "(word_of_nat t :: u8) \<noteq> 253"
    "(word_of_nat t :: u8) \<noteq> 254" "(word_of_nat t :: u8) \<noteq> 255"
    using ne [of 0] ne [of 1] ne [of 2] ne [of 3] ne [of 252] ne [of 253] ne [of 254] ne [of 255] assms
    by auto
  moreover have "(ucast (word_of_nat t :: u8) :: i64) = word_of_nat t"
    using assms by (simp only: ucast_as_of_nat) (simp add: unat_of_nat)
  ultimately show ?thesis
    by (simp add: read_varint_signed_def tagged_def fin_def)
qed

lemma read_varint_signed_spec:
  assumes "- (2 ^ 63) \<le> k" "k < 2 ^ 63"
  shows "read_varint_signed so (varint_spec k @ rest) = Some (fin so (word_of_int k), rest)"
proof -
  consider "k < - 0xFFFFFFFF" | "- 0xFFFFFFFF \<le> k" "k < - 0xFFFF" | "- 0xFFFF \<le> k" "k < - 0xFF"
    | "- 0xFF \<le> k" "k < - 99" | "- 99 \<le> k" "k \<le> 148" | "148 < k" "k \<le> 0xFF"
    | "0xFF < k" "k \<le> 0xFFFF" | "0xFFFF < k" "k \<le> 0xFFFFFFFF" | "0xFFFFFFFF < k"
    by linarith
  then show ?thesis
  proof cases
    case 1
    then have "(word_of_nat (nat (2 ^ 64 + k)) :: i64) = word_of_int k" using assms 
      by simp
    then show ?thesis using 1 assms
      by (simp add: varint_spec_def read_varint_signed_def tagged_def u64_of_be_def fin_def del: be_bytes.simps)
  next
    case 2
    then show ?thesis using neg_ucast_NOT [where 'a = 32, of _ k]
      by (simp add: varint_spec_def read_varint_signed_def tagged_def u32_of_be_def fin_def nat_less_iff del: be_bytes.simps)
  next
    case 3
    then show ?thesis using neg_ucast_NOT [where 'a = 16, of _ k]
      by (simp add: varint_spec_def read_varint_signed_def tagged_def u16_of_be_def fin_def nat_less_iff del: be_bytes.simps)
  next
    case 4
    then show ?thesis using neg_ucast_NOT [where 'a = 8, of _ k]
      by (simp add: varint_spec_def read_varint_signed_def tagged_def fin_def split_at_def)
  next
    case 5
    then show ?thesis using read_small [of "nat (k + 103)" so rest]
      by (simp add: varint_spec_def)
  next
    case 6
    then show ?thesis using ucast_of_nat_small [where 'a = 8 and 'b = 64, of "nat k"]
      by (simp add: varint_spec_def read_varint_signed_def tagged_def fin_def split_at_def ucast_of_nat_small nat_less_iff)
  next
    case 7
    then show ?thesis using ucast_of_nat_small [where 'a = 16 and 'b = 64, of "nat k"]
      by (simp add: varint_spec_def read_varint_signed_def tagged_def u16_of_be_def fin_def nat_less_iff ucast_of_nat_small nat_less_iff del: be_bytes.simps)
  next
    case 8
    then show ?thesis using ucast_of_nat_small [where 'a = 32 and 'b = 64, of "nat k"]
      by (simp add: varint_spec_def read_varint_signed_def tagged_def u32_of_be_def fin_def nat_less_iff ucast_of_nat_small nat_less_iff del: be_bytes.simps)
  next
    case 9
    then have "(word_of_nat (nat k) :: i64) \<noteq> - 1" using assms
      by (simp add: word_uint_eq_iff uint_word_of_int unsigned_minus_1_eq_mask mask_eq_exp_minus_1)
    then show ?thesis using 9 assms
      by (simp add: varint_spec_def read_varint_signed_def tagged_def u64_of_be_def fin_def nat_less_iff del: be_bytes.simps)
  qed
qed

lemma sint_i64_bounds: "- (2 ^ 63) \<le> sint (i :: i64)" "sint (i :: i64) < 2 ^ 63"
  using sint_ge [of i] sint_lt [of i] by simp_all

lemma read_write_signed_Asc:
  "read_varint_signed Asc (write_varint_signed i Asc [] @ rest) = Some (i, rest)"
  using read_varint_signed_spec [OF sint_i64_bounds, of Asc i rest]
  by (simp add: write_varint_signed_Asc fin_def)

lemma sint_i64_min_iff: "i = i64_min \<longleftrightarrow> sint i = - (2 ^ 63)"
proof -
  have "sint i64_min = - (2 ^ 63)" by (simp add: i64_min_def)
  then show ?thesis by (metis signed_word_eqI)
qed

lemma sint_i64_uminus: "i \<noteq> i64_min \<Longrightarrow> sint (- i :: i64) = - sint i"
proof -
  assume "i \<noteq> i64_min"
  then have "- (2 ^ 63) < sint i" using sint_i64_bounds [of i] by (simp add: sint_i64_min_iff)
  then have "signed_take_bit 63 (- sint i) = - sint i"
    using sint_i64_bounds [of i] by (simp add: signed_take_bit_int_eq_self)
  moreover have "- i = word_of_int (- sint i)" by simp
  moreover have "sint (word_of_int (- sint i) :: i64) = signed_take_bit 63 (- sint i)"
    by (subst signed_of_int) simp
  ultimately show ?thesis by simp
qed

lemma write_varint_signed_Desc:
  "write_varint_signed i Desc buf =
     buf @ (if i = i64_min then tagged 255 8 (2 ^ 64 - 1) else varint_spec (- sint i))"
proof (cases "i = i64_min")
  case True
  then show ?thesis by (simp add: write_varint_signed_def tagged_def u64_to_be_def unsigned_minus_1_eq_mask mask_eq_exp_minus_1)
next
  case False
  have "write_varint_signed i Desc buf = write_varint_signed (- i) Asc buf"
    using False by (simp add: write_varint_signed_def)
  then show ?thesis using False by (simp add: write_varint_signed_Asc sint_i64_uminus)
qed

lemma read_write_signed_Desc:
  "read_varint_signed Desc (write_varint_signed i Desc [] @ rest) = Some (i, rest)"
proof (cases "i = i64_min")
  case True
  then show ?thesis
    by (simp add: write_varint_signed_Desc read_varint_signed_def tagged_def u64_of_be_def del: be_bytes.simps)
next
  case False
  then have "- (2 ^ 63) < sint i" using sint_i64_bounds [of i] by (simp add: sint_i64_min_iff)
  then show ?thesis
    using read_varint_signed_spec [of "- sint i" Desc rest] sint_i64_bounds [of i] False
    by (simp add: write_varint_signed_Desc fin_def)
qed

lemma varint_spec_max:
  assumes "- (2 ^ 63) \<le> k" "k < 2 ^ 63"
  shows "sep_lt (varint_spec k) (tagged 255 8 (2 ^ 64 - 1))"
  using assms unfolding varint_spec_def by (auto simp: tagged_sep_lt)

lemma write_signed_Asc_mono: "sint i < sint j \<Longrightarrow> sep_lt (write_varint_signed i Asc []) (write_varint_signed j Asc [])"
  using sint_i64_bounds [of i] sint_i64_bounds [of j] by (simp add: write_varint_signed_Asc varint_spec_mono)

lemma write_signed_Desc_mono: "sint i < sint j \<Longrightarrow> sep_lt (write_varint_signed j Desc []) (write_varint_signed i Desc [])"
  using sint_i64_bounds [of i] sint_i64_bounds [of j] varint_spec_max [of "- sint j"]
  by (auto simp: write_varint_signed_Desc sint_i64_min_iff varint_spec_mono)

section \<open>The unsigned encoding\<close>

definition uvarint_spec :: "nat \<Rightarrow> bytes" where
  "uvarint_spec v =
     (if v < 253 then tagged v 0 0
      else if v \<le> 0xFFFF then tagged 253 2 v
      else if v \<le> 0xFFFFFFFF then tagged 254 4 v
      else tagged 255 8 v)"

lemma uvarint_spec_mono: "u < v \<Longrightarrow> v < 2 ^ 64 \<Longrightarrow> sep_lt (uvarint_spec u) (uvarint_spec v)"
  unfolding uvarint_spec_def by (auto simp: tagged_sep_lt)

lemma u64_le_iffs:
  "(i :: u64) < 253 \<longleftrightarrow> unat i < 253"
  "i \<le> 0xFFFF \<longleftrightarrow> unat i \<le> 0xFFFF"
  "i \<le> 0xFFFFFFFF \<longleftrightarrow> unat i \<le> 0xFFFFFFFF"
  by (simp_all add: word_less_nat_alt word_le_nat_alt)

lemma write_varint_unsigned_Asc: "write_varint_unsigned i Asc buf = buf @ uvarint_spec (unat i)"
  by (simp add: write_varint_unsigned_def uvarint_spec_def u64_le_iffs tagged_intros) (simp add: tagged_def)

lemma be_bytes_unat_NOT:
  assumes "256 ^ n = (2 :: nat) ^ LENGTH('a)"
  shows "be_bytes n (unat (NOT w :: 'a::len word)) = map NOT (be_bytes n (unat w))"
proof -
  have "unat w < 256 ^ n" using unsigned_less [of w, where ?'a = nat] assms by simp
  then have "be_val (be_bytes n (unat w)) = unat w" by simp
  then show ?thesis using be_bytes_NOT [of "be_bytes n (unat w)" n] assms by (simp add: unat_NOT)
qed

lemma write_varint_unsigned_Desc: "write_varint_unsigned i Desc buf = buf @ map NOT (uvarint_spec (unat i))"
proof -
  have "write_varint_unsigned i Desc [] = map NOT (write_varint_unsigned i Asc [])"
    by (simp add: write_varint_unsigned_def u16_to_be_def u32_to_be_def u64_to_be_def be_bytes_unat_NOT del: be_bytes.simps)
  moreover have "write_varint_unsigned i Desc buf = buf @ write_varint_unsigned i Desc []"
    by (simp add: write_varint_unsigned_def)
  ultimately show ?thesis by (simp add: write_varint_unsigned_Asc)
qed

lemma u8_of_nat_neq: "t < 253 \<Longrightarrow> (word_of_nat t :: u8) \<notin> {253, 254, 255}"
  using u8_of_nat_eq_iff [of t 253] u8_of_nat_eq_iff [of t 254] u8_of_nat_eq_iff [of t 255] by auto

lemma read_uvarint_Asc: 
  assumes "v < 2 ^ 64"
  shows "read_varint_unsigned Asc (uvarint_spec v @ rest) = Some (word_of_nat v, rest)"
proof -
  consider "v < 253" | "253 \<le> v" "v \<le> 0xFFFF" | "0xFFFF < v" "v \<le> 0xFFFFFFFF" | "0xFFFFFFFF < v"
    by linarith
  then show ?thesis
  proof cases
    case 1
    then show ?thesis using u8_of_nat_neq [OF 1] ucast_of_nat_small [where 'a = 8 and 'b = 64, of v]
      by (simp add: uvarint_spec_def read_varint_unsigned_def tagged_def)
  qed (use assms in \<open>simp_all add: uvarint_spec_def read_varint_unsigned_def tagged_def u16_of_be_def
    u32_of_be_def u64_of_be_def ucast_of_nat_small del: be_bytes.simps\<close>)
qed

lemma be_val_map_NOT: "be_val (map NOT bs) = 256 ^ length bs - 1 - be_val bs"
proof -
  have "256 ^ length bs - 1 - be_val bs < 256 ^ length bs" using be_val_less [of bs] by linarith
  then show ?thesis using be_bytes_NOT [of bs "length bs"] be_val_be_bytes_id by metis
qed

lemma of_nat_be_val_NOT:
  assumes "256 ^ length h = (2 :: nat) ^ LENGTH('a)"
  shows "(word_of_nat (be_val (map NOT h)) :: 'a::len word) = NOT (word_of_nat (be_val h))"
proof -
  have "be_val h < 2 ^ LENGTH('a)" using be_val_less [of h] assms by simp
  then show ?thesis unfolding word_unat_eq_iff unat_NOT unat_of_nat be_val_map_NOT assms
    by (simp add: less_imp_diff_less)
qed

lemma split_at_map: "split_at n (map f xs) = map_option (map_prod (map f) (map f)) (split_at n xs)"
  by (simp add: split_at_def take_map drop_map)

lemma u8_NOT_eq_iff: "NOT b = c \<longleftrightarrow> b = NOT (c :: u8)"
  by (metis bit.double_compl)

lemma read_varint_unsigned_Desc: 
  "read_varint_unsigned Desc (map NOT bs) = map_option (apsnd (map NOT)) (read_varint_unsigned Asc bs)"
proof (cases bs)
  case Nil
  then show ?thesis by (simp add: read_varint_unsigned_def)
next
  case (Cons b r)
  have c: "NOT (2 :: u8) = 253" "NOT (1 :: u8) = 254" "NOT (0 :: u8) = 255" by simp_all
  have tags: "NOT b = 2 \<longleftrightarrow> b = 253" "NOT b = 1 \<longleftrightarrow> b = 254" "NOT b = 0 \<longleftrightarrow> b = 255"
    by (simp_all only: u8_NOT_eq_iff c)
  show ?thesis
    by (auto simp: Cons read_varint_unsigned_def tags split_at_map option.map_comp u16_of_be_def u32_of_be_def
        u64_of_be_def of_nat_be_val_NOT split_at_def take_map drop_map)
qed

lemma read_write_unsigned_Asc: "read_varint_unsigned Asc (write_varint_unsigned i Asc [] @ rest) = Some (i, rest)"
  using unat_i64_less [of i] by (simp add: write_varint_unsigned_Asc read_uvarint_Asc)

lemma read_write_unsigned_Desc: "read_varint_unsigned Desc (write_varint_unsigned i Desc [] @ rest) = Some (i, rest)"
proof -
  have "read_varint_unsigned Desc (map NOT (write_varint_unsigned i Asc [] @ map NOT rest)) = Some (i, rest)"
    unfolding read_varint_unsigned_Desc read_write_unsigned_Asc by (simp add: comp_def)
  then show ?thesis by (simp add: write_varint_unsigned_Asc write_varint_unsigned_Desc comp_def)
qed

section \<open>The byte string encoding\<close>

text \<open>The ascending encoding as a structural recursion over chunks.\<close>
function bytes_spec :: "bytes \<Rightarrow> bytes" where
  "bytes_spec bs =
     (if length bs > 8 then take 8 bs @ [9] @ bytes_spec (drop 8 bs)
      else bs @ replicate (8 - length bs) 0 @ [word_of_nat (length bs)])"
  by pat_completeness auto
termination by (relation "measure length") auto
declare bytes_spec.simps [simp del]

lemma write_sortable_bytes_Asc: "write_sortable_bytes bs Asc buf = buf @ bytes_spec bs"
proof (induction bs arbitrary: buf rule: bytes_spec.induct)
  case (1 bs)
  show ?case
  proof (cases "length bs > 8")
    case True
    then show ?thesis using 1 [OF True, of "buf @ take 8 bs @ [9]"] 
      by (simp add: write_sortable_bytes.simps [of bs] bytes_spec.simps [of bs])
  next
    case False
    then show ?thesis by (simp add: write_sortable_bytes.simps [of bs] bytes_spec.simps [of bs])
  qed
qed

lemma write_sortable_bytes_Desc: "write_sortable_bytes bs Desc buf = buf @ map NOT (bytes_spec bs)"
proof (induction bs arbitrary: buf rule: bytes_spec.induct)
  case (1 bs)
  show ?case
  proof (cases "length bs > 8")
    case True
    then show ?thesis using 1 [OF True, of "buf @ map NOT (take 8 bs) @ [NOT 9]"] le_bytes_NOT_u64 [of "take 8 bs"]
      by (simp add: write_sortable_bytes.simps [of bs] bytes_spec.simps [of bs])
  next
    case False
    then show ?thesis by (simp add: write_sortable_bytes.simps [of bs] bytes_spec.simps [of bs])
  qed
qed

lemma loop_Desc:
  "read_sortable_bytes_loop Desc acc (map NOT rem) = map_option (apsnd (map NOT)) (read_sortable_bytes_loop Asc acc rem)"
proof (induction "length rem" arbitrary: acc rem rule: less_induct)
  case less
  show ?case
  proof (cases "length rem < 9")
    case True
    then show ?thesis by (simp add: read_sortable_bytes_loop.simps)
  next
    case False
    let ?t = "rem ! 8"
    have nn: "map NOT rem ! 8 = NOT ?t" using False by simp
    have chunk: "le_bytes 8 (unat (NOT (word_of_nat (le_val (take 8 (map NOT rem))) :: u64))) = take 8 rem"
      using False le_bytes_NOT_u64 [of "take 8 (map NOT rem)"] by (simp add: take_map comp_def)
    have inv: "map NOT (take k (map NOT rem)) = take k rem" for k by (simp add: take_map comp_def)
    show ?thesis
      using less [of "drop 9 rem" "acc @ take 8 rem"] False
      by (subst (1 2) read_sortable_bytes_loop.simps) (simp add: nn chunk inv Let_def drop_map)
  qed
qed

lemma read_bytes_spec_loop:
  "read_sortable_bytes_loop Asc acc (bytes_spec bs @ rest) = Some (acc @ bs, rest)"
proof (induction bs arbitrary: acc rule: bytes_spec.induct)
  case (1 bs)
  show ?case
  proof (cases "length bs > 8")
    case True
    then have "(bytes_spec bs @ rest) ! 8 = 9" 
      by (simp add: bytes_spec.simps [of bs] nth_append)
    then show ?thesis using 1 [OF True, of "acc @ take 8 bs"] True
      by (subst read_sortable_bytes_loop.simps) (simp add: bytes_spec.simps [of bs])
  next
    case False
    have l: "unat (word_of_nat (length bs) :: u8) = length bs" using False by (simp add: unat_of_nat)
    then have "(word_of_nat (length bs) :: u8) \<noteq> 9" using False by auto
    then show ?thesis using False l
      by (subst read_sortable_bytes_loop.simps) (simp add: bytes_spec.simps [of bs] nth_append)
  qed
qed

lemma read_write_bytes_Asc: "read_sortable_bytes Asc (write_sortable_bytes bs Asc [] @ rest) = Some (bs, rest)"
  by (simp add: read_sortable_bytes_def write_sortable_bytes_Asc read_bytes_spec_loop)

lemma read_write_bytes_Desc: "read_sortable_bytes Desc (write_sortable_bytes bs Desc [] @ rest) = Some (bs, rest)"
proof -
  have "read_sortable_bytes_loop Desc [] (map NOT (bytes_spec bs @ map NOT rest)) = Some (bs, rest)"
    unfolding loop_Desc read_bytes_spec_loop by (simp add: comp_def)
  then show ?thesis by (simp add: read_sortable_bytes_def write_sortable_bytes_Desc comp_def)
qed


definition pad :: "nat \<Rightarrow> nat \<Rightarrow> bytes \<Rightarrow> bytes" where
  "pad c n xs = take n xs @ replicate (n - length xs) 0 @ [word_of_nat (min (length xs) (n + 1) + c)]"

lemma pad_simps:
  "pad c 0 xs = [word_of_nat (min (length xs) 1 + c)]"
  "pad c (Suc n) [] = 0 # pad c n []"
  "pad c (Suc n) (x # xs) = x # pad (Suc c) n xs"
  by (simp_all add: pad_def)

lemma u8_of_nat_less_iff: "a < 256 \<Longrightarrow> b < 256 \<Longrightarrow> (word_of_nat a :: u8) < word_of_nat b \<longleftrightarrow> a < b"
  by (simp add: word_less_nat_alt unat_of_nat)

lemma pad_Nil_sep_lt: "c < c' \<Longrightarrow> c' + n + 1 < 256 \<Longrightarrow> sep_lt (pad c n []) (pad c' n ys)"
proof (induction n arbitrary: c' ys)
  case 0
  then show ?case by (simp add: pad_simps u8_of_nat_less_iff min_def del: of_nat_add)
next
  case (Suc n)
  show ?case
  proof (cases ys)
    case Nil
    then show ?thesis using Suc by (simp add: pad_simps)
  next
    case (Cons y ys')
    then show ?thesis using Suc.IH [of "Suc c'" ys'] Suc.prems
      by (cases "y = 0") (auto simp: pad_simps word_gt_0)
  qed
qed

lemma pad_less:
  assumes "xs < ys" "c + n + 1 < 256"
  shows "sep_lt (pad c n xs) (pad c n ys) \<or>
    pad c n xs = pad c n ys \<and> n < length xs \<and> n < length ys \<and> take n xs = take n ys \<and> drop n xs < drop n ys"
  using assms
proof (induction n arbitrary: c xs ys)
  case 0
  then show ?case 
    by (cases xs; cases ys) (auto simp: pad_simps u8_of_nat_less_iff simp del: of_nat_add of_nat_Suc)
next
  case (Suc n)
  obtain y ys' where ys: "ys = y # ys'" using Suc.prems by (cases ys) auto
  show ?case
  proof (cases xs)
    case Nil
    then show ?thesis using pad_Nil_sep_lt [of c "Suc c" n ys'] Suc.prems ys
      by (cases "y = 0") (auto simp: pad_simps word_gt_0)
  next
    case (Cons x xs')
    then show ?thesis using Suc.IH [of xs' ys' "Suc c"] Suc.prems ys by (auto simp: pad_simps)
  qed
qed

lemma bytes_spec_pad:
  "bytes_spec bs = pad 0 8 bs @ (if length bs > 8 then bytes_spec (drop 8 bs) else [])"
  by (subst bytes_spec.simps) (simp add: pad_def)

lemma bytes_spec_mono: "xs < ys \<Longrightarrow> sep_lt (bytes_spec xs) (bytes_spec ys)"
proof (induction xs arbitrary: ys rule: bytes_spec.induct)
  case (1 xs)
  show ?case
    using pad_less [OF "1.prems", of 0 8] "1.IH" [of "drop 8 ys"]
    by (subst (1 2) bytes_spec_pad)
      (auto simp: sep_lt_append sep_lt_append [where us = "[]", simplified] sep_lt_append [where vs = "[]", simplified])
qed

lemma write_bytes_Asc_mono: "xs < ys \<Longrightarrow> sep_lt (write_sortable_bytes xs Asc []) (write_sortable_bytes ys Asc [])"
  by (simp add: write_sortable_bytes_Asc bytes_spec_mono)

lemma write_bytes_Desc_mono: "xs < ys \<Longrightarrow> sep_lt (write_sortable_bytes ys Desc []) (write_sortable_bytes xs Desc [])"
  by (simp add: write_sortable_bytes_Desc bytes_spec_mono sep_lt_map_NOT)

end
