(* ===== verification/Sortable.thy ===== *)
theory Sortable
  imports Encoding_Core
begin

text \<open>
  The contract of the trait \<open>SortableEncoding\<close> (\<open>data/src/encoding_core.rs\<close>) as a locale: a
  writer that appends to a buffer and a reader that returns the rest, related by a round trip up
  to the equality of the type and by order preservation.  The lemmas of the locale are what the
  storage and the sort executor rely on: the encoding is uniquely decodable, and concatenated
  encodings compare like the tuples they encode, each column in its own direction.  The locale is
  interpreted here on the encoders of \<open>u64\<close>, \<open>i64\<close>, \<open>i32\<close> and byte strings.
\<close>

section \<open>The contract\<close>

text \<open>\<open>x\<close> comes before \<open>y\<close> in the given direction.\<close>

definition directed :: "sort_order \<Rightarrow> ('a \<Rightarrow> 'a \<Rightarrow> bool) \<Rightarrow> 'a \<Rightarrow> 'a \<Rightarrow> bool" where
  "directed so lt x y = (if is_asc so then lt x y else lt y x)"

lemma directed_simps [simp]: "directed Asc lt x y = lt x y" "directed Desc lt x y = lt y x"
  by (simp_all add: directed_def)

text \<open>Lexicographic order of two tuples of equal length under column directions, the last
  argument deciding ties.\<close>

fun tuple_before ::
  "('a \<Rightarrow> 'a \<Rightarrow> bool) \<Rightarrow> ('a \<Rightarrow> 'a \<Rightarrow> bool) \<Rightarrow> sort_order list \<Rightarrow> 'a list \<Rightarrow> 'a list \<Rightarrow> bool \<Rightarrow> bool" where
  "tuple_before lt eqv (so # sos) (x # xs) (y # ys) tie =
     (directed so lt x y \<or> eqv x y \<and> tuple_before lt eqv sos xs ys tie)"
| "tuple_before lt eqv sos xs ys tie = tie"

text \<open>The columns of a tuple written one after the other.\<close>

fun write_tuple :: "('a \<Rightarrow> sort_order \<Rightarrow> bytes \<Rightarrow> bytes) \<Rightarrow> sort_order list \<Rightarrow> 'a list \<Rightarrow> bytes \<Rightarrow> bytes" where
  "write_tuple put (so # sos) (x # xs) buffer = write_tuple put sos xs (put x so buffer)"
| "write_tuple put sos xs buffer = buffer"

fun read_tuple :: "(sort_order \<Rightarrow> bytes \<Rightarrow> ('a \<times> bytes) option) \<Rightarrow> sort_order list \<Rightarrow> bytes \<Rightarrow> ('a list \<times> bytes) option" where
  "read_tuple get [] buffer = Some ([], buffer)"
| "read_tuple get (so # sos) buffer =
     (case get so buffer of None \<Rightarrow> None
      | Some (x, rem) \<Rightarrow> map_option (apfst (Cons x)) (read_tuple get sos rem))"

locale sortable_encoding =
  fixes put :: "'a \<Rightarrow> sort_order \<Rightarrow> bytes \<Rightarrow> bytes"
    and get :: "sort_order \<Rightarrow> bytes \<Rightarrow> ('a \<times> bytes) option"
    and valid :: "'a \<Rightarrow> bool"
    and lt :: "'a \<Rightarrow> 'a \<Rightarrow> bool"
    and eqv :: "'a \<Rightarrow> 'a \<Rightarrow> bool"
  assumes write_append: "valid x \<Longrightarrow> put x so buffer = buffer @ put x so []"
    and read_write: "valid x \<Longrightarrow> \<exists>y. get so (put x so [] @ rest) = Some (y, rest) \<and> eqv y x"
    and write_mono: "valid x \<Longrightarrow> valid y \<Longrightarrow> lt x y \<Longrightarrow>
      (if is_asc so then sep_lt (put x so []) (put y so []) else sep_lt (put y so []) (put x so []))"
    and write_cong: "valid x \<Longrightarrow> valid y \<Longrightarrow> eqv x y \<Longrightarrow> put x so [] = put y so []"
    and total: "valid x \<Longrightarrow> valid y \<Longrightarrow> lt x y \<or> eqv x y \<or> lt y x"
begin

lemma write_directed: 
  "valid x \<Longrightarrow> valid y \<Longrightarrow> directed so lt x y \<Longrightarrow> sep_lt (put x so []) (put y so [])"
  using write_mono [of x y so] write_mono [of y x so] by (cases so) auto

lemma encoded_total:
  assumes "valid x" "valid y"
  shows "directed so lt x y \<or> eqv x y \<or> directed so lt y x"
  using total [OF assms] by (cases so) auto

lemma encoded_excl:
  assumes "valid x" "valid y" "directed so lt x y"
  shows "\<not> eqv x y" "\<not> eqv y x" "\<not> directed so lt y x"
  using write_directed [OF assms] write_directed [OF assms(2,1)] write_cong [of x y so] write_cong [of y x so]
    assms sep_lt_asym sep_lt_irrefl by metis+

lemma encoded_less_iff:
  assumes "valid x" "valid y"
  shows "put x so [] @ r < put y so [] @ s \<longleftrightarrow> directed so lt x y \<or> eqv x y \<and> r < s"
proof -
  consider "directed so lt x y" | "eqv x y" | "directed so lt y x"
    using encoded_total [OF assms] by blast
  then show ?thesis
  proof cases
    case 1
    then show ?thesis using write_directed [OF assms 1] sep_lt_less_append by blast
  next
    case 2
    then show ?thesis using write_cong [OF assms 2, of so] encoded_excl(1) [OF assms, of so] by auto
  next
    case 3
    then have "put y so [] @ s < put x so [] @ r"
      using write_directed [OF assms(2,1) 3] sep_lt_less_append by blast
    then show ?thesis using encoded_excl [OF assms(2,1) 3] by auto
  qed
qed

lemma encoded_eq_iff:
  assumes "valid x" "valid y"
  shows "put x so [] @ r = put y so [] @ s \<longleftrightarrow> eqv x y \<and> r = s"
proof -
  have eqv: "eqv x y" if eq: "put x so [] @ r = put y so [] @ s"
  proof -
    have "\<not> put x so [] @ r < put y so [] @ s" "\<not> put y so [] @ s < put x so [] @ r"
      unfolding eq by simp_all
    then show ?thesis
      using encoded_total [OF assms, of so] encoded_less_iff [OF assms] encoded_less_iff [OF assms(2,1)] by blast
  qed
  show ?thesis
    using eqv write_cong [OF assms, of so] same_append_eq by metis
qed

text \<open>Neither encoding is a proper prefix of another: the reader cannot mistake the boundary.\<close>

lemma encoded_prefix:
  assumes "valid x" "valid y" "put x so [] @ r = put y so []"
  shows "r = []"
  using encoded_eq_iff [OF assms(1,2), of so r "[]"] assms(3) by simp

lemma write_tuple_append:
  "list_all valid xs \<Longrightarrow> write_tuple put sos xs buffer = buffer @ write_tuple put sos xs []"
proof (induction sos arbitrary: xs buffer)
  case Nil
  then show ?case by simp
next
  case (Cons so sos)
  show ?case
  proof (cases xs)
    case Nil
    then show ?thesis by simp
  next
    case [simp]: (Cons x xs')
    show ?thesis
      using Cons.prems Cons.IH [of xs' "put x so buffer"] Cons.IH [of xs' "put x so []"] write_append [of x so buffer]
      by simp
  qed
qed

lemma write_tuple_Cons:
  "valid x \<Longrightarrow> list_all valid xs \<Longrightarrow>
    write_tuple put (so # sos) (x # xs) [] = put x so [] @ write_tuple put sos xs []"
  using write_tuple_append [of xs sos "put x so []"] by simp

lemma tuple_less_iff:
  assumes "list_all valid xs" "list_all valid ys" "length xs = length sos" "length ys = length sos"
  shows "write_tuple put sos xs [] @ r < write_tuple put sos ys [] @ s \<longleftrightarrow>
    tuple_before lt eqv sos xs ys (r < s)"
  using assms
proof (induction sos arbitrary: xs ys)
  case Nil
  then show ?case by simp
next
  case (Cons so sos)
  then obtain x xs' y ys' where xy [simp]: "xs = x # xs'" "ys = y # ys'"
    by (metis Suc_length_conv)
  then show ?case
    using Cons.prems Cons.IH [of xs' ys']
      encoded_less_iff [of x y so "write_tuple put sos xs' [] @ r" "write_tuple put sos ys' [] @ s"]
    by (simp only: xy list.pred_inject write_tuple_Cons append_assoc tuple_before.simps) auto
qed

lemma tuple_eq_iff:
  assumes "list_all valid xs" "list_all valid ys" "length xs = length sos" "length ys = length sos"
  shows "write_tuple put sos xs [] @ r = write_tuple put sos ys [] @ s \<longleftrightarrow> list_all2 eqv xs ys \<and> r = s"
  using assms
proof (induction sos arbitrary: xs ys)
  case Nil
  then show ?case by simp
next
  case (Cons so sos)
  then obtain x xs' y ys' where xy [simp]: "xs = x # xs'" "ys = y # ys'"
    by (metis Suc_length_conv)
  then show ?case
    using Cons.prems Cons.IH [of xs' ys']
      encoded_eq_iff [of x y so "write_tuple put sos xs' [] @ r" "write_tuple put sos ys' [] @ s"]
    by (simp only: xy list.pred_inject write_tuple_Cons append_assoc list_all2_Cons) auto
qed

lemma read_write_tuple:
  assumes "list_all valid xs" "length xs = length sos"
  shows "\<exists>ys. read_tuple get sos (write_tuple put sos xs [] @ rest) = Some (ys, rest) \<and> list_all2 eqv ys xs"
  using assms
proof (induction sos arbitrary: xs)
  case Nil
  then show ?case by simp
next
  case (Cons so sos)
  then obtain x xs' where x [simp]: "xs = x # xs'" by (metis Suc_length_conv)
  obtain ys where ys: "read_tuple get sos (write_tuple put sos xs' [] @ rest) = Some (ys, rest)" "list_all2 eqv ys xs'"
    using Cons.IH [of xs'] Cons.prems by auto
  obtain y where "get so (put x so [] @ write_tuple put sos xs' [] @ rest) = Some (y, write_tuple put sos xs' [] @ rest)"
      "eqv y x"
    using read_write [of x so] Cons.prems by auto
  then show ?case using ys Cons.prems
    by (intro exI [of _ "y # ys"]) (simp only: x list.pred_inject write_tuple_Cons append_assoc, simp)
qed

end

section \<open>The encoders satisfy the contract\<close>

lemma write_varint_unsigned_append: "write_varint_unsigned i so buf = buf @ write_varint_unsigned i so []"
  by (simp add: write_varint_unsigned_def)

lemma write_varint_signed_append: "write_varint_signed i so buf = buf @ write_varint_signed i so []"
  by (simp add: write_varint_signed_def Let_def)

lemma write_sortable_bytes_append: "write_sortable_bytes bs so buf = buf @ write_sortable_bytes bs so []"
  by (cases so) (simp_all add: write_sortable_bytes_Asc write_sortable_bytes_Desc)

lemma read_write_unsigned: "read_varint_unsigned so (write_varint_unsigned i so [] @ rest) = Some (i, rest)"
  by (cases so) (simp_all add: read_write_unsigned_Asc read_write_unsigned_Desc)

lemma read_write_signed: "read_varint_signed so (write_varint_signed i so [] @ rest) = Some (i, rest)"
  by (cases so) (simp_all add: read_write_signed_Asc read_write_signed_Desc)

lemma read_write_bytes: "read_sortable_bytes so (write_sortable_bytes bs so [] @ rest) = Some (bs, rest)"
  by (cases so) (simp_all add: read_write_bytes_Asc read_write_bytes_Desc)

lemma read_write_i32: "read_sortable_i32 so (write_sortable_i32 i so [] @ rest) = Some (i, rest)"
proof -
  have "ucast (scast i :: i64) = i"
    by (rule bit_word_eqI) (simp add: bit_simps)
  then show ?thesis by (simp add: read_sortable_i32_def write_sortable_i32_def read_write_signed)
qed

interpretation u64_enc: sortable_encoding write_varint_unsigned read_varint_unsigned "\<lambda>_. True" "(<)" "(=)"
proof unfold_locales
  fix x y :: u64 and so
  assume "x < y"
  then have "sep_lt (uvarint_spec (unat x)) (uvarint_spec (unat y))"
    using unat_i64_less [of y] by (simp add: uvarint_spec_mono word_less_nat_alt)
  then show "if is_asc so then sep_lt (write_varint_unsigned x so []) (write_varint_unsigned y so [])
      else sep_lt (write_varint_unsigned y so []) (write_varint_unsigned x so [])"
    by (cases so) (simp_all add: write_varint_unsigned_Asc write_varint_unsigned_Desc sep_lt_map_NOT)
qed (auto simp: read_write_unsigned write_varint_unsigned_append [symmetric])

interpretation i64_enc: sortable_encoding write_varint_signed read_varint_signed "\<lambda>_. True" "\<lambda>x y. sint x < sint y" "(=)"
proof unfold_locales
  fix x y :: i64 and so
  assume "sint x < sint y"
  then show "if is_asc so then sep_lt (write_varint_signed x so []) (write_varint_signed y so [])
      else sep_lt (write_varint_signed y so []) (write_varint_signed x so [])"
    by (cases so) (simp_all add: write_signed_Asc_mono write_signed_Desc_mono)
next
  fix x y :: i64
  show "sint x < sint y \<or> x = y \<or> sint y < sint x"
    using signed_word_eqI [of x y] by (metis linorder_less_linear)
qed (auto simp: read_write_signed write_varint_signed_append [symmetric])

lemma sint_scast_i32: "sint (scast (i :: i32) :: i64) = sint i"
proof -
  have "- (2 ^ 31) \<le> sint i" "sint i < 2 ^ 31" using sint_ge [of i] sint_lt [of i] by simp_all
  then show ?thesis by (simp add: signed_scast_eq signed_take_bit_int_eq_self)
qed

interpretation i32_enc: sortable_encoding write_sortable_i32 read_sortable_i32 "\<lambda>_. True" "\<lambda>x y. sint x < sint y" "(=)"
proof unfold_locales
  fix x y :: i32 and so
  assume "sint x < sint y"
  then show "if is_asc so then sep_lt (write_sortable_i32 x so []) (write_sortable_i32 y so [])
      else sep_lt (write_sortable_i32 y so []) (write_sortable_i32 x so [])"
    using i64_enc.write_mono [of "scast x" "scast y" so] by (simp add: write_sortable_i32_def sint_scast_i32)
next
  fix x y :: i32
  show "sint x < sint y \<or> x = y \<or> sint y < sint x"
    using signed_word_eqI [of x y] by (metis linorder_less_linear)
qed (auto simp: read_write_i32, simp_all add: write_sortable_i32_def write_varint_signed_append [symmetric])

interpretation bytes_enc: sortable_encoding write_sortable_bytes read_sortable_bytes "\<lambda>_. True" "(<)" "(=)"
proof unfold_locales
  fix x y :: bytes and so
  assume "x < y"
  then show "if is_asc so then sep_lt (write_sortable_bytes x so []) (write_sortable_bytes y so [])
      else sep_lt (write_sortable_bytes y so []) (write_sortable_bytes x so [])"
    by (cases so) (simp_all add: write_bytes_Asc_mono write_bytes_Desc_mono)
qed (auto simp: read_write_bytes write_sortable_bytes_append [symmetric])

section \<open>Properties of the encoders\<close>

text \<open>Reading undoes writing for \<open>u64\<close>, \<open>i64\<close>, \<open>i32\<close> and byte strings, in both sort orders,
  whatever follows in the buffer: the reader returns exactly the value written and the bytes
  after it, and never indexes past the end.\<close>

theorem sortable_roundtrip:
  "read_varint_unsigned so (write_varint_unsigned u so [] @ rest) = Some (u, rest) \<and>
   read_varint_signed so (write_varint_signed i so [] @ rest) = Some (i, rest) \<and>
   read_sortable_i32 so (write_sortable_i32 j so [] @ rest) = Some (j, rest) \<and>
   read_sortable_bytes so (write_sortable_bytes bs so [] @ rest) = Some (bs, rest)"
  by (simp add: read_write_unsigned read_write_signed read_write_i32 read_write_bytes)

text \<open>The signed encoding sorts as the integers do, over the whole range of \<open>i64\<close> (the most
  negative value included), ascending or descending, and equal keys leave the comparison to what
  follows them.\<close>

theorem signed_encoding_order:
  "write_varint_signed i so [] @ r < write_varint_signed j so [] @ s \<longleftrightarrow>
     (if is_asc so then sint i < sint j else sint j < sint i) \<or> i = j \<and> r < s"
  by (cases so) (simp_all add: i64_enc.encoded_less_iff)

text \<open>The byte string encoding sorts as Rust's lexicographic order on slices, strings of
  different lengths and embedded zero bytes included, ascending or descending.\<close>

theorem bytes_encoding_order:
  "write_sortable_bytes xs so [] @ r < write_sortable_bytes ys so [] @ s \<longleftrightarrow>
     (if is_asc so then xs < ys else ys < xs) \<or> xs = ys \<and> r < s"
  by (cases so) (simp_all add: bytes_enc.encoded_less_iff)

end
