(* ===== verification/Decimal_Encoding.thy ===== *)
theory Decimal_Encoding
  imports Sortable
begin

text \<open>
  The sortable encoding of \<open>Decimal\<close> (\<open>data/src/encoding_core.rs\<close>).  The decimal type itself is
  the third party crate rust_decimal: it is a type parameter with a record of the operations
  the code calls, and \<open>decimal_laws\<close> states the documented behaviour the encoding relies on
  (a 96 bit mantissa, a sign and a scale of at most 28 that the operations read and set,
  comparison by value, exact products that fit).  A concrete instance of the record that
  satisfies the laws closes the theory.
\<close>

section \<open>The interface of the decimal library\<close>

datatype ordering = Less | Equal | Greater

record unpacked_decimal =
  hi :: u32
  mid :: u32
  lo :: u32

record 'd decimal_ops =
  d_is_zero :: "'d \<Rightarrow> bool"
  d_abs :: "'d \<Rightarrow> 'd"
  d_scale :: "'d \<Rightarrow> u32"
  d_is_sign_positive :: "'d \<Rightarrow> bool"
  d_set_scale :: "'d \<Rightarrow> u32 \<Rightarrow> 'd option"
  d_cmp :: "'d \<Rightarrow> 'd \<Rightarrow> ordering"
  d_mul :: "'d \<Rightarrow> 'd \<Rightarrow> 'd option"
  d_div :: "'d \<Rightarrow> 'd \<Rightarrow> 'd option"
  d_unpack :: "'d \<Rightarrow> unpacked_decimal"
  d_from_parts :: "u32 \<Rightarrow> u32 \<Rightarrow> u32 \<Rightarrow> bool \<Rightarrow> u32 \<Rightarrow> 'd"
  d_normalize :: "'d \<Rightarrow> 'd"
  d_zero :: 'd
  d_new :: "i64 \<Rightarrow> u32 \<Rightarrow> 'd"
  d_from_i128_with_scale :: "int \<Rightarrow> u32 \<Rightarrow> 'd"

section \<open>The code\<close>

definition DECIMAL_LARGEST :: "('d, 'z) decimal_ops_scheme \<Rightarrow> 'd" where
  "DECIMAL_LARGEST D = d_from_i128_with_scale D 10000000000000000000000000000 0"

definition DECIMAL_THRESHOLD_1 :: "('d, 'z) decimal_ops_scheme \<Rightarrow> 'd" where
  "DECIMAL_THRESHOLD_1 D = d_from_i128_with_scale D 1000000000000000000000000000 0"

definition DECIMAL_THRESHOLD_1_MUT :: "('d, 'z) decimal_ops_scheme \<Rightarrow> 'd" where
  "DECIMAL_THRESHOLD_1_MUT D = d_new D 10 0"

definition DECIMAL_THRESHOLD_2 :: "('d, 'z) decimal_ops_scheme \<Rightarrow> 'd" where
  "DECIMAL_THRESHOLD_2 D = d_from_i128_with_scale D 1000000000000000000000000 0"

definition DECIMAL_THRESHOLD_2_MUT :: "('d, 'z) decimal_ops_scheme \<Rightarrow> 'd" where
  "DECIMAL_THRESHOLD_2_MUT D = d_new D 1000 0"

definition DECIMAL_THRESHOLD_3 :: "('d, 'z) decimal_ops_scheme \<Rightarrow> 'd" where
  "DECIMAL_THRESHOLD_3 D = d_from_i128_with_scale D 1000000000000000000000 0"

definition DECIMAL_THRESHOLD_3_MUT :: "('d, 'z) decimal_ops_scheme \<Rightarrow> 'd" where
  "DECIMAL_THRESHOLD_3_MUT D = d_new D 1000000 0"

definition DECIMAL_THRESHOLD_4 :: "('d, 'z) decimal_ops_scheme \<Rightarrow> 'd" where
  "DECIMAL_THRESHOLD_4 D = d_from_i128_with_scale D 1000000000000000 0"

definition DECIMAL_THRESHOLD_4_MUT :: "('d, 'z) decimal_ops_scheme \<Rightarrow> 'd" where
  "DECIMAL_THRESHOLD_4_MUT D = d_new D 1000000000000 0"

text \<open>\<open>while d < threshold { d *= factor; scale += step }\<close>; \<open>None\<close> is a panic of the product or
  a loop that does not end.\<close>

partial_function (option) scale_up ::
  "('d, 'z) decimal_ops_scheme \<Rightarrow> 'd \<Rightarrow> 'd \<Rightarrow> u8 \<Rightarrow> 'd \<Rightarrow> u8 \<Rightarrow> ('d \<times> u8) option" where
  "scale_up D threshold factor step d scale =
     (if d_cmp D d threshold = Less
      then Option.bind (d_mul D d factor) (\<lambda>d'. scale_up D threshold factor step d' (scale + step))
      else Some (d, scale))"

text \<open>\<open>while d >= DECIMAL_LARGEST { d /= 10; scale -= 1 }\<close>.\<close>

partial_function (option) scale_down ::
  "('d, 'z) decimal_ops_scheme \<Rightarrow> 'd \<Rightarrow> u8 \<Rightarrow> ('d \<times> u8) option" where
  "scale_down D d scale =
     (if d_cmp D d (DECIMAL_LARGEST D) \<noteq> Less
      then Option.bind (d_div D d (DECIMAL_THRESHOLD_1_MUT D)) (\<lambda>d'. scale_down D d' (scale - 1))
      else Some (d, scale))"

text \<open>The five loops that bring the mantissa to 28 digits.\<close>

definition decimal_rescale :: "('d, 'z) decimal_ops_scheme \<Rightarrow> 'd \<Rightarrow> u8 \<Rightarrow> ('d \<times> u8) option" where
  "decimal_rescale D d scale =
     Option.bind (scale_up D (DECIMAL_THRESHOLD_4 D) (DECIMAL_THRESHOLD_4_MUT D) 12 d scale) (\<lambda>(d, scale).
     Option.bind (scale_up D (DECIMAL_THRESHOLD_3 D) (DECIMAL_THRESHOLD_3_MUT D) 6 d scale) (\<lambda>(d, scale).
     Option.bind (scale_up D (DECIMAL_THRESHOLD_2 D) (DECIMAL_THRESHOLD_2_MUT D) 3 d scale) (\<lambda>(d, scale).
     Option.bind (scale_up D (DECIMAL_THRESHOLD_1 D) (DECIMAL_THRESHOLD_1_MUT D) 1 d scale) (\<lambda>(d, scale).
     scale_down D d scale))))"

text \<open>The sign and scale byte and the chunks of the mantissa.\<close>

definition write_decimal_chunks :: "bool \<Rightarrow> u8 \<Rightarrow> unpacked_decimal \<Rightarrow> bytes" where
  "write_decimal_chunks is_positive scale u =
     (if is_positive then
        [128 + scale] @ u32_to_be (hi u) @
        (if mid u \<noteq> 0 \<or> lo u \<noteq> 0 then
           [1] @ u32_to_be (mid u) @ (if lo u \<noteq> 0 then [1] @ u32_to_be (lo u) else [0])
         else [0])
      else
        [126 - scale] @ u32_to_be (NOT (hi u)) @
        (if mid u \<noteq> 0 \<or> lo u \<noteq> 0 then
           [NOT 1] @ u32_to_be (NOT (mid u)) @ (if lo u \<noteq> 0 then [NOT 1] @ u32_to_be (NOT (lo u)) else [NOT 0])
         else [NOT 0]))"

definition write_sortable_decimal ::
  "('d, 'z) decimal_ops_scheme \<Rightarrow> 'd \<Rightarrow> sort_order \<Rightarrow> bytes \<Rightarrow> bytes option" where
  "write_sortable_decimal D self so buffer =
     (if d_is_zero D self then Some (buffer @ [127])
      else
        let d = d_abs D self; scale = ucast (d_scale D d);
            is_positive = (d_is_sign_positive D self \<noteq> is_desc so) in
        Option.bind (d_set_scale D d 0) (\<lambda>d.
        Option.bind (decimal_rescale D d scale) (\<lambda>(d, scale).
        Some (buffer @ write_decimal_chunks is_positive (100 - scale) (d_unpack D d)))))"

definition decimal_rebuild ::
  "('d, 'z) decimal_ops_scheme \<Rightarrow> u32 \<Rightarrow> u32 \<Rightarrow> u32 \<Rightarrow> bool \<Rightarrow> u32 \<Rightarrow> 'd option" where
  "decimal_rebuild D l m h neg scale =
     (if scale \<le> 28 then Some (d_from_parts D l m h neg scale)
      else let d = d_normalize D (d_from_parts D l m h neg 28) in
           d_set_scale D d (scale - 28 + d_scale D d))"

definition read_sortable_decimal ::
  "('d, 'z) decimal_ops_scheme \<Rightarrow> sort_order \<Rightarrow> bytes \<Rightarrow> ('d \<times> bytes) option" where
  "read_sortable_decimal D so buffer =
     (case buffer of [] \<Rightarrow> None
      | b # rem \<Rightarrow>
        if b = 127 then Some (d_zero D, rem)
        else if 128 \<le> b \<and> b \<le> 254 then
          let scale = 100 - ucast (b - 128); neg = is_desc so in
          Option.bind (split_at 4 rem) (\<lambda>(h, rem). case rem of [] \<Rightarrow> None | f # rem \<Rightarrow>
            if f = 0 then map_option (\<lambda>d. (d, rem)) (decimal_rebuild D 0 0 (u32_of_be h) neg scale)
            else Option.bind (split_at 4 rem) (\<lambda>(m, rem). case rem of [] \<Rightarrow> None | f # rem \<Rightarrow>
              if f = 0 then map_option (\<lambda>d. (d, rem)) (decimal_rebuild D 0 (u32_of_be m) (u32_of_be h) neg scale)
              else Option.bind (split_at 4 rem) (\<lambda>(l, rem).
                map_option (\<lambda>d. (d, rem)) (decimal_rebuild D (u32_of_be l) (u32_of_be m) (u32_of_be h) neg scale))))
        else if b \<le> 126 then
          let scale = 100 - ucast (126 - b); neg = is_asc so in
          Option.bind (split_at 4 rem) (\<lambda>(h, rem). case rem of [] \<Rightarrow> None | f # rem \<Rightarrow>
            if NOT f = 0 then map_option (\<lambda>d. (d, rem)) (decimal_rebuild D 0 0 (NOT (u32_of_be h)) neg scale)
            else Option.bind (split_at 4 rem) (\<lambda>(m, rem). case rem of [] \<Rightarrow> None | f # rem \<Rightarrow>
              if f = NOT 0 then
                map_option (\<lambda>d. (d, rem)) (decimal_rebuild D 0 (NOT (u32_of_be m)) (NOT (u32_of_be h)) neg scale)
              else Option.bind (split_at 4 rem) (\<lambda>(l, rem).
                map_option (\<lambda>d. (d, rem))
                  (decimal_rebuild D (NOT (u32_of_be l)) (NOT (u32_of_be m)) (NOT (u32_of_be h)) neg scale))))
        else None)"

section \<open>The documented behaviour of the library\<close>

definition d_mant :: "('d, 'z) decimal_ops_scheme \<Rightarrow> 'd \<Rightarrow> nat" where
  "d_mant D d = (let u = d_unpack D d in unat (hi u) * 2 ^ 64 + unat (mid u) * 2 ^ 32 + unat (lo u))"

definition d_num :: "('d, 'z) decimal_ops_scheme \<Rightarrow> 'd \<Rightarrow> int" where
  "d_num D d = (if d_is_sign_positive D d then int (d_mant D d) else - int (d_mant D d))"

text \<open>The value of \<open>d\<close> is \<open>d_num D d / 10 ^ d_exp D d\<close>; two values are compared over their common
  denominator.\<close>

definition d_exp :: "('d, 'z) decimal_ops_scheme \<Rightarrow> 'd \<Rightarrow> nat" where
  "d_exp D d = unat (d_scale D d)"

definition d_vless :: "('d, 'z) decimal_ops_scheme \<Rightarrow> 'd \<Rightarrow> 'd \<Rightarrow> bool" where
  "d_vless D a b \<longleftrightarrow> d_num D a * 10 ^ d_exp D b < d_num D b * 10 ^ d_exp D a"

definition d_veq :: "('d, 'z) decimal_ops_scheme \<Rightarrow> 'd \<Rightarrow> 'd \<Rightarrow> bool" where
  "d_veq D a b \<longleftrightarrow> d_num D a * 10 ^ d_exp D b = d_num D b * 10 ^ d_exp D a"

definition decimal_laws :: "('d, 'z) decimal_ops_scheme \<Rightarrow> bool" where
  "decimal_laws D \<longleftrightarrow>
     (\<forall>d. d_is_zero D d \<longleftrightarrow> d_mant D d = 0) \<and>
     (\<forall>d. d_exp D d \<le> 28) \<and>
     (\<forall>d. d_mant D (d_abs D d) = d_mant D d \<and> d_scale D (d_abs D d) = d_scale D d \<and>
          d_is_sign_positive D (d_abs D d)) \<and>
     (\<forall>d n. n \<le> 28 \<longrightarrow> (\<exists>e. d_set_scale D d n = Some e \<and> d_mant D e = d_mant D d \<and> d_scale D e = n \<and>
          d_is_sign_positive D e = d_is_sign_positive D d)) \<and>
     (\<forall>a b. d_cmp D a b = (if d_vless D a b then Less else if d_veq D a b then Equal else Greater)) \<and>
     (\<forall>a b. d_scale D a = 0 \<longrightarrow> d_scale D b = 0 \<longrightarrow> d_is_sign_positive D a \<longrightarrow> d_is_sign_positive D b \<longrightarrow>
          d_mant D a * d_mant D b < 2 ^ 96 \<longrightarrow>
          (\<exists>c. d_mul D a b = Some c \<and> d_mant D c = d_mant D a * d_mant D b \<and> d_scale D c = 0 \<and>
               d_is_sign_positive D c)) \<and>
     (\<forall>l m h neg s. (l, m, h) \<noteq> (0, 0, 0) \<longrightarrow> s \<le> 28 \<longrightarrow>
          (let d = d_from_parts D l m h neg s in
           d_unpack D d = \<lparr>hi = h, mid = m, lo = l\<rparr> \<and> d_scale D d = s \<and> d_is_sign_positive D d = (\<not> neg))) \<and>
     (\<forall>d. d_mant D d \<noteq> 0 \<longrightarrow>
          (\<exists>t. d_mant D d = d_mant D (d_normalize D d) * 10 ^ t \<and> d_exp D (d_normalize D d) + t = d_exp D d \<and>
               (d_exp D (d_normalize D d) = 0 \<or> \<not> 10 dvd d_mant D (d_normalize D d)) \<and>
               d_is_sign_positive D (d_normalize D d) = d_is_sign_positive D d)) \<and>
     d_mant D (d_zero D) = 0 \<and>
     (\<forall>n s. 0 < sint n \<longrightarrow> s \<le> 28 \<longrightarrow>
          d_mant D (d_new D n s) = unat n \<and> d_scale D (d_new D n s) = s \<and> d_is_sign_positive D (d_new D n s)) \<and>
     (\<forall>n s. 0 < n \<longrightarrow> n < 2 ^ 96 \<longrightarrow> s \<le> 28 \<longrightarrow>
          d_mant D (d_from_i128_with_scale D n s) = nat n \<and> d_scale D (d_from_i128_with_scale D n s) = s \<and>
          d_is_sign_positive D (d_from_i128_with_scale D n s))"

section \<open>Consequences of the laws\<close>

lemma decimal_lawsD:
  assumes "decimal_laws D"
  shows laws_is_zero: "d_is_zero D d \<longleftrightarrow> d_mant D d = 0"
    and laws_exp: "d_exp D d \<le> 28"
    and laws_abs: "d_mant D (d_abs D d) = d_mant D d" "d_scale D (d_abs D d) = d_scale D d"
      "d_is_sign_positive D (d_abs D d)"
    and laws_set_scale: "n \<le> 28 \<Longrightarrow> \<exists>e. d_set_scale D d n = Some e \<and> d_mant D e = d_mant D d \<and> d_scale D e = n \<and>
          d_is_sign_positive D e = d_is_sign_positive D d"
    and laws_cmp: "d_cmp D a b = (if d_vless D a b then Less else if d_veq D a b then Equal else Greater)"
    and laws_mul: "d_scale D a = 0 \<Longrightarrow> d_scale D b = 0 \<Longrightarrow> d_is_sign_positive D a \<Longrightarrow> d_is_sign_positive D b \<Longrightarrow>
          d_mant D a * d_mant D b < 2 ^ 96 \<Longrightarrow>
          \<exists>c. d_mul D a b = Some c \<and> d_mant D c = d_mant D a * d_mant D b \<and> d_scale D c = 0 \<and>
               d_is_sign_positive D c"
    and laws_from_parts: "(l, m, h) \<noteq> (0, 0, 0) \<Longrightarrow> s \<le> 28 \<Longrightarrow>
          d_unpack D (d_from_parts D l m h neg s) = \<lparr>hi = h, mid = m, lo = l\<rparr> \<and>
          d_scale D (d_from_parts D l m h neg s) = s \<and> d_is_sign_positive D (d_from_parts D l m h neg s) = (\<not> neg)"
    and laws_normalize: "d_mant D d \<noteq> 0 \<Longrightarrow>
          \<exists>t. d_mant D d = d_mant D (d_normalize D d) * 10 ^ t \<and> d_exp D (d_normalize D d) + t = d_exp D d \<and>
               (d_exp D (d_normalize D d) = 0 \<or> \<not> 10 dvd d_mant D (d_normalize D d)) \<and>
               d_is_sign_positive D (d_normalize D d) = d_is_sign_positive D d"
    and laws_zero: "d_mant D (d_zero D) = 0"
    and laws_new: "0 < sint i \<Longrightarrow> s \<le> 28 \<Longrightarrow>
          d_mant D (d_new D i s) = unat i \<and> d_scale D (d_new D i s) = s \<and> d_is_sign_positive D (d_new D i s)"
    and laws_from_i128: "0 < k \<Longrightarrow> k < 2 ^ 96 \<Longrightarrow> s \<le> 28 \<Longrightarrow>
          d_mant D (d_from_i128_with_scale D k s) = nat k \<and> d_scale D (d_from_i128_with_scale D k s) = s \<and>
          d_is_sign_positive D (d_from_i128_with_scale D k s)"
  using assms unfolding decimal_laws_def by (blast, blast, blast, blast, blast, blast, blast, blast, metis, blast, blast, blast, blast)

text \<open>A non-negative integer: scale zero and positive.\<close>

definition d_nat :: "('d, 'z) decimal_ops_scheme \<Rightarrow> 'd \<Rightarrow> nat \<Rightarrow> bool" where
  "d_nat D d n \<longleftrightarrow> d_mant D d = n \<and> d_scale D d = 0 \<and> d_is_sign_positive D d"

lemma d_nat_cmp:
  assumes "decimal_laws D" "d_nat D a m" "d_nat D b n"
  shows "d_cmp D a b = Less \<longleftrightarrow> m < n"
  using assms by (simp add: laws_cmp d_vless_def d_nat_def d_num_def d_exp_def)

lemma d_nat_mul:
  assumes "decimal_laws D" "d_nat D a m" "d_nat D b n" "m * n < 2 ^ 96"
  shows "\<exists>c. d_mul D a b = Some c \<and> d_nat D c (m * n)"
  using laws_mul [OF assms(1), of a b] assms(2-) by (auto simp: d_nat_def)

lemma d_nat_from_i128:
  "decimal_laws D \<Longrightarrow> 0 < k \<Longrightarrow> k < 2 ^ 96 \<Longrightarrow> d_nat D (d_from_i128_with_scale D k 0) (nat k)"
  using laws_from_i128 [of D k 0] by (simp add: d_nat_def)

lemma d_nat_new: "decimal_laws D \<Longrightarrow> 0 < sint k \<Longrightarrow> d_nat D (d_new D k 0) (unat k)"
  using laws_new [of D k 0] by (simp add: d_nat_def)

lemma scale_up_spec:
  assumes laws: "decimal_laws D" and T: "d_nat D thr T" and F: "d_nat D fac F" "1 < F" "T * F \<le> 10 ^ 28"
    and d: "d_nat D d m" "0 < m"
  shows "\<exists>d' j. scale_up D thr fac step d sc = Some (d', sc + of_nat j * step) \<and> d_nat D d' (m * F ^ j) \<and>
    T \<le> m * F ^ j \<and> (j = 0 \<or> m * F ^ j < T * F)"
  using d
proof (induction "T - m" arbitrary: d m sc rule: less_induct)
  case less
  show ?case
  proof (cases "m < T")
    case True
    have lt: "m * F < T * F" using True F(2) by simp
    also have "\<dots> < 2 ^ 96" using F(3) by (rule le_less_trans) simp
    finally obtain c where c: "d_mul D d fac = Some c" "d_nat D c (m * F)"
      using d_nat_mul [OF laws less.prems(1) F(1)] by blast
    have m: "m < m * F" using less.prems(2) F(2) by simp
    then have "T - m * F < T - m" using True by linarith
    from less.hyps [OF this c(2), of "sc + step"] m obtain d' j where
      *: "scale_up D thr fac step c (sc + step) = Some (d', sc + step + of_nat j * step)"
      "d_nat D d' (m * F * F ^ j)" "T \<le> m * F * F ^ j" "j = 0 \<or> m * F * F ^ j < T * F" by auto
    have "scale_up D thr fac step d sc = Some (d', sc + of_nat (Suc j) * step)"
      using *(1) c(1) True d_nat_cmp [OF laws less.prems(1) T]
      by (subst scale_up.simps) (simp add: algebra_simps)
    then show ?thesis using * lt by (intro exI [of _ d'] exI [of _ "Suc j"]) (auto simp: algebra_simps)
  next
    case False
    then have "scale_up D thr fac step d sc = Some (d, sc + of_nat 0 * step)"
      using d_nat_cmp [OF laws less.prems(1) T] by (subst scale_up.simps) simp
    then show ?thesis using False less.prems(1)
      by (intro exI [of _ d] exI [of _ 0]) simp
  qed
qed

lemma thresholds:
  assumes "decimal_laws D"
  shows "d_nat D (DECIMAL_LARGEST D) (10 ^ 28)" "d_nat D (DECIMAL_THRESHOLD_1 D) (10 ^ 27)"
    "d_nat D (DECIMAL_THRESHOLD_2 D) (10 ^ 24)" "d_nat D (DECIMAL_THRESHOLD_3 D) (10 ^ 21)"
    "d_nat D (DECIMAL_THRESHOLD_4 D) (10 ^ 15)"
    "d_nat D (DECIMAL_THRESHOLD_1_MUT D) (10 ^ 1)" "d_nat D (DECIMAL_THRESHOLD_2_MUT D) (10 ^ 3)"
    "d_nat D (DECIMAL_THRESHOLD_3_MUT D) (10 ^ 6)" "d_nat D (DECIMAL_THRESHOLD_4_MUT D) (10 ^ 12)"
  using d_nat_from_i128 [OF assms, of "10 ^ 28"] d_nat_from_i128 [OF assms, of "10 ^ 27"]
    d_nat_from_i128 [OF assms, of "10 ^ 24"] d_nat_from_i128 [OF assms, of "10 ^ 21"]
    d_nat_from_i128 [OF assms, of "10 ^ 15"] d_nat_new [OF assms, of 10] d_nat_new [OF assms, of 1000]
    d_nat_new [OF assms, of 1000000] d_nat_new [OF assms, of 1000000000000]
  by (simp_all add: DECIMAL_LARGEST_def DECIMAL_THRESHOLD_1_def DECIMAL_THRESHOLD_2_def DECIMAL_THRESHOLD_3_def
      DECIMAL_THRESHOLD_4_def DECIMAL_THRESHOLD_1_MUT_def DECIMAL_THRESHOLD_2_MUT_def DECIMAL_THRESHOLD_3_MUT_def
      DECIMAL_THRESHOLD_4_MUT_def)

lemma scale_up_bounded:
  assumes laws: "decimal_laws D" and "d_nat D thr (10 ^ a)" "d_nat D fac (10 ^ e)" "0 < e" "a + e \<le> 28"
    and d: "d_nat D d (m * 10 ^ k)" "0 < m" "m * 10 ^ k < 10 ^ 28"
    and w: "step = of_nat e"
  shows "\<exists>d' k'. scale_up D thr fac step d (sc + of_nat k) = Some (d', sc + of_nat k') \<and> d_nat D d' (m * 10 ^ k') \<and>
    10 ^ a \<le> m * 10 ^ k' \<and> m * 10 ^ k' < 10 ^ 28"
proof -
  have "(10 :: nat) ^ a * 10 ^ e \<le> 10 ^ 28" using assms(5)
    by (simp only: power_add [symmetric]) (rule power_increasing, simp_all)
  moreover have "1 < (10 :: nat) ^ e" using assms(4) by (intro one_less_power) simp_all
  ultimately obtain d' j where *: "scale_up D thr fac step d (sc + of_nat k) = Some (d', sc + of_nat k + of_nat j * step)"
    "d_nat D d' (m * 10 ^ k * (10 ^ e) ^ j)" "10 ^ a \<le> m * 10 ^ k * (10 ^ e) ^ j"
    "j = 0 \<or> m * 10 ^ k * (10 ^ e) ^ j < 10 ^ a * 10 ^ e"
    using scale_up_spec [OF laws assms(2,3), of d "m * 10 ^ k" step "sc + of_nat k"] d by auto
  have eq: "m * 10 ^ k * (10 ^ e) ^ j = m * 10 ^ (k + j * e)"
    by (simp add: power_add power_mult mult.commute [of j] mult.assoc)
  have "m * 10 ^ k * (10 ^ e) ^ j < 10 ^ 28"
    using *(4) d(3) \<open>(10 :: nat) ^ a * 10 ^ e \<le> 10 ^ 28\<close> by (auto intro: less_le_trans)
  then show ?thesis using * unfolding eq
    by (intro exI [of _ d'] exI [of _ "k + j * e"]) (simp add: w algebra_simps)
qed

lemma decimal_rescale_spec:
  assumes laws: "decimal_laws D" and d: "d_nat D d m" "0 < m" "m < 10 ^ 28"
  shows "\<exists>d' k. decimal_rescale D d sc = Some (d', sc + of_nat k) \<and> d_nat D d' (m * 10 ^ k) \<and>
    10 ^ 27 \<le> m * 10 ^ k \<and> m * 10 ^ k < 10 ^ 28"
proof -
  note T = thresholds [OF laws]
  obtain d1 k1 where 1: "scale_up D (DECIMAL_THRESHOLD_4 D) (DECIMAL_THRESHOLD_4_MUT D) 12 d sc = Some (d1, sc + of_nat k1)"
    "d_nat D d1 (m * 10 ^ k1)" "m * 10 ^ k1 < 10 ^ 28"
    using scale_up_bounded [OF laws T(5) T(9), of d m 0 12 sc] d by auto
  obtain d2 k2 where 2: "scale_up D (DECIMAL_THRESHOLD_3 D) (DECIMAL_THRESHOLD_3_MUT D) 6 d1 (sc + of_nat k1) = Some (d2, sc + of_nat k2)"
    "d_nat D d2 (m * 10 ^ k2)" "m * 10 ^ k2 < 10 ^ 28"
    using scale_up_bounded [OF laws T(4) T(8), of d1 m k1 6 sc] d 1 by auto
  obtain d3 k3 where 3: "scale_up D (DECIMAL_THRESHOLD_2 D) (DECIMAL_THRESHOLD_2_MUT D) 3 d2 (sc + of_nat k2) = Some (d3, sc + of_nat k3)"
    "d_nat D d3 (m * 10 ^ k3)" "m * 10 ^ k3 < 10 ^ 28"
    using scale_up_bounded [OF laws T(3) T(7), of d2 m k2 3 sc] d 2 by auto
  obtain d4 k4 where 4: "scale_up D (DECIMAL_THRESHOLD_1 D) (DECIMAL_THRESHOLD_1_MUT D) 1 d3 (sc + of_nat k3) = Some (d4, sc + of_nat k4)"
    "d_nat D d4 (m * 10 ^ k4)" "10 ^ 27 \<le> m * 10 ^ k4" "m * 10 ^ k4 < 10 ^ 28"
    using scale_up_bounded [OF laws T(2) T(6), of d3 m k3 1 sc] d 3 by auto
  have "scale_down D d4 (sc + of_nat k4) = Some (d4, sc + of_nat k4)"
    using d_nat_cmp [OF laws 4(2) T(1)] 4(4) by (subst scale_down.simps) simp
  then have "decimal_rescale D d sc = Some (d4, sc + of_nat k4)"
    by (simp add: decimal_rescale_def 1(1) 2(1) 3(1) 4(1))
  then show ?thesis using 4 by blast
qed

section \<open>The bytes written\<close>

text \<open>The chunks of a positive mantissa.\<close>

definition mant_chunks :: "unpacked_decimal \<Rightarrow> bytes" where
  "mant_chunks u = u32_to_be (hi u) @
     (if mid u \<noteq> 0 \<or> lo u \<noteq> 0 then
        [1] @ u32_to_be (mid u) @ (if lo u \<noteq> 0 then [1] @ u32_to_be (lo u) else [0])
      else [0])"

definition u_mant :: "unpacked_decimal \<Rightarrow> nat" where
  "u_mant u = unat (hi u) * 2 ^ 64 + unat (mid u) * 2 ^ 32 + unat (lo u)"

lemma u32_to_be_NOT: "u32_to_be (NOT w) = map NOT (u32_to_be w)"
  by (simp add: u32_to_be_def be_bytes_unat_NOT del: be_bytes.simps)

lemma write_decimal_chunks_eq:
  "write_decimal_chunks pos sc u = (if pos then (128 + sc) # mant_chunks u else (126 - sc) # map NOT (mant_chunks u))"
  by (simp add: write_decimal_chunks_def mant_chunks_def u32_to_be_NOT)

lemma unat_u32_less: "unat (w :: u32) < 2 ^ 32"
  using unsigned_less [of w, where ?'a = nat] by simp

lemma sep_lt_u32: "sep_lt (u32_to_be a @ r) (u32_to_be b @ s) \<longleftrightarrow> a < b \<or> a = b \<and> sep_lt r s"
proof -
  have a: "unat a < 256 ^ 4" "unat b < 256 ^ 4" using unat_u32_less [of a] unat_u32_less [of b] by simp_all
  then have "u32_to_be a = u32_to_be b \<longleftrightarrow> a = b"
    unfolding u32_to_be_def be_bytes_inj [OF a] word_unat_eq_iff by simp
  then show ?thesis using sep_lt_be_bytes [OF a]
    by (simp add: sep_lt_append_cancel u32_to_be_def word_less_nat_alt del: be_bytes.simps)
qed

lemma lex_pair: "(b :: nat) < B \<Longrightarrow> b' < B \<Longrightarrow> a * B + b < a' * B + b' \<longleftrightarrow> a < a' \<or> a = a' \<and> b < b'"
proof -
  assume b: "b < B" "b' < B"
  have "a * B + b < a' * B + b'" if "a < a'"
  proof -
    have "(a + 1) * B \<le> a' * B" using that by (intro mult_right_mono) auto
    then show ?thesis using b by simp
  qed
  moreover have "\<not> a * B + b < a' * B + b'" if "a' < a"
  proof -
    have "(a' + 1) * B \<le> a * B" using that by (intro mult_right_mono) auto
    then show ?thesis using b by simp
  qed
  ultimately show ?thesis by (metis linorder_less_linear nat_add_left_cancel_less)
qed

lemma u_mant_less_iff:
  "u_mant u < u_mant v \<longleftrightarrow> hi u < hi v \<or> hi u = hi v \<and> (mid u < mid v \<or> mid u = mid v \<and> lo u < lo v)"
proof -
  define mu where "mu = unat (mid u) * 2 ^ 32 + unat (lo u)"
  define mv where "mv = unat (mid v) * 2 ^ 32 + unat (lo v)"
  have bound: "unat (a :: u32) * 2 ^ 32 + unat (b :: u32) < 2 ^ 64" for a b
    using unat_u32_less [of a] unat_u32_less [of b] by simp
  have "u_mant u < u_mant v \<longleftrightarrow> unat (hi u) * 2 ^ 64 + mu < unat (hi v) * 2 ^ 64 + mv"
    by (simp add: u_mant_def mu_def mv_def add.assoc)
  also have "\<dots> \<longleftrightarrow> unat (hi u) < unat (hi v) \<or> unat (hi u) = unat (hi v) \<and> mu < mv"
    unfolding mu_def mv_def by (rule lex_pair [OF bound bound])
  also have "mu < mv \<longleftrightarrow> unat (mid u) < unat (mid v) \<or> unat (mid u) = unat (mid v) \<and> unat (lo u) < unat (lo v)"
    unfolding mu_def mv_def by (rule lex_pair [OF unat_u32_less unat_u32_less])
  finally show ?thesis by (simp only: word_less_nat_alt word_unat_eq_iff)
qed

lemma mant_chunks_mono:
  assumes "u_mant u < u_mant v"
  shows "sep_lt (mant_chunks u) (mant_chunks v)"
proof -
  have z: "(0 :: u32) < x \<longleftrightarrow> x \<noteq> 0" for x by (simp add: word_gt_0)
  have n: "\<not> x < (0 :: u32)" for x by simp
  show ?thesis
    using assms sep_lt_u32 [of "lo u" "[]" "lo v" "[]"] n [of "mid u"] n [of "lo u"]
    unfolding u_mant_less_iff mant_chunks_def
    by (auto simp: sep_lt_u32 z)
qed

lemma u_mant_inj: "u_mant u = u_mant v \<Longrightarrow> u = (v :: unpacked_decimal)"
proof -
  assume "u_mant u = u_mant v"
  then have "\<not> u_mant u < u_mant v" "\<not> u_mant v < u_mant u" by simp_all
  then have "hi u = hi v" "mid u = mid v" "lo u = lo v" unfolding u_mant_less_iff by auto
  then show ?thesis by simp
qed

text \<open>What the writer produces for a value \<open>\<plusminus>M / 10 ^ e\<close> whose mantissa has 28 digits.\<close>

lemma write_decimal_spec:
  assumes laws: "decimal_laws D" and m: "d_mant D d \<noteq> 0" "d_mant D d < 10 ^ 28"
  shows "\<exists>u k. u_mant u = d_mant D d * 10 ^ k \<and> 10 ^ 27 \<le> u_mant u \<and> u_mant u < 10 ^ 28 \<and> k \<le> 27 \<and>
    write_sortable_decimal D d so buf =
      Some (buf @ write_decimal_chunks (d_is_sign_positive D d \<noteq> is_desc so) (100 - of_nat (d_exp D d + k)) u)"
proof -
  obtain e where e: "d_set_scale D (d_abs D d) 0 = Some e" "d_nat D e (d_mant D d)"
    using laws_set_scale [OF laws, of 0 "d_abs D d"] laws_abs [OF laws, of d] by (auto simp: d_nat_def)
  have sc: "(ucast (d_scale D d) :: u8) = of_nat (d_exp D d)"
    unfolding d_exp_def by (rule ucast_as_of_nat)
  obtain d' k where k: "decimal_rescale D e (of_nat (d_exp D d)) = Some (d', of_nat (d_exp D d) + of_nat k)"
    "d_nat D d' (d_mant D d * 10 ^ k)" "10 ^ 27 \<le> d_mant D d * 10 ^ k" "d_mant D d * 10 ^ k < 10 ^ 28"
    using decimal_rescale_spec [OF laws e(2) _ m(2)] m(1) by blast
  have "(10 :: nat) ^ k < 10 ^ 28"
  proof -
    have "1 * 10 ^ k \<le> d_mant D d * (10 :: nat) ^ k" using m(1) by (intro mult_right_mono) auto
    then show ?thesis using k(4) by linarith
  qed
  then have "k < 28" by (rule power_less_imp_less_exp [rotated]) simp
  moreover have "u_mant (d_unpack D d') = d_mant D d * 10 ^ k"
    using k(2) by (simp add: d_nat_def d_mant_def u_mant_def Let_def)
  ultimately show ?thesis using e k sc laws_is_zero [OF laws, of d] laws_abs(2) [OF laws, of d] m(1)
    by (intro exI [of _ "d_unpack D d'"] exI [of _ k]) (simp add: write_sortable_decimal_def Let_def)
qed

section \<open>Order\<close>

definition decimal_bytes :: "('d, 'z) decimal_ops_scheme \<Rightarrow> 'd \<Rightarrow> sort_order \<Rightarrow> bytes" where
  "decimal_bytes D d so = the (write_sortable_decimal D d so [])"

definition valid_decimal :: "('d, 'z) decimal_ops_scheme \<Rightarrow> 'd \<Rightarrow> bool" where
  "valid_decimal D d \<longleftrightarrow> decimal_laws D \<and> d_mant D d < 10 ^ 28"

definition mag_less :: "('d, 'z) decimal_ops_scheme \<Rightarrow> 'd \<Rightarrow> 'd \<Rightarrow> bool" where
  "mag_less D a b \<longleftrightarrow> d_mant D a * 10 ^ d_exp D b < d_mant D b * 10 ^ d_exp D a"

lemma scaled_less_iff:
  fixes M M' :: nat
  assumes "10 ^ 27 \<le> M" "M < 10 ^ 28" "10 ^ 27 \<le> M'" "M' < 10 ^ 28"
  shows "M * 10 ^ E' < M' * 10 ^ E \<longleftrightarrow> E' < E \<or> E = E' \<and> M < M'"
proof -
  have aux: "N * 10 ^ F < N' * 10 ^ F'" if "F < F'" "N < 10 ^ 28" "10 ^ 27 \<le> N'" for N N' F F' :: nat
  proof -
    have "N * 10 ^ F < 10 ^ 28 * 10 ^ F" using that(2) by simp
    also have "\<dots> = 10 ^ 27 * 10 ^ Suc F" by simp
    also have "\<dots> \<le> N' * 10 ^ F'"
      using that(1,3) by (intro mult_mono power_increasing) auto
    finally show ?thesis .
  qed
  show ?thesis
    using aux [of E' E M M'] aux [of E E' M' M] assms by (cases E E' rule: linorder_cases) auto
qed

lemma d_vless_cases:
  "d_vless D a b \<longleftrightarrow>
    (if d_is_sign_positive D a then
       if d_is_sign_positive D b then mag_less D a b else False
     else if d_is_sign_positive D b then d_mant D a \<noteq> 0 \<or> d_mant D b \<noteq> 0 else mag_less D b a)"
proof -
  have p: "0 < (10 :: int) ^ n" for n by simp
  have i: "int x * 10 ^ e < int y * 10 ^ f \<longleftrightarrow> x * 10 ^ e < y * 10 ^ f" for x y e f
  proof -
    have "int x * 10 ^ e = int (x * 10 ^ e)" "int y * 10 ^ f = int (y * 10 ^ f)" by simp_all
    then show ?thesis by (simp only: of_nat_less_iff)
  qed
  have nn: "0 \<le> int x * 10 ^ e" for x e by simp
  have z: "- (int x * 10 ^ e) < int y * 10 ^ f \<longleftrightarrow> x \<noteq> 0 \<or> y \<noteq> 0" for x y e f
  proof (cases "x = 0 \<and> y = 0")
    case False
    then have "0 < int x * 10 ^ e \<or> 0 < int y * 10 ^ f" by auto
    then show ?thesis using False nn [of x e] nn [of y f] by linarith
  qed simp
  have no: "\<not> int x * 10 ^ e < - (int y * 10 ^ f)" for x y e f
    using nn [of x e] nn [of y f] by linarith
  show ?thesis by (simp add: d_vless_def d_num_def mag_less_def i z no)
qed

text \<open>The sign, exponent and mantissa a nonzero decimal is written with.\<close>

lemma write_decimal_cases:
  assumes "valid_decimal D d"
  obtains (zero) "d_mant D d = 0" "\<And>so buf. write_sortable_decimal D d so buf = Some (buf @ [127])"
  | (nonzero) u E where "d_mant D d \<noteq> 0" "10 ^ 27 \<le> u_mant u" "u_mant u < 10 ^ 28" "E \<le> 55"
      "d_exp D d \<le> E" "E \<le> d_exp D d + 27" "u_mant u * 10 ^ d_exp D d = d_mant D d * 10 ^ E"
      "\<And>so buf. write_sortable_decimal D d so buf =
        Some (buf @ write_decimal_chunks (d_is_sign_positive D d \<noteq> is_desc so) (100 - of_nat E) u)"
proof (cases "d_mant D d = 0")
  case True
  moreover have "write_sortable_decimal D d so buf = Some (buf @ [127])" for so buf
    using True assms laws_is_zero [of D d] by (simp add: write_sortable_decimal_def valid_decimal_def)
  ultimately show ?thesis using zero by blast
next
  case False
  have laws: "decimal_laws D" and m: "d_mant D d < 10 ^ 28" using assms by (simp_all add: valid_decimal_def)
  obtain u k where uk: "u_mant u = d_mant D d * 10 ^ k" "10 ^ 27 \<le> u_mant u" "u_mant u < 10 ^ 28" "k \<le> 27"
    using write_decimal_spec [OF laws False m, of Asc "[]"] by metis
  have "write_sortable_decimal D d so buf =
      Some (buf @ write_decimal_chunks (d_is_sign_positive D d \<noteq> is_desc so) (100 - of_nat (d_exp D d + k)) u)" for so buf
  proof -
    obtain u' k' where u': "u_mant u' = d_mant D d * 10 ^ k'" "10 ^ 27 \<le> u_mant u'" "u_mant u' < 10 ^ 28"
      and w: "write_sortable_decimal D d so buf =
      Some (buf @ write_decimal_chunks (d_is_sign_positive D d \<noteq> is_desc so) (100 - of_nat (d_exp D d + k')) u')"
      using write_decimal_spec [OF laws False m, of so buf] by metis
    have "u_mant u * 10 ^ k' = u_mant u' * 10 ^ k" using u' uk by simp
    then have "k' = k \<and> u_mant u = u_mant u'"
      using scaled_less_iff [of "u_mant u" "u_mant u'" k' k] scaled_less_iff [of "u_mant u'" "u_mant u" k k'] uk u'
      by auto
    then show ?thesis using w u_mant_inj [of u u'] by simp
  qed
  then show ?thesis using nonzero [of u "d_exp D d + k"] False uk laws_exp [OF laws, of d]
    by (auto simp: power_add)
qed

lemma chunks_sep_lt:
  assumes M: "10 ^ 27 \<le> u_mant u" "u_mant u < 10 ^ 28" "10 ^ 27 \<le> u_mant v" "u_mant v < 10 ^ 28" "E \<le> 55" "F \<le> 55"
    and less: "u_mant u * 10 ^ F < u_mant v * 10 ^ E"
  shows "sep_lt (write_decimal_chunks True (100 - of_nat E) u) (write_decimal_chunks True (100 - of_nat F) v)"
    and "sep_lt (write_decimal_chunks False (100 - of_nat F) v) (write_decimal_chunks False (100 - of_nat E) u)"
proof -
  have t: "128 + (100 - of_nat n) = (of_nat (228 - n) :: u8)" "126 - (100 - of_nat n) = (of_nat (26 + n) :: u8)"
    if "n \<le> 55" for n using that by (simp_all add: of_nat_diff)
  have "F < E \<or> E = F \<and> u_mant u < u_mant v" using less scaled_less_iff [OF M(1-4)] by blast
  then show "sep_lt (write_decimal_chunks True (100 - of_nat E) u) (write_decimal_chunks True (100 - of_nat F) v)"
    and "sep_lt (write_decimal_chunks False (100 - of_nat F) v) (write_decimal_chunks False (100 - of_nat E) u)"
    unfolding write_decimal_chunks_eq using M(5,6) mant_chunks_mono [of u v]
    by (auto simp: t u8_of_nat_less_iff u8_of_nat_eq_iff sep_lt_map_NOT simp del: of_nat_add of_nat_diff)
qed

lemma chunks_tags:
  assumes "E \<le> 55"
  shows "sep_lt [127] (write_decimal_chunks True (100 - of_nat E) u)"
    and "sep_lt (write_decimal_chunks False (100 - of_nat E) u) [127]"
proof -
  have t: "128 + (100 - of_nat E) = (of_nat (228 - E) :: u8)" "126 - (100 - of_nat E) = (of_nat (26 + E) :: u8)"
    using assms by (simp_all add: of_nat_diff)
  have "(of_nat 127 :: u8) < of_nat (228 - E)" "of_nat (26 + E) < (of_nat 127 :: u8)"
    using assms by (simp_all add: u8_of_nat_less_iff del: of_nat_add of_nat_diff of_nat_numeral)
  then show "sep_lt [127] (write_decimal_chunks True (100 - of_nat E) u)"
    and "sep_lt (write_decimal_chunks False (100 - of_nat E) u) [127]"
    unfolding write_decimal_chunks_eq by (simp_all only: t if_True if_False sep_lt.simps) simp_all
qed

lemma sep_lt_trans: "sep_lt xs ys \<Longrightarrow> sep_lt ys zs \<Longrightarrow> sep_lt xs zs"
  by (induction xs ys arbitrary: zs rule: sep_lt.induct) (case_tac zs; auto)+

lemma chunks_signs:
  assumes "E \<le> 55" "F \<le> 55"
  shows "sep_lt (write_decimal_chunks False (100 - of_nat E) u) (write_decimal_chunks True (100 - of_nat F) v)"
  using sep_lt_trans chunks_tags(2) [OF assms(1)] chunks_tags(1) [OF assms(2)] by blast

lemma write_decimal_mono:
  assumes "valid_decimal D a" "valid_decimal D b" "d_vless D a b"
  shows "if is_asc so then sep_lt (decimal_bytes D a so) (decimal_bytes D b so)
    else sep_lt (decimal_bytes D b so) (decimal_bytes D a so)"
  using assms(1)
proof (cases rule: write_decimal_cases)
  case a: zero
  from assms(2) show ?thesis
  proof (cases rule: write_decimal_cases)
    case b: zero
    then show ?thesis using a assms(3) by (simp add: d_vless_cases mag_less_def split: if_splits)
  next
    case b: (nonzero v F)
    have "d_is_sign_positive D b" using assms(3) a(1) b(1) by (simp add: d_vless_cases mag_less_def split: if_splits)
    then show ?thesis using chunks_tags [OF b(4)] by (cases so) (simp_all add: decimal_bytes_def a(2) b(8))
  qed
next
  case a: (nonzero u E)
  from assms(2) show ?thesis
  proof (cases rule: write_decimal_cases)
    case b: zero
    have "\<not> d_is_sign_positive D a" using assms(3) a(1) b(1) by (simp add: d_vless_cases mag_less_def split: if_splits)
    then show ?thesis using chunks_tags [OF a(4)] by (cases so) (simp_all add: decimal_bytes_def b(2) a(8))
  next
    case b: (nonzero v F)
    let ?x = "10 ^ d_exp D a" and ?y = "10 ^ d_exp D b"
    have ab: "u_mant u * 10 ^ F * (?x * ?y) = (d_mant D a * ?y) * (10 ^ E * 10 ^ F)"
      "u_mant v * 10 ^ E * (?x * ?y) = (d_mant D b * ?x) * (10 ^ E * 10 ^ F)"
      using a(7) b(7) by (simp_all add: algebra_simps)
    have mag: "mag_less D a b \<longleftrightarrow> u_mant u * 10 ^ F < u_mant v * 10 ^ E"
      "mag_less D b a \<longleftrightarrow> u_mant v * 10 ^ E < u_mant u * 10 ^ F"
    proof -
      have "mag_less D a b \<longleftrightarrow> (d_mant D a * ?y) * (10 ^ E * 10 ^ F) < (d_mant D b * ?x) * (10 ^ E * 10 ^ F)"
        unfolding mag_less_def by simp
      then show "mag_less D a b \<longleftrightarrow> u_mant u * 10 ^ F < u_mant v * 10 ^ E" unfolding ab [symmetric] by simp
      have "mag_less D b a \<longleftrightarrow> (d_mant D b * ?x) * (10 ^ E * 10 ^ F) < (d_mant D a * ?y) * (10 ^ E * 10 ^ F)"
        unfolding mag_less_def by simp
      then show "mag_less D b a \<longleftrightarrow> u_mant v * 10 ^ E < u_mant u * 10 ^ F" unfolding ab [symmetric] by simp
    qed
    note ch = chunks_sep_lt [OF a(2,3) b(2,3) a(4) b(4)] chunks_sep_lt [OF b(2,3) a(2,3) b(4) a(4)]
      chunks_signs [OF a(4) b(4)] chunks_signs [OF b(4) a(4)]
    show ?thesis using assms(3) ch
      by (cases so) (auto simp: decimal_bytes_def a(8) b(8) d_vless_cases mag split: if_splits)
  qed
qed

section \<open>Reading\<close>

lemma read_decimal_chunks:
  assumes E: "E \<le> 55"
  shows "read_sortable_decimal D so (write_decimal_chunks p (100 - of_nat E) u @ rest) =
    map_option (\<lambda>d. (d, rest))
      (decimal_rebuild D (lo u) (mid u) (hi u) (if p then is_desc so else is_asc so) (of_nat E))"
proof (cases p)
  case True
  define b where "b = (of_nat (228 - E) :: u8)"
  have b: "128 + (100 - of_nat E) = b" using E by (simp add: b_def of_nat_diff)
  have ub: "unat b = 228 - E" using E by (simp add: b_def unat_of_nat del: of_nat_diff)
  have s: "100 - ucast (b - 128) = (of_nat E :: u32)"
  proof -
    have "b - 128 = of_nat (100 - E)" using E by (simp add: b_def of_nat_diff)
    then have "ucast (b - 128) = (of_nat (100 - E) :: u32)"
      using ucast_of_nat_small [of "100 - E", where 'a = 8 and 'b = 32] by (simp del: of_nat_diff)
    then show ?thesis using E by (simp add: of_nat_diff)
  qed
  have "128 \<le> b" "b \<le> 254" "b \<noteq> 127" using ub E by (auto simp: word_le_nat_alt word_unat_eq_iff)
  then show ?thesis using True
    by (simp add: write_decimal_chunks_def b read_sortable_decimal_def s Let_def)
next
  case False
  define b where "b = (of_nat (26 + E) :: u8)"
  have b: "126 - (100 - of_nat E) = b" using E by (simp add: b_def of_nat_diff)
  have ub: "unat b = 26 + E" using E by (simp add: b_def unat_of_nat del: of_nat_add)
  have s: "100 - ucast (126 - b) = (of_nat E :: u32)"
  proof -
    have "126 - b = of_nat (100 - E)" using E by (simp add: b_def of_nat_diff)
    then have "ucast (126 - b) = (of_nat (100 - E) :: u32)"
      using ucast_of_nat_small [of "100 - E", where 'a = 8 and 'b = 32] by (simp del: of_nat_diff)
    then show ?thesis using E by (simp add: of_nat_diff)
  qed
  have "\<not> 128 \<le> b" "b \<le> 126" "b \<noteq> 127" using ub E by (auto simp: word_le_nat_alt word_unat_eq_iff)
  then show ?thesis using False
    by (simp add: write_decimal_chunks_def b read_sortable_decimal_def s Let_def)
qed

lemma decimal_rebuild_spec:
  assumes laws: "decimal_laws D" and u: "u_mant u = m * 10 ^ k" "u_mant u < 10 ^ 28" "m \<noteq> 0" "s \<le> 28" "k \<le> 27"
  shows "\<exists>d. decimal_rebuild D (lo u) (mid u) (hi u) neg (of_nat (s + k)) = Some d \<and>
    d_is_sign_positive D d = (\<not> neg) \<and> d_mant D d * 10 ^ s = m * 10 ^ d_exp D d"
proof -
  have nz: "(lo u, mid u, hi u) \<noteq> (0, 0, 0)" using u(1,3) by (auto simp: u_mant_def)
  have un: "unat (of_nat (s + k) :: u32) = s + k" using u by (simp add: unat_of_nat del: of_nat_add)
  note parts = laws_from_parts [OF laws nz]
  have mant: "d_mant D (d_from_parts D (lo u) (mid u) (hi u) neg sc) = m * 10 ^ k" if "sc \<le> 28" for sc
    using parts [OF that] u(1) by (simp add: d_mant_def u_mant_def)
  show ?thesis
  proof (cases "s + k \<le> 28")
    case True
    then have le: "(of_nat (s + k) :: u32) \<le> 28" using un by (simp add: word_le_nat_alt)
    have "d_exp D (d_from_parts D (lo u) (mid u) (hi u) neg (of_nat (s + k))) = s + k"
      using parts [OF le, of neg] un by (simp add: d_exp_def)
    then show ?thesis using parts [OF le, of neg] mant [OF le] le
      by (auto simp: decimal_rebuild_def power_add)
  next
    case False
    then have nle: "\<not> (of_nat (s + k) :: u32) \<le> 28" using un by (simp add: word_le_nat_alt)
    define d0 where "d0 = d_from_parts D (lo u) (mid u) (hi u) neg 28"
    define d1 where "d1 = d_normalize D d0"
    have d0: "d_mant D d0 = m * 10 ^ k" "d_exp D d0 = 28" "d_is_sign_positive D d0 = (\<not> neg)"
      using parts [of 28 neg] mant [of 28] by (simp_all add: d0_def d_exp_def)
    obtain t where t: "m * 10 ^ k = d_mant D d1 * 10 ^ t" "d_exp D d1 + t = 28"
      "d_exp D d1 = 0 \<or> \<not> 10 dvd d_mant D d1" "d_is_sign_positive D d1 = (\<not> neg)"
      using laws_normalize [OF laws, of d0] d0 u(3) unfolding d1_def by auto
    have t28: "t < 28"
    proof -
      have "d_mant D d1 \<noteq> 0" using t(1) u(3) by (intro notI) simp
      then have "1 * 10 ^ t \<le> d_mant D d1 * 10 ^ t" by (intro mult_right_mono) auto
      then have "(10 :: nat) ^ t < 10 ^ 28" using u(1,2) t(1) by linarith
      then show ?thesis by (rule power_less_imp_less_exp [rotated]) simp
    qed
    have kt: "k \<le> t"
    proof (rule ccontr)
      assume "\<not> k \<le> t"
      then obtain j where j: "k = t + Suc j" using less_imp_Suc_add [of t k] by auto
      then have "10 ^ t * d_mant D d1 = 10 ^ t * (10 * (m * 10 ^ j))"
        using t(1) by (simp add: power_add algebra_simps)
      then have "d_mant D d1 = 10 * (m * 10 ^ j)" by simp
      then show False using t(2,3) t28 by auto
    qed
    define n where "n = (of_nat (s + k) - 28 + d_scale D d1 :: u32)"
    have "n = of_nat (s + k - t)"
    proof -
      have "d_scale D d1 = of_nat (28 - t)" 
      proof -
        have "unat (d_scale D d1) = 28 - t" using t(2) by (simp add: d_exp_def)
        then show ?thesis by (metis of_nat_unat ucast_id)
      qed
      then show ?thesis unfolding n_def using t28 False by (simp add: of_nat_diff)
    qed
    then have n: "unat n = s + k - t" using u by (simp add: unat_of_nat del: of_nat_add of_nat_diff)
    then have "n \<le> 28" using kt u(4) by (simp add: word_le_nat_alt)
    then obtain e where e: "d_set_scale D d1 n = Some e" "d_mant D e = d_mant D d1" "d_scale D e = n"
      "d_is_sign_positive D e = (\<not> neg)" using laws_set_scale [OF laws, of n d1] t(4) by auto
    have "10 ^ t * (d_mant D e * 10 ^ s) = 10 ^ t * (m * 10 ^ d_exp D e)"
    proof -
      have "10 ^ t * (d_mant D e * 10 ^ s) = m * 10 ^ k * 10 ^ s" using t(1) e(2) by simp
      also have "\<dots> = m * 10 ^ (t + (s + k - t))" using t28 False by (simp add: power_add [symmetric] add.commute)
      finally show ?thesis using n e(3) by (simp add: d_exp_def power_add algebra_simps)
    qed
    then have "d_mant D e * 10 ^ s = m * 10 ^ d_exp D e" by simp
    then show ?thesis using e nle by (simp add: decimal_rebuild_def n_def d0_def d1_def Let_def)
  qed
qed

lemma read_write_decimal:
  assumes "valid_decimal D d"
  shows "\<exists>y. read_sortable_decimal D so (decimal_bytes D d so @ rest) = Some (y, rest) \<and> d_veq D y d"
  using assms
proof (cases rule: write_decimal_cases)
  case zero
  then show ?thesis using laws_zero [of D] assms
    by (simp add: decimal_bytes_def read_sortable_decimal_def d_veq_def d_num_def valid_decimal_def)
next
  case (nonzero u E)
  have laws: "decimal_laws D" using assms by (simp add: valid_decimal_def)
  define k where "k = E - d_exp D d"
  have E: "E = d_exp D d + k" using nonzero by (simp add: k_def)
  have um: "u_mant u = d_mant D d * 10 ^ k"
    using nonzero(7) unfolding E by (simp add: power_add)
  obtain y where y: "decimal_rebuild D (lo u) (mid u) (hi u) (\<not> d_is_sign_positive D d) (of_nat E) = Some y"
    "d_is_sign_positive D y = d_is_sign_positive D d" "d_mant D y * 10 ^ d_exp D d = d_mant D d * 10 ^ d_exp D y"
    using decimal_rebuild_spec [OF laws um nonzero(3,1) laws_exp [OF laws], of "\<not> d_is_sign_positive D d"] nonzero(6) E by auto
  have "(if d_is_sign_positive D d \<noteq> is_desc so then is_desc so else is_asc so) = (\<not> d_is_sign_positive D d)"
    by (cases so) auto
  then have "read_sortable_decimal D so (decimal_bytes D d so @ rest) = Some (y, rest)"
    using read_decimal_chunks [OF nonzero(4), of D so "d_is_sign_positive D d \<noteq> is_desc so" u rest] y(1)
    by (simp add: decimal_bytes_def nonzero(8))
  moreover have "int (d_mant D y) * 10 ^ d_exp D d = int (d_mant D d) * 10 ^ d_exp D y"
    using arg_cong [OF y(3), of int] by simp
  ultimately show ?thesis using y(2) by (simp add: d_veq_def d_num_def)
qed

lemma d_veq_nonzero:
  assumes "d_veq D a b" "d_mant D a \<noteq> 0"
  shows "d_is_sign_positive D a = d_is_sign_positive D b \<and> d_mant D b \<noteq> 0 \<and>
    d_mant D a * 10 ^ d_exp D b = d_mant D b * 10 ^ d_exp D a"
proof -
  have pos: "0 < int (d_mant D a) * 10 ^ d_exp D b" using assms(2) by simp
  have nn: "0 \<le> int (d_mant D b) * 10 ^ d_exp D a" by simp
  have neg: "- (int (d_mant D a) * 10 ^ d_exp D b) \<noteq> int (d_mant D b) * 10 ^ d_exp D a"
    "int (d_mant D a) * 10 ^ d_exp D b \<noteq> - (int (d_mant D b) * 10 ^ d_exp D a)" using pos nn by linarith+
  then have eq: "int (d_mant D a) * 10 ^ d_exp D b = int (d_mant D b) * 10 ^ d_exp D a \<and>
      d_is_sign_positive D a = d_is_sign_positive D b"
    using assms(1) by (simp add: d_veq_def d_num_def split: if_splits)
  then have "d_mant D b \<noteq> 0" using pos by (intro notI) simp
  moreover have "d_mant D a * 10 ^ d_exp D b = d_mant D b * 10 ^ d_exp D a"
  proof -
    have "int (d_mant D a * 10 ^ d_exp D b) = int (d_mant D b * 10 ^ d_exp D a)" using eq by simp
    then show ?thesis by (simp only: of_nat_eq_iff)
  qed
  ultimately show ?thesis using eq by blast
qed

lemma d_veq_sym: "d_veq D a b \<Longrightarrow> d_veq D b a"
  by (simp add: d_veq_def)

lemma write_decimal_cong:
  assumes "valid_decimal D a" "valid_decimal D b" "d_veq D a b"
  shows "write_sortable_decimal D a so buf = write_sortable_decimal D b so buf"
  using assms(1)
proof (cases rule: write_decimal_cases)
  case a: zero
  then have "d_mant D b = 0" using d_veq_nonzero [OF d_veq_sym [OF assms(3)]] by auto
  with assms(2) a show ?thesis by (cases rule: write_decimal_cases) auto
next
  case a: (nonzero u E)
  note eq = d_veq_nonzero [OF assms(3) a(1)]
  from assms(2) show ?thesis
  proof (cases rule: write_decimal_cases)
    case zero
    then show ?thesis using eq by simp
  next
    case b: (nonzero v F)
    let ?x = "10 ^ d_exp D a" and ?y = "10 ^ d_exp D b"
    have "u_mant u * 10 ^ F * (?x * ?y) = (d_mant D a * ?y) * (10 ^ E * 10 ^ F)"
      "u_mant v * 10 ^ E * (?x * ?y) = (d_mant D b * ?x) * (10 ^ E * 10 ^ F)"
      using a(7) b(7) by (simp_all add: algebra_simps)
    then have "u_mant u * 10 ^ F * (?x * ?y) = u_mant v * 10 ^ E * (?x * ?y)" using eq by metis
    then have "u_mant u * 10 ^ F = u_mant v * 10 ^ E" by simp
    then have "E = F \<and> u_mant u = u_mant v"
      using scaled_less_iff [OF a(2,3) b(2,3), of F E] scaled_less_iff [OF b(2,3) a(2,3), of E F] by auto
    then show ?thesis using eq u_mant_inj [of u v] by (simp add: a(8) b(8))
  qed
qed

lemma decimal_total: "d_vless D a b \<or> d_veq D a b \<or> d_vless D b a"
  unfolding d_vless_def d_veq_def by linarith

interpretation decimal_enc: sortable_encoding "\<lambda>d so buf. the (write_sortable_decimal D d so buf)" "read_sortable_decimal D"
  "valid_decimal D" "d_vless D" "d_veq D" for D :: "('d, 'z) decimal_ops_scheme"
proof unfold_locales
  fix d so buffer
  assume "valid_decimal D d"
  then show "the (write_sortable_decimal D d so buffer) = buffer @ the (write_sortable_decimal D d so [])"
    by (cases rule: write_decimal_cases) auto
next
  fix d so rest
  assume "valid_decimal D d"
  then show "\<exists>y. read_sortable_decimal D so (the (write_sortable_decimal D d so []) @ rest) = Some (y, rest) \<and> d_veq D y d"
    using read_write_decimal [of D d so rest] by (simp add: decimal_bytes_def)
next
  fix a b so
  assume "valid_decimal D a" "valid_decimal D b" "d_vless D a b"
  then show "if is_asc so
      then sep_lt (the (write_sortable_decimal D a so [])) (the (write_sortable_decimal D b so []))
      else sep_lt (the (write_sortable_decimal D b so [])) (the (write_sortable_decimal D a so []))"
    using write_decimal_mono [of D a b so] by (simp add: decimal_bytes_def split: if_splits)
next
  fix a b so
  assume "valid_decimal D a" "valid_decimal D b" "d_veq D a b"
  then show "the (write_sortable_decimal D a so []) = the (write_sortable_decimal D b so [])"
    using write_decimal_cong [of D a b so "[]"] by simp
qed (rule decimal_total)

lemma write_decimal_total: "valid_decimal D d \<Longrightarrow> \<exists>bs. write_sortable_decimal D d so buf = Some (buf @ bs)"
  by (cases rule: write_decimal_cases) auto

section \<open>A decimal that satisfies the laws\<close>

type_synonym ref_decimal = "bool \<times> nat \<times> nat"

fun ref_mant :: "ref_decimal \<Rightarrow> nat" where "ref_mant (neg, m, s) = m mod 2 ^ 96"
fun ref_exp :: "ref_decimal \<Rightarrow> nat" where "ref_exp (neg, m, s) = min s 28"
fun ref_num :: "ref_decimal \<Rightarrow> int" where
  "ref_num (neg, m, s) = (if neg then - int (ref_mant (neg, m, s)) else int (ref_mant (neg, m, s)))"

fun ref_strip :: "nat \<Rightarrow> nat \<Rightarrow> nat \<times> nat" where
  "ref_strip m 0 = (m, 0)"
| "ref_strip m (Suc s) = (if m mod 10 = 0 then ref_strip (m div 10) s else (m, Suc s))"

text \<open>The quotient with the smallest scale that is exact, searched up to the largest scale.\<close>

fun ref_quotient :: "nat \<Rightarrow> nat \<Rightarrow> nat \<Rightarrow> nat \<Rightarrow> (nat \<times> nat) option" where
  "ref_quotient a b s 0 = None"
| "ref_quotient a b s (Suc fuel) =
     (if a mod b = 0 then if a div b < 2 ^ 96 \<and> s \<le> 28 then Some (a div b, s) else None
      else ref_quotient (a * 10) b (s + 1) fuel)"

definition ref_decimal_ops :: "ref_decimal decimal_ops" where
  "ref_decimal_ops = \<lparr>
     d_is_zero = (\<lambda>d. ref_mant d = 0),
     d_abs = (\<lambda>(neg, m, s). (False, m, s)),
     d_scale = (\<lambda>d. of_nat (ref_exp d)),
     d_is_sign_positive = (\<lambda>(neg, m, s). \<not> neg),
     d_set_scale = (\<lambda>(neg, m, s) n. if n \<le> 28 then Some (neg, m, unat n) else None),
     d_cmp = (\<lambda>a b. let x = ref_num a * 10 ^ ref_exp b; y = ref_num b * 10 ^ ref_exp a in
        if x < y then Less else if x = y then Equal else Greater),
     d_mul = (\<lambda>a b. if ref_mant a * ref_mant b < 2 ^ 96 \<and> ref_exp a + ref_exp b \<le> 28
        then Some (fst a \<noteq> fst b, ref_mant a * ref_mant b, ref_exp a + ref_exp b) else None),
     d_div = (\<lambda>a b. if ref_mant b = 0 then None else
        map_option (\<lambda>(m, s). (fst a \<noteq> fst b, m, s)) (ref_quotient (ref_mant a) (ref_mant b) (ref_exp a - ref_exp b) 28)),
     d_unpack = (\<lambda>d. \<lparr>hi = of_nat (ref_mant d div 2 ^ 64), mid = of_nat (ref_mant d div 2 ^ 32), lo = of_nat (ref_mant d)\<rparr>),
     d_from_parts = (\<lambda>l m h neg s. (neg, unat h * 2 ^ 64 + unat m * 2 ^ 32 + unat l, unat s)),
     d_normalize = (\<lambda>(neg, m, s). (neg, ref_strip (m mod 2 ^ 96) (min s 28))),
     d_zero = (False, 0, 0),
     d_new = (\<lambda>n s. (sint n < 0, nat \<bar>sint n\<bar>, unat s)),
     d_from_i128_with_scale = (\<lambda>n s. (n < 0, nat \<bar>n\<bar>, unat s))\<rparr>"

lemma ref_quotient_numeral [simp]:
  "ref_quotient a b s (numeral k) =
     (if a mod b = 0 then if a div b < 2 ^ 96 \<and> s \<le> 28 then Some (a div b, s) else None
      else ref_quotient (a * 10) b (s + 1) (pred_numeral k))"
  by (simp add: numeral_eq_Suc)

lemma ref_strip_spec:
  "ref_strip m s = (m', s') \<Longrightarrow>
    \<exists>t. m = m' * 10 ^ t \<and> s' + t = s \<and> (m \<noteq> 0 \<longrightarrow> s' = 0 \<or> \<not> 10 dvd m')"
proof (induction m s arbitrary: m' s' rule: ref_strip.induct)
  case (1 m)
  then show ?case by auto
next
  case (2 m s)
  show ?case
  proof (cases "m mod 10 = 0")
    case True
    then obtain t where t: "m div 10 = m' * 10 ^ t" "s' + t = s" "m div 10 \<noteq> 0 \<longrightarrow> s' = 0 \<or> \<not> 10 dvd m'"
      using 2 by auto
    have "m = 10 * (m div 10)" using True by auto
    then have "m = m' * 10 ^ Suc t" using t(1) by simp
    moreover have "m div 10 \<noteq> 0" if "m \<noteq> 0" using that True by auto
    ultimately show ?thesis using t by (intro exI [of _ "Suc t"]) auto
  next
    case False
    then show ?thesis using 2 by (intro exI [of _ 0]) (auto simp: dvd_eq_mod_eq_0)
  qed
qed

lemma split3: "(x div 2 ^ 64) mod 2 ^ 32 * 2 ^ 64 + (x div 2 ^ 32) mod 2 ^ 32 * 2 ^ 32 + x mod 2 ^ 32 = (x :: nat) mod 2 ^ 96"
proof -
  have "x mod (2 ^ 32 * 2 ^ 64) = 2 ^ 32 * (x div 2 ^ 32 mod 2 ^ 64) + x mod 2 ^ 32" by (rule mod_mult2_eq)
  moreover have "x div 2 ^ 32 mod (2 ^ 32 * 2 ^ 32) = 2 ^ 32 * (x div 2 ^ 32 div 2 ^ 32 mod 2 ^ 32) + x div 2 ^ 32 mod 2 ^ 32"
    by (rule mod_mult2_eq)
  ultimately show ?thesis by (simp add: div_mult2_eq [symmetric])
qed

lemma ref_mant_eq: "d_mant ref_decimal_ops d = ref_mant d"
proof -
  have "ref_mant d < 2 ^ 96" by (cases d) simp
  then show ?thesis using split3 [of "ref_mant d"]
    by (simp add: d_mant_def ref_decimal_ops_def unat_of_nat Let_def)
qed

lemma ref_exp_eq: "d_exp ref_decimal_ops d = ref_exp d"
proof -
  have "ref_exp d \<le> 28" by (cases d) simp
  then show ?thesis by (simp add: d_exp_def ref_decimal_ops_def unat_of_nat)
qed

lemma ref_num_eq: "d_num ref_decimal_ops d = ref_num d"
  unfolding d_num_def ref_mant_eq by (cases d) (simp add: ref_decimal_ops_def)

lemma ref_scale_eq: "d_scale ref_decimal_ops d = of_nat (ref_exp d)"
  by (simp add: ref_decimal_ops_def)

lemma of_nat_unat_min: "n \<le> 28 \<Longrightarrow> of_nat (min (unat n) 28) = (n :: u32)"
  by (simp add: word_le_nat_alt min_def)

lemma unat_nat_sint: "0 < sint (n :: i64) \<Longrightarrow> nat \<bar>sint n\<bar> mod 2 ^ 96 = unat n"
  using i64_nonneg [of n] unat_i64_less [of n] by simp

lemma ref_from_parts:
  "d_unpack ref_decimal_ops (d_from_parts ref_decimal_ops l m h neg s) = \<lparr>hi = h, mid = m, lo = l\<rparr>"
proof (rule u_mant_inj)
  have "unat h * 2 ^ 64 + unat m * 2 ^ 32 + unat l < 2 ^ 96"
    using unat_u32_less [of h] unat_u32_less [of m] unat_u32_less [of l] by simp
  then show "u_mant (d_unpack ref_decimal_ops (d_from_parts ref_decimal_ops l m h neg s)) = u_mant \<lparr>hi = h, mid = m, lo = l\<rparr>"
    using ref_mant_eq [of "d_from_parts ref_decimal_ops l m h neg s"]
    by (simp add: u_mant_def d_mant_def Let_def ref_decimal_ops_def)
qed

lemma ref_normalize:
  assumes nz: "d_mant ref_decimal_ops d \<noteq> 0"
  shows "\<exists>t. d_mant ref_decimal_ops d = d_mant ref_decimal_ops (d_normalize ref_decimal_ops d) * 10 ^ t \<and>
      d_exp ref_decimal_ops (d_normalize ref_decimal_ops d) + t = d_exp ref_decimal_ops d \<and>
      (d_exp ref_decimal_ops (d_normalize ref_decimal_ops d) = 0 \<or> \<not> 10 dvd d_mant ref_decimal_ops (d_normalize ref_decimal_ops d)) \<and>
      d_is_sign_positive ref_decimal_ops (d_normalize ref_decimal_ops d) = d_is_sign_positive ref_decimal_ops d"
proof -
  obtain neg m s where d: "d = (neg, m, s)" by (cases d)
  obtain m' s' where ms: "ref_strip (m mod 2 ^ 96) (min s 28) = (m', s')" by fastforce
  from ref_strip_spec [OF ms] obtain t where t: "m mod 2 ^ 96 = m' * 10 ^ t" "s' + t = min s 28"
    "s' = 0 \<or> \<not> 10 dvd m'" using nz unfolding ref_mant_eq d by auto
  have "m' * 1 \<le> m' * 10 ^ t" by (intro mult_left_mono) auto
  then have "m' < 2 ^ 96" using t(1) by (metis le_less_trans mod_less_divisor mult.right_neutral zero_less_numeral zero_less_power)
  moreover have "d_normalize ref_decimal_ops d = (neg, m', s')" using ms by (simp add: d ref_decimal_ops_def)
  ultimately show ?thesis using t unfolding ref_mant_eq ref_exp_eq
    by (intro exI [of _ t]) (simp add: d ref_decimal_ops_def)
qed

lemma ref_cmp:
  "d_cmp ref_decimal_ops a b =
    (if d_vless ref_decimal_ops a b then Less else if d_veq ref_decimal_ops a b then Equal else Greater)"
  unfolding d_vless_def d_veq_def ref_num_eq ref_exp_eq by (simp add: ref_decimal_ops_def Let_def)

lemma ref_mul:
  assumes "ref_exp a = 0" "ref_exp b = 0" "d_is_sign_positive ref_decimal_ops a" "d_is_sign_positive ref_decimal_ops b"
    "ref_mant a * ref_mant b < 2 ^ 96"
  shows "\<exists>c. d_mul ref_decimal_ops a b = Some c \<and> ref_mant c = ref_mant a * ref_mant b \<and> ref_exp c = 0 \<and>
    d_is_sign_positive ref_decimal_ops c"
  using assms by (cases a; cases b) (auto simp: ref_decimal_ops_def)

lemma ref_decimal_laws: "decimal_laws ref_decimal_ops"
proof -
  have e0: "(of_nat (ref_exp d) :: u32) = 0 \<longleftrightarrow> ref_exp d = 0" for d
    by (cases d) (simp add: word_unat_eq_iff unat_of_nat)
  let ?D = ref_decimal_ops
  note eqs = ref_mant_eq ref_scale_eq ref_exp_eq
  have 1: "\<forall>d. d_is_zero ?D d \<longleftrightarrow> d_mant ?D d = 0" "\<forall>d. d_exp ?D d \<le> 28"
    unfolding eqs by (auto simp: ref_decimal_ops_def)
  have 2: "\<forall>d. d_mant ?D (d_abs ?D d) = d_mant ?D d \<and> d_scale ?D (d_abs ?D d) = d_scale ?D d \<and>
          d_is_sign_positive ?D (d_abs ?D d)"
    unfolding eqs by (auto simp: ref_decimal_ops_def)
  have 3: "\<forall>d n. n \<le> 28 \<longrightarrow> (\<exists>e. d_set_scale ?D d n = Some e \<and> d_mant ?D e = d_mant ?D d \<and> d_scale ?D e = n \<and>
          d_is_sign_positive ?D e = d_is_sign_positive ?D d)"
    unfolding eqs by (auto simp: ref_decimal_ops_def of_nat_unat_min)
  have 4: "\<forall>a b. d_scale ?D a = 0 \<longrightarrow> d_scale ?D b = 0 \<longrightarrow> d_is_sign_positive ?D a \<longrightarrow> d_is_sign_positive ?D b \<longrightarrow>
          d_mant ?D a * d_mant ?D b < 2 ^ 96 \<longrightarrow>
          (\<exists>c. d_mul ?D a b = Some c \<and> d_mant ?D c = d_mant ?D a * d_mant ?D b \<and> d_scale ?D c = 0 \<and>
               d_is_sign_positive ?D c)"
    unfolding eqs e0 using ref_mul by blast
  have 5: "\<forall>l m h neg s. (l, m, h) \<noteq> (0, 0, 0) \<longrightarrow> s \<le> 28 \<longrightarrow>
          (let d = d_from_parts ?D l m h neg s in
           d_unpack ?D d = \<lparr>hi = h, mid = m, lo = l\<rparr> \<and> d_scale ?D d = s \<and> d_is_sign_positive ?D d = (\<not> neg))"
    unfolding eqs Let_def ref_from_parts by (simp add: ref_decimal_ops_def of_nat_unat_min)
  have 6: "d_mant ?D (d_zero ?D) = 0" unfolding eqs by (simp add: ref_decimal_ops_def)
  have 7: "\<forall>n s. 0 < sint n \<longrightarrow> s \<le> 28 \<longrightarrow>
          d_mant ?D (d_new ?D n s) = unat n \<and> d_scale ?D (d_new ?D n s) = s \<and> d_is_sign_positive ?D (d_new ?D n s)"
    unfolding eqs using unat_nat_sint by (auto simp: ref_decimal_ops_def of_nat_unat_min)
  have 8: "\<forall>n s. 0 < n \<longrightarrow> n < 2 ^ 96 \<longrightarrow> s \<le> 28 \<longrightarrow>
          d_mant ?D (d_from_i128_with_scale ?D n s) = nat n \<and> d_scale ?D (d_from_i128_with_scale ?D n s) = s \<and>
          d_is_sign_positive ?D (d_from_i128_with_scale ?D n s)"
    unfolding eqs by (auto simp: ref_decimal_ops_def of_nat_unat_min nat_less_iff)
  have 9: "\<forall>a b. d_cmp ?D a b = (if d_vless ?D a b then Less else if d_veq ?D a b then Equal else Greater)"
    using ref_cmp by blast
  have 10: "\<forall>d. d_mant ?D d \<noteq> 0 \<longrightarrow>
          (\<exists>t. d_mant ?D d = d_mant ?D (d_normalize ?D d) * 10 ^ t \<and> d_exp ?D (d_normalize ?D d) + t = d_exp ?D d \<and>
               (d_exp ?D (d_normalize ?D d) = 0 \<or> \<not> 10 dvd d_mant ?D (d_normalize ?D d)) \<and>
               d_is_sign_positive ?D (d_normalize ?D d) = d_is_sign_positive ?D d)"
    using ref_normalize by blast
  show ?thesis
    unfolding decimal_laws_def by (intro conjI 1 2 3 4 5 6 7 8 9 10)
qed

section \<open>Mantissas of 29 digits\<close>

text \<open>When the mantissa has 29 digits the code divides by ten; the quotient of a mantissa that ten
  does not divide keeps all its digits at scale one, so that the digits written are those of the
  original while the exponent has gone down by one.\<close>

lemma write_decimal_29_digits:
  assumes laws: "decimal_laws D" and m: "10 ^ 28 \<le> d_mant D d"
    and e: "d_set_scale D (d_abs D d) 0 = Some e"
    and q: "d_div D e (DECIMAL_THRESHOLD_1_MUT D) = Some q" "d_unpack D q = d_unpack D d"
      "d_cmp D q (DECIMAL_LARGEST D) = Less"
  shows "write_sortable_decimal D d so buf =
    Some (buf @ write_decimal_chunks (d_is_sign_positive D d \<noteq> is_desc so) (100 - (ucast (d_scale D d) - 1)) (d_unpack D d))"
proof -
  have en: "d_nat D e (d_mant D d)"
    using laws_set_scale [OF laws, of 0 "d_abs D d"] laws_abs [OF laws, of d] e by (auto simp: d_nat_def)
  have skip: "scale_up D t f st e sc = Some (e, sc)" if "d_nat D t T" "T \<le> 10 ^ 28" for t f st sc T
    using d_nat_cmp [OF laws en that(1)] that(2) m by (subst scale_up.simps) auto
  have "d_cmp D e (DECIMAL_LARGEST D) \<noteq> Less"
    using d_nat_cmp [OF laws en thresholds(1) [OF laws]] m by simp
  then have "scale_down D e sc = Some (q, sc - 1)" for sc
    using q by (subst scale_down.simps, subst scale_down.simps) simp
  then have "decimal_rescale D e sc = Some (q, sc - 1)" for sc
    using skip [OF thresholds(2) [OF laws]] skip [OF thresholds(3) [OF laws]] skip [OF thresholds(4) [OF laws]]
      skip [OF thresholds(5) [OF laws]] by (simp add: decimal_rescale_def)
  moreover have "\<not> d_is_zero D d" using laws_is_zero [OF laws, of d] m by auto
  ultimately show ?thesis using q(2) e laws_abs(2) [OF laws, of d]
    by (simp add: write_sortable_decimal_def Let_def)
qed

section \<open>Properties\<close>

text \<open>C34. Decimals with at most 28 significant digits sort by value, whatever their scales, signs and
  trailing zeros: the encoded bytes (the writer never panics and its loops end) compare as the
  values, ascending or descending, and equal values (1.0 and 1.00) have equal bytes.\<close>

theorem decimal_encoding_order:
  assumes "decimal_laws D" "d_mant D a < 10 ^ 28" "d_mant D b < 10 ^ 28"
  shows "\<exists>x y. write_sortable_decimal D a so [] = Some x \<and> write_sortable_decimal D b so [] = Some y \<and>
    (x @ r < y @ s \<longleftrightarrow> (if is_asc so then d_cmp D a b = Less else d_cmp D b a = Less) \<or> d_cmp D a b = Equal \<and> r < s)"
proof -
  have v: "valid_decimal D a" "valid_decimal D b" using assms by (simp_all add: valid_decimal_def)
  obtain x y where xy: "write_sortable_decimal D a so [] = Some x" "write_sortable_decimal D b so [] = Some y"
    using write_decimal_total [OF v(1), of so "[]"] write_decimal_total [OF v(2), of so "[]"] by auto
  have "d_vless D a b \<Longrightarrow> \<not> d_veq D a b" by (simp add: d_vless_def d_veq_def)
  then show ?thesis
    using decimal_enc.encoded_less_iff [OF v, of so r s] xy
    by (cases so) (auto simp: laws_cmp [OF assms(1)])
qed

theorem decimal_encoding_order_witness:
  "\<exists>x y. write_sortable_decimal ref_decimal_ops (False, 13, 1) Asc [] = Some x \<and>
    write_sortable_decimal ref_decimal_ops (False, 14567, 4) Asc [] = Some y \<and> x @ [] < y @ []"
proof -
  have "d_cmp ref_decimal_ops (False, 13, 1) (False, 14567, 4) = Less" by (simp add: ref_decimal_ops_def)
  then show ?thesis
    using decimal_encoding_order [OF ref_decimal_laws, of "(False, 13, 1)" "(False, 14567, 4)" Asc "[]" "[]"]
    by (simp add: ref_mant_eq)
qed

text \<open>A decimal with at most 28 significant digits that is written and read back compares equal to
  the original, whatever follows in the buffer; scales beyond 28 that the normalisation of small
  numbers produces are undone by the reader.\<close>

theorem decimal_roundtrip:
  assumes "decimal_laws D" "d_mant D d < 10 ^ 28"
  shows "\<exists>bs y. write_sortable_decimal D d so buf = Some (buf @ bs) \<and>
    read_sortable_decimal D so (bs @ rest) = Some (y, rest) \<and> d_cmp D y d = Equal"
proof -
  have v: "valid_decimal D d" using assms by (simp add: valid_decimal_def)
  obtain bs where bs: "write_sortable_decimal D d so buf = Some (buf @ bs)" using write_decimal_total [OF v] by blast
  then have "decimal_bytes D d so = bs" using decimal_enc.write_append [OF v, of so buf]
    by (simp add: decimal_bytes_def)
  then obtain y where y: "read_sortable_decimal D so (bs @ rest) = Some (y, rest)" "d_veq D y d"
    using read_write_decimal [OF v] by blast
  then have "d_cmp D y d = Equal" by (simp add: laws_cmp [OF assms(1)] d_vless_def d_veq_def)
  then show ?thesis using bs y by blast
qed

theorem decimal_roundtrip_witness:
  "\<exists>bs y. write_sortable_decimal ref_decimal_ops (True, 1, 28) Desc [] = Some ([] @ bs) \<and>
    read_sortable_decimal ref_decimal_ops Desc (bs @ [7]) = Some (y, [7]) \<and>
    d_cmp ref_decimal_ops y (True, 1, 28) = Equal"
  by (rule decimal_roundtrip [OF ref_decimal_laws]) (simp add: ref_mant_eq)

text \<open>C40. A decimal with a 29 digit mantissa does not survive the encoding: where the library's
  quotient by ten keeps the digits (at scale one), the decimal read back has the same mantissa at a
  scale one lower, ten times the value written.\<close>

theorem decimal_29_digits_tenfold:
  assumes laws: "decimal_laws D" and "10 ^ 28 \<le> d_mant D d" "0 < d_exp D d"
    and "d_set_scale D (d_abs D d) 0 = Some e"
    and "d_div D e (DECIMAL_THRESHOLD_1_MUT D) = Some q" "d_unpack D q = d_unpack D d"
    and "d_cmp D q (DECIMAL_LARGEST D) = Less"
  shows "\<exists>bs y. write_sortable_decimal D d so [] = Some bs \<and> read_sortable_decimal D so (bs @ rest) = Some (y, rest) \<and>
    d_mant D y = d_mant D d \<and> d_exp D d = d_exp D y + 1"
proof -
  define E where "E = d_exp D d - 1"
  have E: "E \<le> 28" "d_exp D d = E + 1" using laws_exp [OF laws, of d] assms(3) by (simp_all add: E_def)
  have sc: "ucast (d_scale D d) - 1 = (of_nat E :: u8)"
    using E(2) unfolding d_exp_def ucast_as_of_nat [of "d_scale D d"] by simp
  let ?u = "d_unpack D d"
  have nz: "(lo ?u, mid ?u, hi ?u) \<noteq> (0, 0, 0)" using assms(2) by (auto simp: d_mant_def Let_def)
  have un: "unat (of_nat E :: u32) = E" using E by (simp add: unat_of_nat)
  then have le: "(of_nat E :: u32) \<le> 28" using E by (simp add: word_le_nat_alt)
  define y where "y = d_from_parts D (lo ?u) (mid ?u) (hi ?u)
    (if d_is_sign_positive D d \<noteq> is_desc so then is_desc so else is_asc so) (of_nat E)"
  have y: "d_mant D y = d_mant D d" "d_exp D y = E"
    using laws_from_parts [OF laws nz le] un unfolding y_def by (simp_all add: d_mant_def d_exp_def Let_def)
  show ?thesis
    using write_decimal_29_digits [OF laws assms(2,4-), of so "[]"] read_decimal_chunks [of E D so _ ?u rest] E y le
    by (simp add: sc decimal_rebuild_def y_def)
qed

theorem decimal_29_digits_tenfold_witness:
  "\<exists>bs y. write_sortable_decimal ref_decimal_ops (False, 79228162514264337593543950335, 1) Asc [] = Some bs \<and>
    read_sortable_decimal ref_decimal_ops Asc (bs @ []) = Some (y, []) \<and>
    d_mant ref_decimal_ops y = d_mant ref_decimal_ops (False, 79228162514264337593543950335, 1) \<and>
    d_exp ref_decimal_ops (False, 79228162514264337593543950335, 1) = d_exp ref_decimal_ops y + 1"
proof -
  have "d_div ref_decimal_ops (False, 79228162514264337593543950335, 0) (DECIMAL_THRESHOLD_1_MUT ref_decimal_ops) =
      Some (False, 79228162514264337593543950335, 1)"
    by (simp add: ref_decimal_ops_def DECIMAL_THRESHOLD_1_MUT_def)
  then show ?thesis
    using decimal_29_digits_tenfold [OF ref_decimal_laws, of "(False, 79228162514264337593543950335, 1)"
        "(False, 79228162514264337593543950335, 0)" "(False, 79228162514264337593543950335, 1)" Asc "[]"]
    by (simp add: ref_mant_eq ref_exp_eq) (simp add: ref_decimal_ops_def DECIMAL_LARGEST_def)
qed

end
