(* ===== verification/Datum.thy ===== *)
theory Datum
  imports Decimal_Encoding
begin

text \<open>
  The value type of the system (\<open>data/src/datum.rs\<close>, \<open>data/src/datatype.rs\<close>): the constructors
  of \<open>Datum\<close> and \<open>DataType\<close>, the conversions between borrowed and owned values, equality,
  comparison, hashing and the accessors.  A \<open>&str\<close> is its bytes.  Decimals, dates and the
  parser of JSON paths are third party code and parameters.  The lemmas show that equality is an
  equivalence that hashing respects, that comparison is a linear order within one SQL type with
  NULL first, and that making a value static keeps it equal.
\<close>

section \<open>JSON path expressions\<close>

datatype json_path_selector =
    Wildcard
  | StringIdentifier bytes
  | NumericIdentifier i64

record json_path_expression =
  selectors :: "json_path_selector list"
  original :: bytes

text \<open>\<open>JsonPathExpression::parse\<close> over the grammar, which is built from a parser combinator library.\<close>

definition json_path_parse ::
  "(bytes \<Rightarrow> json_path_selector list option) \<Rightarrow> bytes \<Rightarrow> json_path_expression option" where
  "json_path_parse parse_expression expression =
     map_option (\<lambda>sels. \<lparr>selectors = sels, original = expression\<rparr>) (parse_expression expression)"

definition could_return_many :: "json_path_expression \<Rightarrow> bool" where
  "could_return_many e = list_ex (\<lambda>s. s = Wildcard) (selectors e)"

section \<open>Data types\<close>

datatype data_type =
    T_Null
  | T_Boolean
  | T_Integer
  | T_BigInt
  | T_Decimal u8 u8
  | T_Text
  | T_ByteA
  | T_Json
  | T_Date
  | T_Timestamp
  | T_JsonPath

definition DECIMAL_MAX_PRECISION :: u8 where "DECIMAL_MAX_PRECISION = 28"
definition DECIMAL_MAX_SCALE :: u8 where "DECIMAL_MAX_SCALE = 14"

fun cast_function :: "data_type \<Rightarrow> string option" where
  "cast_function T_Null = None"
| "cast_function T_Boolean = Some ''to_bool''"
| "cast_function T_Integer = Some ''to_int''"
| "cast_function T_BigInt = Some ''to_bigint''"
| "cast_function (T_Decimal _ _) = Some ''to_decimal''"
| "cast_function T_Text = Some ''to_text''"
| "cast_function T_ByteA = Some ''to_bytes''"
| "cast_function T_Json = Some ''to_json''"
| "cast_function T_Date = Some ''to_date''"
| "cast_function T_Timestamp = Some ''to_timestamp''"
| "cast_function T_JsonPath = Some ''to_jsonpath''"

section \<open>Datums\<close>

datatype 'd datum =
    D_Null
  | D_Boolean bool
  | D_ByteARef bytes
  | D_ByteAOwned bytes
  | D_ByteAInline u8 bytes
  | D_Integer i32
  | D_BigInt i64
  | D_Decimal 'd
  | D_Jsonpath json_path_expression
  | D_JsonpathRef json_path_expression

text \<open>The inline form is a length and an array of 22 bytes.\<close>

fun wf_datum :: "'d datum \<Rightarrow> bool" where
  "wf_datum (D_ByteAInline len b) = (length b = 22 \<and> unat len \<le> 22)"
| "wf_datum _ = True"

fun ref_clone :: "'d datum \<Rightarrow> 'd datum" where
  "ref_clone (D_ByteAOwned s) = D_ByteARef s"
| "ref_clone (D_Jsonpath jp) = D_JsonpathRef jp"
| "ref_clone d = d"

fun as_static :: "'d datum \<Rightarrow> 'd datum" where
  "as_static (D_ByteARef s) =
     (if length s \<le> 22 then D_ByteAInline (of_nat (length s)) (s @ replicate (22 - length s) 0)
      else D_ByteAOwned s)"
| "as_static (D_JsonpathRef expr) = D_Jsonpath expr"
| "as_static d = d"

fun into_static :: "'d datum \<Rightarrow> 'd datum" where
  "into_static (D_ByteARef s) =
     (if length s \<le> 22 then D_ByteAInline (of_nat (length s)) (s @ replicate (22 - length s) 0)
      else D_ByteAOwned s)"
| "into_static (D_JsonpathRef expr) = D_Jsonpath expr"
| "into_static d = d"

fun is_null :: "'d datum \<Rightarrow> bool" where
  "is_null D_Null = True"
| "is_null _ = False"

fun as_maybe_bytea :: "'d datum \<Rightarrow> bytes option" where
  "as_maybe_bytea (D_ByteARef s) = Some s"
| "as_maybe_bytea (D_ByteAInline len b) = Some (take (unat len) b)"
| "as_maybe_bytea (D_ByteAOwned s) = Some s"
| "as_maybe_bytea _ = None"

definition as_maybe_text :: "'d datum \<Rightarrow> bytes option" where
  "as_maybe_text d = as_maybe_bytea d"

fun as_maybe_integer :: "'d datum \<Rightarrow> i32 option" where
  "as_maybe_integer (D_Integer i) = Some i"
| "as_maybe_integer _ = None"

fun as_maybe_bigint :: "'d datum \<Rightarrow> i64 option" where
  "as_maybe_bigint (D_BigInt i) = Some i"
| "as_maybe_bigint _ = None"

fun as_maybe_decimal :: "'d datum \<Rightarrow> 'd option" where
  "as_maybe_decimal (D_Decimal d) = Some d"
| "as_maybe_decimal _ = None"

fun as_maybe_boolean :: "'d datum \<Rightarrow> bool option" where
  "as_maybe_boolean (D_Boolean b) = Some b"
| "as_maybe_boolean _ = None"

fun as_maybe_jsonpath :: "'d datum \<Rightarrow> json_path_expression option" where
  "as_maybe_jsonpath (D_Jsonpath j) = Some j"
| "as_maybe_jsonpath (D_JsonpathRef j) = Some j"
| "as_maybe_jsonpath _ = None"

text \<open>Equality: \<open>null_safe\<close> decides whether NULL equals NULL.\<close>

fun sql_eq :: "('d, 'z) decimal_ops_scheme \<Rightarrow> 'd datum \<Rightarrow> 'd datum \<Rightarrow> bool \<Rightarrow> bool" where
  "sql_eq D D_Null other null_safe = (is_null other \<and> null_safe)"
| "sql_eq D (D_Boolean b) other null_safe = (as_maybe_boolean other = Some b)"
| "sql_eq D (D_Integer i) other null_safe = (as_maybe_integer other = Some i)"
| "sql_eq D (D_BigInt i) other null_safe = (as_maybe_bigint other = Some i)"
| "sql_eq D (D_Decimal d) other null_safe =
     (case as_maybe_decimal other of None \<Rightarrow> False | Some e \<Rightarrow> d_cmp D e d = Equal)"
| "sql_eq D (D_ByteAOwned s) other null_safe = (as_maybe_text (D_ByteAOwned s :: 'd datum) = as_maybe_text other)"
| "sql_eq D (D_ByteAInline n s) other null_safe = (as_maybe_text (D_ByteAInline n s :: 'd datum) = as_maybe_text other)"
| "sql_eq D (D_ByteARef s) other null_safe = (as_maybe_text (D_ByteARef s :: 'd datum) = as_maybe_text other)"
| "sql_eq D (D_Jsonpath j) other null_safe = (Some j = as_maybe_jsonpath other)"
| "sql_eq D (D_JsonpathRef j) other null_safe = (Some j = as_maybe_jsonpath other)"

definition datum_eq :: "('d, 'z) decimal_ops_scheme \<Rightarrow> 'd datum \<Rightarrow> 'd datum \<Rightarrow> bool" where
  "datum_eq D a b = sql_eq D a b True"

text \<open>\<open>Ord::cmp\<close> of a linear order given by its strict part.\<close>

definition cmp_of :: "('a \<Rightarrow> 'a \<Rightarrow> bool) \<Rightarrow> 'a \<Rightarrow> 'a \<Rightarrow> ordering" where
  "cmp_of lt x y = (if lt x y then Less else if x = y then Equal else Greater)"

text \<open>\<open>if let Some(o) = other { self.cmp(o) } else { Greater }\<close>\<close>

definition cmp_or_greater :: "('a \<Rightarrow> 'b \<Rightarrow> ordering) \<Rightarrow> 'a \<Rightarrow> 'b option \<Rightarrow> ordering" where
  "cmp_or_greater c x other = (case other of Some y \<Rightarrow> c x y | None \<Rightarrow> Greater)"

fun datum_cmp :: "('d, 'z) decimal_ops_scheme \<Rightarrow> 'd datum \<Rightarrow> 'd datum \<Rightarrow> ordering" where
  "datum_cmp D D_Null other = (if is_null other then Equal else Less)"
| "datum_cmp D (D_Boolean b) other = cmp_or_greater (cmp_of (<)) b (as_maybe_boolean other)"
| "datum_cmp D (D_Integer i) other = cmp_or_greater (cmp_of (\<lambda>x y. sint x < sint y)) i (as_maybe_integer other)"
| "datum_cmp D (D_BigInt i) other = cmp_or_greater (cmp_of (\<lambda>x y. sint x < sint y)) i (as_maybe_bigint other)"
| "datum_cmp D (D_Decimal d) other = cmp_or_greater (d_cmp D) d (as_maybe_decimal other)"
| "datum_cmp D (D_ByteAOwned s) other = cmp_or_greater (cmp_of (<)) s (as_maybe_text other)"
| "datum_cmp D (D_ByteAInline n s) other = cmp_or_greater (cmp_of (<)) (take (unat n) s) (as_maybe_text other)"
| "datum_cmp D (D_ByteARef s) other = cmp_or_greater (cmp_of (<)) s (as_maybe_text other)"
| "datum_cmp D (D_Jsonpath j) other =
     cmp_or_greater (\<lambda>x y. cmp_of (<) (original x) (original y)) j (as_maybe_jsonpath other)"
| "datum_cmp D (D_JsonpathRef j) other =
     cmp_or_greater (\<lambda>x y. cmp_of (<) (original x) (original y)) j (as_maybe_jsonpath other)"

section \<open>Hashing\<close>

text \<open>What \<open>Hash for Datum\<close> feeds into the hasher, one constructor per method of \<open>Hasher\<close> that
  the standard library's implementations call: a slice is its length and its bytes, a string its
  bytes and \<open>0xff\<close>.  The feed of a decimal is the library's.\<close>

datatype 'h hash_write =
    W_u8 u8
  | W_i32 i32
  | W_i64 i64
  | W_usize nat
  | W_bytes bytes
  | W_decimal 'h

fun datum_hash :: "('d \<Rightarrow> 'h) \<Rightarrow> 'd datum \<Rightarrow> 'h hash_write list" where
  "datum_hash dh D_Null = [W_u8 0]"
| "datum_hash dh (D_Boolean b) = [W_u8 (if b then 1 else 0)]"
| "datum_hash dh (D_Integer i) = [W_i32 i]"
| "datum_hash dh (D_BigInt i) = [W_i64 i]"
| "datum_hash dh (D_Decimal d) = [W_decimal (dh d)]"
| "datum_hash dh (D_ByteAOwned s) = [W_usize (length s), W_bytes s]"
| "datum_hash dh (D_ByteAInline n s) = (let b = take (unat n) s in [W_usize (length b), W_bytes b])"
| "datum_hash dh (D_ByteARef s) = [W_usize (length s), W_bytes s]"
| "datum_hash dh (D_Jsonpath j) = [W_bytes (original j), W_u8 255]"
| "datum_hash dh (D_JsonpathRef j) = [W_bytes (original j), W_u8 255]"

section \<open>Dates and timestamps\<close>

text \<open>The calendar types are those of chrono: the code reads the year and the ordinal day of a date
  and rebuilds it from them.\<close>

record 'n date_ops =
  year :: "'n \<Rightarrow> i32"
  ordinal :: "'n \<Rightarrow> u32"
  from_yo :: "i32 \<Rightarrow> u32 \<Rightarrow> 'n option"

definition datum_from_date :: "('n, 'z) date_ops_scheme \<Rightarrow> 'n \<Rightarrow> 'd datum" where
  "datum_from_date C d = D_Integer (push_bit 9 (year C d) + ordinal C d)"

text \<open>\<open>from_yo(i >> 9, (i & 511) as u32)\<close> with the arithmetic shift of \<open>i32\<close>; the outer option is
  the panic of \<open>from_yo\<close>.\<close>

definition as_maybe_date :: "('n, 'z) date_ops_scheme \<Rightarrow> 'd datum \<Rightarrow> 'n option option" where
  "as_maybe_date C d =
     (case d of D_Integer i \<Rightarrow> map_option Some (from_yo C (signed_drop_bit 9 i) (i AND 511)) | _ \<Rightarrow> Some None)"

definition as_maybe_timestamp :: "'d datum \<Rightarrow> (i64 \<times> u32) option" where
  "as_maybe_timestamp d =
     (case d of D_BigInt i \<Rightarrow>
        let seconds = sint i div 1000; millis = sint i mod 1000 in
        Some (word_of_int seconds, word_of_int millis * 1000000)
      | _ \<Rightarrow> None)"

section \<open>Lemmas\<close>

lemma as_maybe_text_simps [simp]:
  "as_maybe_text (D_ByteAOwned s) = Some s" "as_maybe_text (D_ByteAInline n s) = Some (take (unat n) s)"
  "as_maybe_text (D_ByteARef s) = Some s" "as_maybe_text D_Null = None" "as_maybe_text (D_Boolean b) = None"
  "as_maybe_text (D_Integer i) = None" "as_maybe_text (D_BigInt k) = None" "as_maybe_text (D_Decimal d) = None"
  "as_maybe_text (D_Jsonpath j) = None" "as_maybe_text (D_JsonpathRef j) = None"
  by (simp_all add: as_maybe_text_def)

lemma ordering_flip: "decimal_laws D \<Longrightarrow> d_cmp D a b = Equal \<longleftrightarrow> d_veq D a b"
  "decimal_laws D \<Longrightarrow> d_cmp D a b = Less \<longleftrightarrow> d_vless D a b"
  by (auto simp: laws_cmp d_vless_def d_veq_def)

lemma d_veq_refl [simp]: "d_veq D a a"
  by (simp add: d_veq_def)

lemma cross_trans:
  fixes a b c p q r :: int
  assumes "0 < p" "0 < q" "0 < r"
  shows "a * q = b * p \<Longrightarrow> b * r = c * q \<Longrightarrow> a * r = c * p"
    and "a * q < b * p \<Longrightarrow> b * r < c * q \<Longrightarrow> a * r < c * p"
proof -
  assume e: "a * q = b * p" "b * r = c * q"
  have "a * r * q = (a * q) * r" by (simp add: ac_simps)
  also have "\<dots> = (b * r) * p" by (simp add: e(1) ac_simps)
  also have "\<dots> = c * p * q" by (simp add: e(2) ac_simps)
  finally show "a * r = c * p" using assms by simp
next
  assume e: "a * q < b * p" "b * r < c * q"
  have "a * r * q = (a * q) * r" by (simp add: ac_simps)
  also have "\<dots> < (b * p) * r" using e(1) assms(3) by (rule mult_strict_right_mono)
  also have "\<dots> = (b * r) * p" by (simp add: ac_simps)
  also have "\<dots> < (c * q) * p" using e(2) assms(1) by (rule mult_strict_right_mono)
  also have "\<dots> = c * p * q" by (simp add: ac_simps)
  finally show "a * r < c * p" using assms(2) by simp
qed

lemma d_veq_trans: "d_veq D a b \<Longrightarrow> d_veq D b c \<Longrightarrow> d_veq D a c"
  unfolding d_veq_def
  by (rule cross_trans(1) [of "10 ^ d_exp D a" "10 ^ d_exp D b" "10 ^ d_exp D c" "d_num D a" "d_num D b" "d_num D c"]) simp_all

lemma d_vless_trans: "d_vless D a b \<Longrightarrow> d_vless D b c \<Longrightarrow> d_vless D a c"
  unfolding d_vless_def by (rule cross_trans(2)) simp_all

text \<open>Equality is an equivalence relation.\<close>

lemma datum_eq_refl: "decimal_laws D \<Longrightarrow> datum_eq D a a"
  by (cases a) (simp_all add: datum_eq_def ordering_flip)

lemma datum_eq_sym: "decimal_laws D \<Longrightarrow> datum_eq D a b \<Longrightarrow> datum_eq D b a"
  by (cases a; cases b) (auto simp: datum_eq_def ordering_flip intro: d_veq_sym)

lemma datum_eq_trans: "decimal_laws D \<Longrightarrow> datum_eq D a b \<Longrightarrow> datum_eq D b c \<Longrightarrow> datum_eq D a c"
  by (cases a; cases b; cases c) (auto simp: datum_eq_def ordering_flip intro: d_veq_trans)

lemma datum_eq_hash:
  assumes "decimal_laws D" "\<And>d e. d_cmp D d e = Equal \<Longrightarrow> dh d = dh e" "datum_eq D a b"
  shows "datum_hash dh a = datum_hash dh b"
  using assms(3) assms(1,2) by (cases a; cases b) (auto simp: datum_eq_def Let_def)

text \<open>The SQL type a datum belongs to; comparison is meant for one type at a time.\<close>

fun datum_rank :: "'d datum \<Rightarrow> nat" where
  "datum_rank D_Null = 0"
| "datum_rank (D_Boolean b) = 1"
| "datum_rank (D_Integer i) = 2"
| "datum_rank (D_BigInt i) = 3"
| "datum_rank (D_Decimal d) = 4"
| "datum_rank (D_ByteAOwned s) = 5"
| "datum_rank (D_ByteAInline n s) = 5"
| "datum_rank (D_ByteARef s) = 5"
| "datum_rank (D_Jsonpath j) = 6"
| "datum_rank (D_JsonpathRef j) = 6"

definition comparable :: "'d datum \<Rightarrow> 'd datum \<Rightarrow> bool" where
  "comparable a b \<longleftrightarrow> datum_rank a = datum_rank b \<or> is_null a \<or> is_null b"

lemma cmp_of_simps:
  "cmp_of lt x y = Less \<longleftrightarrow> lt x y" "\<not> lt x x \<Longrightarrow> cmp_of lt x y = Equal \<longleftrightarrow> x = y"
  by (auto simp: cmp_of_def)

lemma sint_eq_iff_i32: "sint (a :: i32) = sint b \<longleftrightarrow> a = b" using signed_word_eqI [of a b] by auto
lemma sint_eq_iff_i64: "sint (a :: i64) = sint b \<longleftrightarrow> a = b" using signed_word_eqI [of a b] by auto

lemma datum_cmp_trans:
  assumes "decimal_laws D" "datum_cmp D a b = Less" "datum_cmp D b c = Less" "comparable a b" "comparable b c" "comparable a c"
  shows "datum_cmp D a c = Less"
  using assms
  by (cases a; cases b; cases c)
    (auto simp: comparable_def cmp_or_greater_def cmp_of_simps ordering_flip intro: d_vless_trans)

lemma datum_cmp_flip:
  assumes "decimal_laws D" "comparable a b"
  shows "datum_cmp D a b = Less \<longleftrightarrow> datum_cmp D b a = Greater"
  using assms
  by (cases a; cases b)
    (auto simp: comparable_def cmp_or_greater_def cmp_of_def laws_cmp d_vless_def d_veq_def sint_eq_iff_i32 sint_eq_iff_i64)

lemma datum_cmp_eq:
  assumes "decimal_laws D" "comparable a b" "as_maybe_jsonpath a = None"
  shows "datum_cmp D a b = Equal \<longleftrightarrow> datum_eq D a b"
  using assms
  by (cases a; cases b) (auto simp: comparable_def cmp_or_greater_def cmp_of_simps datum_eq_def ordering_flip intro: d_veq_sym)

lemma inline_bytes: "length s \<le> 22 \<Longrightarrow> take (unat (of_nat (length s) :: u8)) (s @ replicate (22 - length s) 0) = s"
  by (simp add: unat_of_nat)

lemma into_static_eq_as_static: "into_static d = as_static d"
  by (cases d) simp_all

lemma is_null_as_static [simp]: "is_null (as_static d) = is_null d"
  by (cases d) simp_all

lemma as_static_eq: "decimal_laws D \<Longrightarrow> datum_eq D (as_static d) d"
  by (cases d) (simp_all add: datum_eq_def ordering_flip inline_bytes del: take_append)

lemma as_static_wf: "wf_datum d \<Longrightarrow> wf_datum (as_static d)"
  by (cases d) (simp_all add: unat_of_nat)

lemma as_static_bytea: "as_maybe_bytea (as_static d) = as_maybe_bytea d"
  by (cases d) (simp_all add: inline_bytes del: take_append)

lemma ref_clone_eq: "decimal_laws D \<Longrightarrow> datum_eq D (ref_clone d) d"
  by (cases d) (simp_all add: datum_eq_def ordering_flip)

text \<open>Dates as packed integers.\<close>

lemma sint_word_of_int_i32: "- (2 ^ 31) \<le> k \<Longrightarrow> k < 2 ^ 31 \<Longrightarrow> sint (word_of_int k :: i32) = k"
  by (subst signed_of_int) (simp add: signed_take_bit_int_eq_self)

lemma date_bits:
  assumes "- (2 ^ 22) \<le> sint (y :: i32)" "sint y < 2 ^ 22" "unat (n :: u32) < 512"
  shows "sint (push_bit 9 y + n) = sint y * 512 + int (unat n)"
proof -
  have "push_bit 9 y + n = word_of_int (sint y * 512 + int (unat n))"
    by (simp add: push_bit_eq_mult)
  moreover have n: "int (unat n) < 512" "0 \<le> int (unat n)" using assms(3) by linarith+
  moreover have "- (2 ^ 31) \<le> sint y * 512 + int (unat n)" using assms(1) by (simp del: of_nat_unat)
  moreover have "sint y * 512 + int (unat n) < 2 ^ 31" using assms(2) n by (simp del: of_nat_unat)
  ultimately show ?thesis using sint_word_of_int_i32 [of "sint y * 512 + int (unat n)"] by simp
qed

lemma date_unpack:
  assumes "- (2 ^ 22) \<le> sint (y :: i32)" "sint y < 2 ^ 22" "unat (n :: u32) < 512"
  shows "signed_drop_bit 9 (push_bit 9 y + n) = y" "(push_bit 9 y + n) AND 511 = n"
proof -
  have "sint (signed_drop_bit 9 (push_bit 9 y + n)) = sint y"
    using date_bits [OF assms] assms(3) by (simp add: sint_signed_drop_bit_eq drop_bit_eq_div del: of_nat_unat)
  then show "signed_drop_bit 9 (push_bit 9 y + n) = y" by (rule signed_word_eqI)
  let ?w = "push_bit 9 y + n"
  have "uint ?w mod 512 = sint ?w mod 512"
    using sint_uint_if [of ?w] by (simp add: mod_diff_eq [symmetric, of _ _ 512])
  also have "\<dots> = int (unat n)" using date_bits [OF assms] assms(3) by (simp del: of_nat_unat)
  finally have "int (unat ?w mod 512) = int (unat n)" by (simp add: zmod_int)
  then have "unat ?w mod 512 = unat n" by (simp only: of_nat_eq_iff)
  moreover have "?w AND 511 = take_bit 9 ?w" by (simp add: take_bit_eq_mask mask_eq_exp_minus_1)
  ultimately show "?w AND 511 = n"
    by (simp only: word_unat_eq_iff unsigned_take_bit_eq) (simp add: take_bit_eq_mod)
qed

section \<open>Properties\<close>

text \<open>C36. Equality of datums (NULL equal to NULL) is an equivalence relation, and equal datums feed the
  hasher the same data, whatever representation (borrowed, owned, inline) they have: what hash
  maps keyed by datums need.\<close>

theorem datum_eq_respected_by_hash:
  assumes "decimal_laws D" "\<And>d e. d_cmp D d e = Equal \<Longrightarrow> dh d = dh e"
  shows "datum_eq D a a \<and> (datum_eq D a b \<longrightarrow> datum_eq D b a) \<and>
    (datum_eq D a b \<and> datum_eq D b c \<longrightarrow> datum_eq D a c) \<and>
    (datum_eq D a b \<longrightarrow> datum_hash dh a = datum_hash dh b)"
proof (intro conjI impI)
  show "datum_eq D a a" by (rule datum_eq_refl [OF assms(1)])
  show "datum_eq D a b \<Longrightarrow> datum_eq D b a" by (rule datum_eq_sym [OF assms(1)])
  show "datum_eq D a b \<and> datum_eq D b c \<Longrightarrow> datum_eq D a c" using datum_eq_trans [OF assms(1)] by blast
  show "datum_eq D a b \<Longrightarrow> datum_hash dh a = datum_hash dh b" by (rule datum_eq_hash [OF assms])
qed

theorem datum_eq_respected_by_hash_witness:
  "datum_hash (\<lambda>_. ()) (D_ByteAOwned [1, 2] :: ref_decimal datum) =
   datum_hash (\<lambda>_. ()) (D_ByteAInline 2 ([1, 2] @ replicate 20 0))"
  using datum_eq_respected_by_hash [OF ref_decimal_laws, of "\<lambda>_. ()" "D_ByteAOwned [1, 2]"
      "D_ByteAInline 2 ([1, 2] @ replicate 20 0)" D_Null]
  by (simp add: datum_eq_def)

text \<open>C35. Comparison of datums of one SQL type, NULL included, is a strict linear order: transitive,
  antisymmetric in the sense of \<open>Ordering::reverse\<close>, and equal exactly where the datums are equal
  (for JSON paths: where their texts are equal).\<close>

theorem datum_cmp_linear:
  assumes "decimal_laws D" "comparable a b" "comparable b c" "comparable a c"
  shows "(datum_cmp D a b = Less \<and> datum_cmp D b c = Less \<longrightarrow> datum_cmp D a c = Less) \<and>
    (datum_cmp D a b = Less \<longleftrightarrow> datum_cmp D b a = Greater) \<and>
    (as_maybe_jsonpath a = None \<longrightarrow> (datum_cmp D a b = Equal \<longleftrightarrow> datum_eq D a b))"
  using datum_cmp_trans [OF assms(1) _ _ assms(2-)] datum_cmp_flip [OF assms(1,2)] datum_cmp_eq [OF assms(1,2)]
  by blast

theorem datum_cmp_linear_witness:
  "datum_cmp ref_decimal_ops D_Null (D_Integer 5) = Less"
  using datum_cmp_linear [OF ref_decimal_laws, of D_Null "D_Integer (- 3)" "D_Integer 5"]
  by (simp add: comparable_def cmp_or_greater_def cmp_of_def)

definition ref_date_ops :: "(bool \<times> bool) date_ops" where
  "ref_date_ops = \<lparr>year = (\<lambda>(a, b). if a then 2021 else 2020), ordinal = (\<lambda>(a, b). if b then 366 else 1),
     from_yo = (\<lambda>y n. Some (y = 2021, n = 366))\<rparr>"

text \<open>A date stored as a datum is read back as the same date, and the stored integers compare
  as the dates do: by year, then by day of the year.\<close>

theorem date_datum_roundtrip:
  assumes "\<And>d. from_yo C (year C d) (ordinal C d) = Some d"
    and "\<And>d. - 262144 \<le> sint (year C d) \<and> sint (year C d) < 262144 \<and> 1 \<le> unat (ordinal C d) \<and> unat (ordinal C d) \<le> 366"
  shows "as_maybe_date C (datum_from_date C x) = Some (Some x) \<and>
    (datum_cmp D (datum_from_date C x) (datum_from_date C y) = Less \<longleftrightarrow>
       sint (year C x) < sint (year C y) \<or> sint (year C x) = sint (year C y) \<and> unat (ordinal C x) < unat (ordinal C y))"
proof -
  have b: "- (2 ^ 22) \<le> sint (year C d)" "sint (year C d) < 2 ^ 22" "unat (ordinal C d) < 512" for d
    using assms(2) [of d] by simp_all
  have "as_maybe_date C (datum_from_date C x) = Some (Some x)"
    using date_unpack [OF b] assms(1) by (simp add: as_maybe_date_def datum_from_date_def)
  moreover have "int (unat (ordinal C d)) < 512" for d using b(3) [of d] by linarith
  then have "sint (year C x) * 512 + int (unat (ordinal C x)) < sint (year C y) * 512 + int (unat (ordinal C y)) \<longleftrightarrow>
      sint (year C x) < sint (year C y) \<or> sint (year C x) = sint (year C y) \<and> unat (ordinal C x) < unat (ordinal C y)"
    using b(3) [of x] b(3) [of y] by linarith
  ultimately show ?thesis
    by (simp add: datum_from_date_def cmp_or_greater_def cmp_of_simps date_bits [OF b] del: of_nat_unat)
qed

theorem date_datum_roundtrip_witness:
  "as_maybe_date ref_date_ops (datum_from_date ref_date_ops (False, True)) = Some (Some (False, True)) \<and>
   datum_cmp ref_decimal_ops (datum_from_date ref_date_ops (False, True)) (datum_from_date ref_date_ops (True, False)) = Less"
proof -
  have c: "from_yo ref_date_ops (year ref_date_ops d) (ordinal ref_date_ops d) = Some d"
    "- 262144 \<le> sint (year ref_date_ops d) \<and> sint (year ref_date_ops d) < 262144 \<and>
     1 \<le> unat (ordinal ref_date_ops d) \<and> unat (ordinal ref_date_ops d) \<le> 366" for d
    by (cases d; simp add: ref_date_ops_def)+
  have v: "sint (year ref_date_ops (False, True)) = 2020" "sint (year ref_date_ops (True, False)) = 2021"
    by (simp_all add: ref_date_ops_def)
  show ?thesis using date_datum_roundtrip [OF c, of "(False, True)" ref_decimal_ops "(True, False)"] v by simp
qed

end
