(* ===== verification/Expr.thy ===== *)
theory Expr
  imports Datum
begin

text \<open>
  Sessions (\<open>data/src/session.rs\<close>), the function traits (\<open>functions/src/lib.rs\<close>), the expression
  tree (\<open>ast/src/expr.rs\<close>) and its scalar evaluation (\<open>executor/src/scalar_expression.rs\<close>,
  \<open>executor/src/utils.rs\<close>).  A trait object is the function, or the record of functions, it
  dispatches to.  \<open>None\<close> is a panic.  The \<open>expr_buffer\<close> of a call is overwritten in full by every
  evaluation and read by nothing else, so it is a local value of the evaluation here.
\<close>

section \<open>Sessions and functions\<close>

record session =
  user :: string
  current_database :: string
  connection_id :: u32
  kill_flag :: bool

definition session_new :: "u32 \<Rightarrow> session" where
  "session_new conn_id = \<lparr>user = '''', current_database = ''default'', connection_id = conn_id, kill_flag = False\<rparr>"

record function_signature =
  sig_name :: string
  sig_args :: "data_type list"
  sig_ret :: data_type

text \<open>\<open>Function::execute\<close>\<close>

type_synonym 'd scalar_function = "session \<Rightarrow> function_signature \<Rightarrow> 'd datum list \<Rightarrow> 'd datum option"

record 'd aggregate_function =
  agg_state_size :: nat
  agg_initialize :: "'d datum list \<Rightarrow> 'd datum list option"
  agg_apply :: "function_signature \<Rightarrow> 'd datum list \<Rightarrow> i64 \<Rightarrow> 'd datum list \<Rightarrow> 'd datum list option"
  agg_merge :: "function_signature \<Rightarrow> 'd datum list \<Rightarrow> 'd datum list \<Rightarrow> 'd datum list option"
  agg_finalize :: "function_signature \<Rightarrow> 'd datum list \<Rightarrow> 'd datum option"
  agg_supports_retract :: bool

text \<open>The default methods of the trait.\<close>

definition set_state :: "'d datum list \<Rightarrow> nat \<Rightarrow> 'd datum \<Rightarrow> 'd datum list option" where
  "set_state state i d = (if i < length state then Some (state[i := d]) else None)"

definition get_state :: "'d datum list \<Rightarrow> nat \<Rightarrow> 'd datum option" where
  "get_state state i = (if i < length state then Some (state ! i) else None)"

definition default_initialize :: "'d datum list \<Rightarrow> 'd datum list option" where
  "default_initialize state = set_state state 0 D_Null"

definition default_finalize :: "function_signature \<Rightarrow> 'd datum list \<Rightarrow> 'd datum option" where
  "default_finalize sig state = map_option ref_clone (get_state state 0)"

section \<open>Expressions\<close>

record column_reference =
  cr_qualifier :: "string option"
  cr_alias :: string
  cr_star :: bool

datatype 'd expression =
    Constant "'d datum" data_type
  | FunctionCall string "'d expression list"
  | Cast "'d expression" data_type
  | CompiledFunctionCall "'d scalar_function" "'d expression list" function_signature
  | CompiledAggregate "'d aggregate_function" "'d expression list" function_signature
  | ColumnReference column_reference
  | CompiledColumnReference nat data_type

record 'd named_expression =
  ne_alias :: "string option"
  ne_expression :: "'d expression"

record 'd sort_expression =
  se_ordering :: sort_order
  se_expression :: "'d expression"

fun children :: "'d expression \<Rightarrow> 'd expression list" where
  "children (FunctionCall n args) = args"
| "children (CompiledFunctionCall f args sig) = args"
| "children (CompiledAggregate f args sig) = args"
| "children (Cast e dt) = [e]"
| "children (CompiledColumnReference i dt) = []"
| "children (Constant d dt) = []"
| "children (ColumnReference c) = []"

section \<open>Scalar evaluation\<close>

definition right_size_new :: "'b list \<Rightarrow> 'd datum list" where
  "right_size_new from = map (\<lambda>_. D_Null) from"

text \<open>\<open>eval_scalar\<close> of one expression, and the loop of \<open>EvalScalarRow\<close> from index \<open>idx\<close> on.\<close>

fun eval_scalar :: "session \<Rightarrow> 'd datum list \<Rightarrow> 'd expression \<Rightarrow> 'd datum option"
  and eval_scalar_row_from :: "session \<Rightarrow> 'd datum list \<Rightarrow> 'd expression list \<Rightarrow> nat \<Rightarrow> 'd datum list \<Rightarrow> 'd datum list option" where
  "eval_scalar session row (Constant literal dt) = Some (ref_clone literal)"
| "eval_scalar session row (CompiledFunctionCall function args sig) =
     Option.bind (eval_scalar_row_from session row args 0 (right_size_new args)) (function session sig)"
| "eval_scalar session row (CompiledColumnReference offset dt) =
     (if offset < length row then Some (ref_clone (row ! offset)) else None)"
| "eval_scalar session row (FunctionCall n args) = None"
| "eval_scalar session row (Cast e dt) = None"
| "eval_scalar session row (ColumnReference c) = None"
| "eval_scalar session row (CompiledAggregate f args sig) = None"
| "eval_scalar_row_from session source [] idx target = Some target"
| "eval_scalar_row_from session source (expr # exprs) idx target =
     Option.bind (eval_scalar session source expr) (\<lambda>d.
     if idx < length target then eval_scalar_row_from session source exprs (idx + 1) (target[idx := d]) else None)"

definition eval_scalar_row ::
  "session \<Rightarrow> 'd expression list \<Rightarrow> 'd datum list \<Rightarrow> 'd datum list \<Rightarrow> 'd datum list option" where
  "eval_scalar_row session exprs source target = eval_scalar_row_from session source exprs 0 target"

text \<open>The row of expressions evaluated one by one.\<close>

definition eval_all :: "session \<Rightarrow> 'd expression list \<Rightarrow> 'd datum list \<Rightarrow> 'd datum list option" where
  "eval_all session exprs row = those (map (eval_scalar session row) exprs)"

lemma those_Cons: "those (x # xs) = Option.bind x (\<lambda>y. map_option (Cons y) (those xs))"
  by (cases x) simp_all

lemma length_those: "those xs = Some ys \<Longrightarrow> length ys = length xs"
  by (induction xs arbitrary: ys) (auto simp: those_Cons bind_eq_Some_conv simp del: those.simps(2))

lemma eval_scalar_row_from_eq:
  "idx + length exprs \<le> length target \<Longrightarrow>
    eval_scalar_row_from session source exprs idx target =
      map_option (\<lambda>ds. take idx target @ ds @ drop (idx + length exprs) target) (eval_all session exprs source)"
proof (induction exprs arbitrary: idx target)
  case Nil
  then show ?case by (simp add: eval_all_def)
next
  case (Cons e exprs)
  show ?case
  proof (cases "eval_scalar session source e")
    case None
    then show ?thesis by (simp add: eval_all_def)
  next
    case (Some d)
    have "take (Suc idx) (target[idx := d]) = take idx target @ [d]"
      using Cons.prems by (simp add: take_Suc_conv_app_nth)
    then show ?thesis
      using Some Cons.IH [of "idx + 1" "target[idx := d]"] Cons.prems
      by (simp add: eval_all_def option.map_comp comp_def)
  qed
qed

lemma length_right_size_new [simp]: "length (right_size_new xs) = length xs"
  by (simp add: right_size_new_def)

text \<open>Writing the row over a buffer of its size leaves nothing of the buffer.\<close>

lemma eval_scalar_row_eq:
  "length target = length exprs \<Longrightarrow> eval_scalar_row session exprs source target = eval_all session exprs source"
  using eval_scalar_row_from_eq [of 0 exprs target session source]
  by (cases "eval_all session exprs source") (simp_all add: eval_scalar_row_def)

lemma eval_scalar_call [simp]:
  "eval_scalar session row (CompiledFunctionCall function args sig) =
     Option.bind (eval_all session args row) (function session sig)"
  using eval_scalar_row_eq [of "right_size_new args" args session row] by (simp add: eval_scalar_row_def)

lemmas eval_scalar_call_loop = eval_scalar.simps(2)

declare eval_scalar.simps(2) [simp del]

lemma eval_all_simps [simp]:
  "eval_all session [] row = Some []"
  "eval_all session (e # es) row = Option.bind (eval_scalar session row e) (\<lambda>d. map_option (Cons d) (eval_all session es row))"
  by (simp_all add: eval_all_def those_Cons del: those.simps(2))

lemma length_eval_all: "eval_all session es row = Some ds \<Longrightarrow> length ds = length es"
  by (auto simp: eval_all_def dest: length_those)

end
