(* ===== verification/Encoding_Datum.thy ===== *)
theory Encoding_Datum
  imports Datum
begin

text \<open>
  The self describing sortable encoding of datums (\<open>data/src/encoding_datum.rs\<close>): a type tag,
  inverted for descending columns, followed by the encoding of the value.  The encoder is
  \<open>None\<close> where the decimal encoder panics, the decoder where the code indexes past the slice,
  meets an unknown tag or a JSON path that does not parse.  The theory interprets the contract of
  \<open>SortableEncoding\<close> on datums and derives the order of encoded rows.
\<close>

section \<open>The code\<close>

text \<open>\<open>if sort_order.is_asc() { buffer.push(t) } else { buffer.push(!t) }\<close>\<close>

definition push_tag :: "u8 \<Rightarrow> sort_order \<Rightarrow> bytes \<Rightarrow> bytes" where
  "push_tag t so buffer = (if is_asc so then buffer @ [t] else buffer @ [NOT t])"

fun as_sortable_bytes ::
  "('d, 'z) decimal_ops_scheme \<Rightarrow> 'd datum \<Rightarrow> sort_order \<Rightarrow> bytes \<Rightarrow> bytes option" where
  "as_sortable_bytes D D_Null so buffer = Some (push_tag 1 so buffer)"
| "as_sortable_bytes D (D_Boolean False) so buffer = Some (push_tag 2 so buffer)"
| "as_sortable_bytes D (D_Boolean True) so buffer = Some (push_tag 3 so buffer)"
| "as_sortable_bytes D (D_Integer i) so buffer = Some (write_sortable_i32 i so (push_tag 4 so buffer))"
| "as_sortable_bytes D (D_BigInt i) so buffer = Some (write_varint_signed i so (push_tag 5 so buffer))"
| "as_sortable_bytes D (D_Decimal d) so buffer = write_sortable_decimal D d so (push_tag 6 so buffer)"
| "as_sortable_bytes D (D_ByteAOwned s) so buffer = Some (write_sortable_bytes s so (push_tag 7 so buffer))"
| "as_sortable_bytes D (D_ByteARef s) so buffer = Some (write_sortable_bytes s so (push_tag 7 so buffer))"
| "as_sortable_bytes D (D_ByteAInline n s) so buffer =
     Some (write_sortable_bytes (take (unat n) s) so (push_tag 7 so buffer))"
| "as_sortable_bytes D (D_Jsonpath j) so buffer =
     Some (write_sortable_bytes (original j) so (push_tag 8 so buffer))"
| "as_sortable_bytes D (D_JsonpathRef j) so buffer =
     Some (write_sortable_bytes (original j) so (push_tag 8 so buffer))"

definition from_sortable_bytes ::
  "('d, 'z) decimal_ops_scheme \<Rightarrow> (bytes \<Rightarrow> json_path_selector list option) \<Rightarrow> bytes \<Rightarrow> ('d datum \<times> bytes) option" where
  "from_sortable_bytes D jp buffer =
     (case buffer of [] \<Rightarrow> None
      | b # rem \<Rightarrow>
        let so = (if b < 127 then Asc else Desc) in
        if b = 1 \<or> b = 254 then Some (D_Null, rem)
        else if b = 2 \<or> b = 253 then Some (D_Boolean False, rem)
        else if b = 3 \<or> b = 252 then Some (D_Boolean True, rem)
        else if b = 4 \<or> b = 251 then map_option (apfst D_Integer) (read_sortable_i32 so rem)
        else if b = 5 \<or> b = 250 then map_option (apfst D_BigInt) (read_varint_signed so rem)
        else if b = 6 \<or> b = 249 then map_option (apfst D_Decimal) (read_sortable_decimal D so rem)
        else if b = 7 \<or> b = 248 then map_option (apfst D_ByteAOwned) (read_sortable_bytes so rem)
        else if b = 8 \<or> b = 247 then
          Option.bind (read_sortable_bytes so rem) (\<lambda>(s, rem).
            map_option (\<lambda>j. (D_Jsonpath j, rem)) (json_path_parse jp s))
        else None)"

section \<open>The contract\<close>

text \<open>Values the encoding is made for: decimals of at most 28 digits, and JSON paths that are the
  parse of their own text.\<close>

fun valid_datum ::
  "('d, 'z) decimal_ops_scheme \<Rightarrow> (bytes \<Rightarrow> json_path_selector list option) \<Rightarrow> 'd datum \<Rightarrow> bool" where
  "valid_datum D jp (D_Decimal d) = (d_mant D d < 10 ^ 28)"
| "valid_datum D jp (D_Jsonpath j) = (json_path_parse jp (original j) = Some j)"
| "valid_datum D jp (D_JsonpathRef j) = (json_path_parse jp (original j) = Some j)"
| "valid_datum D jp d = True"

text \<open>Across types the tag decides, within a type the comparison of datums.\<close>

definition datum_less :: "('d, 'z) decimal_ops_scheme \<Rightarrow> 'd datum \<Rightarrow> 'd datum \<Rightarrow> bool" where
  "datum_less D a b \<longleftrightarrow> datum_rank a < datum_rank b \<or> datum_rank a = datum_rank b \<and> datum_cmp D a b = Less"

text \<open>The tag and the encoded value.\<close>

fun datum_tag :: "'d datum \<Rightarrow> u8" where
  "datum_tag D_Null = 1"
| "datum_tag (D_Boolean b) = (if b then 3 else 2)"
| "datum_tag (D_Integer i) = 4"
| "datum_tag (D_BigInt i) = 5"
| "datum_tag (D_Decimal d) = 6"
| "datum_tag (D_ByteAOwned s) = 7"
| "datum_tag (D_ByteAInline n s) = 7"
| "datum_tag (D_ByteARef s) = 7"
| "datum_tag (D_Jsonpath j) = 8"
| "datum_tag (D_JsonpathRef j) = 8"

fun datum_body :: "('d, 'z) decimal_ops_scheme \<Rightarrow> 'd datum \<Rightarrow> sort_order \<Rightarrow> bytes" where
  "datum_body D (D_Integer i) so = write_sortable_i32 i so []"
| "datum_body D (D_BigInt i) so = write_varint_signed i so []"
| "datum_body D (D_Decimal d) so = decimal_bytes D d so"
| "datum_body D (D_ByteAOwned s) so = write_sortable_bytes s so []"
| "datum_body D (D_ByteAInline n s) so = write_sortable_bytes (take (unat n) s) so []"
| "datum_body D (D_ByteARef s) so = write_sortable_bytes s so []"
| "datum_body D (D_Jsonpath j) so = write_sortable_bytes (original j) so []"
| "datum_body D (D_JsonpathRef j) so = write_sortable_bytes (original j) so []"
| "datum_body D d so = []"

definition sealed_tag :: "u8 \<Rightarrow> sort_order \<Rightarrow> u8" where
  "sealed_tag t so = (if is_asc so then t else NOT t)"

lemma write_sortable_i32_append: "write_sortable_i32 i so buf = buf @ write_sortable_i32 i so []"
  unfolding write_sortable_i32_def by (rule write_varint_signed_append)

lemma write_decimal_append:
  "valid_decimal D d \<Longrightarrow> write_sortable_decimal D d so buf = Some (buf @ decimal_bytes D d so)"
  using write_decimal_total [of D d so buf] decimal_enc.write_append [of D d so buf]
  by (auto simp: decimal_bytes_def)

lemma as_sortable_bytes_eq:
  assumes "decimal_laws D" "valid_datum D jp d"
  shows "as_sortable_bytes D d so buf = Some (buf @ sealed_tag (datum_tag d) so # datum_body D d so)"
proof -
  note app = write_sortable_i32_append [of _ _ "_ @ _"] write_varint_signed_append [of _ _ "_ @ _"]
    write_sortable_bytes_append [of _ _ "_ @ _"]
  show ?thesis using assms
    by (cases d) (auto simp: push_tag_def sealed_tag_def app write_decimal_append valid_decimal_def split: if_splits)
qed

lemma sealed_tag_less: "sealed_tag (datum_tag a) so < sealed_tag (datum_tag b) so \<longleftrightarrow> directed so (<) (datum_tag a) (datum_tag b)"
  by (cases so) (simp_all add: sealed_tag_def)

lemma datum_tag_cases: "datum_tag d \<in> {1, 2, 3, 4, 5, 6, 7, 8}"
  by (cases d) auto

lemma datum_less_tag:
  "datum_less D a b \<longleftrightarrow> datum_tag a < datum_tag b \<or> datum_tag a = datum_tag b \<and> datum_cmp D a b = Less"
  by (cases a; cases b) (auto simp: datum_less_def cmp_or_greater_def cmp_of_def)

lemma datum_body_mono:
  assumes "decimal_laws D" "valid_datum D jp a" "valid_datum D jp b" "datum_rank a = datum_rank b" "datum_tag a = datum_tag b"
    "datum_cmp D a b = Less"
  shows "if is_asc so then sep_lt (datum_body D a so) (datum_body D b so) else sep_lt (datum_body D b so) (datum_body D a so)"
  using assms i32_enc.write_mono i64_enc.write_mono bytes_enc.write_mono write_decimal_mono [of D _ _ so]
  by (cases a; cases b) (simp_all add: cmp_or_greater_def cmp_of_simps ordering_flip valid_decimal_def)

lemma datum_tag_rank: "datum_tag a = datum_tag b \<Longrightarrow> datum_rank a = datum_rank b"
  by (cases a; cases b) (auto split: if_splits)

lemma from_sortable_bytes_tag:
  assumes "t \<in> {1, 2, 3, 4, 5, 6, 7, 8}"
  shows "from_sortable_bytes D jp (sealed_tag t so # rem) =
    (if t = 1 then Some (D_Null, rem)
     else if t = 2 then Some (D_Boolean False, rem)
     else if t = 3 then Some (D_Boolean True, rem)
     else if t = 4 then map_option (apfst D_Integer) (read_sortable_i32 so rem)
     else if t = 5 then map_option (apfst D_BigInt) (read_varint_signed so rem)
     else if t = 6 then map_option (apfst D_Decimal) (read_sortable_decimal D so rem)
     else if t = 7 then map_option (apfst D_ByteAOwned) (read_sortable_bytes so rem)
     else Option.bind (read_sortable_bytes so rem) (\<lambda>(s, rem).
            map_option (\<lambda>j. (D_Jsonpath j, rem)) (json_path_parse jp s)))"
  using assms by (cases so; elim insertE emptyE) (simp_all add: sealed_tag_def from_sortable_bytes_def)

lemma read_write_datum:
  assumes "decimal_laws D" "valid_datum D jp d"
  shows "\<exists>y. from_sortable_bytes D jp (sealed_tag (datum_tag d) so # datum_body D d so @ rest) = Some (y, rest) \<and> datum_eq D y d"
proof (cases "as_maybe_decimal d")
  case None
  then show ?thesis
    unfolding from_sortable_bytes_tag [OF datum_tag_cases] using assms
    by (cases d) (simp_all add: read_write_i32 read_write_signed read_write_bytes datum_eq_def)
next
  case (Some e)
  then have d: "d = D_Decimal e" by (cases d) auto
  then have "valid_decimal D e" using assms by (simp add: valid_decimal_def)
  then obtain y where "read_sortable_decimal D so (decimal_bytes D e so @ rest) = Some (y, rest)" "d_veq D y e"
    using read_write_decimal [of D e so rest] by blast
  then show ?thesis
    unfolding from_sortable_bytes_tag [OF datum_tag_cases] using assms(1) d_veq_sym
    by (simp add: d datum_eq_def ordering_flip)
qed

lemma datum_body_cong:
  assumes "decimal_laws D" "valid_datum D jp a" "valid_datum D jp b" "datum_eq D a b"
  shows "datum_tag a = datum_tag b" "datum_body D a so = datum_body D b so"
proof -
  show "datum_tag a = datum_tag b" using assms(4) by (cases a; cases b) (auto simp: datum_eq_def)
  have "decimal_bytes D x so = decimal_bytes D y so" if "valid_decimal D x" "valid_decimal D y" "d_veq D y x" for x y
    using write_decimal_cong [OF that(1,2) d_veq_sym [OF that(3)], of so "[]"] by (simp add: decimal_bytes_def)
  note dec = this
  show "datum_body D a so = datum_body D b so"
  proof (cases "as_maybe_decimal a")
    case None
    then show ?thesis using assms(4) by (cases a; cases b) (simp_all add: datum_eq_def)
  next
    case (Some x)
    then have a: "a = D_Decimal x" by (cases a) auto
    then obtain y where b: "b = D_Decimal y" using assms(4) by (cases b) (simp_all add: datum_eq_def)
    show ?thesis using dec [of x y] assms by (simp add: a b datum_eq_def ordering_flip valid_decimal_def)
  qed
qed

lemma datum_total:
  assumes "decimal_laws D" "valid_datum D jp a" "valid_datum D jp b"
  shows "datum_less D a b \<or> datum_eq D a b \<or> datum_less D b a"
proof (cases "datum_rank a = datum_rank b")
  case True
  then have c: "comparable a b" "comparable b a" by (simp_all add: comparable_def)
  show ?thesis
  proof (cases "as_maybe_jsonpath a")
    case None
    then show ?thesis using datum_cmp_eq [OF assms(1) c(1) None] datum_cmp_flip [OF assms(1) c(2)] True
      by (cases "datum_cmp D a b") (auto simp: datum_less_def)
  next
    case (Some j)
    then obtain k where k: "as_maybe_jsonpath b = Some k" using True by (cases a; cases b) auto
    have "json_path_parse jp (original j) = Some j" using assms(2) Some by (cases a) simp_all
    moreover have "json_path_parse jp (original k) = Some k" using assms(3) k by (cases b) simp_all
    ultimately have "original j = original k \<longrightarrow> j = k" by (metis option.inject)
    moreover have "a = D_Jsonpath j \<or> a = D_JsonpathRef j" using Some by (cases a) auto
    moreover have "b = D_Jsonpath k \<or> b = D_JsonpathRef k" using k by (cases b) auto
    ultimately show ?thesis
      using linorder_less_linear [of "original j" "original k"]
      by (elim disjE) (simp_all add: datum_less_def datum_eq_def cmp_or_greater_def cmp_of_simps)
  qed
next
  case False
  then show ?thesis by (auto simp: datum_less_def)
qed

interpretation datum_enc: sortable_encoding "\<lambda>d so buf. the (as_sortable_bytes D d so buf)" "\<lambda>_. from_sortable_bytes D jp"
  "\<lambda>d. decimal_laws D \<and> valid_datum D jp d" "datum_less D" "datum_eq D"
  for D :: "('d, 'z) decimal_ops_scheme" and jp
proof unfold_locales
  fix d so buffer
  assume "decimal_laws D \<and> valid_datum D jp d"
  then show "the (as_sortable_bytes D d so buffer) = buffer @ the (as_sortable_bytes D d so [])"
    by (simp add: as_sortable_bytes_eq [of D jp])
next
  fix d so rest
  assume "decimal_laws D \<and> valid_datum D jp d"
  then show "\<exists>y. from_sortable_bytes D jp (the (as_sortable_bytes D d so []) @ rest) = Some (y, rest) \<and> datum_eq D y d"
    using read_write_datum [of D jp d so rest] by (simp add: as_sortable_bytes_eq [of D jp])
next
  fix a b so
  assume v: "decimal_laws D \<and> valid_datum D jp a" "decimal_laws D \<and> valid_datum D jp b" and "datum_less D a b"
  then show "if is_asc so then sep_lt (the (as_sortable_bytes D a so [])) (the (as_sortable_bytes D b so []))
      else sep_lt (the (as_sortable_bytes D b so [])) (the (as_sortable_bytes D a so []))"
    using datum_body_mono [of D jp a b so] datum_tag_rank [of a b]
    by (cases so) (auto simp: as_sortable_bytes_eq [of D jp] datum_less_tag sealed_tag_less)
next
  fix a b so
  assume "decimal_laws D \<and> valid_datum D jp a" "decimal_laws D \<and> valid_datum D jp b" "datum_eq D a b"
  then show "the (as_sortable_bytes D a so []) = the (as_sortable_bytes D b so [])"
    using datum_body_cong [of D jp a b] by (simp add: as_sortable_bytes_eq [of D jp])
next
  fix a b
  assume "decimal_laws D \<and> valid_datum D jp a" "decimal_laws D \<and> valid_datum D jp b"
  then show "datum_less D a b \<or> datum_eq D a b \<or> datum_less D b a" using datum_total [of D jp a b] by blast
qed

section \<open>Rows\<close>

text \<open>The columns of a row written one after the other, each in its own order.\<close>

fun write_row ::
  "('d, 'z) decimal_ops_scheme \<Rightarrow> sort_order list \<Rightarrow> 'd datum list \<Rightarrow> bytes \<Rightarrow> bytes option" where
  "write_row D (so # sos) (x # xs) buffer = Option.bind (as_sortable_bytes D x so buffer) (write_row D sos xs)"
| "write_row D sos xs buffer = Some buffer"

lemma write_row_eq:
  assumes "decimal_laws D" "list_all (valid_datum D jp) xs"
  shows "write_row D sos xs buf = Some (write_tuple (\<lambda>d so buf. the (as_sortable_bytes D d so buf)) sos xs buf)"
  using assms
proof (induction sos arbitrary: xs buf)
  case Nil
  then show ?case by (cases xs) simp_all
next
  case (Cons so sos)
  then show ?case by (cases xs) (simp_all add: as_sortable_bytes_eq [of D jp])
qed

section \<open>Properties\<close>

text \<open>C19. A datum written in either order and read back (the reader infers the order from the tag) is
  equal to the original, and the rest of the buffer is left untouched.\<close>

theorem datum_encoding_roundtrip:
  assumes "decimal_laws D" "valid_datum D jp d"
  shows "\<exists>bs y. as_sortable_bytes D d so buf = Some (buf @ bs) \<and>
    from_sortable_bytes D jp (bs @ rest) = Some (y, rest) \<and> datum_eq D y d"
  using read_write_datum [OF assms, of so rest] as_sortable_bytes_eq [OF assms, of so buf] by auto

theorem datum_encoding_roundtrip_witness:
  "\<exists>bs y. as_sortable_bytes ref_decimal_ops (D_Decimal (True, 15, 1)) Desc [9] = Some ([9] @ bs) \<and>
    from_sortable_bytes ref_decimal_ops (\<lambda>_. None) (bs @ [1]) = Some (y, [1]) \<and>
    datum_eq ref_decimal_ops y (D_Decimal (True, 15, 1))"
  by (rule datum_encoding_roundtrip [OF ref_decimal_laws]) (simp add: ref_mant_eq)

text \<open>C18. Encoded rows with the same column orders compare as the rows do: column by column in each
  column's own direction (NULL first when ascending), datums of one type by their comparison, and
  rows that are equal column by column have equal keys.\<close>

theorem row_encoding_order:
  assumes "decimal_laws D" "list_all (valid_datum D jp) xs" "list_all (valid_datum D jp) ys"
    and "length xs = length sos" "length ys = length sos"
  shows "\<exists>p q. write_row D sos xs [] = Some p \<and> write_row D sos ys [] = Some q \<and>
    (p < q \<longleftrightarrow> tuple_before (datum_less D) (datum_eq D) sos xs ys False) \<and>
    (p = q \<longleftrightarrow> list_all2 (datum_eq D) xs ys)"
proof -
  have v: "list_all (\<lambda>d. decimal_laws D \<and> valid_datum D jp d) xs" "list_all (\<lambda>d. decimal_laws D \<and> valid_datum D jp d) ys"
    using assms by (simp_all add: list_all_iff)
  show ?thesis
    using datum_enc.tuple_less_iff [OF v assms(4,5), of "[]" "[]"] datum_enc.tuple_eq_iff [OF v assms(4,5), of "[]" "[]"]
    by (simp add: write_row_eq [OF assms(1,2)] write_row_eq [OF assms(1,3)])
qed

theorem row_encoding_order_witness:
  "\<exists>p q. write_row ref_decimal_ops [Asc, Desc] [D_Integer 1, D_BigInt 9] [] = Some p \<and>
    write_row ref_decimal_ops [Asc, Desc] [D_Integer 1, D_BigInt 7] [] = Some q \<and> p < q"
  using row_encoding_order [OF ref_decimal_laws, of "\<lambda>_. None" "[D_Integer 1, D_BigInt 9]" "[D_Integer 1, D_BigInt 7]" "[Asc, Desc]"]
  by (simp add: datum_less_def datum_eq_def cmp_or_greater_def cmp_of_def)

end
