(* ===== verification/Storage.thy ===== *)
theory Storage
  imports Encoding_Datum
begin

text \<open>
  The storage crate's view of RocksDB and the callbacks it registers (\<open>storage/src/storage.rs\<close>,
  \<open>storage/src/error.rs\<close>).  RocksDB is third party code: its operations are a record the
  definitions take as an argument, and \<open>rocks_laws\<close> states the documented behaviour of a healthy
  database, a map from keys to values with atomic batches and iterators in key order.  A concrete
  instance shows that the laws can hold.  A result of type \<open>storage_error + 'a\<close> inside an option
  is a Rust \<open>Result\<close>; \<open>None\<close> is a panic or a loop that does not end.
\<close>

section \<open>Errors\<close>

datatype storage_error = RocksDbError string

section \<open>The interface of RocksDB\<close>

datatype batch_op =
    Put bytes bytes
  | Delete bytes

record ('db, 'it) rocks_ops =
  r_get :: "'db \<Rightarrow> bytes \<Rightarrow> storage_error + bytes option"
  r_batch_get :: "batch_op list \<Rightarrow> 'db \<Rightarrow> bytes \<Rightarrow> storage_error + bytes option"
  r_write :: "'db \<Rightarrow> batch_op list \<Rightarrow> storage_error + 'db"
  r_iter_seek :: "'db \<Rightarrow> bytes \<Rightarrow> bytes \<Rightarrow> 'it"
  r_next :: "'it \<Rightarrow> 'it"
  r_valid :: "'it \<Rightarrow> bool"
  r_key :: "'it \<Rightarrow> bytes option"
  r_value :: "'it \<Rightarrow> bytes option"
  r_status :: "'it \<Rightarrow> storage_error + unit"

fun apply_op :: "batch_op \<Rightarrow> (bytes \<rightharpoonup> bytes) \<Rightarrow> (bytes \<rightharpoonup> bytes)" where
  "apply_op (Put k v) m = m(k \<mapsto> v)"
| "apply_op (Delete k) m = m(k := None)"

definition apply_batch :: "batch_op list \<Rightarrow> (bytes \<rightharpoonup> bytes) \<Rightarrow> (bytes \<rightharpoonup> bytes)" where
  "apply_batch ops m = fold apply_op ops m"

text \<open>\<open>contents\<close> is the map a database holds, \<open>rest\<close> what an iterator has left to visit.  An
  iterator with an upper bound and a fixed prefix visits the keys from the seek key up to the bound
  that share the seek key's four byte prefix.\<close>

definition rocks_laws ::
  "('db, 'it) rocks_ops \<Rightarrow> ('db \<Rightarrow> bytes \<rightharpoonup> bytes) \<Rightarrow> ('it \<Rightarrow> (bytes \<times> bytes) list) \<Rightarrow> bool" where
  "rocks_laws R contents rest \<longleftrightarrow>
     (\<forall>db k. r_get R db k = Inr (contents db k)) \<and>
     (\<forall>ops db k. r_batch_get R ops db k = Inr (apply_batch ops (contents db) k)) \<and>
     (\<forall>db ops. \<exists>db'. r_write R db ops = Inr db' \<and> contents db' = apply_batch ops (contents db)) \<and>
     (\<forall>db ub k. sorted_wrt (<) (map fst (rest (r_iter_seek R db ub k))) \<and>
        set (rest (r_iter_seek R db ub k)) =
          {(k', v). contents db k' = Some v \<and> k \<le> k' \<and> k' < ub \<and> take 4 k' = take 4 k}) \<and>
     (\<forall>it. r_valid R it \<longleftrightarrow> rest it \<noteq> []) \<and>
     (\<forall>it k v xs. rest it = (k, v) # xs \<longrightarrow> r_key R it = Some k \<and> r_value R it = Some v \<and> rest (r_next R it) = xs) \<and>
     (\<forall>it. r_status R it = Inr ())"

section \<open>The callbacks\<close>

text \<open>\<open>for operand in operand_list { temp.read_sortable_bytes(..); count += temp }\<close>\<close>

fun merge_operands :: "bytes list \<Rightarrow> i64 \<Rightarrow> i64 option" where
  "merge_operands [] count = Some count"
| "merge_operands (operand # operands) count =
     Option.bind (read_varint_signed Asc operand) (\<lambda>(temp, _). merge_operands operands (count + temp))"

definition frequency_merge_impl :: "bytes \<Rightarrow> bytes option \<Rightarrow> bytes list \<Rightarrow> bytes option" where
  "frequency_merge_impl key existing_value operand_list =
     (if length key \<le> 3 \<or> (key ! 3) AND 1 \<noteq> 1 then None
      else
        Option.bind (case existing_value of None \<Rightarrow> Some 0
          | Some bs \<Rightarrow> map_option fst (read_varint_signed Asc bs)) (\<lambda>count.
        Option.bind (merge_operands operand_list count) (\<lambda>count.
        Some (write_varint_signed count Asc []))))"

datatype decision = Keep | Remove

definition compaction_filter :: "bytes \<Rightarrow> bytes \<Rightarrow> decision option" where
  "compaction_filter key value =
     (if length key \<le> 3 then None
      else if (key ! 3) AND 1 = 1 then
        (case value of [] \<Rightarrow> None
         | b # _ \<Rightarrow> Some (if b = VARINT_SIGNED_ZERO_ENC then Remove else Keep))
      else Some Keep)"

section \<open>Lemmas\<close>

lemma rocks_lawsD:
  assumes "rocks_laws R contents rest"
  shows rocks_get: "r_get R db k = Inr (contents db k)"
    and rocks_batch_get: "r_batch_get R ops db k = Inr (apply_batch ops (contents db) k)"
    and rocks_write: "\<exists>db'. r_write R db ops = Inr db' \<and> contents db' = apply_batch ops (contents db)"
    and rocks_seek_sorted: "sorted_wrt (<) (map fst (rest (r_iter_seek R db ub k)))"
    and rocks_seek_set: "set (rest (r_iter_seek R db ub k)) =
          {(k', v). contents db k' = Some v \<and> k \<le> k' \<and> k' < ub \<and> take 4 k' = take 4 k}"
    and rocks_valid: "r_valid R it \<longleftrightarrow> rest it \<noteq> []"
    and rocks_iter: "rest it = (k', v) # xs \<Longrightarrow>
      r_key R it = Some k' \<and> r_value R it = Some v \<and> rest (r_next R it) = xs"
    and rocks_status: "r_status R it = Inr ()"
  using assms unfolding rocks_laws_def by (elim conjE; simp; fail)+

lemma apply_batch_Nil [simp]: "apply_batch [] m = m"
  by (simp add: apply_batch_def)

lemma apply_batch_snoc [simp]: "apply_batch (ops @ [b]) m = apply_op b (apply_batch ops m)"
  by (simp add: apply_batch_def)

lemma merge_operands_spec:
  "merge_operands (map (\<lambda>d. write_varint_signed d Asc []) ds) count = Some (count + sum_list ds)"
proof (induction ds arbitrary: count)
  case Nil
  then show ?case by simp
next
  case (Cons d ds)
  then show ?case using read_write_signed [of Asc d "[]"] by (simp add: algebra_simps)
qed

lemma varint_spec_first:
  assumes "- (2 ^ 63) \<le> k" "k < 2 ^ 63"
  shows "\<exists>b xs. varint_spec k = b # xs \<and> (b = 103 \<longleftrightarrow> k = 0)"
proof (cases "- 99 \<le> k \<and> k \<le> 148")
  case True
  then have "nat (k + 103) < 256" "nat (k + 103) = 103 \<longleftrightarrow> k = 0" by auto
  then have "(word_of_nat (nat (k + 103)) :: u8) = 103 \<longleftrightarrow> k = 0"
    using u8_of_nat_eq_iff [of "nat (k + 103)" 103] by (simp only: of_nat_numeral)
  then show ?thesis using True by (simp add: varint_spec_def tagged_def del: of_nat_nat)
next
  case False
  then show ?thesis by (auto simp: varint_spec_def tagged_def)
qed

text \<open>An association list as a database.\<close>

type_synonym ref_db = "(bytes \<times> bytes) list"

definition ref_entries :: "ref_db \<Rightarrow> (bytes \<times> bytes) list" where
  "ref_entries db = map (\<lambda>k. (k, the (map_of db k))) (sort (remdups (map fst db)))"

fun ref_apply :: "batch_op \<Rightarrow> ref_db \<Rightarrow> ref_db" where
  "ref_apply (Put k v) db = (k, v) # db"
| "ref_apply (Delete k) db = filter (\<lambda>(k', v). k' \<noteq> k) db"

definition ref_rocks :: "(ref_db, ref_db) rocks_ops" where
  "ref_rocks = \<lparr>
     r_get = (\<lambda>db k. Inr (map_of db k)),
     r_batch_get = (\<lambda>ops db k. Inr (map_of (fold ref_apply ops db) k)),
     r_write = (\<lambda>db ops. Inr (fold ref_apply ops db)),
     r_iter_seek = (\<lambda>db ub k. filter (\<lambda>(k', v). k \<le> k' \<and> k' < ub \<and> take 4 k' = take 4 k) (ref_entries db)),
     r_next = tl,
     r_valid = (\<lambda>it. it \<noteq> []),
     r_key = (\<lambda>it. case it of [] \<Rightarrow> None | (k, v) # _ \<Rightarrow> Some k),
     r_value = (\<lambda>it. case it of [] \<Rightarrow> None | (k, v) # _ \<Rightarrow> Some v),
     r_status = (\<lambda>it. Inr ())\<rparr>"

lemma map_of_filter_neq: "map_of (filter (\<lambda>(k', v). k' \<noteq> k) db) = (map_of db)(k := None)"
  by (induction db) (auto simp: fun_eq_iff)

lemma ref_apply_map_of: "map_of (ref_apply b db) = apply_op b (map_of db)"
  by (cases b) (simp_all add: map_of_filter_neq)

lemma ref_batch_map_of: "map_of (fold ref_apply ops db) = apply_batch ops (map_of db)"
  by (induction ops rule: rev_induct) (simp_all add: ref_apply_map_of)

lemma ref_entries_fst: "map fst (ref_entries db) = sort (remdups (map fst db))"
  by (simp add: ref_entries_def comp_def)

lemma ref_entries_set: "set (ref_entries db) = {(k, v). map_of db k = Some v}"
proof -
  have "(k, v) \<in> set (ref_entries db) \<longleftrightarrow> map_of db k = Some v" for k v
  proof (cases "map_of db k")
    case None
    then show ?thesis using map_of_eq_None_iff [of db k] by (auto simp: ref_entries_def)
  next
    case (Some w)
    then have "k \<in> fst ` set db" by (metis map_of_eq_None_iff option.distinct(1))
    then show ?thesis using Some by (auto simp: ref_entries_def)
  qed
  then show ?thesis by auto
qed

lemma sorted_wrt_map_filter: "sorted_wrt P (map f xs) \<Longrightarrow> sorted_wrt P (map f (filter Q xs))"
  by (induction xs) auto

lemma ref_rocks_laws: "rocks_laws ref_rocks map_of (\<lambda>it. it)"
proof -
  have "sorted_wrt (<) (map fst (ref_entries db))" for db
    unfolding ref_entries_fst by (simp add: strict_sorted_iff)
  then show ?thesis
    unfolding rocks_laws_def
    by (auto simp: ref_rocks_def ref_batch_map_of sorted_wrt_map_filter ref_entries_set)
qed

section \<open>Properties\<close>




text \<open>The compaction filter drops a log record exactly when the frequency stored in it is zero
  (it looks at the first byte only), and never drops a record of the index section.\<close>

theorem compaction_drops_zero:
  assumes "3 < length key"
  shows "compaction_filter key (write_varint_signed c Asc [] @ r) =
    Some (if (key ! 3) AND 1 = 1 \<and> c = 0 then Remove else Keep)"
proof -
  have "\<exists>b xs. write_varint_signed c Asc [] = b # xs \<and> (b = VARINT_SIGNED_ZERO_ENC \<longleftrightarrow> c = 0)"
    using varint_spec_first [of "sint c"] sint_i64_bounds [of c] signed_word_eqI [of c 0]
    by (auto simp: write_varint_signed_Asc VARINT_SIGNED_ZERO_ENC_def)
  then show ?thesis using assms by (auto simp: compaction_filter_def)
qed

theorem compaction_drops_zero_witness:
  "compaction_filter [0, 0, 0, 1] (write_varint_signed 0 Asc [] @ [1, 2]) = Some Remove"
  using compaction_drops_zero [of "[0, 0, 0, 1]" 0 "[1, 2]"] by simp

end
