(* ===== verification/Tuple_Iter.thy ===== *)
theory Tuple_Iter
  imports Datum
begin

text \<open>
  The streaming iterators of the system (\<open>data/src/tuple_iter.rs\<close>).  An implementation of the
  trait \<open>TupleIter\<close> is a pair of functions on its state: \<open>advance\<close>, which returns the new state,
  an error, or \<open>None\<close> where the code panics or does not return, and \<open>get\<close>, the row at the current
  position.  The relation \<open>yields\<close> is the abstract view of an iterator: the rows that the calls
  of \<open>next\<close> deliver before the first \<open>None\<close>, every call returning without an error.
  \<open>PeekableIter\<close> is proved to be a cursor over that list.
\<close>

type_synonym 'd row = "'d datum list \<times> i64"
type_synonym ('s, 'e) advance = "'s \<Rightarrow> ('e + 's) option"
type_synonym ('s, 'd) getter = "'s \<Rightarrow> 'd row option"

section \<open>The trait\<close>

definition iter_next :: "('s, 'e) advance \<Rightarrow> ('s, 'd) getter \<Rightarrow> 's \<Rightarrow> ('e + 's \<times> 'd row option) option" where
  "iter_next advance get s =
     (case advance s of None \<Rightarrow> None
      | Some (Inl e) \<Rightarrow> Some (Inl e)
      | Some (Inr s') \<Rightarrow> Some (Inr (s', get s')))"

inductive yields :: "('s, 'e) advance \<Rightarrow> ('s, 'd) getter \<Rightarrow> 's \<Rightarrow> 'd row list \<Rightarrow> bool" for advance get where
  yields_end: "advance s = Some (Inr s') \<Longrightarrow> get s' = None \<Longrightarrow> yields advance get s []"
| yields_row: "advance s = Some (Inr s') \<Longrightarrow> get s' = Some r \<Longrightarrow> yields advance get s' rs \<Longrightarrow>
    yields advance get s (r # rs)"

inductive_simps yields_Nil_iff: "yields advance get s []"
inductive_simps yields_Cons_iff: "yields advance get s (r # rs)"

lemma yields_deterministic: "yields advance get s rs \<Longrightarrow> yields advance get s rs' \<Longrightarrow> rs = rs'"
proof (induction arbitrary: rs' rule: yields.induct)
  case (yields_end s s')
  then show ?case by (cases rs') (auto simp: yields_Cons_iff)
next
  case (yields_row s s' r rs)
  from yields_row.prems yields_row.hyps(1,2) obtain rs'' where "rs' = r # rs''" "yields advance get s' rs''"
    by (cases rs') (auto simp: yields_Nil_iff yields_Cons_iff)
  then show ?case using yields_row.IH by simp
qed

text \<open>The empty iterator, \<open>empty_tuple_iter\<close>.\<close>

definition empty_advance :: "(unit, 'e) advance" where
  "empty_advance s = Some (Inr s)"

definition empty_get :: "(unit, 'd) getter" where
  "empty_get s = None"

lemma empty_yields: "yields empty_advance empty_get s []"
  by (rule yields_end) (simp_all add: empty_advance_def empty_get_def)

section \<open>Peekable iterators\<close>

record 's peekable_iter =
  inner :: 's
  advanced :: bool

definition peekable_from :: "'s \<Rightarrow> 's peekable_iter" where
  "peekable_from s = \<lparr>inner = s, advanced = False\<rparr>"

definition peekable_next ::
  "('s, 'e) advance \<Rightarrow> ('s, 'd) getter \<Rightarrow> 's peekable_iter \<Rightarrow> ('e + 's peekable_iter \<times> 'd row option) option" where
  "peekable_next advance get self =
     (case (if advanced self then Some (Inr (inner self)) else advance (inner self)) of
        None \<Rightarrow> None
      | Some (Inl e) \<Rightarrow> Some (Inl e)
      | Some (Inr s) \<Rightarrow>
          let next = get s in Some (Inr (\<lparr>inner = s, advanced = (next = None)\<rparr>, next)))"

definition peekable_peek ::
  "('s, 'e) advance \<Rightarrow> ('s, 'd) getter \<Rightarrow> 's peekable_iter \<Rightarrow> ('e + 's peekable_iter \<times> 'd row option) option" where
  "peekable_peek advance get self =
     (case (if advanced self then Some (Inr (inner self)) else advance (inner self)) of
        None \<Rightarrow> None
      | Some (Inl e) \<Rightarrow> Some (Inl e)
      | Some (Inr s) \<Rightarrow> Some (Inr (\<lparr>inner = s, advanced = True\<rparr>, get s)))"

definition peekable_lock_in :: "'s peekable_iter \<Rightarrow> 's peekable_iter" where
  "peekable_lock_in self = self\<lparr>advanced := False\<rparr>"

section \<open>The cursor contract\<close>

text \<open>A cursor over a list of rows: \<open>next\<close> consumes the first row, \<open>peek\<close> shows it, \<open>lock_in\<close>
  after a \<open>peek\<close> that showed a row consumes it; after the end both keep answering \<open>None\<close>.\<close>

locale cursor =
  fixes nxt :: "'c \<Rightarrow> ('e + 'c \<times> 'r option) option"
    and peek :: "'c \<Rightarrow> ('e + 'c \<times> 'r option) option"
    and lock :: "'c \<Rightarrow> 'c"
    and at :: "'c \<Rightarrow> 'r list \<Rightarrow> bool"
    and peeked :: "'c \<Rightarrow> 'r list \<Rightarrow> bool"
  assumes next_at: "at c rs \<Longrightarrow>
      \<exists>c'. nxt c = Some (Inr (c', case rs of [] \<Rightarrow> None | r # _ \<Rightarrow> Some r)) \<and> at c' (tl rs)"
    and peek_at: "at c rs \<Longrightarrow>
      \<exists>c'. peek c = Some (Inr (c', case rs of [] \<Rightarrow> None | r # _ \<Rightarrow> Some r)) \<and> at c' rs \<and> peeked c' rs"
    and lock_peeked: "peeked c (r # rs) \<Longrightarrow> at (lock c) rs"
begin

lemma next_Nil: "at c [] \<Longrightarrow> \<exists>c'. nxt c = Some (Inr (c', None)) \<and> at c' []"
  using next_at [of c "[]"] by simp

lemma next_Cons: "at c (r # rs) \<Longrightarrow> \<exists>c'. nxt c = Some (Inr (c', Some r)) \<and> at c' rs"
  using next_at [of c "r # rs"] by simp

lemma peek_Nil: "at c [] \<Longrightarrow> \<exists>c'. peek c = Some (Inr (c', None)) \<and> at c' []"
  using peek_at [of c "[]"] by auto

lemma peek_then_lock: "at c (r # rs) \<Longrightarrow> \<exists>c'. peek c = Some (Inr (c', Some r)) \<and> at c' (r # rs) \<and> at (lock c') rs"
  using peek_at [of c "r # rs"] lock_peeked by fastforce

lemma peek_then_next:
  "at c rs \<Longrightarrow> \<exists>c' c'' r. peek c = Some (Inr (c', r)) \<and> nxt c' = Some (Inr (c'', r)) \<and> at c'' (tl rs)"
  using peek_at next_at by metis

end

definition peekable_at ::
  "('s, 'e) advance \<Rightarrow> ('s, 'd) getter \<Rightarrow> 's peekable_iter \<Rightarrow> 'd row list \<Rightarrow> bool" where
  "peekable_at advance get p rs =
     (if advanced p then get (inner p) = (case rs of [] \<Rightarrow> None | r # _ \<Rightarrow> Some r) \<and>
                         (rs \<noteq> [] \<longrightarrow> yields advance get (inner p) (tl rs))
      else yields advance get (inner p) rs)"

lemma peekable_at_simps:
  "peekable_at advance get \<lparr>inner = s, advanced = False\<rparr> rs = yields advance get s rs"
  "peekable_at advance get \<lparr>inner = s, advanced = True\<rparr> [] = (get s = None)"
  "peekable_at advance get \<lparr>inner = s, advanced = True\<rparr> (r # rs) = (get s = Some r \<and> yields advance get s rs)"
  by (simp_all add: peekable_at_def)

interpretation peekable: cursor "peekable_next advance get" "peekable_peek advance get" peekable_lock_in
  "peekable_at advance get" "\<lambda>p rs. advanced p \<and> peekable_at advance get p rs"
  for advance :: "('s, 'e) advance" and get :: "('s, 'd) getter"
proof unfold_locales
  fix c rs
  assume "peekable_at advance get c rs"
  then show "\<exists>c'. peekable_next advance get c = Some (Inr (c', case rs of [] \<Rightarrow> None | r # _ \<Rightarrow> Some r)) \<and>
      peekable_at advance get c' (tl rs)"
    by (cases c; cases "advanced c"; cases rs)
      (auto simp: peekable_at_simps peekable_next_def Let_def yields_Nil_iff yields_Cons_iff)
next
  fix c rs
  assume "peekable_at advance get c rs"
  then show "\<exists>c'. peekable_peek advance get c = Some (Inr (c', case rs of [] \<Rightarrow> None | r # _ \<Rightarrow> Some r)) \<and>
      peekable_at advance get c' rs \<and> advanced c' \<and> peekable_at advance get c' rs"
    by (cases c; cases "advanced c"; cases rs)
      (auto simp: peekable_at_simps peekable_peek_def yields_Nil_iff yields_Cons_iff)
next
  fix c r rs
  assume "advanced c \<and> peekable_at advance get c (r # rs)"
  then show "peekable_at advance get (peekable_lock_in c) rs"
    by (cases c) (auto simp: peekable_at_simps peekable_lock_in_def)
qed

lemma peekable_from_at: "yields advance get s rs \<Longrightarrow> peekable_at advance get (peekable_from s) rs"
  by (simp add: peekable_at_def peekable_from_def)

section \<open>Properties\<close>

text \<open>Peeking does not disturb a peekable iterator: over an iterator that yields \<open>rs\<close>, a peek
  shows the first row, the following \<open>next\<close> returns that same row, and what remains are the rows
  after it; at the end both return \<open>None\<close> again and again without advancing the inner iterator.\<close>

theorem peekable_peek_next:
  assumes "peekable_at advance get p rs"
  shows "\<exists>p' p''. peekable_peek advance get p = Some (Inr (p', case rs of [] \<Rightarrow> None | r # _ \<Rightarrow> Some r)) \<and>
    peekable_next advance get p' = Some (Inr (p'', case rs of [] \<Rightarrow> None | r # _ \<Rightarrow> Some r)) \<and>
    peekable_at advance get p'' (tl rs) \<and> (rs = [] \<longrightarrow> inner p'' = inner p')"
proof -
  obtain p' where p': "peekable_peek advance get p = Some (Inr (p', case rs of [] \<Rightarrow> None | r # _ \<Rightarrow> Some r))"
    "peekable_at advance get p' rs" "advanced p'" using peekable.peek_at [OF assms] by blast
  obtain p'' where p'': "peekable_next advance get p' = Some (Inr (p'', case rs of [] \<Rightarrow> None | r # _ \<Rightarrow> Some r))"
    "peekable_at advance get p'' (tl rs)" using peekable.next_at [OF p'(2)] by blast
  have "inner p'' = inner p'" using p''(1) p'(3) by (auto simp: peekable_next_def Let_def)
  then show ?thesis using p' p'' by blast
qed

theorem peekable_peek_next_witness:
  "\<exists>p' p''. peekable_peek (empty_advance :: (unit, unit) advance) (empty_get :: (unit, unit) getter) (peekable_from ()) =
      Some (Inr (p', None)) \<and>
    peekable_next (empty_advance :: (unit, unit) advance) (empty_get :: (unit, unit) getter) p' = Some (Inr (p'', None))"
  using peekable_peek_next [OF peekable_from_at [OF empty_yields], of "()"] by fastforce

end
