(* ===== verification/Table_Store.thy ===== *)
theory Table_Store
  imports Storage Tuple_Iter
begin

text \<open>
  Tables (\<open>storage/src/table.rs\<close>): the key and value layout of the index section, the writer with
  its multi version bookkeeping, system tables, and the scan that reconstructs the table as of a
  timestamp.  The database handle that a \<open>Table\<close> holds in the code is the first argument \<open>db\<close> of
  its operations; the buffers of \<open>Writer\<close>, cleared before each use, are local.
\<close>

section \<open>Tables\<close>

record table =
  t_id :: u32
  t_length :: nat
  t_pk :: "sort_order list"

definition table_new :: "u32 \<Rightarrow> nat \<Rightarrow> sort_order list \<Rightarrow> table option" where
  "table_new tid len pk =
     (if len \<ge> length pk then Some \<lparr>t_id = tid, t_length = len, t_pk = pk\<rparr> else None)"

text \<open>\<open>Storage::table\<close>: ids are even, the odd ones are the log sections.\<close>

definition storage_table :: "u32 \<Rightarrow> nat \<Rightarrow> sort_order list \<Rightarrow> table option" where
  "storage_table tid len pk = (if tid AND 1 = 0 then table_new tid len pk else None)"

section \<open>Keys and values\<close>

definition write_range_key ::
  "('d, 'z) decimal_ops_scheme \<Rightarrow> table \<Rightarrow> 'd datum list \<Rightarrow> bool \<Rightarrow> bytes option" where
  "write_range_key D t tuple end_key =
     map_option (\<lambda>key. key @ [if end_key then 255 else 0])
       (write_row D (t_pk t) tuple (write_varint_unsigned (of_nat (length (t_pk t))) Asc (u32_to_be (t_id t))))"

definition write_index_header_key ::
  "('d, 'z) decimal_ops_scheme \<Rightarrow> table \<Rightarrow> 'd datum list \<Rightarrow> bytes option" where
  "write_index_header_key D t tuple =
     (if length tuple \<ge> length (t_pk t) then write_range_key D t tuple False else None)"

definition write_index_header_value ::
  "('d, 'z) decimal_ops_scheme \<Rightarrow> table \<Rightarrow> 'd datum list \<Rightarrow> u64 \<Rightarrow> i64 \<Rightarrow> bytes option" where
  "write_index_header_value D t tuple timestamp freq =
     (if length tuple < length (t_pk t) then None
      else
        let rest = drop (length (t_pk t)) tuple;
            value_buf = write_varint_signed freq Asc (le_bytes 8 (unat timestamp)) in
        write_row D (replicate (length rest) Asc) rest
          (write_varint_unsigned (of_nat (length rest)) Asc value_buf))"

section \<open>The writer\<close>

record writer =
  write_batch :: "batch_op list"

definition writer_new :: writer where
  "writer_new = \<lparr>write_batch = []\<rparr>"

definition batch_put :: "bytes \<Rightarrow> bytes \<Rightarrow> writer \<Rightarrow> writer" where
  "batch_put k v w = w\<lparr>write_batch := write_batch w @ [Put k v]\<rparr>"

definition batch_delete :: "bytes \<Rightarrow> writer \<Rightarrow> writer" where
  "batch_delete k w = w\<lparr>write_batch := write_batch w @ [Delete k]\<rparr>"

definition writer_write_tuple ::
  "('db, 'it) rocks_ops \<Rightarrow> ('d, 'z) decimal_ops_scheme \<Rightarrow> 'db \<Rightarrow> table \<Rightarrow> 'd datum list \<Rightarrow> u64 \<Rightarrow> i64 \<Rightarrow>
    writer \<Rightarrow> (storage_error + writer) option" where
  "writer_write_tuple R D db t tuple timestamp freq w =
     (if length tuple \<noteq> t_length t then None
      else Option.bind (write_index_header_key D t tuple) (\<lambda>key.
        let put_header = (\<lambda>freq w. map_option (\<lambda>v. Inr (batch_put key v w))
              (write_index_header_value D t tuple timestamp freq)) in
        case r_batch_get R (write_batch w) db key of
          Inl e \<Rightarrow> Some (Inl e)
        | Inr None \<Rightarrow> put_header freq w
        | Inr (Some value_bytes) \<Rightarrow>
            Option.bind (split_at 8 value_bytes) (\<lambda>(ts, value_rest).
            Option.bind (read_varint_signed Asc value_rest) (\<lambda>(last_freq, _).
              let last_timestamp = (of_nat (le_val ts) :: u64) in
              put_header (freq + last_freq)
                (if last_timestamp \<noteq> timestamp
                 then batch_put (butlast key @ u64_to_be (- 1 - last_timestamp)) value_rest w
                 else w)))))"

definition write_index_header ::
  "('d, 'z) decimal_ops_scheme \<Rightarrow> table \<Rightarrow> 'd datum list \<Rightarrow> u64 \<Rightarrow> i64 \<Rightarrow> writer \<Rightarrow> writer option" where
  "write_index_header D t tuple timestamp freq w =
     Option.bind (write_index_header_key D t tuple) (\<lambda>key.
     Option.bind (write_index_header_value D t tuple timestamp freq) (\<lambda>value.
     Some (batch_put key value w)))"

definition system_write_tuple ::
  "('d, 'z) decimal_ops_scheme \<Rightarrow> table \<Rightarrow> 'd datum list \<Rightarrow> i64 \<Rightarrow> writer \<Rightarrow> writer option" where
  "system_write_tuple D t tuple freq w = write_index_header D t tuple 0 freq w"

definition system_delete_tuple ::
  "('d, 'z) decimal_ops_scheme \<Rightarrow> table \<Rightarrow> 'd datum list \<Rightarrow> writer \<Rightarrow> writer option" where
  "system_delete_tuple D t pk w =
     Option.bind (write_index_header_key D t pk) (\<lambda>key. Some (batch_delete key w))"

text \<open>\<open>Table::atomic_write\<close>: the batch is written only when the closure succeeds; \<open>from\<close> is the
  conversion of a storage error to the closure's error type.\<close>

definition atomic_write ::
  "('db, 'it) rocks_ops \<Rightarrow> (storage_error \<Rightarrow> 'e) \<Rightarrow> 'db \<Rightarrow> (writer \<Rightarrow> ('e + writer) option) \<Rightarrow> ('e + 'db) option" where
  "atomic_write R from db batch =
     (case batch writer_new of
        None \<Rightarrow> None
      | Some (Inl e) \<Rightarrow> Some (Inl e)
      | Some (Inr w) \<Rightarrow>
          (case r_write R db (write_batch w) of Inl e \<Rightarrow> Some (Inl (from e)) | Inr db' \<Rightarrow> Some (Inr db')))"

section \<open>Reading\<close>

text \<open>\<open>for idx in 0..n { tuple_buffer[start + idx].from_sortable_bytes(..) }\<close>\<close>

fun read_into ::
  "('d, 'z) decimal_ops_scheme \<Rightarrow> (bytes \<Rightarrow> json_path_selector list option) \<Rightarrow> 'd datum list \<Rightarrow> nat \<Rightarrow> nat \<Rightarrow> bytes \<Rightarrow>
    ('d datum list \<times> bytes) option" where
  "read_into D jp tuple_buffer start 0 buf = Some (tuple_buffer, buf)"
| "read_into D jp tuple_buffer start (Suc n) buf =
     (if start < length tuple_buffer then
        Option.bind (from_sortable_bytes D jp buf) (\<lambda>(d, buf).
          read_into D jp (tuple_buffer[start := d]) (start + 1) n buf)
      else None)"

definition right_size_new_to :: "nat \<Rightarrow> 'd datum list" where
  "right_size_new_to n = replicate n D_Null"

definition system_point_lookup ::
  "('db, 'it) rocks_ops \<Rightarrow> ('d, 'z) decimal_ops_scheme \<Rightarrow> (bytes \<Rightarrow> json_path_selector list option) \<Rightarrow> 'db \<Rightarrow> table \<Rightarrow>
    'd datum list \<Rightarrow> (storage_error + (i64 \<times> 'd datum list) option) option" where
  "system_point_lookup R D jp db t pk =
     Option.bind (write_index_header_key D t pk) (\<lambda>key.
       case r_get R db key of
         Inl e \<Rightarrow> Some (Inl e)
       | Inr None \<Rightarrow> Some (Inr None)
       | Inr (Some value_slice) \<Rightarrow>
           Option.bind (split_at 8 value_slice) (\<lambda>(_, value_buf).
           Option.bind (read_varint_signed Asc value_buf) (\<lambda>(freq, value_buf).
           Option.bind (read_varint_unsigned Asc value_buf) (\<lambda>(tuple_rest_len, value_buf).
           Option.bind (read_into D jp (right_size_new_to (unat tuple_rest_len)) 0 (unat tuple_rest_len) value_buf)
             (\<lambda>(rest_tuple, _). Some (Inr (Some (freq, rest_tuple))))))))"

section \<open>Scans\<close>

record ('it, 'd) index_iter =
  i_iter :: 'it
  i_timestamp :: u64
  i_first :: bool
  i_tuple_buffer :: "'d datum list"
  i_freq :: "i64 option"

definition index_iter_new :: "'it \<Rightarrow> u64 \<Rightarrow> nat \<Rightarrow> ('it, 'd) index_iter" where
  "index_iter_new it timestamp column_count =
     \<lparr>i_iter = it, i_timestamp = timestamp, i_first = True, i_tuple_buffer = right_size_new_to column_count,
      i_freq = None\<rparr>"

definition range_scan ::
  "('db, 'it) rocks_ops \<Rightarrow> ('d, 'z) decimal_ops_scheme \<Rightarrow> 'db \<Rightarrow> table \<Rightarrow> 'd datum list option \<Rightarrow> 'd datum list option \<Rightarrow>
    u64 \<Rightarrow> ('it, 'd) index_iter option" where
  "range_scan R D db t from to timestamp =
     Option.bind (case to of Some to_datum \<Rightarrow> write_range_key D t to_datum True
       | None \<Rightarrow> Some (u32_to_be (t_id t + 1))) (\<lambda>upper_bound.
     Option.bind (case from of Some from_datum \<Rightarrow> write_range_key D t from_datum False
       | None \<Rightarrow> Some (u32_to_be (t_id t))) (\<lambda>seek_key.
     Some (index_iter_new (r_iter_seek R db upper_bound seek_key) timestamp (t_length t))))"

definition full_scan ::
  "('db, 'it) rocks_ops \<Rightarrow> ('d, 'z) decimal_ops_scheme \<Rightarrow> 'db \<Rightarrow> table \<Rightarrow> u64 \<Rightarrow> ('it, 'd) index_iter option" where
  "full_scan R D db t timestamp = range_scan R D db t None None timestamp"

text \<open>One record of the scan: \<open>continue\<close> with the new \<open>seek_next_header\<close>, or a row to emit.\<close>

datatype 'd index_step =
    Step_Continue bool "'d datum list"
  | Step_Emit "'d datum list" i64

definition index_step ::
  "('d, 'z) decimal_ops_scheme \<Rightarrow> (bytes \<Rightarrow> json_path_selector list option) \<Rightarrow> u64 \<Rightarrow> bool \<Rightarrow> 'd datum list \<Rightarrow>
    bytes \<Rightarrow> bytes \<Rightarrow> 'd index_step option" where
  "index_step D jp timestamp seek_next_header tuple_buffer key value_buf =
     Option.bind (split_at 4 key) (\<lambda>(_, key_buf).
     Option.bind (read_varint_unsigned Asc key_buf) (\<lambda>(tuple_pk_len, key_buf).
     Option.bind (read_into D jp tuple_buffer 0 (unat tuple_pk_len) key_buf) (\<lambda>(tuple_buffer, key_buf).
     let emit = (\<lambda>tuple_timestamp seek_next_header value_buf.
           if tuple_timestamp \<ge> timestamp then Some (Step_Continue seek_next_header tuple_buffer)
           else
             Option.bind (read_varint_signed Asc value_buf) (\<lambda>(freq, value_buf).
             if freq = 0 then Some (Step_Continue True tuple_buffer)
             else
               Option.bind (read_varint_unsigned Asc value_buf) (\<lambda>(datum_count, value_buf).
               Option.bind (read_into D jp tuple_buffer (unat tuple_pk_len) (unat datum_count) value_buf)
                 (\<lambda>(tuple_buffer, _). Some (Step_Emit tuple_buffer freq))))) in
     case key_buf of
       [] \<Rightarrow> None
     | b # _ \<Rightarrow>
         if b = 0 then
           Option.bind (split_at 8 value_buf) (\<lambda>(ts, value_buf).
             emit (of_nat (le_val ts) :: u64) False value_buf)
         else if seek_next_header then Some (Step_Continue seek_next_header tuple_buffer)
         else
           Option.bind (split_at 8 key_buf) (\<lambda>(ts, _).
             emit (- 1 - u64_of_be ts) seek_next_header value_buf))))"

partial_function (option) index_advance_loop ::
  "('db, 'it) rocks_ops \<Rightarrow> ('d, 'z) decimal_ops_scheme \<Rightarrow> (bytes \<Rightarrow> json_path_selector list option) \<Rightarrow>
    ('it, 'd) index_iter \<Rightarrow> bool \<Rightarrow> (storage_error + ('it, 'd) index_iter) option" where
  "index_advance_loop R D jp self seek_next_header =
     (let it = (if i_first self then i_iter self else r_next R (i_iter self));
          self = self\<lparr>i_first := False, i_iter := it\<rparr> in
      if r_valid R it then
        Option.bind (r_key R it) (\<lambda>key.
        Option.bind (r_value R it) (\<lambda>value.
        Option.bind (index_step D jp (i_timestamp self) seek_next_header (i_tuple_buffer self) key value) (\<lambda>st.
          case st of
            Step_Continue seek tb \<Rightarrow> index_advance_loop R D jp (self\<lparr>i_tuple_buffer := tb\<rparr>) seek
          | Step_Emit tb freq \<Rightarrow> Some (Inr (self\<lparr>i_tuple_buffer := tb, i_freq := Some freq\<rparr>)))))
      else
        case r_status R it of
          Inl e \<Rightarrow> Some (Inl e)
        | Inr _ \<Rightarrow> Some (Inr (self\<lparr>i_freq := None\<rparr>)))"

definition index_advance ::
  "('db, 'it) rocks_ops \<Rightarrow> ('d, 'z) decimal_ops_scheme \<Rightarrow> (bytes \<Rightarrow> json_path_selector list option) \<Rightarrow>
    (('it, 'd) index_iter, storage_error) advance" where
  "index_advance R D jp self = index_advance_loop R D jp self True"

definition index_get :: "(('it, 'd) index_iter, 'd) getter" where
  "index_get self = (case i_freq self of Some freq \<Rightarrow> Some (i_tuple_buffer self, freq) | None \<Rightarrow> None)"

section \<open>The layout of keys and values\<close>

definition valid_row ::
  "('d, 'z) decimal_ops_scheme \<Rightarrow> (bytes \<Rightarrow> json_path_selector list option) \<Rightarrow> 'd datum list \<Rightarrow> bool" where
  "valid_row D jp xs \<longleftrightarrow> decimal_laws D \<and> list_all (valid_datum D jp) xs"

definition row_bytes :: "('d, 'z) decimal_ops_scheme \<Rightarrow> sort_order list \<Rightarrow> 'd datum list \<Rightarrow> bytes" where
  "row_bytes D sos xs = the (write_row D sos xs [])"

definition base_key :: "('d, 'z) decimal_ops_scheme \<Rightarrow> table \<Rightarrow> 'd datum list \<Rightarrow> bytes" where
  "base_key D t tuple =
     u32_to_be (t_id t) @ write_varint_unsigned (of_nat (length (t_pk t))) Asc [] @ row_bytes D (t_pk t) tuple"

definition payload :: "('d, 'z) decimal_ops_scheme \<Rightarrow> i64 \<Rightarrow> 'd datum list \<Rightarrow> bytes" where
  "payload D f rest = write_varint_signed f Asc [] @
     write_varint_unsigned (of_nat (length rest)) Asc [] @ row_bytes D (replicate (length rest) Asc) rest"

definition wf_table :: "table \<Rightarrow> bool" where
  "wf_table t \<longleftrightarrow> length (t_pk t) \<le> t_length t \<and> t_length t < 2 ^ 64 \<and> t_id t AND 1 = 0"

lemma valid_row_simps [simp]:
  "valid_row D jp (x # xs) \<longleftrightarrow> decimal_laws D \<and> valid_datum D jp x \<and> valid_row D jp xs"
  "valid_row D jp (xs @ ys) \<longleftrightarrow> valid_row D jp xs \<and> valid_row D jp ys"
  by (auto simp: valid_row_def)

lemma valid_row_take_drop: "valid_row D jp xs \<Longrightarrow> valid_row D jp (take n xs) \<and> valid_row D jp (drop n xs)"
  using valid_row_simps(2) [of D jp "take n xs" "drop n xs"] by simp

lemma valid_row_enc: "valid_row D jp xs \<Longrightarrow> list_all (\<lambda>d. decimal_laws D \<and> valid_datum D jp d) xs"
  by (simp add: valid_row_def list_all_iff)

lemma write_row_append: "valid_row D jp xs \<Longrightarrow> write_row D sos xs buf = Some (buf @ row_bytes D sos xs)"
  using write_row_eq [of D jp xs sos] datum_enc.write_tuple_append [OF valid_row_enc, of D jp xs sos buf]
  by (simp add: row_bytes_def valid_row_def)

lemma row_bytes_tuple:
  "valid_row D jp xs \<Longrightarrow> row_bytes D sos xs = Sortable.write_tuple (\<lambda>d so buf. the (as_sortable_bytes D d so buf)) sos xs []"
  using write_row_eq [of D jp xs sos "[]"] by (simp add: row_bytes_def valid_row_def)

lemma write_row_take: "write_row D sos xs buf = write_row D sos (take (length sos) xs) buf"
proof (induction sos arbitrary: xs buf)
  case Nil
  then show ?case by (cases xs) simp_all
next
  case (Cons so sos)
  show ?case
  proof (cases xs)
    case [simp]: (Cons x xs')
    show ?thesis using Cons.IH by (cases "as_sortable_bytes D x so buf") simp_all
  qed simp
qed

lemma row_bytes_take: "row_bytes D sos xs = row_bytes D sos (take (length sos) xs)"
  unfolding row_bytes_def by (subst write_row_take) simp

lemma tuple_before_tie: "tuple_before lt eqv sos xs ys False \<Longrightarrow> tuple_before lt eqv sos xs ys b"
  by (induction lt eqv sos xs ys b rule: tuple_before.induct) auto

lemma row_bytes_less:
  assumes "valid_row D jp xs" "valid_row D jp ys" "length sos \<le> length xs" "length sos \<le> length ys"
    "row_bytes D sos xs < row_bytes D sos ys"
  shows "row_bytes D sos xs @ r < row_bytes D sos ys @ s"
proof -
  let ?n = "length sos"
  let ?b = "tuple_before (datum_less D) (datum_eq D) sos (take ?n xs) (take ?n ys)"
  have v: "valid_row D jp (take ?n xs)" "valid_row D jp (take ?n ys)" using valid_row_take_drop assms by blast+
  note iff = datum_enc.tuple_less_iff [OF valid_row_enc [OF v(1)] valid_row_enc [OF v(2)], of sos]
  have eq: "row_bytes D sos xs = Sortable.write_tuple (\<lambda>d so buf. the (as_sortable_bytes D d so buf)) sos (take ?n xs) []"
    "row_bytes D sos ys = Sortable.write_tuple (\<lambda>d so buf. the (as_sortable_bytes D d so buf)) sos (take ?n ys) []"
    using row_bytes_tuple [OF v(1)] row_bytes_tuple [OF v(2)] row_bytes_take by metis+
  have "?b False" using iff [of "[]" "[]"] assms(3-5) eq by simp
  then have "?b (r < s)" by (rule tuple_before_tie)
  then show ?thesis using iff [of r s] assms(3,4) eq by simp
qed

lemma row_bytes_eq:
  assumes "valid_row D jp xs" "valid_row D jp ys" "length sos \<le> length xs" "length sos \<le> length ys"
  shows "row_bytes D sos xs @ r = row_bytes D sos ys @ s \<longleftrightarrow>
    list_all2 (datum_eq D) (take (length sos) xs) (take (length sos) ys) \<and> r = s"
proof -
  let ?n = "length sos"
  have v: "valid_row D jp (take ?n xs)" "valid_row D jp (take ?n ys)" using valid_row_take_drop assms by blast+
  show ?thesis
    using datum_enc.tuple_eq_iff [OF valid_row_enc [OF v(1)] valid_row_enc [OF v(2)], of sos r s]
      row_bytes_tuple [OF v(1), of sos] row_bytes_tuple [OF v(2), of sos] row_bytes_take [of D sos xs] row_bytes_take [of D sos ys] assms(3,4)
    by simp
qed

lemma base_key_less:
  assumes "valid_row D jp xs" "valid_row D jp ys" "length (t_pk t) \<le> length xs" "length (t_pk t) \<le> length ys"
    "base_key D t xs < base_key D t ys"
  shows "base_key D t xs @ r < base_key D t ys @ s"
  using assms(5) row_bytes_less [OF assms(1-4)] by (simp add: base_key_def)

lemma base_key_eq:
  assumes "valid_row D jp xs" "valid_row D jp ys" "length (t_pk t) \<le> length xs" "length (t_pk t) \<le> length ys"
  shows "base_key D t xs @ r = base_key D t ys @ s \<longleftrightarrow>
    list_all2 (datum_eq D) (take (length (t_pk t)) xs) (take (length (t_pk t)) ys) \<and> r = s"
  using row_bytes_eq [OF assms, of r s] by (simp add: base_key_def)

lemma write_range_key_eq:
  "valid_row D jp xs \<Longrightarrow> write_range_key D t xs e = Some (base_key D t xs @ [if e then 255 else 0])"
  using write_row_append [of D jp xs "t_pk t"] write_varint_unsigned_append [of _ Asc "u32_to_be (t_id t)"]
  by (simp add: write_range_key_def base_key_def)

lemma write_index_header_key_eq:
  "valid_row D jp xs \<Longrightarrow> length (t_pk t) \<le> length xs \<Longrightarrow> write_index_header_key D t xs = Some (base_key D t xs @ [0])"
  by (simp add: write_index_header_key_def write_range_key_eq)

lemma write_index_header_value_eq:
  assumes "valid_row D jp xs" "length (t_pk t) \<le> length xs"
  shows "write_index_header_value D t xs ts f = Some (le_bytes 8 (unat ts) @ payload D f (drop (length (t_pk t)) xs))"
proof -
  have "valid_row D jp (drop (length (t_pk t)) xs)" using valid_row_take_drop assms by blast
  note a = write_row_append [OF this]
  show ?thesis using assms(2)
    unfolding write_index_header_value_def Let_def write_varint_signed_append [of f Asc "le_bytes 8 (unat ts)"]
      write_varint_unsigned_append [of "of_nat (length (drop (length (t_pk t)) xs))" Asc "_ @ _"] a
    by (simp add: payload_def)
qed

section \<open>Reading records back\<close>

lemma row_bytes_Cons:
  assumes "valid_row D jp (x # xs)"
  shows "row_bytes D (so # sos) (x # xs) = the (as_sortable_bytes D x so []) @ row_bytes D sos xs"
proof -
  obtain bs where bs: "as_sortable_bytes D x so [] = Some bs"
    using as_sortable_bytes_eq [of D jp x so "[]"] assms by simp
  then show ?thesis using write_row_append [of D jp xs sos bs] assms by (simp add: row_bytes_def)
qed

lemma read_into_row:
  assumes "valid_row D jp xs" "length sos = length xs" "start + length xs \<le> length tb"
  shows "\<exists>ys. read_into D jp tb start (length xs) (row_bytes D sos xs @ r) =
      Some (take start tb @ ys @ drop (start + length xs) tb, r) \<and> list_all2 (datum_eq D) ys xs"
  using assms
proof (induction xs arbitrary: sos start tb)
  case Nil
  then show ?case by (simp add: row_bytes_def)
next
  case (Cons x xs)
  obtain so sos' where so: "sos = so # sos'" "length sos' = length xs" using Cons.prems(2) by (cases sos) auto
  have v: "decimal_laws D" "valid_datum D jp x" using Cons.prems(1) by auto
  obtain y where y: "from_sortable_bytes D jp (the (as_sortable_bytes D x so []) @ row_bytes D sos' xs @ r) =
      Some (y, row_bytes D sos' xs @ r)" "datum_eq D y x"
    using datum_enc.read_write [of D jp x so] v by blast
  let ?tb = "tb[start := y]"
  obtain ys where ys: "read_into D jp ?tb (start + 1) (length xs) (row_bytes D sos' xs @ r) =
      Some (take (start + 1) ?tb @ ys @ drop (start + 1 + length xs) ?tb, r)" "list_all2 (datum_eq D) ys xs"
    using Cons.IH [of sos' "start + 1" ?tb] Cons.prems so by auto
  have t: "take (start + 1) ?tb = take start tb @ [y]" using Cons.prems(3) by (simp add: take_Suc_conv_app_nth)
  have "read_into D jp tb start (length (x # xs)) (row_bytes D sos (x # xs) @ r) =
      Some (take start tb @ (y # ys) @ drop (start + length (x # xs)) tb, r)"
    using Cons.prems y(1) ys(1) t by (simp add: so row_bytes_Cons [OF Cons.prems(1)])
  then show ?case using y(2) ys(2) by (intro exI [of _ "y # ys"]) simp
qed

lemma read_write_unsigned_nat:
  assumes "n < 2 ^ 64"
  shows "read_varint_unsigned Asc (write_varint_unsigned (of_nat n) Asc [] @ r) = Some (of_nat n, r)" "unat (of_nat n :: u64) = n"
  using assms by (simp_all add: read_write_unsigned unat_of_nat)

text \<open>What one record of the scan does, from the stored version on.\<close>

definition version_step :: "bool \<Rightarrow> u64 \<Rightarrow> u64 \<Rightarrow> i64 \<Rightarrow> 'd datum list \<Rightarrow> 'd datum list \<Rightarrow> 'd index_step \<Rightarrow> bool" where
  "version_step seek T ts f tb full st \<longleftrightarrow>
     (if seek then st = Step_Continue True tb
      else if ts \<ge> T then st = Step_Continue False tb
      else if f = 0 then st = Step_Continue True tb
      else st = Step_Emit full f)"

lemma le_val_le_bytes_u64: "of_nat (le_val (le_bytes 8 (unat (w :: u64)))) = w"
  using unat_i64_less [of w] by (simp add: le_val_le_bytes)

lemma u64_of_be_complement: "- 1 - u64_of_be (u64_to_be (- 1 - w)) = w"
  by simp

lemma be_bytes_split: "be_bytes (m + n) v = be_bytes m (v div 256 ^ n) @ be_bytes n v"
  by (induction n arbitrary: v) (simp_all add: div_mult2_eq)

lemma first_byte_nonzero:
  assumes "2 ^ 56 \<le> unat (w :: u64)"
  shows "\<exists>b bs. u64_to_be w = b # bs \<and> b \<noteq> 0"
proof -
  have "u64_to_be w = be_bytes 1 (unat w div 256 ^ 7) @ be_bytes 7 (unat w)"
    using be_bytes_split [of 1 7 "unat w"] by (simp add: u64_to_be_def del: be_bytes.simps)
  moreover have "be_bytes 1 (unat w div 256 ^ 7) = [of_nat (unat w div 256 ^ 7)]" by simp
  moreover have "(of_nat (unat w div 256 ^ 7) :: u8) \<noteq> of_nat 0"
  proof -
    have "unat w div 256 ^ 7 < 256" using unat_i64_less [of w] by (simp add: less_mult_imp_div_less)
    moreover have "unat w div 256 ^ 7 \<noteq> 0" using assms by (simp add: div_eq_0_iff)
    ultimately show ?thesis using u8_of_nat_eq_iff [of "unat w div 256 ^ 7" 0] by simp
  qed
  ultimately show ?thesis by simp
qed

definition row_matches :: "('d, 'z) decimal_ops_scheme \<Rightarrow> 'd datum list \<Rightarrow> 'd datum list \<Rightarrow> bool" where
  "row_matches D = list_all2 (datum_eq D)"

lemma read_key:
  assumes t: "wf_table t" and v: "valid_row D jp tup" "length tup = t_length t" "length tb = t_length t"
  defines "n \<equiv> length (t_pk t)"
  shows "\<exists>h k. split_at 4 (base_key D t tup @ r) = Some (h, k) \<and>
    (\<exists>k'. read_varint_unsigned Asc k = Some (of_nat n, k') \<and>
    (\<exists>ys. read_into D jp tb 0 n k' = Some (ys @ drop n tb, r) \<and> row_matches D ys (take n tup)))"
proof -
  have n: "n < 2 ^ 64" "n \<le> length tup" using t v by (simp_all add: wf_table_def n_def)
  have vt: "valid_row D jp (take n tup)" using valid_row_take_drop [OF v(1)] by blast
  obtain ys where "read_into D jp tb 0 (length (take n tup)) (row_bytes D (t_pk t) (take n tup) @ r) =
      Some (take 0 tb @ ys @ drop (0 + length (take n tup)) tb, r)" "list_all2 (datum_eq D) ys (take n tup)"
    using read_into_row [OF vt, of "t_pk t" 0 tb r] n v by (auto simp: n_def)
  moreover have "row_bytes D (t_pk t) (take n tup) = row_bytes D (t_pk t) tup"
    unfolding n_def by (rule row_bytes_take [symmetric])
  ultimately show ?thesis
    using read_write_unsigned_nat(1) [OF n(1), of "row_bytes D (t_pk t) tup @ r"] n(2)
    by (simp add: base_key_def row_matches_def n_def)
qed

lemma read_payload:
  assumes "valid_row D jp rest" "length rest < 2 ^ 64" "n + length rest = length tb"
  shows "\<exists>p q. read_varint_signed Asc (payload D f rest @ r) = Some (f, p) \<and>
    read_varint_unsigned Asc p = Some (of_nat (length rest), q) \<and>
    (\<exists>zs. read_into D jp tb n (length rest) q = Some (take n tb @ zs, r) \<and> row_matches D zs rest)"
proof -
  obtain zs where "read_into D jp tb n (length rest) (row_bytes D (replicate (length rest) Asc) rest @ r) =
      Some (take n tb @ zs @ drop (n + length rest) tb, r)" "list_all2 (datum_eq D) zs rest"
    using read_into_row [OF assms(1), of "replicate (length rest) Asc" n tb r] assms(3) by auto
  then show ?thesis using read_write_unsigned_nat(1) [OF assms(2)] assms(3)
    by (simp add: payload_def read_write_signed row_matches_def)
qed

lemma index_step_entry:
  assumes t: "wf_table t" and v: "valid_row D jp tup" "length tup = t_length t" "length tb = t_length t"
    and rest: "valid_row D jp rest" "length rest = t_length t - length (t_pk t)"
    and ts: "unat ts < 255 * 2 ^ 56"
  defines "n \<equiv> length (t_pk t)"
  shows "\<exists>tb' full st. length tb' = t_length t \<and> row_matches D full (take n tup @ rest) \<and>
    index_step D jp T seek tb (base_key D t tup @ [0]) (le_bytes 8 (unat ts) @ payload D f rest) = Some st \<and>
    version_step False T ts f tb' full st"
   and "\<exists>tb' full st. length tb' = t_length t \<and> row_matches D full (take n tup @ rest) \<and>
    index_step D jp T seek tb (base_key D t tup @ u64_to_be (- 1 - ts)) (payload D f rest) = Some st \<and>
    version_step seek T ts f tb' full st"
proof -
  have lr: "length rest < 2 ^ 64" using t rest(2) unfolding wf_table_def by linarith
  have n: "n < 2 ^ 64" "n \<le> length tup" "unat (of_nat n :: u64) = n" "unat (of_nat (length rest) :: u64) = length rest"
    "length rest < 2 ^ 64"
    using t v(2) lr unfolding wf_table_def n_def by (simp_all add: unat_of_nat)
  have key: "\<exists>h k k' ys. split_at 4 (base_key D t tup @ r) = Some (h, k) \<and>
      read_varint_unsigned Asc k = Some (of_nat n, k') \<and>
      read_into D jp tb 0 n k' = Some (ys @ drop n tb, r) \<and> row_matches D ys (take n tup)" for r
    using read_key [OF t v, of r] unfolding n_def by blast
  have len: "length (ys @ drop n tb) = t_length t" if "row_matches D ys (take n tup)" for ys
    using that n v by (simp add: row_matches_def list_all2_lengthD)
  have pay: "\<exists>p q zs. read_varint_signed Asc (payload D f rest) = Some (f, p) \<and>
      read_varint_unsigned Asc p = Some (of_nat (length rest), q) \<and>
      read_into D jp (ys @ drop n tb) n (length rest) q = Some (ys @ zs, []) \<and>
      row_matches D (ys @ zs) (take n tup @ rest)" if m: "row_matches D ys (take n tup)" for ys
  proof -
    have ln: "length ys = n" using m n by (simp add: row_matches_def list_all2_lengthD)
    have "n + length rest = length (ys @ drop n tb)" using len [OF m] rest n v by (simp add: n_def)
    from read_payload [OF rest(1) n(5) this, of f "[]"] show ?thesis
      using m ln by (fastforce simp: row_matches_def list_all2_appendI)
  qed
  show "\<exists>tb' full st. length tb' = t_length t \<and> row_matches D full (take n tup @ rest) \<and>
    index_step D jp T seek tb (base_key D t tup @ [0]) (le_bytes 8 (unat ts) @ payload D f rest) = Some st \<and>
    version_step False T ts f tb' full st"
  proof -
    obtain h k k' ys where k: "split_at 4 (base_key D t tup @ [0]) = Some (h, k)"
      "read_varint_unsigned Asc k = Some (of_nat n, k')" "read_into D jp tb 0 n k' = Some (ys @ drop n tb, [0])"
      "row_matches D ys (take n tup)" using key [of "[0]"] by blast
    obtain p q zs where p: "read_varint_signed Asc (payload D f rest) = Some (f, p)"
      "read_varint_unsigned Asc p = Some (of_nat (length rest), q)"
      "read_into D jp (ys @ drop n tb) n (length rest) q = Some (ys @ zs, [])"
      "row_matches D (ys @ zs) (take n tup @ rest)" using pay [OF k(4)] by blast
    show ?thesis
      using k p n len [OF k(4)] le_val_le_bytes_u64 [of ts]
      by (intro exI [of _ "ys @ drop n tb"] exI [of _ "ys @ zs"])
        (simp add: index_step_def version_step_def)
  qed
  show "\<exists>tb' full st. length tb' = t_length t \<and> row_matches D full (take n tup @ rest) \<and>
    index_step D jp T seek tb (base_key D t tup @ u64_to_be (- 1 - ts)) (payload D f rest) = Some st \<and>
    version_step seek T ts f tb' full st"
  proof -
    let ?w = "u64_to_be (- 1 - ts)"
    obtain h k k' ys where k: "split_at 4 (base_key D t tup @ ?w) = Some (h, k)"
      "read_varint_unsigned Asc k = Some (of_nat n, k')" "read_into D jp tb 0 n k' = Some (ys @ drop n tb, ?w)"
      "row_matches D ys (take n tup)" using key [of ?w] by blast
    obtain p q zs where p: "read_varint_signed Asc (payload D f rest) = Some (f, p)"
      "read_varint_unsigned Asc p = Some (of_nat (length rest), q)"
      "read_into D jp (ys @ drop n tb) n (length rest) q = Some (ys @ zs, [])"
      "row_matches D (ys @ zs) (take n tup @ rest)" using pay [OF k(4)] by blast
    have "- 1 - ts = NOT ts" by (simp add: not_eq_complement algebra_simps)
    then have "unat (- 1 - ts) = 2 ^ 64 - 1 - unat ts" using unat_NOT [of ts] by simp
    then have "2 ^ 56 \<le> unat (- 1 - ts)" using ts by simp
    then obtain b bs where b: "?w = b # bs" "b \<noteq> 0" using first_byte_nonzero by blast
    moreover have "split_at 8 (b # bs) = Some (?w, [])" using split_at_append [OF length_to_be(3), of "- 1 - ts" "[]"] unfolding b(1) by simp
    ultimately show ?thesis
      using k p n len [OF k(4)] u64_be_inverse [of "- 1 - ts"]
      by (intro exI [of _ "ys @ drop n tb"] exI [of _ "ys @ zs"])
        (simp add: index_step_def version_step_def)
  qed
qed

end
