(* ===== verification/Table_Mvcc.thy ===== *)
theory Table_Mvcc
  imports Table_Store
begin

text \<open>
  Correctness of the multi version tables of \<open>storage/src/table.rs\<close>.  The abstract state of a
  table is a history: for every key the versions written, newest first.  \<open>table_repr\<close> relates it
  to the records in the database, \<open>push_version\<close> is the effect of a write on it, and
  \<open>visible\<close> the version a scan as of a timestamp sees.  The writer and the scan are proved to
  implement these, and together to return the state of the table as of a timestamp.  The last
  part covers system tables and the range scans.
\<close>

section \<open>Versions and the scan over a list of records\<close>

type_synonym 'd version = "u64 \<times> i64 \<times> 'd datum list"

definition history_entry :: "('d, 'z) decimal_ops_scheme \<Rightarrow> bytes \<Rightarrow> 'd version \<Rightarrow> bytes \<times> bytes" where
  "history_entry D B v = (case v of (ts, f, r) \<Rightarrow> (B @ u64_to_be (- 1 - ts), payload D f r))"

definition header_entry :: "('d, 'z) decimal_ops_scheme \<Rightarrow> bytes \<Rightarrow> 'd version \<Rightarrow> bytes \<times> bytes" where
  "header_entry D B v = (case v of (ts, f, r) \<Rightarrow> (B @ [0], le_bytes 8 (unat ts) @ payload D f r))"

text \<open>The records of one key, newest version first: the newest is the header.\<close>

fun entries :: "('d, 'z) decimal_ops_scheme \<Rightarrow> bytes \<Rightarrow> 'd version list \<Rightarrow> (bytes \<times> bytes) list" where
  "entries D B [] = []"
| "entries D B (v # vs) = header_entry D B v # map (history_entry D B) vs"

definition visible :: "u64 \<Rightarrow> 'd version list \<Rightarrow> 'd version option" where
  "visible T vs = (case find (\<lambda>v. fst v < T) vs of None \<Rightarrow> None | Some (ts, f, r) \<Rightarrow> if f = 0 then None else Some (ts, f, r))"

lemma visible_Cons:
  "visible T ((ts, f, r) # vs) = (if ts < T then if f = 0 then None else Some (ts, f, r) else visible T vs)"
  by (simp add: visible_def)

lemma visible_Nil [simp]: "visible T [] = None"
  by (simp add: visible_def)

fun list_advance ::
  "('d, 'z) decimal_ops_scheme \<Rightarrow> (bytes \<Rightarrow> json_path_selector list option) \<Rightarrow> u64 \<Rightarrow> bool \<Rightarrow> 'd datum list \<Rightarrow>
    (bytes \<times> bytes) list \<Rightarrow> ('d datum list \<times> (i64 \<times> (bytes \<times> bytes) list) option) option" where
  "list_advance D jp T seek tb [] = Some (tb, None)"
| "list_advance D jp T seek tb ((k, v) # xs) =
     (case index_step D jp T seek tb k v of
        None \<Rightarrow> None
      | Some (Step_Continue seek' tb') \<Rightarrow> list_advance D jp T seek' tb' xs
      | Some (Step_Emit tb' f) \<Rightarrow> Some (tb', Some (f, xs)))"

text \<open>What the iterator has not visited yet.\<close>

definition pending :: "('it \<Rightarrow> (bytes \<times> bytes) list) \<Rightarrow> ('it, 'd) index_iter \<Rightarrow> (bytes \<times> bytes) list \<Rightarrow> bool" where
  "pending rest self xs \<longleftrightarrow>
     (if i_first self then rest (i_iter self) = xs else \<exists>x. rest (i_iter self) = x # xs)"

lemma pending_next:
  assumes "rocks_laws R contents rest" "pending rest self xs"
  shows "rest (if i_first self then i_iter self else r_next R (i_iter self)) = xs"
  using assms rocks_iter [OF assms(1)] by (auto simp: pending_def)

lemma index_advance_loop_list:
  assumes laws: "rocks_laws R contents rest"
  shows "pending rest self xs \<Longrightarrow> list_advance D jp (i_timestamp self) seek (i_tuple_buffer self) xs = Some (tb, res) \<Longrightarrow>
    \<exists>self'. index_advance_loop R D jp self seek = Some (Inr self') \<and> i_tuple_buffer self' = tb \<and>
      i_timestamp self' = i_timestamp self \<and> i_freq self' = map_option fst res \<and>
      (\<forall>f xs'. res = Some (f, xs') \<longrightarrow> pending rest self' xs')"
proof (induction xs arbitrary: self seek)
  case Nil
  let ?it = "if i_first self then i_iter self else r_next R (i_iter self)"
  have "rest ?it = []" using pending_next [OF laws Nil.prems(1)] .
  then have "\<not> r_valid R ?it" using rocks_valid [OF laws] by simp
  then show ?case using Nil.prems(2) rocks_status [OF laws, of ?it]
    by (subst index_advance_loop.simps) (auto simp: Let_def)
next
  case (Cons x xs)
  obtain k v where x: "x = (k, v)" by (cases x)
  define it where "it = (if i_first self then i_iter self else r_next R (i_iter self))"
  have r: "rest it = (k, v) # xs" using pending_next [OF laws Cons.prems(1)] by (simp add: it_def x)
  then have it: "r_valid R it" "r_key R it = Some k" "r_value R it = Some v"
    using rocks_valid [OF laws] rocks_iter [OF laws r] by simp_all
  define self1 where "self1 = self\<lparr>i_first := False, i_iter := it\<rparr>"
  have p: "pending rest (self1\<lparr>i_tuple_buffer := tb'\<rparr>) xs" for tb' using r by (simp add: pending_def self1_def)
  have loop: "index_advance_loop R D jp self seek =
      Option.bind (index_step D jp (i_timestamp self) seek (i_tuple_buffer self) k v) (\<lambda>st.
        case st of Step_Continue seek tb \<Rightarrow> index_advance_loop R D jp (self1\<lparr>i_tuple_buffer := tb\<rparr>) seek
        | Step_Emit tb freq \<Rightarrow> Some (Inr (self1\<lparr>i_tuple_buffer := tb, i_freq := Some freq\<rparr>)))"
    using it by (subst index_advance_loop.simps) (simp add: Let_def self1_def it_def)
  from Cons.prems(2) obtain st where st: "index_step D jp (i_timestamp self) seek (i_tuple_buffer self) k v = Some st"
    by (auto simp: x split: option.splits)
  show ?case
  proof (cases st)
    case (Step_Continue seek' tb')
    then have "list_advance D jp (i_timestamp (self1\<lparr>i_tuple_buffer := tb'\<rparr>)) seek'
        (i_tuple_buffer (self1\<lparr>i_tuple_buffer := tb'\<rparr>)) xs = Some (tb, res)"
      using Cons.prems(2) st by (simp add: x self1_def)
    from Cons.IH [OF p this] show ?thesis by (simp add: loop st Step_Continue self1_def)
  next
    case (Step_Emit tb' f)
    then have "tb = tb'" "res = Some (f, xs)" using Cons.prems(2) st by (simp_all add: x)
    then show ?thesis using r by (simp add: loop st Step_Emit self1_def pending_def)
  qed
qed

inductive list_yields ::
  "('d, 'z) decimal_ops_scheme \<Rightarrow> (bytes \<Rightarrow> json_path_selector list option) \<Rightarrow> u64 \<Rightarrow> 'd datum list \<Rightarrow>
    (bytes \<times> bytes) list \<Rightarrow> 'd row list \<Rightarrow> bool" for D jp T where
  list_end: "list_advance D jp T True tb xs = Some (tb', None) \<Longrightarrow> list_yields D jp T tb xs []"
| list_row: "list_advance D jp T True tb xs = Some (tb', Some (f, xs')) \<Longrightarrow> list_yields D jp T tb' xs' rs \<Longrightarrow>
    list_yields D jp T tb xs ((tb', f) # rs)"

lemma list_yields_index:
  assumes laws: "rocks_laws R contents rest"
  shows "list_yields D jp T tb xs rs \<Longrightarrow> pending rest self xs \<Longrightarrow> i_tuple_buffer self = tb \<Longrightarrow> i_timestamp self = T \<Longrightarrow>
    yields (index_advance R D jp) index_get self rs"
proof (induction arbitrary: self rule: list_yields.induct)
  case (list_end tb xs tb')
  then obtain self' where s: "index_advance R D jp self = Some (Inr self')" "i_freq self' = None"
    using index_advance_loop_list [OF laws, of self xs D jp True tb' None] by (auto simp: index_advance_def)
  show ?case by (rule yields_end [where s' = self']) (simp_all add: index_get_def s)
next
  case (list_row tb xs tb' f xs' rs)
  then obtain self' where s: "index_advance R D jp self = Some (Inr self')" "i_freq self' = Some f"
    "i_tuple_buffer self' = tb'" "i_timestamp self' = T" "pending rest self' xs'"
    using index_advance_loop_list [OF laws, of self xs D jp True tb' "Some (f, xs')"] by (auto simp: index_advance_def)
  show ?case by (rule yields_row [where s' = self']) (rule s(1), simp add: index_get_def s, rule list_row.IH [OF s(5,3,4)])
qed

section \<open>The rows a scan emits\<close>

definition valid_version ::
  "('d, 'z) decimal_ops_scheme \<Rightarrow> (bytes \<Rightarrow> json_path_selector list option) \<Rightarrow> table \<Rightarrow> 'd version \<Rightarrow> bool" where
  "valid_version D jp t v = (case v of (ts, f, r) \<Rightarrow>
     valid_row D jp r \<and> length r = t_length t - length (t_pk t) \<and> unat ts < 255 * 2 ^ 56)"

definition valid_tuple ::
  "('d, 'z) decimal_ops_scheme \<Rightarrow> (bytes \<Rightarrow> json_path_selector list option) \<Rightarrow> table \<Rightarrow> 'd datum list \<Rightarrow> bool" where
  "valid_tuple D jp t tup \<longleftrightarrow> valid_row D jp tup \<and> length tup = t_length t"

text \<open>The records of a list of keys, each with its versions.\<close>

definition all_entries ::
  "('d, 'z) decimal_ops_scheme \<Rightarrow> table \<Rightarrow> ('d datum list \<times> 'd version list) list \<Rightarrow> (bytes \<times> bytes) list" where
  "all_entries D t gs = concat (map (\<lambda>(tup, vs). entries D (base_key D t tup) vs) gs)"

definition valid_group ::
  "('d, 'z) decimal_ops_scheme \<Rightarrow> (bytes \<Rightarrow> json_path_selector list option) \<Rightarrow> table \<Rightarrow> 'd datum list \<times> 'd version list \<Rightarrow> bool" where
  "valid_group D jp t g = (case g of (tup, vs) \<Rightarrow> valid_tuple D jp t tup \<and> vs \<noteq> [] \<and> list_all (valid_version D jp t) vs)"

definition visible_rows :: "table \<Rightarrow> u64 \<Rightarrow> ('d datum list \<times> 'd version list) list \<Rightarrow> 'd row list" where
  "visible_rows t T gs = concat (map (\<lambda>(tup, vs). case visible T vs of None \<Rightarrow> []
     | Some (ts, f, r) \<Rightarrow> [(take (length (t_pk t)) tup @ r, f)]) gs)"

definition rows_match :: "('d, 'z) decimal_ops_scheme \<Rightarrow> 'd row list \<Rightarrow> 'd row list \<Rightarrow> bool" where
  "rows_match D = list_all2 (\<lambda>(x, f) (y, g). row_matches D x y \<and> f = g)"

lemma entry_steps:
  assumes "wf_table t" "valid_tuple D jp t tup" "valid_version D jp t (ts, f, r)" "length tb = t_length t"
  shows "\<exists>tb' full st. length tb' = t_length t \<and> row_matches D full (take (length (t_pk t)) tup @ r) \<and> length full = t_length t \<and>
      index_step D jp T seek tb (fst (header_entry D (base_key D t tup) (ts, f, r))) (snd (header_entry D (base_key D t tup) (ts, f, r))) = Some st \<and>
      version_step False T ts f tb' full st"
    and "\<exists>tb' full st. length tb' = t_length t \<and> row_matches D full (take (length (t_pk t)) tup @ r) \<and> length full = t_length t \<and>
      index_step D jp T seek tb (fst (history_entry D (base_key D t tup) (ts, f, r))) (snd (history_entry D (base_key D t tup) (ts, f, r))) = Some st \<and>
      version_step seek T ts f tb' full st"
proof -
  have v: "valid_row D jp tup" "length tup = t_length t" "valid_row D jp r" "length r = t_length t - length (t_pk t)"
    "unat ts < 255 * 2 ^ 56" using assms(2,3) by (simp_all add: valid_tuple_def valid_version_def)
  have l: "length full = t_length t" if "row_matches D full (take (length (t_pk t)) tup @ r)" for full
    using list_all2_lengthD [OF that [unfolded row_matches_def]] v assms(1) by (simp add: wf_table_def)
  note s = index_step_entry [OF assms(1) v(1,2) assms(4) v(3,4,5), of T seek f]
  show "\<exists>tb' full st. length tb' = t_length t \<and> row_matches D full (take (length (t_pk t)) tup @ r) \<and> length full = t_length t \<and>
      index_step D jp T seek tb (fst (header_entry D (base_key D t tup) (ts, f, r))) (snd (header_entry D (base_key D t tup) (ts, f, r))) = Some st \<and>
      version_step False T ts f tb' full st"
    using s(1) l unfolding header_entry_def by (simp only: prod.case fst_conv snd_conv) blast
  show "\<exists>tb' full st. length tb' = t_length t \<and> row_matches D full (take (length (t_pk t)) tup @ r) \<and> length full = t_length t \<and>
      index_step D jp T seek tb (fst (history_entry D (base_key D t tup) (ts, f, r))) (snd (history_entry D (base_key D t tup) (ts, f, r))) = Some st \<and>
      version_step seek T ts f tb' full st"
    using s(2) l unfolding history_entry_def by (simp only: prod.case fst_conv snd_conv) blast
qed

lemma list_advance_Cons:
  "list_advance D jp T seek tb (x # xs) =
     (case index_step D jp T seek tb (fst x) (snd x) of
        None \<Rightarrow> None
      | Some (Step_Continue seek' tb') \<Rightarrow> list_advance D jp T seek' tb' xs
      | Some (Step_Emit tb' f) \<Rightarrow> Some (tb', Some (f, xs)))"
  by (cases x) simp

text \<open>Records of a key whose row has been decided are skipped.\<close>

lemma skip_history:
  assumes "wf_table t" "valid_tuple D jp t tup"
  shows "list_all (valid_version D jp t) ws \<Longrightarrow> length tb = t_length t \<Longrightarrow>
    \<exists>tb'. length tb' = t_length t \<and>
      list_advance D jp T True tb (map (history_entry D (base_key D t tup)) ws @ E) = list_advance D jp T True tb' E"
proof (induction ws arbitrary: tb)
  case Nil
  then show ?case by auto
next
  case (Cons w ws)
  obtain ts f r where w: "w = (ts, f, r)" by (cases w)
  obtain tb' where "length tb' = t_length t" "index_step D jp T True tb (fst (history_entry D (base_key D t tup) w))
      (snd (history_entry D (base_key D t tup) w)) = Some (Step_Continue True tb')"
    using entry_steps(2) [OF assms, of ts f r tb T True] Cons.prems by (auto simp: w version_step_def)
  then show ?case using Cons.IH [of tb'] Cons.prems by (simp add: list_advance_Cons)
qed

text \<open>Records visited while the versions seen so far are too new.\<close>

lemma seek_history:
  assumes "wf_table t" "valid_tuple D jp t tup"
  shows "list_all (valid_version D jp t) ws \<Longrightarrow> length tb = t_length t \<Longrightarrow>
    \<exists>tb'. length tb' = t_length t \<and>
      (case visible T ws of
         None \<Rightarrow> \<exists>seek. list_advance D jp T False tb (map (history_entry D (base_key D t tup)) ws @ E) = list_advance D jp T seek tb' E
       | Some (ts, f, r) \<Rightarrow> \<exists>ws'. list_all (valid_version D jp t) ws' \<and> row_matches D tb' (take (length (t_pk t)) tup @ r) \<and>
           list_advance D jp T False tb (map (history_entry D (base_key D t tup)) ws @ E) =
             Some (tb', Some (f, map (history_entry D (base_key D t tup)) ws' @ E)))"
proof (induction ws arbitrary: tb)
  case Nil
  then show ?case by auto
next
  case (Cons w ws)
  obtain ts f r where w: "w = (ts, f, r)" by (cases w)
  obtain tb' full st where st: "length tb' = t_length t" "row_matches D full (take (length (t_pk t)) tup @ r)" "length full = t_length t"
      "index_step D jp T False tb (fst (history_entry D (base_key D t tup) w)) (snd (history_entry D (base_key D t tup) w)) = Some st"
      "version_step False T ts f tb' full st"
    using entry_steps(2) [OF assms, of ts f r tb T False] Cons.prems unfolding w by auto
  show ?case
  proof (cases "ts < T")
    case False
    then have "st = Step_Continue False tb'" using st(5) by (simp add: version_step_def)
    then have eq: "list_advance D jp T False tb (map (history_entry D (base_key D t tup)) (w # ws) @ E) =
        list_advance D jp T False tb' (map (history_entry D (base_key D t tup)) ws @ E)"
      using st(4) by (simp add: list_advance_Cons)
    have "visible T (w # ws) = visible T ws" using False by (simp add: w visible_Cons)
    then show ?thesis unfolding eq using Cons.IH [of tb'] Cons.prems st(1) by simp
  next
    case True
    show ?thesis
    proof (cases "f = 0")
      case f0: True
      then have "st = Step_Continue True tb'" using st(5) True by (simp add: version_step_def not_le)
      then show ?thesis
        using skip_history [OF assms, of ws tb' T E] Cons.prems st True f0
        by (auto simp: w list_advance_Cons visible_Cons)
    next
      case f: False
      then have "st = Step_Emit full f" using st(5) True by (simp add: version_step_def not_le)
      then show ?thesis using Cons.prems st True f
        by (intro exI [of _ full]) (auto simp: w list_advance_Cons visible_Cons)
    qed
  qed
qed

lemma valid_group_pair:
  "valid_group D jp t (tup, vs) \<longleftrightarrow> valid_tuple D jp t tup \<and> vs \<noteq> [] \<and> list_all (valid_version D jp t) vs"
  by (simp add: valid_group_def)

lemma all_entries_simps [simp]:
  "all_entries D t [] = []"
  "all_entries D t ((tup, vs) # gs) = entries D (base_key D t tup) vs @ all_entries D t gs"
  by (simp_all add: all_entries_def)

lemma visible_rows_simps [simp]:
  "visible_rows t T [] = []"
  "visible_rows t T ((tup, vs) # gs) = (case visible T vs of None \<Rightarrow> []
     | Some (ts, f, r) \<Rightarrow> [(take (length (t_pk t)) tup @ r, f)]) @ visible_rows t T gs"
  by (simp_all add: visible_rows_def)

definition advance_result ::
  "('d, 'z) decimal_ops_scheme \<Rightarrow> (bytes \<Rightarrow> json_path_selector list option) \<Rightarrow> table \<Rightarrow> u64 \<Rightarrow>
    ('d datum list \<times> 'd version list) list \<Rightarrow> 'd datum list \<times> (i64 \<times> (bytes \<times> bytes) list) option \<Rightarrow> bool" where
  "advance_result D jp t T gs res \<longleftrightarrow>
     (snd res = None \<and> visible_rows t T gs = [] \<or>
      (\<exists>tup ws gs' x f. snd res = Some (f, map (history_entry D (base_key D t tup)) ws @ all_entries D t gs') \<and>
         visible_rows t T gs = (x, f) # visible_rows t T gs' \<and> row_matches D (fst res) x \<and> length (fst res) = t_length t \<and>
         valid_tuple D jp t tup \<and> list_all (valid_version D jp t) ws \<and> list_all (valid_group D jp t) gs' \<and>
         length gs' < length gs))"

lemma advance_result_Cons:
  assumes "advance_result D jp t T gs res" "visible T vs = None"
  shows "advance_result D jp t T ((tup, vs) # gs) res"
  using assms unfolding advance_result_def by (simp, meson less_SucI)

lemma advance_result_emit:
  assumes "visible T vs = Some (ts, f, r)" "row_matches D full (take (length (t_pk t)) tup @ r)" "length full = t_length t"
    "valid_tuple D jp t tup" "list_all (valid_version D jp t) ws" "list_all (valid_group D jp t) gs"
  shows "advance_result D jp t T ((tup, vs) # gs) (full, Some (f, map (history_entry D (base_key D t tup)) ws @ all_entries D t gs))"
  using assms unfolding advance_result_def by auto

lemma list_advance_groups:
  assumes wf: "wf_table t"
  shows "list_all (valid_group D jp t) gs \<Longrightarrow> length tb = t_length t \<Longrightarrow>
    \<exists>res. list_advance D jp T seek tb (all_entries D t gs) = Some res \<and> advance_result D jp t T gs res"
proof (induction gs arbitrary: tb seek)
  case Nil
  then show ?case by (simp add: advance_result_def)
next
  case (Cons g gs)
  obtain tup vs0 where g: "g = (tup, vs0)" by (cases g)
  then obtain ts f r vs where vs0: "vs0 = (ts, f, r) # vs" using Cons.prems(1) by (cases vs0) (auto simp: valid_group_pair)
  have tup: "valid_tuple D jp t tup" and v: "valid_version D jp t (ts, f, r)" and vs: "list_all (valid_version D jp t) vs"
    and gs: "list_all (valid_group D jp t) gs"
    using Cons.prems(1) by (simp_all add: g vs0 valid_group_pair)
  let ?h = "history_entry D (base_key D t tup)" and ?E = "all_entries D t gs"
  obtain tb' full st where st: "length tb' = t_length t" "row_matches D full (take (length (t_pk t)) tup @ r)" "length full = t_length t"
      "index_step D jp T seek tb (fst (header_entry D (base_key D t tup) (ts, f, r))) (snd (header_entry D (base_key D t tup) (ts, f, r))) = Some st"
      "version_step False T ts f tb' full st"
    using entry_steps(1) [OF wf tup v Cons.prems(2)] by blast
  have adv: "list_advance D jp T seek tb (entries D (base_key D t tup) vs0 @ ?E) =
      (case st of Step_Continue seek' tb' \<Rightarrow> list_advance D jp T seek' tb' (map ?h vs @ ?E)
       | Step_Emit tb' f \<Rightarrow> Some (tb', Some (f, map ?h vs @ ?E)))"
    using st(4) by (simp add: vs0 list_advance_Cons)
  consider (new) "\<not> ts < T" | (zero) "ts < T" "f = 0" | (emit) "ts < T" "f \<noteq> 0" by blast
  then show ?case
  proof cases
    case new
    then have vis: "visible T vs0 = visible T vs" and s: "st = Step_Continue False tb'"
      using st(5) by (simp_all add: vs0 visible_Cons version_step_def)
    obtain tb'' where tb'': "length tb'' = t_length t"
      "case visible T vs of
         None \<Rightarrow> \<exists>seek. list_advance D jp T False tb' (map ?h vs @ ?E) = list_advance D jp T seek tb'' ?E
       | Some (ts, f, r) \<Rightarrow> \<exists>ws'. list_all (valid_version D jp t) ws' \<and> row_matches D tb'' (take (length (t_pk t)) tup @ r) \<and>
           list_advance D jp T False tb' (map ?h vs @ ?E) = Some (tb'', Some (f, map ?h ws' @ ?E))"
      using seek_history [OF wf tup vs st(1), of T ?E] by blast
    show ?thesis
    proof (cases "visible T vs")
      case None
      then obtain seek' where "list_advance D jp T False tb' (map ?h vs @ ?E) = list_advance D jp T seek' tb'' ?E"
        using tb''(2) by auto
      then show ?thesis using Cons.IH [OF gs tb''(1), of seek'] advance_result_Cons [of D jp t T gs _ vs0 tup] vis None
        by (auto simp: adv s g)
    next
      case (Some u)
      obtain ts' f' r' where u: "u = (ts', f', r')" by (cases u)
      obtain ws' where "list_all (valid_version D jp t) ws'" "row_matches D tb'' (take (length (t_pk t)) tup @ r')"
        "list_advance D jp T False tb' (map ?h vs @ ?E) = Some (tb'', Some (f', map ?h ws' @ ?E))"
        using tb''(2) by (auto simp: Some u)
      then show ?thesis using advance_result_emit [of T vs0 ts' f' r' D tb'' t tup jp ws' gs] vis Some tb''(1) tup gs
        by (auto simp: adv s g u)
    qed
  next
    case zero
    then have vis: "visible T vs0 = None" and s: "st = Step_Continue True tb'"
      using st(5) by (simp_all add: vs0 visible_Cons version_step_def not_le)
    obtain tb'' where "length tb'' = t_length t"
      "list_advance D jp T True tb' (map ?h vs @ ?E) = list_advance D jp T True tb'' ?E"
      using skip_history [OF wf tup vs st(1), of T ?E] by blast
    then show ?thesis using Cons.IH [OF gs, of tb'' True] advance_result_Cons [of D jp t T gs _ vs0 tup] vis
      by (auto simp: adv s g)
  next
    case emit
    then have vis: "visible T vs0 = Some (ts, f, r)" and s: "st = Step_Emit full f"
      using st(5) by (simp_all add: vs0 visible_Cons version_step_def not_le)
    then show ?thesis using advance_result_emit [OF vis st(2,3) tup vs gs] by (simp add: adv s g)
  qed
qed

lemma list_yields_groups:
  assumes wf: "wf_table t"
  shows "list_all (valid_group D jp t) gs \<Longrightarrow> valid_tuple D jp t tup \<Longrightarrow> list_all (valid_version D jp t) ws \<Longrightarrow>
    length tb = t_length t \<Longrightarrow>
    \<exists>rows. list_yields D jp T tb (map (history_entry D (base_key D t tup)) ws @ all_entries D t gs) rows \<and>
      rows_match D rows (visible_rows t T gs)"
proof (induction "length gs" arbitrary: gs tup ws tb rule: less_induct)
  case less
  obtain tb1 where tb1: "length tb1 = t_length t"
    "list_advance D jp T True tb (map (history_entry D (base_key D t tup)) ws @ all_entries D t gs) =
     list_advance D jp T True tb1 (all_entries D t gs)"
    using skip_history [OF wf less.prems(2,3,4)] by blast
  obtain tb2 res where res: "list_advance D jp T True tb1 (all_entries D t gs) = Some (tb2, res)"
    "advance_result D jp t T gs (tb2, res)"
    using list_advance_groups [OF wf less.prems(1) tb1(1), of T True] by fastforce
  consider "res = None" "visible_rows t T gs = []"
    | tup' ws' gs' x f where "res = Some (f, map (history_entry D (base_key D t tup')) ws' @ all_entries D t gs')"
      "visible_rows t T gs = (x, f) # visible_rows t T gs'" "row_matches D tb2 x" "length tb2 = t_length t"
      "valid_tuple D jp t tup'" "list_all (valid_version D jp t) ws'" "list_all (valid_group D jp t) gs'"
      "length gs' < length gs"
    using res(2) unfolding advance_result_def by auto
  then show ?case
  proof cases
    case 1
    then show ?thesis using list_end [of D jp T tb] tb1 res(1) by (intro exI [of _ "[]"]) (simp add: rows_match_def)
  next
    case 2
    obtain rows where rows: "list_yields D jp T tb2 (map (history_entry D (base_key D t tup')) ws' @ all_entries D t gs') rows"
      "rows_match D rows (visible_rows t T gs')" using less.hyps [OF 2(8) 2(7,5,6,4)] by blast
    have "list_yields D jp T tb (map (history_entry D (base_key D t tup)) ws @ all_entries D t gs) ((tb2, f) # rows)"
      by (rule list_row [OF _ rows(1)]) (simp add: tb1(2) res(1) 2(1))
    then show ?thesis using rows(2) 2(2,3) by (intro exI [of _ "(tb2, f) # rows"]) (simp add: rows_match_def)
  qed
qed

section \<open>The history of a table and its records\<close>

definition in_table :: "table \<Rightarrow> bytes \<Rightarrow> bool" where
  "in_table t k \<longleftrightarrow> take 4 k = u32_to_be (t_id t)"

definition is_base ::
  "('d, 'z) decimal_ops_scheme \<Rightarrow> (bytes \<Rightarrow> json_path_selector list option) \<Rightarrow> table \<Rightarrow> bytes \<Rightarrow> bool" where
  "is_base D jp t B \<longleftrightarrow> (\<exists>tup. valid_tuple D jp t tup \<and> B = base_key D t tup)"

text \<open>The multi version state of a table, by key: the versions, newest first.\<close>

type_synonym 'd history = "bytes \<Rightarrow> 'd version list"

definition valid_history ::
  "('d, 'z) decimal_ops_scheme \<Rightarrow> (bytes \<Rightarrow> json_path_selector list option) \<Rightarrow> table \<Rightarrow> 'd history \<Rightarrow> bool" where
  "valid_history D jp t A \<longleftrightarrow> finite {B. A B \<noteq> []} \<and>
     (\<forall>B. A B \<noteq> [] \<longrightarrow> is_base D jp t B \<and> list_all (valid_version D jp t) (A B) \<and>
        sorted_wrt (\<lambda>v w. fst w < fst v) (A B))"

text \<open>The records in the database that belong to the table are those of its history.\<close>

definition table_repr ::
  "('d, 'z) decimal_ops_scheme \<Rightarrow> (bytes \<Rightarrow> json_path_selector list option) \<Rightarrow> table \<Rightarrow> (bytes \<rightharpoonup> bytes) \<Rightarrow> 'd history \<Rightarrow> bool" where
  "table_repr D jp t m A \<longleftrightarrow> valid_history D jp t A \<and>
     (\<forall>k v. in_table t k \<longrightarrow> (m k = Some v \<longleftrightarrow> (\<exists>B. (k, v) \<in> set (entries D B (A B)))))"

fun push_version :: "'d version \<Rightarrow> 'd version list \<Rightarrow> 'd version list" where
  "push_version (ts, f, r) [] = [(ts, f, r)]"
| "push_version (ts, f, r) ((ts1, f1, r1) # vs) =
     (if ts1 = ts then (ts, f + f1, r) # vs else (ts, f + f1, r) # (ts1, f1, r1) # vs)"

lemma is_base_append_eq:
  assumes "is_base D jp t B" "is_base D jp t B'" "wf_table t"
  shows "B @ x = B' @ y \<longleftrightarrow> B = B' \<and> x = y"
proof -
  obtain u v where uv: "valid_tuple D jp t u" "B = base_key D t u" "valid_tuple D jp t v" "B' = base_key D t v"
    using assms by (auto simp: is_base_def)
  have l: "length (t_pk t) \<le> length u" "length (t_pk t) \<le> length v" using uv assms(3) by (simp_all add: valid_tuple_def wf_table_def)
  have iff: "base_key D t u @ r = base_key D t v @ s \<longleftrightarrow>
      list_all2 (datum_eq D) (take (length (t_pk t)) u) (take (length (t_pk t)) v) \<and> r = s" for r s
    using base_key_eq [of D jp u v t] uv l by (simp add: valid_tuple_def)
  show ?thesis unfolding uv(2,4) using iff [of x y] iff [of "[]" "[]"] by auto
qed

lemma is_base_less:
  assumes "is_base D jp t B" "is_base D jp t B'" "wf_table t" "B < B'"
  shows "B @ x < B' @ y"
proof -
  obtain u v where uv: "valid_tuple D jp t u" "B = base_key D t u" "valid_tuple D jp t v" "B' = base_key D t v"
    using assms by (auto simp: is_base_def)
  then show ?thesis using base_key_less [of D jp u v t x y] assms(3,4) by (simp add: valid_tuple_def wf_table_def)
qed

lemma is_base_in_table: "is_base D jp t B \<Longrightarrow> in_table t (B @ x)"
  by (auto simp: is_base_def in_table_def base_key_def)

lemma history_key_inj: "u64_to_be (- 1 - a) = u64_to_be (- 1 - b) \<longleftrightarrow> a = (b :: u64)"
proof
  assume "u64_to_be (- 1 - a) = u64_to_be (- 1 - b)"
  then have "- 1 - a = - 1 - b" using u64_be_inverse by metis
  then show "a = b" by simp
qed simp

lemma history_key_neq_header: "u64_to_be w \<noteq> [0]"
proof
  assume "u64_to_be w = [0]"
  then have "length (u64_to_be w) = 1" by simp
  then show False by simp
qed

lemma entries_key: "(k, v) \<in> set (entries D B vs) \<Longrightarrow> \<exists>x. k = B @ x"
  by (cases vs) (auto simp: header_entry_def history_entry_def split: prod.splits)

lemma entries_header: "(B @ [0], v) \<in> set (entries D B vs) \<longleftrightarrow>
    (\<exists>ts f r ws. vs = (ts, f, r) # ws \<and> v = le_bytes 8 (unat ts) @ payload D f r)"
  by (cases vs) (auto simp: header_entry_def history_entry_def history_key_neq_header history_key_neq_header [symmetric] split: prod.splits)

lemma entries_history: "(B @ u64_to_be (- 1 - ts), v) \<in> set (entries D B vs) \<longleftrightarrow>
    (\<exists>u ws f r. vs = u # ws \<and> (ts, f, r) \<in> set ws \<and> v = payload D f r)"
proof (cases vs)
  case (Cons u ws)
  have "(B @ u64_to_be (- 1 - ts), v) \<in> history_entry D B ` set ws \<longleftrightarrow> (\<exists>f r. (ts, f, r) \<in> set ws \<and> v = payload D f r)"
    by (force simp: history_entry_def history_key_inj split: prod.splits)
  then show ?thesis by (auto simp: Cons header_entry_def history_key_neq_header split: prod.splits)
qed simp

lemma entries_other:
  "k \<noteq> B @ [0] \<Longrightarrow> (k, v) \<in> set (entries D B vs) \<longleftrightarrow> (k, v) \<in> history_entry D B ` set (tl vs)"
  by (cases vs) (auto simp: header_entry_def split: prod.splits)

section \<open>Writing\<close>

lemma apply_batch_append: "apply_batch (xs @ ys) m = apply_batch ys (apply_batch xs m)"
  by (simp add: apply_batch_def)

lemma apply_batch_Cons: "apply_batch (b # ops) m = apply_batch ops (apply_op b m)"
  by (simp add: apply_batch_def)

text \<open>Updating the records of one key.\<close>

lemma table_repr_update:
  assumes wf: "wf_table t" and repr: "table_repr D jp t m A" and B: "is_base D jp t B"
    and val: "vs \<noteq> []" "list_all (valid_version D jp t) vs" "sorted_wrt (\<lambda>v w. fst w < fst v) vs"
    and m': "\<And>k v. k \<in> range (append B) \<Longrightarrow> m' k = Some v \<longleftrightarrow> (k, v) \<in> set (entries D B vs)"
    and frame: "\<And>k. k \<notin> range (append B) \<Longrightarrow> m' k = m k"
  shows "table_repr D jp t m' (A(B := vs))"
proof -
  have vh: "valid_history D jp t A" using repr by (simp add: table_repr_def)
  have fin: "finite {B'. (A(B := vs)) B' \<noteq> []}"
  proof (rule finite_subset)
    show "{B'. (A(B := vs)) B' \<noteq> []} \<subseteq> insert B {B'. A B' \<noteq> []}" by auto
    show "finite (insert B {B'. A B' \<noteq> []})" using vh by (simp add: valid_history_def)
  qed
  have other: "k \<notin> range (append B)" if e: "(k, v) \<in> set (entries D B' (A B'))" and ne: "B' \<noteq> B" for k v B'
  proof -
    obtain x where "k = B' @ x" using entries_key [OF e] by blast
    moreover have "is_base D jp t B'" using e vh by (cases "A B'") (auto simp: valid_history_def)
    ultimately show ?thesis using is_base_append_eq [OF _ B wf] ne by auto
  qed
  have "m' k = Some v \<longleftrightarrow> (\<exists>B'. (k, v) \<in> set (entries D B' ((A(B := vs)) B')))" if k: "in_table t k" for k v
  proof (cases "k \<in> range (append B)")
    case True
    then have "(k, v) \<notin> set (entries D B' ((A(B := vs)) B'))" if "B' \<noteq> B" for B' using other [of k v B'] that by auto
    then show ?thesis using m' [OF True, of v] by (metis fun_upd_same)
  next
    case False
    have "(k, v) \<notin> set (entries D B vs')" for vs' using entries_key [of k v D B vs'] False by auto
    then have "(\<exists>B'. (k, v) \<in> set (entries D B' ((A(B := vs)) B'))) \<longleftrightarrow> (\<exists>B'. (k, v) \<in> set (entries D B' (A B')))"
      by (metis fun_upd_apply)
    then show ?thesis using frame [OF False] repr k by (simp add: table_repr_def)
  qed
  moreover have "valid_history D jp t (A(B := vs))" using vh fin B val by (simp add: valid_history_def)
  ultimately show ?thesis by (simp add: table_repr_def)
qed

lemma table_repr_lookup:
  assumes "wf_table t" "table_repr D jp t m A" "is_base D jp t B"
  shows "m (B @ x) = Some v \<longleftrightarrow> (B @ x, v) \<in> set (entries D B (A B))"
proof -
  have "m (B @ x) = Some v \<longleftrightarrow> (\<exists>B'. (B @ x, v) \<in> set (entries D B' (A B')))"
    using assms(2) is_base_in_table [OF assms(3)] by (simp add: table_repr_def)
  moreover have "B' = B" if e: "(B @ x, v) \<in> set (entries D B' (A B'))" for B'
  proof -
    obtain y where "B @ x = B' @ y" using entries_key [OF e] by blast
    moreover have "is_base D jp t B'" using e assms(2) by (cases "A B'") (auto simp: table_repr_def valid_history_def)
    ultimately show ?thesis using is_base_append_eq [OF assms(3) _ assms(1)] by blast
  qed
  ultimately show ?thesis by blast
qed

lemma push_version_valid:
  assumes "valid_version D jp t (ts, f, r)" "list_all (valid_version D jp t) vs" "sorted_wrt (\<lambda>v w. fst w < fst v) vs"
    "\<And>v. v \<in> set vs \<Longrightarrow> fst v \<le> ts"
  shows "push_version (ts, f, r) vs \<noteq> []" "list_all (valid_version D jp t) (push_version (ts, f, r) vs)"
    "sorted_wrt (\<lambda>v w. fst w < fst v) (push_version (ts, f, r) vs)"
proof -
  show "push_version (ts, f, r) vs \<noteq> []" by (cases vs) (auto split: if_splits)
  show "list_all (valid_version D jp t) (push_version (ts, f, r) vs)"
    using assms(1,2) by (cases vs) (auto simp: valid_version_def)
  show "sorted_wrt (\<lambda>v w. fst w < fst v) (push_version (ts, f, r) vs)"
  proof (cases vs)
    case (Cons v vs')
    obtain ts1 f1 r1 where v: "v = (ts1, f1, r1)" by (cases v)
    have "ts1 \<le> ts" using assms(4) [of v] by (simp add: Cons v)
    then show ?thesis using assms(3) by (auto simp: Cons v)
  qed simp
qed

lemma append_range_iff: "B @ x \<in> range (append B)" by simp

lemma writer_write_tuple_repr:
  assumes wf: "wf_table t" and laws: "rocks_laws R contents rest" and tup: "valid_tuple D jp t tup"
    and ts: "unat ts < 255 * 2 ^ 56"
    and repr: "table_repr D jp t (apply_batch (write_batch w) (contents db)) A"
    and mono: "\<And>v. v \<in> set (A (base_key D t tup)) \<Longrightarrow> fst v \<le> ts"
  defines "n \<equiv> length (t_pk t)"
  shows "\<exists>w'. writer_write_tuple R D db t tup ts f w = Some (Inr w') \<and>
    table_repr D jp t (apply_batch (write_batch w') (contents db))
      (A(base_key D t tup := push_version (ts, f, drop n tup) (A (base_key D t tup))))"
proof -
  let ?B = "base_key D t tup" and ?r = "drop n tup" and ?m = "apply_batch (write_batch w) (contents db)"
  have row: "valid_row D jp tup" "length tup = t_length t" "n \<le> length tup"
    using tup wf by (simp_all add: valid_tuple_def wf_table_def n_def)
  have B: "is_base D jp t ?B" using tup by (auto simp: is_base_def)
  have ver: "valid_version D jp t (ts, f', ?r)" for f'
    using valid_row_take_drop [OF row(1), of n] row ts by (simp add: valid_version_def n_def)
  have key: "write_index_header_key D t tup = Some (?B @ [0])" using write_index_header_key_eq [OF row(1)] row(3) by (simp add: n_def)
  have hv: "write_index_header_value D t tup ts f' = Some (le_bytes 8 (unat ts) @ payload D f' ?r)" for f'
    using write_index_header_value_eq [OF row(1)] row(3) by (simp add: n_def)
  note look = table_repr_lookup [OF wf repr B]
  have vh: "list_all (valid_version D jp t) (A ?B)" "sorted_wrt (\<lambda>v w. fst w < fst v) (A ?B)"
    using repr by (cases "A ?B = []"; simp add: table_repr_def valid_history_def)+
  note pv = push_version_valid [OF ver vh mono]
  show ?thesis
  proof (cases "A ?B")
    case Nil
    then have "?m (?B @ [0]) = None" using look [of "[0]"] by (cases "?m (?B @ [0])") auto
    then have "writer_write_tuple R D db t tup ts f w = Some (Inr (batch_put (?B @ [0]) (le_bytes 8 (unat ts) @ payload D f ?r) w))"
      using row(2) key hv rocks_batch_get [OF laws] by (simp add: writer_write_tuple_def)
    moreover have "table_repr D jp t (apply_batch (write_batch (batch_put (?B @ [0]) (le_bytes 8 (unat ts) @ payload D f ?r) w)) (contents db))
        (A(?B := push_version (ts, f, ?r) (A ?B)))"
    proof (rule table_repr_update [OF wf repr B pv])
      fix k v assume "k \<in> range (append ?B)"
      then show "(apply_batch (write_batch (batch_put (?B @ [0]) (le_bytes 8 (unat ts) @ payload D f ?r) w)) (contents db) k = Some v) =
          ((k, v) \<in> set (entries D ?B (push_version (ts, f, ?r) (A ?B))))"
        using look by (auto simp: Nil batch_put_def header_entry_def)
    qed (auto simp: batch_put_def)
    ultimately show ?thesis by blast
  next
    case (Cons u vs)
    obtain ts1 f1 r1 where u: "u = (ts1, f1, r1)" by (cases u)
    let ?v1 = "le_bytes 8 (unat ts1) @ payload D f1 r1"
    define w1 where "w1 = (if ts1 \<noteq> ts then batch_put (?B @ u64_to_be (- 1 - ts1)) (payload D f1 r1) w else w)"
    define w2 where "w2 = batch_put (?B @ [0]) (le_bytes 8 (unat ts) @ payload D (f + f1) ?r) w1"
    have m0: "?m (?B @ [0]) = Some ?v1" using look [of "[0]" ?v1] by (simp add: Cons u header_entry_def)
    have "\<exists>p. read_varint_signed Asc (payload D f1 r1) = Some (f1, p)" by (simp add: payload_def read_write_signed)
    then have w2: "writer_write_tuple R D db t tup ts f w = Some (Inr w2)"
      using row(2) key hv rocks_batch_get [OF laws] m0
      by (auto simp: writer_write_tuple_def le_val_le_bytes_u64 w2_def w1_def Let_def)
    have "table_repr D jp t (apply_batch (write_batch w2) (contents db)) (A(?B := push_version (ts, f, ?r) (A ?B)))"
    proof (rule table_repr_update [OF wf repr B pv])
      fix k v assume "k \<in> range (append ?B)"
      then obtain x where k: "k = ?B @ x" by blast
      show "(apply_batch (write_batch w2) (contents db) k = Some v) = ((k, v) \<in> set (entries D ?B (push_version (ts, f, ?r) (A ?B))))"
      proof (cases "x = [0]")
        case True
        then show ?thesis by (auto simp: k w2_def batch_put_def Cons u entries_header simp del: entries.simps)
      next
        case x0: False
        show ?thesis
        proof (cases "ts1 \<noteq> ts \<and> x = u64_to_be (- 1 - ts1)")
          case True
          have "(ts1, f', r') \<notin> set vs" for f' r' using vh(2) by (auto simp: Cons u)
          then have "(k, v) \<in> set (entries D ?B (push_version (ts, f, ?r) (A ?B))) \<longleftrightarrow> v = payload D f1 r1"
            using True entries_history [of ?B ts1 v D "(ts, f + f1, ?r) # (ts1, f1, r1) # vs"]
            by (simp add: k Cons u del: entries.simps)
          moreover have "apply_batch (write_batch w2) (contents db) k = Some (payload D f1 r1)"
            using True x0 by (simp add: k w2_def w1_def batch_put_def apply_batch_append apply_batch_Cons)
          ultimately show ?thesis by auto
        next
          case False
          have "apply_batch (write_batch w2) (contents db) k = ?m k"
            using False x0 by (auto simp: k w2_def w1_def batch_put_def apply_batch_append apply_batch_Cons)
          moreover have "(k, v) \<in> set (entries D ?B (push_version (ts, f, ?r) (A ?B))) \<longleftrightarrow> (k, v) \<in> set (entries D ?B (A ?B))"
          proof -
            have kn: "k \<noteq> ?B @ [0]" using x0 by (simp add: k)
            have "(k, v) \<noteq> history_entry D ?B (ts1, f1, r1)" if "ts1 \<noteq> ts" using False that by (simp add: k history_entry_def)
            then show ?thesis unfolding entries_other [OF kn] by (auto simp: Cons u)
          qed
          ultimately show ?thesis using look [of x v] by (simp add: k)
        qed
      qed
    qed (auto simp: w2_def w1_def batch_put_def apply_batch_append apply_batch_Cons)
    then show ?thesis using w2 by blast
  qed
qed

section \<open>Scanning\<close>

lemma sorted_wrt_concat:
  "sorted_wrt P (concat xss) \<longleftrightarrow>
    (\<forall>xs \<in> set xss. sorted_wrt P xs) \<and> sorted_wrt (\<lambda>xs ys. \<forall>x \<in> set xs. \<forall>y \<in> set ys. P x y) xss"
  by (induction xss) (auto simp: sorted_wrt_append)

lemma u64_to_be_less: "u64_to_be a < u64_to_be b \<longleftrightarrow> a < b"
proof -
  have ab: "unat a < 256 ^ 8" "unat b < 256 ^ 8" using unat_i64_less [of a] unat_i64_less [of b] by simp_all
  have mono: "sep_lt (u64_to_be x) (u64_to_be y)" if "x < y" for x y :: u64
    using that unat_i64_less [of x] unat_i64_less [of y]
    by (simp add: u64_to_be_def sep_lt_be_bytes word_less_nat_alt del: be_bytes.simps)
  show ?thesis
    using mono [of a b] mono [of b a] sep_lt_less by (metis linorder_less_linear order_less_asym)
qed

lemma complement_less: "- 1 - b < - 1 - a \<longleftrightarrow> a < (b :: u64)"
proof -
  have "- 1 - x = NOT x" for x :: u64 by (simp add: not_eq_complement algebra_simps)
  then show ?thesis using unat_i64_less [of a] unat_i64_less [of b]
    by (simp add: word_less_nat_alt unat_NOT) linarith
qed

lemma header_before_history:
  assumes "unat (ts :: u64) < 255 * 2 ^ 56"
  shows "[0] < u64_to_be (- 1 - ts)"
proof -
  have "- 1 - ts = NOT ts" by (simp add: not_eq_complement algebra_simps)
  then have "2 ^ 56 \<le> unat (- 1 - ts)" using assms unat_NOT [of ts] by simp
  then obtain b bs where "u64_to_be (- 1 - ts) = b # bs" "b \<noteq> 0" using first_byte_nonzero by blast
  then show ?thesis by (simp add: word_gt_0)
qed

lemma entries_sorted:
  assumes "list_all (valid_version D jp t) vs" "sorted_wrt (\<lambda>v w. fst w < fst v) vs"
  shows "sorted_wrt (<) (map fst (entries D B vs))"
proof (cases vs)
  case (Cons v ws)
  have h: "fst (history_entry D B w) = B @ u64_to_be (- 1 - fst w)" for w :: "'a version"
    by (simp add: history_entry_def split: prod.splits)
  have "sorted_wrt (<) (map fst (map (history_entry D B) ws))"
    using assms(2) by (simp add: Cons sorted_wrt_map h u64_to_be_less complement_less)
  moreover have "fst (header_entry D B v) < fst (history_entry D B w)" if "w \<in> set ws" for w
  proof -
    have "unat (fst w) < 255 * 2 ^ 56" using assms(1) that by (auto simp: Cons list_all_iff valid_version_def)
    then show ?thesis using header_before_history by (simp add: h header_entry_def split: prod.splits)
  qed
  ultimately show ?thesis by (simp add: Cons)
qed simp

text \<open>The keys of a table and their versions, in key order; \<open>tup_of\<close> picks a tuple for each key.\<close>

definition groups_of :: "(bytes \<Rightarrow> 'd datum list) \<Rightarrow> 'd history \<Rightarrow> ('d datum list \<times> 'd version list) list" where
  "groups_of tup_of A = map (\<lambda>B. (tup_of B, A B)) (sorted_list_of_set {B. A B \<noteq> []})"

lemma groups_entries:
  assumes wf: "wf_table t" and A: "valid_history D jp t A"
    and tup: "\<And>B. A B \<noteq> [] \<Longrightarrow> valid_tuple D jp t (tup_of B) \<and> base_key D t (tup_of B) = B"
  shows "list_all (valid_group D jp t) (groups_of tup_of A)"
    and "sorted_wrt (<) (map fst (all_entries D t (groups_of tup_of A)))"
    and "set (all_entries D t (groups_of tup_of A)) = {(k, v). \<exists>B. (k, v) \<in> set (entries D B (A B))}"
proof -
  let ?Bs = "sorted_list_of_set {B. A B \<noteq> []}"
  have fin: "finite {B. A B \<noteq> []}" using A by (simp add: valid_history_def)
  then have Bs: "set ?Bs = {B. A B \<noteq> []}" by simp
  have nil: "entries D B (A B) = []" if "A B = []" for B using that by simp
  have eq: "all_entries D t (groups_of tup_of A) = concat (map (\<lambda>B. entries D B (A B)) ?Bs)"
    unfolding all_entries_def groups_of_def map_map comp_def prod.case
    using tup Bs by (intro arg_cong [of _ _ concat] map_cong) auto
  show "list_all (valid_group D jp t) (groups_of tup_of A)"
    using tup A Bs by (auto simp: groups_of_def list_all_iff valid_group_pair valid_history_def)
  have "sorted_wrt (<) ?Bs" by (rule strict_sorted_list_of_set)
  then have "sorted_wrt (\<lambda>B B'. \<forall>x \<in> set (map fst (entries D B (A B))). \<forall>y \<in> set (map fst (entries D B' (A B'))). x < y) ?Bs"
  proof (rule sorted_wrt_mono_rel [rotated])
    fix B B' assume m: "B \<in> set ?Bs" "B' \<in> set ?Bs" "B < B'"
    have b: "is_base D jp t B" "is_base D jp t B'" using m Bs A by (auto simp: valid_history_def)
    have "fst p < fst q" if p: "p \<in> set (entries D B (A B))" and q: "q \<in> set (entries D B' (A B'))" for p q
    proof -
      obtain x y where "fst p = B @ x" "fst q = B' @ y"
        using entries_key [of "fst p" "snd p" D B "A B"] entries_key [of "fst q" "snd q" D B' "A B'"] p q by auto
      then show ?thesis using is_base_less [OF b wf m(3)] by simp
    qed
    then show "\<forall>x \<in> set (map fst (entries D B (A B))). \<forall>y \<in> set (map fst (entries D B' (A B'))). x < y" by auto
  qed
  moreover have "sorted_wrt (<) (map fst (entries D B (A B)))" for B
    using entries_sorted [of D jp t "A B" B] A nil by (cases "A B = []") (auto simp: valid_history_def)
  ultimately show "sorted_wrt (<) (map fst (all_entries D t (groups_of tup_of A)))"
    unfolding eq map_concat by (auto simp: sorted_wrt_concat sorted_wrt_map)
  show "set (all_entries D t (groups_of tup_of A)) = {(k, v). \<exists>B. (k, v) \<in> set (entries D B (A B))}"
    unfolding eq using Bs nil by fastforce
qed

lemma sorted_entries_unique:
  assumes "sorted_wrt (<) (map fst xs)" "sorted_wrt (<) (map fst ys)" "set xs = set (ys :: (bytes \<times> bytes) list)"
  shows "xs = ys"
proof -
  have "sorted (map fst xs)" "distinct (map fst xs)" "sorted (map fst ys)" "distinct (map fst ys)"
    using assms(1,2) by (simp_all add: strict_sorted_iff)
  moreover have "inj_on fst (set xs \<union> set ys)" using calculation(2) assms(3) by (simp add: distinct_map)
  ultimately show ?thesis using assms(3) by (intro map_sorted_distinct_set_unique [of fst xs ys]) auto
qed

lemma prefix_le: "xs \<le> xs @ (ys :: 'a::linorder list)"
  by (induction xs) auto

lemma table_bounds:
  assumes "wf_table t" "in_table t k"
  shows "u32_to_be (t_id t) \<le> k" "k < u32_to_be (t_id t + 1)"
proof -
  let ?i = "t_id t"
  have k: "k = u32_to_be ?i @ drop 4 k" using assms(2) append_take_drop_id [of 4 k] by (simp add: in_table_def)
  show "u32_to_be ?i \<le> k" using prefix_le [of "u32_to_be ?i" "drop 4 k"] k by simp
  have "?i < ?i + 1"
  proof -
    have "?i \<noteq> - 1" using assms(1) by (auto simp: wf_table_def)
    then have "unat ?i \<noteq> unat (- 1 :: u32)" by (simp add: word_unat_eq_iff)
    then have "unat ?i + 1 < 2 ^ 32" using unat_u32_less [of ?i] by (simp add: unsigned_minus_1_eq_mask mask_eq_exp_minus_1)
    then have "unat (?i + 1) = unat ?i + 1" by (simp add: unat_word_ariths)
    then show ?thesis by (simp add: word_less_nat_alt)
  qed
  then have "sep_lt (u32_to_be ?i) (u32_to_be (?i + 1))" using sep_lt_u32 [of ?i "[]" "?i + 1" "[]"] by simp
  then show "k < u32_to_be (?i + 1)" using sep_lt_less_append [of _ _ "drop 4 k" "[]"] k by (metis append.right_neutral)
qed

text \<open>Scanning a table as of a timestamp visits every key's newest version before it.\<close>

lemma full_scan_repr:
  assumes wf: "wf_table t" and laws: "rocks_laws R contents rest" and repr: "table_repr D jp t (contents db) A"
    and tup: "\<And>B. A B \<noteq> [] \<Longrightarrow> valid_tuple D jp t (tup_of B) \<and> base_key D t (tup_of B) = B"
    and default: "decimal_laws D"
  shows "\<exists>it rows. full_scan R D db t T = Some it \<and> yields (index_advance R D jp) index_get it rows \<and>
    rows_match D rows (visible_rows t T (groups_of tup_of A))"
proof -
  let ?gs = "groups_of tup_of A" and ?k = "u32_to_be (t_id t)" and ?ub = "u32_to_be (t_id t + 1)"
  have vh: "valid_history D jp t A" using repr by (simp add: table_repr_def)
  note g = groups_entries [OF wf vh tup]
  let ?it = "r_iter_seek R db ?ub ?k"
  have inr: "k \<in> fst ` {(k, v). \<exists>B. (k, v) \<in> set (entries D B (A B))} \<Longrightarrow> in_table t k" for k
  proof -
    assume "k \<in> fst ` {(k, v). \<exists>B. (k, v) \<in> set (entries D B (A B))}"
    then obtain v B where e: "(k, v) \<in> set (entries D B (A B))" by auto
    then have "is_base D jp t B" using vh by (cases "A B") (auto simp: valid_history_def)
    then show "in_table t k" using entries_key [OF e] is_base_in_table by blast
  qed
  have "set (rest ?it) = {(k, v). contents db k = Some v \<and> in_table t k}"
    unfolding rocks_seek_set [OF laws] using table_bounds [OF wf] by (auto simp: in_table_def)
  also have "\<dots> = {(k, v). \<exists>B. (k, v) \<in> set (entries D B (A B))}"
    using repr inr by (fastforce simp: table_repr_def)
  finally have pend: "rest ?it = all_entries D t ?gs"
    using sorted_entries_unique [OF rocks_seek_sorted [OF laws] g(2)] g(3) by simp
  obtain rows where rows: "list_yields D jp T (right_size_new_to (t_length t)) (all_entries D t ?gs) rows"
    "rows_match D rows (visible_rows t T ?gs)"
  proof -
    have "valid_tuple D jp t (right_size_new_to (t_length t))"
      using default by (simp add: valid_tuple_def valid_row_def right_size_new_to_def list_all_iff)
    then show ?thesis
      using list_yields_groups [OF wf g(1), of "right_size_new_to (t_length t)" "[]" "right_size_new_to (t_length t)" T] that
      by (auto simp: right_size_new_to_def)
  qed
  have "yields (index_advance R D jp) index_get (index_iter_new ?it T (t_length t)) rows"
    by (rule list_yields_index [OF laws rows(1)]) (simp_all add: index_iter_new_def pending_def pend)
  moreover have "full_scan R D db t T = Some (index_iter_new ?it T (t_length t))"
    by (simp add: full_scan_def range_scan_def)
  ultimately show ?thesis using rows(2) by blast
qed

text \<open>A batch of writes, as a closure passed to \<open>atomic_write\<close> performs them.\<close>

fun write_tuples ::
  "('db, 'it) rocks_ops \<Rightarrow> ('d, 'z) decimal_ops_scheme \<Rightarrow> 'db \<Rightarrow> table \<Rightarrow> ('d datum list \<times> u64 \<times> i64) list \<Rightarrow>
    writer \<Rightarrow> (storage_error + writer) option" where
  "write_tuples R D db t [] w = Some (Inr w)"
| "write_tuples R D db t ((tup, ts, f) # ws) w =
     (case writer_write_tuple R D db t tup ts f w of
        None \<Rightarrow> None | Some (Inl e) \<Rightarrow> Some (Inl e) | Some (Inr w') \<Rightarrow> write_tuples R D db t ws w')"

definition record_write :: "('d, 'z) decimal_ops_scheme \<Rightarrow> table \<Rightarrow> 'd datum list \<times> u64 \<times> i64 \<Rightarrow> 'd history \<Rightarrow> 'd history" where
  "record_write D t w A = (case w of (tup, ts, f) \<Rightarrow>
     A(base_key D t tup := push_version (ts, f, drop (length (t_pk t)) tup) (A (base_key D t tup))))"

definition history_after :: "('d, 'z) decimal_ops_scheme \<Rightarrow> table \<Rightarrow> ('d datum list \<times> u64 \<times> i64) list \<Rightarrow> 'd history" where
  "history_after D t ws = fold (record_write D t) ws (\<lambda>_. [])"

definition valid_write ::
  "('d, 'z) decimal_ops_scheme \<Rightarrow> (bytes \<Rightarrow> json_path_selector list option) \<Rightarrow> table \<Rightarrow> 'd datum list \<times> u64 \<times> i64 \<Rightarrow> bool" where
  "valid_write D jp t w = (case w of (tup, ts, f) \<Rightarrow> valid_tuple D jp t tup \<and> unat ts < 255 * 2 ^ 56)"

lemma push_version_ts: "v \<in> set (push_version (ts, f, r) vs) \<Longrightarrow> fst v = ts \<or> (\<exists>u \<in> set vs. fst v = fst u)"
  by (cases vs) (auto split: if_splits)

lemma write_tuples_repr:
  assumes wf: "wf_table t" and laws: "rocks_laws R contents rest"
  shows "list_all (valid_write D jp t) ws \<Longrightarrow> sorted_wrt (\<le>) (map (fst \<circ> snd) ws) \<Longrightarrow>
    table_repr D jp t (apply_batch (write_batch w) (contents db)) A \<Longrightarrow>
    (\<forall>B. \<forall>v \<in> set (A B). \<forall>u \<in> set ws. fst v \<le> fst (snd u)) \<Longrightarrow>
    \<exists>w'. write_tuples R D db t ws w = Some (Inr w') \<and>
      table_repr D jp t (apply_batch (write_batch w') (contents db)) (fold (record_write D t) ws A)"
proof (induction ws arbitrary: w A)
  case Nil
  then show ?case by simp
next
  case (Cons u ws)
  obtain tup ts f where u: "u = (tup, ts, f)" by (cases u)
  have tup: "valid_tuple D jp t tup" "unat ts < 255 * 2 ^ 56" using Cons.prems(1) by (simp_all add: u valid_write_def)
  let ?A = "record_write D t u A"
  have mono: "fst v \<le> ts" if "v \<in> set (A (base_key D t tup))" for v using that Cons.prems(4) by (auto simp: u)
  obtain w' where w': "writer_write_tuple R D db t tup ts f w = Some (Inr w')"
    "table_repr D jp t (apply_batch (write_batch w') (contents db)) ?A"
    using writer_write_tuple_repr [OF wf laws tup Cons.prems(3) mono, of f] by (auto simp: u record_write_def)
  have "fst v \<le> fst (snd x)" if v: "v \<in> set (?A B)" and x: "x \<in> set ws" for B v x
  proof -
    have "ts \<le> fst (snd x)" using Cons.prems(2) x by (auto simp: u)
    then show ?thesis using v x Cons.prems(4) push_version_ts [of v ts f] by (fastforce simp: u record_write_def split: if_splits)
  qed
  then show ?case using Cons.IH [OF _ _ w'(2)] Cons.prems(1,2) w'(1) by (simp add: u)
qed

text \<open>The versions of one key, from the writes to it.\<close>

definition key_writes :: "('d, 'z) decimal_ops_scheme \<Rightarrow> table \<Rightarrow> u64 \<Rightarrow> ('d datum list \<times> u64 \<times> i64) list \<Rightarrow> bytes \<Rightarrow>
    ('d datum list \<times> u64 \<times> i64) list" where
  "key_writes D t T ws B = filter (\<lambda>(tup, ts, f). base_key D t tup = B \<and> ts < T) ws"

lemma history_after_snoc: "history_after D t (ws @ [w]) = record_write D t w (history_after D t ws)"
  by (simp add: history_after_def)

text \<open>The state of a table as of a timestamp, straight from the list of writes: for every key, in key
  order, the last tuple written before the timestamp with the sum of the frequencies.\<close>

definition freq_as_of :: "('d, 'z) decimal_ops_scheme \<Rightarrow> table \<Rightarrow> u64 \<Rightarrow> ('d datum list \<times> u64 \<times> i64) list \<Rightarrow> bytes \<Rightarrow> i64" where
  "freq_as_of D t T ws B = sum_list (map (\<lambda>(tup, ts, f). f) (key_writes D t T ws B))"

definition tuple_as_of :: "('d, 'z) decimal_ops_scheme \<Rightarrow> table \<Rightarrow> u64 \<Rightarrow> ('d datum list \<times> u64 \<times> i64) list \<Rightarrow> bytes \<Rightarrow> 'd datum list" where
  "tuple_as_of D t T ws B = fst (last (key_writes D t T ws B))"

definition snapshot :: "('d, 'z) decimal_ops_scheme \<Rightarrow> table \<Rightarrow> u64 \<Rightarrow> ('d datum list \<times> u64 \<times> i64) list \<Rightarrow> 'd row list" where
  "snapshot D t T ws = map (\<lambda>B. (tuple_as_of D t T ws B, freq_as_of D t T ws B))
     (filter (\<lambda>B. freq_as_of D t T ws B \<noteq> 0) (sort (remdups (map (\<lambda>(tup, ts, f). base_key D t tup) ws))))"

lemma push_versions_head:
  "xs \<noteq> [] \<Longrightarrow> \<exists>vs. fold push_version xs [] =
     (fst (last xs), sum_list (map (\<lambda>v. fst (snd v)) xs), snd (snd (last xs))) # vs"
proof (induction xs rule: rev_induct)
  case (snoc x xs)
  obtain ts f r where x: "x = (ts, f, r)" by (cases x)
  show ?case
  proof (cases "xs = []")
    case False
    then obtain vs where "fold push_version xs [] = (fst (last xs), sum_list (map (\<lambda>v. fst (snd v)) xs), snd (snd (last xs))) # vs"
      using snoc.IH by blast
    then show ?thesis by (simp add: x algebra_simps)
  qed (simp add: x)
qed simp

lemma find_push_version:
  "\<not> ts < T \<Longrightarrow> find (\<lambda>v. fst v < T) (push_version (ts, f, r) vs) = find (\<lambda>v. fst v < T) vs"
  by (cases vs) auto

lemma push_versions_find:
  "sorted_wrt (\<le>) (map fst xs) \<Longrightarrow> find (\<lambda>v. fst v < T) (fold push_version xs []) =
     (let ys = filter (\<lambda>v. fst v < T) xs in
      if ys = [] then None else Some (fst (last ys), sum_list (map (\<lambda>v. fst (snd v)) ys), snd (snd (last ys))))"
proof (induction xs rule: rev_induct)
  case Nil
  then show ?case by simp
next
  case (snoc x xs)
  obtain ts f r where x: "x = (ts, f, r)" by (cases x)
  have xs: "sorted_wrt (\<le>) (map fst xs)" "\<forall>y \<in> set xs. fst y \<le> ts" using snoc.prems by (simp_all add: x sorted_wrt_append)
  show ?case
  proof (cases "ts < T")
    case True
    then have flt: "filter (\<lambda>v. fst v < T) (xs @ [x]) = xs @ [x]" using xs(2) by (auto simp: x intro!: filter_True)
    obtain vs where "fold push_version (xs @ [x]) [] =
        (ts, sum_list (map (\<lambda>v. fst (snd v)) (xs @ [x])), r) # vs"
      using push_versions_head [of "xs @ [x]"] by (auto simp: x)
    then show ?thesis unfolding flt Let_def using True by (simp add: x)
  next
    case False
    then show ?thesis using snoc.IH [OF xs(1)] by (simp add: x find_push_version)
  qed
qed

lemma history_after_key:
  "history_after D t ws B = fold push_version
     (map (\<lambda>(tup, ts, f). (ts, f, drop (length (t_pk t)) tup)) (filter (\<lambda>(tup, ts, f). base_key D t tup = B) ws)) []"
  by (induction ws rule: rev_induct) (auto simp: history_after_snoc record_write_def history_after_def)

lemma history_after_Nil: "history_after D t ws B = [] \<longleftrightarrow> B \<notin> set (map (\<lambda>(tup, ts, f). base_key D t tup) ws)"
proof -
  let ?xs = "map (\<lambda>(tup, ts, f). (ts, f, drop (length (t_pk t)) tup)) (filter (\<lambda>(tup, ts, f). base_key D t tup = B) ws)"
  have "?xs = [] \<longleftrightarrow> B \<notin> set (map (\<lambda>(tup, ts, f). base_key D t tup) ws)" by (force simp: filter_empty_conv)
  moreover have "fold push_version ?xs [] = [] \<longleftrightarrow> ?xs = []" using push_versions_head [of ?xs] by (cases "?xs = []") auto
  ultimately show ?thesis unfolding history_after_key by blast
qed

lemma sorted_wrt_map_filter_key:
  "sorted_wrt (\<le>) (map (fst \<circ> snd) ws) \<Longrightarrow>
    sorted_wrt (\<le>) (map fst (map (\<lambda>(tup, ts, f). (ts, f, drop n tup)) (filter P ws)))"
  by (induction ws) (auto simp: list.pred_set)

lemma history_visible:
  assumes "sorted_wrt (\<le>) (map (fst \<circ> snd) ws)"
  shows "visible T (history_after D t ws B) =
    (if freq_as_of D t T ws B = 0 then None
     else Some (fst (snd (last (key_writes D t T ws B))), freq_as_of D t T ws B, drop (length (t_pk t)) (tuple_as_of D t T ws B)))"
proof -
  let ?g = "\<lambda>(tup, ts :: u64, f :: i64). (ts, f, drop (length (t_pk t)) tup)"
  let ?xs = "map ?g (filter (\<lambda>(tup, ts, f). base_key D t tup = B) ws)"
  have ys: "filter (\<lambda>v. fst v < T) ?xs = map ?g (key_writes D t T ws B)"
    unfolding key_writes_def by (induction ws) auto
  have sum: "sum_list (map (\<lambda>v. fst (snd v)) (map ?g (key_writes D t T ws B))) = freq_as_of D t T ws B"
    by (simp add: freq_as_of_def comp_def case_prod_unfold)
  have last: "last (map ?g (key_writes D t T ws B)) = (fst (snd (last (key_writes D t T ws B))),
      snd (snd (last (key_writes D t T ws B))), drop (length (t_pk t)) (tuple_as_of D t T ws B))" if "key_writes D t T ws B \<noteq> []"
    using that by (simp add: last_map tuple_as_of_def case_prod_beta)
  have f: "find (\<lambda>v. fst v < T) (history_after D t ws B) = (if key_writes D t T ws B = [] then None
      else Some (fst (snd (last (key_writes D t T ws B))), freq_as_of D t T ws B, drop (length (t_pk t)) (tuple_as_of D t T ws B)))"
    using push_versions_find [OF sorted_wrt_map_filter_key [OF assms, of "length (t_pk t)" "\<lambda>(tup, ts, f). base_key D t tup = B"], of T] last
    unfolding history_after_key ys Let_def sum by simp
  have "key_writes D t T ws B = [] \<Longrightarrow> freq_as_of D t T ws B = 0" by (simp add: freq_as_of_def)
  then show ?thesis unfolding visible_def f by auto
qed

lemma row_matches_trans: "decimal_laws D \<Longrightarrow> row_matches D x y \<Longrightarrow> row_matches D y z \<Longrightarrow> row_matches D x z"
  unfolding row_matches_def by (rule list_all2_trans) (auto intro: datum_eq_trans)

lemma row_matches_refl: "decimal_laws D \<Longrightarrow> row_matches D x x"
  unfolding row_matches_def by (rule list_all2_refl) (rule datum_eq_refl)

lemma rows_match_trans: "decimal_laws D \<Longrightarrow> rows_match D x y \<Longrightarrow> rows_match D y z \<Longrightarrow> rows_match D x z"
  unfolding rows_match_def by (rule list_all2_trans) (auto intro: row_matches_trans)

lemma same_key_matches:
  assumes "wf_table t" "valid_tuple D jp t u" "valid_tuple D jp t v" "base_key D t u = base_key D t v"
  shows "row_matches D (take (length (t_pk t)) u @ drop (length (t_pk t)) v) v"
proof -
  let ?n = "length (t_pk t)"
  have v: "valid_row D jp u" "valid_row D jp v" "?n \<le> length u" "?n \<le> length v"
    using assms(1-3) by (simp_all add: valid_tuple_def wf_table_def)
  have "decimal_laws D" using v(1) by (simp add: valid_row_def)
  moreover have "row_matches D (take ?n u) (take ?n v)"
    using base_key_eq [OF v, of "[]" "[]"] assms(4) by (simp add: row_matches_def)
  ultimately have "row_matches D (take ?n u @ drop ?n v) (take ?n v @ drop ?n v)"
    using row_matches_refl [of D "drop ?n v"] unfolding row_matches_def by (blast intro: list_all2_appendI)
  then show ?thesis by simp
qed

lemma key_writes_nonempty: "freq_as_of D t T ws B \<noteq> 0 \<Longrightarrow> key_writes D t T ws B \<noteq> []"
  by (auto simp: freq_as_of_def)

lemma key_writes_mem: "x \<in> set (key_writes D t T ws B) \<Longrightarrow> x \<in> set ws \<and> base_key D t (fst x) = B"
  by (auto simp: key_writes_def)

lemma concat_map_if: "concat (map (\<lambda>x. if P x then [] else [g x]) xs) = map g (filter (\<lambda>x. \<not> P x) xs)"
  by (induction xs) auto

lemma valid_write_tuple: "valid_write D jp t w \<Longrightarrow> valid_tuple D jp t (fst w)"
  by (cases w) (simp add: valid_write_def)

lemma tuple_as_of_valid:
  assumes "list_all (valid_write D jp t) ws" "freq_as_of D t T ws B \<noteq> 0"
  shows "valid_tuple D jp t (tuple_as_of D t T ws B)" "base_key D t (tuple_as_of D t T ws B) = B"
proof -
  have "last (key_writes D t T ws B) \<in> set (key_writes D t T ws B)" using key_writes_nonempty [OF assms(2)] by simp
  from key_writes_mem [OF this] have "last (key_writes D t T ws B) \<in> set ws" "base_key D t (tuple_as_of D t T ws B) = B"
    by (simp_all add: tuple_as_of_def)
  then show "valid_tuple D jp t (tuple_as_of D t T ws B)" "base_key D t (tuple_as_of D t T ws B) = B"
    using assms(1) valid_write_tuple [of D jp t "last (key_writes D t T ws B)"] by (simp_all add: tuple_as_of_def list_all_iff)
qed

lemma visible_rows_snapshot:
  assumes wf: "wf_table t" and laws: "decimal_laws D" and ws: "list_all (valid_write D jp t) ws" "sorted_wrt (\<le>) (map (fst \<circ> snd) ws)"
    and tup: "\<And>B. B \<in> set (map (\<lambda>(tup, ts, f). base_key D t tup) ws) \<Longrightarrow> valid_tuple D jp t (tup_of B) \<and> base_key D t (tup_of B) = B"
  shows "rows_match D (visible_rows t T (groups_of tup_of (history_after D t ws))) (snapshot D t T ws)"
proof -
  let ?n = "length (t_pk t)" and ?keys = "map (\<lambda>(tup, ts, f). base_key D t tup) ws"
  let ?f = "freq_as_of D t T ws" and ?tu = "tuple_as_of D t T ws"
  have Bs: "sorted_list_of_set {B. history_after D t ws B \<noteq> []} = sort (remdups ?keys)"
    unfolding history_after_Nil by (simp add: sorted_list_of_set_sort_remdups flip: sorted_list_of_set_sort_remdups)
  have "visible_rows t T (groups_of tup_of (history_after D t ws)) =
      concat (map (\<lambda>B. if ?f B = 0 then [] else [(take ?n (tup_of B) @ drop ?n (?tu B), ?f B)]) (sort (remdups ?keys)))"
    unfolding visible_rows_def groups_of_def Bs map_map comp_def prod.case history_visible [OF ws(2)]
    by (intro arg_cong [of _ _ concat] map_cong) auto
  also have "\<dots> = map (\<lambda>B. (take ?n (tup_of B) @ drop ?n (?tu B), ?f B)) (filter (\<lambda>B. ?f B \<noteq> 0) (sort (remdups ?keys)))"
    by (rule concat_map_if)
  finally have eq: "visible_rows t T (groups_of tup_of (history_after D t ws)) =
      map (\<lambda>B. (take ?n (tup_of B) @ drop ?n (?tu B), ?f B)) (filter (\<lambda>B. ?f B \<noteq> 0) (sort (remdups ?keys)))" .
  have "row_matches D (take ?n (tup_of B) @ drop ?n (?tu B)) (?tu B)" if "B \<in> set ?keys" "?f B \<noteq> 0" for B
    using same_key_matches [OF wf] tup [OF that(1)] tuple_as_of_valid [OF ws(1) that(2)] by metis
  then show ?thesis unfolding eq snapshot_def rows_match_def
    by (auto simp: list_all2_map1 list_all2_map2 list_all2_same)
qed

lemma empty_repr: "(\<And>k. in_table t k \<Longrightarrow> m k = None) \<Longrightarrow> table_repr D jp t m (\<lambda>_. [])"
  by (simp add: table_repr_def valid_history_def)

text \<open>The written batch only touches records of the table.\<close>

lemma base_key_in_table [simp]: "in_table t (base_key D t tup @ x)"
  by (simp add: in_table_def base_key_def)

lemma writer_write_tuple_frame:
  assumes "valid_tuple D jp t tup" "wf_table t" "writer_write_tuple R D db t tup ts f w = Some (Inr w')"
  shows "\<exists>ops. write_batch w' = write_batch w @ ops \<and> (\<forall>b \<in> set ops. \<exists>k v. b = Put k v \<and> in_table t k)"
proof -
  have key: "write_index_header_key D t tup = Some (base_key D t tup @ [0])"
    using write_index_header_key_eq [of D jp tup t] assms(1,2) by (simp add: valid_tuple_def wf_table_def)
  show ?thesis using assms(3) unfolding writer_write_tuple_def key
    by (fastforce simp: batch_put_def Let_def bind_eq_Some_conv split: if_splits sum.splits option.splits)
qed

section \<open>Properties\<close>

text \<open>A table that holds the history of some writes is scanned as the snapshot of these writes.\<close>

lemma full_scan_history:
  assumes wf: "wf_table t" and rocks: "rocks_laws R contents rest" and laws: "decimal_laws D"
    and ws: "list_all (valid_write D jp t) ws" "sorted_wrt (\<le>) (map (fst \<circ> snd) ws)"
    and repr: "table_repr D jp t (contents db) (history_after D t ws)"
  shows "\<exists>it rows. full_scan R D db t T = Some it \<and> yields (index_advance R D jp) index_get it rows \<and>
    rows_match D rows (snapshot D t T ws)"
proof -
  define tup_of where "tup_of B = fst (last (filter (\<lambda>(tup, ts, f). base_key D t tup = B) ws))" for B
  have tup: "valid_tuple D jp t (tup_of B) \<and> base_key D t (tup_of B) = B"
    if "B \<in> set (map (\<lambda>(tup, ts, f). base_key D t tup) ws)" for B
  proof -
    let ?xs = "filter (\<lambda>(tup, ts, f). base_key D t tup = B) ws"
    have "?xs \<noteq> []" using that by (force simp: filter_empty_conv)
    then have "last ?xs \<in> set ?xs" by (rule last_in_set)
    then have "last ?xs \<in> set ws" "base_key D t (fst (last ?xs)) = B" by (auto simp del: last_in_set)
    then show ?thesis using ws(1) valid_write_tuple [of D jp t "last ?xs"] by (simp add: tup_of_def list_all_iff)
  qed
  have t2: "valid_tuple D jp t (tup_of B) \<and> base_key D t (tup_of B) = B" if "history_after D t ws B \<noteq> []" for B
    using that tup unfolding history_after_Nil by blast
  obtain it rows where s: "full_scan R D db t T = Some it" "yields (index_advance R D jp) index_get it rows"
    "rows_match D rows (visible_rows t T (groups_of tup_of (history_after D t ws)))"
    using full_scan_repr [where db = db and T = T and A = "history_after D t ws" and tup_of = tup_of, OF wf rocks repr t2 laws] by auto
  then show ?thesis using rows_match_trans [OF laws s(3) visible_rows_snapshot [OF wf laws ws tup]] by blast
qed



text \<open>System tables: a committed header record is what a point lookup reads.\<close>

lemma lookup_header:
  assumes wf: "wf_table t" and rocks: "rocks_laws R contents rest"
    and pk: "valid_row D jp pk" "length (t_pk t) \<le> length pk"
    and r: "valid_row D jp r" "length r < 2 ^ 64"
    and c: "contents db (base_key D t pk @ [0]) = Some (le_bytes 8 (unat ts) @ payload D f r)"
  shows "\<exists>zs. system_point_lookup R D jp db t pk = Some (Inr (Some (f, zs))) \<and> row_matches D zs r"
proof -
  have key: "write_index_header_key D t pk = Some (base_key D t pk @ [0])"
    using write_index_header_key_eq [OF pk] .
  have un: "unat (of_nat (length r) :: u64) = length r" using r(2) by (simp add: unat_of_nat)
  obtain p q zs where "read_varint_signed Asc (payload D f r) = Some (f, p)"
    "read_varint_unsigned Asc p = Some (of_nat (length r), q)"
    "read_into D jp (right_size_new_to (length r)) 0 (length r) q = Some (zs, [])" "row_matches D zs r"
    using read_payload [OF r, of 0 "right_size_new_to (length r)" f "[]"] by (auto simp: right_size_new_to_def)
  then show ?thesis using key rocks_get [OF rocks, of db] c un
    by (simp add: system_point_lookup_def)
qed

definition commit ::
  "('db, 'it) rocks_ops \<Rightarrow> 'db \<Rightarrow> (writer \<Rightarrow> writer option) \<Rightarrow> (storage_error + 'db) option" where
  "commit R db f = atomic_write R (\<lambda>e. e) db (\<lambda>w. map_option Inr (f w))"

text \<open>C29. System tables: after a committed \<open>system_write_tuple\<close> a point lookup with an equal key
  (whatever representation its datums have) returns the frequency and the non-key columns written,
  and after a committed \<open>system_delete_tuple\<close> it returns nothing.\<close>

theorem system_lookup_after_write:
  assumes wf: "wf_table t" and rocks: "rocks_laws R contents rest" and tup: "valid_tuple D jp t tup"
    and pk: "valid_row D jp pk" "length pk = length (t_pk t)" "row_matches D pk (take (length (t_pk t)) tup)"
  shows "(\<exists>db' zs. commit R db (system_write_tuple D t tup f) = Some (Inr db') \<and>
      system_point_lookup R D jp db' t pk = Some (Inr (Some (f, zs))) \<and> row_matches D zs (drop (length (t_pk t)) tup)) \<and>
    (\<exists>db'. commit R db (system_delete_tuple D t pk) = Some (Inr db') \<and>
      system_point_lookup R D jp db' t pk = Some (Inr None))"
proof -
  let ?n = "length (t_pk t)" and ?B = "base_key D t tup"
  have v: "valid_row D jp tup" "?n \<le> length tup" "length tup = t_length t"
    using tup wf by (simp_all add: valid_tuple_def wf_table_def)
  have B: "base_key D t pk = ?B"
    using base_key_eq [OF pk(1) v(1) _ v(2), of "[]" "[]"] pk(2,3) by (simp add: row_matches_def)
  have keys: "write_index_header_key D t tup = Some (?B @ [0])" "write_index_header_key D t pk = Some (?B @ [0])"
    using write_index_header_key_eq [OF v(1,2)] write_index_header_key_eq [OF pk(1)] pk(2) B by simp_all
  let ?v = "le_bytes 8 (unat (0 :: u64)) @ payload D f (drop ?n tup)"
  have "system_write_tuple D t tup f writer_new = Some (batch_put (?B @ [0]) ?v writer_new)"
    using keys(1) write_index_header_value_eq [OF v(1,2), of 0 f] by (simp add: system_write_tuple_def write_index_header_def)
  moreover obtain db1 where db1: "r_write R db [Put (?B @ [0]) ?v] = Inr db1" "contents db1 = (contents db)(?B @ [0] \<mapsto> ?v)"
    using rocks_write [OF rocks, of db "[Put (?B @ [0]) ?v]"] by (auto simp: apply_batch_def)
  ultimately have "commit R db (system_write_tuple D t tup f) = Some (Inr db1)"
    by (simp add: commit_def atomic_write_def batch_put_def writer_new_def)
  moreover have "length (drop ?n tup) < 2 ^ 64" using wf v(3) unfolding wf_table_def length_drop by linarith
  then obtain zs where "system_point_lookup R D jp db1 t pk = Some (Inr (Some (f, zs)))" "row_matches D zs (drop ?n tup)"
    using lookup_header [OF wf rocks pk(1) _ _ _, of "drop ?n tup" db1 0 f] valid_row_take_drop [OF v(1), of ?n] pk(2) db1(2) B
    by auto
  moreover obtain db2 where db2: "r_write R db [Delete (?B @ [0])] = Inr db2" "contents db2 = (contents db)(?B @ [0] := None)"
    using rocks_write [OF rocks, of db "[Delete (?B @ [0])]"] by (auto simp: apply_batch_def)
  then have "commit R db (system_delete_tuple D t pk) = Some (Inr db2)" "system_point_lookup R D jp db2 t pk = Some (Inr None)"
    using keys rocks_get [OF rocks, of db2]
    by (simp_all add: commit_def atomic_write_def system_delete_tuple_def batch_delete_def writer_new_def system_point_lookup_def)
  ultimately show ?thesis by blast
qed

theorem system_lookup_after_write_witness:
  "\<exists>db' zs. commit ref_rocks [] (system_write_tuple ref_decimal_ops \<lparr>t_id = 8, t_length = 2, t_pk = [Desc]\<rparr>
        [D_ByteARef [97], D_BigInt 5] 3) = Some (Inr db') \<and>
    system_point_lookup ref_rocks ref_decimal_ops (\<lambda>_. None) db' \<lparr>t_id = 8, t_length = 2, t_pk = [Desc]\<rparr> [D_ByteAOwned [97]] =
      Some (Inr (Some (3, zs))) \<and> row_matches ref_decimal_ops zs [D_BigInt 5]"
  using system_lookup_after_write [of "\<lparr>t_id = 8, t_length = 2, t_pk = [Desc]\<rparr>" ref_rocks map_of "\<lambda>it. it" ref_decimal_ops
      "\<lambda>_. None" "[D_ByteARef [97], D_BigInt 5]" "[D_ByteAOwned [97]]" "[]" 3] ref_rocks_laws ref_decimal_laws
  by (simp add: wf_table_def valid_tuple_def valid_row_def row_matches_def datum_eq_def)



end
