(* ===== verification/Executors.thy ===== *)
theory Executors
  imports Expr Table_Mvcc
begin

text \<open>
  The streaming executors (\<open>executor/src/point_in_time\<close>): single, values, filter, project, limit,
  negate_freq, union_all and table_scan.  Each is a state record with its \<open>advance\<close> and \<open>get\<close> over
  the \<open>advance\<close> and \<open>get\<close> of its source, which is a trait object in the code.  For each the rows it
  yields are characterised from the rows its source yields.
\<close>

datatype execution_error = StorageError storage_error | IOError string | DecodingError string

lemma yields_cong: "advance s = advance s' \<Longrightarrow> yields advance get s rs \<longleftrightarrow> yields advance get s' rs"
  by (cases rs) (simp_all add: yields_Nil_iff yields_Cons_iff)

lemma iter_next_Some [simp]: "advance s = Some (Inr s') \<Longrightarrow> iter_next advance get s = Some (Inr (s', get s'))"
  by (simp add: iter_next_def)

text \<open>A source given by its rows, for examples.\<close>

fun rows_advance :: "('d row option \<times> 'd row list, 'e) advance" where
  "rows_advance (cur, []) = Some (Inr (None, []))"
| "rows_advance (cur, r # rs) = Some (Inr (Some r, rs))"

definition rows_get :: "('d row option \<times> 'd row list, 'd) getter" where
  "rows_get = fst"

lemma rows_yields: "yields rows_advance rows_get (cur, rs) rs"
  by (induction rs arbitrary: cur) (simp_all add: yields_Nil_iff yields_Cons_iff rows_get_def)

section \<open>Single and values\<close>

datatype single_state = Single_Ready | Single_Single | Single_Done

fun single_advance :: "(single_state, 'e) advance" where
  "single_advance Single_Ready = Some (Inr Single_Single)"
| "single_advance Single_Single = Some (Inr Single_Done)"
| "single_advance Single_Done = Some (Inr Single_Done)"

fun single_get :: "(single_state, 'd) getter" where
  "single_get Single_Single = Some ([], 1)"
| "single_get state = None"

lemma single_yields: "yields single_advance single_get Single_Ready [([], 1)]"
  by (simp add: yields_Cons_iff yields_Nil_iff)

record 'd values_executor =
  v_iter :: "'d datum list list"
  v_curr_row :: "'d datum list option"
  v_column_count :: nat

definition values_new :: "'d datum list list \<Rightarrow> nat \<Rightarrow> 'd values_executor" where
  "values_new iter column_count = \<lparr>v_iter = iter, v_curr_row = None, v_column_count = column_count\<rparr>"

definition values_advance :: "('d values_executor, 'e) advance" where
  "values_advance self =
     (case v_iter self of
        [] \<Rightarrow> Some (Inr (self\<lparr>v_curr_row := None\<rparr>))
      | row # iter \<Rightarrow> Some (Inr (self\<lparr>v_iter := iter, v_curr_row := Some row\<rparr>)))"

definition values_get :: "('d values_executor, 'd) getter" where
  "values_get self = map_option (\<lambda>row. (row, 1)) (v_curr_row self)"

lemma values_yields_from:
  "yields values_advance values_get \<lparr>v_iter = data, v_curr_row = row, v_column_count = n\<rparr> (map (\<lambda>row. (row, 1)) data)"
  by (induction data arbitrary: row) (simp_all add: yields_Cons_iff yields_Nil_iff values_advance_def values_get_def)

lemma values_yields: "yields values_advance values_get (values_new data n) (map (\<lambda>row. (row, 1)) data)"
  unfolding values_new_def by (rule values_yields_from)

section \<open>Filter\<close>

record ('s, 'd) filter_executor =
  f_source :: 's
  f_session :: session
  f_predicate :: "'d expression"

definition filter_new :: "session \<Rightarrow> 's \<Rightarrow> 'd expression \<Rightarrow> ('s, 'd) filter_executor" where
  "filter_new session source predicate = \<lparr>f_source = source, f_session = session, f_predicate = predicate\<rparr>"

partial_function (option) filter_advance ::
  "('d, 'z) decimal_ops_scheme \<Rightarrow> ('s, 'e) advance \<Rightarrow> ('s, 'd) getter \<Rightarrow> ('s, 'd) filter_executor \<Rightarrow>
    ('e + ('s, 'd) filter_executor) option" where
  "filter_advance D advance get self =
     Option.bind (iter_next advance get (f_source self)) (\<lambda>r.
       case r of
         Inl e \<Rightarrow> Some (Inl e)
       | Inr (source, next) \<Rightarrow>
           let self = self\<lparr>f_source := source\<rparr> in
           (case next of
              None \<Rightarrow> Some (Inr self)
            | Some (tuple, freq) \<Rightarrow>
                Option.bind (eval_scalar (f_session self) tuple (f_predicate self)) (\<lambda>d.
                if datum_eq D d (D_Boolean True) then Some (Inr self) else filter_advance D advance get self)))"

definition filter_get :: "('s, 'd) getter \<Rightarrow> (('s, 'd) filter_executor, 'd) getter" where
  "filter_get get self = get (f_source self)"

text \<open>Whether a row satisfies a predicate: NULL counts as false.\<close>

definition satisfies :: "session \<Rightarrow> 'd expression \<Rightarrow> 'd datum list \<Rightarrow> bool" where
  "satisfies session predicate tuple \<longleftrightarrow> eval_scalar session tuple predicate = Some (D_Boolean True)"

lemma datum_eq_True: "datum_eq D d (D_Boolean True) \<longleftrightarrow> d = D_Boolean True"
  by (cases d) (auto simp: datum_eq_def)

lemma filter_yields:
  assumes "yields advance get s rs" "\<forall>r \<in> set rs. eval_scalar session (fst r) p \<noteq> None"
  shows "yields (filter_advance D advance get) (filter_get get) (filter_new session s p)
    (filter (\<lambda>r. satisfies session p (fst r)) rs)"
  using assms
proof (induction rule: yields.induct)
  case (yields_end s s')
  then show ?case
    by (simp add: yields_Nil_iff filter_advance.simps filter_get_def filter_new_def)
next
  case (yields_row s s' r rs)
  obtain t f d where [simp]: "r = (t, f)" and d: "eval_scalar session t p = Some d"
    using yields_row.prems by (cases r) auto
  have IH: "yields (filter_advance D advance get) (filter_get get) (filter_new session s' p)
      (filter (\<lambda>r. satisfies session p (fst r)) rs)" using yields_row by simp
  show ?case
  proof (cases "d = D_Boolean True")
    case True
    then have "filter_advance D advance get (filter_new session s p) = Some (Inr (filter_new session s' p))"
      using yields_row.hyps d by (subst filter_advance.simps) (simp add: filter_new_def datum_eq_True)
    moreover have "filter_get get (filter_new session s' p) = Some r"
      using yields_row.hyps by (simp add: filter_get_def filter_new_def)
    ultimately show ?thesis using True d IH by (auto simp: satisfies_def intro: yields.yields_row)
  next
    case False
    then have "filter_advance D advance get (filter_new session s p) = filter_advance D advance get (filter_new session s' p)"
      using yields_row.hyps d
      by (subst filter_advance.simps) (simp add: filter_new_def datum_eq_True)
    from yields_cong [OF this, of "filter_get get"] show ?thesis using IH False d by (simp add: satisfies_def)
  qed
qed

section \<open>Project\<close>

record ('s, 'd) project_executor =
  p_source :: 's
  p_session :: session
  p_expressions :: "'d expression list"
  p_tuple_buffer :: "'d datum list"

definition project_new :: "session \<Rightarrow> 's \<Rightarrow> 'd expression list \<Rightarrow> ('s, 'd) project_executor" where
  "project_new session source expressions =
     \<lparr>p_source = source, p_session = session, p_expressions = expressions, p_tuple_buffer = right_size_new expressions\<rparr>"

definition project_advance ::
  "('s, 'e) advance \<Rightarrow> ('s, 'd) getter \<Rightarrow> (('s, 'd) project_executor, 'e) advance" where
  "project_advance advance get self =
     Option.bind (iter_next advance get (p_source self)) (\<lambda>r.
       case r of
         Inl e \<Rightarrow> Some (Inl e)
       | Inr (source, None) \<Rightarrow> Some (Inr (self\<lparr>p_source := source\<rparr>))
       | Inr (source, Some (tuple, freq)) \<Rightarrow>
           Option.bind (eval_scalar_row (p_session self) (p_expressions self) tuple (p_tuple_buffer self)) (\<lambda>tuple_buffer.
           Some (Inr (self\<lparr>p_source := source, p_tuple_buffer := tuple_buffer\<rparr>))))"

definition project_get :: "('s, 'd) getter \<Rightarrow> (('s, 'd) project_executor, 'd) getter" where
  "project_get get self = map_option (\<lambda>(tuple, freq). (p_tuple_buffer self, freq)) (get (p_source self))"

lemma project_yields_buffer:
  assumes "yields advance get s rs" "\<forall>r \<in> set rs. eval_all session es (fst r) \<noteq> None" "length buf = length es"
  shows "yields (project_advance advance get) (project_get get)
    \<lparr>p_source = s, p_session = session, p_expressions = es, p_tuple_buffer = buf\<rparr>
    (map (apfst (\<lambda>t. the (eval_all session es t))) rs)"
  using assms
proof (induction arbitrary: buf rule: yields.induct)
  case (yields_end s s')
  then show ?case by (simp add: yields_Nil_iff project_advance_def project_get_def)
next
  case (yields_row s s' r rs)
  obtain t f ds where [simp]: "r = (t, f)" and ds: "eval_all session es t = Some ds"
    using yields_row.prems by (cases r) auto
  show ?case
    using yields_row.hyps yields_row.IH [of ds] yields_row.prems ds length_eval_all [OF ds]
    by (simp add: yields_Cons_iff project_advance_def project_get_def eval_scalar_row_eq)
qed

lemma project_yields:
  assumes "yields advance get s rs" "\<forall>r \<in> set rs. eval_all session es (fst r) \<noteq> None"
  shows "yields (project_advance advance get) (project_get get) (project_new session s es)
    (map (apfst (\<lambda>t. the (eval_all session es t))) rs)"
  unfolding project_new_def by (rule project_yields_buffer [OF assms]) simp

section \<open>Negated frequencies\<close>

definition negate_advance :: "('s, 'e) advance \<Rightarrow> ('s, 'e) advance" where
  "negate_advance advance source = advance source"

definition negate_get :: "('s, 'd) getter \<Rightarrow> ('s, 'd) getter" where
  "negate_get get source = map_option (\<lambda>(tuple, freq). (tuple, - freq)) (get source)"

lemma negate_yields:
  "yields advance get s rs \<Longrightarrow> yields (negate_advance advance) (negate_get get) s (map (apsnd uminus) rs)"
  by (induction rule: yields.induct)
    (auto simp: yields_Nil_iff yields_Cons_iff negate_advance_def negate_get_def split: prod.splits)

section \<open>Union all\<close>

record 's union_all_executor =
  u_sources :: "'s list"
  u_curr_source :: 's

text \<open>A union of no sources panics.\<close>

fun union_all_new :: "'s list \<Rightarrow> 's union_all_executor option" where
  "union_all_new [] = None"
| "union_all_new (first # sources) = Some \<lparr>u_sources = sources, u_curr_source = first\<rparr>"

partial_function (option) union_all_advance ::
  "('s, 'e) advance \<Rightarrow> ('s, 'd) getter \<Rightarrow> 's union_all_executor \<Rightarrow> ('e + 's union_all_executor) option" where
  "union_all_advance advance get self =
     Option.bind (iter_next advance get (u_curr_source self)) (\<lambda>r.
       case r of
         Inl e \<Rightarrow> Some (Inl e)
       | Inr (source, Some row) \<Rightarrow> Some (Inr (self\<lparr>u_curr_source := source\<rparr>))
       | Inr (source, None) \<Rightarrow>
           (case u_sources self of
              next # sources \<Rightarrow> union_all_advance advance get (self\<lparr>u_curr_source := next, u_sources := sources\<rparr>)
            | [] \<Rightarrow> Some (Inr (self\<lparr>u_curr_source := source\<rparr>))))"

definition union_all_get :: "('s, 'd) getter \<Rightarrow> ('s union_all_executor, 'd) getter" where
  "union_all_get get self = get (u_curr_source self)"

lemma union_all_yields_from:
  assumes "yields advance get s rs" "list_all2 (yields advance get) ss rss"
  shows "yields (union_all_advance advance get) (union_all_get get) \<lparr>u_sources = ss, u_curr_source = s\<rparr> (rs @ concat rss)"
  using assms
proof (induction ss arbitrary: s rs rss)
  case Nil
  from Nil.prems(1) show ?case using Nil.prems(2)
    by (induction rule: yields.induct)
      (simp_all add: yields_Nil_iff yields_Cons_iff union_all_advance.simps union_all_get_def)
next
  case (Cons s2 ss)
  then obtain rs2 rss' where rss: "rss = rs2 # rss'" "yields advance get s2 rs2" "list_all2 (yields advance get) ss rss'"
    by (auto simp: list_all2_Cons1)
  from Cons.prems(1) show ?case
  proof (induction rule: yields.induct)
    case (yields_end s s')
    then have "union_all_advance advance get \<lparr>u_sources = s2 # ss, u_curr_source = s\<rparr> =
        union_all_advance advance get \<lparr>u_sources = ss, u_curr_source = s2\<rparr>"
      by (subst union_all_advance.simps) simp
    from yields_cong [OF this, of "union_all_get get"] show ?case using Cons.IH [OF rss(2,3)] rss(1) by simp
  next
    case (yields_row s s' r rs)
    then show ?case
      by (simp add: yields_Cons_iff union_all_advance.simps [of _ _ "\<lparr>u_sources = s2 # ss, u_curr_source = s\<rparr>"] union_all_get_def)
  qed
qed

lemma union_all_yields:
  assumes "list_all2 (yields advance get) sources rss" "sources \<noteq> []"
  shows "\<exists>self. union_all_new sources = Some self \<and>
    yields (union_all_advance advance get) (union_all_get get) self (concat rss)"
  using assms union_all_yields_from by (cases sources) (fastforce simp: list_all2_Cons1)+

section \<open>Table scans\<close>

text \<open>The executor owns the storage iterator and converts its errors.\<close>

definition table_scan_new ::
  "('db, 'it) rocks_ops \<Rightarrow> ('d, 'z) decimal_ops_scheme \<Rightarrow> 'db \<Rightarrow> table \<Rightarrow> u64 \<Rightarrow> ('it, 'd) index_iter option" where
  "table_scan_new R D db table timestamp = full_scan R D db table timestamp"

definition table_scan_advance ::
  "('db, 'it) rocks_ops \<Rightarrow> ('d, 'z) decimal_ops_scheme \<Rightarrow> (bytes \<Rightarrow> json_path_selector list option) \<Rightarrow>
    (('it, 'd) index_iter, execution_error) advance" where
  "table_scan_advance R D jp scan_iter = map_option (map_sum StorageError (\<lambda>s. s)) (index_advance R D jp scan_iter)"

definition table_scan_get :: "(('it, 'd) index_iter, 'd) getter" where
  "table_scan_get scan_iter = index_get scan_iter"

lemma table_scan_yields:
  "yields (index_advance R D jp) index_get it rs \<Longrightarrow> yields (table_scan_advance R D jp) table_scan_get it rs"
  by (induction rule: yields.induct)
    (auto simp: yields_Nil_iff yields_Cons_iff table_scan_advance_def table_scan_get_def)

section \<open>Limit\<close>

record 's limit_executor =
  l_source :: 's
  l_offset_remaining :: i64
  l_limit_remaining :: i64
  l_current_freq :: i64

definition limit_new :: "'s \<Rightarrow> i64 \<Rightarrow> i64 \<Rightarrow> 's limit_executor" where
  "limit_new source offset limit =
     \<lparr>l_source = source, l_offset_remaining = offset, l_limit_remaining = limit, l_current_freq = 0\<rparr>"

text \<open>The loop that skips the offset; the flag tells that it returned from \<open>advance\<close>.\<close>

partial_function (option) limit_offset_loop ::
  "('s, 'e) advance \<Rightarrow> ('s, 'd) getter \<Rightarrow> 's limit_executor \<Rightarrow> ('e + bool \<times> 's limit_executor) option" where
  "limit_offset_loop advance get self =
     (if 0 < sint (l_offset_remaining self) then
        Option.bind (iter_next advance get (l_source self)) (\<lambda>r.
          case r of
            Inl e \<Rightarrow> Some (Inl e)
          | Inr (source, None) \<Rightarrow> Some (Inr (False, self\<lparr>l_source := source\<rparr>))
          | Inr (source, Some (tuple, freq)) \<Rightarrow>
              let self = self\<lparr>l_source := source, l_offset_remaining := l_offset_remaining self - freq\<rparr> in
              if sint (l_offset_remaining self) < 0
              then Some (Inr (True, self\<lparr>l_current_freq := - l_offset_remaining self\<rparr>))
              else limit_offset_loop advance get self)
      else Some (Inr (False, self)))"

definition limit_advance :: "('s, 'e) advance \<Rightarrow> ('s, 'd) getter \<Rightarrow> ('s limit_executor, 'e) advance" where
  "limit_advance advance get self =
     Option.bind (limit_offset_loop advance get self) (\<lambda>r.
       case r of
         Inl e \<Rightarrow> Some (Inl e)
       | Inr (True, self) \<Rightarrow> Some (Inr self)
       | Inr (False, self) \<Rightarrow>
           if 0 < sint (l_limit_remaining self) then
             Option.bind (iter_next advance get (l_source self)) (\<lambda>r.
               case r of
                 Inl e \<Rightarrow> Some (Inl e)
               | Inr (source, Some (tuple, freq)) \<Rightarrow>
                   Some (Inr (self\<lparr>l_source := source,
                     l_current_freq := (if sint freq \<le> sint (l_limit_remaining self) then freq else l_limit_remaining self),
                     l_limit_remaining := l_limit_remaining self - freq\<rparr>))
               | Inr (source, None) \<Rightarrow> Some (Inr (self\<lparr>l_source := source, l_current_freq := 0\<rparr>)))
           else Some (Inr (self\<lparr>l_current_freq := 0\<rparr>)))"

definition limit_get :: "('s, 'd) getter \<Rightarrow> ('s limit_executor, 'd) getter" where
  "limit_get get self =
     (if l_current_freq self \<noteq> 0
      then map_option (\<lambda>(tuple, freq). (tuple, l_current_freq self)) (get (l_source self)) else None)"

text \<open>Rows with positive frequencies as the bag they stand for, in order.\<close>

definition row_count :: "'d row \<Rightarrow> nat" where
  "row_count r = nat (sint (snd r))"

definition expand_rows :: "'d row list \<Rightarrow> 'd datum list list" where
  "expand_rows rs = concat (map (\<lambda>r. replicate (row_count r) (fst r)) rs)"

definition positive_rows :: "'d row list \<Rightarrow> bool" where
  "positive_rows rs = list_all (\<lambda>r. 0 < sint (snd r)) rs"

lemma positive_rows_simps [simp]:
  "positive_rows []"
  "positive_rows (r # rs) \<longleftrightarrow> 0 < sint (snd r) \<and> positive_rows rs"
  "positive_rows (rs @ rs') \<longleftrightarrow> positive_rows rs \<and> positive_rows rs'"
  by (simp_all add: positive_rows_def)

lemma expand_rows_simps [simp]:
  "expand_rows [] = []"
  "expand_rows (r # rs) = replicate (row_count r) (fst r) @ expand_rows rs"
  by (simp_all add: expand_rows_def)

lemma sum_positive_rows: "positive_rows rs \<Longrightarrow> 0 \<le> (\<Sum>r \<leftarrow> rs. sint (snd r))"
  by (induction rs) simp_all

text \<open>The first \<open>n\<close> rows of the bag.\<close>

fun take_rows :: "i64 \<Rightarrow> 'd row list \<Rightarrow> 'd row list" where
  "take_rows n [] = []"
| "take_rows n (r # rs) =
     (if sint n \<le> 0 then [] else (fst r, if sint (snd r) \<le> sint n then snd r else n) # take_rows (n - snd r) rs)"

lemma sint_diff_positive:
  assumes "0 < sint a" "0 < sint (b :: i64)"
  shows "sint (a - b) = sint a - sint b"
  using assms sint_i64_bounds [of a] sint_i64_bounds [of b]
  by (simp add: sint_word_ariths signed_take_bit_int_eq_self)

lemma limit_offset_loop_done [simp]:
  "sint (l_offset_remaining self) \<le> 0 \<Longrightarrow> limit_offset_loop advance get self = Some (Inr (False, self))"
  by (subst limit_offset_loop.simps) simp

lemma take_rows_yields:
  assumes "yields advance get s rs" "positive_rows rs" "sint off \<le> 0"
  shows "yields (limit_advance advance get) (limit_get get)
    \<lparr>l_source = s, l_offset_remaining = off, l_limit_remaining = n, l_current_freq = c\<rparr> (take_rows n rs)"
  using assms
proof (induction arbitrary: n c rule: yields.induct)
  case (yields_end s s')
  then show ?case by (simp add: yields_Nil_iff limit_advance_def limit_get_def)
next
  case (yields_row s s' r rs)
  obtain t f where [simp]: "r = (t, f)" by (cases r)
  show ?case
  proof (cases "0 < sint n")
    case True
    then show ?thesis
      using yields_row.hyps yields_row.IH yields_row.prems
      by (auto simp: yields_Cons_iff limit_advance_def limit_get_def)
  next
    case False
    then show ?thesis using yields_row.prems by (simp add: yields_Nil_iff limit_advance_def limit_get_def)
  qed
qed

lemma take_rows_expand:
  "positive_rows rs \<Longrightarrow> expand_rows (take_rows n rs) = take (nat (sint n)) (expand_rows rs)"
proof (induction n rs rule: take_rows.induct)
  case (2 n r rs)
  show ?case
  proof (cases "0 < sint n")
    case True
    then have d: "sint (n - snd r) = sint n - sint (snd r)" using sint_diff_positive 2 by simp
    then show ?thesis using 2 True by (auto simp: row_count_def min_def nat_diff_distrib)
  qed simp
qed simp

text \<open>Skipping whole rows.\<close>

lemma skip_rows_yields:
  assumes "yields advance get s (skipped @ rs)" "positive_rows (skipped @ rs)"
    and "sint off = (\<Sum>r \<leftarrow> skipped. sint (snd r))"
  shows "yields (limit_advance advance get) (limit_get get)
    \<lparr>l_source = s, l_offset_remaining = off, l_limit_remaining = n, l_current_freq = c\<rparr> (take_rows n rs)"
  using assms
proof (induction skipped arbitrary: s off)
  case Nil
  then show ?case using take_rows_yields [of advance get s rs off n c] by simp
next
  case (Cons r skipped)
  then obtain s' where s': "advance s = Some (Inr s')" "get s' = Some r" "yields advance get s' (skipped @ rs)"
    by (auto simp: yields_Cons_iff)
  obtain t f where [simp]: "r = (t, f)" by (cases r)
  have nn: "0 \<le> (\<Sum>r \<leftarrow> skipped. sint (snd r))"
    using Cons.prems(2) sum_positive_rows [of skipped] by simp
  have o: "0 < sint off" "0 < sint f" "sint (off - f) = sint off - sint f"
    using Cons.prems nn sint_diff_positive [of off f] by auto
  let ?self = "\<lambda>s off. \<lparr>l_source = s, l_offset_remaining = off, l_limit_remaining = n, l_current_freq = c\<rparr>"
  have "limit_offset_loop advance get (?self s off) = limit_offset_loop advance get (?self s' (off - f))"
    using s' o nn Cons.prems(3) by (subst limit_offset_loop.simps) simp
  then have "limit_advance advance get (?self s off) = limit_advance advance get (?self s' (off - f))"
    by (simp add: limit_advance_def)
  from yields_cong [OF this, of "limit_get get"] show ?case
    using Cons.IH [OF s'(3), of "off - f"] Cons.prems o by simp
qed

lemma skip_rows_expand:
  "positive_rows rs \<Longrightarrow> drop (nat (\<Sum>r \<leftarrow> skipped. sint (snd r))) (expand_rows (skipped @ rs)) = expand_rows rs"
  if "positive_rows skipped"
proof -
  have "nat (\<Sum>r \<leftarrow> skipped. sint (snd r)) = length (expand_rows skipped)" using that
  proof (induction skipped)
    case (Cons r skipped)
    then show ?case using Cons sum_positive_rows [of skipped] by (simp add: row_count_def nat_add_distrib)
  qed simp
  then show ?thesis by (simp add: expand_rows_def)
qed

text \<open>The offset ends within a row.\<close>

lemma straddle_yields:
  assumes "yields advance get s (r # rs)" "positive_rows (r # rs)" "0 < sint off" "sint off < sint (snd r)"
  shows "yields (limit_advance advance get) (limit_get get) (limit_new s off n) ((fst r, snd r - off) # take_rows n rs)"
proof -
  obtain s' where s': "advance s = Some (Inr s')" "get s' = Some r" "yields advance get s' rs"
    using assms(1) by (auto simp: yields_Cons_iff)
  obtain t f where [simp]: "r = (t, f)" by (cases r)
  have d: "sint (off - f) = sint off - sint f" using assms sint_diff_positive by simp
  have nz: "f \<noteq> off" using assms(4) by auto
  have "limit_advance advance get (limit_new s off n) =
      Some (Inr \<lparr>l_source = s', l_offset_remaining = off - f, l_limit_remaining = n, l_current_freq = f - off\<rparr>)"
    using s' assms d by (simp add: limit_advance_def limit_new_def limit_offset_loop.simps [of _ _ "\<lparr>l_source = s, l_offset_remaining = off, l_limit_remaining = n, l_current_freq = 0\<rparr>"])
  then show ?thesis
    using take_rows_yields [OF s'(3), of "off - f" n "f - off"] assms s' d nz
    by (simp add: yields_Cons_iff limit_get_def)
qed

section \<open>Properties\<close>

text \<open>A filter delivers the rows of its source that satisfy the predicate, in their order and
  with their frequencies (a predicate that is NULL drops the row); a projection delivers, for every
  row of its source, the row of its expressions evaluated on it, with the same frequency.\<close>

theorem filter_project_rows:
  assumes "yields advance get s rs" "\<forall>r \<in> set rs. eval_scalar session (fst r) p \<noteq> None"
    "\<forall>r \<in> set rs. eval_all session es (fst r) \<noteq> None"
  shows "yields (filter_advance D advance get) (filter_get get) (filter_new session s p)
      (filter (\<lambda>r. satisfies session p (fst r)) rs) \<and>
    yields (project_advance advance get) (project_get get) (project_new session s es)
      (map (\<lambda>r. (the (eval_all session es (fst r)), snd r)) rs)"
  using filter_yields [OF assms(1,2), of D] project_yields [OF assms(1,3)]
  by (simp add: apfst_def map_prod_def case_prod_unfold)

theorem filter_project_rows_witness:
  "yields (filter_advance ref_decimal_ops (values_advance :: (_, execution_error) advance) values_get) (filter_get values_get)
      (filter_new (session_new 1) (values_new [[D_Integer 7, D_Boolean True], [D_Integer 8, D_Null]] 2)
        (CompiledColumnReference 1 T_Boolean)) [([D_Integer 7, D_Boolean True], 1)]"
  using filter_project_rows [of "values_advance :: (_, execution_error) advance" values_get
      "values_new [[D_Integer 7, D_Boolean True], [D_Integer 8, D_Null]] 2" _ "session_new 1" "CompiledColumnReference 1 T_Boolean" "[CompiledColumnReference 0 T_Integer]" ref_decimal_ops]
    values_yields [of "[[D_Integer 7, D_Boolean True], [D_Integer 8, D_Null]]" 2]
  by (fastforce simp: satisfies_def)



text \<open>When the offset ends within a row, the remainder of that row is delivered whatever the
  limit, and is not counted against it: more rows than the limit are delivered.\<close>

theorem limit_offset_within_row:
  assumes "yields advance get s (r # rs)" "positive_rows (r # rs)" "0 < sint offset" "sint offset < sint (snd r)"
    and "0 \<le> sint limit" "nat (sint limit) \<le> length (expand_rows rs)"
  shows "\<exists>out. yields (limit_advance advance get) (limit_get get) (limit_new s offset limit) out \<and>
    length (expand_rows out) = nat (sint limit) + nat (sint (snd r) - sint offset)"
proof -
  have "sint (snd r - offset) = sint (snd r) - sint offset" using assms sint_diff_positive by simp
  then show ?thesis
    using straddle_yields [OF assms(1-4), of limit] take_rows_expand [of rs limit] assms(2,6)
    by (intro exI [of _ "(fst r, snd r - offset) # take_rows limit rs"]) (simp add: row_count_def)
qed

theorem limit_offset_within_row_witness:
  "\<exists>out. yields (limit_advance rows_advance rows_get) (limit_get rows_get)
      (limit_new (None, [([D_Integer 1], 5), ([D_Integer 2 :: unit datum], 1)]) 2 1) out \<and>
    length (expand_rows out) = 1 + 3"
  using limit_offset_within_row [OF rows_yields [of None "[([D_Integer 1], 5), ([D_Integer 2 :: unit datum], 1)]"], of 2 1]
  by (simp add: row_count_def)

end
