(* ===== verification/Sort_Executor.thy ===== *)
theory Sort_Executor
  imports Executors "HOL-Library.Multiset"
begin

text \<open>
  The sort executor (\<open>executor/src/point_in_time/sort.rs\<close>): every row is written into one buffer as
  its encoded sort keys, its encoded columns and its frequency; pairs of offsets into the buffer
  are sorted by the bytes they delimit; the rows are decoded again in that order.  It rests on the
  order of encoded rows.  \<open>sort_unstable_by\<close> may order equal byte strings either way; they decode
  to the same row, so a stable sort stands for it.
\<close>

datatype sort_state = Sort_Ready | Sort_Serving | Sort_Done

record ('s, 'd) sort_executor =
  so_source :: 's
  so_session :: session
  so_expressions :: "'d sort_expression list"
  so_buffer :: bytes
  so_indexes :: "(u32 \<times> u32) list"
  so_state :: sort_state
  so_tuple_buffer :: "'d datum list"
  so_freq :: i64

definition sort_new :: "session \<Rightarrow> 's \<Rightarrow> nat \<Rightarrow> 'd sort_expression list \<Rightarrow> ('s, 'd) sort_executor" where
  "sort_new session source column_count sort_expressions =
     \<lparr>so_source = source, so_session = session, so_expressions = sort_expressions, so_buffer = [], so_indexes = [],
      so_state = Sort_Ready, so_tuple_buffer = right_size_new_to column_count, so_freq = 0\<rparr>"

fun write_sort_keys ::
  "('d, 'z) decimal_ops_scheme \<Rightarrow> session \<Rightarrow> 'd datum list \<Rightarrow> 'd sort_expression list \<Rightarrow> bytes \<Rightarrow> bytes option" where
  "write_sort_keys D session tuple [] buffer = Some buffer"
| "write_sort_keys D session tuple (sort_expr # exprs) buffer =
     Option.bind (eval_scalar session tuple (se_expression sort_expr)) (\<lambda>datum.
     Option.bind (as_sortable_bytes D datum (se_ordering sort_expr) buffer) (write_sort_keys D session tuple exprs))"

partial_function (option) sort_ingest_loop ::
  "('d, 'z) decimal_ops_scheme \<Rightarrow> ('s, 'e) advance \<Rightarrow> ('s, 'd) getter \<Rightarrow> ('s, 'd) sort_executor \<Rightarrow> (u32 \<times> u32) list \<Rightarrow>
    ('e + ('s, 'd) sort_executor \<times> (u32 \<times> u32) list) option" where
  "sort_ingest_loop D advance get self sort_indexes =
     Option.bind (iter_next advance get (so_source self)) (\<lambda>r.
       case r of
         Inl e \<Rightarrow> Some (Inl e)
       | Inr (source, None) \<Rightarrow> Some (Inr (self\<lparr>so_source := source\<rparr>, sort_indexes))
       | Inr (source, Some (tuple, freq)) \<Rightarrow>
           Option.bind (write_sort_keys D (so_session self) tuple (so_expressions self) (so_buffer self)) (\<lambda>buffer.
           Option.bind (write_row D (replicate (length tuple) Asc) tuple buffer) (\<lambda>buffer.
           let buffer = write_varint_signed freq Asc buffer in
           if length buffer > unat (- 1 :: u32) then None
           else
             sort_ingest_loop D advance get (self\<lparr>so_source := source, so_buffer := buffer\<rparr>)
               (sort_indexes @ [(of_nat (length (so_buffer self)), of_nat (length buffer))]))))"

definition sort_slice :: "bytes \<Rightarrow> u32 \<times> u32 \<Rightarrow> bytes" where
  "sort_slice buffer i = take (unat (snd i) - unat (fst i)) (drop (unat (fst i)) buffer)"

definition sort_ingest ::
  "('d, 'z) decimal_ops_scheme \<Rightarrow> ('s, 'e) advance \<Rightarrow> ('s, 'd) getter \<Rightarrow> (('s, 'd) sort_executor, 'e) advance" where
  "sort_ingest D advance get self =
     Option.bind (sort_ingest_loop D advance get (self\<lparr>so_buffer := []\<rparr>) []) (\<lambda>r.
       case r of
         Inl e \<Rightarrow> Some (Inl e)
       | Inr (self, sort_indexes) \<Rightarrow>
           Some (Inr (self\<lparr>so_indexes := sort_key (sort_slice (so_buffer self)) sort_indexes\<rparr>)))"

text \<open>The sort keys are read and thrown away.\<close>

fun skip_datums ::
  "('d, 'z) decimal_ops_scheme \<Rightarrow> (bytes \<Rightarrow> json_path_selector list option) \<Rightarrow> nat \<Rightarrow> bytes \<Rightarrow> bytes option" where
  "skip_datums D jp 0 buf = Some buf"
| "skip_datums D jp (Suc n) buf =
     Option.bind (from_sortable_bytes D jp buf) (\<lambda>(_, buf). skip_datums D jp n buf)"

definition sort_serve ::
  "('d, 'z) decimal_ops_scheme \<Rightarrow> (bytes \<Rightarrow> json_path_selector list option) \<Rightarrow> (('s, 'd) sort_executor, 'e) advance" where
  "sort_serve D jp self =
     (case so_indexes self of
        i # sort_indexes \<Rightarrow>
          Option.bind (skip_datums D jp (length (so_expressions self)) (sort_slice (so_buffer self) i)) (\<lambda>buf.
          Option.bind (read_into D jp (so_tuple_buffer self) 0 (length (so_tuple_buffer self)) buf) (\<lambda>(tuple_buffer, buf).
          Option.bind (read_varint_signed Asc buf) (\<lambda>(freq, _).
          Some (Inr (self\<lparr>so_indexes := sort_indexes, so_tuple_buffer := tuple_buffer, so_freq := freq\<rparr>)))))
      | [] \<Rightarrow> Some (Inr (self\<lparr>so_buffer := [], so_indexes := [], so_state := Sort_Done\<rparr>)))"

definition sort_advance ::
  "('d, 'z) decimal_ops_scheme \<Rightarrow> (bytes \<Rightarrow> json_path_selector list option) \<Rightarrow> ('s, 'e) advance \<Rightarrow> ('s, 'd) getter \<Rightarrow>
    (('s, 'd) sort_executor, 'e) advance" where
  "sort_advance D jp advance get self =
     (if so_state self = Sort_Ready then
        Option.bind (sort_ingest D advance get self) (\<lambda>r.
          case r of
            Inl e \<Rightarrow> Some (Inl e)
          | Inr self \<Rightarrow> sort_serve D jp (self\<lparr>so_state := Sort_Serving\<rparr>))
      else sort_serve D jp self)"

definition sort_get :: "(('s, 'd) sort_executor, 'd) getter" where
  "sort_get self = (if so_state self = Sort_Done then None else Some (so_tuple_buffer self, so_freq self))"

section \<open>The encoded records\<close>

abbreviation sort_orders :: "'d sort_expression list \<Rightarrow> sort_order list" where
  "sort_orders es \<equiv> map se_ordering es"

definition sort_keys :: "session \<Rightarrow> 'd sort_expression list \<Rightarrow> 'd datum list \<Rightarrow> 'd datum list" where
  "sort_keys session es tuple = the (eval_all session (map se_expression es) tuple)"

definition sort_record :: "('d, 'z) decimal_ops_scheme \<Rightarrow> session \<Rightarrow> 'd sort_expression list \<Rightarrow> 'd row \<Rightarrow> bytes" where
  "sort_record D session es r =
     row_bytes D (sort_orders es) (sort_keys session es (fst r)) @
     row_bytes D (replicate (length (fst r)) Asc) (fst r) @ write_varint_signed (snd r) Asc []"

text \<open>The sort keys of a row evaluate, and they and the row's columns can be encoded.\<close>

definition sortable_row ::
  "('d, 'z) decimal_ops_scheme \<Rightarrow> (bytes \<Rightarrow> json_path_selector list option) \<Rightarrow> session \<Rightarrow> 'd sort_expression list \<Rightarrow> nat \<Rightarrow>
    'd row \<Rightarrow> bool" where
  "sortable_row D jp session es n r \<longleftrightarrow>
     length (fst r) = n \<and> valid_row D jp (fst r) \<and>
     (\<exists>ks. eval_all session (map se_expression es) (fst r) = Some ks \<and> valid_row D jp ks)"

lemma sortable_row_keys:
  "sortable_row D jp session es n r \<Longrightarrow>
    eval_all session (map se_expression es) (fst r) = Some (sort_keys session es (fst r)) \<and>
    valid_row D jp (sort_keys session es (fst r)) \<and> length (sort_keys session es (fst r)) = length es"
  using length_eval_all [of session "map se_expression es" "fst r"] by (auto simp: sortable_row_def sort_keys_def)

lemma write_sort_keys_eq:
  assumes "eval_all session (map se_expression es) tuple = Some ks"
  shows "write_sort_keys D session tuple es buf = write_row D (sort_orders es) ks buf"
  using assms
proof (induction es arbitrary: ks buf)
  case (Cons e es)
  then obtain k ks' where "ks = k # ks'" "eval_scalar session tuple (se_expression e) = Some k"
    "eval_all session (map se_expression es) tuple = Some ks'" by (auto simp: bind_eq_Some_conv)
  then show ?case using Cons.IH by (cases "as_sortable_bytes D k (se_ordering e) buf") simp_all
qed simp

lemma write_sort_record:
  assumes "sortable_row D jp session es n r"
  shows "Option.bind (write_sort_keys D session (fst r) es buf) (\<lambda>b.
    map_option (write_varint_signed (snd r) Asc) (write_row D (replicate (length (fst r)) Asc) (fst r) b)) =
    Some (buf @ sort_record D session es r)"
proof -
  have v: "valid_row D jp (fst r)" "valid_row D jp (sort_keys session es (fst r))"
    using assms sortable_row_keys [OF assms] by (auto simp: sortable_row_def)
  have "write_sort_keys D session (fst r) es buf = Some (buf @ row_bytes D (sort_orders es) (sort_keys session es (fst r)))"
    using write_sort_keys_eq write_row_append [OF v(2)] sortable_row_keys [OF assms] by metis
  then show ?thesis
    using write_varint_signed_append [of "snd r" Asc "_ @ _"]
    by (simp add: write_row_append [OF v(1)] sort_record_def)
qed


section \<open>Ingesting\<close>

text \<open>The offsets of consecutive records.\<close>

fun record_spans :: "nat \<Rightarrow> bytes list \<Rightarrow> (u32 \<times> u32) list" where
  "record_spans n [] = []"
| "record_spans n (x # xs) = (of_nat n, of_nat (n + length x)) # record_spans (n + length x) xs"

lemma record_spans_slices:
  assumes "length (B @ concat xs) < 2 ^ 32"
  shows "map (sort_slice (B @ concat xs)) (record_spans (length B) xs) = xs"
  using assms
proof (induction xs arbitrary: B)
  case (Cons x xs)
  have "unat (of_nat (length B) :: u32) = length B" "unat (of_nat (length B + length x) :: u32) = length B + length x"
    using Cons.prems by (simp_all only: unat_of_nat) simp_all
  then have "sort_slice (B @ concat (x # xs)) (of_nat (length B), of_nat (length B + length x)) = x"
    by (simp only: sort_slice_def fst_conv snd_conv) simp
  then show ?case using Cons.IH [of "B @ x"] Cons.prems by simp
qed simp

lemma sort_ingest_loop_rows:
  assumes "yields advance get (so_source self) rs" "\<forall>r \<in> set rs. sortable_row D jp (so_session self) (so_expressions self) n r"
    and "length (so_buffer self @ concat (map (sort_record D (so_session self) (so_expressions self)) rs)) < 2 ^ 32"
  shows "\<exists>s'. sort_ingest_loop D advance get self I =
    Some (Inr (self\<lparr>so_source := s', so_buffer := so_buffer self @ concat (map (sort_record D (so_session self) (so_expressions self)) rs)\<rparr>,
      I @ record_spans (length (so_buffer self)) (map (sort_record D (so_session self) (so_expressions self)) rs)))"
  using assms
proof (induction "so_source self" rs arbitrary: self I rule: yields.induct)
  case (yields_end s')
  then show ?case by (subst sort_ingest_loop.simps) auto
next
  case (yields_row s' r rs)
  obtain t f where [simp]: "r = (t, f)" by (cases r)
  let ?rec = "sort_record D (so_session self) (so_expressions self)"
  let ?buf = "so_buffer self @ ?rec r"
  let ?self = "self\<lparr>so_source := s', so_buffer := ?buf\<rparr>"
  obtain b1 b2 where b: "write_sort_keys D (so_session self) t (so_expressions self) (so_buffer self) = Some b1"
    "write_row D (replicate (length t) Asc) t b1 = Some b2" "write_varint_signed f Asc b2 = ?buf"
    using write_sort_record [of D jp "so_session self" "so_expressions self" n r "so_buffer self"] yields_row.prems(1)
    by (auto simp: bind_eq_Some_conv)
  have len: "\<not> unat (- 1 :: u32) < length ?buf" using yields_row.prems(2) by (simp add: unsigned_minus_1_eq_mask mask_eq_exp_minus_1)
  have "sort_ingest_loop D advance get self I =
      sort_ingest_loop D advance get ?self (I @ [(of_nat (length (so_buffer self)), of_nat (length ?buf))])"
    using yields_row.hyps b len by (subst sort_ingest_loop.simps) (simp add: Let_def)
  then show ?case
    using yields_row.hyps(4) [of ?self "I @ [(of_nat (length (so_buffer self)), of_nat (length ?buf))]"] yields_row.prems by simp
qed

lemma map_sort_key: "map f (sort_key f xs) = sort (map f xs)"
  by (rule properties_for_sort [symmetric]) simp_all

lemma sort_ingest_rows:
  assumes "yields advance get s rs" "\<forall>r \<in> set rs. sortable_row D jp session es n r"
    and "length (concat (map (sort_record D session es) rs)) < 2 ^ 32"
  shows "\<exists>self. sort_ingest D advance get (sort_new session s n es) = Some (Inr self) \<and>
    so_session self = session \<and> so_expressions self = es \<and> so_tuple_buffer self = right_size_new_to n \<and>
    map (sort_slice (so_buffer self)) (so_indexes self) = map (sort_record D session es) (sort_key (sort_record D session es) rs)"
proof -
  obtain s' where s': "sort_ingest_loop D advance get ((sort_new session s n es)\<lparr>so_buffer := []\<rparr>) [] =
      Some (Inr ((sort_new session s n es)\<lparr>so_source := s', so_buffer := concat (map (sort_record D session es) rs)\<rparr>,
        record_spans 0 (map (sort_record D session es) rs)))"
    using sort_ingest_loop_rows [of advance get "(sort_new session s n es)\<lparr>so_buffer := []\<rparr>" rs D jp n "[]"] assms
    by (auto simp: sort_new_def)
  show ?thesis
    using s' record_spans_slices [of "[]" "map (sort_record D session es) rs"] assms(3)
    by (simp add: sort_ingest_def map_sort_key) (simp add: sort_new_def)
qed


section \<open>Serving\<close>

lemma skip_datums_row:
  "valid_row D jp ks \<Longrightarrow> length sos = length ks \<Longrightarrow> skip_datums D jp (length ks) (row_bytes D sos ks @ r) = Some r"
proof (induction ks arbitrary: sos)
  case Nil
  then show ?case by (simp add: row_bytes_def)
next
  case (Cons k ks)
  then obtain so sos' where so: "sos = so # sos'" "length sos' = length ks" by (cases sos) auto
  have v: "decimal_laws D" "valid_datum D jp k" "valid_row D jp ks" using Cons.prems(1) by auto
  obtain y where "from_sortable_bytes D jp (the (as_sortable_bytes D k so []) @ row_bytes D sos' ks @ r) =
      Some (y, row_bytes D sos' ks @ r)"
    using datum_enc.read_write [of D jp k so] v by blast
  then show ?case using Cons.IH [OF v(3) so(2)] by (simp add: so(1) row_bytes_Cons [OF Cons.prems(1)])
qed

lemma sort_serve_record:
  assumes "sortable_row D jp (so_session self) (so_expressions self) (length (so_tuple_buffer self)) r"
    and "so_indexes self = i # is" "sort_slice (so_buffer self) i = sort_record D (so_session self) (so_expressions self) r"
  shows "\<exists>t. sort_serve D jp self = Some (Inr (self\<lparr>so_indexes := is, so_tuple_buffer := t, so_freq := snd r\<rparr>)) \<and>
    row_matches D t (fst r)"
proof -
  let ?ks = "sort_keys (so_session self) (so_expressions self) (fst r)"
  have v: "valid_row D jp (fst r)" "length (fst r) = length (so_tuple_buffer self)"
    "valid_row D jp ?ks" "length ?ks = length (so_expressions self)"
    using assms(1) sortable_row_keys [OF assms(1)] by (auto simp: sortable_row_def)
  obtain t where "read_into D jp (so_tuple_buffer self) 0 (length (fst r))
      (row_bytes D (replicate (length (fst r)) Asc) (fst r) @ write_varint_signed (snd r) Asc []) =
      Some (t, write_varint_signed (snd r) Asc [])" "list_all2 (datum_eq D) t (fst r)"
    using read_into_row [OF v(1), of "replicate (length (fst r)) Asc" 0 "so_tuple_buffer self" "write_varint_signed (snd r) Asc []"] v(2)
    by auto
  then show ?thesis
    using assms(2,3) skip_datums_row [OF v(3), of "sort_orders (so_expressions self)"] v(2,4) read_write_signed [of Asc "snd r" "[]"]
    by (auto simp: sort_serve_def sort_record_def row_matches_def)
qed

lemma sort_serve_rows:
  fixes advance :: "('s, 'e) advance" and self :: "('s, 'd) sort_executor"
  assumes "\<forall>r \<in> set rs. sortable_row D jp (so_session self) (so_expressions self) (length (so_tuple_buffer self)) r"
    and "map (sort_slice (so_buffer self)) (so_indexes self) = map (sort_record D (so_session self) (so_expressions self)) rs"
    and "so_state self = Sort_Serving"
  shows "\<exists>out. yields (sort_advance D jp advance get) sort_get self out \<and> rows_match D out rs"
  using assms
proof (induction rs arbitrary: self)
  case Nil
  then have "yields (sort_advance D jp advance get) sort_get self []"
    by (simp add: yields_Nil_iff sort_advance_def sort_serve_def sort_get_def)
  then show ?case by (auto simp: rows_match_def)
next
  case (Cons r rs)
  then obtain i "is" where i: "so_indexes self = i # is" by (cases "so_indexes self") auto
  obtain t where t: "sort_serve D jp self = (Some (Inr (self\<lparr>so_indexes := is, so_tuple_buffer := t, so_freq := snd r\<rparr>)) :: ('e + _) option)"
    "row_matches D t (fst r)"
    using sort_serve_record [of D jp self r, OF _ i] Cons.prems i by auto
  let ?self = "self\<lparr>so_indexes := is, so_tuple_buffer := t, so_freq := snd r\<rparr>"
  have "length t = length (so_tuple_buffer self)"
    using t(2) Cons.prems(1) by (auto simp: row_matches_def sortable_row_def dest: list_all2_lengthD)
  then obtain out where out: "yields (sort_advance D jp advance get) sort_get ?self out" "rows_match D out rs"
    using Cons.IH [of ?self] Cons.prems i by auto
  have "sort_advance D jp advance get self = Some (Inr ?self)" "sort_get ?self = Some (t, snd r)"
    using t(1) Cons.prems(3) by (simp_all add: sort_advance_def sort_get_def)
  then have "yields (sort_advance D jp advance get) sort_get self ((t, snd r) # out)" using out(1) by (rule yields_row)
  then show ?case using t(2) out(2) by (intro exI [of _ "(t, snd r) # out"]) (auto simp: rows_match_def split: prod.splits)
qed

lemma sort_record_le:
  assumes "sortable_row D jp session es n a" "sortable_row D jp session es n b"
    and "sort_record D session es a \<le> sort_record D session es b"
  shows "\<not> tuple_before (datum_less D) (datum_eq D) (sort_orders es) (sort_keys session es (fst b)) (sort_keys session es (fst a)) False"
proof
  assume "tuple_before (datum_less D) (datum_eq D) (sort_orders es) (sort_keys session es (fst b)) (sort_keys session es (fst a)) False"
  note before = tuple_before_tie [OF this]
  have v: "valid_row D jp (sort_keys session es (fst a))" "valid_row D jp (sort_keys session es (fst b))"
    "length (sort_keys session es (fst a)) = length es" "length (sort_keys session es (fst b)) = length es"
    using sortable_row_keys [OF assms(1)] sortable_row_keys [OF assms(2)] by auto
  have "sort_record D session es b < sort_record D session es a"
    using before datum_enc.tuple_less_iff [OF valid_row_enc [OF v(2)] valid_row_enc [OF v(1)], of "sort_orders es"] v(3,4)
    by (simp add: sort_record_def row_bytes_tuple [OF v(1)] row_bytes_tuple [OF v(2)])
  then show False using assms(3) by simp
qed

lemma sort_yields:
  assumes "yields advance get s rs" "\<forall>r \<in> set rs. sortable_row D jp session es n r"
    and "length (concat (map (sort_record D session es) rs)) < 2 ^ 32"
  shows "\<exists>out perm. yields (sort_advance D jp advance get) sort_get (sort_new session s n es) out \<and>
    rows_match D out perm \<and> mset perm = mset rs \<and>
    sorted_wrt (\<lambda>a b. \<not> tuple_before (datum_less D) (datum_eq D) (sort_orders es)
      (sort_keys session es (fst b)) (sort_keys session es (fst a)) False) perm"
proof -
  let ?perm = "sort_key (sort_record D session es) rs"
  obtain self where self: "sort_ingest D advance get (sort_new session s n es) = Some (Inr self)"
    "so_session self = session" "so_expressions self = es" "so_tuple_buffer self = right_size_new_to n"
    "map (sort_slice (so_buffer self)) (so_indexes self) = map (sort_record D session es) ?perm"
    using sort_ingest_rows [OF assms] by blast
  obtain out where out: "yields (sort_advance D jp advance get) sort_get (self\<lparr>so_state := Sort_Serving\<rparr>) out" "rows_match D out ?perm"
    using sort_serve_rows [of ?perm D jp "self\<lparr>so_state := Sort_Serving\<rparr>" advance get] self assms(2)
    by (auto simp: right_size_new_to_def)
  have "sort_advance D jp advance get (sort_new session s n es) = sort_advance D jp advance get (self\<lparr>so_state := Sort_Serving\<rparr>)"
    using self(1) by (simp add: sort_advance_def) (simp add: sort_new_def)
  from yields_cong [OF this, of sort_get] out(1)
  have "yields (sort_advance D jp advance get) sort_get (sort_new session s n es) out" by simp
  moreover have "sorted_wrt (\<lambda>a b. sort_record D session es a \<le> sort_record D session es b) ?perm"
    using sorted_sort_key [of "sort_record D session es" rs] by (simp add: sorted_map)
  then have "sorted_wrt (\<lambda>a b. \<not> tuple_before (datum_less D) (datum_eq D) (sort_orders es)
      (sort_keys session es (fst b)) (sort_keys session es (fst a)) False) ?perm"
    by (rule sorted_wrt_mono_rel [rotated]) (use assms(2) sort_record_le [of D jp session es n] in \<open>auto simp del: split_paired_All\<close>)
  ultimately show ?thesis using out(2) by (intro exI [of _ out] exI [of _ ?perm]) simp
qed


section \<open>Properties\<close>

text \<open>C12. The sort executor delivers a permutation of its source's rows (up to the representation
  of equal datums), with their frequencies, in which no row's sort keys come before those of an
  earlier row: keys are compared expression by expression, each in its own direction, as long as
  the encoded rows fit the four gigabytes its offsets can address.\<close>

theorem sort_executor_sorts:
  assumes "yields advance get s rs" "\<forall>r \<in> set rs. sortable_row D jp session es n r"
    and "length (concat (map (sort_record D session es) rs)) < 2 ^ 32"
  shows "\<exists>out perm. yields (sort_advance D jp advance get) sort_get (sort_new session s n es) out \<and>
    rows_match D out perm \<and> mset perm = mset rs \<and>
    sorted_wrt (\<lambda>a b. \<not> tuple_before (datum_less D) (datum_eq D) (sort_orders es)
      (sort_keys session es (fst b)) (sort_keys session es (fst a)) False) perm"
  by (rule sort_yields [OF assms])

theorem sort_executor_sorts_witness:
  "\<exists>out perm. yields (sort_advance ref_decimal_ops (\<lambda>_. None) (values_advance :: (_, execution_error) advance) values_get) sort_get
      (sort_new (session_new 1) (values_new [[D_Boolean False], [D_Boolean True]] 1) 1
        [\<lparr>se_ordering = Desc, se_expression = CompiledColumnReference 0 T_Boolean\<rparr>]) out \<and>
    rows_match ref_decimal_ops out perm \<and> mset perm = {#([D_Boolean False], 1), ([D_Boolean True], 1)#}"
proof -
  let ?e = "[\<lparr>se_ordering = Desc, se_expression = CompiledColumnReference 0 T_Boolean\<rparr>]"
  let ?rs = "map (\<lambda>row. (row, 1)) [[D_Boolean False], [D_Boolean True]] :: ref_decimal row list"
  have rows: "\<forall>r \<in> set ?rs. sortable_row ref_decimal_ops (\<lambda>_. None) (session_new 1) ?e 1 r"
    using ref_decimal_laws by (simp add: sortable_row_def valid_row_def)
  have len: "length (concat (map (sort_record ref_decimal_ops (session_new 1) ?e) ?rs)) < 2 ^ 32"
    by (simp add: sort_record_def sort_keys_def row_bytes_def push_tag_def write_varint_signed_def)
  show ?thesis
    using sort_executor_sorts [OF values_yields [of "[[D_Boolean False], [D_Boolean True]]" 1] rows len] by auto
qed

end
