(* ===== verification/Aggregate_Expr.thy ===== *)
theory Aggregate_Expr
  imports Expr Tuple_Iter
begin

text \<open>
  Aggregate expressions (\<open>executor/src/aggregate_expression.rs\<close>).  All aggregates of a row of
  expressions keep their state in one vector, each expression in its own range of slots; the code
  hands every expression the suffix of the vector that starts at its range.  The contract of an
  aggregate function (the locale \<open>aggregate_contract\<close>) is that it only uses its \<open>state_size\<close> leading
  slots; under it the shared vector is shown to be unobservable: the result of every expression is
  what it would compute alone.
\<close>

section \<open>The code\<close>

datatype 'd aggregate_expression =
    Agg_Constant "'d datum" data_type
  | Agg_ColumnReference nat data_type
  | Agg_ScalarFunctionCall "'d scalar_function" "'d aggregate_expression list" function_signature
  | Agg_CompiledAggregate "'d aggregate_function" "'d expression list" function_signature

fun state_len :: "'d aggregate_expression \<Rightarrow> nat" where
  "state_len (Agg_ScalarFunctionCall f args sig) = (\<Sum>a \<leftarrow> args. state_len a)"
| "state_len (Agg_CompiledAggregate f args sig) = agg_state_size f"
| "state_len (Agg_ColumnReference i dt) = 1"
| "state_len (Agg_Constant d dt) = 0"

text \<open>A callee working on \<open>&mut state[offset..]\<close>.\<close>

definition on_suffix :: "nat \<Rightarrow> ('a list \<Rightarrow> 'a list option) \<Rightarrow> 'a list \<Rightarrow> 'a list option" where
  "on_suffix offset f state =
     (if offset \<le> length state then map_option (append (take offset state)) (f (drop offset state)) else None)"

fun aexpr_reset :: "'d aggregate_expression \<Rightarrow> 'd datum list \<Rightarrow> 'd datum list option"
  and arow_reset_from :: "'d aggregate_expression list \<Rightarrow> nat \<Rightarrow> 'd datum list \<Rightarrow> 'd datum list option" where
  "aexpr_reset (Agg_ScalarFunctionCall f args sig) state = arow_reset_from args 0 state"
| "aexpr_reset (Agg_CompiledAggregate f args sig) state = agg_initialize f state"
| "aexpr_reset (Agg_Constant d dt) state = Some state"
| "aexpr_reset (Agg_ColumnReference i dt) state = set_state state 0 D_Null"
| "arow_reset_from [] offset state = Some state"
| "arow_reset_from (e # es) offset state =
     Option.bind (on_suffix offset (aexpr_reset e) state) (arow_reset_from es (offset + state_len e))"

fun aexpr_apply ::
    "session \<Rightarrow> 'd datum list \<Rightarrow> i64 \<Rightarrow> 'd aggregate_expression \<Rightarrow> 'd datum list \<Rightarrow> 'd datum list option"
  and arow_apply_from ::
    "session \<Rightarrow> 'd datum list \<Rightarrow> i64 \<Rightarrow> 'd aggregate_expression list \<Rightarrow> nat \<Rightarrow> 'd datum list \<Rightarrow> 'd datum list option" where
  "aexpr_apply session row freq (Agg_ScalarFunctionCall f args sig) state = arow_apply_from session row freq args 0 state"
| "aexpr_apply session row freq (Agg_CompiledAggregate f args sig) state =
     Option.bind (eval_scalar_row session args row (right_size_new args)) (\<lambda>buf. agg_apply f sig buf freq state)"
| "aexpr_apply session row freq (Agg_ColumnReference i dt) state =
     Option.bind (get_state state 0) (\<lambda>d.
       if is_null d then (if i < length row then set_state state 0 (as_static (row ! i)) else None) else Some state)"
| "aexpr_apply session row freq (Agg_Constant d dt) state = Some state"
| "arow_apply_from session row freq [] offset state = Some state"
| "arow_apply_from session row freq (e # es) offset state =
     Option.bind (on_suffix offset (aexpr_apply session row freq e) state)
       (arow_apply_from session row freq es (offset + state_len e))"

fun aexpr_finalize :: "session \<Rightarrow> 'd aggregate_expression \<Rightarrow> 'd datum list \<Rightarrow> 'd datum option"
  and arow_finalize_from ::
    "session \<Rightarrow> 'd aggregate_expression list \<Rightarrow> nat \<Rightarrow> nat \<Rightarrow> 'd datum list \<Rightarrow> 'd datum list \<Rightarrow> 'd datum list option" where
  "aexpr_finalize session (Agg_Constant d dt) state = Some (ref_clone d)"
| "aexpr_finalize session (Agg_ScalarFunctionCall f args sig) state =
     Option.bind (arow_finalize_from session args 0 0 state (right_size_new args)) (f session sig)"
| "aexpr_finalize session (Agg_CompiledAggregate f args sig) state = agg_finalize f sig state"
| "aexpr_finalize session (Agg_ColumnReference i dt) state = map_option ref_clone (get_state state 0)"
| "arow_finalize_from session [] idx offset state target = Some target"
| "arow_finalize_from session (e # es) idx offset state target =
     (if offset \<le> length state then
        Option.bind (aexpr_finalize session e (drop offset state)) (\<lambda>d.
        if idx < length target
        then arow_finalize_from session es (idx + 1) (offset + state_len e) state (target[idx := d]) else None)
      else None)"

text \<open>\<open>From<&Expression>\<close>: uncompiled expressions panic.\<close>

fun aexpr_from :: "'d expression \<Rightarrow> 'd aggregate_expression option"
  and aexprs_from :: "'d expression list \<Rightarrow> 'd aggregate_expression list option" where
  "aexpr_from (Constant d dt) = Some (Agg_Constant (as_static d) dt)"
| "aexpr_from (CompiledAggregate f args sig) = Some (Agg_CompiledAggregate f args sig)"
| "aexpr_from (CompiledFunctionCall f args sig) =
     map_option (\<lambda>args. Agg_ScalarFunctionCall f args sig) (aexprs_from args)"
| "aexpr_from (CompiledColumnReference i dt) = Some (Agg_ColumnReference i dt)"
| "aexpr_from (FunctionCall n args) = None"
| "aexpr_from (ColumnReference c) = None"
| "aexpr_from (Cast e dt) = None"
| "aexprs_from [] = Some []"
| "aexprs_from (e # es) = Option.bind (aexpr_from e) (\<lambda>a. map_option (Cons a) (aexprs_from es))"

text \<open>\<open>EvalAggregateRow for [AggregateExpression]\<close>\<close>

definition arow_state_len :: "'d aggregate_expression list \<Rightarrow> nat" where
  "arow_state_len es = (\<Sum>e \<leftarrow> es. state_len e)"

definition arow_reset :: "'d aggregate_expression list \<Rightarrow> 'd datum list \<Rightarrow> 'd datum list option" where
  "arow_reset es state = arow_reset_from es 0 state"

definition arow_initialize :: "'d aggregate_expression list \<Rightarrow> 'd datum list option" where
  "arow_initialize es = arow_reset es (replicate (arow_state_len es) D_Null)"

definition arow_apply ::
  "session \<Rightarrow> 'd aggregate_expression list \<Rightarrow> 'd row \<Rightarrow> 'd datum list \<Rightarrow> 'd datum list option" where
  "arow_apply session es row state = arow_apply_from session (fst row) (snd row) es 0 state"

definition arow_finalize ::
  "session \<Rightarrow> 'd aggregate_expression list \<Rightarrow> 'd datum list \<Rightarrow> 'd datum list \<Rightarrow> 'd datum list option" where
  "arow_finalize session es state target = arow_finalize_from session es 0 0 state target"


section \<open>The contract of aggregate functions\<close>

locale aggregate_contract =
  fixes f :: "'d aggregate_function"
  assumes initialize_slots: "\<exists>s0. length s0 = agg_state_size f \<and>
      (\<forall>s r. length s = agg_state_size f \<longrightarrow> agg_initialize f (s @ r) = Some (s0 @ r))"
    and apply_slots: "length s = agg_state_size f \<Longrightarrow>
      agg_apply f sig args q (s @ r) = map_option (\<lambda>s'. s' @ r) (agg_apply f sig args q s)"
    and apply_length: "length s = agg_state_size f \<Longrightarrow> agg_apply f sig args q s = Some s' \<Longrightarrow> length s' = agg_state_size f"
    and finalize_slots: "length s = agg_state_size f \<Longrightarrow> agg_finalize f sig (s @ r) = agg_finalize f sig s"
begin

definition initial_state :: "'d datum list" where
  "initial_state = the (agg_initialize f (replicate (agg_state_size f) D_Null))"

lemma initialize_state:
  assumes "length s = agg_state_size f"
  shows "agg_initialize f (s @ r) = Some (initial_state @ r)" "length initial_state = agg_state_size f"
proof -
  obtain s0 where s0: "length s0 = agg_state_size f"
    "\<And>s r. length s = agg_state_size f \<Longrightarrow> agg_initialize f (s @ r) = Some (s0 @ r)"
    using initialize_slots by blast
  have "initial_state = s0" using s0(2) [of "replicate (agg_state_size f) D_Null" "[]"] by (simp add: initial_state_def)
  then show "agg_initialize f (s @ r) = Some (initial_state @ r)" "length initial_state = agg_state_size f"
    using s0 assms by auto
qed

end

text \<open>Every aggregate function in the expression meets its contract.\<close>

fun aexpr_ok :: "'d aggregate_expression \<Rightarrow> bool" where
  "aexpr_ok (Agg_ScalarFunctionCall f args sig) = list_all aexpr_ok args"
| "aexpr_ok (Agg_CompiledAggregate f args sig) = aggregate_contract f"
| "aexpr_ok e = True"

text \<open>The initial state of an expression.\<close>

fun aexpr_initial :: "'d aggregate_expression \<Rightarrow> 'd datum list" where
  "aexpr_initial (Agg_ScalarFunctionCall f args sig) = concat (map aexpr_initial args)"
| "aexpr_initial (Agg_CompiledAggregate f args sig) = the (agg_initialize f (replicate (agg_state_size f) D_Null))"
| "aexpr_initial (Agg_ColumnReference i dt) = [D_Null]"
| "aexpr_initial (Agg_Constant d dt) = []"

definition arow_initial :: "'d aggregate_expression list \<Rightarrow> 'd datum list" where
  "arow_initial es = concat (map aexpr_initial es)"

lemma on_suffix_append [simp]:
  "length p = off \<Longrightarrow> on_suffix off g (p @ s) = map_option (append p) (g s)"
  by (auto simp: on_suffix_def)

section \<open>Operations on ranges of slots\<close>

text \<open>An operation that only uses its \<open>n\<close> leading slots.\<close>

definition slotted :: "nat \<Rightarrow> ('a list \<Rightarrow> 'a list option) \<Rightarrow> bool" where
  "slotted n g \<longleftrightarrow> (\<forall>s r. length s = n \<longrightarrow> g (s @ r) = map_option (\<lambda>s'. s' @ r) (g s) \<and> (\<forall>s'. g s = Some s' \<longrightarrow> length s' = n))"

lemma slottedD:
  assumes "slotted n g" "length s = n"
  shows "g (s @ r) = map_option (\<lambda>s'. s' @ r) (g s)" "g s = Some s' \<Longrightarrow> length s' = n"
  using assms unfolding slotted_def by blast+

lemma slottedI:
  assumes "\<And>s r. length s = n \<Longrightarrow> g (s @ r) = map_option (\<lambda>s'. s' @ r) (g s)"
    "\<And>s s'. length s = n \<Longrightarrow> g s = Some s' \<Longrightarrow> length s' = n"
  shows "slotted n g"
  using assms unfolding slotted_def by blast

text \<open>A list of operations on consecutive ranges, as the loops run them and side by side.\<close>

fun run_slots :: "(nat \<times> ('a list \<Rightarrow> 'a list option)) list \<Rightarrow> nat \<Rightarrow> 'a list \<Rightarrow> 'a list option" where
  "run_slots [] off st = Some st"
| "run_slots ((n, g) # gs) off st = Option.bind (on_suffix off g st) (run_slots gs (off + n))"

fun par_slots :: "(nat \<times> ('a list \<Rightarrow> 'a list option)) list \<Rightarrow> 'a list \<Rightarrow> 'a list option" where
  "par_slots [] s = Some s"
| "par_slots ((n, g) # gs) s = Option.bind (g (take n s)) (\<lambda>a. map_option (append a) (par_slots gs (drop n s)))"

abbreviation all_slotted :: "(nat \<times> ('a list \<Rightarrow> 'a list option)) list \<Rightarrow> bool" where
  "all_slotted gs \<equiv> \<forall>ng \<in> set gs. slotted (fst ng) (snd ng)"

lemma run_slots_par:
  assumes "all_slotted gs" "length s = (\<Sum>ng \<leftarrow> gs. fst ng)"
  shows "run_slots gs (length p) (p @ s @ r) = map_option (\<lambda>s'. p @ s' @ r) (par_slots gs s)"
  using assms
proof (induction gs arbitrary: p s)
  case (Cons ng gs)
  obtain n g where [simp]: "ng = (n, g)" by (cases ng)
  define a b where "a = take n s" and "b = drop n s"
  have ab: "s = a @ b" "length a = n" "length b = (\<Sum>ng \<leftarrow> gs. fst ng)" using Cons.prems(2) by (simp_all add: a_def b_def)
  have g: "slotted n g" "all_slotted gs" using Cons.prems(1) by auto
  show ?case
  proof (cases "g a")
    case None
    then show ?thesis using slottedD(1) [OF g(1) ab(2), of "b @ r"] ab by simp
  next
    case (Some a')
    have "length a' = n" by (rule slottedD(2) [OF g(1) ab(2) Some])
    then have "run_slots gs (length p + n) (p @ a' @ b @ r) = map_option (\<lambda>s'. (p @ a') @ s' @ r) (par_slots gs b)"
      using Cons.IH [OF g(2) ab(3), of "p @ a'"] by simp
    then show ?thesis
      using Some slottedD(1) [OF g(1) ab(2), of "b @ r"] ab by (simp add: option.map_comp comp_def)
  qed
qed simp

lemma par_slots_length:
  "all_slotted gs \<Longrightarrow> length s = (\<Sum>ng \<leftarrow> gs. fst ng) \<Longrightarrow> par_slots gs s = Some s' \<Longrightarrow> length s' = (\<Sum>ng \<leftarrow> gs. fst ng)"
proof (induction gs arbitrary: s s')
  case (Cons ng gs)
  obtain n g where [simp]: "ng = (n, g)" by (cases ng)
  obtain a b where "g (take n s) = Some a" "par_slots gs (drop n s) = Some b" "s' = a @ b"
    using Cons.prems(3) by (auto simp: bind_eq_Some_conv)
  moreover have "slotted n g" "length (take n s) = n" using Cons.prems by auto
  ultimately show ?case using Cons.IH [of "drop n s" b] Cons.prems slottedD(2) [of n g "take n s" a] by auto
qed simp

lemma run_slots_eq_par: "all_slotted gs \<Longrightarrow> length s = (\<Sum>ng \<leftarrow> gs. fst ng) \<Longrightarrow> run_slots gs 0 s = par_slots gs s"
  using run_slots_par [of gs s "[]" "[]"] by (simp add: option.map_ident)

lemma run_slots_slotted:
  assumes "all_slotted gs"
  shows "slotted (\<Sum>ng \<leftarrow> gs. fst ng) (run_slots gs 0)"
  using run_slots_par [OF assms, of _ "[]"] run_slots_eq_par [OF assms] par_slots_length [OF assms]
  by (intro slottedI) simp_all


section \<open>The ranges of expressions\<close>

abbreviation reset_slots :: "'d aggregate_expression list \<Rightarrow> (nat \<times> ('d datum list \<Rightarrow> 'd datum list option)) list" where
  "reset_slots es \<equiv> map (\<lambda>e. (state_len e, aexpr_reset e)) es"

abbreviation apply_slots :: "session \<Rightarrow> 'd row \<Rightarrow> 'd aggregate_expression list \<Rightarrow> (nat \<times> ('d datum list \<Rightarrow> 'd datum list option)) list" where
  "apply_slots session row es \<equiv> map (\<lambda>e. (state_len e, aexpr_apply session (fst row) (snd row) e)) es"

lemma arow_reset_from_slots: "arow_reset_from es off st = run_slots (reset_slots es) off st"
  by (induction es arbitrary: off st) (simp_all cong: option.map_cong, metis)

lemma arow_apply_from_slots:
  "arow_apply_from session (fst row) (snd row) es off st = run_slots (apply_slots session row es) off st"
  by (induction es arbitrary: off st) (simp_all, metis)

lemma slots_sum [simp]:
  "sum_list (map (fst \<circ> (\<lambda>e. (state_len e, g e))) es) = arow_state_len es"
  by (simp add: arow_state_len_def comp_def)

lemma set_state_slotted: "slotted (Suc 0) (\<lambda>st. set_state st 0 d)"
  by (rule slottedI) (auto simp: set_state_def list_update_append)

lemma colref_slotted: "slotted (Suc 0) (aexpr_apply session row q (Agg_ColumnReference i dt))"
  by (rule slottedI) (auto simp: set_state_def get_state_def list_update_append nth_append split: if_splits)

lemma aexpr_reset_slotted: "aexpr_ok e \<Longrightarrow> slotted (state_len e) (aexpr_reset e)"
proof (induction e)
  case (Agg_ColumnReference i dt)
  have "aexpr_reset (Agg_ColumnReference i dt) = (\<lambda>st. set_state st 0 (D_Null :: 'a datum))" by (rule ext) simp
  then show ?case using set_state_slotted by simp
next
  case (Agg_ScalarFunctionCall f args sig)
  then have "all_slotted (reset_slots args)" by (auto simp: list_all_iff)
  from run_slots_slotted [OF this] show ?case
    by (simp add: slotted_def arow_reset_from_slots arow_state_len_def)
next
  case (Agg_CompiledAggregate f args sig)
  then have c: "aggregate_contract f" by simp
  have "agg_initialize f (s @ r) = map_option (\<lambda>s'. s' @ r) (agg_initialize f s)"
    "agg_initialize f s = Some s' \<Longrightarrow> length s' = agg_state_size f" if "length s = agg_state_size f" for s r s'
    using aggregate_contract.initialize_state(1) [OF c that] aggregate_contract.initialize_state(1) [OF c that, of "[]"]
      aggregate_contract.initialize_state(2) [OF c that] by auto
  then show ?case by (intro slottedI) auto
qed (simp add: slotted_def)


lemma all_reset_slotted: "list_all aexpr_ok es \<Longrightarrow> all_slotted (reset_slots es)"
  by (auto simp: list_all_iff intro: aexpr_reset_slotted)

lemma aexpr_apply_slotted: "aexpr_ok e \<Longrightarrow> slotted (state_len e) (aexpr_apply session (fst row) (snd row) e)"
proof (induction e)
  case (Agg_ColumnReference i dt)
  show ?case using colref_slotted [of session "fst row" "snd row" i dt] by (simp only: state_len.simps One_nat_def)
next
  case (Agg_ScalarFunctionCall f args sig)
  then have "all_slotted (apply_slots session row args)" by (auto simp: list_all_iff)
  from run_slots_slotted [OF this] show ?case
    by (simp add: slotted_def arow_apply_from_slots arow_state_len_def)
next
  case (Agg_CompiledAggregate f args sig)
  then have c: "aggregate_contract f" by simp
  show ?case
    using aggregate_contract.apply_slots [OF c] aggregate_contract.apply_length [OF c]
    by (intro slottedI) (auto simp: bind_eq_Some_conv map_option_case split: option.split bind_splits)
qed (simp add: slotted_def)

lemma all_apply_slotted: "list_all aexpr_ok es \<Longrightarrow> all_slotted (apply_slots session row es)"
  by (auto simp: list_all_iff intro: aexpr_apply_slotted)

text \<open>What a reset leaves.\<close>

lemma par_reset_initial:
  assumes "\<forall>e \<in> set es. \<forall>s. length s = state_len e \<longrightarrow> aexpr_reset e s = Some (aexpr_initial e)"
    and "length s = arow_state_len es"
  shows "par_slots (reset_slots es) s = Some (arow_initial es)"
  using assms
  by (induction es arbitrary: s) (simp_all add: arow_state_len_def arow_initial_def)

lemma aexpr_reset_initial: "aexpr_ok e \<Longrightarrow> length s = state_len e \<Longrightarrow> aexpr_reset e s = Some (aexpr_initial e)"
proof (induction e arbitrary: s)
  case (Agg_ColumnReference i dt)
  then show ?case by (cases s) (simp_all add: set_state_def)
next
  case (Agg_ScalarFunctionCall f args sig)
  then have "all_slotted (reset_slots args)" using all_reset_slotted by simp
  from run_slots_eq_par [OF this, of s] show ?case
    using Agg_ScalarFunctionCall par_reset_initial [of args s]
    by (simp add: arow_reset_from_slots arow_initial_def arow_state_len_def list_all_iff)
next
  case (Agg_CompiledAggregate f args sig)
  then have c: "aggregate_contract f" by simp
  then show ?case
    using aggregate_contract.initialize_state(1) [OF c, of s "[]"] Agg_CompiledAggregate.prems
      aggregate_contract.initial_state_def [OF c] by simp
qed simp

lemma aexpr_initial_length: "aexpr_ok e \<Longrightarrow> length (aexpr_initial e) = state_len e"
  using aexpr_reset_initial [of e "replicate (state_len e) D_Null"] slottedD(2) [OF aexpr_reset_slotted, of e "replicate (state_len e) D_Null"]
  by simp

lemma arow_reset_eq: "list_all aexpr_ok es \<Longrightarrow> length s = arow_state_len es \<Longrightarrow> arow_reset es s = Some (arow_initial es)"
  using run_slots_eq_par [OF all_reset_slotted, of es s] par_reset_initial [of es s]
  by (simp add: arow_reset_def arow_reset_from_slots list_all_iff aexpr_reset_initial)

lemma arow_initialize_eq: "list_all aexpr_ok es \<Longrightarrow> arow_initialize es = Some (arow_initial es)"
  using arow_reset_eq [of es "replicate (arow_state_len es) D_Null"] by (simp add: arow_initialize_def)


section \<open>Running over rows\<close>

fun run_rows :: "('r \<Rightarrow> 's \<Rightarrow> 's option) \<Rightarrow> 'r list \<Rightarrow> 's \<Rightarrow> 's option" where
  "run_rows g [] st = Some st"
| "run_rows g (r # rs) st = Option.bind (g r st) (run_rows g rs)"

lemma run_rows_Some: "run_rows (\<lambda>r. Some) rs st = Some st"
  by (induction rs) simp_all

lemma run_rows_append: "run_rows g (xs @ ys) st = Option.bind (run_rows g xs st) (run_rows g ys)"
  by (induction xs arbitrary: st) (auto split: bind_splits)

lemma run_rows_slotted: "(\<And>r. slotted n (g r)) \<Longrightarrow> slotted n (run_rows g rs)"
proof (induction rs)
  case Nil
  then show ?case by (simp add: slotted_def)
next
  case (Cons r rs)
  then have IH: "slotted n (run_rows g rs)" by blast
  have "run_rows g (r # rs) (s @ x) = map_option (\<lambda>s'. s' @ x) (run_rows g (r # rs) s)"
    "run_rows g (r # rs) s = Some s' \<Longrightarrow> length s' = n" if "length s = n" for s x s'
    using slottedD [OF Cons.prems that, of r] slottedD [OF IH] by (cases "g r s"; auto)+
  then show ?case by (rule slottedI)
qed

text \<open>The first expression and the others do not interfere.\<close>

lemma run_rows_par_Cons:
  assumes "\<And>r. slotted n (g r)" "length a = n"
  shows "run_rows (\<lambda>r. par_slots ((n, g r) # gs r)) rs (a @ b) =
    Option.bind (run_rows g rs a) (\<lambda>a'. map_option (append a') (run_rows (\<lambda>r. par_slots (gs r)) rs b))"
  using assms(2)
proof (induction rs arbitrary: a b)
  case (Cons r rs)
  show ?case
  proof (cases "g r a")
    case (Some a')
    then have "length a' = n" using slottedD(2) [OF assms(1) Cons.prems] by simp
    then show ?thesis
      using Some Cons.IH Cons.prems by (cases "par_slots (gs r) b"; cases "run_rows g rs a'") auto
  qed (simp add: Cons.prems)
qed simp

lemma run_rows_cong:
  assumes "\<And>r s. length s = n \<Longrightarrow> g r s = h r s" "\<And>r. slotted n (h r)" "length s = n"
  shows "run_rows g rs s = run_rows h rs s"
  using assms(3)
proof (induction rs arbitrary: s)
  case (Cons r rs)
  then show ?case
    using assms(1) [OF Cons.prems] slottedD(2) [OF assms(2) Cons.prems] by (cases "h r s") auto
qed simp

lemma arow_apply_eq:
  "list_all aexpr_ok es \<Longrightarrow> length s = arow_state_len es \<Longrightarrow>
    arow_apply session es r s = par_slots (apply_slots session r es) s"
  using run_slots_eq_par [OF all_apply_slotted, of es s session r] by (simp add: arow_apply_def arow_apply_from_slots)

lemma arow_apply_slotted: "list_all aexpr_ok es \<Longrightarrow> slotted (arow_state_len es) (arow_apply session es r)"
  using run_slots_slotted [OF all_apply_slotted, of es session r]
  by (simp add: slotted_def arow_apply_def arow_apply_from_slots)

section \<open>Results\<close>

text \<open>The columns of a row in the order of the expressions.\<close>

fun fin_slots :: "session \<Rightarrow> 'd aggregate_expression list \<Rightarrow> 'd datum list \<Rightarrow> 'd datum list option" where
  "fin_slots session [] s = Some []"
| "fin_slots session (e # es) s =
     Option.bind (aexpr_finalize session e (take (state_len e) s)) (\<lambda>d. map_option (Cons d) (fin_slots session es (drop (state_len e) s)))"

lemma arow_finalize_from_eq:
  assumes "\<forall>e \<in> set es. \<forall>s r. length s = state_len e \<longrightarrow> aexpr_finalize session e (s @ r) = aexpr_finalize session e s"
    and "length s = arow_state_len es" "idx + length es \<le> length target"
  shows "arow_finalize_from session es idx (length p) (p @ s @ r) target =
    map_option (\<lambda>ds. take idx target @ ds @ drop (idx + length es) target) (fin_slots session es s)"
  using assms
proof (induction es arbitrary: idx p s target)
  case (Cons e es)
  define a b where "a = take (state_len e) s" and "b = drop (state_len e) s"
  have ab: "s = a @ b" "length a = state_len e" "length b = arow_state_len es"
    using Cons.prems(2) by (simp_all add: a_def b_def arow_state_len_def)
  have fin: "aexpr_finalize session e (a @ b @ r) = aexpr_finalize session e a" using Cons.prems(1) ab(2) by simp
  show ?case
  proof (cases "aexpr_finalize session e a")
    case None
    then show ?thesis using fin ab by simp
  next
    case (Some d)
    have "take (Suc idx) (target[idx := d]) = take idx target @ [d]"
      using Cons.prems(3) by (simp add: take_Suc_conv_app_nth)
    then show ?thesis
      using Some fin ab Cons.prems Cons.IH [of b "idx + 1" "target[idx := d]" "p @ a"]
      by (simp add: option.map_comp comp_def)
  qed
qed simp

lemma aexpr_finalize_slots:
  "aexpr_ok e \<Longrightarrow> length s = state_len e \<Longrightarrow> aexpr_finalize session e (s @ r) = aexpr_finalize session e s"
proof (induction e arbitrary: s r)
  case (Agg_ColumnReference i dt)
  then show ?case by (cases s) (simp_all add: get_state_def)
next
  case (Agg_ScalarFunctionCall f args sig)
  have "arow_finalize_from session args 0 0 (s @ x) (right_size_new args) = fin_slots session args s" for x
    using Agg_ScalarFunctionCall arow_finalize_from_eq [of args session s 0 "right_size_new args" "[]" x]
    by (simp add: list_all_iff arow_state_len_def option.map_ident)
  from this [of r] this [of "[]"] show ?case by simp
next
  case (Agg_CompiledAggregate f args sig)
  then show ?case using aggregate_contract.finalize_slots [of f s sig r] by simp
qed simp

lemma arow_finalize_eq:
  assumes "list_all aexpr_ok es" "length s = arow_state_len es" "length target = length es"
  shows "arow_finalize session es s target = fin_slots session es s"
  using arow_finalize_from_eq [of es session s 0 target "[]" "[]"] assms
  by (simp add: arow_finalize_def list_all_iff aexpr_finalize_slots option.map_ident)


text \<open>The value of an aggregate expression over rows, without a shared state: a column is its first
  value that is not NULL.\<close>

fun first_non_null :: "nat \<Rightarrow> 'd row list \<Rightarrow> 'd datum option" where
  "first_non_null i [] = Some D_Null"
| "first_non_null i (r # rs) =
     (if i < length (fst r) then if is_null (fst r ! i) then first_non_null i rs else Some (as_static (fst r ! i)) else None)"

fun agg_value :: "session \<Rightarrow> 'd row list \<Rightarrow> 'd aggregate_expression \<Rightarrow> 'd datum option" where
  "agg_value session rows (Agg_Constant d dt) = Some (ref_clone d)"
| "agg_value session rows (Agg_ColumnReference i dt) = map_option ref_clone (first_non_null i rows)"
| "agg_value session rows (Agg_ScalarFunctionCall f args sig) =
     Option.bind (those (map (agg_value session rows) args)) (f session sig)"
| "agg_value session rows (Agg_CompiledAggregate f args sig) =
     Option.bind (run_rows (\<lambda>r st. Option.bind (eval_all session args (fst r)) (\<lambda>ds. agg_apply f sig ds (snd r) st)) rows
       (the (agg_initialize f (replicate (agg_state_size f) D_Null)))) (agg_finalize f sig)"

abbreviation aexpr_result :: "session \<Rightarrow> 'd row list \<Rightarrow> 'd aggregate_expression \<Rightarrow> 'd datum option" where
  "aexpr_result session rows e \<equiv>
     Option.bind (run_rows (\<lambda>r. aexpr_apply session (fst r) (snd r) e) rows (aexpr_initial e)) (aexpr_finalize session e)"

definition arow_result :: "session \<Rightarrow> 'd aggregate_expression list \<Rightarrow> 'd row list \<Rightarrow> 'd datum list option" where
  "arow_result session es rows =
     Option.bind (arow_initialize es) (\<lambda>st. Option.bind (run_rows (arow_apply session es) rows st)
       (\<lambda>st. arow_finalize session es st (right_size_new es)))"

lemma arow_initial_length: "list_all aexpr_ok es \<Longrightarrow> length (arow_initial es) = arow_state_len es"
  by (induction es) (simp_all add: arow_initial_def arow_state_len_def aexpr_initial_length)

lemma bind_map_option_eq: "Option.bind (map_option g x) h = Option.bind x (\<lambda>y. h (g y))"
  by (cases x) simp_all

lemma arow_result_par:
  "list_all aexpr_ok es \<Longrightarrow>
    Option.bind (run_rows (\<lambda>r. par_slots (apply_slots session r es)) rows (arow_initial es)) (fin_slots session es) =
    those (map (aexpr_result session rows) es)"
proof (induction es)
  case Nil
  show ?case by (simp add: arow_initial_def run_rows_Some)
next
  case (Cons e es)
  let ?g = "\<lambda>r. aexpr_apply session (fst r) (snd r) e"
  have sl: "slotted (state_len e) (?g r)" for r using Cons.prems by (simp add: aexpr_apply_slotted)
  have init: "length (aexpr_initial e) = state_len e" using Cons.prems by (simp add: aexpr_initial_length)
  have len: "length a = state_len e" if "run_rows ?g rows (aexpr_initial e) = Some a" for a
    using slottedD(2) [OF run_rows_slotted [OF sl] init that] .
  have "those (map (aexpr_result session rows) (e # es)) =
      Option.bind (aexpr_result session rows e) (\<lambda>d. map_option (Cons d)
        (Option.bind (run_rows (\<lambda>r. par_slots (apply_slots session r es)) rows (arow_initial es)) (fin_slots session es)))"
    using Cons by (simp add: those_Cons del: those.simps(2))
  also have "\<dots> = Option.bind (run_rows (\<lambda>r. par_slots (apply_slots session r (e # es))) rows (arow_initial (e # es)))
      (fin_slots session (e # es))"
    using run_rows_par_Cons [where g = ?g and gs = "\<lambda>r. apply_slots session r es" and rs = rows and b = "arow_initial es", OF sl init] len
    by (cases "run_rows ?g rows (aexpr_initial e)"; cases "run_rows (\<lambda>r. par_slots (apply_slots session r es)) rows (arow_initial es)")
      (auto simp: arow_initial_def split: bind_splits)
  finally show ?case by (rule sym)
qed

lemma arow_result_those:
  assumes "list_all aexpr_ok es"
  shows "arow_result session es rows = those (map (aexpr_result session rows) es)"
proof -
  note sl = arow_apply_slotted [OF assms, of session]
  note init = arow_initial_length [OF assms]
  have "run_rows (arow_apply session es) rows (arow_initial es) =
      run_rows (\<lambda>r. par_slots (apply_slots session r es)) rows (arow_initial es)"
    by (rule sym, rule run_rows_cong [OF _ sl init]) (simp add: arow_apply_eq [OF assms])
  moreover have "length st = arow_state_len es" if "run_rows (arow_apply session es) rows (arow_initial es) = Some st" for st
    by (rule slottedD(2) [OF run_rows_slotted [OF sl] init that])
  ultimately show ?thesis
    using arow_result_par [OF assms, of session rows] arow_initialize_eq [OF assms]
    by (cases "run_rows (\<lambda>r. par_slots (apply_slots session r es)) rows (arow_initial es)")
      (simp_all add: arow_result_def arow_finalize_eq [OF assms])
qed

lemma is_null_iff: "is_null d \<longleftrightarrow> d = D_Null"
  by (cases d) auto

lemma as_static_Null: "as_static x = D_Null \<longleftrightarrow> x = D_Null"
  using is_null_as_static [of x] by (simp only: is_null_iff)

lemma colref_run:
  "run_rows (\<lambda>r. aexpr_apply session (fst r) (snd r) (Agg_ColumnReference i dt)) rows [d] =
    map_option (\<lambda>x. [x]) (if is_null d then first_non_null i rows else Some d)"
proof (induction rows arbitrary: d)
  case (Cons r rows)
  show ?case using Cons [of d] Cons [of "as_static (fst r ! i)"]
    by (auto simp: get_state_def set_state_def is_null_iff as_static_Null)
qed (simp add: is_null_iff)

lemma aexpr_result_value: "aexpr_ok e \<Longrightarrow> aexpr_result session rows e = agg_value session rows e"
proof (induction e)
  case (Agg_Constant d dt)
  show ?case by (simp add: run_rows_Some)
next
  case (Agg_ColumnReference i dt)
  show ?case using colref_run [of session i dt rows D_Null]
    by (cases "first_non_null i rows") (simp_all add: get_state_def del: aexpr_apply.simps)
next
  case (Agg_ScalarFunctionCall f args sig)
  then have ok: "list_all aexpr_ok args" by simp
  have "those (map (aexpr_result session rows) args) = those (map (agg_value session rows) args)"
    using Agg_ScalarFunctionCall.IH ok by (simp add: list_all_iff cong: map_cong)
  then have "arow_result session args rows = those (map (agg_value session rows) args)"
    using arow_result_those [OF ok] by simp
  moreover have "(\<lambda>r. aexpr_apply session (fst r) (snd r) (Agg_ScalarFunctionCall f args sig)) = arow_apply session args"
    by (intro ext) (simp add: arow_apply_def)
  ultimately show ?case
    by (cases "run_rows (arow_apply session args) rows (arow_initial args)")
      (simp_all add: arow_result_def arow_initialize_eq [OF ok] arow_finalize_def arow_initial_def del: aexpr_apply.simps)
next
  case (Agg_CompiledAggregate f args sig)
  then show ?case by (simp add: eval_scalar_row_eq)
qed


lemma arow_result_values:
  "list_all aexpr_ok es \<Longrightarrow> arow_result session es rows = those (map (agg_value session rows) es)"
  using arow_result_those [of es session rows] by (simp add: aexpr_result_value list_all_iff cong: map_cong)

end
