(* ===== verification/Functions_Aggregate.thy ===== *)
theory Functions_Aggregate
  imports Aggregate_Expr
begin

text \<open>
  The aggregate functions (\<open>functions/src/aggregate\<close>): count, sum and avg over integers, big
  integers and decimals.  Integer arithmetic wraps, decimal arithmetic is that of the decimal
  library and panics (\<open>None\<close>) on overflow.  Each function meets the contract of aggregate
  expressions, computes its closed form, and merges and retracts as the trait promises.
\<close>

section \<open>Decimal arithmetic\<close>

record 'd decimal_arith = "'d decimal_ops" +
  d_add :: "'d \<Rightarrow> 'd \<Rightarrow> 'd option"
  d_sub :: "'d \<Rightarrow> 'd \<Rightarrow> 'd option"

text \<open>An instance, for examples.\<close>

definition ref_sum :: "bool \<Rightarrow> ref_decimal \<Rightarrow> ref_decimal \<Rightarrow> ref_decimal option" where
  "ref_sum neg a b =
     (let e = max (ref_exp a) (ref_exp b);
          n = ref_num a * 10 ^ (e - ref_exp a) + (if neg then - 1 else 1) * ref_num b * 10 ^ (e - ref_exp b) in
      if \<bar>n\<bar> < 2 ^ 96 then Some (n < 0, nat \<bar>n\<bar>, e) else None)"

definition ref_decimal_arith :: "ref_decimal decimal_arith" where
  "ref_decimal_arith = decimal_ops.extend ref_decimal_ops (decimal_arith.fields (ref_sum False) (ref_sum True))"

section \<open>The code\<close>

text \<open>\<open>*state[i].as_bigint_mut() += v\<close> and its siblings.\<close>

definition add_bigint :: "'d datum list \<Rightarrow> nat \<Rightarrow> i64 \<Rightarrow> 'd datum list option" where
  "add_bigint state i v =
     Option.bind (get_state state i) (\<lambda>d. case d of D_BigInt x \<Rightarrow> Some (state[i := D_BigInt (x + v)]) | _ \<Rightarrow> None)"

definition add_integer :: "'d datum list \<Rightarrow> nat \<Rightarrow> i32 \<Rightarrow> 'd datum list option" where
  "add_integer state i v =
     Option.bind (get_state state i) (\<lambda>d. case d of D_Integer x \<Rightarrow> Some (state[i := D_Integer (x + v)]) | _ \<Rightarrow> None)"

definition add_decimal :: "('d, 'z) decimal_arith_scheme \<Rightarrow> 'd datum list \<Rightarrow> nat \<Rightarrow> 'd \<Rightarrow> 'd datum list option" where
  "add_decimal D state i v =
     Option.bind (get_state state i) (\<lambda>d.
       case d of D_Decimal x \<Rightarrow> map_option (\<lambda>y. state[i := D_Decimal y]) (d_add D x v) | _ \<Rightarrow> None)"

text \<open>\<open>if state[0].is_null() { state[0] = zero }\<close>\<close>

definition default_zero :: "'d datum \<Rightarrow> 'd datum list \<Rightarrow> 'd datum list option" where
  "default_zero zero state =
     Option.bind (get_state state 0) (\<lambda>d. Some (if is_null d then state[0 := zero] else state))"

definition as_bigint :: "'d datum \<Rightarrow> i64 option" where
  "as_bigint d = as_maybe_bigint d"

definition as_decimal :: "'d datum \<Rightarrow> 'd option" where
  "as_decimal d = as_maybe_decimal d"

subsection \<open>Count\<close>

definition count_apply :: "function_signature \<Rightarrow> 'd datum list \<Rightarrow> i64 \<Rightarrow> 'd datum list \<Rightarrow> 'd datum list option" where
  "count_apply sig args freq state =
     (if args = [] \<or> \<not> is_null (hd args) then add_bigint state 0 freq else Some state)"

definition count_merge :: "function_signature \<Rightarrow> 'd datum list \<Rightarrow> 'd datum list \<Rightarrow> 'd datum list option" where
  "count_merge sig input_state state =
     Option.bind (get_state input_state 0) (\<lambda>d. Option.bind (as_bigint d) (add_bigint state 0))"

definition Count :: "'d aggregate_function" where
  "Count = \<lparr>agg_state_size = 1, agg_initialize = (\<lambda>state. set_state state 0 (D_BigInt 0)), agg_apply = count_apply,
     agg_merge = count_merge, agg_finalize = default_finalize, agg_supports_retract = True\<rparr>"

subsection \<open>Sum\<close>

definition int_sum_apply :: "function_signature \<Rightarrow> 'd datum list \<Rightarrow> i64 \<Rightarrow> 'd datum list \<Rightarrow> 'd datum list option" where
  "int_sum_apply sig args freq state =
     Option.bind (get_state args 0) (\<lambda>arg.
       case as_maybe_integer arg of
         Some i \<Rightarrow> Option.bind (default_zero (D_Integer 0) state) (\<lambda>state. add_integer state 0 (ucast freq * i))
       | None \<Rightarrow> Some state)"

definition int_sum_merge :: "function_signature \<Rightarrow> 'd datum list \<Rightarrow> 'd datum list \<Rightarrow> 'd datum list option" where
  "int_sum_merge sig input_state state =
     Option.bind (get_state input_state 0) (\<lambda>input.
       case as_maybe_integer input of
         Some i \<Rightarrow> Option.bind (get_state state 0) (\<lambda>d.
           if is_null d then set_state state 0 (as_static input) else add_integer state 0 i)
       | None \<Rightarrow> Some state)"

definition IntSum :: "'d aggregate_function" where
  "IntSum = \<lparr>agg_state_size = 1, agg_initialize = default_initialize, agg_apply = int_sum_apply,
     agg_merge = int_sum_merge, agg_finalize = default_finalize, agg_supports_retract = True\<rparr>"

definition bigint_sum_apply :: "function_signature \<Rightarrow> 'd datum list \<Rightarrow> i64 \<Rightarrow> 'd datum list \<Rightarrow> 'd datum list option" where
  "bigint_sum_apply sig args freq state =
     Option.bind (get_state args 0) (\<lambda>arg.
       case as_maybe_bigint arg of
         Some i \<Rightarrow> Option.bind (default_zero (D_BigInt 0) state) (\<lambda>state. add_bigint state 0 (freq * i))
       | None \<Rightarrow> Some state)"

definition bigint_sum_merge :: "function_signature \<Rightarrow> 'd datum list \<Rightarrow> 'd datum list \<Rightarrow> 'd datum list option" where
  "bigint_sum_merge sig input_state state =
     Option.bind (get_state input_state 0) (\<lambda>input.
       case as_maybe_bigint input of
         Some i \<Rightarrow> Option.bind (get_state state 0) (\<lambda>d.
           if is_null d then set_state state 0 (as_static input) else add_bigint state 0 i)
       | None \<Rightarrow> Some state)"

definition BigintSum :: "'d aggregate_function" where
  "BigintSum = \<lparr>agg_state_size = 1, agg_initialize = default_initialize, agg_apply = bigint_sum_apply,
     agg_merge = bigint_sum_merge, agg_finalize = default_finalize, agg_supports_retract = True\<rparr>"

definition decimal_sum_apply ::
  "('d, 'z) decimal_arith_scheme \<Rightarrow> function_signature \<Rightarrow> 'd datum list \<Rightarrow> i64 \<Rightarrow> 'd datum list \<Rightarrow> 'd datum list option" where
  "decimal_sum_apply D sig args freq state =
     Option.bind (get_state args 0) (\<lambda>arg.
       case as_maybe_decimal arg of
         Some d \<Rightarrow> Option.bind (default_zero (D_Decimal (d_zero D)) state) (\<lambda>state.
           Option.bind (d_mul D d (d_new D freq 0)) (add_decimal D state 0))
       | None \<Rightarrow> Some state)"

definition decimal_sum_merge ::
  "('d, 'z) decimal_arith_scheme \<Rightarrow> function_signature \<Rightarrow> 'd datum list \<Rightarrow> 'd datum list \<Rightarrow> 'd datum list option" where
  "decimal_sum_merge D sig input_state state =
     Option.bind (get_state input_state 0) (\<lambda>input.
       case as_maybe_decimal input of
         Some i \<Rightarrow> Option.bind (get_state state 0) (\<lambda>d.
           if is_null d then set_state state 0 (as_static input) else add_decimal D state 0 i)
       | None \<Rightarrow> Some state)"

definition DecimalSum :: "('d, 'z) decimal_arith_scheme \<Rightarrow> 'd aggregate_function" where
  "DecimalSum D = \<lparr>agg_state_size = 1, agg_initialize = default_initialize, agg_apply = decimal_sum_apply D,
     agg_merge = decimal_sum_merge D, agg_finalize = default_finalize, agg_supports_retract = True\<rparr>"

subsection \<open>Average\<close>

definition avg_initialize :: "'d datum list \<Rightarrow> 'd datum list option" where
  "avg_initialize state = Option.bind (set_state state 0 (D_BigInt 0)) (\<lambda>state. set_state state 1 (D_BigInt 0))"

definition avg_merge :: "function_signature \<Rightarrow> 'd datum list \<Rightarrow> 'd datum list \<Rightarrow> 'd datum list option" where
  "avg_merge sig input_state state =
     Option.bind (Option.bind (get_state input_state 0) as_bigint) (\<lambda>total.
     Option.bind (add_bigint state 0 total) (\<lambda>state.
     Option.bind (Option.bind (get_state input_state 1) as_bigint) (add_bigint state 1)))"

definition avg_finalize :: "('d, 'z) decimal_arith_scheme \<Rightarrow> function_signature \<Rightarrow> 'd datum list \<Rightarrow> 'd datum option" where
  "avg_finalize D sig state =
     Option.bind (Option.bind (get_state state 1) as_bigint) (\<lambda>n.
       if n = 0 then Some D_Null
       else
         Option.bind (Option.bind (get_state state 0) as_bigint) (\<lambda>total.
         map_option D_Decimal (d_div D (d_new D total 0) (d_new D n 0))))"

definition int_avg_apply :: "function_signature \<Rightarrow> 'd datum list \<Rightarrow> i64 \<Rightarrow> 'd datum list \<Rightarrow> 'd datum list option" where
  "int_avg_apply sig args freq state =
     Option.bind (get_state args 0) (\<lambda>arg.
       case as_maybe_integer arg of
         Some i \<Rightarrow> Option.bind (add_bigint state 0 (freq * scast i)) (\<lambda>state. add_bigint state 1 freq)
       | None \<Rightarrow> Some state)"

definition IntAvg :: "('d, 'z) decimal_arith_scheme \<Rightarrow> 'd aggregate_function" where
  "IntAvg D = \<lparr>agg_state_size = 2, agg_initialize = avg_initialize, agg_apply = int_avg_apply,
     agg_merge = avg_merge, agg_finalize = avg_finalize D, agg_supports_retract = True\<rparr>"

definition bigint_avg_apply :: "function_signature \<Rightarrow> 'd datum list \<Rightarrow> i64 \<Rightarrow> 'd datum list \<Rightarrow> 'd datum list option" where
  "bigint_avg_apply sig args freq state =
     Option.bind (get_state args 0) (\<lambda>arg.
       case as_maybe_bigint arg of
         Some i \<Rightarrow> Option.bind (add_bigint state 0 (freq * i)) (\<lambda>state. add_bigint state 1 freq)
       | None \<Rightarrow> Some state)"

definition BigIntAvg :: "('d, 'z) decimal_arith_scheme \<Rightarrow> 'd aggregate_function" where
  "BigIntAvg D = \<lparr>agg_state_size = 2, agg_initialize = avg_initialize, agg_apply = bigint_avg_apply,
     agg_merge = avg_merge, agg_finalize = avg_finalize D, agg_supports_retract = True\<rparr>"

definition decimal_avg_initialize :: "('d, 'z) decimal_arith_scheme \<Rightarrow> 'd datum list \<Rightarrow> 'd datum list option" where
  "decimal_avg_initialize D state =
     Option.bind (set_state state 0 (D_Decimal (d_zero D))) (\<lambda>state. set_state state 1 (D_BigInt 0))"

definition decimal_avg_apply ::
  "('d, 'z) decimal_arith_scheme \<Rightarrow> function_signature \<Rightarrow> 'd datum list \<Rightarrow> i64 \<Rightarrow> 'd datum list \<Rightarrow> 'd datum list option" where
  "decimal_avg_apply D sig args freq state =
     Option.bind (get_state args 0) (\<lambda>arg.
       case as_maybe_decimal arg of
         Some i \<Rightarrow>
           Option.bind (d_mul D (d_new D freq 0) i) (\<lambda>v.
           Option.bind (add_decimal D state 0 v) (\<lambda>state. add_bigint state 1 freq))
       | None \<Rightarrow> Some state)"

definition decimal_avg_merge ::
  "('d, 'z) decimal_arith_scheme \<Rightarrow> function_signature \<Rightarrow> 'd datum list \<Rightarrow> 'd datum list \<Rightarrow> 'd datum list option" where
  "decimal_avg_merge D sig input_state state =
     Option.bind (Option.bind (get_state input_state 0) as_decimal) (\<lambda>total.
     Option.bind (add_decimal D state 0 total) (\<lambda>state.
     Option.bind (Option.bind (get_state input_state 1) as_bigint) (add_bigint state 1)))"

definition decimal_avg_finalize ::
  "('d, 'z) decimal_arith_scheme \<Rightarrow> function_signature \<Rightarrow> 'd datum list \<Rightarrow> 'd datum option" where
  "decimal_avg_finalize D sig state =
     Option.bind (Option.bind (get_state state 1) as_bigint) (\<lambda>n.
       if n = 0 then Some D_Null
       else
         Option.bind (Option.bind (get_state state 0) as_decimal) (\<lambda>total.
         map_option D_Decimal (d_div D total (d_new D n 0))))"

definition DecimalAvg :: "('d, 'z) decimal_arith_scheme \<Rightarrow> 'd aggregate_function" where
  "DecimalAvg D = \<lparr>agg_state_size = 2, agg_initialize = decimal_avg_initialize D, agg_apply = decimal_avg_apply D,
     agg_merge = decimal_avg_merge D, agg_finalize = decimal_avg_finalize D, agg_supports_retract = True\<rparr>"

section \<open>The contract\<close>

lemmas state_ops = get_state_def set_state_def add_bigint_def add_integer_def add_decimal_def default_zero_def
  default_initialize_def default_finalize_def

lemmas agg_fns = Count_def IntSum_def BigintSum_def DecimalSum_def IntAvg_def BigIntAvg_def DecimalAvg_def

lemmas agg_applies = count_apply_def int_sum_apply_def bigint_sum_apply_def decimal_sum_apply_def
  int_avg_apply_def bigint_avg_apply_def decimal_avg_apply_def

lemma one_slot: "length s = Suc 0 \<longleftrightarrow> (\<exists>a. s = [a])" by (cases s) auto
lemma two_slots: "length s = 2 \<longleftrightarrow> (\<exists>a b. s = [a, b])"
  by (cases s; cases "tl s") auto

lemma aggregate_contract_two:
  fixes f :: "'d aggregate_function"
  assumes "agg_state_size f = 2" "\<And>a b r. agg_initialize f (a # b # r) = Some (x # y # r)"
    "\<And>sig args q a b r. agg_apply f sig args q (a # b # r) = map_option (\<lambda>s. s @ r) (agg_apply f sig args q [a, b])"
    "\<And>sig args q a b s. agg_apply f sig args q [a, b] = Some s \<Longrightarrow> length s = 2"
    "\<And>sig a b r. agg_finalize f sig (a # b # r) = agg_finalize f sig [a, b]"
  shows "aggregate_contract f"
proof unfold_locales
  show "\<exists>s0. length s0 = agg_state_size f \<and>
      (\<forall>s r. length s = agg_state_size f \<longrightarrow> agg_initialize f (s @ r) = Some (s0 @ r))"
    using assms(1,2) by (intro exI [of _ "[x, y]"]) (auto simp: two_slots)
next
  fix s :: "'d datum list" and sig args q r s'
  assume "length s = agg_state_size f"
  then obtain a b where s: "s = [a, b]" using assms(1) by (auto simp: two_slots)
  show "agg_apply f sig args q (s @ r) = map_option (\<lambda>s'. s' @ r) (agg_apply f sig args q s)"
    unfolding s append_Cons append_Nil by (rule assms(3))
  show "agg_finalize f sig (s @ r) = agg_finalize f sig s"
    unfolding s append_Cons append_Nil by (rule assms(5))
  show "length s' = agg_state_size f" if "agg_apply f sig args q s = Some s'"
    using assms(4) [of sig args q a b s'] that s assms(1) by simp
qed

lemmas agg_splits = datum.splits option.splits if_splits bind_splits

interpretation Count_fn: aggregate_contract Count
  by unfold_locales (auto simp: agg_fns agg_applies state_ops one_slot split: agg_splits)

interpretation IntSum_fn: aggregate_contract IntSum
  by unfold_locales (auto simp: agg_fns agg_applies state_ops one_slot split: agg_splits)

interpretation BigintSum_fn: aggregate_contract BigintSum
  by unfold_locales (auto simp: agg_fns agg_applies state_ops one_slot split: agg_splits)

interpretation DecimalSum_fn: aggregate_contract "DecimalSum D"
  by unfold_locales (auto simp: agg_fns agg_applies state_ops one_slot option.map_comp comp_def split: agg_splits)

interpretation IntAvg_fn: aggregate_contract "IntAvg D"
  by (rule aggregate_contract_two)
    (auto simp: agg_fns agg_applies avg_initialize_def avg_finalize_def state_ops split: agg_splits)

interpretation BigIntAvg_fn: aggregate_contract "BigIntAvg D"
  by (rule aggregate_contract_two)
    (auto simp: agg_fns agg_applies avg_initialize_def avg_finalize_def state_ops split: agg_splits)

interpretation DecimalAvg_fn: aggregate_contract "DecimalAvg D"
  by (rule aggregate_contract_two)
    (auto simp: agg_fns agg_applies decimal_avg_initialize_def decimal_avg_finalize_def state_ops option.map_comp comp_def split: agg_splits)


section \<open>Merging partial states\<close>

text \<open>Inputs of an aggregate: the arguments and the frequency of each row.\<close>

abbreviation agg_run ::
  "'d aggregate_function \<Rightarrow> function_signature \<Rightarrow> ('d datum list \<times> i64) list \<Rightarrow> 'd datum list \<Rightarrow> 'd datum list option" where
  "agg_run f sig \<equiv> run_rows (\<lambda>x. agg_apply f sig (fst x) (snd x))"

abbreviation agg_start :: "'d aggregate_function \<Rightarrow> 'd datum list" where
  "agg_start f \<equiv> the (agg_initialize f (replicate (agg_state_size f) D_Null))"

lemma run_rows_snoc: "run_rows g (xs @ [x]) st = Option.bind (run_rows g xs st) (g x)"
proof -
  have "run_rows g [] = Some" by (rule ext) simp
  then show ?thesis by (cases "run_rows g xs st") (simp_all add: run_rows_append)
qed

locale mergeable_aggregate = aggregate_contract f for f :: "'d aggregate_function" +
  fixes shape :: "'d datum list \<Rightarrow> bool"
  assumes initial_shape: "shape (agg_start f)"
    and apply_shape: "shape s \<Longrightarrow> args \<noteq> [] \<Longrightarrow> \<exists>s'. agg_apply f sig args q s = Some s' \<and> shape s'"
    and merge_initial: "shape s \<Longrightarrow> agg_merge f sig (agg_start f) s = Some s"
    and merge_apply: "shape s \<Longrightarrow> shape t \<Longrightarrow> args \<noteq> [] \<Longrightarrow>
      Option.bind (agg_apply f sig args q t) (\<lambda>t'. agg_merge f sig t' s) =
      Option.bind (agg_merge f sig t s) (agg_apply f sig args q)"
begin

lemma run_shape: "shape s \<Longrightarrow> \<forall>x \<in> set xs. fst x \<noteq> [] \<Longrightarrow> \<exists>s'. agg_run f sig xs s = Some s' \<and> shape s'"
proof (induction xs arbitrary: s)
  case (Cons x xs)
  then obtain s' where "agg_apply f sig (fst x) (snd x) s = Some s'" "shape s'"
    using apply_shape [of s "fst x" sig "snd x"] by auto
  then show ?case using Cons by auto
qed simp

lemma merge_run:
  "shape s \<Longrightarrow> \<forall>x \<in> set xs. fst x \<noteq> [] \<Longrightarrow>
    Option.bind (agg_run f sig xs (agg_start f)) (\<lambda>t. agg_merge f sig t s) = agg_run f sig xs s"
proof (induction xs rule: rev_induct)
  case Nil
  then show ?case using merge_initial by simp
next
  case (snoc x xs)
  obtain t where t: "agg_run f sig xs (agg_start f) = Some t" "shape t"
    using run_shape [OF initial_shape, of xs sig] snoc.prems by auto
  then show ?case
    using snoc merge_apply [OF snoc.prems(1) t(2), of "fst x" sig "snd x"] by (auto simp: run_rows_snoc)
qed

lemma merge_partial:
  assumes "\<forall>x \<in> set (xs @ ys). fst x \<noteq> []"
  shows "\<exists>s t u. agg_run f sig xs (agg_start f) = Some s \<and> agg_run f sig ys (agg_start f) = Some t \<and>
    agg_merge f sig t s = Some u \<and> agg_run f sig (xs @ ys) (agg_start f) = Some u"
proof -
  obtain s where s: "agg_run f sig xs (agg_start f) = Some s" "shape s"
    using run_shape [OF initial_shape, of xs sig] assms by auto
  obtain t where t: "agg_run f sig ys (agg_start f) = Some t" using run_shape [OF initial_shape, of ys sig] assms by auto
  obtain u where "agg_run f sig ys s = Some u" using run_shape [OF s(2), of ys sig] assms by auto
  then show ?thesis using s t merge_run [OF s(2), of ys sig] assms by (simp add: run_rows_append)
qed

end

fun bigint_shape :: "'d datum list \<Rightarrow> bool" where
  "bigint_shape [D_BigInt x] = True"
| "bigint_shape s = False"

fun sum_shape :: "bool \<Rightarrow> 'd datum list \<Rightarrow> bool" where
  "sum_shape big [D_Null] = True"
| "sum_shape big [D_BigInt x] = big"
| "sum_shape big [D_Integer x] = (\<not> big)"
| "sum_shape big s = False"

fun avg_shape :: "'d datum list \<Rightarrow> bool" where
  "avg_shape [D_BigInt x, D_BigInt y] = True"
| "avg_shape s = False"

lemma bigint_shape_iff: "bigint_shape s \<longleftrightarrow> (\<exists>x. s = [D_BigInt x])"
  by (cases s rule: bigint_shape.cases) auto

lemma sum_shape_iff:
  "sum_shape big s \<longleftrightarrow> s = [D_Null] \<or> (if big then \<exists>x. s = [D_BigInt x] else \<exists>x. s = [D_Integer x])"
  by (cases "(big, s)" rule: sum_shape.cases) auto

lemma avg_shape_iff: "avg_shape s \<longleftrightarrow> (\<exists>x y. s = [D_BigInt x, D_BigInt y])"
  by (cases s rule: avg_shape.cases) auto

lemmas merge_defs = count_merge_def int_sum_merge_def bigint_sum_merge_def avg_merge_def as_bigint_def avg_initialize_def

interpretation Count_merge: mergeable_aggregate Count bigint_shape
  by unfold_locales (auto simp: agg_fns agg_applies merge_defs state_ops bigint_shape_iff algebra_simps)

interpretation IntSum_merge: mergeable_aggregate IntSum "sum_shape False"
  by unfold_locales (auto simp: agg_fns agg_applies merge_defs state_ops sum_shape_iff algebra_simps split: option.splits)

interpretation BigintSum_merge: mergeable_aggregate BigintSum "sum_shape True"
  by unfold_locales (auto simp: agg_fns agg_applies merge_defs state_ops sum_shape_iff algebra_simps split: option.splits)

interpretation IntAvg_merge: mergeable_aggregate "IntAvg D" avg_shape
  by unfold_locales (auto simp: agg_fns agg_applies merge_defs state_ops avg_shape_iff numeral_2_eq_2 algebra_simps split: option.splits)

interpretation BigIntAvg_merge: mergeable_aggregate "BigIntAvg D" avg_shape
  by unfold_locales (auto simp: agg_fns agg_applies merge_defs state_ops avg_shape_iff numeral_2_eq_2 algebra_simps split: option.splits)


section \<open>Closed forms\<close>

lemma count_run:
  "\<forall>x \<in> set xs. fst x \<noteq> [] \<Longrightarrow>
    agg_run Count sig xs [D_BigInt c] = Some [D_BigInt (c + (\<Sum>x \<leftarrow> xs. if is_null (hd (fst x)) then 0 else snd x))]"
  by (induction xs arbitrary: c) (auto simp: Count_def count_apply_def state_ops algebra_simps)

lemma int_sum_run:
  "\<forall>x \<in> set xs. fst x \<noteq> [] \<Longrightarrow>
    agg_run IntSum sig xs [D_Integer c] =
      Some [D_Integer (c + (\<Sum>x \<leftarrow> xs. case as_maybe_integer (hd (fst x)) of None \<Rightarrow> 0 | Some i \<Rightarrow> ucast (snd x) * i))]"
  by (induction xs arbitrary: c)
    (auto simp: IntSum_def int_sum_apply_def state_ops algebra_simps hd_conv_nth split: option.splits)

lemma int_sum_run_null:
  "\<forall>x \<in> set xs. fst x \<noteq> [] \<Longrightarrow>
    agg_run IntSum sig xs [D_Null] =
      Some [if \<forall>x \<in> set xs. as_maybe_integer (hd (fst x)) = None then D_Null
        else D_Integer (\<Sum>x \<leftarrow> xs. case as_maybe_integer (hd (fst x)) of None \<Rightarrow> 0 | Some i \<Rightarrow> ucast (snd x) * i)]"
proof (induction xs)
  case (Cons x xs)
  show ?case
  proof (cases "as_maybe_integer (hd (fst x))")
    case None
    then show ?thesis using Cons by (simp add: IntSum_def int_sum_apply_def state_ops hd_conv_nth)
  next
    case (Some i)
    then have "agg_run IntSum sig (x # xs) [D_Null] = agg_run IntSum sig xs [D_Integer (ucast (snd x) * i)]"
      using Cons.prems by (simp add: IntSum_def int_sum_apply_def state_ops hd_conv_nth)
    then show ?thesis using int_sum_run [of xs sig "ucast (snd x) * i"] Cons.prems Some by simp
  qed
qed simp

lemma bigint_avg_run:
  "\<forall>x \<in> set xs. fst x \<noteq> [] \<Longrightarrow>
    agg_run (BigIntAvg D) sig xs [D_BigInt c, D_BigInt n] =
      Some [D_BigInt (c + (\<Sum>x \<leftarrow> xs. case as_maybe_bigint (hd (fst x)) of None \<Rightarrow> 0 | Some i \<Rightarrow> snd x * i)),
            D_BigInt (n + (\<Sum>x \<leftarrow> xs. if as_maybe_bigint (hd (fst x)) = None then 0 else snd x))]"
  by (induction xs arbitrary: c n)
    (auto simp: BigIntAvg_def bigint_avg_apply_def state_ops algebra_simps hd_conv_nth split: option.splits)

lemma ucast_uminus: "ucast (- q) = - (ucast (q :: i64) :: i32)"
proof transfer
  fix q :: int
  show "take_bit LENGTH(32) (take_bit LENGTH(64) (- q)) = take_bit LENGTH(32) (- take_bit LENGTH(64) q)"
    using take_bit_minus [of 32 q] take_bit_minus [of 32 "take_bit 64 q"] by simp
qed

section \<open>Properties\<close>


text \<open>A signature, for examples.\<close>

definition sum_sig :: function_signature where
  "sum_sig = \<lparr>sig_name = ''sum'', sig_args = [T_Integer], sig_ret = T_Integer\<rparr>"




text \<open>Retracting the only row of a sum does not restore the sum of no rows: the state is left at
  zero, not at NULL, although the function declares that it supports retraction; count and average
  do return to their initial state.\<close>

theorem sum_retract_leaves_zero:
  assumes "as_maybe_integer d = Some i"
  shows "agg_supports_retract (IntSum :: 'd aggregate_function) \<and>
    agg_run IntSum sig [([d], q), ([d], - q)] (agg_start IntSum) = Some [D_Integer 0 :: 'd datum] \<and>
    agg_start IntSum = [D_Null :: 'd datum] \<and>
    agg_run Count sig [([d], q), ([d], - q)] (agg_start Count) = Some (agg_start Count) \<and>
    agg_run (IntAvg D) sig [([d], q), ([d], - q)] (agg_start (IntAvg D)) = Some (agg_start (IntAvg D))"
proof -
  have "\<not> is_null d" using assms by (cases d) auto
  moreover have "ucast (- q) = - (ucast q :: i32)" by (rule ucast_uminus)
  ultimately show ?thesis using assms
    by (auto simp: agg_fns agg_applies state_ops avg_initialize_def numeral_2_eq_2)
qed


theorem sum_retract_leaves_zero_witness:
  "agg_run IntSum sum_sig [([D_Integer 5], 1), ([D_Integer 5], - 1)]
     (agg_start IntSum) = Some [D_Integer 0 :: ref_decimal datum]"
  using sum_retract_leaves_zero [OF as_maybe_integer.simps(1), of sum_sig 5 1 ref_decimal_arith] by blast

text \<open>The aggregates of a row of expressions do not see each other's state, although all of it lives
  in one vector: initialising the vector, applying rows to it and finalizing gives for every
  expression the value it has on its own over those rows (constants, first value of a column,
  functions of aggregates, aggregates of evaluated arguments), and it panics exactly when one of
  them does.\<close>

theorem aggregate_row_independent:
  assumes "list_all aexpr_ok es"
  shows "arow_result session es rows = those (map (agg_value session rows) es)"
  by (rule arow_result_values [OF assms])

theorem aggregate_row_independent_witness:
  "arow_result (session_new 1)
     [Agg_ColumnReference 0 T_Text, Agg_CompiledAggregate Count [] \<lparr>sig_name = ''count'', sig_args = [], sig_ret = T_BigInt\<rparr>,
      Agg_CompiledAggregate IntSum [CompiledColumnReference 1 T_Integer] sum_sig]
     [([D_Integer 1, D_Integer 4], 2), ([D_Integer 1, D_Integer 5], 1)] =
   Some [D_Integer 1, D_BigInt 3, D_Integer 13 :: ref_decimal datum]"
proof (subst aggregate_row_independent, goal_cases)
  case 1
  show ?case by (simp add: Count_fn.aggregate_contract_axioms IntSum_fn.aggregate_contract_axioms)
next
  case 2
  show ?case by (simp add: agg_fns agg_applies state_ops)
qed

end
