(* ===== verification/Group_Executors.thy ===== *)
theory Group_Executors
  imports Sort_Executor Functions_Aggregate "HOL-Library.AList"
begin

text \<open>
  The grouping executors (\<open>executor/src/point_in_time/sorted_group.rs\<close> and \<open>hash_group.rs\<close>).  The
  first expects rows sorted by the grouping key and closes a group when the hash of the key
  changes; the second keeps one aggregate state per encoded key in a hash map.  The hasher and the
  iteration order of the hash map are parameters.  Both are characterised by the groups they form,
  and shown to agree on sorted input when no two keys in it collide.
\<close>

section \<open>The sorted group executor\<close>

datatype group_state = Group_Initial | Group_Processing | Group_Done

record ('s, 'd) sorted_group_executor =
  sg_source :: "'s peekable_iter"
  sg_session :: session
  sg_key_len :: nat
  sg_expressions :: "'d aggregate_expression list"
  sg_current_state :: "'d datum list"
  sg_output_tuple :: "'d datum list"
  sg_state :: group_state

definition sorted_group_new ::
  "'s \<Rightarrow> session \<Rightarrow> nat \<Rightarrow> 'd expression list \<Rightarrow> ('s, 'd) sorted_group_executor option" where
  "sorted_group_new source session key_len expressions =
     Option.bind (aexprs_from expressions) (\<lambda>expressions.
     Option.bind (arow_initialize expressions) (\<lambda>current_state.
     Some \<lparr>sg_source = peekable_from source, sg_session = session, sg_key_len = key_len, sg_expressions = expressions,
       sg_current_state = current_state, sg_output_tuple = right_size_new expressions, sg_state = Group_Initial\<rparr>))"

text \<open>A slice feeds its length and its elements into the hasher.\<close>

definition hash_tuple :: "('h hash_write list \<Rightarrow> u64) \<Rightarrow> ('d \<Rightarrow> 'h) \<Rightarrow> 'd datum list \<Rightarrow> nat \<Rightarrow> u64 option" where
  "hash_tuple finish dh tuple key_len =
     (if key_len \<le> length tuple
      then Some (finish (W_usize key_len # concat (map (datum_hash dh) (take key_len tuple)))) else None)"

partial_function (option) sorted_group_drain ::
  "('s, 'e) advance \<Rightarrow> ('s, 'd) getter \<Rightarrow> ('s, 'd) sorted_group_executor \<Rightarrow> ('e + ('s, 'd) sorted_group_executor) option" where
  "sorted_group_drain advance get self =
     Option.bind (peekable_next advance get (sg_source self)) (\<lambda>r.
       case r of
         Inl e \<Rightarrow> Some (Inl e)
       | Inr (source, None) \<Rightarrow> Some (Inr (self\<lparr>sg_source := source\<rparr>))
       | Inr (source, Some row) \<Rightarrow>
           Option.bind (arow_apply (sg_session self) (sg_expressions self) row (sg_current_state self)) (\<lambda>state.
           sorted_group_drain advance get (self\<lparr>sg_source := source, sg_current_state := state\<rparr>)))"

definition sorted_group_finalize :: "('s, 'd) sorted_group_executor \<Rightarrow> ('s, 'd) sorted_group_executor option" where
  "sorted_group_finalize self =
     map_option (\<lambda>out. self\<lparr>sg_output_tuple := out\<rparr>)
       (arow_finalize (sg_session self) (sg_expressions self) (sg_current_state self) (sg_output_tuple self))"

partial_function (option) sorted_group_loop ::
  "('h hash_write list \<Rightarrow> u64) \<Rightarrow> ('d \<Rightarrow> 'h) \<Rightarrow> ('s, 'e) advance \<Rightarrow> ('s, 'd) getter \<Rightarrow> u64 \<Rightarrow>
    ('s, 'd) sorted_group_executor \<Rightarrow> ('e + ('s, 'd) sorted_group_executor) option" where
  "sorted_group_loop finish dh advance get group_hash self =
     Option.bind (peekable_peek advance get (sg_source self)) (\<lambda>r.
       case r of
         Inl e \<Rightarrow> Some (Inl e)
       | Inr (source, None) \<Rightarrow> map_option Inr (sorted_group_finalize (self\<lparr>sg_source := source\<rparr>))
       | Inr (source, Some row) \<Rightarrow>
           Option.bind (hash_tuple finish dh (fst row) (sg_key_len self)) (\<lambda>hash.
           if hash \<noteq> group_hash then map_option Inr (sorted_group_finalize (self\<lparr>sg_source := source\<rparr>))
           else
             Option.bind (arow_apply (sg_session self) (sg_expressions self) row (sg_current_state self)) (\<lambda>state.
             sorted_group_loop finish dh advance get group_hash
               (self\<lparr>sg_source := peekable_lock_in source, sg_current_state := state\<rparr>))))"

definition sorted_group_advance ::
  "('h hash_write list \<Rightarrow> u64) \<Rightarrow> ('d \<Rightarrow> 'h) \<Rightarrow> ('s, 'e) advance \<Rightarrow> ('s, 'd) getter \<Rightarrow>
    (('s, 'd) sorted_group_executor, 'e) advance" where
  "sorted_group_advance finish dh advance get self =
     (if sg_key_len self = 0 \<and> sg_state self = Group_Initial then
        Option.bind (arow_reset (sg_expressions self) (sg_current_state self)) (\<lambda>state.
        Option.bind (sorted_group_drain advance get (self\<lparr>sg_current_state := state\<rparr>)) (\<lambda>r.
          case r of
            Inl e \<Rightarrow> Some (Inl e)
          | Inr self \<Rightarrow> map_option (\<lambda>self. Inr (self\<lparr>sg_state := Group_Processing\<rparr>)) (sorted_group_finalize self)))
      else if sg_key_len self = 0 \<and> sg_state self = Group_Processing then
        Some (Inr (self\<lparr>sg_state := Group_Done\<rparr>))
      else
        Option.bind (peekable_next advance get (sg_source self)) (\<lambda>r.
          case r of
            Inl e \<Rightarrow> Some (Inl e)
          | Inr (source, None) \<Rightarrow> Some (Inr (self\<lparr>sg_source := source, sg_state := Group_Done\<rparr>))
          | Inr (source, Some row) \<Rightarrow>
              Option.bind (arow_reset (sg_expressions self) (sg_current_state self)) (\<lambda>state.
              Option.bind (arow_apply (sg_session self) (sg_expressions self) row state) (\<lambda>state.
              Option.bind (hash_tuple finish dh (fst row) (sg_key_len self)) (\<lambda>group_hash.
              sorted_group_loop finish dh advance get group_hash (self\<lparr>sg_source := source, sg_current_state := state\<rparr>))))))"

definition sorted_group_get :: "(('s, 'd) sorted_group_executor, 'd) getter" where
  "sorted_group_get self = (if sg_state self = Group_Done then None else Some (sg_output_tuple self, 1))"

section \<open>The hash group executor\<close>

record ('s, 'd) hash_group_executor =
  hg_source :: 's
  hg_session :: session
  hg_key_len :: nat
  hg_expressions :: "'d aggregate_expression list"
  hg_state :: "(bytes \<times> 'd datum list) list"
  hg_state_iter :: "(bytes \<times> 'd datum list) list option"
  hg_output_state :: "'d datum list"
  hg_output_tuple :: "'d datum list"
  hg_done :: bool

definition hash_group_new ::
  "'s \<Rightarrow> session \<Rightarrow> nat \<Rightarrow> 'd expression list \<Rightarrow> ('s, 'd) hash_group_executor option" where
  "hash_group_new source session key_len expressions =
     map_option (\<lambda>expressions.
       \<lparr>hg_source = source, hg_session = session, hg_key_len = key_len, hg_expressions = expressions, hg_state = [],
        hg_state_iter = None, hg_output_state = [], hg_output_tuple = right_size_new expressions, hg_done = False\<rparr>)
       (aexprs_from expressions)"

definition group_key :: "('d, 'z) decimal_ops_scheme \<Rightarrow> nat \<Rightarrow> 'd datum list \<Rightarrow> bytes option" where
  "group_key D key_len tuple =
     (if key_len \<le> length tuple then write_row D (replicate key_len Asc) (take key_len tuple) [] else None)"

text \<open>The hash map is its list of entries; the new entry goes where the iteration order puts it.\<close>

partial_function (option) hash_group_loop ::
  "('d, 'z) decimal_ops_scheme \<Rightarrow> ('s, 'e) advance \<Rightarrow> ('s, 'd) getter \<Rightarrow> ('s, 'd) hash_group_executor \<Rightarrow>
    ('e + ('s, 'd) hash_group_executor) option" where
  "hash_group_loop D advance get self =
     Option.bind (iter_next advance get (hg_source self)) (\<lambda>r.
       case r of
         Inl e \<Rightarrow> Some (Inl e)
       | Inr (source, None) \<Rightarrow> Some (Inr (self\<lparr>hg_source := source\<rparr>))
       | Inr (source, Some row) \<Rightarrow>
           Option.bind (group_key D (hg_key_len self) (fst row)) (\<lambda>key_buf.
           Option.bind (case map_of (hg_state self) key_buf of
               Some state \<Rightarrow> arow_apply (hg_session self) (hg_expressions self) row state
             | None \<Rightarrow> Option.bind (arow_initialize (hg_expressions self)) (arow_apply (hg_session self) (hg_expressions self) row))
             (\<lambda>state.
             hash_group_loop D advance get (self\<lparr>hg_source := source, hg_state := AList.update key_buf state (hg_state self)\<rparr>))))"

definition hash_group_serve :: "(('s, 'd) hash_group_executor, 'e) advance" where
  "hash_group_serve self =
     Option.bind (hg_state_iter self) (\<lambda>iter.
       case iter of
         (key, state) # iter \<Rightarrow>
           map_option (\<lambda>out. Inr (self\<lparr>hg_state_iter := Some iter, hg_output_state := state, hg_output_tuple := out\<rparr>))
             (arow_finalize (hg_session self) (hg_expressions self) state (hg_output_tuple self))
       | [] \<Rightarrow> Some (Inr (self\<lparr>hg_done := True\<rparr>)))"

definition hash_group_advance ::
  "('d, 'z) decimal_ops_scheme \<Rightarrow> ((bytes \<times> 'd datum list) list \<Rightarrow> (bytes \<times> 'd datum list) list) \<Rightarrow>
    ('s, 'e) advance \<Rightarrow> ('s, 'd) getter \<Rightarrow> (('s, 'd) hash_group_executor, 'e) advance" where
  "hash_group_advance D iteration advance get self =
     (if hg_state_iter self = None then
        Option.bind (hash_group_loop D advance get self) (\<lambda>r.
          case r of
            Inl e \<Rightarrow> Some (Inl e)
          | Inr self \<Rightarrow> hash_group_serve (self\<lparr>hg_state := [], hg_state_iter := Some (iteration (hg_state self))\<rparr>))
      else hash_group_serve self)"

definition hash_group_get :: "(('s, 'd) hash_group_executor, 'd) getter" where
  "hash_group_get self = (if hg_done self then None else Some (hg_output_tuple self, 1))"

section \<open>Groups\<close>

text \<open>Runs of adjacent rows with one key.\<close>

function group_runs :: "('r \<Rightarrow> 'k) \<Rightarrow> 'r list \<Rightarrow> 'r list list" where
  "group_runs key [] = []"
| "group_runs key (r # rs) =
     (r # takeWhile (\<lambda>x. key x = key r) rs) # group_runs key (dropWhile (\<lambda>x. key x = key r) rs)"
  by pat_completeness auto
termination
  by (relation "measure (\<lambda>(key, rs). length rs)") (auto simp: le_imp_less_Suc length_dropWhile_le)

text \<open>The states of the groups and their results.\<close>

abbreviation group_fold ::
  "session \<Rightarrow> 'd aggregate_expression list \<Rightarrow> 'd row list \<Rightarrow> 'd datum list option" where
  "group_fold session es rows \<equiv> run_rows (arow_apply session es) rows (arow_initial es)"

definition group_out :: "session \<Rightarrow> 'd aggregate_expression list \<Rightarrow> 'd row list \<Rightarrow> 'd row" where
  "group_out session es rows = (the (arow_result session es rows), 1)"

lemma group_fold_length:
  assumes "list_all aexpr_ok es" "group_fold session es rows = Some st"
  shows "length st = arow_state_len es"
  by (rule slottedD(2) [OF run_rows_slotted [OF arow_apply_slotted [OF assms(1)]] arow_initial_length [OF assms(1)] assms(2)])

lemma group_result:
  assumes "list_all aexpr_ok es" "arow_result session es rows = Some out"
  shows "\<exists>st. group_fold session es rows = Some st \<and> length st = arow_state_len es \<and>
    (\<forall>target. length target = length es \<longrightarrow> arow_finalize session es st target = Some out)"
proof -
  obtain st where st: "group_fold session es rows = Some st" "arow_finalize session es st (right_size_new es) = Some out"
    using assms(2) arow_initialize_eq [OF assms(1)] by (auto simp: arow_result_def bind_eq_Some_conv)
  then show ?thesis
    using group_fold_length [OF assms(1)] arow_finalize_eq [OF assms(1), of st] by simp
qed


section \<open>Sorted groups\<close>

abbreviation row_hash :: "('h hash_write list \<Rightarrow> u64) \<Rightarrow> ('d \<Rightarrow> 'h) \<Rightarrow> nat \<Rightarrow> 'd row \<Rightarrow> u64" where
  "row_hash finish dh key_len r \<equiv> the (hash_tuple finish dh (fst r) key_len)"

text \<open>What an executor in the middle of its work has fixed.\<close>

definition sg_ready ::
  "session \<Rightarrow> nat \<Rightarrow> 'd aggregate_expression list \<Rightarrow> ('s, 'd) sorted_group_executor \<Rightarrow> bool" where
  "sg_ready session n es self \<longleftrightarrow> sg_session self = session \<and> sg_key_len self = n \<and> sg_expressions self = es \<and>
     length (sg_current_state self) = arow_state_len es \<and> length (sg_output_tuple self) = length es"

lemma sorted_group_loop_rows:
  assumes ok: "list_all aexpr_ok es" and self: "sg_ready session n es self"
    and at: "peekable_at advance get (sg_source self) (g @ rest)"
    and wide: "\<forall>r \<in> set (g @ rest). n \<le> length (fst r)"
    and same: "\<forall>r \<in> set g. row_hash finish dh n r = h" and other: "rest = [] \<or> row_hash finish dh n (hd rest) \<noteq> h"
    and run: "run_rows (arow_apply session es) g (sg_current_state self) = Some st"
    and fin: "\<And>target. length target = length es \<Longrightarrow> arow_finalize session es st target = Some out"
  shows "\<exists>p. sorted_group_loop finish dh advance get h self =
      Some (Inr (self\<lparr>sg_source := p, sg_current_state := st, sg_output_tuple := out\<rparr>)) \<and> peekable_at advance get p rest"
  using self at wide same run
proof (induction g arbitrary: self)
  case Nil
  then have st: "st = sg_current_state self" by simp
  obtain p where p: "peekable_peek advance get (sg_source self) = Some (Inr (p, case rest of [] \<Rightarrow> None | r # _ \<Rightarrow> Some r))"
    "peekable_at advance get p rest" using peekable.peek_at [OF Nil.prems(2)] by auto
  have "sorted_group_loop finish dh advance get h self =
      map_option Inr (sorted_group_finalize (self\<lparr>sg_source := p\<rparr>))"
    using p(1) other Nil.prems
    by (subst sorted_group_loop.simps) (cases rest; auto simp: hash_tuple_def sg_ready_def)
  then show ?case
    using p(2) fin [of "sg_output_tuple self"] Nil.prems(1) st
    by (auto simp: sorted_group_finalize_def sg_ready_def)
next
  case (Cons r g)
  obtain p where p: "peekable_peek advance get (sg_source self) = Some (Inr (p, Some r))"
    "peekable_at advance get (peekable_lock_in p) (g @ rest)"
    using peekable.peek_then_lock [of advance get "sg_source self" r "g @ rest"] Cons.prems(2) by auto
  have [simp]: "sg_session self = session" "sg_key_len self = n" "sg_expressions self = es"
    using Cons.prems(1) by (simp_all add: sg_ready_def)
  obtain st1 where st1: "arow_apply session es r (sg_current_state self) = Some st1"
    "run_rows (arow_apply session es) g st1 = Some st" using Cons.prems(5) by (auto simp: bind_eq_Some_conv)
  have len: "length st1 = arow_state_len es"
    using slottedD(2) [OF arow_apply_slotted [OF ok] _ st1(1)] Cons.prems(1) by (simp add: sg_ready_def)
  let ?self = "self\<lparr>sg_source := peekable_lock_in p, sg_current_state := st1\<rparr>"
  have "sorted_group_loop finish dh advance get h self = sorted_group_loop finish dh advance get h ?self"
    using p(1) st1(1) Cons.prems(3,4) by (subst sorted_group_loop.simps) (simp add: hash_tuple_def)
  moreover have "sg_ready session n es ?self" using Cons.prems(1) len by (simp add: sg_ready_def)
  ultimately show ?case using Cons.IH [of ?self] p(2) Cons.prems(3,4) st1(2) by auto
qed

lemma sorted_group_step:
  assumes ok: "list_all aexpr_ok es" and n: "0 < n" and self: "sg_ready session n es self"
    and at: "peekable_at advance get (sg_source self) (r # g @ rest)"
    and wide: "\<forall>r \<in> set (r # g @ rest). n \<le> length (fst r)"
    and same: "\<forall>x \<in> set g. row_hash finish dh n x = row_hash finish dh n r"
    and other: "rest = [] \<or> row_hash finish dh n (hd rest) \<noteq> row_hash finish dh n r"
    and res: "arow_result session es (r # g) = Some out"
  shows "\<exists>self'. sorted_group_advance finish dh advance get self = Some (Inr self') \<and> sg_ready session n es self' \<and>
    sg_output_tuple self' = out \<and> sg_state self' = sg_state self \<and> peekable_at advance get (sg_source self') rest"
proof -
  obtain p where p: "peekable_next advance get (sg_source self) = Some (Inr (p, Some r))" "peekable_at advance get p (g @ rest)"
    using peekable.next_Cons [OF at] by auto
  have [simp]: "sg_session self = session" "sg_key_len self = n" "sg_expressions self = es"
    using self by (simp_all add: sg_ready_def)
  obtain st where st: "group_fold session es (r # g) = Some st" "length st = arow_state_len es"
    "\<And>target. length target = length es \<Longrightarrow> arow_finalize session es st target = Some out"
    using group_result [OF ok res] by auto
  then obtain st1 where st1: "arow_apply session es r (arow_initial es) = Some st1" "run_rows (arow_apply session es) g st1 = Some st"
    by (auto simp: bind_eq_Some_conv)
  have len: "length st1 = arow_state_len es"
    using slottedD(2) [OF arow_apply_slotted [OF ok] arow_initial_length [OF ok] st1(1)] .
  have out: "length out = length es"
    using arow_result_values [OF ok, of session "r # g"] res length_those [of "map (agg_value session (r # g)) es" out] by simp
  let ?self = "self\<lparr>sg_source := p, sg_current_state := st1\<rparr>"
  have ready: "sg_ready session n es ?self" using self len by (simp add: sg_ready_def)
  obtain p' where "sorted_group_loop finish dh advance get (row_hash finish dh n r) ?self =
      Some (Inr (?self\<lparr>sg_source := p', sg_current_state := st, sg_output_tuple := out\<rparr>))" "peekable_at advance get p' rest"
    using sorted_group_loop_rows [OF ok ready, of advance get g rest finish dh "row_hash finish dh n r" st out] p(2) wide same other st1(2) st(3)
    by auto
  then show ?thesis
    using p(1) st1(1) n wide self st(2) out arow_reset_eq [OF ok, of "sg_current_state self"]
    by (simp add: sorted_group_advance_def hash_tuple_def sg_ready_def)
qed

lemma group_runs_concat: "concat (group_runs key rs) = rs"
  by (induction key rs rule: group_runs.induct) simp_all

lemma hd_dropWhile_neq: "dropWhile (\<lambda>x. key x = k) rs = [] \<or> key (hd (dropWhile (\<lambda>x. key x = k) rs)) \<noteq> k"
  using hd_dropWhile [of "\<lambda>x. key x = k" rs] by blast

lemma sorted_group_yields_from:
  assumes "list_all aexpr_ok es" "0 < n"
    and "\<forall>r \<in> set rs. n \<le> length (fst r)"
    and "\<forall>g \<in> set (group_runs (row_hash finish dh n) rs). arow_result session es g \<noteq> None"
    and "sg_ready session n es self" "peekable_at advance get (sg_source self) rs" "sg_state self \<noteq> Group_Done"
  shows "yields (sorted_group_advance finish dh advance get) sorted_group_get self
    (map (group_out session es) (group_runs (row_hash finish dh n) rs))"
  using assms(3-)
proof (induction "row_hash finish dh n" rs arbitrary: self rule: group_runs.induct)
  case (1 self)
  then obtain p where "peekable_next advance get (sg_source self) = Some (Inr (p, None))"
    using peekable.next_Nil by blast
  then show ?case using assms(2) 1 by (simp add: yields_Nil_iff sorted_group_advance_def sorted_group_get_def sg_ready_def)
next
  case (2 r rs self)
  let ?h = "row_hash finish dh n"
  let ?g = "takeWhile (\<lambda>x. ?h x = ?h r) rs" and ?rest = "dropWhile (\<lambda>x. ?h x = ?h r) rs"
  obtain out where out: "arow_result session es (r # ?g) = Some out" using 2(3) by auto
  have at: "peekable_at advance get (sg_source self) (r # ?g @ ?rest)" using 2(5) by simp
  have wide: "\<forall>r \<in> set (r # ?g @ ?rest). n \<le> length (fst r)" using 2(2) by simp
  have same: "\<forall>x \<in> set ?g. ?h x = ?h r" by (auto dest: set_takeWhileD)
  obtain self' where self': "sorted_group_advance finish dh advance get self = Some (Inr self')" "sg_ready session n es self'"
    "sg_output_tuple self' = out" "sg_state self' = sg_state self" "peekable_at advance get (sg_source self') ?rest"
    using sorted_group_step [OF assms(1,2) 2(4) at wide same hd_dropWhile_neq out] by blast
  have "yields (sorted_group_advance finish dh advance get) sorted_group_get self' (map (group_out session es) (group_runs ?h ?rest))"
    using 2(1) [of self'] 2(2,3) 2(6) self' by (auto dest: set_dropWhileD)
  moreover have "sorted_group_get self' = Some (group_out session es (r # ?g))"
    using self'(3,4) 2(6) out by (simp add: sorted_group_get_def group_out_def)
  ultimately show ?case
    using yields_row [of "sorted_group_advance finish dh advance get" self self' sorted_group_get] self'(1) by simp
qed


lemma sorted_group_yields:
  assumes ok: "aexprs_from exprs = Some es" "list_all aexpr_ok es" and "0 < n" "yields advance get s rs"
    and "\<forall>r \<in> set rs. n \<le> length (fst r)"
    and "\<forall>g \<in> set (group_runs (row_hash finish dh n) rs). arow_result session es g \<noteq> None"
  shows "\<exists>self. sorted_group_new s session n exprs = Some self \<and>
    yields (sorted_group_advance finish dh advance get) sorted_group_get self
      (map (group_out session es) (group_runs (row_hash finish dh n) rs))"
proof -
  let ?self = "\<lparr>sg_source = peekable_from s, sg_session = session, sg_key_len = n, sg_expressions = es,
    sg_current_state = arow_initial es, sg_output_tuple = right_size_new es, sg_state = Group_Initial\<rparr>"
  have "sorted_group_new s session n exprs = Some ?self"
    using ok(1) arow_initialize_eq [OF ok(2)] by (simp add: sorted_group_new_def)
  moreover have "sg_ready session n es ?self" using arow_initial_length [OF ok(2)] by (simp add: sg_ready_def)
  ultimately show ?thesis
    using sorted_group_yields_from [OF ok(2) assms(3,5,6), of ?self advance get] peekable_from_at [OF assms(4)] by auto
qed

text \<open>Without keys everything is one group, also when there are no rows.\<close>

lemma sorted_group_drain_rows:
  assumes "peekable_at advance get (sg_source self) rs" "run_rows (arow_apply (sg_session self) (sg_expressions self)) rs (sg_current_state self) = Some st"
  shows "\<exists>p. sorted_group_drain advance get self = Some (Inr (self\<lparr>sg_source := p, sg_current_state := st\<rparr>))"
  using assms
proof (induction rs arbitrary: self)
  case Nil
  then obtain p where "peekable_next advance get (sg_source self) = Some (Inr (p, None))" using peekable.next_Nil by blast
  then show ?case using Nil.prems(2) by (subst sorted_group_drain.simps) auto
next
  case (Cons r rs)
  obtain p where p: "peekable_next advance get (sg_source self) = Some (Inr (p, Some r))" "peekable_at advance get p rs"
    using peekable.next_Cons [OF Cons.prems(1)] by auto
  obtain st1 where st1: "arow_apply (sg_session self) (sg_expressions self) r (sg_current_state self) = Some st1"
    "run_rows (arow_apply (sg_session self) (sg_expressions self)) rs st1 = Some st" using Cons.prems(2) by (auto simp: bind_eq_Some_conv)
  have "sorted_group_drain advance get self =
      sorted_group_drain advance get (self\<lparr>sg_source := p, sg_current_state := st1\<rparr>)"
    using p(1) st1(1) by (subst sorted_group_drain.simps) simp
  then show ?case using Cons.IH [of "self\<lparr>sg_source := p, sg_current_state := st1\<rparr>"] p(2) st1(2) by simp
qed

lemma global_group_yields:
  assumes ok: "aexprs_from exprs = Some es" "list_all aexpr_ok es" and "yields advance get s rs"
    and res: "arow_result session es rs = Some out"
  shows "\<exists>self. sorted_group_new s session 0 exprs = Some self \<and>
    yields (sorted_group_advance finish dh advance get) sorted_group_get self [(out, 1)]"
proof -
  let ?self = "\<lparr>sg_source = peekable_from s, sg_session = session, sg_key_len = 0, sg_expressions = es,
    sg_current_state = arow_initial es, sg_output_tuple = right_size_new es, sg_state = Group_Initial\<rparr>"
  obtain st where st: "group_fold session es rs = Some st"
    "\<And>target. length target = length es \<Longrightarrow> arow_finalize session es st target = Some out"
    using group_result [OF ok(2) res] by auto
  obtain p where "sorted_group_drain advance get ?self = Some (Inr (?self\<lparr>sg_source := p, sg_current_state := st\<rparr>))"
    using sorted_group_drain_rows [of advance get ?self rs st] peekable_from_at [OF assms(3)] st(1) by auto
  then have "sorted_group_advance finish dh advance get ?self =
      Some (Inr (?self\<lparr>sg_source := p, sg_current_state := st, sg_output_tuple := out, sg_state := Group_Processing\<rparr>))"
    using arow_reset_eq [OF ok(2) arow_initial_length [OF ok(2)]] st(2)
    by (simp add: sorted_group_advance_def sorted_group_finalize_def)
  then have "yields (sorted_group_advance finish dh advance get) sorted_group_get ?self [(out, 1)]"
    by (rule yields_row) (auto simp: yields_Nil_iff sorted_group_get_def sorted_group_advance_def)
  then show ?thesis using ok(1) arow_initialize_eq [OF ok(2)] by (simp add: sorted_group_new_def)
qed

section \<open>Hash groups\<close>

text \<open>The entries after some rows: one per key, holding the state of the rows with that key.\<close>

abbreviation row_key :: "('d, 'z) decimal_ops_scheme \<Rightarrow> nat \<Rightarrow> 'd row \<Rightarrow> bytes" where
  "row_key D n r \<equiv> the (group_key D n (fst r))"

definition group_entries ::
  "('d, 'z) decimal_ops_scheme \<Rightarrow> nat \<Rightarrow> session \<Rightarrow> 'd aggregate_expression list \<Rightarrow> 'd row list \<Rightarrow> (bytes \<times> 'd datum list) list \<Rightarrow> bool" where
  "group_entries D n session es rs m \<longleftrightarrow> distinct (map fst m) \<and> set (map fst m) = row_key D n ` set rs \<and>
     (\<forall>k \<in> row_key D n ` set rs. map_of m k = group_fold session es (filter (\<lambda>r. row_key D n r = k) rs))"

lemma group_entries_snoc:
  assumes "group_entries D n session es rs m" "row_key D n r = k"
    and "group_fold session es (filter (\<lambda>x. row_key D n x = k) (rs @ [r])) = Some st"
  shows "group_entries D n session es (rs @ [r]) (AList.update k st m)"
proof -
  have m: "distinct (map fst m)" "set (map fst m) = row_key D n ` set rs"
    "\<And>k. k \<in> row_key D n ` set rs \<Longrightarrow> map_of m k = group_fold session es (filter (\<lambda>r. row_key D n r = k) rs)"
    using assms(1) unfolding group_entries_def by auto
  have "map_of (AList.update k st m) x = group_fold session es (filter (\<lambda>r. row_key D n r = x) (rs @ [r]))"
    if "x \<in> row_key D n ` set (rs @ [r])" for x
    using that assms(2,3) m(3) [of x] by (cases "x = k") (auto simp: update_conv')
  moreover have "set (map fst (AList.update k st m)) = row_key D n ` set (rs @ [r])"
    using m(2) assms(2) by (auto simp: update_keys)
  ultimately show ?thesis using m(1) unfolding group_entries_def by (simp add: distinct_update)
qed


lemma group_fold_prefix: "run_rows g (xs @ ys) st \<noteq> None \<Longrightarrow> run_rows g xs st \<noteq> None"
  by (cases "run_rows g xs st") (simp_all add: run_rows_append)

lemma hash_group_loop_rows:
  assumes ok: "list_all aexpr_ok es" and "yields advance get (hg_source self) rs"
    and "hg_session self = session" "hg_key_len self = n" "hg_expressions self = es"
    and "group_entries D n session es rs0 (hg_state self)"
    and "\<forall>r \<in> set rs. group_key D n (fst r) \<noteq> None"
    and "\<forall>k. group_fold session es (filter (\<lambda>r. row_key D n r = k) (rs0 @ rs)) \<noteq> None"
  shows "\<exists>s' m. hash_group_loop D advance get self = Some (Inr (self\<lparr>hg_source := s', hg_state := m\<rparr>)) \<and>
    group_entries D n session es (rs0 @ rs) m"
  using assms(2-)
proof (induction "hg_source self" rs arbitrary: self rs0 rule: yields.induct)
  case (yields_end s')
  then show ?case by (subst hash_group_loop.simps) (auto intro!: exI [of _ s'] exI [of _ "hg_state self"])
next
  case (yields_row s' r rs)
  obtain k where k: "group_key D n (fst r) = Some k" using yields_row.prems(5) by auto
  let ?of = "filter (\<lambda>x. row_key D n x = k)"
  have "run_rows (arow_apply session es) (?of (rs0 @ [r]) @ ?of rs) (arow_initial es) \<noteq> None"
    using yields_row.prems(6) k by (auto simp flip: filter_append)
  from group_fold_prefix [OF this] obtain st where st: "group_fold session es (?of (rs0 @ [r])) = Some st" by auto
  have "(case map_of (hg_state self) k of Some state \<Rightarrow> arow_apply session es r state
      | None \<Rightarrow> Option.bind (arow_initialize es) (arow_apply session es r)) = Some st"
  proof (cases "k \<in> row_key D n ` set rs0")
    case True
    then show ?thesis
      using yields_row.prems(4) st k
      by (auto simp: group_entries_def run_rows_snoc bind_eq_Some_conv)
  next
    case False
    then have "map_of (hg_state self) k = None" "?of rs0 = []"
      using yields_row.prems(4) by (auto simp: group_entries_def map_of_eq_None_iff filter_empty_conv image_iff)
    then show ?thesis using st k arow_initialize_eq [OF ok] run_rows_snoc [of "arow_apply session es" "[]" r] by simp
  qed
  then have "hash_group_loop D advance get self =
      hash_group_loop D advance get (self\<lparr>hg_source := s', hg_state := AList.update k st (hg_state self)\<rparr>)"
    using yields_row.hyps(1,2) yields_row.prems(1-3) k
    by (subst hash_group_loop.simps) (cases "map_of (hg_state self) k"; simp)
  then show ?case
    using yields_row.hyps(4) [of "self\<lparr>hg_source := s', hg_state := AList.update k st (hg_state self)\<rparr>" "rs0 @ [r]"]
      yields_row.prems group_entries_snoc [OF yields_row.prems(4), of r k st] k st by simp
qed

lemma hash_group_serve_rows:
  assumes "hg_session self = session" "hg_expressions self = es" "hg_state_iter self = Some m" "\<not> hg_done self"
    and "length (hg_output_tuple self) = length es"
    and "\<forall>e \<in> set m. \<forall>target. length target = length es \<longrightarrow>
      arow_finalize session es (snd e) target = Some (out e) \<and> length (out e) = length es"
  shows "yields (hash_group_advance D iteration advance get) hash_group_get self (map (\<lambda>e. (out e, 1)) m)"
  using assms
proof (induction m arbitrary: self)
  case Nil
  then show ?case by (simp add: yields_Nil_iff hash_group_advance_def hash_group_serve_def hash_group_get_def)
next
  case (Cons e m)
  let ?self = "self\<lparr>hg_state_iter := Some m, hg_output_state := snd e, hg_output_tuple := out e\<rparr>"
  have "hash_group_advance D iteration advance get self = Some (Inr ?self)"
    using Cons.prems by (cases e) (simp add: hash_group_advance_def hash_group_serve_def)
  moreover have "hash_group_get ?self = Some (out e, 1)" using Cons.prems(4) by (simp add: hash_group_get_def)
  moreover have "yields (hash_group_advance D iteration advance get) hash_group_get ?self (map (\<lambda>e. (out e, 1)) m)"
    using Cons.IH [of ?self] Cons.prems by auto
  ultimately show ?case by (simp add: yields_row)
qed

lemma group_entry_out:
  assumes ok: "list_all aexpr_ok es" and "group_entries D n session es rs m" "e \<in> set m"
    and "\<forall>k \<in> row_key D n ` set rs. arow_result session es (filter (\<lambda>r. row_key D n r = k) rs) \<noteq> None"
    and "length target = length es"
  defines "out \<equiv> fst (group_out session es (filter (\<lambda>r. row_key D n r = fst e) rs))"
  shows "arow_finalize session es (snd e) target = Some out \<and> length out = length es"
proof -
  let ?g = "filter (\<lambda>r. row_key D n r = fst e) rs"
  have k: "fst e \<in> row_key D n ` set rs" "map_of m (fst e) = Some (snd e)"
    using assms(2,3) unfolding group_entries_def by (auto intro: map_of_is_SomeI simp: rev_image_eqI)
  obtain o' where out: "arow_result session es ?g = Some o'" using assms(4) k(1) by blast
  have "map_of m (fst e) = group_fold session es ?g" using assms(2) k(1) unfolding group_entries_def by blast
  moreover have "length o' = length es"
    using arow_result_values [OF ok, of session ?g] out length_those [of "map (agg_value session ?g) es" o'] by simp
  ultimately show ?thesis using group_result [OF ok out] assms(5) out k(2) by (auto simp: out_def group_out_def)
qed

lemma hash_group_yields:
  assumes ok: "aexprs_from exprs = Some es" "list_all aexpr_ok es" and s: "yields advance get s rs"
    and keys: "\<forall>r \<in> set rs. group_key D n (fst r) \<noteq> None"
    and res: "\<forall>k \<in> row_key D n ` set rs. arow_result session es (filter (\<lambda>r. row_key D n r = k) rs) \<noteq> None"
    and iteration: "\<And>m. mset (iteration m) = mset m"
  shows "\<exists>self out. hash_group_new s session n exprs = Some self \<and>
    yields (hash_group_advance D iteration advance get) hash_group_get self out \<and>
    mset out = image_mset (\<lambda>k. group_out session es (filter (\<lambda>r. row_key D n r = k) rs)) (mset_set (row_key D n ` set rs))"
proof -
  let ?self = "\<lparr>hg_source = s, hg_session = session, hg_key_len = n, hg_expressions = es, hg_state = [],
    hg_state_iter = None, hg_output_state = [], hg_output_tuple = right_size_new es, hg_done = False\<rparr>"
  let ?out = "\<lambda>e. fst (group_out session es (filter (\<lambda>r. row_key D n r = fst e) rs))"
  have "group_fold session es (filter (\<lambda>r. row_key D n r = k) rs) \<noteq> None" for k
  proof (cases "k \<in> row_key D n ` set rs")
    case True
    then show ?thesis using res group_result [OF ok(2), of session "filter (\<lambda>r. row_key D n r = k) rs"] by force
  next
    case False
    then have "filter (\<lambda>r. row_key D n r = k) rs = []" by (auto simp: filter_empty_conv image_iff)
    then show ?thesis by simp
  qed
  then obtain s' m where m: "hash_group_loop D advance get ?self = Some (Inr (?self\<lparr>hg_source := s', hg_state := m\<rparr>))"
    "group_entries D n session es rs m"
    using hash_group_loop_rows [OF ok(2), of advance get ?self rs session n D "[]"] s keys by (auto simp: group_entries_def)
  have set_it: "set (iteration m) = set m" using iteration [of m] by (metis set_mset_mset)
  have "yields (hash_group_advance D iteration advance get) hash_group_get
      (?self\<lparr>hg_source := s', hg_state_iter := Some (iteration m)\<rparr>) (map (\<lambda>e. (?out e, 1)) (iteration m))"
    by (rule hash_group_serve_rows) (simp_all add: set_it, use group_entry_out [OF ok(2) m(2) _ res] in blast)
  moreover have a: "hash_group_advance D iteration advance get ?self =
      hash_group_advance D iteration advance get (?self\<lparr>hg_source := s', hg_state_iter := Some (iteration m)\<rparr>)"
    using m(1) by (simp add: hash_group_advance_def)
  ultimately have y: "yields (hash_group_advance D iteration advance get) hash_group_get ?self (map (\<lambda>e. (?out e, 1)) (iteration m))"
    using yields_cong [OF a, of hash_group_get] by simp
  have "image_mset fst (mset m) = mset_set (row_key D n ` set rs)"
    using m(2) mset_set_set [of "map fst m"] by (auto simp: group_entries_def)
  from arg_cong [OF this, of "image_mset (\<lambda>k. group_out session es (filter (\<lambda>r. row_key D n r = k) rs))"]
  have "mset (map (\<lambda>e. (?out e, 1)) (iteration m)) =
      image_mset (\<lambda>k. group_out session es (filter (\<lambda>r. row_key D n r = k) rs)) (mset_set (row_key D n ` set rs))"
    using iteration [of m] by (simp add: group_out_def image_mset.compositionality comp_def)
  then show ?thesis using y ok(1) by (auto simp: hash_group_new_def)
qed


section \<open>Agreement on sorted input\<close>

text \<open>On rows sorted by a key, the runs are the groups.\<close>

lemma group_runs_sorted:
  assumes "sorted (map key rs)"
  shows "mset (group_runs key rs) = image_mset (\<lambda>k. filter (\<lambda>r. key r = k) rs) (mset_set (key ` set rs))"
  using assms
proof (induction key rs rule: group_runs.induct)
  case (2 key r rs)
  define g rest where "g = takeWhile (\<lambda>x. key x = key r) rs" and "rest = dropWhile (\<lambda>x. key x = key r) rs"
  have split: "rs = g @ rest" by (simp add: g_def rest_def)
  have same: "\<forall>x \<in> set g. key x = key r" by (auto simp: g_def dest: set_takeWhileD)
  have srt: "sorted (map key rest)" "\<forall>x \<in> set rest. key r \<le> key x" using 2(2) by (simp_all add: split sorted_append)
  have other: "\<forall>x \<in> set rest. key x \<noteq> key r"
  proof (cases rest)
    case (Cons y ys)
    then have "key r < key y"
      using hd_dropWhile_neq [of key "key r" rs] srt(2) unfolding rest_def [symmetric] by fastforce
    then show ?thesis using srt(1) Cons by fastforce
  qed simp
  have runs: "group_runs key (r # rs) = (r # g) # group_runs key rest" by (simp add: g_def rest_def)
  have IH: "mset (group_runs key rest) = image_mset (\<lambda>k. filter (\<lambda>x. key x = k) rest) (mset_set (key ` set rest))"
    using 2(1) srt(1) by (simp add: rest_def)
  have f: "filter (\<lambda>x. key x = key r) rest = []" "filter (\<lambda>x. key x = key r) g = g"
    using same other by (simp_all add: filter_empty_conv)
  have o: "filter (\<lambda>x. key x = k) (r # rs) = filter (\<lambda>x. key x = k) rest" if k: "k \<in> key ` set rest" for k
  proof -
    have "key r \<noteq> k" using k other by auto
    then have "filter (\<lambda>x. key x = k) g = []" using same by (simp add: filter_empty_conv)
    then show ?thesis using \<open>key r \<noteq> k\<close> by (simp add: split)
  qed
  have rest: "image_mset (\<lambda>k. filter (\<lambda>x. key x = k) (r # rs)) (mset_set (key ` set rest)) = mset (group_runs key rest)"
    unfolding IH using o by (intro image_mset_cong) simp
  have keys: "key ` set (r # rs) = insert (key r) (key ` set rest)" "key r \<notin> key ` set rest"
    using same other by (force simp: split)+
  have first: "filter (\<lambda>x. key x = key r) (r # rs) = r # g" using f by (simp add: split)
  show ?case unfolding runs keys(1) using rest first keys(2) by (simp del: filter.simps)
qed simp


lemma group_runs_cong:
  "\<forall>a \<in> set rs. \<forall>b \<in> set rs. f a = f b \<longleftrightarrow> g a = g b \<Longrightarrow> group_runs f rs = group_runs g rs"
proof (induction f rs rule: group_runs.induct)
  case (2 f r rs)
  have "takeWhile (\<lambda>x. f x = f r) rs = takeWhile (\<lambda>x. g x = g r) rs"
    "dropWhile (\<lambda>x. f x = f r) rs = dropWhile (\<lambda>x. g x = g r) rs"
    using 2(2) by (auto intro: takeWhile_cong dropWhile_cong)
  moreover have "group_runs f (dropWhile (\<lambda>x. f x = f r) rs) = group_runs g (dropWhile (\<lambda>x. f x = f r) rs)"
    by (intro 2(1)) (meson 2(2) set_dropWhileD list.set_intros(2))
  ultimately show ?case by simp
qed simp

text \<open>Rows have the same encoded key exactly when their key columns are equal.\<close>

definition same_key :: "('d, 'z) decimal_ops_scheme \<Rightarrow> nat \<Rightarrow> 'd row \<Rightarrow> 'd row \<Rightarrow> bool" where
  "same_key D n a b \<longleftrightarrow> row_matches D (take n (fst a)) (take n (fst b))"

definition groupable_row :: "('d, 'z) decimal_ops_scheme \<Rightarrow> (bytes \<Rightarrow> json_path_selector list option) \<Rightarrow> nat \<Rightarrow> 'd row \<Rightarrow> bool" where
  "groupable_row D jp n r \<longleftrightarrow> n \<le> length (fst r) \<and> valid_row D jp (take n (fst r))"

lemma group_key_bytes:
  "groupable_row D jp n r \<Longrightarrow> group_key D n (fst r) = Some (row_bytes D (replicate n Asc) (take n (fst r)))"
  using write_row_append [of D jp "take n (fst r)" "replicate n Asc" "[]"] by (simp add: group_key_def groupable_row_def)

lemma row_key_eq_iff:
  assumes "groupable_row D jp n a" "groupable_row D jp n b"
  shows "row_key D n a = row_key D n b \<longleftrightarrow> same_key D n a b"
  using row_bytes_eq [of D jp "take n (fst a)" "take n (fst b)" "replicate n Asc" "[]" "[]"] assms
  by (simp add: group_key_bytes [OF assms(1)] group_key_bytes [OF assms(2)] same_key_def row_matches_def groupable_row_def)

lemma same_key_hash:
  assumes "decimal_laws D" "\<And>d e. d_cmp D d e = Equal \<Longrightarrow> dh d = dh e" "n \<le> length (fst a)" "n \<le> length (fst b)" "same_key D n a b"
  shows "row_hash finish dh n a = row_hash finish dh n b"
proof -
  have "list_all2 (\<lambda>x y. datum_hash dh x = datum_hash dh y) (take n (fst a)) (take n (fst b))"
    using assms(5) datum_eq_hash [OF assms(1,2)] unfolding same_key_def row_matches_def
    by (rule list_all2_mono) blast
  then have "map (datum_hash dh) (take n (fst a)) = map (datum_hash dh) (take n (fst b))"
    by (simp add: list.rel_eq [symmetric] list.rel_map)
  then show ?thesis using assms(3,4) by (simp add: hash_tuple_def)
qed

text \<open>A grouped query with its rows, for examples.\<close>

definition count_sig :: function_signature where
  "count_sig = \<lparr>sig_name = ''count'', sig_args = [], sig_ret = T_BigInt\<rparr>"

definition example_group :: "ref_decimal expression list" where
  "example_group = [CompiledColumnReference 0 T_Integer, CompiledAggregate Count [] count_sig]"

definition example_aggs :: "ref_decimal aggregate_expression list" where
  "example_aggs = [Agg_ColumnReference 0 T_Integer, Agg_CompiledAggregate Count [] count_sig]"

lemma example_group_ok: "aexprs_from example_group = Some example_aggs" "list_all aexpr_ok example_aggs"
  by (simp_all add: example_group_def example_aggs_def Count_fn.aggregate_contract_axioms)

lemma example_group_result:
  "arow_result session example_aggs [([D_Null], 1), ([D_Boolean False], 1)] = Some [D_Boolean False, D_BigInt 2]"
  "arow_result session example_aggs [([D_Integer 1], 1), ([D_Integer 1], 2)] = Some [D_Integer 1, D_BigInt 3]"
  "arow_result session example_aggs [] = Some [D_Null, D_BigInt 0]"
  by (simp_all add: arow_result_values [OF example_group_ok(2)])
    (simp_all add: example_aggs_def Count_def count_apply_def state_ops)

lemma example_groupable: "groupable_row ref_decimal_ops (\<lambda>_. None) 1 ([D_Integer 1], q)"
  using ref_decimal_laws by (simp add: groupable_row_def valid_row_def)

section \<open>Properties\<close>

text \<open>C13. The hash group executor delivers one row for every distinct grouping key of its source and no
  other: rows are in one group exactly when their key columns are equal (NULL equal to NULL), and
  the row delivered is the aggregate expressions over the rows of the group in source order,
  with frequency one.  The order of the groups is that of the hash map.\<close>

theorem hash_group_groups:
  assumes "aexprs_from exprs = Some es" "list_all aexpr_ok es" "yields advance get s rs"
    and rows: "\<forall>r \<in> set rs. groupable_row D jp n r"
    and "\<forall>k \<in> row_key D n ` set rs. arow_result session es (filter (\<lambda>r. row_key D n r = k) rs) \<noteq> None"
    and "\<And>m. mset (iteration m) = mset m"
  shows "(\<forall>a \<in> set rs. \<forall>b \<in> set rs. row_key D n a = row_key D n b \<longleftrightarrow> same_key D n a b) \<and>
    (\<exists>self out. hash_group_new s session n exprs = Some self \<and>
      yields (hash_group_advance D iteration advance get) hash_group_get self out \<and>
      mset out = image_mset (\<lambda>k. group_out session es (filter (\<lambda>r. row_key D n r = k) rs)) (mset_set (row_key D n ` set rs)))"
proof
  show "\<forall>a \<in> set rs. \<forall>b \<in> set rs. row_key D n a = row_key D n b \<longleftrightarrow> same_key D n a b"
    using rows by (intro ballI row_key_eq_iff [of D jp]) simp_all
  have "\<forall>r \<in> set rs. group_key D n (fst r) \<noteq> None" using rows by (auto simp: group_key_bytes [of D jp])
  then show "\<exists>self out. hash_group_new s session n exprs = Some self \<and>
      yields (hash_group_advance D iteration advance get) hash_group_get self out \<and>
      mset out = image_mset (\<lambda>k. group_out session es (filter (\<lambda>r. row_key D n r = k) rs)) (mset_set (row_key D n ` set rs))"
    by (rule hash_group_yields [OF assms(1-3) _ assms(5,6)])
qed

theorem hash_group_groups_witness:
  "\<exists>self out. hash_group_new (None, [([D_Integer 1], 1), ([D_Integer 1], 2)]) (session_new 1) 1 example_group = Some self \<and>
    yields (hash_group_advance ref_decimal_ops (\<lambda>m. m) (rows_advance :: (_, execution_error) advance) rows_get) hash_group_get self out \<and>
    mset out = {#([D_Integer 1, D_BigInt 3], 1)#}"
  using hash_group_groups [where advance = "rows_advance :: (_, execution_error) advance", OF example_group_ok rows_yields, of "[([D_Integer 1], 1), ([D_Integer 1], 2)]" ref_decimal_ops "\<lambda>_. None" 1
      "session_new 1" "\<lambda>m. m" None] example_groupable
  by (simp add: example_group_result group_out_def)

text \<open>C31. On rows sorted by the grouping key, where no two different keys have one hash, the sorted group
  executor delivers the same bag of rows as the hash group executor.\<close>

theorem sorted_group_agrees:
  assumes es: "aexprs_from exprs = Some es" "list_all aexpr_ok es" and n: "0 < n" and s: "yields advance get s rs"
    and laws: "decimal_laws D" "\<And>d e. d_cmp D d e = Equal \<Longrightarrow> dh d = dh e"
    and rows: "\<forall>r \<in> set rs. groupable_row D jp n r"
    and res: "\<forall>k \<in> row_key D n ` set rs. arow_result session es (filter (\<lambda>r. row_key D n r = k) rs) \<noteq> None"
    and sorted: "sorted (map (row_key D n) rs)"
    and no_collision: "\<forall>a \<in> set rs. \<forall>b \<in> set rs. row_hash finish dh n a = row_hash finish dh n b \<longrightarrow> same_key D n a b"
    and iteration: "\<And>m. mset (iteration m) = mset m"
  shows "\<exists>g h out out'. sorted_group_new s session n exprs = Some g \<and> hash_group_new s session n exprs = Some h \<and>
    yields (sorted_group_advance finish dh advance get) sorted_group_get g out \<and>
    yields (hash_group_advance D iteration advance get) hash_group_get h out' \<and> mset out = mset out'"
proof -
  have wide: "\<forall>r \<in> set rs. n \<le> length (fst r)" using rows by (simp add: groupable_row_def)
  have runs: "group_runs (row_hash finish dh n) rs = group_runs (row_key D n) rs"
  proof (intro group_runs_cong ballI)
    fix a b
    assume ab: "a \<in> set rs" "b \<in> set rs"
    have "groupable_row D jp n a" "groupable_row D jp n b" using ab rows by blast+
    note iff = row_key_eq_iff [OF this]
    have "row_hash finish dh n a = row_hash finish dh n b" if "same_key D n a b"
      by (rule same_key_hash [OF laws]) (use ab wide that in blast)+
    then show "row_hash finish dh n a = row_hash finish dh n b \<longleftrightarrow> row_key D n a = row_key D n b"
      unfolding iff using ab no_collision by blast
  qed
  have sets: "set (group_runs (row_key D n) rs) = (\<lambda>k. filter (\<lambda>r. row_key D n r = k) rs) ` row_key D n ` set rs"
    using arg_cong [OF group_runs_sorted [OF sorted], of set_mset] by simp
  have "\<forall>g \<in> set (group_runs (row_hash finish dh n) rs). arow_result session es g \<noteq> None"
    unfolding runs sets using res by (metis (no_types, lifting) imageE)
  from sorted_group_yields [OF es n s wide this, unfolded runs] obtain g where g: "sorted_group_new s session n exprs = Some g"
    "yields (sorted_group_advance finish dh advance get) sorted_group_get g (map (group_out session es) (group_runs (row_key D n) rs))"
    by blast
  have "\<forall>r \<in> set rs. group_key D n (fst r) \<noteq> None" using rows by (auto simp: group_key_bytes [of D jp])
  from hash_group_yields [OF es s this res iteration] obtain h out where h: "hash_group_new s session n exprs = Some h"
    "yields (hash_group_advance D iteration advance get) hash_group_get h out"
    "mset out = image_mset (\<lambda>k. group_out session es (filter (\<lambda>r. row_key D n r = k) rs)) (mset_set (row_key D n ` set rs))"
    by blast
  have "mset (map (group_out session es) (group_runs (row_key D n) rs)) = mset out"
    using group_runs_sorted [OF sorted] h(3) by (simp add: image_mset.compositionality comp_def)
  then show ?thesis using g h by blast
qed

theorem sorted_group_agrees_witness:
  "\<exists>g h out out'. sorted_group_new (None, [([D_Integer 1], 1), ([D_Integer 1], 2)]) (session_new 1) 1 example_group = Some g \<and>
    hash_group_new (None, [([D_Integer 1], 1), ([D_Integer 1], 2)]) (session_new 1) 1 example_group = Some h \<and>
    yields (sorted_group_advance (\<lambda>ws. of_nat (length ws)) (\<lambda>_. ()) (rows_advance :: (_, execution_error) advance) rows_get) sorted_group_get g out \<and>
    yields (hash_group_advance ref_decimal_ops (\<lambda>m. m) (rows_advance :: (_, execution_error) advance) rows_get) hash_group_get h out' \<and> mset out = mset out'"
  by (rule sorted_group_agrees [OF example_group_ok _ rows_yields ref_decimal_laws])
    (use example_groupable ref_decimal_laws in \<open>auto simp: example_group_result same_key_def row_matches_def datum_eq_def\<close>)

text \<open>A query without grouping keys delivers exactly one row, the aggregates over all rows, also when
  the source is empty.\<close>

theorem global_group_row:
  assumes "aexprs_from exprs = Some es" "list_all aexpr_ok es" "yields advance get s rs"
    and "arow_result session es rs = Some out"
  shows "\<exists>self. sorted_group_new s session 0 exprs = Some self \<and>
    yields (sorted_group_advance finish dh advance get) sorted_group_get self [(out, 1)]"
  by (rule global_group_yields [OF assms])

theorem global_group_row_witness:
  "\<exists>self. sorted_group_new (None, []) (session_new 1) 0 example_group = Some self \<and>
    yields (sorted_group_advance (\<lambda>ws. of_nat (length ws)) (\<lambda>_. ()) (rows_advance :: (_, execution_error) advance) rows_get) sorted_group_get self
      [([D_Null, D_BigInt 0], 1)]"
  by (rule global_group_row [OF example_group_ok rows_yields example_group_result(3)])

text \<open>The sorted group executor compares hashes only, and NULL and FALSE feed the same byte into any
  hasher: their groups are merged into one row, although the keys differ and the hash group
  executor keeps them apart.\<close>

theorem sorted_group_merges_null_false:
  assumes "aexprs_from exprs = Some es" "list_all aexpr_ok es"
    and "yields advance get s [([D_Null], 1), ([D_Boolean False], 1)]"
    and "arow_result session es [([D_Null], 1), ([D_Boolean False], 1)] = Some out"
  shows "\<not> same_key D 1 ([D_Null], 1) ([D_Boolean False :: 'd datum], 1) \<and>
    (\<exists>self. sorted_group_new s session 1 exprs = Some self \<and>
      yields (sorted_group_advance finish dh advance get) sorted_group_get self [(out, 1)])"
  using sorted_group_yields [OF assms(1,2) _ assms(3), of 1 finish dh session] assms(4)
  by (simp add: hash_tuple_def group_out_def same_key_def row_matches_def datum_eq_def)


theorem sorted_group_merges_null_false_witness:
  "\<exists>self. sorted_group_new (None, [([D_Null], 1), ([D_Boolean False], 1)]) (session_new 1) 1 example_group = Some self \<and>
    yields (sorted_group_advance (\<lambda>ws. of_nat (length ws)) (\<lambda>_. ()) (rows_advance :: (_, execution_error) advance) rows_get) sorted_group_get self
      [([D_Boolean False, D_BigInt 2], 1)]"
  using sorted_group_merges_null_false [OF example_group_ok rows_yields example_group_result(1)] by blast

end
