(* ===== verification/Hash_Join.thy ===== *)
theory Hash_Join
  imports Executors "HOL-Library.AList"
begin

text \<open>
  The hash join executor (\<open>executor/src/point_in_time/hash_join.rs\<close>).  The right side is read into a
  hash map from its key columns to the bucket of its rows; left rows are looked up and combined
  with the rows of their bucket that satisfy the rest of the condition.  The hash map is its list
  of entries, looked up by the equality of datums.
\<close>

section \<open>The code\<close>

datatype join_type = Inner | LeftOuter

type_synonym 'd bucket = "'d row list"

record ('l, 'r, 'd) hash_join_executor =
  j_left :: 'l
  j_right :: 'r
  j_key_len :: nat
  j_non_equi_condition :: "'d expression"
  j_session :: session
  j_left_len :: nat
  j_join_type :: join_type
  j_hash_table :: "('d datum list \<times> 'd bucket) list option"
  j_tuple_buf :: "'d datum list"
  j_left_freq :: i64
  j_freq :: i64
  j_bucket_iter :: "'d bucket"
  j_done :: bool

definition hash_join_new ::
  "'l \<Rightarrow> nat \<Rightarrow> 'r \<Rightarrow> nat \<Rightarrow> nat \<Rightarrow> 'd expression \<Rightarrow> join_type \<Rightarrow> session \<Rightarrow> ('l, 'r, 'd) hash_join_executor" where
  "hash_join_new left left_columns right right_columns key_len non_equi_condition join_type session =
     \<lparr>j_left = left, j_right = right, j_key_len = key_len, j_non_equi_condition = non_equi_condition,
      j_session = session, j_left_len = left_columns, j_join_type = join_type, j_hash_table = None,
      j_tuple_buf = right_size_new_to (left_columns + right_columns), j_left_freq = 0, j_freq = 0,
      j_bucket_iter = [], j_done = False\<rparr>"

text \<open>\<open>for (idx, datum) in datums.iter().enumerate() { buf[offset + idx] = datum.ref_clone() }\<close>\<close>

fun write_at :: "'d datum list \<Rightarrow> nat \<Rightarrow> 'd datum list \<Rightarrow> 'd datum list option" where
  "write_at buf offset [] = Some buf"
| "write_at buf offset (d # ds) =
     (if offset < length buf then write_at (buf[offset := ref_clone d]) (offset + 1) ds else None)"

text \<open>The left columns, the leading ones also as the keys of the right side.\<close>

fun write_left :: "nat \<Rightarrow> nat \<Rightarrow> 'd datum list \<Rightarrow> nat \<Rightarrow> 'd datum list \<Rightarrow> 'd datum list option" where
  "write_left key_len right_offset buf idx [] = Some buf"
| "write_left key_len right_offset buf idx (d # ds) =
     (if idx < length buf then
        let buf = buf[idx := ref_clone d] in
        if idx < key_len then
          if idx + right_offset - key_len < length buf
          then write_left key_len right_offset (buf[idx + right_offset - key_len := ref_clone d]) (idx + 1) ds else None
        else write_left key_len right_offset buf (idx + 1) ds
      else None)"

text \<open>The bucket iterator left over from the last call.\<close>

fun join_resume ::
  "('d, 'z) decimal_ops_scheme \<Rightarrow> nat \<Rightarrow> ('l, 'r, 'd) hash_join_executor \<Rightarrow> 'd bucket \<Rightarrow>
    (bool \<times> ('l, 'r, 'd) hash_join_executor) option" where
  "join_resume D right_offset self [] = Some (False, self\<lparr>j_bucket_iter := []\<rparr>)"
| "join_resume D right_offset self ((right_tuple, freq) # bucket) =
     Option.bind (write_at (j_tuple_buf self) right_offset right_tuple) (\<lambda>buf.
     let self = self\<lparr>j_bucket_iter := bucket, j_tuple_buf := buf\<rparr> in
     Option.bind (eval_scalar (j_session self) buf (j_non_equi_condition self)) (\<lambda>d.
     if datum_eq D d (D_Boolean True) then Some (True, self\<lparr>j_freq := freq * j_left_freq self\<rparr>)
     else join_resume D right_offset self bucket))"

text \<open>The first match in the bucket of a new left row.\<close>

fun join_first ::
  "('d, 'z) decimal_ops_scheme \<Rightarrow> nat \<Rightarrow> ('l, 'r, 'd) hash_join_executor \<Rightarrow> 'd bucket \<Rightarrow>
    (bool \<times> ('l, 'r, 'd) hash_join_executor) option" where
  "join_first D right_offset self [] = Some (False, self\<lparr>j_bucket_iter := []\<rparr>)"
| "join_first D right_offset self ((right_tuple, right_freq) # bucket) =
     Option.bind (write_at (j_tuple_buf self) right_offset right_tuple) (\<lambda>buf.
     let self = self\<lparr>j_bucket_iter := bucket, j_tuple_buf := buf, j_freq := right_freq * j_left_freq self\<rparr> in
     Option.bind (eval_scalar (j_session self) buf (j_non_equi_condition self)) (\<lambda>d.
     if datum_eq D d (D_Boolean True) then Some (True, self) else join_first D right_offset self bucket))"

text \<open>The hash map: lookup, and \<open>entry(key).or_default().push(row)\<close>.\<close>

definition table_get :: "('d, 'z) decimal_ops_scheme \<Rightarrow> ('d datum list \<times> 'd bucket) list \<Rightarrow> 'd datum list \<Rightarrow> 'd bucket option" where
  "table_get D m key = map_option snd (find (\<lambda>e. row_matches D (fst e) key) m)"

fun table_push ::
  "('d, 'z) decimal_ops_scheme \<Rightarrow> ('d datum list \<times> 'd bucket) list \<Rightarrow> 'd datum list \<Rightarrow> 'd row \<Rightarrow> ('d datum list \<times> 'd bucket) list" where
  "table_push D [] key row = [(key, [row])]"
| "table_push D (e # m) key row =
     (if row_matches D (fst e) key then (fst e, snd e @ [row]) # m else e # table_push D m key row)"

partial_function (option) join_build ::
  "('d, 'z) decimal_ops_scheme \<Rightarrow> ('r, 'e) advance \<Rightarrow> ('r, 'd) getter \<Rightarrow> nat \<Rightarrow> 'r \<Rightarrow> ('d datum list \<times> 'd bucket) list \<Rightarrow>
    ('e + 'r \<times> ('d datum list \<times> 'd bucket) list) option" where
  "join_build D radvance rget key_len right m =
     Option.bind (iter_next radvance rget right) (\<lambda>r.
       case r of
         Inl e \<Rightarrow> Some (Inl e)
       | Inr (right, None) \<Rightarrow> Some (Inr (right, m))
       | Inr (right, Some (tuple, freq)) \<Rightarrow>
           if length tuple < key_len then None
           else
             let key = map as_static (take key_len tuple) in
             if list_ex is_null key then join_build D radvance rget key_len right m
             else join_build D radvance rget key_len right
               (table_push D m key (map as_static (drop key_len tuple), freq)))"

partial_function (option) join_outer ::
  "('d, 'z) decimal_ops_scheme \<Rightarrow> ('l, 'e) advance \<Rightarrow> ('l, 'd) getter \<Rightarrow> nat \<Rightarrow> ('d datum list \<times> 'd bucket) list \<Rightarrow>
    ('l, 'r, 'd) hash_join_executor \<Rightarrow> ('e + ('l, 'r, 'd) hash_join_executor) option" where
  "join_outer D ladvance lget right_offset hash_table self =
     Option.bind (iter_next ladvance lget (j_left self)) (\<lambda>r.
       case r of
         Inl e \<Rightarrow> Some (Inl e)
       | Inr (left, None) \<Rightarrow> Some (Inr (self\<lparr>j_left := left, j_done := True\<rparr>))
       | Inr (left, Some (tuple, left_freq)) \<Rightarrow>
           let self = self\<lparr>j_left := left\<rparr> in
           if length tuple < j_key_len self then None
           else
             Option.bind (case table_get D hash_table (take (j_key_len self) tuple) of
                 None \<Rightarrow> Some (False, self)
               | Some bucket \<Rightarrow>
                   Option.bind (write_left (j_key_len self) right_offset (j_tuple_buf self) 0 tuple) (\<lambda>buf.
                   join_first D right_offset (self\<lparr>j_tuple_buf := buf, j_left_freq := left_freq\<rparr>) bucket))
               (\<lambda>(found, self).
               if found then Some (Inr self)
               else if j_join_type self = LeftOuter then
                 Option.bind (write_at (j_tuple_buf self) 0 tuple) (\<lambda>buf.
                 if j_left_len self \<le> length buf
                 then Some (Inr (self\<lparr>j_tuple_buf := take (j_left_len self) buf @ map (\<lambda>_. D_Null) (drop (j_left_len self) buf),
                   j_freq := left_freq\<rparr>))
                 else None)
               else join_outer D ladvance lget right_offset hash_table self))"

definition hash_join_advance ::
  "('d, 'z) decimal_ops_scheme \<Rightarrow> ('l, 'e) advance \<Rightarrow> ('l, 'd) getter \<Rightarrow> nat \<Rightarrow> ('r, 'e) advance \<Rightarrow> ('r, 'd) getter \<Rightarrow>
    (('l, 'r, 'd) hash_join_executor, 'e) advance" where
  "hash_join_advance D ladvance lget left_columns radvance rget self =
     (let right_offset = left_columns + j_key_len self in
      Option.bind (join_resume D right_offset self (j_bucket_iter self)) (\<lambda>(found, self).
      if found then Some (Inr self)
      else
        Option.bind (case j_hash_table self of
            Some hash_table \<Rightarrow> Some (Inr (j_right self, hash_table))
          | None \<Rightarrow> join_build D radvance rget (j_key_len self) (j_right self) []) (\<lambda>r.
          case r of
            Inl e \<Rightarrow> Some (Inl e)
          | Inr (right, hash_table) \<Rightarrow>
              join_outer D ladvance lget right_offset hash_table (self\<lparr>j_right := right, j_hash_table := Some hash_table\<rparr>))))"

definition hash_join_get :: "(('l, 'r, 'd) hash_join_executor, 'd) getter" where
  "hash_join_get self = (if j_done self then None else Some (j_tuple_buf self, j_freq self))"


section \<open>The tuple buffer\<close>

lemma write_at_eq:
  "off + length ds \<le> length buf \<Longrightarrow> write_at buf off ds = Some (take off buf @ map ref_clone ds @ drop (off + length ds) buf)"
proof (induction ds arbitrary: off buf)
  case (Cons d ds)
  have "take (Suc off) (buf[off := ref_clone d]) = take off buf @ [ref_clone d]"
    using Cons.prems by (simp add: take_Suc_conv_app_nth)
  then show ?case using Cons.IH [of "off + 1" "buf[off := ref_clone d]"] Cons.prems by simp
qed simp

lemma write_left_nth:
  assumes "idx + length ds = L" "k \<le> L" "L + k \<le> length buf"
  shows "\<exists>r. write_left k (L + k) buf idx ds = Some r \<and> length r = length buf \<and>
    (\<forall>j < length buf. r ! j = (if idx \<le> j \<and> j < L then ref_clone (ds ! (j - idx))
      else if L + idx \<le> j \<and> j < L + k then ref_clone (ds ! (j - L - idx)) else buf ! j))"
  using assms
proof (induction ds arbitrary: idx buf)
  case (Cons d ds)
  define b where "b = (if idx < k then buf[idx := ref_clone d, idx + L := ref_clone d] else buf[idx := ref_clone d])"
  have len: "length b = length buf" by (simp add: b_def)
  have step: "write_left k (L + k) buf idx (d # ds) = write_left k (L + k) b (idx + 1) ds"
    using Cons.prems by (auto simp: Let_def b_def)
  have "idx + 1 + length ds = L" using Cons.prems(1) by simp
  then obtain r where r: "write_left k (L + k) b (idx + 1) ds = Some r" "length r = length buf"
    "\<forall>j < length buf. r ! j = (if idx + 1 \<le> j \<and> j < L then ref_clone (ds ! (j - (idx + 1)))
      else if L + (idx + 1) \<le> j \<and> j < L + k then ref_clone (ds ! (j - L - (idx + 1))) else b ! j)"
    using Cons.IH [of "idx + 1" b] Cons.prems(2,3) unfolding len by blast
  have "r ! j = (if idx \<le> j \<and> j < L then ref_clone ((d # ds) ! (j - idx))
      else if L + idx \<le> j \<and> j < L + k then ref_clone ((d # ds) ! (j - L - idx)) else buf ! j)" if "j < length buf" for j
    using that r(3) Cons.prems by (cases "idx < k") (auto simp: b_def nth_list_update nth_Cons')
  then show ?case using step r by auto
qed auto

text \<open>The left columns and the copied keys.\<close>

definition join_prefix :: "nat \<Rightarrow> 'd datum list \<Rightarrow> 'd datum list" where
  "join_prefix k t = map ref_clone t @ map ref_clone (take k t)"

lemma write_left_eq:
  assumes "length t = L" "k \<le> L" "L + k \<le> length buf"
  shows "write_left k (L + k) buf 0 t = Some (join_prefix k t @ drop (L + k) buf)"
proof -
  obtain r where r: "write_left k (L + k) buf 0 t = Some r" "length r = length buf"
    "\<forall>j < length buf. r ! j = (if 0 \<le> j \<and> j < L then ref_clone (t ! (j - 0))
      else if L + 0 \<le> j \<and> j < L + k then ref_clone (t ! (j - L - 0)) else buf ! j)"
    using write_left_nth [of 0 t L k buf] assms by auto
  have "r = join_prefix k t @ drop (L + k) buf"
    by (rule nth_equalityI) (use r assms in \<open>auto simp: join_prefix_def nth_append\<close>)
  then show ?thesis using r(1) by simp
qed

section \<open>Buckets\<close>

definition bucket_match :: "session \<Rightarrow> 'd expression \<Rightarrow> 'd datum list \<Rightarrow> 'd row \<Rightarrow> bool" where
  "bucket_match session cond pre e \<longleftrightarrow> satisfies session cond (pre @ map ref_clone (fst e))"

text \<open>The rest of the condition can be evaluated on every row of the bucket.\<close>

definition bucket_ok :: "session \<Rightarrow> 'd expression \<Rightarrow> nat \<Rightarrow> 'd datum list \<Rightarrow> 'd bucket \<Rightarrow> bool" where
  "bucket_ok session cond m pre b \<longleftrightarrow>
     (\<forall>e \<in> set b. length (fst e) = m \<and> eval_scalar session (pre @ map ref_clone (fst e)) cond \<noteq> None)"

lemma join_resume_spec:
  assumes "length (j_tuple_buf self) = length pre + m" "take (length pre) (j_tuple_buf self) = pre"
    and "bucket_ok (j_session self) (j_non_equi_condition self) m pre b"
  shows "case dropWhile (\<lambda>e. \<not> bucket_match (j_session self) (j_non_equi_condition self) pre e) b of
      [] \<Rightarrow> \<exists>buf fr. join_resume D (length pre) self b = Some (False, self\<lparr>j_bucket_iter := [], j_tuple_buf := buf, j_freq := fr\<rparr>) \<and>
        length buf = length pre + m
    | e # b' \<Rightarrow> join_resume D (length pre) self b = Some (True, self\<lparr>j_bucket_iter := b', j_tuple_buf := pre @ map ref_clone (fst e),
        j_freq := snd e * j_left_freq self\<rparr>)"
  using assms
proof (induction b arbitrary: self)
  case Nil
  then show ?case by (auto intro!: exI [of _ "j_tuple_buf self"] exI [of _ "j_freq self"])
next
  case (Cons e b)
  obtain rt f where [simp]: "e = (rt, f)" by (cases e)
  obtain d where d: "eval_scalar (j_session self) (pre @ map ref_clone rt) (j_non_equi_condition self) = Some d"
    using Cons.prems(3) by (auto simp: bucket_ok_def)
  have w: "write_at (j_tuple_buf self) (length pre) rt = Some (pre @ map ref_clone rt)"
    using write_at_eq [of "length pre" rt "j_tuple_buf self"] Cons.prems by (simp add: bucket_ok_def)
  show ?case
  proof (cases "bucket_match (j_session self) (j_non_equi_condition self) pre e")
    case True
    then show ?thesis using w d by (simp add: bucket_match_def satisfies_def datum_eq_True)
  next
    case False
    let ?self = "self\<lparr>j_bucket_iter := b, j_tuple_buf := pre @ map ref_clone rt\<rparr>"
    have step: "join_resume D (length pre) self (e # b) = join_resume D (length pre) ?self b"
      using False w d by (simp add: bucket_match_def satisfies_def datum_eq_True)
    have dw: "dropWhile (\<lambda>e. \<not> bucket_match (j_session self) (j_non_equi_condition self) pre e) (e # b) =
        dropWhile (\<lambda>e. \<not> bucket_match (j_session self) (j_non_equi_condition self) pre e) b" using False by simp
    have "length (j_tuple_buf ?self) = length pre + m" "take (length pre) (j_tuple_buf ?self) = pre"
      "bucket_ok (j_session ?self) (j_non_equi_condition ?self) m pre b" using Cons.prems(3) by (simp_all add: bucket_ok_def)
    from Cons.IH [OF this] show ?thesis unfolding step dw by (simp cong: list.case_cong)
  qed
qed

lemma join_first_spec:
  assumes "length (j_tuple_buf self) = length pre + m" "take (length pre) (j_tuple_buf self) = pre"
    and "bucket_ok (j_session self) (j_non_equi_condition self) m pre b"
  shows "case dropWhile (\<lambda>e. \<not> bucket_match (j_session self) (j_non_equi_condition self) pre e) b of
      [] \<Rightarrow> \<exists>buf fr. join_first D (length pre) self b = Some (False, self\<lparr>j_bucket_iter := [], j_tuple_buf := buf, j_freq := fr\<rparr>) \<and>
        length buf = length pre + m
    | e # b' \<Rightarrow> join_first D (length pre) self b = Some (True, self\<lparr>j_bucket_iter := b', j_tuple_buf := pre @ map ref_clone (fst e),
        j_freq := snd e * j_left_freq self\<rparr>)"
  using assms
proof (induction b arbitrary: self)
  case Nil
  then show ?case by (auto intro!: exI [of _ "j_tuple_buf self"] exI [of _ "j_freq self"])
next
  case (Cons e b)
  obtain rt f where [simp]: "e = (rt, f)" by (cases e)
  obtain d where d: "eval_scalar (j_session self) (pre @ map ref_clone rt) (j_non_equi_condition self) = Some d"
    using Cons.prems(3) by (auto simp: bucket_ok_def)
  have w: "write_at (j_tuple_buf self) (length pre) rt = Some (pre @ map ref_clone rt)"
    using write_at_eq [of "length pre" rt "j_tuple_buf self"] Cons.prems by (simp add: bucket_ok_def)
  let ?self = "self\<lparr>j_bucket_iter := b, j_tuple_buf := pre @ map ref_clone rt, j_freq := f * j_left_freq self\<rparr>"
  show ?case
  proof (cases "bucket_match (j_session self) (j_non_equi_condition self) pre e")
    case True
    then show ?thesis using w d by (simp add: bucket_match_def satisfies_def datum_eq_True)
  next
    case False
    have step: "join_first D (length pre) self (e # b) = join_first D (length pre) ?self b"
      using False w d by (simp add: bucket_match_def satisfies_def datum_eq_True)
    have dw: "dropWhile (\<lambda>e. \<not> bucket_match (j_session self) (j_non_equi_condition self) pre e) (e # b) =
        dropWhile (\<lambda>e. \<not> bucket_match (j_session self) (j_non_equi_condition self) pre e) b" using False by simp
    have "length (j_tuple_buf ?self) = length pre + m" "take (length pre) (j_tuple_buf ?self) = pre"
      "bucket_ok (j_session ?self) (j_non_equi_condition ?self) m pre b" using Cons.prems(3) by (simp_all add: bucket_ok_def)
    from Cons.IH [OF this] show ?thesis unfolding step dw by (simp cong: list.case_cong)
  qed
qed


section \<open>The hash table\<close>

definition bucket_of :: "('d, 'z) decimal_ops_scheme \<Rightarrow> ('d datum list \<times> 'd bucket) list \<Rightarrow> 'd datum list \<Rightarrow> 'd bucket" where
  "bucket_of D m q = (case table_get D m q of None \<Rightarrow> [] | Some b \<Rightarrow> b)"

lemma bucket_of_simps [simp]:
  "bucket_of D [] q = []"
  "bucket_of D (e # m) q = (if row_matches D (fst e) q then snd e else bucket_of D m q)"
  by (simp_all add: bucket_of_def table_get_def)

lemma row_matches_sym: "decimal_laws D \<Longrightarrow> row_matches D a b \<Longrightarrow> row_matches D b a"
  by (auto simp: row_matches_def list_all2_conv_all_nth intro: datum_eq_sym)

lemma row_matches_cong: "decimal_laws D \<Longrightarrow> row_matches D a b \<Longrightarrow> row_matches D a c \<longleftrightarrow> row_matches D b c"
  by (meson row_matches_sym row_matches_trans)

lemma row_matches_as_static: "decimal_laws D \<Longrightarrow> row_matches D (map as_static a) a"
  by (simp add: row_matches_def list_all2_conv_all_nth as_static_eq)

lemma bucket_of_push:
  "decimal_laws D \<Longrightarrow> bucket_of D (table_push D m key row) q = bucket_of D m q @ (if row_matches D key q then [row] else [])"
proof (induction m)
  case (Cons e m)
  then show ?case using row_matches_cong [of D "fst e" key q] row_matches_sym [of D key q] row_matches_trans [of D "fst e" q key]
    by (cases "row_matches D (fst e) key") auto
qed simp

text \<open>The rows of the right side that a key matches, without the key columns; NULL matches nothing.\<close>

definition right_bucket :: "('d, 'z) decimal_ops_scheme \<Rightarrow> nat \<Rightarrow> 'd row list \<Rightarrow> 'd datum list \<Rightarrow> 'd bucket" where
  "right_bucket D k rs q =
     map (\<lambda>r. (map as_static (drop k (fst r)), snd r))
       (filter (\<lambda>r. \<not> list_ex is_null (take k (fst r)) \<and> row_matches D (take k (fst r)) q) rs)"

lemma join_build_spec:
  assumes "decimal_laws D" "yields radvance rget right rs" "\<forall>r \<in> set rs. k \<le> length (fst r)"
  shows "\<exists>right' m'. join_build D radvance rget k right m = Some (Inr (right', m')) \<and>
    (\<forall>q. bucket_of D m' q = bucket_of D m q @ right_bucket D k rs q)"
  using assms(2,3)
proof (induction arbitrary: m rule: yields.induct)
  case (yields_end s s')
  then show ?case by (auto simp: join_build.simps [of _ _ _ _ s] right_bucket_def)
next
  case (yields_row s s' r rs)
  obtain t f where [simp]: "r = (t, f)" by (cases r)
  let ?key = "map as_static (take k t)"
  have cong: "row_matches D ?key q \<longleftrightarrow> row_matches D (take k t) q" for q
    by (rule row_matches_cong [OF assms(1) row_matches_as_static [OF assms(1)]])
  have null: "list_ex is_null ?key = list_ex is_null (take k t)" by (simp add: list_ex_iff)
  show ?case
  proof (cases "list_ex is_null (take k t)")
    case True
    then have "join_build D radvance rget k s m = join_build D radvance rget k s' m"
      using yields_row.hyps yields_row.prems null by (simp add: join_build.simps [of _ _ _ _ s] Let_def)
    then show ?thesis using yields_row.IH [of m] yields_row.prems True by (simp add: right_bucket_def)
  next
    case False
    then have "join_build D radvance rget k s m =
        join_build D radvance rget k s' (table_push D m ?key (map as_static (drop k t), f))"
      using yields_row.hyps yields_row.prems null by (simp add: join_build.simps [of _ _ _ _ s] Let_def)
    moreover obtain right' m' where
      "join_build D radvance rget k s' (table_push D m ?key (map as_static (drop k t), f)) = Some (Inr (right', m'))"
      "\<forall>q. bucket_of D m' q = bucket_of D (table_push D m ?key (map as_static (drop k t), f)) q @ right_bucket D k rs q"
      using yields_row.IH yields_row.prems by fastforce
    ultimately show ?thesis using False by (simp add: bucket_of_push [OF assms(1)] cong right_bucket_def)
  qed
qed

section \<open>The rows of a join\<close>

definition match_row :: "nat \<Rightarrow> 'd row \<Rightarrow> 'd row \<Rightarrow> 'd row" where
  "match_row k l e = (join_prefix k (fst l) @ map ref_clone (fst e), snd e * snd l)"

definition join_matches ::
  "('d, 'z) decimal_ops_scheme \<Rightarrow> session \<Rightarrow> 'd expression \<Rightarrow> nat \<Rightarrow> 'd row list \<Rightarrow> 'd row \<Rightarrow> 'd bucket" where
  "join_matches D session cond k rs l =
     filter (bucket_match session cond (join_prefix k (fst l))) (right_bucket D k rs (take k (fst l)))"

text \<open>What a left row contributes: its matches, or in a left outer join without a match the row itself
  followed by NULLs.\<close>

definition join_row ::
  "('d, 'z) decimal_ops_scheme \<Rightarrow> session \<Rightarrow> 'd expression \<Rightarrow> join_type \<Rightarrow> nat \<Rightarrow> nat \<Rightarrow> 'd row list \<Rightarrow> 'd row \<Rightarrow> 'd row list" where
  "join_row D session cond jt R k rs l =
     (if join_matches D session cond k rs l = [] \<and> jt = LeftOuter
      then [(map ref_clone (fst l) @ replicate R D_Null, snd l)]
      else map (match_row k l) (join_matches D session cond k rs l))"


text \<open>What holds of the executor between two calls once the hash table is built.\<close>

definition join_wf :: "nat \<Rightarrow> nat \<Rightarrow> nat \<Rightarrow> ('l, 'r, 'd) hash_join_executor \<Rightarrow> bool" where
  "join_wf L R k self \<longleftrightarrow> j_left_len self = L \<and> j_key_len self = k \<and> length (j_tuple_buf self) = L + R \<and> \<not> j_done self"

lemma length_join_prefix [simp]: "k \<le> length t \<Longrightarrow> length (join_prefix k t) = length t + k"
  by (simp add: join_prefix_def)

lemma dropWhile_not_filter:
  "dropWhile (\<lambda>x. \<not> P x) xs = [] \<longleftrightarrow> filter P xs = []"
  "dropWhile (\<lambda>x. \<not> P x) xs = y # ys \<Longrightarrow> filter P xs = y # filter P ys"
  by (induction xs) (auto split: if_splits)

lemma join_outer_end:
  assumes "ladvance (j_left self) = Some (Inr l')" "lget l' = None"
  shows "join_outer D ladvance lget off m self = Some (Inr (self\<lparr>j_left := l', j_done := True\<rparr>))"
  using assms by (simp add: join_outer.simps [of _ _ _ _ _ self])

lemma join_outer_hit:
  assumes "ladvance (j_left self) = Some (Inr l')" "lget l' = Some (t, lf)" "length t = L" "k \<le> L" "k \<le> R" "join_wf L R k self"
    and "bucket_ok (j_session self) (j_non_equi_condition self) (R - k) (join_prefix k t) (bucket_of D m (take k t))"
    and "dropWhile (\<lambda>e. \<not> bucket_match (j_session self) (j_non_equi_condition self) (join_prefix k t) e) (bucket_of D m (take k t)) = e # b"
  shows "join_outer D ladvance lget (L + k) m self = Some (Inr (self\<lparr>j_left := l', j_left_freq := lf, j_bucket_iter := b,
    j_tuple_buf := fst (match_row k (t, lf) e), j_freq := snd (match_row k (t, lf) e)\<rparr>))"
proof -
  let ?buf = "join_prefix k t @ drop (L + k) (j_tuple_buf self)"
  let ?self = "self\<lparr>j_left := l', j_tuple_buf := ?buf, j_left_freq := lf\<rparr>"
  have some: "table_get D m (take k t) = Some (bucket_of D m (take k t))"
    using assms(8) by (auto simp: bucket_of_def split: option.splits)
  have "write_left k (L + k) (j_tuple_buf self) 0 t = Some ?buf"
    by (rule write_left_eq) (use assms in \<open>auto simp: join_wf_def\<close>)
  moreover have "join_first D (L + k) ?self (bucket_of D m (take k t)) = Some (True, ?self\<lparr>j_bucket_iter := b,
      j_tuple_buf := join_prefix k t @ map ref_clone (fst e), j_freq := snd e * lf\<rparr>)"
    using join_first_spec [of ?self "join_prefix k t" "R - k" "bucket_of D m (take k t)" D] assms by (simp add: join_wf_def)
  ultimately show ?thesis using assms(1-4,6) some
    by (simp add: join_outer.simps [of _ _ _ _ _ self] Let_def join_wf_def match_row_def)
qed

lemma join_outer_miss:
  assumes "ladvance (j_left self) = Some (Inr l')" "lget l' = Some (t, lf)" "length t = L" "k \<le> L" "k \<le> R" "join_wf L R k self"
    and "bucket_ok (j_session self) (j_non_equi_condition self) (R - k) (join_prefix k t) (bucket_of D m (take k t))"
    and "dropWhile (\<lambda>e. \<not> bucket_match (j_session self) (j_non_equi_condition self) (join_prefix k t) e) (bucket_of D m (take k t)) = []"
    and "j_bucket_iter self = []"
  shows "\<exists>self'. self' = self\<lparr>j_left := l', j_left_freq := j_left_freq self', j_tuple_buf := j_tuple_buf self', j_freq := j_freq self'\<rparr> \<and>
    length (j_tuple_buf self') = L + R \<and>
    join_outer D ladvance lget (L + k) m self =
      (if j_join_type self = LeftOuter
       then Some (Inr (self'\<lparr>j_tuple_buf := map ref_clone t @ replicate R D_Null, j_freq := lf\<rparr>))
       else join_outer D ladvance lget (L + k) m self')"
proof -
  let ?buf = "join_prefix k t @ drop (L + k) (j_tuple_buf self)"
  let ?self = "self\<lparr>j_left := l', j_tuple_buf := ?buf, j_left_freq := lf\<rparr>"
  let ?look = "case table_get D m (take k t) of None \<Rightarrow> Some (False, self\<lparr>j_left := l'\<rparr>)
    | Some bucket \<Rightarrow> Option.bind (write_left k (L + k) (j_tuple_buf self) 0 t)
        (\<lambda>buf. join_first D (L + k) (self\<lparr>j_left := l', j_tuple_buf := buf, j_left_freq := lf\<rparr>) bucket)"
  have w: "write_left k (L + k) (j_tuple_buf self) 0 t = Some ?buf"
    by (rule write_left_eq) (use assms in \<open>auto simp: join_wf_def\<close>)
  have first: "\<exists>buf fr. join_first D (L + k) ?self (bucket_of D m (take k t)) =
      Some (False, ?self\<lparr>j_bucket_iter := [], j_tuple_buf := buf, j_freq := fr\<rparr>) \<and> length buf = L + R"
    using join_first_spec [of ?self "join_prefix k t" "R - k" "bucket_of D m (take k t)" D] assms by (simp add: join_wf_def)
  obtain self' where self': "?look = Some (False, self')"
    "self' = self\<lparr>j_left := l', j_left_freq := j_left_freq self', j_tuple_buf := j_tuple_buf self', j_freq := j_freq self'\<rparr>"
    "length (j_tuple_buf self') = L + R"
  proof (cases "table_get D m (take k t)")
    case None
    then show ?thesis using that [of "self\<lparr>j_left := l'\<rparr>"] assms(6) by (simp add: join_wf_def)
  next
    case (Some b)
    then have "bucket_of D m (take k t) = b" by (simp add: bucket_of_def)
    then obtain buf fr where "join_first D (L + k) ?self b = Some (False, ?self\<lparr>j_bucket_iter := [], j_tuple_buf := buf, j_freq := fr\<rparr>)"
      "length buf = L + R" using first by auto
    then show ?thesis using that [of "?self\<lparr>j_bucket_iter := [], j_tuple_buf := buf, j_freq := fr\<rparr>"] Some w assms(9) by simp
  qed
  have f: "j_join_type self' = j_join_type self" "j_left_len self' = L" by (subst self'(2), use assms(6) in \<open>simp add: join_wf_def\<close>)+
  have "write_at (j_tuple_buf self') 0 t = Some (map ref_clone t @ drop L (j_tuple_buf self'))"
    using write_at_eq [of 0 t "j_tuple_buf self'"] assms(3) self'(3) by simp
  then have "join_outer D ladvance lget (L + k) m self =
      (if j_join_type self = LeftOuter
       then Some (Inr (self'\<lparr>j_tuple_buf := map ref_clone t @ replicate R D_Null, j_freq := lf\<rparr>))
       else join_outer D ladvance lget (L + k) m self')"
    using assms(1-4,6) self'(1) f self'(3)
    by (simp add: join_outer.simps [of _ _ _ _ _ self] Let_def join_wf_def map_replicate_const cong: option.case_cong)
  then show ?thesis using self' by blast
qed

section \<open>The rows the executor yields\<close>

text \<open>Every left row is wide enough and the rest of the condition can be evaluated on its bucket.\<close>

definition join_input_ok ::
  "('d, 'z) decimal_ops_scheme \<Rightarrow> session \<Rightarrow> 'd expression \<Rightarrow> nat \<Rightarrow> nat \<Rightarrow> nat \<Rightarrow> 'd row list \<Rightarrow> 'd row \<Rightarrow> bool" where
  "join_input_ok D session cond L R k rs l \<longleftrightarrow> length (fst l) = L \<and>
     bucket_ok session cond (R - k) (join_prefix k (fst l)) (right_bucket D k rs (take k (fst l)))"

text \<open>With the table built and no bucket left over, a call walks down the left rows.\<close>

lemma hash_join_advance_outer:
  assumes "j_hash_table self = Some m" "j_bucket_iter self = []" "j_key_len self = k"
  shows "hash_join_advance D ladvance lget L radvance rget self = join_outer D ladvance lget (L + k) m self"
  using assms by (cases self) (simp add: hash_join_advance_def)

text \<open>The rows left in the bucket come first, then what the remaining left rows contribute.\<close>

lemma hash_join_bucket_yields:
  assumes "join_wf L R k self" "k \<le> R" "j_hash_table self = Some m"
    and "take (L + k) (j_tuple_buf self) = join_prefix k t" "length t = L" "k \<le> L"
    and "bucket_ok (j_session self) (j_non_equi_condition self) (R - k) (join_prefix k t) (j_bucket_iter self)"
    and rest: "\<And>self'. self' = self\<lparr>j_left_freq := j_left_freq self', j_tuple_buf := j_tuple_buf self', j_freq := j_freq self', j_bucket_iter := []\<rparr> \<Longrightarrow>
       length (j_tuple_buf self') = L + R \<Longrightarrow>
       yields (hash_join_advance D ladvance lget L radvance rget) hash_join_get self' out"
  shows "yields (hash_join_advance D ladvance lget L radvance rget) hash_join_get self
    (map (match_row k (t, j_left_freq self)) (filter (bucket_match (j_session self) (j_non_equi_condition self) (join_prefix k t)) (j_bucket_iter self)) @ out)"
  using assms(1,3,4,7) rest
proof (induction "length (j_bucket_iter self)" arbitrary: self rule: less_induct)
  case less
  let ?P = "bucket_match (j_session self) (j_non_equi_condition self) (join_prefix k t)"
  have len: "length (join_prefix k t) = L + k" and sum: "L + k + (R - k) = L + R" using assms(2,5,6) by simp_all
  have spec: "case dropWhile (\<lambda>e. \<not> ?P e) (j_bucket_iter self) of
      [] \<Rightarrow> \<exists>buf fr. join_resume D (L + k) self (j_bucket_iter self) = Some (False, self\<lparr>j_bucket_iter := [], j_tuple_buf := buf, j_freq := fr\<rparr>) \<and>
        length buf = L + R
    | e # b' \<Rightarrow> join_resume D (L + k) self (j_bucket_iter self) = Some (True, self\<lparr>j_bucket_iter := b', j_tuple_buf := join_prefix k t @ map ref_clone (fst e),
        j_freq := snd e * j_left_freq self\<rparr>)"
    using join_resume_spec [of self "join_prefix k t" "R - k" "j_bucket_iter self" D] less.prems(1,3,4)
    unfolding len sum by (simp add: join_wf_def)
  show ?case
  proof (cases "dropWhile (\<lambda>e. \<not> ?P e) (j_bucket_iter self)")
    case Nil
    then obtain buf fr where b: "join_resume D (L + k) self (j_bucket_iter self) = Some (False, self\<lparr>j_bucket_iter := [], j_tuple_buf := buf, j_freq := fr\<rparr>)"
      "length buf = L + R" using spec unfolding Nil by auto
    let ?self = "self\<lparr>j_bucket_iter := [], j_tuple_buf := buf, j_freq := fr\<rparr>"
    have "hash_join_advance D ladvance lget L radvance rget self = hash_join_advance D ladvance lget L radvance rget ?self"
      using b(1) less.prems(1,2) by (cases self) (simp add: hash_join_advance_def join_wf_def)
    moreover have "yields (hash_join_advance D ladvance lget L radvance rget) hash_join_get ?self out"
      by (rule less.prems(5)) (simp_all add: b(2))
    moreover have "filter ?P (j_bucket_iter self) = []" using Nil dropWhile_not_filter(1) by blast
    ultimately show ?thesis using yields_cong by (metis append_Nil list.map_disc_iff)
  next
    case (Cons e b)
    let ?self = "self\<lparr>j_bucket_iter := b, j_tuple_buf := join_prefix k t @ map ref_clone (fst e), j_freq := snd e * j_left_freq self\<rparr>"
    obtain skipped where skipped: "j_bucket_iter self = skipped @ e # b" by (metis Cons takeWhile_dropWhile_id)
    then have ok: "bucket_ok (j_session self) (j_non_equi_condition self) (R - k) (join_prefix k t) (e # b)"
      using less.prems(4) by (simp add: bucket_ok_def)
    have adv: "hash_join_advance D ladvance lget L radvance rget self = Some (Inr ?self)"
      using spec less.prems(1) unfolding Cons by (simp add: hash_join_advance_def join_wf_def)
    have get: "hash_join_get ?self = Some (match_row k (t, j_left_freq self) e)"
      using less.prems(1) by (simp add: hash_join_get_def join_wf_def match_row_def)
    have "yields (hash_join_advance D ladvance lget L radvance rget) hash_join_get ?self
        (map (match_row k (t, j_left_freq ?self)) (filter (bucket_match (j_session ?self) (j_non_equi_condition ?self) (join_prefix k t)) (j_bucket_iter ?self)) @ out)"
    proof (rule less.hyps)
      show "length (j_bucket_iter ?self) < length (j_bucket_iter self)" using skipped by simp
      show "join_wf L R k ?self" using less.prems(1) ok assms(2) len by (simp add: join_wf_def bucket_ok_def)
      show "take (L + k) (j_tuple_buf ?self) = join_prefix k t" using len by simp
      show "bucket_ok (j_session ?self) (j_non_equi_condition ?self) (R - k) (join_prefix k t) (j_bucket_iter ?self)"
        using ok by (simp add: bucket_ok_def)
    qed (use less.prems(2,5) in auto)
    then show ?thesis using yields_row [of "hash_join_advance D ladvance lget L radvance rget" self ?self hash_join_get, OF adv get] dropWhile_not_filter(2) [OF Cons] by simp
  qed
qed


lemma hash_join_outer_yields:
  assumes "yields ladvance lget l ls" "\<forall>x \<in> set ls. join_input_ok D session cond L R k rs x" "k \<le> L" "k \<le> R"
    and "join_wf L R k self" "j_left self = l" "j_hash_table self = Some m" "\<forall>q. bucket_of D m q = right_bucket D k rs q"
    and "j_bucket_iter self = []" "j_session self = session" "j_non_equi_condition self = cond" "j_join_type self = jt"
  shows "yields (hash_join_advance D ladvance lget L radvance rget) hash_join_get self
    (concat (map (join_row D session cond jt R k rs) ls))"
  using assms(1,2,5-7,9-)
proof (induction arbitrary: self rule: yields.induct)
  case (yields_end s s')
  have "yields (hash_join_advance D ladvance lget L radvance rget) hash_join_get self []"
    by (rule yields.yields_end [where s' = "self\<lparr>j_left := s', j_done := True\<rparr>"])
      (use yields_end in \<open>simp_all add: hash_join_advance_outer join_outer_end join_wf_def hash_join_get_def\<close>)
  then show ?case by simp
next
  case (yields_row s s' x ls)
  obtain t lf where [simp]: "x = (t, lf)" by (cases x)
  let ?adv = "hash_join_advance D ladvance lget L radvance rget"
  have wf: "join_wf L R k self" "j_hash_table self = Some m" "j_bucket_iter self = []" using yields_row.prems by simp_all
  have outer: "?adv self = join_outer D ladvance lget (L + k) m self"
    by (rule hash_join_advance_outer) (use wf in \<open>simp_all add: join_wf_def\<close>)
  have ok: "length t = L" "bucket_ok (j_session self) (j_non_equi_condition self) (R - k) (join_prefix k t) (bucket_of D m (take k t))"
    using yields_row.prems assms(8) by (simp_all add: join_input_ok_def)
  have fresh: "ladvance (j_left self) = Some (Inr s')" "lget s' = Some (t, lf)" using yields_row by simp_all
  note out = join_outer_hit [of ladvance self s' lget t lf L k R D m, OF fresh ok(1) assms(3,4) wf(1) ok(2)] join_outer_miss [of ladvance self s' lget t lf L k R D m, OF fresh ok(1) assms(3,4) wf(1) ok(2) _ wf(3)]
  let ?drop = "dropWhile (\<lambda>e. \<not> bucket_match (j_session self) (j_non_equi_condition self) (join_prefix k t) e) (bucket_of D m (take k t))"
  have matches: "join_matches D session cond k rs x = filter (bucket_match (j_session self) (j_non_equi_condition self) (join_prefix k t)) (bucket_of D m (take k t))"
    using yields_row.prems assms(8) by (simp add: join_matches_def)
  have IH: "yields ?adv hash_join_get self' (concat (map (join_row D session cond jt R k rs) ls))"
    if "self' = self\<lparr>j_left := s', j_left_freq := f, j_tuple_buf := buf, j_freq := fr, j_bucket_iter := []\<rparr>" "length buf = L + R" for self' f buf fr
    by (rule yields_row.IH) (use yields_row.prems that in \<open>simp_all add: join_wf_def\<close>)
  show ?case
  proof (cases ?drop)
    case Nil
    obtain self' f buf fr where self': "self' = self\<lparr>j_left := s', j_left_freq := f, j_tuple_buf := buf, j_freq := fr\<rparr>"
      "length (j_tuple_buf self') = L + R" and adv: "?adv self =
      (if j_join_type self = LeftOuter
       then Some (Inr (self'\<lparr>j_tuple_buf := map ref_clone t @ replicate R D_Null, j_freq := lf\<rparr>))
       else join_outer D ladvance lget (L + k) m self')" using out(2) [OF Nil] unfolding outer by blast
    have none: "join_matches D session cond k rs x = []" using matches Nil dropWhile_not_filter(1) by metis
    show ?thesis
    proof (cases "jt = LeftOuter")
      case True
      let ?self = "self'\<lparr>j_tuple_buf := map ref_clone t @ replicate R D_Null, j_freq := lf\<rparr>"
      have "?adv self = Some (Inr ?self)" using adv True yields_row.prems by simp
      moreover have "hash_join_get ?self = Some (map ref_clone t @ replicate R D_Null, lf)"
        using wf(1) self'(1) by (simp add: hash_join_get_def join_wf_def)
      moreover have "yields ?adv hash_join_get ?self (concat (map (join_row D session cond jt R k rs) ls))"
        by (rule IH [where f = f and buf = "map ref_clone t @ replicate R D_Null" and fr = lf]) (use self' wf ok in \<open>cases self, simp\<close>)+
      moreover have "join_row D session cond jt R k rs x = [(map ref_clone t @ replicate R D_Null, lf)]"
        using True none by (simp add: join_row_def)
      ultimately show ?thesis using yields.yields_row [of ?adv self ?self hash_join_get] by simp
    next
      case False
      have "j_hash_table self' = Some m" "j_bucket_iter self' = []" "j_key_len self' = k"
        using self'(1) wf by (simp_all add: join_wf_def)
      then have "?adv self = ?adv self'" using adv False yields_row.prems by (simp add: hash_join_advance_outer)
      moreover have "yields ?adv hash_join_get self' (concat (map (join_row D session cond jt R k rs) ls))"
        by (rule IH [where f = f and buf = buf and fr = fr]) (use self' wf in \<open>cases self, simp\<close>)+
      moreover have "join_row D session cond jt R k rs x = []" using False none by (simp add: join_row_def)
      ultimately show ?thesis using yields_cong [of ?adv self self' hash_join_get] by simp
    qed
  next
    case (Cons e b)
    let ?self = "self\<lparr>j_left := s', j_left_freq := lf, j_bucket_iter := b, j_tuple_buf := fst (match_row k (t, lf) e), j_freq := snd (match_row k (t, lf) e)\<rparr>"
    have adv: "?adv self = Some (Inr ?self)" using out(1) [OF Cons] unfolding outer .
    have get: "hash_join_get ?self = Some (match_row k (t, lf) e)" using wf(1) by (simp add: hash_join_get_def join_wf_def)
    obtain skipped where skipped: "bucket_of D m (take k t) = skipped @ e # b" by (metis Cons takeWhile_dropWhile_id)
    have "yields ?adv hash_join_get ?self (map (match_row k (t, j_left_freq ?self))
        (filter (bucket_match (j_session ?self) (j_non_equi_condition ?self) (join_prefix k t)) (j_bucket_iter ?self)) @
          concat (map (join_row D session cond jt R k rs) ls))"
    proof (rule hash_join_bucket_yields)
      show "join_wf L R k ?self" "bucket_ok (j_session ?self) (j_non_equi_condition ?self) (R - k) (join_prefix k t) (j_bucket_iter ?self)"
        using wf(1) ok assms(3,4) skipped by (simp_all add: join_wf_def match_row_def bucket_ok_def)
      show "take (L + k) (j_tuple_buf ?self) = join_prefix k t" using ok(1) assms(3) by (simp add: match_row_def)
      fix self'
      assume a: "self' = ?self\<lparr>j_left_freq := j_left_freq self', j_tuple_buf := j_tuple_buf self', j_freq := j_freq self', j_bucket_iter := []\<rparr>"
        "length (j_tuple_buf self') = L + R"
      show "yields ?adv hash_join_get self' (concat (map (join_row D session cond jt R k rs) ls))"
        by (rule IH [where f = "j_left_freq self'" and buf = "j_tuple_buf self'" and fr = "j_freq self'"]) (subst a(1), simp, rule a(2))
    qed (use wf ok assms(3,4) in simp_all)
    from yields.yields_row [of ?adv self ?self hash_join_get, OF adv get this] show ?thesis
      using matches dropWhile_not_filter(2) [OF Cons] yields_row.prems by (simp add: join_row_def [where l = "(t, lf)"])
  qed
qed


text \<open>The rows of the right side are wide enough for their keys.\<close>

lemma hash_join_yields:
  assumes "decimal_laws D" "yields ladvance lget l ls" "yields radvance rget r rs"
    and "\<forall>x \<in> set rs. k \<le> length (fst x)" "\<forall>x \<in> set ls. join_input_ok D session cond L R k rs x" "k \<le> L" "k \<le> R"
  shows "yields (hash_join_advance D ladvance lget L radvance rget) hash_join_get
    (hash_join_new l L r R k cond jt session) (concat (map (join_row D session cond jt R k rs) ls))"
proof -
  let ?self = "hash_join_new l L r R k cond jt session"
  obtain right' m where m: "join_build D radvance rget k r [] = Some (Inr (right', m))" "\<forall>q. bucket_of D m q = right_bucket D k rs q"
    using join_build_spec [OF assms(1,3,4), of "[]"] by auto
  let ?self' = "?self\<lparr>j_right := right', j_hash_table := Some m\<rparr>"
  have "hash_join_advance D ladvance lget L radvance rget ?self = hash_join_advance D ladvance lget L radvance rget ?self'"
    using m(1) by (simp add: hash_join_advance_def hash_join_new_def)
  moreover have "yields (hash_join_advance D ladvance lget L radvance rget) hash_join_get ?self' (concat (map (join_row D session cond jt R k rs) ls))"
    by (rule hash_join_outer_yields [OF assms(2,5-7), of _ m]) (use m(2) in \<open>simp_all add: hash_join_new_def join_wf_def right_size_new_to_def\<close>)
  ultimately show ?thesis
    using yields_cong [of "hash_join_advance D ladvance lget L radvance rget" ?self ?self' hash_join_get] by blast
qed

section \<open>Properties\<close>

text \<open>C11. The hash join yields, for every left row in order, the right rows with equal keys that satisfy
  the rest of the condition, the frequencies multiplied; a left row without a match yields
  nothing in an inner join and itself followed by NULLs in a left outer join.  NULL keys match
  nothing.\<close>

theorem hash_join_rows:
  assumes "decimal_laws D" "yields ladvance lget l ls" "yields radvance rget r rs"
    and "\<forall>x \<in> set rs. k \<le> length (fst x)" "\<forall>x \<in> set ls. join_input_ok D session cond L R k rs x" "k \<le> L" "k \<le> R"
  shows "yields (hash_join_advance D ladvance lget L radvance rget) hash_join_get
    (hash_join_new l L r R k cond jt session) (concat (map (join_row D session cond jt R k rs) ls))"
  by (rule hash_join_yields [OF assms])

text \<open>An example: keys 1, 2 and NULL on the left, a row with key 1 and one with a NULL key on the right.\<close>

definition example_left :: "(bool \<times> nat \<times> nat) row list" where
  "example_left = [([D_Integer 1], 1), ([D_Integer 2], 1), ([D_Null], 1)]"

definition example_right :: "(bool \<times> nat \<times> nat) row list" where
  "example_right = [([D_Integer 1, D_Boolean True], 3), ([D_Null, D_Boolean False], 1)]"

lemma example_bucket:
  "right_bucket ref_decimal_ops (Suc 0) example_right [D_Integer 1] = [([D_Boolean True], 3)]"
  "right_bucket ref_decimal_ops (Suc 0) example_right [D_Integer 2] = []"
  "right_bucket ref_decimal_ops (Suc 0) example_right [D_Null] = []"
  by (simp_all add: right_bucket_def example_right_def row_matches_def datum_eq_def)

lemma example_join:
  "\<forall>x \<in> set example_right. 1 \<le> length (fst x)"
  "\<forall>x \<in> set example_left. join_input_ok ref_decimal_ops (session_new 1) (Constant (D_Boolean True) T_Boolean) 1 2 1 example_right x"
  "concat (map (join_row ref_decimal_ops (session_new 1) (Constant (D_Boolean True) T_Boolean) LeftOuter 2 1 example_right) example_left) =
    [([D_Integer 1, D_Integer 1, D_Boolean True], 3), ([D_Integer 2, D_Null, D_Null], 1), ([D_Null, D_Null, D_Null], 1)]"
  by (simp add: example_right_def)
    (simp_all add: example_left_def join_input_ok_def bucket_ok_def example_bucket join_row_def join_matches_def bucket_match_def
      satisfies_def join_prefix_def match_row_def numeral_2_eq_2)

theorem hash_join_rows_witness:
  "yields (hash_join_advance ref_decimal_ops (rows_advance :: (_, execution_error) advance) rows_get 1 rows_advance rows_get) hash_join_get
    (hash_join_new (None, example_left) 1 (None, example_right) 2 1 (Constant (D_Boolean True) T_Boolean) LeftOuter (session_new 1))
    [([D_Integer 1, D_Integer 1, D_Boolean True], 3), ([D_Integer 2, D_Null, D_Null], 1), ([D_Null, D_Null, D_Null], 1)]"
  using hash_join_rows [where ladvance = "rows_advance :: (_, execution_error) advance" and radvance = rows_advance,
      OF ref_decimal_laws rows_yields rows_yields example_join(1,2), of None None LeftOuter]
  unfolding example_join(3) by simp

end
