(* ===== verification/Table_Insert.thy ===== *)
theory Table_Insert
  imports Executors
begin

text \<open>
  The insert executor (\<open>executor/src/point_in_time/table_insert.rs\<close>).  It drains its source into the
  table in batches of 10000 rows, each an atomic write, every row stamped with the clock.  The
  database is threaded through; \<open>now\<close> is the clock, the timestamp of its n-th reading.
\<close>

section \<open>The code\<close>

record ('s, 'db) table_insert_executor =
  ti_source :: "'s peekable_iter"
  ti_table :: table
  ti_db :: 'db
  ti_ticks :: nat

definition table_insert_new :: "'s \<Rightarrow> table \<Rightarrow> 'db \<Rightarrow> nat \<Rightarrow> ('s, 'db) table_insert_executor" where
  "table_insert_new source table db ticks =
     \<lparr>ti_source = peekable_from source, ti_table = table, ti_db = db, ti_ticks = ticks\<rparr>"

text \<open>The closure run by one atomic write: up to \<open>c\<close> rows.\<close>

fun insert_batch ::
  "('db, 'it) rocks_ops \<Rightarrow> ('d, 'z) decimal_ops_scheme \<Rightarrow> (nat \<Rightarrow> u64) \<Rightarrow> ('s, execution_error) advance \<Rightarrow> ('s, 'd) getter \<Rightarrow> 'db \<Rightarrow> table \<Rightarrow>
    nat \<Rightarrow> 's peekable_iter \<Rightarrow> nat \<Rightarrow> writer \<Rightarrow> (execution_error + 's peekable_iter \<times> nat \<times> writer) option" where
  "insert_batch R D now advance get db table 0 iter ticks batch = Some (Inr (iter, ticks, batch))"
| "insert_batch R D now advance get db table (Suc c) iter ticks batch =
     (case peekable_next advance get iter of
        None \<Rightarrow> None
      | Some (Inl e) \<Rightarrow> Some (Inl e)
      | Some (Inr (iter, None)) \<Rightarrow> Some (Inr (iter, ticks, batch))
      | Some (Inr (iter, Some (tuple, freq))) \<Rightarrow>
          (case writer_write_tuple R D db table tuple (now ticks) freq batch of
             None \<Rightarrow> None
           | Some (Inl e) \<Rightarrow> Some (Inl (StorageError e))
           | Some (Inr batch) \<Rightarrow> insert_batch R D now advance get db table c iter (Suc ticks) batch))"

partial_function (option) insert_loop ::
  "('db, 'it) rocks_ops \<Rightarrow> ('d, 'z) decimal_ops_scheme \<Rightarrow> (nat \<Rightarrow> u64) \<Rightarrow> ('s, execution_error) advance \<Rightarrow> ('s, 'd) getter \<Rightarrow>
    ('s, 'db) table_insert_executor \<Rightarrow> (execution_error + ('s, 'db) table_insert_executor) option" where
  "insert_loop R D now advance get self =
     Option.bind (peekable_peek advance get (ti_source self)) (\<lambda>r.
       case r of
         Inl e \<Rightarrow> Some (Inl e)
       | Inr (iter, next) \<Rightarrow>
           (case next of
              None \<Rightarrow> Some (Inr (self\<lparr>ti_source := iter\<rparr>))
            | Some _ \<Rightarrow>
                Option.bind (insert_batch R D now advance get (ti_db self) (ti_table self) 10000 iter (ti_ticks self) writer_new) (\<lambda>r.
                  case r of
                    Inl e \<Rightarrow> Some (Inl e)
                  | Inr (iter, ticks, batch) \<Rightarrow>
                      Option.bind (atomic_write R StorageError (ti_db self) (\<lambda>_. Some (Inr batch))) (\<lambda>r.
                        case r of
                          Inl e \<Rightarrow> Some (Inl e)
                        | Inr db \<Rightarrow> insert_loop R D now advance get (self\<lparr>ti_source := iter, ti_db := db, ti_ticks := ticks\<rparr>)))))"

definition table_insert_advance ::
  "('db, 'it) rocks_ops \<Rightarrow> ('d, 'z) decimal_ops_scheme \<Rightarrow> (nat \<Rightarrow> u64) \<Rightarrow> ('s, execution_error) advance \<Rightarrow> ('s, 'd) getter \<Rightarrow>
    (('s, 'db) table_insert_executor, execution_error) advance" where
  "table_insert_advance R D now advance get self = insert_loop R D now advance get self"

definition table_insert_get :: "(('s, 'db) table_insert_executor, 'd) getter" where
  "table_insert_get self = None"

section \<open>The writes of an insert\<close>

fun stamped :: "(nat \<Rightarrow> u64) \<Rightarrow> nat \<Rightarrow> 'd row list \<Rightarrow> ('d datum list \<times> u64 \<times> i64) list" where
  "stamped now ticks [] = []"
| "stamped now ticks ((tuple, freq) # rs) = (tuple, now ticks, freq) # stamped now (Suc ticks) rs"

lemma stamped_append: "stamped now ticks (rs @ rs') = stamped now ticks rs @ stamped now (ticks + length rs) rs'"
  by (induction rs arbitrary: ticks) auto

lemma stamped_valid:
  "\<forall>r \<in> set rs. valid_tuple D jp t (fst r) \<Longrightarrow> \<forall>n. unat (now n) < 255 * 2 ^ 56 \<Longrightarrow> list_all (valid_write D jp t) (stamped now ticks rs)"
  by (induction now ticks rs rule: stamped.induct) (auto simp: valid_write_def)

lemma stamped_later: "mono now \<Longrightarrow> u \<in> set (stamped now ticks rs) \<Longrightarrow> now ticks \<le> fst (snd u)"
proof (induction now ticks rs rule: stamped.induct)
  case (2 now ticks tuple freq rs)
  then show ?case using monoD [OF 2(2), of ticks "Suc ticks"] by fastforce
qed simp

lemma stamped_sorted: "mono now \<Longrightarrow> sorted_wrt (\<le>) (map (fst \<circ> snd) (stamped now ticks rs))"
proof (induction now ticks rs rule: stamped.induct)
  case (2 now ticks tuple freq rs)
  have "now ticks \<le> fst (snd u)" if "u \<in> set (stamped now (Suc ticks) rs)" for u
    using stamped_later [OF 2(2) that] monoD [OF 2(2), of ticks "Suc ticks"] by simp
  then show ?case using 2 by auto
qed simp

lemma insert_batch_rows:
  assumes "peekable_at advance get iter rs"
    and "write_tuples R D db table (stamped now ticks (take c rs)) batch = Some (Inr batch')"
  shows "\<exists>iter'. insert_batch R D now advance get db table c iter ticks batch = Some (Inr (iter', ticks + min c (length rs), batch')) \<and>
    peekable_at advance get iter' (drop c rs)"
  using assms
proof (induction c arbitrary: iter ticks rs batch)
  case (Suc c)
  show ?case
  proof (cases rs)
    case Nil
    then obtain iter' where "peekable_next advance get iter = Some (Inr (iter', None))" "peekable_at advance get iter' []"
      using peekable.next_Nil Suc.prems(1) by blast
    then show ?thesis using Suc.prems Nil by simp
  next
    case (Cons r rs')
    obtain t f where [simp]: "r = (t, f)" by (cases r)
    obtain iter' where iter': "peekable_next advance get iter = Some (Inr (iter', Some r))" "peekable_at advance get iter' rs'"
      using peekable.next_Cons Suc.prems(1) Cons by blast
    obtain b where b: "writer_write_tuple R D db table t (now ticks) f batch = Some (Inr b)"
      "write_tuples R D db table (stamped now (Suc ticks) (take c rs')) b = Some (Inr batch')"
      using Suc.prems(2) Cons by (auto split: option.splits sum.splits)
    from Suc.IH [OF iter'(2) b(2)] show ?thesis using iter'(1) b(1) Cons by simp
  qed
qed simp

lemma history_ts: "v \<in> set (history_after D t ws B) \<Longrightarrow> \<exists>u \<in> set ws. fst v = fst (snd u)"
proof (induction ws arbitrary: v rule: rev_induct)
  case Nil
  then show ?case by (simp add: history_after_def)
next
  case (snoc w ws)
  obtain tup ts f where [simp]: "w = (tup, ts, f)" by (cases w)
  have "fst v = ts \<or> (\<exists>u \<in> set (history_after D t ws B). fst v = fst u)"
    using snoc.prems push_version_ts [of v ts f] by (auto simp: history_after_snoc record_write_def split: if_splits)
  then show ?case using snoc.IH by fastforce
qed

text \<open>A table holds a sequence of writes: their history is what the store contains, and they are
  ordered by time.\<close>

definition table_holds ::
  "('d, 'z) decimal_ops_scheme \<Rightarrow> (bytes \<Rightarrow> json_path_selector list option) \<Rightarrow> table \<Rightarrow> (bytes \<rightharpoonup> bytes) \<Rightarrow> ('d datum list \<times> u64 \<times> i64) list \<Rightarrow> bool" where
  "table_holds D jp t m ws \<longleftrightarrow> table_repr D jp t m (history_after D t ws) \<and> list_all (valid_write D jp t) ws \<and>
     sorted_wrt (\<le>) (map (fst \<circ> snd) ws)"

lemma table_holds_batch:
  assumes wf: "wf_table t" and rocks: "rocks_laws R contents rest"
    and "table_holds D jp t (contents db) ws" "list_all (valid_write D jp t) new" "sorted_wrt (\<le>) (map (fst \<circ> snd) (ws @ new))"
  shows "\<exists>w db'. write_tuples R D db t new writer_new = Some (Inr w) \<and> r_write R db (write_batch w) = Inr db' \<and>
    table_holds D jp t (contents db') (ws @ new)"
proof -
  have "table_repr D jp t (apply_batch (write_batch writer_new) (contents db)) (history_after D t ws)"
    using assms(3) by (simp add: table_holds_def writer_new_def)
  moreover have "sorted_wrt (\<le>) (map (fst \<circ> snd) new)" "\<forall>B. \<forall>v \<in> set (history_after D t ws B). \<forall>u \<in> set new. fst v \<le> fst (snd u)"
    using assms(5) history_ts [of _ D t ws] by (fastforce simp: sorted_wrt_append)+
  ultimately obtain w where w: "write_tuples R D db t new writer_new = Some (Inr w)"
    "table_repr D jp t (apply_batch (write_batch w) (contents db)) (fold (record_write D t) new (history_after D t ws))"
    using write_tuples_repr [OF wf rocks assms(4)] by blast
  obtain db' where "r_write R db (write_batch w) = Inr db'" "contents db' = apply_batch (write_batch w) (contents db)"
    using rocks_write [OF rocks] by blast
  then show ?thesis using w assms(3-5) by (auto simp: table_holds_def history_after_def)
qed

lemma insert_loop_rows:
  assumes wf: "wf_table (ti_table self)" and rocks: "rocks_laws R contents rest"
    and "peekable_at advance get (ti_source self) rs" "table_holds D jp (ti_table self) (contents (ti_db self)) ws"
    and "list_all (valid_write D jp (ti_table self)) (stamped now (ti_ticks self) rs)"
    and "sorted_wrt (\<le>) (map (fst \<circ> snd) (ws @ stamped now (ti_ticks self) rs))"
  shows "\<exists>self'. insert_loop R D now advance get self = Some (Inr self') \<and>
    table_holds D jp (ti_table self) (contents (ti_db self')) (ws @ stamped now (ti_ticks self) rs) \<and>
    ti_ticks self' = ti_ticks self + length rs"
  using assms(1,3-)
proof (induction "length rs" arbitrary: rs ws self rule: less_induct)
  case less
  show ?case
  proof (cases rs)
    case Nil
    then obtain iter where "peekable_peek advance get (ti_source self) = Some (Inr (iter, None))"
      using peekable.peek_Nil less.prems(2) by blast
    then show ?thesis using less.prems(3) Nil by (simp add: insert_loop.simps [of _ _ _ _ _ self])
  next
    case (Cons r rs')
    define table where "table = ti_table self"
    obtain iter where iter: "peekable_peek advance get (ti_source self) = Some (Inr (iter, Some r))" "peekable_at advance get iter rs"
      using peekable.peek_then_lock less.prems(2) Cons by blast
    let ?now = "stamped now (ti_ticks self) (take 10000 rs)"
    have split: "stamped now (ti_ticks self) rs = ?now @ stamped now (ti_ticks self + min 10000 (length rs)) (drop 10000 rs)"
      using stamped_append [of now "ti_ticks self" "take 10000 rs" "drop 10000 rs"] by (simp add: min.commute)
    obtain w db' where w: "write_tuples R D (ti_db self) (ti_table self) ?now writer_new = Some (Inr w)"
      "r_write R (ti_db self) (write_batch w) = Inr db'" "table_holds D jp (ti_table self) (contents db') (ws @ ?now)"
      using table_holds_batch [OF less.prems(1) rocks less.prems(3), of ?now] less.prems(4,5) unfolding split
      by (auto simp: sorted_wrt_append)
    obtain iter' where iter': "insert_batch R D now advance get (ti_db self) (ti_table self) 10000 iter (ti_ticks self) writer_new =
        Some (Inr (iter', ti_ticks self + min 10000 (length rs), w))" "peekable_at advance get iter' (drop 10000 rs)"
      using insert_batch_rows [OF iter(2) w(1)] by blast
    let ?self = "self\<lparr>ti_source := iter', ti_db := db', ti_ticks := ti_ticks self + min 10000 (length rs)\<rparr>"
    have step: "insert_loop R D now advance get self = insert_loop R D now advance get ?self"
      using iter(1) iter'(1) w(2) by (simp add: insert_loop.simps [of _ _ _ _ _ self] atomic_write_def)
    have "\<exists>self'. insert_loop R D now advance get ?self = Some (Inr self') \<and>
      table_holds D jp (ti_table ?self) (contents (ti_db self')) ((ws @ ?now) @ stamped now (ti_ticks ?self) (drop 10000 rs)) \<and>
      ti_ticks self' = ti_ticks ?self + length (drop 10000 rs)"
      by (rule less.hyps) (use less.prems w iter' Cons split in \<open>simp_all\<close>)
    then show ?thesis unfolding step split by (auto simp: min_def)
  qed
qed

section \<open>Insert and scan\<close>

text \<open>An insert finishes and is complete: one call drains the source, whatever the number of
  batches, ends the iteration, and leaves the table holding its earlier writes followed by the
  rows of the source stamped in order.  A scan as of any timestamp afterwards sees exactly the
  snapshot of these writes.\<close>

lemma insert_then_scan:
  assumes wf: "wf_table t" and rocks: "rocks_laws R contents rest" and laws: "decimal_laws D"
    and s: "yields advance get s rs" "\<forall>r \<in> set rs. valid_tuple D jp t (fst r)"
    and t: "table_holds D jp t (contents db) ws" "\<forall>u \<in> set ws. fst (snd u) \<le> now ticks"
    and clock: "mono now" "\<forall>n. unat (now n) < 255 * 2 ^ 56"
  shows "\<exists>self'. table_insert_advance R D now advance get (table_insert_new s t db ticks) = Some (Inr self') \<and>
    (table_insert_get self' :: 'd row option) = None \<and>
    table_holds D jp t (contents (ti_db self')) (ws @ stamped now ticks rs) \<and>
    (\<exists>it rows. full_scan R D (ti_db self') t T = Some it \<and> yields (index_advance R D jp) index_get it rows \<and>
      rows_match D rows (snapshot D t T (ws @ stamped now ticks rs)))"
proof -
  let ?self = "table_insert_new s t db ticks"
  have "sorted_wrt (\<le>) (map (fst \<circ> snd) (ws @ stamped now ticks rs))"
    using t stamped_sorted [OF clock(1)] stamped_later [OF clock(1)] by (fastforce simp: table_holds_def sorted_wrt_append)
  then obtain self' where self': "insert_loop R D now advance get ?self = Some (Inr self')"
    "table_holds D jp t (contents (ti_db self')) (ws @ stamped now ticks rs)"
    using insert_loop_rows [OF _ rocks, of ?self advance get rs D jp ws now] wf peekable_from_at [OF s(1)] t(1) stamped_valid [OF s(2) clock(2)]
    by (auto simp: table_insert_new_def)
  then show ?thesis using full_scan_history [OF wf rocks laws, of jp "ws @ stamped now ticks rs" "ti_db self'" T]
    by (auto simp: table_insert_advance_def table_insert_get_def table_holds_def)
qed

lemma empty_table_holds: "(\<And>k. in_table t k \<Longrightarrow> m k = None) \<Longrightarrow> table_holds D jp t m []"
  by (simp add: table_holds_def history_after_def empty_repr)

end
