(* ===== verification/Json.thy ===== *)
theory Json
  imports Datum
begin

text \<open>
  JSON values as byte tapes (\<open>data/src/json.rs\<close>, \<open>data/src/json_serde.rs\<close>).  A tape is a tag byte
  followed by the payload; arrays and objects carry the length of their payload, patched in after
  it is written.  The reader and the builder are modelled on the bytes; what serde feeds the
  builder, or is fed by the reader, is the tree \<open>json_value\<close>.  A value whose numbers have a
  mantissa below 2^95 and not the tag 0x13 is read back from its tape, with its numbers rebuilt.
\<close>

section \<open>Signed little endian numbers\<close>

text \<open>\<open>to_le_bytes\<close> and \<open>from_le_bytes\<close> of a signed integer of \<open>k\<close> bytes.\<close>

definition int_le :: "nat \<Rightarrow> int \<Rightarrow> bytes" where
  "int_le k m = le_bytes k (nat (m mod 256 ^ k))"

definition le_int :: "nat \<Rightarrow> bytes \<Rightarrow> int" where
  "le_int k bs = (let n = int (le_val bs) in if n < 256 ^ k div 2 then n else n - 256 ^ k)"

section \<open>The reader\<close>

datatype JsonType = JT_Null | JT_Boolean | JT_Number | JT_String | JT_Object | JT_Array

definition json_type :: "bytes \<Rightarrow> JsonType option" where
  "json_type bs =
     (case bs of
        [] \<Rightarrow> Some JT_Null
      | b # _ \<Rightarrow>
          if b = 0 then Some JT_Null
          else if b \<le> 0x02 then Some JT_Boolean
          else if b \<le> 0x16 then Some JT_Number
          else if b \<le> 0x1a then Some JT_String
          else if b \<le> 0x1e then Some JT_Array
          else if b \<le> 0x22 then Some JT_Object
          else None)"

definition read_varlen :: "u8 \<Rightarrow> bytes \<Rightarrow> (nat \<times> bytes) option" where
  "read_varlen base bs =
     (case bs of
        [] \<Rightarrow> None
      | b # rest \<Rightarrow>
          if b - base = 0 then map_option (\<lambda>(len, body). (le_val len + 2, body)) (split_at 1 rest)
          else if b - base = 1 then map_option (\<lambda>(len, body). (le_val len + 3, body)) (split_at 2 rest)
          else if b - base = 2 then map_option (\<lambda>(len, body). (le_val len + 5, body)) (split_at 4 rest)
          else None)"

definition json_size :: "bytes \<Rightarrow> nat option" where
  "json_size bs =
     (case bs of
        [] \<Rightarrow> Some 0
      | b # _ \<Rightarrow>
          if b \<le> 0x02 then Some 1
          else if b \<in> {0x03, 0x08, 0x0d} then Some 2
          else if b \<in> {0x04, 0x09, 0x0e} then Some 3
          else if b \<in> {0x05, 0x0a, 0x0f} then Some 5
          else if b \<in> {0x06, 0x0b, 0x10} then Some 9
          else if b \<in> {0x07, 0x0c, 0x11} then Some 13
          else if b = 0x12 then Some 3
          else if b = 0x13 then Some 5
          else if b = 0x14 then Some 6
          else if b = 0x15 then Some 10
          else if b = 0x16 then Some 14
          else if b \<in> {0x17, 0x1b, 0x1f} then Some 1
          else if 0x18 \<le> b \<and> b \<le> 0x1a then map_option fst (read_varlen 0x18 bs)
          else if 0x1c \<le> b \<and> b \<le> 0x1e then map_option fst (read_varlen 0x1c bs)
          else if 0x20 \<le> b \<and> b \<le> 0x22 then map_option fst (read_varlen 0x20 bs)
          else None)"

definition json_is_null :: "bytes \<Rightarrow> bool" where
  "json_is_null bs \<longleftrightarrow> bs = [] \<or> hd bs = 0"

text \<open>The outer option is a panic, the inner one the option of the code.\<close>

definition get_boolean :: "bytes \<Rightarrow> bool option option" where
  "get_boolean bs =
     (case bs of
        [] \<Rightarrow> None
      | b # _ \<Rightarrow> Some (if b = 0x01 then Some False else if b = 0x02 then Some True else None))"

text \<open>The mantissa after the scale.\<close>

definition read_mantissa :: "('d, 'z) decimal_ops_scheme \<Rightarrow> u8 \<Rightarrow> u8 \<Rightarrow> bytes \<Rightarrow> 'd option option" where
  "read_mantissa D tag scale rest =
     (if tag \<in> {0x03, 0x08, 0x0d, 0x12} then
        map_option (\<lambda>(m, _). Some (d_new D (of_int (le_int 1 m)) (ucast scale))) (split_at 1 rest)
      else if tag \<in> {0x04, 0x09, 0x0e, 0x13} then
        map_option (\<lambda>(m, _). Some (d_new D (of_int (le_int 2 m)) (ucast scale))) (split_at 2 rest)
      else if tag \<in> {0x05, 0x0a, 0x0f, 0x14} then
        map_option (\<lambda>(m, _). Some (d_new D (of_int (le_int 4 m)) (ucast scale))) (split_at 4 rest)
      else if tag \<in> {0x06, 0x0b, 0x10, 0x15} then
        map_option (\<lambda>(m, _). Some (d_new D (of_int (le_int 8 m)) (ucast scale))) (split_at 8 rest)
      else if tag \<in> {0x07, 0x0c, 0x11, 0x16} then
        map_option (\<lambda>(m, _). Some (d_from_i128_with_scale D
            (le_int 16 (m @ (if m ! 11 AND 128 = 128 then [0xFF, 0xFF, 0xFF, 0xFF] else [0, 0, 0, 0]))) (ucast scale)))
          (split_at 12 rest)
      else Some None)"

definition get_number :: "('d, 'z) decimal_ops_scheme \<Rightarrow> bytes \<Rightarrow> 'd option option" where
  "get_number D bs =
     (case bs of
        [] \<Rightarrow> None
      | b # rest \<Rightarrow>
          if 0x03 \<le> b \<and> b \<le> 0x07 then read_mantissa D b 0 rest
          else if 0x08 \<le> b \<and> b \<le> 0x0c then read_mantissa D b 1 rest
          else if 0x0d \<le> b \<and> b \<le> 0x11 then read_mantissa D b 2 rest
          else if 0x12 \<le> b \<and> b \<le> 0x16 then
            (case rest of [] \<Rightarrow> None | scale # rest \<Rightarrow> read_mantissa D b scale rest)
          else Some None)"

definition get_string :: "bytes \<Rightarrow> bytes option option" where
  "get_string bs =
     (case bs of
        [] \<Rightarrow> None
      | b # _ \<Rightarrow>
          if b = 0x17 then Some (Some [])
          else if 0x18 \<le> b \<and> b \<le> 0x1a then map_option (\<lambda>(_, body). Some body) (read_varlen 0x18 bs)
          else Some None)"

text \<open>The iterators are the bytes still to be read.\<close>

definition iter_array :: "bytes \<Rightarrow> bytes option option" where
  "iter_array bs =
     Option.bind (json_type bs) (\<lambda>t.
     if t = JT_Array then
       if hd bs = 0x1b then Some (Some []) else map_option (\<lambda>(_, body). Some body) (read_varlen 0x1c bs)
     else Some None)"

definition iter_object :: "bytes \<Rightarrow> bytes option option" where
  "iter_object bs =
     Option.bind (json_type bs) (\<lambda>t.
     if t = JT_Object then
       if hd bs = 0x1f then Some (Some []) else map_option (\<lambda>(_, body). Some body) (read_varlen 0x20 bs)
     else Some None)"

definition json_iter_next :: "bytes \<Rightarrow> (bytes \<times> bytes) option option" where
  "json_iter_next bs =
     Option.bind (json_size bs) (\<lambda>size.
     if size = 0 then Some None else map_option Some (split_at size bs))"

definition json_object_iter_next :: "bytes \<Rightarrow> ((bytes \<times> bytes) \<times> bytes) option option" where
  "json_object_iter_next bs =
     Option.bind (json_iter_next bs) (\<lambda>key.
     Option.bind (json_iter_next (case key of None \<Rightarrow> bs | Some (_, bs) \<Rightarrow> bs)) (\<lambda>val.
     case (key, val) of
       (Some (k, _), Some (v, rest)) \<Rightarrow>
         Option.bind (get_string k) (\<lambda>s. map_option (\<lambda>s. Some ((s, v), rest)) s)
     | _ \<Rightarrow> Some None))"

section \<open>The builder\<close>

definition push_null :: "bytes \<Rightarrow> bytes" where
  "push_null buf = buf @ [0x00]"

definition push_bool :: "bool \<Rightarrow> bytes \<Rightarrow> bytes" where
  "push_bool b buf = buf @ [if b then 0x02 else 0x01]"

definition push_int :: "i64 \<Rightarrow> bytes \<Rightarrow> bytes" where
  "push_int i buf =
     (let m = sint i in
      if - 128 \<le> m \<and> m \<le> 127 then buf @ [0x03] @ int_le 1 m
      else if - 32768 \<le> m \<and> m \<le> 32767 then buf @ [0x04] @ int_le 2 m
      else if - 2147483648 \<le> m \<and> m \<le> 2147483647 then buf @ [0x05] @ int_le 4 m
      else buf @ [0x06] @ int_le 8 m)"

text \<open>The tags for a scale, and the scale byte where it is not implied.\<close>

definition decimal_tags :: "u32 \<Rightarrow> bytes \<times> bytes" where
  "decimal_tags scale =
     (if scale = 0 then ([0x03, 0x04, 0x05, 0x06, 0x07], [])
      else if scale = 1 then ([0x08, 0x09, 0x0a, 0x0b, 0x0c], [])
      else if scale = 2 then ([0x0d, 0x0e, 0x0f, 0x10, 0x11], [])
      else ([0x12, 0x13, 0x14, 0x15, 0x16], [ucast scale]))"

definition push_mantissa :: "bytes \<Rightarrow> bytes \<Rightarrow> int \<Rightarrow> bytes \<Rightarrow> bytes" where
  "push_mantissa tags s m buf =
     (if - 128 \<le> m \<and> m \<le> 127 then buf @ [tags ! 0] @ s @ int_le 1 m
      else if - 32768 \<le> m \<and> m \<le> 32767 then buf @ [tags ! 1] @ s @ int_le 2 m
      else if - 2147483648 \<le> m \<and> m \<le> 2147483647 then buf @ [tags ! 2] @ s @ int_le 4 m
      else if - 9223372036854775808 \<le> m \<and> m \<le> 9223372036854775807 then buf @ [tags ! 3] @ s @ int_le 8 m
      else
        let bs = int_le 16 m in
        buf @ [tags ! 4] @ s @ take 12 (if bs ! 15 AND 128 = 128 then bs[11 := bs ! 11 OR 128] else bs))"

text \<open>The result of \<open>d.normalize()\<close> is not used by the code.\<close>

definition push_decimal :: "('d, 'z) decimal_ops_scheme \<Rightarrow> 'd \<Rightarrow> bytes \<Rightarrow> bytes" where
  "push_decimal D d buf =
     (let u = d_unpack D d;
          m = int (unat (lo u)) + push_bit 32 (int (unat (mid u))) + push_bit 64 (int (unat (hi u)));
          m = (if d_is_sign_positive D d then m else - m);
          (tags, s) = decimal_tags (d_scale D d) in
      push_mantissa tags s m buf)"

definition push_string :: "bytes \<Rightarrow> bytes \<Rightarrow> bytes option" where
  "push_string s buf =
     (let len = length s in
      if len = 0 then Some (buf @ [0x17])
      else if len \<le> 255 then Some (buf @ [0x18] @ le_bytes 1 len @ s)
      else if len \<le> 65535 then Some (buf @ [0x19] @ le_bytes 2 len @ s)
      else if len \<le> 4294967295 then Some (buf @ [0x1a] @ le_bytes 4 len @ s)
      else None)"

text \<open>\<open>buf[at..].copy_from_slice(xs)\<close> and \<open>buf.insert(at, x)\<close>.\<close>

definition copy_from_slice :: "nat \<Rightarrow> bytes \<Rightarrow> bytes \<Rightarrow> bytes" where
  "copy_from_slice i xs buf = take i buf @ xs @ drop (i + length xs) buf"

definition insert_at :: "nat \<Rightarrow> u8 \<Rightarrow> bytes \<Rightarrow> bytes" where
  "insert_at i x buf = take i buf @ [x] @ drop i buf"

text \<open>\<open>push_array\<close> and \<open>push_object\<close> differ in their tags only: reserve a tag and one length byte, run the
  closure, then patch the tag and the length in, moving the payload when the length needs more bytes.\<close>

definition patch_varlen :: "u8 \<Rightarrow> nat \<Rightarrow> bytes \<Rightarrow> bytes option" where
  "patch_varlen tag len_before buf =
     (let len_after = length buf; len = len_after - len_before in
      if len = 0 then Some (butlast buf)
      else if len \<le> 255 then
        Some (buf[len_before - 2 := tag + 1, len_before - 1 := of_nat len])
      else if len \<le> 65535 then
        Some (copy_from_slice (len_before - 1) (le_bytes 2 len) (insert_at (len_before - 1) 0 (buf[len_before - 2 := tag + 2])))
      else if len \<le> 4294967295 then
        let grown = buf[len_before - 2 := tag + 3] @ [0, 0, 0] in
        Some (copy_from_slice (len_before - 1) (le_bytes 4 len)
          (copy_from_slice (len_before + 3) (take (len_after - len_before) (drop len_before grown)) grown))
      else None)"

definition push_array :: "(bytes \<Rightarrow> bytes option) \<Rightarrow> bytes \<Rightarrow> bytes option" where
  "push_array f buf =
     (let buf = buf @ [0x1b, 0x00]; len_before = length buf in
      Option.bind (f buf) (\<lambda>buf. patch_varlen 0x1b len_before buf))"

definition push_object :: "(bytes \<Rightarrow> bytes option) \<Rightarrow> bytes \<Rightarrow> bytes option" where
  "push_object f buf =
     (let buf = buf @ [0x1f, 0x00]; len_before = length buf in
      Option.bind (f buf) (\<lambda>buf. patch_varlen 0x1f len_before buf))"

definition push_json :: "bytes \<Rightarrow> bytes \<Rightarrow> bytes" where
  "push_json j buf = (if j = [] then push_null buf else buf @ j)"

section \<open>Serde\<close>

datatype 'd json_value =
    JV_Null
  | JV_Bool bool
  | JV_Int i64
  | JV_Number 'd
  | JV_String bytes
  | JV_Array "'d json_value list"
  | JV_Object "(bytes \<times> 'd json_value) list"

text \<open>The visitor: what the deserializer calls for a value, for the elements of a sequence and for the
  entries of a map.\<close>

fun visit :: "('d, 'z) decimal_ops_scheme \<Rightarrow> 'd json_value \<Rightarrow> bytes \<Rightarrow> bytes option"
and visit_seq :: "('d, 'z) decimal_ops_scheme \<Rightarrow> 'd json_value list \<Rightarrow> bytes \<Rightarrow> bytes option"
and visit_map :: "('d, 'z) decimal_ops_scheme \<Rightarrow> (bytes \<times> 'd json_value) list \<Rightarrow> bytes \<Rightarrow> bytes option" where
  "visit D JV_Null buf = Some (push_null buf)"
| "visit D (JV_Bool b) buf = Some (push_bool b buf)"
| "visit D (JV_Int i) buf = Some (push_int i buf)"
| "visit D (JV_Number d) buf = Some (push_decimal D d buf)"
| "visit D (JV_String s) buf = push_string s buf"
| "visit D (JV_Array vs) buf = push_array (visit_seq D vs) buf"
| "visit D (JV_Object kvs) buf = push_object (visit_map D kvs) buf"
| "visit_seq D [] buf = Some buf"
| "visit_seq D (v # vs) buf = Option.bind (visit D v buf) (visit_seq D vs)"
| "visit_map D [] buf = Some buf"
| "visit_map D ((k, v) # kvs) buf = Option.bind (push_string k buf) (\<lambda>buf. Option.bind (visit D v buf) (visit_map D kvs))"

definition deserialize :: "('d, 'z) decimal_ops_scheme \<Rightarrow> 'd json_value \<Rightarrow> bytes option" where
  "deserialize D v = visit D v []"

text \<open>The items of an iterator that is run to its end.\<close>

function json_items :: "bytes \<Rightarrow> bytes list option" where
  "json_items bs =
     (case json_iter_next bs of
        None \<Rightarrow> None
      | Some None \<Rightarrow> Some []
      | Some (Some (item, rest)) \<Rightarrow> map_option (Cons item) (json_items rest))"
  by pat_completeness auto
termination
  by (relation "measure length") (auto simp: json_iter_next_def split_at_def bind_eq_Some_conv split: if_splits)

function json_entries :: "bytes \<Rightarrow> (bytes \<times> bytes) list option" where
  "json_entries bs =
     (case json_object_iter_next bs of
        None \<Rightarrow> None
      | Some None \<Rightarrow> Some []
      | Some (Some (entry, rest)) \<Rightarrow> map_option (Cons entry) (json_entries rest))"
  by pat_completeness auto
termination
  by (relation "measure length")
    (auto simp: json_object_iter_next_def json_iter_next_def split_at_def bind_eq_Some_conv split: if_splits option.splits prod.splits)

declare json_items.simps [simp del] json_entries.simps [simp del]

lemma json_iter_next_length: "json_iter_next bs = Some (Some (item, rest)) \<Longrightarrow> length item + length rest = length bs \<and> item \<noteq> []"
  by (auto simp: json_iter_next_def split_at_def bind_eq_Some_conv split: if_splits)

lemma json_items_length: "json_items bs = Some items \<Longrightarrow> item \<in> set items \<Longrightarrow> length item \<le> length bs"
proof (induction bs arbitrary: items rule: json_items.induct)
  case (1 bs)
  from 1(2,3) obtain x rest items' where step: "json_iter_next bs = Some (Some (x, rest))" "json_items rest = Some items'" "items = x # items'"
    by (subst (asm) json_items.simps) (auto split: option.splits)
  show ?case using 1(1) [OF step(1) refl refl step(2)] 1(3) step json_iter_next_length [OF step(1)] by auto
qed

lemma json_entries_length: "json_entries bs = Some entries \<Longrightarrow> (k, v) \<in> set entries \<Longrightarrow> length v \<le> length bs"
proof (induction bs arbitrary: entries rule: json_entries.induct)
  case (1 bs)
  from 1(2,3) obtain e rest entries' where step: "json_object_iter_next bs = Some (Some (e, rest))" "json_entries rest = Some entries'" "entries = e # entries'"
    by (subst (asm) json_entries.simps) (auto split: option.splits)
  have "length (snd e) + length rest \<le> length bs"
    using step(1) by (auto simp: json_object_iter_next_def bind_eq_Some_conv split: option.splits prod.splits dest!: json_iter_next_length)
  then show ?case using 1(1) [OF step(1) refl refl step(2)] 1(3) step by fastforce
qed

lemma read_varlen_length: "read_varlen base bs = Some (n, body) \<Longrightarrow> length body < length bs"
  by (auto simp: read_varlen_def split_at_def split: list.splits if_splits)

lemma iter_length:
  "iter_array bs = Some (Some it) \<Longrightarrow> length it < length bs"
  "iter_object bs = Some (Some it) \<Longrightarrow> length it < length bs"
  by (auto simp: iter_array_def iter_object_def bind_eq_Some_conv json_type_def split: if_splits list.splits dest: read_varlen_length)

text \<open>The serializer: what it is fed for a tape.\<close>

function serialize :: "('d, 'z) decimal_ops_scheme \<Rightarrow> bytes \<Rightarrow> 'd json_value option" where
  "serialize D bs =
     (case json_type bs of
        None \<Rightarrow> None
      | Some JT_Null \<Rightarrow> Some JV_Null
      | Some JT_Number \<Rightarrow> (case get_number D bs of Some (Some d) \<Rightarrow> Some (JV_Number d) | _ \<Rightarrow> None)
      | Some JT_Boolean \<Rightarrow> (case get_boolean bs of Some (Some b) \<Rightarrow> Some (JV_Bool b) | _ \<Rightarrow> None)
      | Some JT_String \<Rightarrow> (case get_string bs of Some (Some s) \<Rightarrow> Some (JV_String s) | _ \<Rightarrow> None)
      | Some JT_Object \<Rightarrow>
          (case iter_object bs of
             Some (Some it) \<Rightarrow>
               (case json_entries it of
                  None \<Rightarrow> None
                | Some entries \<Rightarrow> map_option JV_Object (those (map (\<lambda>(k, v). map_option (Pair k) (serialize D v)) entries)))
           | _ \<Rightarrow> None)
      | Some JT_Array \<Rightarrow>
          (case iter_array bs of
             Some (Some it) \<Rightarrow>
               (case json_items it of None \<Rightarrow> None | Some items \<Rightarrow> map_option JV_Array (those (map (serialize D) items)))
           | _ \<Rightarrow> None))"
  by pat_completeness auto
termination
  by (relation "measure (length \<circ> snd)")
    (auto dest!: json_items_length json_entries_length iter_length intro: le_less_trans)

declare serialize.simps [simp del]

section \<open>Signed numbers\<close>

lemma length_int_le [simp]: "length (int_le k m) = k"
  by (simp add: int_le_def)

lemma le_val_int_le: "le_val (int_le k m) = nat (m mod 256 ^ k)"
proof -
  have "nat (m mod 256 ^ k) < 256 ^ k" by (simp add: nat_less_iff)
  then show ?thesis by (simp add: int_le_def le_val_le_bytes)
qed

lemma le_int_int_le:
  assumes "0 < k" "- (256 ^ k div 2) \<le> m" "m < 256 ^ k div 2"
  shows "le_int k (int_le k m) = m"
proof -
  have even: "2 * (256 ^ k div 2) = (256 ^ k :: int)" using assms(1) by (cases k) simp_all
  then show ?thesis
  proof (cases "0 \<le> m")
    case True
    then have "m mod 256 ^ k = m" using assms(3) even by (intro mod_pos_pos_trivial) linarith+
    then show ?thesis using True assms(3) by (simp add: le_int_def le_val_int_le)
  next
    case False
    have "m mod 256 ^ k = (m + 256 ^ k) mod 256 ^ k" by simp
    also have "\<dots> = m + 256 ^ k" using False assms(2) even by (intro mod_pos_pos_trivial) linarith+
    finally have "m mod 256 ^ k = m + 256 ^ k" .
    then show ?thesis using False assms(2) even by (simp add: le_int_def le_val_int_le)
  qed
qed

text \<open>Bytes of sixteen, cut to twelve and extended again.\<close>

lemma bit_128: "bit (128 :: int) n \<longleftrightarrow> n = 7"
  using bit_exp_iff [of 7 n, where ?'a = int] by simp

lemma u8_high_bit: "(b :: u8) AND 128 = 128 \<longleftrightarrow> 128 \<le> unat b"
proof -
  have "b AND 128 = 128 \<longleftrightarrow> bit b 7" by (auto simp: bit_eq_iff [of "b AND 128" 128] bit_and_iff bit_128 dest: spec [of _ 7])
  also have "\<dots> \<longleftrightarrow> odd (unat b div 2 ^ 7)" using bit_unsigned_iff [of b 7, where ?'a = nat] by (simp add: bit_iff_odd [of "unat b"])
  also have "\<dots> \<longleftrightarrow> 128 \<le> unat b" using unat_u8_less [of b] by (cases "128 \<le> unat b") (auto simp: div_if)
  finally show ?thesis .
qed

lemma u8_or_high_bit: "128 \<le> unat (b :: u8) \<Longrightarrow> b OR 128 = b"
proof -
  assume "128 \<le> unat b"
  then have "b AND 128 = 128" by (simp add: u8_high_bit)
  then have "bit b 7" by (auto simp: bit_eq_iff [of "b AND 128" 128] bit_and_iff bit_128 dest: spec [of _ 7])
  then show ?thesis by (auto simp: bit_eq_iff [of "b OR 128" b] bit_or_iff bit_128)
qed

lemma le_val_append: "le_val (xs @ ys) = le_val xs + 256 ^ length xs * le_val ys"
proof (induction xs)
  case (Cons x xs)
  have "le_val (y # zs) = le_val zs * 256 + unat y" for y zs by (simp add: le_val_def)
  then show ?case using Cons by simp
qed (simp add: le_val_def)

lemma le_val_less: "le_val bs < 256 ^ length bs"
  using be_val_less [of "rev bs"] by (simp add: le_val_def)

lemma take_le_bytes: "k \<le> n \<Longrightarrow> take k (le_bytes n v) = le_bytes k v"
proof (induction k arbitrary: n v)
  case (Suc k)
  then obtain n' where n: "n = Suc n'" by (cases n) auto
  have "le_bytes (Suc i) v = of_nat v # le_bytes i (v div 256)" for i by (simp add: le_bytes_def)
  then show ?case using Suc n by simp
qed (simp add: le_bytes_def)

lemma last_byte: "0 < k \<Longrightarrow> unat (le_bytes k v ! (k - 1)) = v div 256 ^ (k - 1) mod 256"
proof (induction k arbitrary: v)
  case (Suc k)
  have "le_bytes (Suc i) v = of_nat v # le_bytes i (v div 256)" for i v by (simp add: le_bytes_def)
  then show ?case using Suc.IH [of "v div 256"] by (cases k) (simp_all add: unat_of_nat div_mult2_eq)
qed simp

lemma le_bytes_mod_eq: "le_bytes k v = le_bytes k (v mod 256 ^ k)"
  by (simp add: le_bytes_def be_bytes_mod)

lemma high_byte:
  assumes "length bs = Suc k"
  shows "128 \<le> unat (bs ! k) \<longleftrightarrow> 256 ^ Suc k div 2 \<le> le_val bs"
proof -
  have "bs = take k bs @ [bs ! k]" using assms by (metis lessI order_refl take_Suc_conv_app_nth take_all)
  then have "le_val bs = le_val (take k bs) + 256 ^ k * unat (bs ! k)"
    using le_val_append [of "take k bs" "[bs ! k]"] assms by (simp add: le_val_def be_val_def)
  moreover have "le_val (take k bs) < 256 ^ k" using le_val_less [of "take k bs"] assms by simp
  moreover have "(256 :: nat) ^ Suc k div 2 = 256 ^ k * 128" by simp
  moreover have "256 ^ k * 128 \<le> 256 ^ k * unat (bs ! k)" if "128 \<le> unat (bs ! k)" using that by (rule mult_le_mono2)
  moreover have "256 ^ k * unat (bs ! k) + 256 ^ k \<le> 256 ^ k * 128" if "\<not> 128 \<le> unat (bs ! k)"
    using that mult_le_mono2 [of "unat (bs ! k) + 1" 128 "256 ^ k"] by (simp add: algebra_simps)
  ultimately show ?thesis by (cases "128 \<le> unat (bs ! k)") linarith+
qed

lemma sign_extend_12:
  assumes "length bs = 12"
  shows "le_int 16 (bs @ (if bs ! 11 AND 128 = 128 then [0xFF, 0xFF, 0xFF, 0xFF] else [0, 0, 0, 0])) = le_int 12 bs"
proof -
  have v: "le_val (bs @ ext) = le_val bs + 256 ^ 12 * le_val ext" for ext using le_val_append [of bs ext] assms by simp
  have ext: "le_val [0xFF, 0xFF, 0xFF, 0xFF] = 2 ^ 32 - 1" "le_val [0, 0, 0, 0] = 0" by (simp_all add: le_val_def be_val_def)
  have "le_val bs < 256 ^ 12" using le_val_less [of bs] assms by simp
  then show ?thesis using high_byte [of bs 11] assms
    by (cases "bs ! 11 AND 128 = 128") (auto simp: v ext le_int_def Let_def u8_high_bit)
qed

lemma cut_12:
  assumes m: "- (2 ^ 95) \<le> m" "m < 2 ^ 95"
  shows "take 12 (if int_le 16 m ! 15 AND 128 = 128 then (int_le 16 m)[11 := int_le 16 m ! 11 OR 128] else int_le 16 m) = int_le 12 m"
proof -
  let ?v = "nat (m mod 256 ^ 16)"
  have mods: "?v mod 256 ^ 12 = nat (m mod 256 ^ 12)"
  proof -
    have "m mod 256 ^ 16 mod 256 ^ 12 = m mod 256 ^ 12" by (rule mod_mod_cancel) (simp add: dvd_def)
    moreover have "nat (m mod 256 ^ 16 mod 256 ^ 12) = ?v mod nat (256 ^ 12)" by (rule nat_mod_distrib) simp_all
    ultimately show ?thesis by (simp add: nat_power_eq)
  qed
  have t: "take 12 (int_le 16 m) = int_le 12 m"
    unfolding int_le_def take_le_bytes [of 12 16, simplified] by (subst le_bytes_mod_eq) (simp only: mods)
  show ?thesis
  proof (cases "m < 0")
    case True
    have "m mod 256 ^ 12 = (m + 256 ^ 12) mod 256 ^ 12" by simp
    also have "\<dots> = m + 256 ^ 12" using True m by (intro mod_pos_pos_trivial) simp_all
    finally have "256 ^ 12 div 2 \<le> le_val (int_le 12 m)" using m by (simp add: le_val_int_le)
    then have "128 \<le> unat (int_le 12 m ! 11)" using high_byte [of "int_le 12 m" 11] by simp
    then have "128 \<le> unat (int_le 16 m ! 11)" unfolding t [symmetric] by simp
    then show ?thesis by (simp add: u8_or_high_bit t)
  next
    case False
    then have "m mod 256 ^ 16 = m" using m by (intro mod_pos_pos_trivial) simp_all
    then have "\<not> 256 ^ 16 div 2 \<le> le_val (int_le 16 m)" using False m by (simp add: le_val_int_le)
    then have "\<not> int_le 16 m ! 15 AND 128 = 128" using high_byte [of "int_le 16 m" 15] by (simp add: u8_high_bit)
    then show ?thesis using t by simp
  qed
qed

section \<open>The tape of a value\<close>

text \<open>A body with its length, at the narrowest of the four forms that \<open>tag\<close> opens.\<close>

definition varlen :: "u8 \<Rightarrow> bytes \<Rightarrow> bytes" where
  "varlen tag body =
     (let len = length body in
      if len = 0 then [tag]
      else if len \<le> 255 then [tag + 1] @ le_bytes 1 len @ body
      else if len \<le> 65535 then [tag + 2] @ le_bytes 2 len @ body
      else [tag + 3] @ le_bytes 4 len @ body)"

definition mantissa_width :: "int \<Rightarrow> nat" where
  "mantissa_width m =
     (if - 128 \<le> m \<and> m \<le> 127 then 0 else if - 32768 \<le> m \<and> m \<le> 32767 then 1
      else if - 2147483648 \<le> m \<and> m \<le> 2147483647 then 2
      else if - 9223372036854775808 \<le> m \<and> m \<le> 9223372036854775807 then 3 else 4)"

definition number_tape :: "u32 \<Rightarrow> int \<Rightarrow> bytes" where
  "number_tape scale m =
     [fst (decimal_tags scale) ! mantissa_width m] @ snd (decimal_tags scale) @ int_le ([1, 2, 4, 8, 12] ! mantissa_width m) m"

fun tape :: "('d, 'z) decimal_ops_scheme \<Rightarrow> 'd json_value \<Rightarrow> bytes" where
  "tape D JV_Null = [0x00]"
| "tape D (JV_Bool b) = [if b then 0x02 else 0x01]"
| "tape D (JV_Int i) = number_tape 0 (sint i)"
| "tape D (JV_Number d) = number_tape (d_scale D d) (d_num D d)"
| "tape D (JV_String s) = varlen 0x17 s"
| "tape D (JV_Array vs) = varlen 0x1b (concat (map (tape D) vs))"
| "tape D (JV_Object kvs) = varlen 0x1f (concat (map (\<lambda>(k, v). varlen 0x17 k @ tape D v) kvs))"

text \<open>Values within the limits of the format: the sizes fit into 32 bits, the mantissas into 96 bits with
  sign, and no number has the tag whose size is computed wrongly.\<close>

definition number_ok :: "u32 \<Rightarrow> int \<Rightarrow> bool" where
  "number_ok scale m \<longleftrightarrow> scale < 256 \<and> - (2 ^ 95) \<le> m \<and> m < 2 ^ 95 \<and> (scale \<le> 2 \<or> mantissa_width m \<noteq> 1)"

fun value_ok :: "('d, 'z) decimal_ops_scheme \<Rightarrow> 'd json_value \<Rightarrow> bool" where
  "value_ok D (JV_Number d) \<longleftrightarrow> number_ok (d_scale D d) (d_num D d)"
| "value_ok D (JV_String s) \<longleftrightarrow> length s < 2 ^ 32"
| "value_ok D (JV_Array vs) \<longleftrightarrow> (\<forall>v \<in> set vs. value_ok D v) \<and> length (concat (map (tape D) vs)) < 2 ^ 32"
| "value_ok D (JV_Object kvs) \<longleftrightarrow> (\<forall>(k, v) \<in> set kvs. length k < 2 ^ 32 \<and> value_ok D v) \<and>
     length (concat (map (\<lambda>(k, v). varlen 0x17 k @ tape D v) kvs)) < 2 ^ 32"
| "value_ok D v \<longleftrightarrow> True"

lemma push_string_eq: "length s < 2 ^ 32 \<Longrightarrow> push_string s buf = Some (buf @ varlen 0x17 s)"
  by (simp add: push_string_def varlen_def Let_def)

lemma push_int_eq: "push_int i buf = buf @ number_tape 0 (sint i)"
  using sint_i64_bounds [of i] by (simp add: push_int_def number_tape_def decimal_tags_def mantissa_width_def Let_def)

lemma push_decimal_mantissa:
  "push_decimal D d buf = push_mantissa (fst (decimal_tags (d_scale D d))) (snd (decimal_tags (d_scale D d))) (d_num D d) buf"
proof -
  have m: "(if d_is_sign_positive D d then x else - x) = d_num D d"
    if "x = int (unat (lo (d_unpack D d))) + push_bit 32 (int (unat (mid (d_unpack D d)))) + push_bit 64 (int (unat (hi (d_unpack D d))))" for x
    using that by (simp add: d_num_def d_mant_def Let_def push_bit_eq_mult)
  show ?thesis unfolding push_decimal_def Let_def m [OF refl] by (simp add: case_prod_unfold)
qed

lemma push_decimal_eq:
  assumes "- (2 ^ 95) \<le> d_num D d" "d_num D d < 2 ^ 95"
  shows "push_decimal D d buf = buf @ number_tape (d_scale D d) (d_num D d)"
  using assms cut_12 [of "d_num D d"]
  by (simp add: push_decimal_mantissa push_mantissa_def number_tape_def mantissa_width_def Let_def)

lemma patch_varlen_eq:
  assumes "length body < 2 ^ 32"
  shows "patch_varlen tag (length buf + 2) (buf @ [tag, 0] @ body) = Some (buf @ varlen tag body)"
proof -
  have upd: "(buf @ tag # x # body)[length buf := t] = buf @ t # x # body" "(buf @ t # x # body)[Suc (length buf) := y] = buf @ t # y # body" for t x y
    by (simp_all add: list_update_append)
  have le1: "le_bytes 1 n = [of_nat n]" for n by (simp add: le_bytes_def)
  consider "body = []" | "body \<noteq> []" "length body \<le> 255" | "255 < length body" "length body \<le> 65535" | "65535 < length body" by linarith
  then show ?thesis
  proof cases
    case 1
    then show ?thesis by (simp add: patch_varlen_def varlen_def butlast_append)
  next
    case 2
    then show ?thesis by (simp add: patch_varlen_def varlen_def Let_def upd le1 [simplified])
  next
    case 3
    then show ?thesis by (simp add: patch_varlen_def varlen_def Let_def upd copy_from_slice_def insert_at_def butlast_append)
  next
    case 4
    then show ?thesis using assms by (simp add: patch_varlen_def varlen_def Let_def upd copy_from_slice_def butlast_append)
  qed
qed

lemma le_bytes_short: "le_bytes (Suc 0) v = [of_nat v]" "le_bytes 2 v = [of_nat v, of_nat (v div 256)]"
  by (simp_all add: le_bytes_def numeral_2_eq_2)

lemma push_array_eq:
  assumes "\<And>b. f b = Some (b @ body)" "length body < 2 ^ 32"
  shows "push_array f buf = Some (buf @ varlen 0x1b body)" "push_object f buf = Some (buf @ varlen 0x1f body)"
  using patch_varlen_eq [OF assms(2), of _ buf] by (simp_all add: push_array_def push_object_def assms(1) Let_def)

lemma visit_eq:
  "value_ok D v \<Longrightarrow> visit D v buf = Some (buf @ tape D v)"
  "(\<forall>v \<in> set vs. value_ok D v) \<Longrightarrow> visit_seq D vs buf = Some (buf @ concat (map (tape D) vs))"
  "(\<forall>(k, v) \<in> set kvs. length k < 2 ^ 32 \<and> value_ok D v) \<Longrightarrow>
    visit_map D kvs buf = Some (buf @ concat (map (\<lambda>(k, v). varlen 0x17 k @ tape D v) kvs))"
proof (induction D v buf and D vs buf and D kvs buf rule: visit_visit_seq_visit_map.induct)
  case (6 D vs buf)
  then have "\<And>b. visit_seq D vs b = Some (b @ concat (map (tape D) vs))" by simp
  then show ?case using 6 push_array_eq(1) [of "visit_seq D vs"] by simp
next
  case (7 D kvs buf)
  then have "\<And>b. visit_map D kvs b = Some (b @ concat (map (\<lambda>(k, v). varlen 0x17 k @ tape D v) kvs))" by simp
  then show ?case using 7 push_array_eq(2) [of "visit_map D kvs"] by simp
qed (simp_all add: push_null_def push_bool_def push_int_eq push_decimal_eq number_ok_def push_string_eq)

section \<open>Reading a tape\<close>

lemma le_val_le_bytes_small: "n < 256 ^ k \<Longrightarrow> le_val (le_bytes k n) = n"
  by (simp add: le_val_le_bytes)

lemma read_varlen_varlen:
  assumes "body \<noteq> []" "length body < 2 ^ 32"
  shows "read_varlen (tag + 1) (varlen tag body @ rest) = Some (length (varlen tag body), body @ rest)"
proof -
  consider "length body \<le> 255" | "255 < length body" "length body \<le> 65535" | "65535 < length body" by linarith
  then show ?thesis
  proof cases
    case 1
    then show ?thesis using assms le_val_le_bytes_small [of "length body" 1]
      by (simp add: varlen_def Let_def read_varlen_def split_at_def)
  next
    case 2
    then show ?thesis using assms le_val_le_bytes_small [of "length body" 2]
      by (simp add: varlen_def Let_def read_varlen_def split_at_def)
  next
    case 3
    then show ?thesis using assms le_val_le_bytes_small [of "length body" 4]
      by (simp add: varlen_def Let_def read_varlen_def split_at_def)
  qed
qed

definition rebuild_number :: "('d, 'z) decimal_ops_scheme \<Rightarrow> u32 \<Rightarrow> int \<Rightarrow> 'd" where
  "rebuild_number D scale m =
     (if mantissa_width m < 4 then d_new D (of_int m) scale else d_from_i128_with_scale D m scale)"

lemma mantissa_cases:
  assumes "- (2 ^ 95) \<le> m" "m < 2 ^ 95"
  obtains "mantissa_width m = 0" "le_int 1 (int_le 1 m) = m" | "mantissa_width m = 1" "le_int 2 (int_le 2 m) = m"
    | "mantissa_width m = 2" "le_int 4 (int_le 4 m) = m" | "mantissa_width m = 3" "le_int 8 (int_le 8 m) = m"
    | "mantissa_width m = 4" "le_int 12 (int_le 12 m) = m"
proof -
  have "mantissa_width m = 0 \<Longrightarrow> le_int 1 (int_le 1 m) = m" "mantissa_width m = 1 \<Longrightarrow> le_int 2 (int_le 2 m) = m"
    "mantissa_width m = 2 \<Longrightarrow> le_int 4 (int_le 4 m) = m" "mantissa_width m = 3 \<Longrightarrow> le_int 8 (int_le 8 m) = m" "le_int 12 (int_le 12 m) = m"
    using assms by (auto intro!: le_int_int_le simp: mantissa_width_def split: if_splits)
  moreover have "mantissa_width m \<in> {0, 1, 2, 3, 4}" by (simp add: mantissa_width_def)
  ultimately show ?thesis using that by auto
qed

lemma scale_cases:
  assumes "scale < (256 :: u32)"
  obtains "scale = 0" | "scale = 1" | "scale = 2"
    | "\<not> scale \<le> 2" "decimal_tags scale = ([0x12, 0x13, 0x14, 0x15, 0x16], [ucast scale])" "ucast (ucast scale :: u8) = scale"
proof -
  have "ucast (ucast scale :: u8) = scale"
    using assms by (simp add: word_less_nat_alt word_unat_eq_iff unsigned_ucast_eq take_bit_eq_mod unat_mod)
  moreover have "scale = 0 \<or> scale = 1 \<or> scale = 2 \<or> \<not> scale \<le> 2"
    by (auto simp: word_le_nat_alt word_unat_eq_iff)
  moreover have "decimal_tags scale = ([0x12, 0x13, 0x14, 0x15, 0x16], [ucast scale])" if "\<not> scale \<le> 2"
    using that by (auto simp: decimal_tags_def)
  ultimately show ?thesis using that by blast
qed

lemma read_number:
  assumes "number_ok scale m"
  shows "json_size (number_tape scale m @ rest) = Some (length (number_tape scale m))"
    "json_type (number_tape scale m @ rest) = Some JT_Number"
    "get_number D (number_tape scale m @ rest) = Some (Some (rebuild_number D scale m))"
proof -
  have m: "- (2 ^ 95) \<le> m" "m < 2 ^ 95" and s: "scale < 256" and tag: "scale \<le> 2 \<or> mantissa_width m \<noteq> 1"
    using assms by (simp_all add: number_ok_def)
  have all: "json_size (number_tape scale m @ rest) = Some (length (number_tape scale m)) \<and>
    json_type (number_tape scale m @ rest) = Some JT_Number \<and>
    get_number D (number_tape scale m @ rest) = Some (Some (rebuild_number D scale m))"
    using s
  proof (cases rule: scale_cases)
    case 1
    show ?thesis using m by (cases rule: mantissa_cases)
      (simp_all add: 1 number_tape_def decimal_tags_def json_size_def json_type_def get_number_def read_mantissa_def split_at_def rebuild_number_def sign_extend_12)
  next
    case 2
    show ?thesis using m by (cases rule: mantissa_cases)
      (simp_all add: 2 number_tape_def decimal_tags_def json_size_def json_type_def get_number_def read_mantissa_def split_at_def rebuild_number_def sign_extend_12)
  next
    case 3
    show ?thesis using m by (cases rule: mantissa_cases)
      (simp_all add: 3 number_tape_def decimal_tags_def json_size_def json_type_def get_number_def read_mantissa_def split_at_def rebuild_number_def sign_extend_12)
  next
    case 4
    then have "mantissa_width m \<noteq> 1" using tag by simp
    with m show ?thesis by (cases rule: mantissa_cases)
      (simp_all add: 4(2,3) number_tape_def json_size_def json_type_def get_number_def read_mantissa_def split_at_def rebuild_number_def sign_extend_12)
  qed
  then show "json_size (number_tape scale m @ rest) = Some (length (number_tape scale m))"
    "json_type (number_tape scale m @ rest) = Some JT_Number"
    "get_number D (number_tape scale m @ rest) = Some (Some (rebuild_number D scale m))" by simp_all
qed

lemma varlen_Nil [simp]: "varlen tag [] = [tag]"
  by (simp add: varlen_def)

lemma varlen_head:
  assumes "body \<noteq> []"
  obtains xs where "varlen tag body = (tag + 1) # xs" | xs where "varlen tag body = (tag + 2) # xs"
    | xs where "varlen tag body = (tag + 3) # xs"
  using assms by (cases "length body \<le> 255"; cases "length body \<le> 65535") (auto simp: varlen_def Let_def)

lemma read_string:
  assumes "length body < 2 ^ 32"
  shows "json_size (varlen 0x17 body @ rest) = Some (length (varlen 0x17 body))"
    "json_type (varlen 0x17 body @ rest) = Some JT_String" "get_string (varlen 0x17 body) = Some (Some body)"
proof -
  have "json_size (varlen 0x17 body @ rest) = Some (length (varlen 0x17 body)) \<and>
    json_type (varlen 0x17 body @ rest) = Some JT_String \<and> get_string (varlen 0x17 body) = Some (Some body)"
  proof (cases "body = []")
    case True
    then show ?thesis by (simp add: json_size_def json_type_def get_string_def)
  next
    case False
    note r = read_varlen_varlen [OF False assms, of "0x17", simplified]
    from r [of rest] r [of "[]"] show ?thesis
      by (cases rule: varlen_head [OF False, of "0x17"]) (auto simp: json_size_def json_type_def get_string_def)
  qed
  then show "json_size (varlen 0x17 body @ rest) = Some (length (varlen 0x17 body))"
    "json_type (varlen 0x17 body @ rest) = Some JT_String" "get_string (varlen 0x17 body) = Some (Some body)" by simp_all
qed

lemma read_array:
  assumes "length body < 2 ^ 32"
  shows "json_size (varlen 0x1b body @ rest) = Some (length (varlen 0x1b body))"
    "json_type (varlen 0x1b body @ rest) = Some JT_Array" "iter_array (varlen 0x1b body) = Some (Some body)"
proof -
  have "json_size (varlen 0x1b body @ rest) = Some (length (varlen 0x1b body)) \<and>
    json_type (varlen 0x1b body @ rest) = Some JT_Array \<and> iter_array (varlen 0x1b body) = Some (Some body)"
  proof (cases "body = []")
    case True
    then show ?thesis by (simp add: json_size_def json_type_def iter_array_def)
  next
    case False
    note r = read_varlen_varlen [OF False assms, of "0x1b", simplified]
    from r [of rest] r [of "[]"] show ?thesis
      by (cases rule: varlen_head [OF False, of "0x1b"]) (auto simp: json_size_def json_type_def iter_array_def)
  qed
  then show "json_size (varlen 0x1b body @ rest) = Some (length (varlen 0x1b body))"
    "json_type (varlen 0x1b body @ rest) = Some JT_Array" "iter_array (varlen 0x1b body) = Some (Some body)" by simp_all
qed

lemma read_object:
  assumes "length body < 2 ^ 32"
  shows "json_size (varlen 0x1f body @ rest) = Some (length (varlen 0x1f body))"
    "json_type (varlen 0x1f body @ rest) = Some JT_Object" "iter_object (varlen 0x1f body) = Some (Some body)"
proof -
  have "json_size (varlen 0x1f body @ rest) = Some (length (varlen 0x1f body)) \<and>
    json_type (varlen 0x1f body @ rest) = Some JT_Object \<and> iter_object (varlen 0x1f body) = Some (Some body)"
  proof (cases "body = []")
    case True
    then show ?thesis by (simp add: json_size_def json_type_def iter_object_def)
  next
    case False
    note r = read_varlen_varlen [OF False assms, of "0x1f", simplified]
    from r [of rest] r [of "[]"] show ?thesis
      by (cases rule: varlen_head [OF False, of "0x1f"]) (auto simp: json_size_def json_type_def iter_object_def)
  qed
  then show "json_size (varlen 0x1f body @ rest) = Some (length (varlen 0x1f body))"
    "json_type (varlen 0x1f body @ rest) = Some JT_Object" "iter_object (varlen 0x1f body) = Some (Some body)" by simp_all
qed

lemma number_ok_int: "number_ok 0 (sint (i :: i64))"
  using sint_i64_bounds [of i] by (simp add: number_ok_def)

lemma size_tape: "value_ok D v \<Longrightarrow> json_size (tape D v @ rest) = Some (length (tape D v))"
  by (cases v) (simp_all add: read_number number_ok_int read_string read_array read_object json_size_def [of "_ # _"])

lemma tape_nonempty: "tape D v \<noteq> []" "varlen tag body \<noteq> []"
proof -
  show ne: "varlen tag body \<noteq> []" for tag body by (simp add: varlen_def Let_def)
  show "tape D v \<noteq> []" by (cases v) (simp_all add: number_tape_def ne)
qed

lemma json_iter_next_item:
  "json_size (item @ rest) = Some (length item) \<Longrightarrow> item \<noteq> [] \<Longrightarrow> json_iter_next (item @ rest) = Some (Some (item, rest))"
  by (simp add: json_iter_next_def split_at_def)

lemma json_iter_next_Nil: "json_iter_next [] = Some None"
  by (simp add: json_iter_next_def json_size_def)

lemma json_items_tapes: "(\<forall>v \<in> set vs. value_ok D v) \<Longrightarrow> json_items (concat (map (tape D) vs)) = Some (map (tape D) vs)"
proof (induction vs)
  case (Cons v vs)
  then show ?case using json_iter_next_item [OF size_tape tape_nonempty(1), of D v "concat (map (tape D) vs)"]
    by (subst json_items.simps) simp
qed (simp add: json_items.simps json_iter_next_Nil)

lemma json_entries_tapes:
  "(\<forall>(k, v) \<in> set kvs. length k < 2 ^ 32 \<and> value_ok D v) \<Longrightarrow>
    json_entries (concat (map (\<lambda>(k, v). varlen 0x17 k @ tape D v) kvs)) = Some (map (\<lambda>(k, v). (k, tape D v)) kvs)"
proof (induction kvs)
  case (Cons kv kvs)
  obtain k v where [simp]: "kv = (k, v)" by (cases kv)
  let ?rest = "concat (map (\<lambda>(k, v). varlen 0x17 k @ tape D v) kvs)"
  have "json_iter_next (varlen 0x17 k @ tape D v @ ?rest) = Some (Some (varlen 0x17 k, tape D v @ ?rest))"
    by (rule json_iter_next_item) (use Cons.prems in \<open>simp_all add: read_string tape_nonempty\<close>)
  moreover have "json_iter_next (tape D v @ ?rest) = Some (Some (tape D v, ?rest))"
    by (rule json_iter_next_item) (use Cons.prems in \<open>simp_all add: size_tape tape_nonempty\<close>)
  ultimately have "json_object_iter_next (varlen 0x17 k @ tape D v @ ?rest) = Some (Some ((k, tape D v), ?rest))"
    using Cons.prems by (simp add: json_object_iter_next_def read_string)
  then show ?case using Cons by (subst json_entries.simps) simp
qed (simp add: json_entries.simps json_object_iter_next_def json_iter_next_Nil)

text \<open>The value as it is read back: every number is rebuilt from its mantissa and scale.\<close>

fun read_back :: "('d, 'z) decimal_ops_scheme \<Rightarrow> 'd json_value \<Rightarrow> 'd json_value" where
  "read_back D (JV_Int i) = JV_Number (rebuild_number D 0 (sint i))"
| "read_back D (JV_Number d) = JV_Number (rebuild_number D (d_scale D d) (d_num D d))"
| "read_back D (JV_Array vs) = JV_Array (map (read_back D) vs)"
| "read_back D (JV_Object kvs) = JV_Object (map (\<lambda>(k, v). (k, read_back D v)) kvs)"
| "read_back D v = v"

lemma those_map_Some: "those (map (\<lambda>x. Some (f x)) xs) = Some (map f xs)"
  by (induction xs) auto

lemma serialize_tape: "value_ok D v \<Longrightarrow> serialize D (tape D v) = Some (read_back D v)"
proof (induction v)
  case (JV_Array vs)
  have "map (\<lambda>v. serialize D (tape D v)) vs = map (\<lambda>v. Some (read_back D v)) vs" using JV_Array by simp
  then have "those (map (\<lambda>v. serialize D (tape D v)) vs) = Some (map (read_back D) vs)" by (simp only: those_map_Some)
  then show ?case using JV_Array.prems read_array(2) [of "concat (map (tape D) vs)" "[]"] read_array(3) [of "concat (map (tape D) vs)"]
    by (simp add: serialize.simps [of D "varlen _ _"] json_items_tapes those_map_Some comp_def)
next
  case (JV_Object kvs)
  let ?es = "map (\<lambda>(k, v). (k, tape D v)) kvs"
  let ?body = "concat (map (\<lambda>(k, v). varlen 0x17 k @ tape D v) kvs)"
  have "map (\<lambda>(k, v). map_option (Pair k) (serialize D v)) ?es = map (\<lambda>kv. Some (fst kv, read_back D (snd kv))) kvs"
    using JV_Object by fastforce
  then have those: "those (map (\<lambda>(k, v). map_option (Pair k) (serialize D v)) ?es) = Some (map (\<lambda>kv. (fst kv, read_back D (snd kv))) kvs)"
    by (simp only: those_map_Some)
  have ok: "\<forall>(k, v) \<in> set kvs. length k < 2 ^ 32 \<and> value_ok D v" "length ?body < 2 ^ 32" using JV_Object.prems by simp_all
  show ?case unfolding tape.simps serialize.simps [of D "varlen 0x1f ?body"]
    using read_object(2) [OF ok(2), of "[]"] read_object(3) [OF ok(2)] json_entries_tapes [OF ok(1)] those
    by (simp only: append_Nil2 option.case JsonType.case option.map) (simp add: case_prod_unfold)
next
  case (JV_Int i)
  then show ?case using read_number(2) [OF number_ok_int [of i], where rest = "[]"] read_number(3) [OF number_ok_int [of i], where rest = "[]" and D = D] by (simp add: serialize.simps [of D "number_tape _ _"])
next
  case (JV_Number d)
  then show ?case using read_number(2) [where scale = "d_scale D d" and m = "d_num D d" and rest = "[]"]
      read_number(3) [where scale = "d_scale D d" and m = "d_num D d" and rest = "[]" and D = D] by (simp add: serialize.simps [of D "number_tape _ _"])
next
  case (JV_String s)
  then show ?case using read_string(2) [of s "[]"] read_string(3) [of s] by (simp add: serialize.simps [of D "varlen _ _"])
qed (simp_all add: serialize.simps [of D "_ # _"] json_type_def get_boolean_def)

section \<open>Numbers by value\<close>

text \<open>The documented behaviour of the constructors of the decimal library, for either sign.\<close>

definition decimal_new_laws :: "('d, 'z) decimal_ops_scheme \<Rightarrow> bool" where
  "decimal_new_laws D \<longleftrightarrow>
     (\<forall>n s. s \<le> 28 \<longrightarrow> d_num D (d_new D n s) = sint n \<and> d_scale D (d_new D n s) = s) \<and>
     (\<forall>n s. \<bar>n\<bar> < 2 ^ 96 \<longrightarrow> s \<le> 28 \<longrightarrow>
        d_num D (d_from_i128_with_scale D n s) = n \<and> d_scale D (d_from_i128_with_scale D n s) = s)"

lemma sint_of_int_i64: "- (2 ^ 63) \<le> m \<Longrightarrow> m < 2 ^ 63 \<Longrightarrow> sint (of_int m :: i64) = m"
  by (simp add: signed_of_int signed_take_bit_int_eq_self)

lemma rebuild_number_value:
  assumes "decimal_new_laws D" "s \<le> 28" "- (2 ^ 95) \<le> m" "m < 2 ^ 95"
  shows "d_num D (rebuild_number D s m) = m" "d_scale D (rebuild_number D s m) = s"
proof -
  have "- (2 ^ 63) \<le> m \<and> m < 2 ^ 63" if "mantissa_width m < 4"
    using that by (simp add: mantissa_width_def split: if_splits)
  moreover have "\<bar>m\<bar> < 2 ^ 96" using assms(3,4) by simp
  ultimately show "d_num D (rebuild_number D s m) = m" "d_scale D (rebuild_number D s m) = s"
    using assms(1,2) sint_of_int_i64 [of m] by (simp_all add: rebuild_number_def decimal_new_laws_def)
qed

lemma ref_decimal_new_laws: "decimal_new_laws ref_decimal_ops"
proof -
  have mk: "d_new ref_decimal_ops n s = (sint n < 0, nat \<bar>sint n\<bar>, unat s)" "d_from_i128_with_scale ref_decimal_ops m s = (m < 0, nat \<bar>m\<bar>, unat s)"
    for n s m by (simp_all add: ref_decimal_ops_def)
  have val: "ref_num (m < 0, nat \<bar>m\<bar>, s) = m" if "\<bar>m\<bar> < 2 ^ 96" for m s
  proof -
    have "nat \<bar>m\<bar> < 2 ^ 96" using that by (simp add: nat_less_iff)
    then show ?thesis by simp
  qed
  have "\<bar>sint n\<bar> < 2 ^ 96" for n :: i64 using sint_i64_bounds [of n] by simp
  then show ?thesis
    unfolding decimal_new_laws_def mk ref_num_eq ref_scale_eq by (simp add: val of_nat_unat_min del: ref_num.simps)
qed

text \<open>Two values are the same up to the representation of their numbers.\<close>

fun same_value :: "('d, 'z) decimal_ops_scheme \<Rightarrow> 'd json_value \<Rightarrow> 'd json_value \<Rightarrow> bool" where
  "same_value D (JV_Int i) v \<longleftrightarrow> (\<exists>e. v = JV_Number e \<and> d_num D e = sint i \<and> d_scale D e = 0)"
| "same_value D (JV_Number d) v \<longleftrightarrow> (\<exists>e. v = JV_Number e \<and> d_num D e = d_num D d \<and> d_scale D e = d_scale D d)"
| "same_value D (JV_Array vs) v \<longleftrightarrow> (\<exists>ws. v = JV_Array ws \<and> list_all2 (same_value D) vs ws)"
| "same_value D (JV_Object kvs) v \<longleftrightarrow> (\<exists>kws. v = JV_Object kws \<and> list_all2 (\<lambda>(k, v) (k', w). k = k' \<and> same_value D v w) kvs kws)"
| "same_value D u v \<longleftrightarrow> u = v"

lemma read_back_same:
  assumes laws: "decimal_new_laws D" "\<And>d. d_scale D d \<le> 28"
  shows "value_ok D v \<Longrightarrow> same_value D v (read_back D v)"
proof (induction v)
  case (JV_Int i)
  then show ?case using rebuild_number_value [OF laws(1), of 0 "sint i"] sint_i64_bounds [of i] by simp
next
  case (JV_Number d)
  then show ?case using rebuild_number_value [OF laws(1) laws(2), of "d_num D d" d] by (simp add: number_ok_def)
next
  case (JV_Array vs)
  then show ?case by (simp add: list_all2_conv_all_nth)
next
  case (JV_Object kvs)
  have "\<forall>kv \<in> set kvs. same_value D (snd kv) (read_back D (snd kv))" using JV_Object by fastforce
  then show ?case by (simp add: list_all2_conv_all_nth case_prod_unfold)
qed simp_all

section \<open>Properties\<close>


lemma ref_scale_le: "d_scale ref_decimal_ops d \<le> 28"
  by (cases d) (simp add: ref_scale_eq word_le_nat_alt unat_of_nat)


text \<open>An array that holds a number with a scale above two and a two byte mantissa cannot be read: the
  size of its tag is given as five bytes where the builder writes four, and the slice of the first
  item runs past the end.\<close>

theorem json_size_of_tag_13:
  assumes "2 < d_scale D d" "d_scale D d < 256" "mantissa_width (d_num D d) = 1"
  shows "deserialize D (JV_Array [JV_Number d]) = Some ([0x1c, 4, 0x13, ucast (d_scale D d)] @ int_le 2 (d_num D d)) \<and>
    serialize D ([0x1c, 4, 0x13, ucast (d_scale D d)] @ int_le 2 (d_num D d)) = None"
proof -
  let ?body = "[0x13, ucast (d_scale D d)] @ int_le 2 (d_num D d)"
  have r: "- 32768 \<le> d_num D d" "d_num D d \<le> 32767" using assms(3) by (simp_all add: mantissa_width_def split: if_splits)
  have "d_scale D d \<noteq> 0" "d_scale D d \<noteq> 1" "d_scale D d \<noteq> 2" using assms(1) by auto
  then have t: "number_tape (d_scale D d) (d_num D d) = ?body" using assms(3) by (simp add: number_tape_def decimal_tags_def)
  have "visit_seq D [JV_Number d] b = Some (b @ ?body)" for b using r t by (simp add: push_decimal_eq)
  then have "deserialize D (JV_Array [JV_Number d]) = Some (varlen 0x1b ?body)"
    using push_array_eq(1) [of "visit_seq D [JV_Number d]" ?body "[]"] by (simp add: deserialize_def)
  moreover have v: "varlen 0x1b ?body = [0x1c, 4] @ ?body" by (simp add: varlen_def le_bytes_short)
  moreover have "json_items ?body = None"
    by (simp add: json_items.simps json_iter_next_def json_size_def split_at_def)
  ultimately show ?thesis using read_array(2) [of ?body "[]"] read_array(3) [of ?body]
    by (simp add: serialize.simps [of D "_ # _"])
qed

theorem json_size_of_tag_13_witness:
  "deserialize ref_decimal_ops (JV_Array [JV_Number (False, 1234, 3)]) = Some [0x1c, 4, 0x13, 3, 0xd2, 4] \<and>
    serialize ref_decimal_ops [0x1c, 4, 0x13, 3, 0xd2, 4] = None"
proof -
  have "mantissa_width (d_num ref_decimal_ops (False, 1234, 3)) = 1" "d_scale ref_decimal_ops (False, 1234, 3) = 3"
    "int_le 2 (d_num ref_decimal_ops (False, 1234, 3)) = [0xd2, 4]"
    by (simp_all add: ref_num_eq ref_scale_eq mantissa_width_def int_le_def le_bytes_short)
  then show ?thesis using json_size_of_tag_13 [of ref_decimal_ops "(False, 1234, 3)"] by simp
qed

text \<open>A positive number whose mantissa needs all 96 bits changes its sign: the twelve byte form has no
  room for a sign, and the reader extends the highest bit of the mantissa.\<close>

theorem json_number_sign_lost:
  assumes "2 ^ 95 \<le> d_num D d" "d_num D d < 2 ^ 96" "d_scale D d = 0"
  shows "\<exists>bs. deserialize D (JV_Number d) = Some bs \<and>
    serialize D bs = Some (JV_Number (d_from_i128_with_scale D (d_num D d - 2 ^ 96) 0))"
proof -
  let ?m = "d_num D d"
  have mm: "?m mod 256 ^ 16 = ?m" "?m mod 256 ^ 12 = ?m" using assms by (intro mod_pos_pos_trivial; simp)+
  have "\<not> 256 ^ 16 div 2 \<le> le_val (int_le 16 ?m)" using assms mm(1) by (simp add: le_val_int_le)
  then have "\<not> int_le 16 ?m ! 15 AND 128 = 128" using high_byte [of "int_le 16 ?m" 15] by (simp add: u8_high_bit)
  then have "deserialize D (JV_Number d) = Some ([0x07] @ take 12 (int_le 16 ?m))"
    using assms by (simp add: deserialize_def push_decimal_mantissa push_mantissa_def decimal_tags_def)
  moreover have "take 12 (int_le 16 ?m) = int_le 12 ?m" unfolding int_le_def mm by (rule take_le_bytes) simp
  moreover have "le_int 12 (int_le 12 ?m) = ?m - 2 ^ 96" using assms mm(2) by (simp add: le_int_def le_val_int_le)
  ultimately show ?thesis
    by (simp add: serialize.simps [of D "_ # _"] json_type_def get_number_def read_mantissa_def split_at_def sign_extend_12)
qed

theorem json_number_sign_lost_witness:
  "\<exists>bs. deserialize ref_decimal_ops (JV_Number (False, 2 ^ 95, 0)) = Some bs \<and>
    serialize ref_decimal_ops bs = Some (JV_Number (True, 2 ^ 95, 0))"
proof -
  have "d_num ref_decimal_ops (False, 2 ^ 95, 0) = 2 ^ 95" "d_scale ref_decimal_ops (False, 2 ^ 95, 0) = 0"
    by (simp_all add: ref_num_eq ref_scale_eq)
  moreover have "d_from_i128_with_scale ref_decimal_ops (2 ^ 95 - 2 ^ 96) 0 = (True, 2 ^ 95, 0)" by (simp add: ref_decimal_ops_def)
  ultimately show ?thesis using json_number_sign_lost [of ref_decimal_ops "(False, 2 ^ 95, 0)"] by simp
qed

end
