(* ===== verification/File_Scan.thy ===== *)
theory File_Scan
  imports Executors Json
begin

text \<open>
  The scan of CSV files (\<open>executor/src/point_in_time/file_scan.rs\<close>): the walk over a directory, the records of
  every file as JSON arrays of strings, and the executor that delivers them.  The file system is the tree that the
  walk finds and the CSV reader is a function from a delimiter and a path to records; an error is
  given by its text.  The code opens files as the scan reaches them; the tree is that of the whole scan.
\<close>

section \<open>The walk\<close>

record serde_options =
  delimiter :: u8

text \<open>What a path stands for: a file, a directory that can be listed or not, with an error in place of
  an entry that cannot be read, or neither.\<close>

datatype fs_entry = Fs_File string | Fs_Directory "(string + fs_entry) list" | Fs_Unreadable string | Fs_Other

function file_entries :: "fs_entry \<Rightarrow> (string + string) list"
and listed_files :: "(string + fs_entry) list \<Rightarrow> (string + string) list" where
  "file_entries (Fs_File path) = [Inr path]"
| "file_entries (Fs_Directory listing) = listed_files listing"
| "file_entries (Fs_Unreadable err) = [Inl err]"
| "file_entries Fs_Other = []"
| "listed_files [] = []"
| "listed_files (Inl err # listing) = Inl err # listed_files listing"
| "listed_files (Inr entry # listing) = file_entries entry @ listed_files listing"
  by pat_completeness auto
termination
  by (relation "measure (case_sum size (size_list (size_sum (\<lambda>_. 0) size)))") auto

section \<open>The records\<close>

type_synonym csv_reader = "u8 \<Rightarrow> string \<Rightarrow> string + (string + bytes list) list"

fun push_fields :: "bytes list \<Rightarrow> bytes \<Rightarrow> bytes option" where
  "push_fields [] buf = Some buf"
| "push_fields (col # cols) buf = Option.bind (push_string col buf) (push_fields cols)"

definition csv_line :: "bytes list \<Rightarrow> bytes option" where
  "csv_line cols = push_array (push_fields cols) []"

text \<open>An item of the iterator over lines; \<open>None\<close> is the panic of the builder.\<close>

type_synonym csv_item = "(execution_error + bytes) option"

definition csv_lines :: "csv_reader \<Rightarrow> serde_options \<Rightarrow> string + string \<Rightarrow> csv_item list" where
  "csv_lines csv options entry =
     (case entry of
        Inl err \<Rightarrow> [Some (Inl (IOError err))]
      | Inr path \<Rightarrow>
          (case csv (delimiter options) path of
             Inl err \<Rightarrow> [Some (Inl (DecodingError err))]
           | Inr records \<Rightarrow>
               map (\<lambda>r. case r of Inl err \<Rightarrow> Some (Inl (DecodingError err)) | Inr cols \<Rightarrow> map_option Inr (csv_line cols)) records))"

section \<open>The executor\<close>

record 'd file_scan_executor =
  fs_lines :: "csv_item list"
  fs_tuple :: "'d datum list"
  fs_done :: bool

definition file_scan_new :: "csv_reader \<Rightarrow> fs_entry \<Rightarrow> serde_options \<Rightarrow> 'd file_scan_executor" where
  "file_scan_new csv directory options =
     \<lparr>fs_lines = concat (map (csv_lines csv options) (file_entries directory)), fs_tuple = [D_Null], fs_done = False\<rparr>"

definition file_scan_advance :: "('d file_scan_executor, execution_error) advance" where
  "file_scan_advance self =
     (case fs_lines self of
        [] \<Rightarrow> Some (Inr (self\<lparr>fs_done := True\<rparr>))
      | None # lines \<Rightarrow> None
      | Some (Inl err) # lines \<Rightarrow> Some (Inl err)
      | Some (Inr line) # lines \<Rightarrow> Some (Inr (self\<lparr>fs_lines := lines, fs_tuple := [D_ByteAOwned line]\<rparr>)))"

definition file_scan_get :: "('d file_scan_executor, 'd) getter" where
  "file_scan_get self = (if fs_done self then None else Some (fs_tuple self, 1))"

section \<open>The rows of a scan\<close>

text \<open>The records of a tree in the order of the walk, an error where the scan meets one.\<close>

definition file_records :: "csv_reader \<Rightarrow> u8 \<Rightarrow> string + string \<Rightarrow> (execution_error + bytes list) list" where
  "file_records csv delim entry =
     (case entry of
        Inl err \<Rightarrow> [Inl (IOError err)]
      | Inr path \<Rightarrow> (case csv delim path of Inl err \<Rightarrow> [Inl (DecodingError err)] | Inr records \<Rightarrow> map (map_sum DecodingError id) records))"

definition scanned :: "csv_reader \<Rightarrow> fs_entry \<Rightarrow> serde_options \<Rightarrow> (execution_error + bytes list) list" where
  "scanned csv directory options = concat (map (file_records csv (delimiter options)) (file_entries directory))"

definition record_value :: "bytes list \<Rightarrow> 'd json_value" where
  "record_value cols = JV_Array (map JV_String cols)"

definition record_row :: "('d, 'z) decimal_ops_scheme \<Rightarrow> bytes list \<Rightarrow> 'd row" where
  "record_row D cols = ([D_ByteAOwned (tape D (record_value cols))], 1)"

lemma push_fields_visit: "push_fields cols buf = visit_seq D (map JV_String cols) buf"
  by (induction cols arbitrary: buf) (auto split: Option.bind_split)

lemma csv_line_deserialize: "csv_line cols = deserialize D (record_value cols)"
proof -
  have "push_fields cols = visit_seq D (map JV_String cols)" by (rule ext) (rule push_fields_visit)
  then show ?thesis by (simp add: csv_line_def deserialize_def record_value_def)
qed

lemma csv_line_tape: "value_ok D (record_value cols) \<Longrightarrow> csv_line cols = Some (tape D (record_value cols))"
  by (simp add: csv_line_deserialize [of cols D] deserialize_def visit_eq(1))

definition scan_item :: "execution_error + bytes list \<Rightarrow> csv_item" where
  "scan_item r = (case r of Inl e \<Rightarrow> Some (Inl e) | Inr cols \<Rightarrow> map_option Inr (csv_line cols))"

lemma file_scan_lines: "fs_lines (file_scan_new csv directory options) = map scan_item (scanned csv directory options)"
proof -
  have "csv_lines csv options entry = map scan_item (file_records csv (delimiter options) entry)" for entry
    by (auto simp: csv_lines_def file_records_def scan_item_def split: sum.split)
  then have "csv_lines csv options = map scan_item \<circ> file_records csv (delimiter options)" by (simp add: fun_eq_iff)
  then show ?thesis by (simp add: file_scan_new_def scanned_def map_concat)
qed

lemma file_scan_from:
  assumes "\<forall>cols \<in> set records. value_ok D (record_value cols)"
  shows "yields file_scan_advance file_scan_get \<lparr>fs_lines = map (scan_item \<circ> Inr) records, fs_tuple = tuple, fs_done = False\<rparr> (map (record_row D) records)"
  using assms
proof (induction records arbitrary: tuple)
  case (Cons cols records)
  then show ?case
    by (simp add: yields_Cons_iff file_scan_advance_def file_scan_get_def scan_item_def csv_line_tape [of D] record_row_def)
qed (simp add: yields_Nil_iff file_scan_advance_def file_scan_get_def)

lemma file_scan_yields:
  fixes D :: "('d, 'z) decimal_ops_scheme"
  assumes "scanned csv directory options = map Inr records" "\<forall>cols \<in> set records. value_ok D (record_value cols)"
  shows "yields file_scan_advance file_scan_get (file_scan_new csv directory options) (map (record_row D) records)"
proof -
  have "(file_scan_new csv directory options :: 'd file_scan_executor) = \<lparr>fs_lines = map (scan_item \<circ> Inr) records, fs_tuple = [D_Null], fs_done = False\<rparr>"
    using file_scan_lines [of csv directory options, where 'a = 'd] assms(1) by (simp add: file_scan_new_def)
  then show ?thesis using file_scan_from [OF assms(2)] by simp
qed

text \<open>A scan that meets an error delivers the records before it and then reports it.\<close>

inductive fails :: "('s, 'e) advance \<Rightarrow> ('s, 'd) getter \<Rightarrow> 's \<Rightarrow> 'd row list \<Rightarrow> 'e \<Rightarrow> bool" for advance get where
  fails_now: "advance s = Some (Inl e) \<Longrightarrow> fails advance get s [] e"
| fails_row: "advance s = Some (Inr s') \<Longrightarrow> get s' = Some r \<Longrightarrow> fails advance get s' rs e \<Longrightarrow> fails advance get s (r # rs) e"

lemma file_scan_fails_from:
  assumes "\<forall>cols \<in> set records. value_ok D (record_value cols)"
  shows "fails file_scan_advance file_scan_get
    \<lparr>fs_lines = map (scan_item \<circ> Inr) records @ scan_item (Inl e) # lines, fs_tuple = tuple, fs_done = False\<rparr> (map (record_row D) records) e"
  using assms
proof (induction records arbitrary: tuple)
  case Nil
  then show ?case by (simp add: fails_now file_scan_advance_def scan_item_def)
next
  case (Cons cols records)
  let ?s = "\<lparr>fs_lines = map (scan_item \<circ> Inr) records @ scan_item (Inl e) # lines, fs_tuple = [D_ByteAOwned (tape D (record_value cols))], fs_done = False\<rparr>"
  have advanced: "file_scan_advance \<lparr>fs_lines = map (scan_item \<circ> Inr) (cols # records) @ scan_item (Inl e) # lines, fs_tuple = tuple, fs_done = False\<rparr> = Some (Inr ?s)"
    using Cons.prems by (simp add: file_scan_advance_def scan_item_def csv_line_tape [of D])
  have got: "file_scan_get ?s = Some (record_row D cols)" by (simp add: file_scan_get_def record_row_def)
  have "fails file_scan_advance file_scan_get ?s (map (record_row D) records) e" by (rule Cons.IH) (use Cons.prems in auto)
  from fails_row [of file_scan_advance, OF advanced got this] show ?case by (simp add: comp_def)
qed

lemma file_scan_error:
  fixes D :: "('d, 'z) decimal_ops_scheme"
  assumes "scanned csv directory options = map Inr records @ Inl e # rest" "\<forall>cols \<in> set records. value_ok D (record_value cols)"
  shows "fails file_scan_advance file_scan_get (file_scan_new csv directory options) (map (record_row D) records) e"
proof -
  have "(file_scan_new csv directory options :: 'd file_scan_executor) =
      \<lparr>fs_lines = map (scan_item \<circ> Inr) records @ scan_item (Inl e) # map scan_item rest, fs_tuple = [D_Null], fs_done = False\<rparr>"
    using file_scan_lines [of csv directory options, where 'a = 'd] assms(1) by (simp add: file_scan_new_def)
  then show ?thesis using file_scan_fails_from [OF assms(2)] by simp
qed

text \<open>A directory with one file of one record and a file that the reader cannot open.\<close>

lemma file_scan_example:
  "fails file_scan_advance file_scan_get
     (file_scan_new (\<lambda>_ path. if path = ''a.csv'' then Inr [Inr [[49], [97, 98]]] else Inl ''denied'')
       (Fs_Directory [Inr (Fs_File ''a.csv''), Inr (Fs_Directory [Inr (Fs_File ''b.csv'')])]) \<lparr>delimiter = 44\<rparr>)
     [([D_ByteAOwned [0x1c, 7, 0x18, 1, 49, 0x18, 2, 97, 98]], 1) :: unit row] (DecodingError ''denied'')"
  by (rule fails_row) (auto simp: file_scan_new_def csv_lines_def csv_line_def push_array_def push_string_def patch_varlen_def Let_def le_bytes_def
    file_scan_advance_def file_scan_get_def intro!: fails_now)

end
