(* ===== verification/Plan.thy ===== *)
theory Plan
  imports Group_Executors Hash_Join Table_Insert File_Scan
begin

text \<open>
  Physical plans (\<open>ast/src/rel/point_in_time.rs\<close>) and the executor built from one
  (\<open>build_executor\<close> in \<open>executor/src/point_in_time/mod.rs\<close>).  A boxed executor is the codatatype of
  an object with the two methods \<open>get\<close> and \<open>advance\<close>.  The relation \<open>plan_out\<close> is the relational
  algebra reading of a plan; a plan whose expressions can be evaluated is executed according to it.
\<close>

section \<open>Boxed executors\<close>

codatatype 'd boxed = Boxed (b_get: "'d row option") (b_advance: "(execution_error + 'd boxed) option")

primcorec box :: "('s, execution_error) advance \<Rightarrow> ('s, 'd) getter \<Rightarrow> 's \<Rightarrow> 'd boxed" where
  "b_get (box advance get s) = get s"
| "b_advance (box advance get s) = map_option (map_sum id (box advance get)) (advance s)"

lemma box_yields: "yields advance get s rs \<Longrightarrow> yields b_advance b_get (box advance get s) rs"
  by (induction rule: yields.induct) (auto simp: yields_Nil_iff yields_Cons_iff)

section \<open>Plans\<close>

text \<open>An insert stands at the root of a plan only, and has its own type.\<close>

datatype 'd point_in_time_operator =
    PIT_Single
  | PIT_Project "'d expression list" "'d point_in_time_operator"
  | PIT_Values "'d datum list list" nat
  | PIT_Filter "'d expression" "'d point_in_time_operator"
  | PIT_Limit i64 i64 "'d point_in_time_operator"
  | PIT_Sort "'d sort_expression list" "'d point_in_time_operator"
  | PIT_UnionAll "'d point_in_time_operator list"
  | PIT_TableScan table u64
  | PIT_NegateFreq "'d point_in_time_operator"
  | PIT_SortedGroup "'d point_in_time_operator" "'d expression list" nat
  | PIT_HashGroup "'d point_in_time_operator" "'d expression list" nat
  | PIT_HashJoin "'d point_in_time_operator" "'d point_in_time_operator" nat "'d expression" join_type
  | PIT_FileScan string serde_options

datatype 'd point_in_time_root = PIT_Query "'d point_in_time_operator" | PIT_TableInsert table "'d point_in_time_operator"

text \<open>What the executors are given from outside: the decimal library, the storage engine, the JSON path
  grammar, the hasher, the iteration order of hash maps, the file system and the CSV reader.\<close>

record ('d, 'db, 'it, 'h) exec_env =
  x_decimal :: "'d decimal_ops"
  x_rocks :: "('db, 'it) rocks_ops"
  x_path :: "bytes \<Rightarrow> json_path_selector list option"
  x_finish :: "'h hash_write list \<Rightarrow> u64"
  x_hash :: "'d \<Rightarrow> 'h"
  x_iteration :: "(bytes \<times> 'd datum list) list \<Rightarrow> (bytes \<times> 'd datum list) list"
  x_files :: "string \<Rightarrow> fs_entry"
  x_csv :: csv_reader

text \<open>\<open>column_count\<close> of the executor of a plan.\<close>

fun column_count :: "'d point_in_time_operator \<Rightarrow> nat" where
  "column_count PIT_Single = 0"
| "column_count (PIT_Project expressions source) = length expressions"
| "column_count (PIT_Values data n) = n"
| "column_count (PIT_Filter predicate source) = column_count source"
| "column_count (PIT_Limit offset limit source) = column_count source"
| "column_count (PIT_Sort sort_expressions source) = column_count source"
| "column_count (PIT_UnionAll sources) = (case sources of [] \<Rightarrow> 0 | source # _ \<Rightarrow> column_count source)"
| "column_count (PIT_TableScan table timestamp) = t_length table"
| "column_count (PIT_NegateFreq source) = column_count source"
| "column_count (PIT_SortedGroup source expressions key_len) = length expressions"
| "column_count (PIT_HashGroup source expressions key_len) = length expressions"
| "column_count (PIT_HashJoin left right key_len condition join_type) = column_count left + column_count right"
| "column_count (PIT_FileScan directory options) = 1"

fun build_executor ::
  "('d, 'db, 'it, 'h) exec_env \<Rightarrow> session \<Rightarrow> 'db \<Rightarrow> 'd point_in_time_operator \<Rightarrow> 'd boxed option"
and build_executors ::
  "('d, 'db, 'it, 'h) exec_env \<Rightarrow> session \<Rightarrow> 'db \<Rightarrow> 'd point_in_time_operator list \<Rightarrow> 'd boxed list option" where
  "build_executor x session db PIT_Single = Some (box single_advance single_get Single_Ready)"
| "build_executor x session db (PIT_Project expressions source) =
     map_option (\<lambda>source. box (project_advance b_advance b_get) (project_get b_get) (project_new session source expressions))
       (build_executor x session db source)"
| "build_executor x session db (PIT_Filter predicate source) =
     map_option (\<lambda>source. box (filter_advance (x_decimal x) b_advance b_get) (filter_get b_get) (filter_new session source predicate))
       (build_executor x session db source)"
| "build_executor x session db (PIT_Limit offset limit source) =
     map_option (\<lambda>source. box (limit_advance b_advance b_get) (limit_get b_get) (limit_new source offset limit))
       (build_executor x session db source)"
| "build_executor x session db (PIT_Sort sort_expressions source) =
     map_option (\<lambda>s. box (sort_advance (x_decimal x) (x_path x) b_advance b_get) sort_get
         (sort_new session s (column_count source) sort_expressions))
       (build_executor x session db source)"
| "build_executor x session db (PIT_Values data n) = Some (box values_advance values_get (values_new data n))"
| "build_executor x session db (PIT_UnionAll sources) =
     Option.bind (build_executors x session db sources) (\<lambda>sources.
     map_option (box (union_all_advance b_advance b_get) (union_all_get b_get)) (union_all_new sources))"
| "build_executor x session db (PIT_TableScan table timestamp) =
     map_option (box (table_scan_advance (x_rocks x) (x_decimal x) (x_path x)) table_scan_get)
       (table_scan_new (x_rocks x) (x_decimal x) db table timestamp)"
| "build_executor x session db (PIT_NegateFreq source) =
     map_option (box (negate_advance b_advance) (negate_get b_get)) (build_executor x session db source)"
| "build_executor x session db (PIT_SortedGroup source expressions key_len) =
     Option.bind (build_executor x session db source) (\<lambda>source.
     map_option (box (sorted_group_advance (x_finish x) (x_hash x) b_advance b_get) sorted_group_get)
       (sorted_group_new source session key_len expressions))"
| "build_executor x session db (PIT_HashGroup source expressions key_len) =
     Option.bind (build_executor x session db source) (\<lambda>source.
     map_option (box (hash_group_advance (x_decimal x) (x_iteration x) b_advance b_get) hash_group_get)
       (hash_group_new source session key_len expressions))"
| "build_executor x session db (PIT_FileScan directory options) =
     Some (box file_scan_advance file_scan_get (file_scan_new (x_csv x) (x_files x directory) options))"
| "build_executor x session db (PIT_HashJoin left right key_len condition join_type) =
     Option.bind (build_executor x session db left) (\<lambda>l.
     map_option (\<lambda>r. box (hash_join_advance (x_decimal x) b_advance b_get (column_count left) b_advance b_get) hash_join_get
         (hash_join_new l (column_count left) r (column_count right) key_len condition join_type session))
       (build_executor x session db right))"
| "build_executors x session db [] = Some []"
| "build_executors x session db (source # sources) =
     Option.bind (build_executor x session db source) (\<lambda>s. map_option (Cons s) (build_executors x session db sources))"

text \<open>The root of a plan.\<close>

datatype ('d, 'db) root_executor = Rows "'d boxed" | Inserts "('d boxed, 'db) table_insert_executor"

fun build_root ::
  "('d, 'db, 'it, 'h) exec_env \<Rightarrow> session \<Rightarrow> 'db \<Rightarrow> nat \<Rightarrow> 'd point_in_time_root \<Rightarrow> ('d, 'db) root_executor option" where
  "build_root x session db ticks (PIT_Query plan) = map_option Rows (build_executor x session db plan)"
| "build_root x session db ticks (PIT_TableInsert table source) =
     map_option (\<lambda>s. Inserts (table_insert_new s table db ticks)) (build_executor x session db source)"

section \<open>The relational reading of a plan\<close>

text \<open>Sorting: the same rows, up to the equality of datums, no row before one with smaller keys.\<close>

definition sorted_rows :: "('d, 'z) decimal_ops_scheme \<Rightarrow> session \<Rightarrow> 'd sort_expression list \<Rightarrow> 'd row list \<Rightarrow> 'd row list \<Rightarrow> bool" where
  "sorted_rows D session es rs out \<longleftrightarrow> (\<exists>perm. rows_match D out perm \<and> mset perm = mset rs \<and>
     sorted_wrt (\<lambda>a b. \<not> tuple_before (datum_less D) (datum_eq D) (sort_orders es)
       (sort_keys session es (fst b)) (sort_keys session es (fst a)) False) perm)"

text \<open>One row per key, in any order.\<close>

definition grouped_rows :: "('d, 'z) decimal_ops_scheme \<Rightarrow> session \<Rightarrow> nat \<Rightarrow> 'd expression list \<Rightarrow> 'd row list \<Rightarrow> 'd row list \<Rightarrow> bool" where
  "grouped_rows D session n es rs out \<longleftrightarrow>
     mset out = image_mset (\<lambda>k. group_out session (the (aexprs_from es)) (filter (\<lambda>r. row_key D n r = k) rs)) (mset_set (row_key D n ` set rs))"

text \<open>The tables are given by the writes they hold.\<close>

type_synonym 'd tables = "table \<Rightarrow> ('d datum list \<times> u64 \<times> i64) list"

fun plan_out :: "('d, 'db, 'it, 'h) exec_env \<Rightarrow> session \<Rightarrow> 'd tables \<Rightarrow> 'd point_in_time_operator \<Rightarrow> 'd row list \<Rightarrow> bool"
and plans_out :: "('d, 'db, 'it, 'h) exec_env \<Rightarrow> session \<Rightarrow> 'd tables \<Rightarrow> 'd point_in_time_operator list \<Rightarrow> 'd row list list \<Rightarrow> bool" where
  "plan_out x session tables PIT_Single out \<longleftrightarrow> out = [([], 1)]"
| "plan_out x session tables (PIT_Project es source) out \<longleftrightarrow>
     (\<exists>rs. plan_out x session tables source rs \<and> out = map (apfst (\<lambda>t. the (eval_all session es t))) rs)"
| "plan_out x session tables (PIT_Values data n) out \<longleftrightarrow> out = map (\<lambda>row. (row, 1)) data"
| "plan_out x session tables (PIT_Filter p source) out \<longleftrightarrow>
     (\<exists>rs. plan_out x session tables source rs \<and> out = filter (\<lambda>r. satisfies session p (fst r)) rs)"
| "plan_out x session tables (PIT_Limit offset limit source) out \<longleftrightarrow>
     (\<exists>rs. plan_out x session tables source rs \<and>
       expand_rows out = take (nat (sint limit)) (drop (nat (sint offset)) (expand_rows rs)))"
| "plan_out x session tables (PIT_Sort es source) out \<longleftrightarrow>
     (\<exists>rs. plan_out x session tables source rs \<and> sorted_rows (x_decimal x) session es rs out)"
| "plan_out x session tables (PIT_UnionAll sources) out \<longleftrightarrow> (\<exists>rss. plans_out x session tables sources rss \<and> out = concat rss)"
| "plan_out x session tables (PIT_TableScan table timestamp) out \<longleftrightarrow>
     rows_match (x_decimal x) out (snapshot (x_decimal x) table timestamp (tables table))"
| "plan_out x session tables (PIT_NegateFreq source) out \<longleftrightarrow>
     (\<exists>rs. plan_out x session tables source rs \<and> out = map (apsnd uminus) rs)"
| "plan_out x session tables (PIT_SortedGroup source es n) out \<longleftrightarrow>
     (\<exists>rs. plan_out x session tables source rs \<and> out = map (group_out session (the (aexprs_from es)))
       (if n = 0 then [rs] else group_runs (row_hash (x_finish x) (x_hash x) n) rs))"
| "plan_out x session tables (PIT_HashGroup source es n) out \<longleftrightarrow>
     (\<exists>rs. plan_out x session tables source rs \<and> grouped_rows (x_decimal x) session n es rs out)"
| "plan_out x session tables (PIT_HashJoin left right k condition join_type) out \<longleftrightarrow>
     (\<exists>ls rs. plan_out x session tables left ls \<and> plan_out x session tables right rs \<and>
       out = concat (map (join_row (x_decimal x) session condition join_type (column_count right) k rs) ls))"
| "plan_out x session tables (PIT_FileScan directory options) out \<longleftrightarrow>
     (\<exists>records. scanned (x_csv x) (x_files x directory) options = map Inr records \<and> out = map (record_row (x_decimal x)) records)"
| "plans_out x session tables [] rss \<longleftrightarrow> rss = []"
| "plans_out x session tables (source # sources) rss \<longleftrightarrow>
     (\<exists>rs rss'. rss = rs # rss' \<and> plan_out x session tables source rs \<and> plans_out x session tables sources rss')"

text \<open>What a plan needs of the rows it works on, operator by operator: expressions that can be
  evaluated, sort and group keys in the range of the encoding, an offset that does not end within
  a row, tables that hold their writes.\<close>

definition aggregates_ok :: "'d expression list \<Rightarrow> bool" where
  "aggregates_ok es \<longleftrightarrow> (\<exists>as. aexprs_from es = Some as \<and> list_all aexpr_ok as)"

definition sort_input_ok :: "('d, 'db, 'it, 'h) exec_env \<Rightarrow> session \<Rightarrow> 'd sort_expression list \<Rightarrow> nat \<Rightarrow> 'd row list \<Rightarrow> bool" where
  "sort_input_ok x session es n rs \<longleftrightarrow> (\<forall>r \<in> set rs. sortable_row (x_decimal x) (x_path x) session es n r) \<and>
     length (concat (map (sort_record (x_decimal x) session es) rs)) < 2 ^ 32"

definition limit_input_ok :: "i64 \<Rightarrow> 'd row list \<Rightarrow> bool" where
  "limit_input_ok offset rs \<longleftrightarrow> positive_rows rs \<and>
     (\<exists>skipped rest. rs = skipped @ rest \<and> sint offset = (\<Sum>r \<leftarrow> skipped. sint (snd r)))"

definition sorted_group_input_ok :: "('d, 'db, 'it, 'h) exec_env \<Rightarrow> session \<Rightarrow> 'd expression list \<Rightarrow> nat \<Rightarrow> 'd row list \<Rightarrow> bool" where
  "sorted_group_input_ok x session es n rs \<longleftrightarrow> (\<forall>r \<in> set rs. n \<le> length (fst r)) \<and>
     (\<forall>g \<in> set (if n = 0 then [rs] else group_runs (row_hash (x_finish x) (x_hash x) n) rs). arow_result session (the (aexprs_from es)) g \<noteq> None)"

definition hash_group_input_ok :: "('d, 'db, 'it, 'h) exec_env \<Rightarrow> session \<Rightarrow> 'd expression list \<Rightarrow> nat \<Rightarrow> 'd row list \<Rightarrow> bool" where
  "hash_group_input_ok x session es n rs \<longleftrightarrow> (\<forall>r \<in> set rs. groupable_row (x_decimal x) (x_path x) n r) \<and>
     (\<forall>k \<in> row_key (x_decimal x) n ` set rs. arow_result session (the (aexprs_from es)) (filter (\<lambda>r. row_key (x_decimal x) n r = k) rs) \<noteq> None)"

fun plan_ok ::
  "('d, 'db, 'it, 'h) exec_env \<Rightarrow> session \<Rightarrow> (bytes \<rightharpoonup> bytes) \<Rightarrow> 'd tables \<Rightarrow> 'd point_in_time_operator \<Rightarrow> bool" where
  "plan_ok x session m tables PIT_Single \<longleftrightarrow> True"
| "plan_ok x session m tables (PIT_Project es source) \<longleftrightarrow> plan_ok x session m tables source \<and>
     (\<forall>rs. plan_out x session tables source rs \<longrightarrow> (\<forall>r \<in> set rs. eval_all session es (fst r) \<noteq> None))"
| "plan_ok x session m tables (PIT_Values data n) \<longleftrightarrow> True"
| "plan_ok x session m tables (PIT_Filter p source) \<longleftrightarrow> plan_ok x session m tables source \<and>
     (\<forall>rs. plan_out x session tables source rs \<longrightarrow> (\<forall>r \<in> set rs. eval_scalar session (fst r) p \<noteq> None))"
| "plan_ok x session m tables (PIT_Limit offset limit source) \<longleftrightarrow> plan_ok x session m tables source \<and>
     (\<forall>rs. plan_out x session tables source rs \<longrightarrow> limit_input_ok offset rs)"
| "plan_ok x session m tables (PIT_Sort es source) \<longleftrightarrow> plan_ok x session m tables source \<and>
     (\<forall>rs. plan_out x session tables source rs \<longrightarrow> sort_input_ok x session es (column_count source) rs)"
| "plan_ok x session m tables (PIT_UnionAll sources) \<longleftrightarrow> sources \<noteq> [] \<and> (\<forall>source \<in> set sources. plan_ok x session m tables source)"
| "plan_ok x session m tables (PIT_TableScan table timestamp) \<longleftrightarrow>
     wf_table table \<and> table_holds (x_decimal x) (x_path x) table m (tables table)"
| "plan_ok x session m tables (PIT_NegateFreq source) \<longleftrightarrow> plan_ok x session m tables source"
| "plan_ok x session m tables (PIT_SortedGroup source es n) \<longleftrightarrow> plan_ok x session m tables source \<and> aggregates_ok es \<and>
     (\<forall>rs. plan_out x session tables source rs \<longrightarrow> sorted_group_input_ok x session es n rs)"
| "plan_ok x session m tables (PIT_HashGroup source es n) \<longleftrightarrow> plan_ok x session m tables source \<and> aggregates_ok es \<and>
     (\<forall>rs. plan_out x session tables source rs \<longrightarrow> hash_group_input_ok x session es n rs)"
| "plan_ok x session m tables (PIT_HashJoin left right k condition join_type) \<longleftrightarrow>
     plan_ok x session m tables left \<and> plan_ok x session m tables right \<and> k \<le> column_count left \<and> k \<le> column_count right \<and>
     (\<forall>ls rs. plan_out x session tables left ls \<longrightarrow> plan_out x session tables right rs \<longrightarrow>
       (\<forall>r \<in> set rs. k \<le> length (fst r)) \<and>
       (\<forall>l \<in> set ls. join_input_ok (x_decimal x) session condition (column_count left) (column_count right) k rs l))"
| "plan_ok x session m tables (PIT_FileScan directory options) \<longleftrightarrow>
     (\<exists>records. scanned (x_csv x) (x_files x directory) options = map Inr records \<and>
       (\<forall>cols \<in> set records. value_ok (x_decimal x) (record_value cols)))"

section \<open>Executing a plan\<close>

definition executes ::
  "('d, 'db, 'it, 'h) exec_env \<Rightarrow> session \<Rightarrow> 'db \<Rightarrow> 'd tables \<Rightarrow> 'd point_in_time_operator \<Rightarrow> bool" where
  "executes x session db tables plan \<longleftrightarrow>
     (\<exists>ex out. build_executor x session db plan = Some ex \<and> yields b_advance b_get ex out \<and> plan_out x session tables plan out)"

lemma executesE:
  assumes "executes x session db tables plan"
  obtains ex out where "build_executor x session db plan = Some ex" "yields b_advance b_get ex out" "plan_out x session tables plan out"
  using assms by (auto simp: executes_def)

lemma executes_boxed:
  "build_executor x session db plan = Some (box advance get s) \<Longrightarrow> yields advance get s out \<Longrightarrow> plan_out x session tables plan out \<Longrightarrow>
    executes x session db tables plan"
  using box_yields [of advance get s out] by (auto simp: executes_def)

lemma executes_limit:
  assumes "executes x session db tables source" "plan_ok x session m tables (PIT_Limit offset limit source)"
  shows "executes x session db tables (PIT_Limit offset limit source)"
proof -
  obtain ex rs where ex: "build_executor x session db source = Some ex" "yields b_advance b_get ex rs" "plan_out x session tables source rs"
    using assms(1) by (rule executesE)
  then obtain skipped rest where rs: "rs = skipped @ rest" "positive_rows rs" "sint offset = (\<Sum>r \<leftarrow> skipped. sint (snd r))"
    using assms(2) by (auto simp: limit_input_ok_def)
  have "yields (limit_advance b_advance b_get) (limit_get b_get) (limit_new ex offset limit) (take_rows limit rest)"
    unfolding limit_new_def by (rule skip_rows_yields) (use ex rs in auto)
  moreover have "expand_rows (take_rows limit rest) = take (nat (sint limit)) (drop (nat (sint offset)) (expand_rows rs))"
    using take_rows_expand [of rest limit] skip_rows_expand [of skipped rest] rs by simp
  ultimately show ?thesis using ex by (intro executes_boxed) auto
qed

lemma executes_sort:
  assumes "executes x session db tables source" "plan_ok x session m tables (PIT_Sort es source)"
  shows "executes x session db tables (PIT_Sort es source)"
proof -
  obtain ex rs where ex: "build_executor x session db source = Some ex" "yields b_advance b_get ex rs" "plan_out x session tables source rs"
    using assms(1) by (rule executesE)
  have ok: "\<forall>r \<in> set rs. sortable_row (x_decimal x) (x_path x) session es (column_count source) r"
    "length (concat (map (sort_record (x_decimal x) session es) rs)) < 2 ^ 32"
    using assms(2) ex(3) unfolding plan_ok.simps sort_input_ok_def by blast+
  obtain out where "yields (sort_advance (x_decimal x) (x_path x) b_advance b_get) sort_get (sort_new session ex (column_count source) es) out"
    "sorted_rows (x_decimal x) session es rs out"
    using sort_yields [OF ex(2) ok] unfolding sorted_rows_def by blast
  then show ?thesis using ex by (intro executes_boxed) auto
qed

lemma executes_table_scan:
  assumes rocks: "rocks_laws (x_rocks x) contents rest" and laws: "decimal_laws (x_decimal x)"
    and "plan_ok x session (contents db) tables (PIT_TableScan t ts)"
  shows "executes x session db tables (PIT_TableScan t ts)"
proof -
  have "wf_table t" "list_all (valid_write (x_decimal x) (x_path x) t) (tables t)" "sorted_wrt (\<le>) (map (fst \<circ> snd) (tables t))"
    "table_repr (x_decimal x) (x_path x) t (contents db) (history_after (x_decimal x) t (tables t))"
    using assms(3) by (simp_all add: table_holds_def)
  from full_scan_history [OF this(1) rocks laws this(2-), of ts] show ?thesis
    by (auto simp: table_scan_new_def intro!: executes_boxed table_scan_yields)
qed

lemma executes_sorted_group:
  assumes "executes x session db tables source" "plan_ok x session m tables (PIT_SortedGroup source es n)"
  shows "executes x session db tables (PIT_SortedGroup source es n)"
proof -
  obtain ex rs where ex: "build_executor x session db source = Some ex" "yields b_advance b_get ex rs" "plan_out x session tables source rs"
    using assms(1) by (rule executesE)
  obtain as where as: "aexprs_from es = Some as" "list_all aexpr_ok as" using assms(2) by (auto simp: aggregates_ok_def)
  have ok: "sorted_group_input_ok x session es n rs" using assms(2) ex(3) by simp
  let ?out = "map (group_out session as) (if n = 0 then [rs] else group_runs (row_hash (x_finish x) (x_hash x) n) rs)"
  have "\<exists>self. sorted_group_new ex session n es = Some self \<and>
      yields (sorted_group_advance (x_finish x) (x_hash x) b_advance b_get) sorted_group_get self ?out"
    using global_group_yields [OF as ex(2), where session = session and finish = "x_finish x" and dh = "x_hash x"]
      sorted_group_yields [OF as _ ex(2), where session = session and finish = "x_finish x" and dh = "x_hash x"] ok as(1)
    by (cases "n = 0") (auto simp: sorted_group_input_ok_def group_out_def)
  then show ?thesis using ex as(1) by (auto intro!: executes_boxed)
qed

lemma executes_hash_group:
  assumes "executes x session db tables source" "plan_ok x session m tables (PIT_HashGroup source es n)"
    and "\<And>l. mset (x_iteration x l) = mset l"
  shows "executes x session db tables (PIT_HashGroup source es n)"
proof -
  obtain ex rs where ex: "build_executor x session db source = Some ex" "yields b_advance b_get ex rs" "plan_out x session tables source rs"
    using assms(1) by (rule executesE)
  obtain as where as: "aexprs_from es = Some as" "list_all aexpr_ok as" using assms(2) by (auto simp: aggregates_ok_def)
  have ok: "hash_group_input_ok x session es n rs" using assms(2) ex(3) by simp
  then have "\<forall>r \<in> set rs. group_key (x_decimal x) n (fst r) \<noteq> None"
    by (auto simp: hash_group_input_ok_def group_key_bytes [of _ "x_path x"])
  then obtain self out where "hash_group_new ex session n es = Some self"
    "yields (hash_group_advance (x_decimal x) (x_iteration x) b_advance b_get) hash_group_get self out"
    "grouped_rows (x_decimal x) session n es rs out"
    using hash_group_yields [OF as ex(2) _ _ assms(3), of "x_decimal x" n session] ok as(1)
    by (auto simp: hash_group_input_ok_def grouped_rows_def)
  then show ?thesis using ex by (intro executes_boxed) auto
qed

lemma executes_union:
  assumes "\<forall>source \<in> set sources. executes x session db tables source" "sources \<noteq> []"
  shows "executes x session db tables (PIT_UnionAll sources)"
proof -
  have "\<exists>exs outs. build_executors x session db sources = Some exs \<and> list_all2 (yields b_advance b_get) exs outs \<and> plans_out x session tables sources outs \<and>
      length exs = length sources"
    using assms(1)
  proof (induction sources)
    case (Cons source sources)
    then obtain exs outs where IH: "build_executors x session db sources = Some exs" "list_all2 (yields b_advance b_get) exs outs" "plans_out x session tables sources outs"
      "length exs = length sources" by auto
    obtain ex out where "build_executor x session db source = Some ex" "yields b_advance b_get ex out" "plan_out x session tables source out"
      using Cons.prems executesE [of x session db tables source] by auto
    then show ?case using IH by (intro exI [of _ "ex # exs"] exI [of _ "out # outs"]) simp
  qed simp
  then obtain exs outs where e: "build_executors x session db sources = Some exs" "list_all2 (yields b_advance b_get) exs outs" "plans_out x session tables sources outs"
    "exs \<noteq> []" using assms(2) by (metis length_0_conv)
  from union_all_yields [OF e(2,4)] obtain self where "union_all_new exs = Some self"
    "yields (union_all_advance b_advance b_get) (union_all_get b_get) self (concat outs)" by blast
  then show ?thesis using e by (intro executes_boxed) auto
qed

lemma plan_executes:
  assumes rocks: "rocks_laws (x_rocks x) contents rest" and laws: "decimal_laws (x_decimal x)"
    and iteration: "\<And>l. mset (x_iteration x l) = mset l"
  shows "plan_ok x session (contents db) tables plan \<Longrightarrow> executes x session db tables plan"
proof (induction plan)
  case PIT_Single
  then show ?case by (intro executes_boxed [OF _ single_yields]) auto
next
  case (PIT_Project es source)
  then obtain ex rs where ex: "build_executor x session db source = Some ex" "yields b_advance b_get ex rs" "plan_out x session tables source rs"
    by (auto elim: executesE)
  have ok: "\<forall>r \<in> set rs. eval_all session es (fst r) \<noteq> None" using PIT_Project.prems ex(3) by auto
  show ?case by (rule executes_boxed [OF _ project_yields [OF ex(2) ok]]) (use ex in auto)
next
  case (PIT_Values data n)
  then show ?case by (intro executes_boxed [OF _ values_yields]) auto
next
  case (PIT_Filter p source)
  then obtain ex rs where ex: "build_executor x session db source = Some ex" "yields b_advance b_get ex rs" "plan_out x session tables source rs"
    by (auto elim: executesE)
  have ok: "\<forall>r \<in> set rs. eval_scalar session (fst r) p \<noteq> None" using PIT_Filter.prems ex(3) by auto
  show ?case by (rule executes_boxed [OF _ filter_yields [OF ex(2) ok]]) (use ex in auto)
next
  case (PIT_Limit offset limit source)
  then show ?case by (intro executes_limit) auto
next
  case (PIT_Sort es source)
  then show ?case by (intro executes_sort) auto
next
  case (PIT_UnionAll sources)
  then show ?case by (intro executes_union) auto
next
  case (PIT_TableScan t ts)
  then show ?case by (intro executes_table_scan [OF rocks laws])
next
  case (PIT_NegateFreq source)
  then obtain ex rs where ex: "build_executor x session db source = Some ex" "yields b_advance b_get ex rs" "plan_out x session tables source rs"
    by (auto elim: executesE)
  show ?case by (rule executes_boxed [OF _ negate_yields [OF ex(2)]]) (use ex in auto)
next
  case (PIT_SortedGroup source es n)
  then show ?case by (intro executes_sorted_group) auto
next
  case (PIT_HashGroup source es n)
  then show ?case using iteration by (intro executes_hash_group) auto
next
  case (PIT_HashJoin left right k condition jt)
  then obtain l ls where l: "build_executor x session db left = Some l" "yields b_advance b_get l ls" "plan_out x session tables left ls"
    by (auto elim: executesE)
  obtain r rs where r: "build_executor x session db right = Some r" "yields b_advance b_get r rs" "plan_out x session tables right rs"
    using PIT_HashJoin by (auto elim: executesE)
  have "\<forall>r \<in> set rs. k \<le> length (fst r)" "\<forall>a \<in> set ls. join_input_ok (x_decimal x) session condition (column_count left) (column_count right) k rs a"
    "k \<le> column_count left" "k \<le> column_count right" using PIT_HashJoin.prems l(3) r(3) unfolding plan_ok.simps by blast+
  from hash_join_yields [OF laws l(2) r(2) this] show ?case by (rule executes_boxed [rotated]) (use l r in auto)
next
  case (PIT_FileScan directory options)
  then obtain records where records: "scanned (x_csv x) (x_files x directory) options = map Inr records"
    "\<forall>cols \<in> set records. value_ok (x_decimal x) (record_value cols)" by auto
  show ?case by (rule executes_boxed [OF _ file_scan_yields [OF records]]) (use records in auto)
qed

section \<open>Properties\<close>


text \<open>Example: the true ones of some values, sorted.\<close>

definition example_env :: "(ref_decimal, (bytes \<times> bytes) list, (bytes \<times> bytes) list, unit) exec_env" where
  "example_env = \<lparr>x_decimal = ref_decimal_ops, x_rocks = ref_rocks, x_path = (\<lambda>_. None), x_finish = (\<lambda>ws. of_nat (length ws)),
     x_hash = (\<lambda>_. ()), x_iteration = (\<lambda>m. m), x_files = (\<lambda>_. Fs_Other), x_csv = (\<lambda>_ _. Inr [])\<rparr>"

definition example_source :: "ref_decimal point_in_time_operator" where
  "example_source = PIT_Filter (CompiledColumnReference 0 T_Boolean)
     (PIT_UnionAll [PIT_Values [[D_Boolean True], [D_Boolean False]] 1, PIT_Values [[D_Boolean True]] 1])"

definition example_plan :: "ref_decimal point_in_time_operator" where
  "example_plan = PIT_Sort [\<lparr>se_ordering = Desc, se_expression = CompiledColumnReference 0 T_Boolean\<rparr>] example_source"

lemma example_source_out:
  "plan_out example_env (session_new 1) tables example_source rs \<longleftrightarrow> rs = [([D_Boolean True], 1), ([D_Boolean True], 1)]"
  by (auto simp: example_source_def satisfies_def)

lemma example_plan_ok: "plan_ok example_env (session_new 1) m tables example_plan"
proof -
  have "plan_ok example_env (session_new 1) m tables example_source" by (auto simp: example_source_def)
  then show ?thesis using ref_decimal_laws
    by (simp add: example_plan_def example_source_out sort_input_ok_def sortable_row_def valid_row_def)
      (simp add: example_source_def example_env_def sort_record_def sort_keys_def row_bytes_def push_tag_def write_varint_signed_def)
qed


end
