(* ===== verification/Ascii.thy ===== *)
theory Ascii
  imports Prelude
begin

text \<open>
  The parts of Rust's \<open>str\<close> that the code uses on ASCII text: comparison ignoring case, parsing and
  printing of integers.  Printing an integer and parsing it back gives the integer.
\<close>

definition to_ascii_lowercase :: "u8 \<Rightarrow> u8" where
  "to_ascii_lowercase b = (if 65 \<le> b \<and> b \<le> 90 then b + 32 else b)"

definition eq_ignore_ascii_case :: "bytes \<Rightarrow> bytes \<Rightarrow> bool" where
  "eq_ignore_ascii_case s t \<longleftrightarrow> map to_ascii_lowercase s = map to_ascii_lowercase t"

text \<open>\<open>i64::from_str\<close> and its siblings: an optional sign and at least one digit, an error on overflow.\<close>

fun parse_digits :: "bytes \<Rightarrow> nat \<Rightarrow> nat option" where
  "parse_digits [] acc = Some acc"
| "parse_digits (b # bs) acc = (if 48 \<le> b \<and> b \<le> 57 then parse_digits bs (acc * 10 + (unat b - 48)) else None)"

definition parse_nat :: "bytes \<Rightarrow> nat option" where
  "parse_nat bs = (if bs = [] then None else parse_digits bs 0)"

definition parse_int :: "nat \<Rightarrow> bytes \<Rightarrow> int option" where
  "parse_int width bs =
     Option.bind
       (case bs of
          b # rest \<Rightarrow>
            if b = 45 then map_option (\<lambda>n. - int n) (parse_nat rest)
            else if b = 43 then map_option int (parse_nat rest)
            else map_option int (parse_nat bs)
        | [] \<Rightarrow> None)
       (\<lambda>i. if - (2 ^ (width - 1)) \<le> i \<and> i < 2 ^ (width - 1) then Some i else None)"

definition parse_i64 :: "bytes \<Rightarrow> i64 option" where
  "parse_i64 bs = map_option of_int (parse_int 64 bs)"

definition parse_i32 :: "bytes \<Rightarrow> i32 option" where
  "parse_i32 bs = map_option of_int (parse_int 32 bs)"

text \<open>\<open>i64::to_string\<close>.\<close>

fun nat_digits :: "nat \<Rightarrow> bytes" where
  "nat_digits n = (if n < 10 then [48 + of_nat n] else nat_digits (n div 10) @ [48 + of_nat (n mod 10)])"

declare nat_digits.simps [simp del]

definition int_to_string :: "int \<Rightarrow> bytes" where
  "int_to_string i = (if i < 0 then 45 # nat_digits (nat (- i)) else nat_digits (nat i))"

definition i64_to_string :: "i64 \<Rightarrow> bytes" where
  "i64_to_string i = int_to_string (sint i)"

section \<open>Round trip\<close>

lemma parse_digits_append: "parse_digits (xs @ ys) acc = Option.bind (parse_digits xs acc) (parse_digits ys)"
  by (induction xs arbitrary: acc) auto

lemma digit_byte:
  assumes "n < 10"
  shows "unat (48 + of_nat n :: u8) = 48 + n" "48 \<le> (48 + of_nat n :: u8)" "48 + of_nat n \<le> (57 :: u8)"
proof -
  have "48 + n < 2 ^ 8" using assms by simp
  then have "unat (of_nat (48 + n) :: u8) = 48 + n" by (simp only: unat_of_nat) simp
  then show u: "unat (48 + of_nat n :: u8) = 48 + n" by simp
  show "48 \<le> (48 + of_nat n :: u8)" "48 + of_nat n \<le> (57 :: u8)" using u assms by (simp_all add: word_le_nat_alt)
qed

lemma parse_nat_digits: "parse_digits (nat_digits n) 0 = Some n"
proof (induction n rule: nat_digits.induct)
  case (1 n)
  have "n mod 10 < 10" by simp
  then show ?case using 1 digit_byte [of n] digit_byte [of "n mod 10"]
    by (subst nat_digits.simps) (auto simp: parse_digits_append)
qed

lemma nat_digits_first: "\<exists>b bs. nat_digits n = b # bs \<and> 48 \<le> b \<and> b \<le> 57"
proof (induction n rule: nat_digits.induct)
  case (1 n)
  then show ?case using digit_byte [of n] by (subst nat_digits.simps) auto
qed

lemma parse_nat_nat_digits: "parse_nat (nat_digits n) = Some n"
  using nat_digits_first [of n] by (auto simp: parse_nat_def parse_nat_digits)

lemma parse_int_to_string:
  assumes "- (2 ^ (width - 1)) \<le> i" "i < 2 ^ (width - 1)"
  shows "parse_int width (int_to_string i) = Some i"
proof -
  obtain b bs where d: "nat_digits (nat i) = b # bs" "48 \<le> b" "b \<le> 57" using nat_digits_first by blast
  then have "b \<noteq> 45" "b \<noteq> 43" by (auto simp: word_le_nat_alt)
  then show ?thesis using assms parse_nat_nat_digits [of "nat i"] parse_nat_nat_digits [of "nat (- i)"] d(1)
    by (auto simp: parse_int_def int_to_string_def)
qed

lemma parse_i64_to_string: "parse_i64 (i64_to_string i) = Some i"
  using parse_int_to_string [of 64 "sint i"] sint_range_size [of i] by (simp add: parse_i64_def i64_to_string_def word_size)

end
