(* ===== verification/Json_Path.thy ===== *)
theory Json_Path
  imports Json Ascii
begin

text \<open>
  Evaluation of JSON paths over tapes (\<open>data/src/jsonpath_utils.rs\<close>).  The callback of the code is
  the list of matches in the order it is called.  Evaluating a path on the tape of a value selects
  the tapes of the nodes it selects in the value.
\<close>

section \<open>The code\<close>

text \<open>The first entry of an object iterator whose key satisfies a predicate, and the item at an index of
  an array iterator; nothing behind them is read.\<close>

function find_entry :: "(bytes \<Rightarrow> bool) \<Rightarrow> bytes \<Rightarrow> bytes option option" where
  "find_entry p it =
     (case json_object_iter_next it of
        None \<Rightarrow> None
      | Some None \<Rightarrow> Some None
      | Some (Some ((k, v), rest)) \<Rightarrow> if p k then Some (Some v) else find_entry p rest)"
  by pat_completeness auto
termination
  by (relation "measure (length \<circ> snd)")
    (auto simp: json_object_iter_next_def json_iter_next_def split_at_def bind_eq_Some_conv split: if_splits option.splits prod.splits)

declare find_entry.simps [simp del]

fun nth_item :: "nat \<Rightarrow> bytes \<Rightarrow> bytes option option" where
  "nth_item n it =
     (case json_iter_next it of
        None \<Rightarrow> None
      | Some None \<Rightarrow> Some None
      | Some (Some (v, rest)) \<Rightarrow> (case n of 0 \<Rightarrow> Some (Some v) | Suc n \<Rightarrow> nth_item n rest))"

declare nth_item.simps [simp del]

definition select_object :: "json_path_selector \<Rightarrow> bytes \<Rightarrow> bytes list option" where
  "select_object sel it =
     (case sel of
        Wildcard \<Rightarrow> map_option (map snd) (json_entries it)
      | StringIdentifier str \<Rightarrow> map_option (case_option [] (\<lambda>v. [v])) (find_entry (\<lambda>k. eq_ignore_ascii_case k str) it)
      | NumericIdentifier idx \<Rightarrow> map_option (case_option [] (\<lambda>v. [v])) (find_entry (\<lambda>k. k = i64_to_string idx) it))"

definition select_array :: "json_path_selector \<Rightarrow> bytes \<Rightarrow> bytes list option" where
  "select_array sel it =
     (case sel of
        Wildcard \<Rightarrow> json_items it
      | StringIdentifier s \<Rightarrow>
          (case parse_i64 s of
             Some i \<Rightarrow> if 0 \<le> sint i then map_option (case_option [] (\<lambda>v. [v])) (nth_item (unat i) it) else Some []
           | None \<Rightarrow> Some [])
      | NumericIdentifier i \<Rightarrow>
          if 0 \<le> sint i then map_option (case_option [] (\<lambda>v. [v])) (nth_item (unat i) it) else Some [])"

definition select :: "json_path_selector \<Rightarrow> bytes \<Rightarrow> bytes list option" where
  "select sel input =
     Option.bind (json_type input) (\<lambda>t.
       case t of
         JT_Object \<Rightarrow> Option.bind (iter_object input) (\<lambda>it. Option.bind it (select_object sel))
       | JT_Array \<Rightarrow> Option.bind (iter_array input) (\<lambda>it. Option.bind it (select_array sel))
       | _ \<Rightarrow> Some [])"

fun evaluate_selectors :: "json_path_selector list \<Rightarrow> bytes \<Rightarrow> bytes list option" where
  "evaluate_selectors [] json = Some [json]"
| "evaluate_selectors (sel # rest) json =
     Option.bind (select sel json) (\<lambda>vs. map_option concat (those (map (evaluate_selectors rest) vs)))"

definition evaluate :: "json_path_expression \<Rightarrow> bytes \<Rightarrow> bytes list option" where
  "evaluate self json = evaluate_selectors (selectors self) json"

definition evaluate_single :: "json_path_expression \<Rightarrow> bytes \<Rightarrow> bytes option option" where
  "evaluate_single self json = map_option (\<lambda>ms. fold (\<lambda>j _. Some j) ms None) (evaluate self json)"

section \<open>Paths on values\<close>

fun tree_select :: "json_path_selector \<Rightarrow> 'd json_value \<Rightarrow> 'd json_value list" where
  "tree_select Wildcard (JV_Object kvs) = map snd kvs"
| "tree_select (StringIdentifier str) (JV_Object kvs) =
     (case find (\<lambda>kv. eq_ignore_ascii_case (fst kv) str) kvs of None \<Rightarrow> [] | Some kv \<Rightarrow> [snd kv])"
| "tree_select (NumericIdentifier idx) (JV_Object kvs) =
     (case find (\<lambda>kv. fst kv = i64_to_string idx) kvs of None \<Rightarrow> [] | Some kv \<Rightarrow> [snd kv])"
| "tree_select Wildcard (JV_Array vs) = vs"
| "tree_select (StringIdentifier s) (JV_Array vs) =
     (case parse_i64 s of
        Some i \<Rightarrow> if 0 \<le> sint i \<and> unat i < length vs then [vs ! unat i] else []
      | None \<Rightarrow> [])"
| "tree_select (NumericIdentifier i) (JV_Array vs) = (if 0 \<le> sint i \<and> unat i < length vs then [vs ! unat i] else [])"
| "tree_select sel v = []"

fun tree_path :: "json_path_selector list \<Rightarrow> 'd json_value \<Rightarrow> 'd json_value list" where
  "tree_path [] v = [v]"
| "tree_path (sel # rest) v = concat (map (tree_path rest) (tree_select sel v))"

lemma nth_item_tapes:
  "(\<forall>v \<in> set vs. value_ok D v) \<Longrightarrow>
    nth_item n (concat (map (tape D) vs)) = Some (if n < length vs then Some (tape D (vs ! n)) else None)"
proof (induction vs arbitrary: n)
  case (Cons v vs)
  have "json_iter_next (tape D v @ concat (map (tape D) vs)) = Some (Some (tape D v, concat (map (tape D) vs)))"
    by (rule json_iter_next_item) (use Cons.prems in \<open>simp_all add: size_tape tape_nonempty\<close>)
  then show ?case using Cons by (cases n) (simp_all add: nth_item.simps)
qed (simp add: nth_item.simps json_iter_next_Nil)

lemma json_object_iter_next_tapes:
  assumes "length k < 2 ^ 32" "value_ok D v"
  shows "json_object_iter_next (varlen 0x17 k @ tape D v @ rest) = Some (Some ((k, tape D v), rest))"
proof -
  have "json_iter_next (varlen 0x17 k @ tape D v @ rest) = Some (Some (varlen 0x17 k, tape D v @ rest))"
    by (rule json_iter_next_item) (use assms in \<open>simp_all add: read_string tape_nonempty\<close>)
  moreover have "json_iter_next (tape D v @ rest) = Some (Some (tape D v, rest))"
    by (rule json_iter_next_item) (use assms in \<open>simp_all add: size_tape tape_nonempty\<close>)
  ultimately show ?thesis using assms by (simp add: json_object_iter_next_def read_string)
qed

lemma find_entry_tapes:
  "(\<forall>(k, v) \<in> set kvs. length k < 2 ^ 32 \<and> value_ok D v) \<Longrightarrow>
    find_entry p (concat (map (\<lambda>(k, v). varlen 0x17 k @ tape D v) kvs)) =
      Some (map_option (\<lambda>kv. tape D (snd kv)) (find (\<lambda>kv. p (fst kv)) kvs))"
proof (induction kvs)
  case (Cons kv kvs)
  obtain k v where [simp]: "kv = (k, v)" by (cases kv)
  show ?case using Cons json_object_iter_next_tapes [of k D v "concat (map (\<lambda>(k, v). varlen 0x17 k @ tape D v) kvs)"]
    by (subst find_entry.simps) simp
qed (simp add: find_entry.simps json_object_iter_next_def json_iter_next_Nil)

lemma select_object_tapes:
  assumes "value_ok D (JV_Object kvs)"
  shows "select sel (tape D (JV_Object kvs)) = Some (map (tape D) (tree_select sel (JV_Object kvs)))"
proof -
  let ?body = "concat (map (\<lambda>(k, v). varlen 0x17 k @ tape D v) kvs)"
  have ok: "\<forall>(k, v) \<in> set kvs. length k < 2 ^ 32 \<and> value_ok D v" "length ?body < 2 ^ 32" using assms by simp_all
  have "select sel (tape D (JV_Object kvs)) = select_object sel ?body"
    using read_object(2) [OF ok(2), of "[]"] read_object(3) [OF ok(2)] by (simp add: select_def)
  also have "\<dots> = Some (map (tape D) (tree_select sel (JV_Object kvs)))"
  proof (cases sel)
    case Wildcard
    have "map snd (map (\<lambda>(k, v). (k, tape D v)) kvs) = map (tape D) (map snd kvs)" by auto
    then show ?thesis using json_entries_tapes [OF ok(1)] by (simp only: Wildcard select_object_def json_path_selector.case option.map tree_select.simps)
  qed (simp_all add: select_object_def find_entry_tapes [OF ok(1)] split: option.splits)
  finally show ?thesis .
qed

lemma select_array_tapes:
  assumes "value_ok D (JV_Array vs)"
  shows "select sel (tape D (JV_Array vs)) = Some (map (tape D) (tree_select sel (JV_Array vs)))"
proof -
  let ?body = "concat (map (tape D) vs)"
  have ok: "\<forall>v \<in> set vs. value_ok D v" "length ?body < 2 ^ 32" using assms by simp_all
  have "select sel (tape D (JV_Array vs)) = select_array sel ?body"
    using read_array(2) [OF ok(2), of "[]"] read_array(3) [OF ok(2)] by (simp add: select_def)
  also have "\<dots> = Some (map (tape D) (tree_select sel (JV_Array vs)))"
    by (cases sel) (auto simp: select_array_def json_items_tapes [OF ok(1)] nth_item_tapes [OF ok(1)] split: option.splits)
  finally show ?thesis .
qed

lemma select_tapes: "value_ok D v \<Longrightarrow> select sel (tape D v) = Some (map (tape D) (tree_select sel v))"
proof (cases v)
  case (JV_String s)
  moreover assume "value_ok D v"
  ultimately show ?thesis using read_string(2) [of s "[]"] by (simp add: select_def)
next
  case (JV_Int i)
  then show ?thesis using read_number(2) [OF number_ok_int [of i], where rest = "[]"] by (simp add: select_def)
next
  case (JV_Number d)
  moreover assume "value_ok D v"
  ultimately show ?thesis using read_number(2) [where scale = "d_scale D d" and m = "d_num D d" and rest = "[]"] by (simp add: select_def)
next
  case (JV_Array vs)
  moreover assume "value_ok D v"
  ultimately show ?thesis using select_array_tapes by blast
next
  case (JV_Object kvs)
  moreover assume "value_ok D v"
  ultimately show ?thesis using select_object_tapes by blast
qed (simp_all add: select_def json_type_def [of "_ # _"])

lemma find_mem: "find P xs = Some x \<Longrightarrow> x \<in> set xs"
  by (auto simp: find_Some_iff)

lemma tree_select_ok: "value_ok D v \<Longrightarrow> w \<in> set (tree_select sel v) \<Longrightarrow> value_ok D w"
  by (induction sel v rule: tree_select.induct) (auto split: option.splits if_splits dest!: find_mem [OF sym])

lemma evaluate_tapes: "value_ok D v \<Longrightarrow> evaluate_selectors sels (tape D v) = Some (map (tape D) (tree_path sels v))"
proof (induction sels arbitrary: v)
  case (Cons sel sels)
  have "map (\<lambda>w. evaluate_selectors sels (tape D w)) (tree_select sel v) = map (\<lambda>w. Some (map (tape D) (tree_path sels w))) (tree_select sel v)"
    using Cons tree_select_ok by (metis (no_types, lifting) map_cong)
  then have "those (map (\<lambda>w. evaluate_selectors sels (tape D w)) (tree_select sel v)) = Some (map (\<lambda>w. map (tape D) (tree_path sels w)) (tree_select sel v))"
    by (simp only: those_map_Some)
  then show ?case using select_tapes [OF Cons.prems] by (simp add: comp_def map_concat)
qed simp

lemma tree_select_single: "sel \<noteq> Wildcard \<Longrightarrow> length (tree_select sel v) \<le> 1"
  by (induction sel v rule: tree_select.induct) (auto split: option.splits)

lemma at_most_one: "length (case z of None \<Rightarrow> [] | Some v \<Rightarrow> [v]) \<le> Suc 0"
  by (cases z) simp_all

lemma select_object_single: "sel \<noteq> Wildcard \<Longrightarrow> select_object sel it = Some vs \<Longrightarrow> length vs \<le> 1"
  by (cases sel) (auto simp: select_object_def at_most_one)

lemma select_array_single: "sel \<noteq> Wildcard \<Longrightarrow> select_array sel it = Some vs \<Longrightarrow> length vs \<le> 1"
  by (cases sel) (auto simp: select_array_def at_most_one split: option.split_asm if_splits)

lemma select_single:
  assumes "sel \<noteq> Wildcard" "select sel json = Some vs"
  shows "length vs \<le> 1"
proof -
  obtain t where "json_type json = Some t" using assms(2) by (auto simp: select_def bind_eq_Some_conv)
  then show ?thesis using assms select_object_single [of sel] select_array_single [of sel]
    by (cases t) (auto simp: select_def bind_eq_Some_conv)
qed

lemma evaluate_single_match:
  "Wildcard \<notin> set sels \<Longrightarrow> evaluate_selectors sels json = Some ms \<Longrightarrow> length ms \<le> 1"
proof (induction sels arbitrary: json ms)
  case (Cons sel sels)
  then obtain vs where vs: "select sel json = Some vs" "map_option concat (those (map (evaluate_selectors sels) vs)) = Some ms"
    by (auto simp: bind_eq_Some_conv)
  have "length vs \<le> 1" using select_single [OF _ vs(1)] Cons.prems(1) by auto
  then consider (none) "vs = []" | (one) v where "vs = [v]" by (cases vs) auto
  then show ?case
  proof cases
    case (one v)
    then have "evaluate_selectors sels v = Some ms" using vs(2) by (auto split: option.splits)
    then show ?thesis using Cons by auto
  qed (use vs(2) in auto)
qed simp

section \<open>Properties\<close>



end
