(* ===== verification/Functions_Scalar.thy ===== *)
theory Functions_Scalar
  imports Functions_Aggregate Json_Path
begin

text \<open>
  The scalar functions (\<open>functions/src/scalar\<close>) and the printing of datums and data types they use
  (\<open>data/src/datum.rs\<close>, \<open>datatype.rs\<close>).  A function is the \<open>execute\<close> method of its struct; \<open>None\<close> is a
  panic: a missing argument, an integer division by zero or of the smallest integer by -1, an
  overflow of the decimal library, a date out of range, a tape that does not parse.  Decimal
  numbers, calendar types, the JSON grammar and the grammar of JSON paths are libraries and
  arguments.  The lemmas show that each function maps datums of its declared argument types to
  datums of its declared return type and does not see how a byte string is stored.
\<close>

section \<open>The libraries\<close>

record 'd decimal_lib = "'d decimal_arith" +
  d_rescale :: "'d \<Rightarrow> u32 \<Rightarrow> 'd"
  d_from_i32 :: "i32 \<Rightarrow> 'd"
  d_from_i64 :: "i64 \<Rightarrow> 'd"
  d_to_i32 :: "'d \<Rightarrow> i32 option"
  d_to_i64 :: "'d \<Rightarrow> i64 option"
  d_from_str :: "bytes \<Rightarrow> 'd option"
  d_to_string :: "'d \<Rightarrow> bytes"
  d_to_string_scaled :: "nat \<Rightarrow> 'd \<Rightarrow> bytes"

text \<open>\<open>date_minus_days\<close> and \<open>from_timestamp\<close> panic out of the range of their types.\<close>

record ('n, 't) chrono = "'n date_ops" +
  date_from_str :: "bytes \<Rightarrow> 'n option"
  date_to_string :: "'n \<Rightarrow> bytes"
  date_minus_days :: "'n \<Rightarrow> i64 \<Rightarrow> 'n option"
  from_timestamp :: "i64 \<Rightarrow> u32 \<Rightarrow> 't option"
  timestamp_millis :: "'t \<Rightarrow> i64"
  datetime_from_str :: "bytes \<Rightarrow> 't option"
  datetime_to_string :: "'t \<Rightarrow> bytes"

text \<open>What \<open>serde_json::from_str\<close> makes of a text: the value it feeds to the visitor, an error outside of
  every array and object (or in front of the first key of an object), an error within one.\<close>

datatype 'd json_text = JsonText "'d json_value" | JsonError | JsonNestedError

record ('d, 'n, 't) function_lib =
  f_decimal :: "'d decimal_lib"
  f_chrono :: "('n, 't) chrono"
  f_json_parse :: "bytes \<Rightarrow> 'd json_text"
  f_json_print :: "'d json_value \<Rightarrow> bytes"
  f_path :: "bytes \<Rightarrow> json_path_selector list option"

section \<open>Printing\<close>

definition str_bytes :: "string \<Rightarrow> bytes" where
  "str_bytes s = map of_char s"

fun data_type_to_string :: "data_type \<Rightarrow> bytes" where
  "data_type_to_string T_Null = str_bytes ''NULL''"
| "data_type_to_string T_Boolean = str_bytes ''BOOLEAN''"
| "data_type_to_string T_Integer = str_bytes ''INTEGER''"
| "data_type_to_string T_BigInt = str_bytes ''BIGINT''"
| "data_type_to_string (T_Decimal p s) =
     str_bytes ''DECIMAL('' @ int_to_string (uint p) @ str_bytes '','' @ int_to_string (uint s) @ str_bytes '')''"
| "data_type_to_string T_Text = str_bytes ''TEXT''"
| "data_type_to_string T_ByteA = str_bytes ''BYTEA''"
| "data_type_to_string T_Json = str_bytes ''JSON''"
| "data_type_to_string T_Date = str_bytes ''DATE''"
| "data_type_to_string T_Timestamp = str_bytes ''TIMESTAMP''"
| "data_type_to_string T_JsonPath = str_bytes ''JSONPATH''"

text \<open>\<open>{:x}\<close>\<close>

definition hex_digit :: "u8 \<Rightarrow> u8" where
  "hex_digit b = (if b < 10 then 48 + b else 87 + b)"

definition lower_hex :: "u8 \<Rightarrow> bytes" where
  "lower_hex b = (if b < 16 then [hex_digit b] else [hex_digit (b div 16), hex_digit (b mod 16)])"

definition as_timestamp :: "('n, 't) chrono \<Rightarrow> 'd datum \<Rightarrow> 't option" where
  "as_timestamp C d = Option.bind (as_maybe_timestamp d) (\<lambda>(seconds, nanos). from_timestamp C seconds nanos)"

text \<open>\<open>Display for TypedDatum\<close> without the alternate flag.\<close>

definition typed_to_string :: "('d, 'n, 't) function_lib \<Rightarrow> data_type \<Rightarrow> 'd datum \<Rightarrow> bytes option" where
  "typed_to_string L dt d =
     (case d of
        D_Null \<Rightarrow> Some (str_bytes ''NULL'')
      | D_Boolean b \<Rightarrow> Some (str_bytes (if b then ''TRUE'' else ''FALSE''))
      | D_Integer i \<Rightarrow>
          (case dt of
             T_Date \<Rightarrow> Option.bind (as_maybe_date (f_chrono L) d) (map_option (date_to_string (f_chrono L)))
           | _ \<Rightarrow> Some (int_to_string (sint i)))
      | D_BigInt i \<Rightarrow>
          (case dt of
             T_Timestamp \<Rightarrow> map_option (datetime_to_string (f_chrono L)) (as_timestamp (f_chrono L) d)
           | _ \<Rightarrow> Some (int_to_string (sint i)))
      | D_Decimal x \<Rightarrow>
          (case dt of
             T_Decimal p s \<Rightarrow> Some (d_to_string_scaled (f_decimal L) (unat s) x)
           | _ \<Rightarrow> Some (d_to_string (f_decimal L) x))
      | D_Jsonpath j \<Rightarrow> Some (str_bytes [CHR 39] @ original j @ str_bytes [CHR 39])
      | D_JsonpathRef j \<Rightarrow> Some (str_bytes [CHR 39] @ original j @ str_bytes [CHR 39])
      | _ \<Rightarrow> Option.bind (as_maybe_bytea d) (\<lambda>bs.
          case dt of
            T_Text \<Rightarrow> Some bs
          | T_Json \<Rightarrow> map_option (f_json_print L) (serialize (f_decimal L) bs)
          | _ \<Rightarrow> Some (concat (map lower_hex bs))))"

text \<open>\<open>OwnedJson::parse\<close>: an error in front of the value is an \<open>Err\<close>, one within a sequence or a map is
  unwrapped by the visitor.\<close>

definition owned_json_parse :: "('d, 'n, 't) function_lib \<Rightarrow> bytes \<Rightarrow> bytes option option" where
  "owned_json_parse L s =
     (case f_json_parse L s of
        JsonText v \<Rightarrow> map_option Some (deserialize (f_decimal L) v)
      | JsonError \<Rightarrow> Some None
      | JsonNestedError \<Rightarrow> None)"

section \<open>Arguments\<close>

definition arg :: "'d datum list \<Rightarrow> nat \<Rightarrow> 'd datum option" where
  "arg args i = (if i < length args then Some (args ! i) else None)"

text \<open>\<open>if let Some(a) = args[0].as_maybe_..() { .. } else { Datum::Null }\<close>, and for two arguments.\<close>

definition unary :: "('d datum \<Rightarrow> 'a option) \<Rightarrow> ('a \<Rightarrow> 'd datum option) \<Rightarrow> 'd datum list \<Rightarrow> 'd datum option" where
  "unary get f args =
     Option.bind (arg args 0) (\<lambda>a. case get a of Some x \<Rightarrow> f x | None \<Rightarrow> Some D_Null)"

definition binary ::
  "('d datum \<Rightarrow> 'a option) \<Rightarrow> ('d datum \<Rightarrow> 'b option) \<Rightarrow> ('a \<Rightarrow> 'b \<Rightarrow> 'd datum option) \<Rightarrow> 'd datum list \<Rightarrow> 'd datum option" where
  "binary get0 get1 f args =
     Option.bind (arg args 0) (\<lambda>a. Option.bind (arg args 1) (\<lambda>b.
       case (get0 a, get1 b) of (Some x, Some y) \<Rightarrow> f x y | _ \<Rightarrow> Some D_Null))"

text \<open>\<open>if args[0].is_null() || args[1].is_null() { Datum::Null } else { .. }\<close>\<close>

definition compare :: "('d datum \<Rightarrow> 'd datum \<Rightarrow> bool) \<Rightarrow> 'd datum list \<Rightarrow> 'd datum option" where
  "compare f args =
     Option.bind (arg args 0) (\<lambda>a. Option.bind (arg args 1) (\<lambda>b.
       if is_null a \<or> is_null b then Some D_Null else Some (D_Boolean (f a b))))"

section \<open>Logic and comparison\<close>

definition And :: "'d scalar_function" where
  "And session sig args = binary as_maybe_boolean as_maybe_boolean (\<lambda>a b. Some (D_Boolean (a \<and> b))) args"

definition Or :: "'d scalar_function" where
  "Or session sig args = binary as_maybe_boolean as_maybe_boolean (\<lambda>a b. Some (D_Boolean (a \<or> b))) args"

definition Not_fn :: "'d scalar_function" where
  "Not_fn session sig args = unary as_maybe_boolean (\<lambda>b. Some (D_Boolean (\<not> b))) args"

definition Eq :: "('d, 'z) decimal_ops_scheme \<Rightarrow> 'd scalar_function" where
  "Eq D session sig args = compare (\<lambda>a b. sql_eq D a b False) args"

definition NE :: "('d, 'z) decimal_ops_scheme \<Rightarrow> 'd scalar_function" where
  "NE D session sig args = compare (\<lambda>a b. \<not> sql_eq D a b False) args"

definition Gt :: "('d, 'z) decimal_ops_scheme \<Rightarrow> 'd scalar_function" where
  "Gt D session sig args = compare (\<lambda>a b. datum_cmp D a b = Greater) args"

definition Gte :: "('d, 'z) decimal_ops_scheme \<Rightarrow> 'd scalar_function" where
  "Gte D session sig args = compare (\<lambda>a b. datum_cmp D a b \<noteq> Less) args"

definition Lt :: "('d, 'z) decimal_ops_scheme \<Rightarrow> 'd scalar_function" where
  "Lt D session sig args = compare (\<lambda>a b. datum_cmp D a b = Less) args"

definition Lte :: "('d, 'z) decimal_ops_scheme \<Rightarrow> 'd scalar_function" where
  "Lte D session sig args = compare (\<lambda>a b. datum_cmp D a b \<noteq> Greater) args"

definition Between :: "('d, 'z) decimal_ops_scheme \<Rightarrow> 'd scalar_function" where
  "Between D session sig args =
     Option.bind (arg args 0) (\<lambda>a. Option.bind (arg args 1) (\<lambda>b. Option.bind (arg args 2) (\<lambda>c.
       if is_null a \<or> is_null b \<or> is_null c then Some D_Null
       else Some (D_Boolean (datum_cmp D a b \<noteq> Less \<and> datum_cmp D a c \<noteq> Greater)))))"

definition IsNull :: "'d scalar_function" where
  "IsNull session sig args = map_option (\<lambda>a. D_Boolean (is_null a)) (arg args 0)"

definition IsTrue :: "('d, 'z) decimal_ops_scheme \<Rightarrow> 'd scalar_function" where
  "IsTrue D session sig args = map_option (\<lambda>a. D_Boolean (datum_eq D a (D_Boolean True))) (arg args 0)"

definition IsFalse :: "('d, 'z) decimal_ops_scheme \<Rightarrow> 'd scalar_function" where
  "IsFalse D session sig args = map_option (\<lambda>a. D_Boolean (datum_eq D a (D_Boolean False))) (arg args 0)"

section \<open>Arithmetic\<close>

definition AddInteger :: "'d scalar_function" where
  "AddInteger session sig args = binary as_maybe_integer as_maybe_integer (\<lambda>a b. Some (D_Integer (a + b))) args"

definition AddBigint :: "'d scalar_function" where
  "AddBigint session sig args = binary as_maybe_bigint as_maybe_bigint (\<lambda>a b. Some (D_BigInt (a + b))) args"

definition AddDecimal :: "('d, 'z) decimal_arith_scheme \<Rightarrow> 'd scalar_function" where
  "AddDecimal D session sig args = binary as_maybe_decimal as_maybe_decimal (\<lambda>a b. map_option D_Decimal (d_add D a b)) args"

definition SubtractInteger :: "'d scalar_function" where
  "SubtractInteger session sig args = binary as_maybe_integer as_maybe_integer (\<lambda>a b. Some (D_Integer (a - b))) args"

definition SubtractBigint :: "'d scalar_function" where
  "SubtractBigint session sig args = binary as_maybe_bigint as_maybe_bigint (\<lambda>a b. Some (D_BigInt (a - b))) args"

definition SubtractDecimal :: "('d, 'z) decimal_arith_scheme \<Rightarrow> 'd scalar_function" where
  "SubtractDecimal D session sig args = binary as_maybe_decimal as_maybe_decimal (\<lambda>a b. map_option D_Decimal (d_sub D a b)) args"

definition MultiplyInteger :: "'d scalar_function" where
  "MultiplyInteger session sig args = binary as_maybe_integer as_maybe_integer (\<lambda>a b. Some (D_Integer (a * b))) args"

definition MultiplyBigint :: "'d scalar_function" where
  "MultiplyBigint session sig args = binary as_maybe_bigint as_maybe_bigint (\<lambda>a b. Some (D_BigInt (a * b))) args"

definition MultiplyDecimal :: "('d, 'z) decimal_ops_scheme \<Rightarrow> 'd scalar_function" where
  "MultiplyDecimal D session sig args = binary as_maybe_decimal as_maybe_decimal (\<lambda>a b. map_option D_Decimal (d_mul D a b)) args"

text \<open>The division of Rust's signed integers truncates; it panics by zero and where the quotient
  overflows.\<close>

definition quotient_to_zero :: "int \<Rightarrow> int \<Rightarrow> int" where
  "quotient_to_zero n d = (let q = \<bar>n\<bar> div \<bar>d\<bar> in if (n < 0) = (d < 0) then q else - q)"

definition checked_div :: "'a::len word \<Rightarrow> 'a word \<Rightarrow> 'a word option" where
  "checked_div a b =
     (if b = 0 \<or> sint a = - (2 ^ (LENGTH('a) - 1)) \<and> b = - 1 then None else Some (word_of_int (quotient_to_zero (sint a) (sint b))))"

definition DivideInteger :: "'d scalar_function" where
  "DivideInteger session sig args =
     binary as_maybe_integer as_maybe_integer (\<lambda>a b. map_option D_Integer (checked_div a b)) args"

definition DivideBigint :: "'d scalar_function" where
  "DivideBigint session sig args =
     binary as_maybe_bigint as_maybe_bigint (\<lambda>a b. map_option D_BigInt (checked_div a b)) args"

definition DivideDecimal :: "'d decimal_lib \<Rightarrow> 'd scalar_function" where
  "DivideDecimal D session sig args =
     binary as_maybe_decimal as_maybe_decimal (\<lambda>a b.
       map_option (\<lambda>d. D_Decimal (if ucast DECIMAL_MAX_SCALE < d_scale D d then d_rescale D d (ucast DECIMAL_MAX_SCALE) else d))
         (d_div D a b)) args"

section \<open>Conditionals, session and dates\<close>

definition Coalesce :: "'d scalar_function" where
  "Coalesce session sig args =
     Some (case find (\<lambda>d. \<not> is_null d) args of None \<Rightarrow> D_Null | Some d \<Rightarrow> ref_clone d)"

definition IfFn :: "'d scalar_function" where
  "IfFn session sig args =
     Option.bind (arg args 0) (\<lambda>c.
       if as_maybe_boolean c = Some True then map_option ref_clone (arg args 1) else map_option ref_clone (arg args 2))"

definition Database :: "'d scalar_function" where
  "Database session sig args = Some (D_ByteAOwned (str_bytes (current_database session)))"

definition DateSub :: "('n, 't) chrono \<Rightarrow> 'd scalar_function" where
  "DateSub C session sig args =
     Option.bind (arg args 0) (\<lambda>a. Option.bind (as_maybe_date C a) (\<lambda>date. Option.bind (arg args 1) (\<lambda>b.
       case (date, as_maybe_integer b) of
         (Some date, Some days) \<Rightarrow> map_option (datum_from_date C) (date_minus_days C date (scast days))
       | _ \<Rightarrow> Some D_Null)))"

section \<open>Casts\<close>

abbreviation as_maybe_json :: "'d datum \<Rightarrow> bytes option" where
  "as_maybe_json \<equiv> as_maybe_bytea"

definition ToIntFromBoolean :: "'d scalar_function" where
  "ToIntFromBoolean session sig args = unary as_maybe_boolean (\<lambda>a. Some (D_Integer (if a then 1 else 0))) args"

definition ToIntFromInt :: "'d scalar_function" where
  "ToIntFromInt session sig args = arg args 0"

definition ToIntFromBigInt :: "'d scalar_function" where
  "ToIntFromBigInt session sig args = unary as_maybe_bigint (\<lambda>a. Some (D_Integer (ucast a))) args"

definition ToIntFromDecimal :: "'d decimal_lib \<Rightarrow> 'd scalar_function" where
  "ToIntFromDecimal D session sig args = unary as_maybe_decimal (\<lambda>a. Some (case_option D_Null D_Integer (d_to_i32 D a))) args"

definition ToIntFromText :: "'d scalar_function" where
  "ToIntFromText session sig args = unary as_maybe_text (\<lambda>a. Some (case_option D_Null D_Integer (parse_i32 a))) args"

text \<open>The number of a JSON value, or the number its string parses to.\<close>

definition json_number :: "'d decimal_lib \<Rightarrow> ('d \<Rightarrow> 'a option) \<Rightarrow> (bytes \<Rightarrow> 'a option) \<Rightarrow> bytes \<Rightarrow> 'a option option" where
  "json_number D to_number parse json =
     Option.bind (get_number D json) (\<lambda>n.
       case Option.bind n to_number of
         Some i \<Rightarrow> Some (Some i)
       | None \<Rightarrow> map_option (\<lambda>s. Option.bind s parse) (get_string json))"

definition ToIntFromJson :: "'d decimal_lib \<Rightarrow> 'd scalar_function" where
  "ToIntFromJson D session sig args =
     unary as_maybe_json (\<lambda>j. map_option (case_option D_Null D_Integer) (json_number D (d_to_i32 D) parse_i32 j)) args"

definition ToBigIntFromBoolean :: "'d scalar_function" where
  "ToBigIntFromBoolean session sig args = unary as_maybe_boolean (\<lambda>a. Some (D_BigInt (if a then 1 else 0))) args"

definition ToBigIntFromInt :: "'d scalar_function" where
  "ToBigIntFromInt session sig args = unary as_maybe_integer (\<lambda>i. Some (D_BigInt (scast i))) args"

definition ToBigIntFromBigInt :: "'d scalar_function" where
  "ToBigIntFromBigInt session sig args = arg args 0"

definition ToBigIntFromDecimal :: "'d decimal_lib \<Rightarrow> 'd scalar_function" where
  "ToBigIntFromDecimal D session sig args = unary as_maybe_decimal (\<lambda>a. Some (case_option D_Null D_BigInt (d_to_i64 D a))) args"

definition ToBigIntFromText :: "'d scalar_function" where
  "ToBigIntFromText session sig args = unary as_maybe_text (\<lambda>a. Some (case_option D_Null D_BigInt (parse_i64 a))) args"

definition ToBigIntFromJson :: "'d decimal_lib \<Rightarrow> 'd scalar_function" where
  "ToBigIntFromJson D session sig args =
     unary as_maybe_json (\<lambda>j. map_option (case_option D_Null D_BigInt) (json_number D (d_to_i64 D) parse_i64 j)) args"

definition ToBooleanFromBoolean :: "'d scalar_function" where
  "ToBooleanFromBoolean session sig args = arg args 0"

definition parse_boolean :: "bytes \<Rightarrow> 'd datum" where
  "parse_boolean a =
     (if eq_ignore_ascii_case a (str_bytes ''true'') then D_Boolean True
      else if eq_ignore_ascii_case a (str_bytes ''false'') then D_Boolean False
      else D_Null)"

definition ToBooleanFromText :: "'d scalar_function" where
  "ToBooleanFromText session sig args = unary as_maybe_text (\<lambda>a. Some (parse_boolean a)) args"

definition ToBooleanFromJson :: "'d scalar_function" where
  "ToBooleanFromJson session sig args =
     unary as_maybe_json (\<lambda>j.
       Option.bind (get_boolean j) (\<lambda>b.
       case b of
         Some b \<Rightarrow> Some (D_Boolean b)
       | None \<Rightarrow> map_option (case_option D_Null parse_boolean) (get_string j))) args"

definition ToDecimalFromBoolean :: "('d, 'z) decimal_ops_scheme \<Rightarrow> 'd scalar_function" where
  "ToDecimalFromBoolean D session sig args =
     unary as_maybe_boolean (\<lambda>a. Some (D_Decimal (if a then d_new D 1 0 else d_new D 0 0))) args"

definition ToDecimalFromInt :: "'d decimal_lib \<Rightarrow> 'd scalar_function" where
  "ToDecimalFromInt D session sig args = unary as_maybe_integer (\<lambda>a. Some (D_Decimal (d_from_i32 D a))) args"

definition ToDecimalFromBigInt :: "'d decimal_lib \<Rightarrow> 'd scalar_function" where
  "ToDecimalFromBigInt D session sig args = unary as_maybe_bigint (\<lambda>a. Some (D_Decimal (d_from_i64 D a))) args"

definition downscale :: "'d decimal_lib \<Rightarrow> u8 \<Rightarrow> 'd \<Rightarrow> 'd" where
  "downscale D s d = (if ucast s < d_scale D d then d_rescale D d (ucast s) else d)"

definition ToDecimalFromDecimal :: "'d decimal_lib \<Rightarrow> 'd scalar_function" where
  "ToDecimalFromDecimal D session sig args =
     unary as_maybe_decimal (\<lambda>d. case sig_ret sig of T_Decimal p s \<Rightarrow> Some (D_Decimal (downscale D s d)) | _ \<Rightarrow> None) args"

definition ToDecimalFromText :: "'d decimal_lib \<Rightarrow> 'd scalar_function" where
  "ToDecimalFromText D session sig args =
     unary as_maybe_text (\<lambda>a.
       case (d_from_str D a, sig_ret sig) of
         (Some d, T_Decimal p s) \<Rightarrow> Some (D_Decimal (downscale D s d))
       | _ \<Rightarrow> Some D_Null) args"

definition ToDecimalFromJson :: "'d decimal_lib \<Rightarrow> 'd scalar_function" where
  "ToDecimalFromJson D session sig args =
     unary as_maybe_json (\<lambda>j.
       Option.bind (get_number D j) (\<lambda>n.
       case (n, sig_ret sig) of
         (Some d, T_Decimal p s) \<Rightarrow> Some (D_Decimal (downscale D s d))
       | _ \<Rightarrow>
           Option.bind (get_string j) (\<lambda>str.
           case (Option.bind str (d_from_str D), sig_ret sig) of
             (Some d, T_Decimal p s) \<Rightarrow> Some (D_Decimal (downscale D s d))
           | _ \<Rightarrow> Some D_Null))) args"

definition ToDateFromText :: "('n, 't) chrono \<Rightarrow> 'd scalar_function" where
  "ToDateFromText C session sig args =
     unary as_maybe_text (\<lambda>s. Some (case_option D_Null (datum_from_date C) (date_from_str C s))) args"

definition ToTimestampFromText :: "('n, 't) chrono \<Rightarrow> 'd scalar_function" where
  "ToTimestampFromText C session sig args =
     unary as_maybe_text (\<lambda>s. Some (case_option D_Null (\<lambda>t. D_BigInt (timestamp_millis C t)) (datetime_from_str C s))) args"

definition ToTextFromText :: "'d scalar_function" where
  "ToTextFromText session sig args = map_option ref_clone (arg args 0)"

definition ToTextFromBoolean :: "'d scalar_function" where
  "ToTextFromBoolean session sig args =
     unary as_maybe_boolean (\<lambda>b. Some (D_ByteARef (str_bytes (if b then ''TRUE'' else ''FALSE'')))) args"

definition ToTextFromAny :: "('d, 'n, 't) function_lib \<Rightarrow> 'd scalar_function" where
  "ToTextFromAny L session sig args =
     Option.bind (arg args 0) (\<lambda>a.
       if datum_eq (f_decimal L) a D_Null then Some D_Null
       else if sig_args sig = [] then None
       else map_option D_ByteAOwned (typed_to_string L (hd (sig_args sig)) a))"

definition ToJsonFromBoolean :: "'d scalar_function" where
  "ToJsonFromBoolean session sig args = unary as_maybe_boolean (\<lambda>b. Some (D_ByteAOwned (push_bool b []))) args"

definition ToJsonFromInt :: "'d scalar_function" where
  "ToJsonFromInt session sig args = unary as_maybe_integer (\<lambda>i. Some (D_ByteAOwned (push_int (scast i) []))) args"

definition ToJsonFromBigInt :: "'d scalar_function" where
  "ToJsonFromBigInt session sig args = unary as_maybe_bigint (\<lambda>i. Some (D_ByteAOwned (push_int i []))) args"

definition ToJsonFromDecimal :: "('d, 'z) decimal_ops_scheme \<Rightarrow> 'd scalar_function" where
  "ToJsonFromDecimal D session sig args = unary as_maybe_decimal (\<lambda>d. Some (D_ByteAOwned (push_decimal D d []))) args"

definition ToJsonFromText :: "('d, 'n, 't) function_lib \<Rightarrow> 'd scalar_function" where
  "ToJsonFromText L session sig args =
     unary as_maybe_text (\<lambda>s. map_option (case_option D_Null D_ByteAOwned) (owned_json_parse L s)) args"

definition ToJsonpath :: "('d, 'n, 't) function_lib \<Rightarrow> 'd scalar_function" where
  "ToJsonpath L session sig args =
     unary as_maybe_text (\<lambda>s. Some (case_option D_Null D_Jsonpath (json_path_parse (f_path L) s))) args"

definition TypeOf :: "'d scalar_function" where
  "TypeOf session sig args =
     (case sig_args sig of [] \<Rightarrow> None | t # _ \<Rightarrow> Some (D_ByteAOwned (data_type_to_string t)))"

section \<open>JSON\<close>

definition JsonExtract :: "'d scalar_function" where
  "JsonExtract session sig args =
     binary as_maybe_json as_maybe_jsonpath (\<lambda>json expr.
       if could_return_many expr then
         Option.bind (evaluate expr json) (\<lambda>ms. map_option D_ByteAOwned (push_array (\<lambda>buf. Some (fold push_json ms buf)) []))
       else map_option (case_option D_Null D_ByteARef) (evaluate_single expr json)) args"

definition JsonUnquote :: "('d, 'n, 't) function_lib \<Rightarrow> 'd scalar_function" where
  "JsonUnquote L session sig args =
     Option.bind (arg args 0) (\<lambda>a.
       case as_maybe_json a of
         None \<Rightarrow> Some D_Null
       | Some json \<Rightarrow>
           Option.bind (get_string json) (\<lambda>s.
           case s of
             Some s \<Rightarrow> Some (D_ByteARef s)
           | None \<Rightarrow> map_option D_ByteAOwned (typed_to_string L T_Json a)))"

section \<open>Types\<close>

text \<open>The type of a datum: NULL has every type, dates and timestamps are integers, text, byte strings and
  JSON are byte strings.\<close>

fun has_type :: "data_type \<Rightarrow> 'd datum \<Rightarrow> bool" where
  "has_type t D_Null = True"
| "has_type t (D_Boolean _) = (t = T_Boolean)"
| "has_type t (D_Integer _) = (t = T_Integer \<or> t = T_Date)"
| "has_type t (D_BigInt _) = (t = T_BigInt \<or> t = T_Timestamp)"
| "has_type t (D_Decimal _) = (case t of T_Decimal p s \<Rightarrow> True | _ \<Rightarrow> False)"
| "has_type t (D_ByteARef _) = (t = T_Text \<or> t = T_ByteA \<or> t = T_Json)"
| "has_type t (D_ByteAOwned _) = (t = T_Text \<or> t = T_ByteA \<or> t = T_Json)"
| "has_type t (D_ByteAInline _ _) = (t = T_Text \<or> t = T_ByteA \<or> t = T_Json)"
| "has_type t (D_Jsonpath _) = (t = T_JsonPath)"
| "has_type t (D_JsonpathRef _) = (t = T_JsonPath)"

text \<open>A parameter of type NULL accepts everything.\<close>

definition accepts :: "data_type \<Rightarrow> 'd datum \<Rightarrow> bool" where
  "accepts t d \<longleftrightarrow> t = T_Null \<or> has_type t d"

text \<open>Two types with the same datums: equal, or both decimal.\<close>

fun same_kind :: "data_type \<Rightarrow> data_type \<Rightarrow> bool" where
  "same_kind (T_Decimal _ _) (T_Decimal _ _) = True"
| "same_kind t u = (t = u)"

lemma same_kind_has_type: "same_kind t u \<Longrightarrow> has_type t d = has_type u d"
  by (cases d; cases t; cases u) auto

lemma same_kind_refl [simp]: "same_kind t t"
  by (cases t) simp_all

lemma has_type_ref_clone [simp]: "has_type t (ref_clone d) = has_type t d"
  by (cases d) simp_all

lemma has_type_into_static [simp]: "has_type t (into_static d) = has_type t d"
  by (cases d) simp_all

text \<open>The contract of a scalar function: on arguments its parameters accept it returns a datum of its
  return type, or panics.\<close>

definition scalar_typed :: "'d scalar_function \<Rightarrow> data_type list \<Rightarrow> data_type \<Rightarrow> bool" where
  "scalar_typed f params ret \<longleftrightarrow>
     (\<forall>session sig args d. list_all2 accepts params args \<longrightarrow> same_kind (sig_ret sig) ret \<longrightarrow>
        f session sig args = Some d \<longrightarrow> has_type ret d)"

lemma unary_typed:
  assumes "\<And>x d. f x = Some d \<Longrightarrow> has_type ret d"
  shows "unary get f args = Some d \<Longrightarrow> has_type ret d"
  using assms by (auto simp: unary_def bind_eq_Some_conv split: option.splits)

lemma binary_typed:
  assumes "\<And>x y d. f x y = Some d \<Longrightarrow> has_type ret d"
  shows "binary get0 get1 f args = Some d \<Longrightarrow> has_type ret d"
  using assms
  by (cases "arg args 0"; cases "arg args 1"; cases "get0 (the (arg args 0))"; cases "get1 (the (arg args 1))") (auto simp: binary_def)

lemma compare_typed: "compare f args = Some d \<Longrightarrow> has_type T_Boolean d"
  by (auto simp: compare_def bind_eq_Some_conv split: if_splits)

lemma arg_typed: "list_all2 accepts params args \<Longrightarrow> arg args i = Some d \<Longrightarrow> i < length params \<Longrightarrow> params ! i = t \<Longrightarrow> t \<noteq> T_Null \<Longrightarrow> has_type t d"
  by (auto simp: arg_def accepts_def list_all2_conv_all_nth split: if_splits)

lemma boolean_typed [simp]: "has_type T_Boolean (parse_boolean a)"
  by (simp add: parse_boolean_def)

lemma case_option_typed:
  "has_type t D_Null \<Longrightarrow> (\<And>x. has_type t (f x)) \<Longrightarrow> has_type t (case_option D_Null f o')"
  by (cases o') simp_all

lemma date_typed [simp]: "has_type T_Date (datum_from_date C x)"
  by (simp add: datum_from_date_def)

named_theorems scalar_typed \<open>the functions and their types\<close>

lemmas typed_rules = unary_typed binary_typed compare_typed

lemma logic_typed [scalar_typed]:
  "scalar_typed And [T_Boolean, T_Boolean] T_Boolean"
  "scalar_typed Or [T_Boolean, T_Boolean] T_Boolean"
  "scalar_typed Not_fn [T_Boolean] T_Boolean"
  "scalar_typed (Eq D) [t, t] T_Boolean"
  "scalar_typed (NE D) [t, t] T_Boolean"
  "scalar_typed (Gt D) [t, t] T_Boolean"
  "scalar_typed (Gte D) [t, t] T_Boolean"
  "scalar_typed (Lt D) [t, t] T_Boolean"
  "scalar_typed (Lte D) [t, t] T_Boolean"
  "scalar_typed (Between D) [t, t, t] T_Boolean"
  "scalar_typed IsNull [t] T_Boolean"
  "scalar_typed (IsTrue D) [t] T_Boolean"
  "scalar_typed (IsFalse D) [t] T_Boolean"
  by (auto simp: scalar_typed_def And_def Or_def Not_fn_def Eq_def NE_def Gt_def Gte_def Lt_def Lte_def Between_def IsNull_def
      IsTrue_def IsFalse_def bind_eq_Some_conv split: if_splits elim: unary_typed [rotated] binary_typed [rotated] dest: compare_typed)

lemma arithmetic_typed [scalar_typed]:
  "scalar_typed AddInteger [T_Integer, T_Integer] T_Integer"
  "scalar_typed AddBigint [T_BigInt, T_BigInt] T_BigInt"
  "scalar_typed (AddDecimal D) [T_Decimal p s, T_Decimal p s] (T_Decimal p' s')"
  "scalar_typed SubtractInteger [T_Integer, T_Integer] T_Integer"
  "scalar_typed SubtractBigint [T_BigInt, T_BigInt] T_BigInt"
  "scalar_typed (SubtractDecimal D) [T_Decimal p s, T_Decimal p s] (T_Decimal p' s')"
  "scalar_typed MultiplyInteger [T_Integer, T_Integer] T_Integer"
  "scalar_typed MultiplyBigint [T_BigInt, T_BigInt] T_BigInt"
  "scalar_typed (MultiplyDecimal D2) [T_Decimal p s, T_Decimal p s] (T_Decimal p' s')"
  "scalar_typed DivideInteger [T_Integer, T_Integer] T_Integer"
  "scalar_typed DivideBigint [T_BigInt, T_BigInt] T_BigInt"
  "scalar_typed (DivideDecimal D3) [T_Decimal p s, T_Decimal p s] (T_Decimal p' s')"
  by (auto simp: scalar_typed_def AddInteger_def AddBigint_def AddDecimal_def SubtractInteger_def SubtractBigint_def SubtractDecimal_def
      MultiplyInteger_def MultiplyBigint_def MultiplyDecimal_def DivideInteger_def DivideBigint_def DivideDecimal_def
      elim!: binary_typed [rotated])

lemma cast_typed [scalar_typed]:
  "scalar_typed ToIntFromBoolean [T_Boolean] T_Integer"
  "scalar_typed ToIntFromInt [T_Integer] T_Integer"
  "scalar_typed ToIntFromBigInt [T_BigInt] T_Integer"
  "scalar_typed (ToIntFromDecimal D) [T_Decimal p s] T_Integer"
  "scalar_typed ToIntFromText [T_Text] T_Integer"
  "scalar_typed (ToIntFromJson D) [T_Json] T_Integer"
  "scalar_typed ToBigIntFromBoolean [T_Boolean] T_BigInt"
  "scalar_typed ToBigIntFromInt [T_Integer] T_BigInt"
  "scalar_typed ToBigIntFromBigInt [T_BigInt] T_BigInt"
  "scalar_typed (ToBigIntFromDecimal D) [T_Decimal p s] T_BigInt"
  "scalar_typed ToBigIntFromText [T_Text] T_BigInt"
  "scalar_typed (ToBigIntFromJson D) [T_Json] T_BigInt"
  "scalar_typed ToBooleanFromBoolean [T_Boolean] T_Boolean"
  "scalar_typed ToBooleanFromText [T_Text] T_Boolean"
  "scalar_typed ToBooleanFromJson [T_Json] T_Boolean"
  by (auto simp: scalar_typed_def ToIntFromBoolean_def ToIntFromInt_def ToIntFromBigInt_def ToIntFromDecimal_def ToIntFromText_def
      ToIntFromJson_def ToBigIntFromBoolean_def ToBigIntFromInt_def ToBigIntFromBigInt_def ToBigIntFromDecimal_def ToBigIntFromText_def
      ToBigIntFromJson_def ToBooleanFromBoolean_def ToBooleanFromText_def ToBooleanFromJson_def bind_eq_Some_conv
      intro!: case_option_typed elim!: unary_typed [rotated] elim: arg_typed split: option.splits)

lemma same_kind_decimal: "same_kind t (T_Decimal p s) \<Longrightarrow> \<exists>p s. t = T_Decimal p s"
  by (cases t) simp_all

lemma decimal_cast_typed [scalar_typed]:
  "scalar_typed (ToDecimalFromBoolean D0) [T_Boolean] (T_Decimal p s)"
  "scalar_typed (ToDecimalFromInt D) [T_Integer] (T_Decimal p s)"
  "scalar_typed (ToDecimalFromBigInt D) [T_BigInt] (T_Decimal p s)"
  "scalar_typed (ToDecimalFromDecimal D) [T_Decimal p' s'] (T_Decimal p s)"
  "scalar_typed (ToDecimalFromText D) [T_Text] (T_Decimal p s)"
  by (auto simp: scalar_typed_def ToDecimalFromBoolean_def ToDecimalFromInt_def ToDecimalFromBigInt_def ToDecimalFromDecimal_def
      ToDecimalFromText_def dest!: same_kind_decimal elim!: unary_typed [rotated] split: option.split_asm)

lemma to_decimal_from_json_typed [scalar_typed]: "scalar_typed (ToDecimalFromJson D) [T_Json] (T_Decimal p s)"
proof -
  have "has_type (T_Decimal p s) d"
    if "ToDecimalFromJson D session sig args = Some d" "same_kind (sig_ret sig) (T_Decimal p s)" for session sig args d
    using that same_kind_decimal [OF that(2)]
    by (auto simp: ToDecimalFromJson_def unary_def bind_eq_Some_conv split: option.split_asm)
  then show ?thesis by (simp add: scalar_typed_def)
qed

lemma text_cast_typed [scalar_typed]:
  "scalar_typed (ToDateFromText C) [T_Text] T_Date"
  "scalar_typed (ToTimestampFromText C) [T_Text] T_Timestamp"
  "scalar_typed ToTextFromText [T_Text] T_Text"
  "scalar_typed ToTextFromBoolean [T_Boolean] T_Text"
  "scalar_typed (ToTextFromAny L) [T_Null] T_Text"
  "scalar_typed (ToJsonpath L) [T_Text] T_JsonPath"
  "scalar_typed TypeOf [T_Null] T_Text"
  by (auto simp: scalar_typed_def ToDateFromText_def ToTimestampFromText_def ToTextFromText_def ToTextFromBoolean_def ToTextFromAny_def
      ToJsonpath_def TypeOf_def bind_eq_Some_conv intro!: case_option_typed elim!: unary_typed [rotated]
      dest: arg_typed [where i = 0] split: if_splits list.splits)

lemma json_typed [scalar_typed]:
  "scalar_typed ToJsonFromBoolean [T_Boolean] T_Json"
  "scalar_typed ToJsonFromInt [T_Integer] T_Json"
  "scalar_typed ToJsonFromBigInt [T_BigInt] T_Json"
  "scalar_typed (ToJsonFromDecimal D) [T_Decimal p s] T_Json"
  "scalar_typed (ToJsonFromText L) [T_Text] T_Json"
  "scalar_typed JsonExtract [T_Json, T_JsonPath] T_Json"
  "scalar_typed (JsonUnquote L) [T_Json] T_Text"
  by (auto simp: scalar_typed_def ToJsonFromBoolean_def ToJsonFromInt_def ToJsonFromBigInt_def ToJsonFromDecimal_def ToJsonFromText_def
      JsonExtract_def JsonUnquote_def bind_eq_Some_conv intro!: case_option_typed elim!: unary_typed [rotated] binary_typed [rotated]
      split: if_splits option.split_asm)

lemma coalesce_typed [scalar_typed]:
  assumes "t \<noteq> T_Null" "\<forall>p \<in> set params. same_kind p t"
  shows "scalar_typed Coalesce params t"
proof -
  have "has_type t d" if args: "list_all2 accepts params args" and d: "find (\<lambda>d. \<not> is_null d) args = Some d" for args d
  proof -
    obtain i where i: "i < length args" "args ! i = d" using d by (auto simp: find_Some_iff)
    then have "accepts (params ! i) d" "same_kind (params ! i) t"
      using args assms(2) by (auto simp: list_all2_conv_all_nth)
    then show ?thesis using same_kind_has_type [of "params ! i" t d] assms(1) by (cases t) (auto simp: accepts_def)
  qed
  then show ?thesis by (auto simp: scalar_typed_def Coalesce_def split: option.splits)
qed

lemma misc_typed [scalar_typed]:
  "t \<noteq> T_Null \<Longrightarrow> scalar_typed IfFn [T_Boolean, t, t] t"
  "scalar_typed IfFn [T_Boolean, T_Decimal p s, T_Decimal p s] (T_Decimal p' s')"
  "scalar_typed Database [] T_Text"
  "scalar_typed (DateSub C) [T_Date, T_Integer] T_Date"
  subgoal by (auto simp: scalar_typed_def IfFn_def accepts_def arg_def list_all2_Cons1 bind_eq_Some_conv split: if_splits)
  subgoal
    by (auto simp: scalar_typed_def IfFn_def accepts_def arg_def list_all2_Cons1 bind_eq_Some_conv split: if_splits)
      (metis same_kind.simps(1) same_kind_has_type)+
  subgoal by (simp add: scalar_typed_def Database_def)
  subgoal by (auto simp: scalar_typed_def DateSub_def bind_eq_Some_conv split: option.split_asm)
  done

section \<open>Representations\<close>

text \<open>A byte string may be borrowed, owned or inline, a path borrowed or owned.  No function sees the
  difference, except in the representation of its result.\<close>

fun norm :: "'d datum \<Rightarrow> 'd datum" where
  "norm (D_ByteAOwned s) = D_ByteARef s"
| "norm (D_ByteAInline n s) = D_ByteARef (take (unat n) s)"
| "norm (D_Jsonpath j) = D_JsonpathRef j"
| "norm d = d"

lemma norm_idem [simp]: "norm (norm d) = norm d" by (cases d) simp_all
lemma norm_ref_clone [simp]: "norm (ref_clone d) = norm d" "ref_clone (norm d) = norm d" by (cases d; simp)+
lemma norm_into_static [simp]: "norm (into_static d) = norm d"
proof (cases d)
  case (D_ByteARef s)
  then show ?thesis using inline_bytes [of s] by (simp del: take_append)
qed simp_all

lemma has_type_norm [simp]: "has_type t (norm d) = has_type t d" by (cases d) simp_all

lemma norm_accessors [simp]:
  "is_null (norm d) = is_null d" "as_maybe_boolean (norm d) = as_maybe_boolean d"
  "as_maybe_integer (norm d) = as_maybe_integer d" "as_maybe_bigint (norm d) = as_maybe_bigint d"
  "as_maybe_decimal (norm d) = as_maybe_decimal d" "as_maybe_bytea (norm d) = as_maybe_bytea d"
  "as_maybe_text (norm d) = as_maybe_text d" "as_maybe_jsonpath (norm d) = as_maybe_jsonpath d"
  "as_maybe_date C (norm d) = as_maybe_date C d"
  by (cases d; simp add: as_maybe_text_def as_maybe_date_def)+

lemma norm_sql_eq [simp]: "sql_eq D (norm a) b n = sql_eq D a b n" "sql_eq D a (norm b) n = sql_eq D a b n"
  by (cases a; simp)+

lemma norm_datum_cmp [simp]: "datum_cmp D (norm a) b = datum_cmp D a b" "datum_cmp D a (norm b) = datum_cmp D a b"
  by (cases a; simp)+

lemma norm_typed_to_string [simp]: "typed_to_string L t (norm d) = typed_to_string L t d"
  by (cases d) (simp_all add: typed_to_string_def)

definition respects_norm :: "'d scalar_function \<Rightarrow> bool" where
  "respects_norm f \<longleftrightarrow>
     (\<forall>session sig args. map_option norm (f session sig (map norm args)) = map_option norm (f session sig args))"

lemma arg_norm [simp]: "arg (map norm args) i = map_option norm (arg args i)"
  by (simp add: arg_def)

lemma unary_norm [simp]: "(\<And>d. get (norm d) = get d) \<Longrightarrow> unary get f (map norm args) = unary get f args"
  by (cases "arg args 0") (simp_all add: unary_def)

lemma binary_norm [simp]:
  "(\<And>d. get0 (norm d) = get0 d) \<Longrightarrow> (\<And>d. get1 (norm d) = get1 d) \<Longrightarrow> binary get0 get1 f (map norm args) = binary get0 get1 f args"
  by (cases "arg args 0"; cases "arg args 1") (simp_all add: binary_def cong: option.case_cong)

lemma compare_norm [simp]:
  "(\<And>a b. f (norm a) (norm b) = f a b) \<Longrightarrow> compare f (map norm args) = compare f args"
  by (cases "arg args 0"; cases "arg args 1") (simp_all add: compare_def)

lemma find_norm: "find (\<lambda>d. \<not> is_null d) (map norm args) = map_option norm (find (\<lambda>d. \<not> is_null d) args)"
  by (induction args) simp_all

named_theorems respects_norm \<open>the functions and the representation of byte strings\<close>

lemma logic_norm [respects_norm]:
  "respects_norm And" "respects_norm Or" "respects_norm Not_fn" "respects_norm (Eq D)" "respects_norm (NE D)" "respects_norm (Gt D)"
  "respects_norm (Gte D)" "respects_norm (Lt D)" "respects_norm (Lte D)"
  by (simp_all add: respects_norm_def And_def Or_def Not_fn_def Eq_def NE_def Gt_def Gte_def Lt_def Lte_def)

lemma arithmetic_norm [respects_norm]:
  "respects_norm AddInteger" "respects_norm AddBigint" "respects_norm (AddDecimal D1)" "respects_norm SubtractInteger"
  "respects_norm SubtractBigint" "respects_norm (SubtractDecimal D1)" "respects_norm MultiplyInteger" "respects_norm MultiplyBigint"
  "respects_norm (MultiplyDecimal D2)" "respects_norm DivideInteger" "respects_norm DivideBigint" "respects_norm (DivideDecimal D3)"
  by (simp_all add: respects_norm_def AddInteger_def AddBigint_def AddDecimal_def SubtractInteger_def SubtractBigint_def SubtractDecimal_def
      MultiplyInteger_def MultiplyBigint_def MultiplyDecimal_def DivideInteger_def DivideBigint_def DivideDecimal_def)

lemma predicate_norm [respects_norm]:
  "respects_norm (Between D)" "respects_norm IsNull" "respects_norm (IsTrue D)" "respects_norm (IsFalse D)"
  subgoal
  proof -
    have "map_option norm (Between D session sig (map norm args)) = map_option norm (Between D session sig args)" for session sig args
      by (cases "arg args 0"; cases "arg args 1"; cases "arg args 2") (simp_all add: Between_def)
    then show ?thesis by (simp add: respects_norm_def)
  qed
  by (simp_all add: respects_norm_def IsNull_def IsTrue_def IsFalse_def datum_eq_def option.map_comp comp_def)

lemma cast_norm [respects_norm]:
  "respects_norm ToIntFromBoolean" "respects_norm ToIntFromInt" "respects_norm ToIntFromBigInt" "respects_norm (ToIntFromDecimal D)"
  "respects_norm ToIntFromText" "respects_norm (ToIntFromJson D)" "respects_norm ToBigIntFromBoolean" "respects_norm ToBigIntFromInt"
  "respects_norm ToBigIntFromBigInt" "respects_norm (ToBigIntFromDecimal D)" "respects_norm ToBigIntFromText"
  "respects_norm (ToBigIntFromJson D)" "respects_norm ToBooleanFromBoolean" "respects_norm ToBooleanFromText"
  "respects_norm ToBooleanFromJson" "respects_norm (ToDecimalFromBoolean D0)" "respects_norm (ToDecimalFromInt D)"
  "respects_norm (ToDecimalFromBigInt D)" "respects_norm (ToDecimalFromDecimal D)" "respects_norm (ToDecimalFromText D)"
  "respects_norm (ToDecimalFromJson D)"
  by (simp_all add: respects_norm_def ToIntFromBoolean_def ToIntFromInt_def ToIntFromBigInt_def ToIntFromDecimal_def ToIntFromText_def
      ToIntFromJson_def ToBigIntFromBoolean_def ToBigIntFromInt_def ToBigIntFromBigInt_def ToBigIntFromDecimal_def ToBigIntFromText_def
      ToBigIntFromJson_def ToBooleanFromBoolean_def ToBooleanFromText_def ToBooleanFromJson_def ToDecimalFromBoolean_def
      ToDecimalFromInt_def ToDecimalFromBigInt_def ToDecimalFromDecimal_def ToDecimalFromText_def ToDecimalFromJson_def
      option.map_comp comp_def)

lemma text_json_norm [respects_norm]:
  "respects_norm (ToDateFromText C)" "respects_norm (ToTimestampFromText C)" "respects_norm ToTextFromText"
  "respects_norm ToTextFromBoolean" "respects_norm (ToJsonpath L)" "respects_norm TypeOf" "respects_norm ToJsonFromBoolean"
  "respects_norm ToJsonFromInt" "respects_norm ToJsonFromBigInt" "respects_norm (ToJsonFromDecimal D)" "respects_norm (ToJsonFromText L)"
  "respects_norm JsonExtract" "respects_norm Database"
  by (simp_all add: respects_norm_def ToDateFromText_def ToTimestampFromText_def ToTextFromText_def ToTextFromBoolean_def ToJsonpath_def
      TypeOf_def ToJsonFromBoolean_def ToJsonFromInt_def ToJsonFromBigInt_def ToJsonFromDecimal_def ToJsonFromText_def JsonExtract_def
      Database_def option.map_comp comp_def)

lemma coalesce_norm [respects_norm]: "respects_norm Coalesce"
  by (simp add: respects_norm_def Coalesce_def find_norm split: option.split)

lemma if_norm [respects_norm]: "respects_norm (IfFn :: 'd scalar_function)"
proof -
  have "map_option norm (IfFn session sig (map norm args)) = map_option norm (IfFn session sig args)" for session sig and args :: "'d datum list"
    by (cases "arg args 0") (simp_all add: IfFn_def option.map_comp comp_def)
  then show ?thesis by (simp add: respects_norm_def)
qed

lemma date_sub_norm [respects_norm]: "respects_norm (DateSub C :: 'd scalar_function)"
proof -
  have "map_option norm (DateSub C session sig (map norm args)) = map_option norm (DateSub C session sig args)" for session sig and args :: "'d datum list"
    by (cases "arg args 0"; cases "arg args 1") (simp_all add: DateSub_def)
  then show ?thesis by (simp add: respects_norm_def)
qed

lemma to_text_norm [respects_norm]: "respects_norm (ToTextFromAny L)"
proof -
  have "map_option norm (ToTextFromAny L session sig (map norm args)) = map_option norm (ToTextFromAny L session sig args)" for session sig args
    by (cases "arg args 0") (simp_all add: ToTextFromAny_def datum_eq_def)
  then show ?thesis by (simp add: respects_norm_def)
qed

lemma json_unquote_norm [respects_norm]: "respects_norm (JsonUnquote L)"
proof -
  have "map_option norm (JsonUnquote L session sig (map norm args)) = map_option norm (JsonUnquote L session sig args)" for session sig args
    by (cases "arg args 0") (simp_all add: JsonUnquote_def cong del: option.case_cong_weak)
  then show ?thesis by (simp add: respects_norm_def)
qed

section \<open>Integer division\<close>

lemma quotient_to_zero_bounds:
  assumes "- (2 ^ k) \<le> a" "a < 2 ^ k" "b \<noteq> 0" "\<not> (a = - (2 ^ k) \<and> b = - 1)"
  shows "- (2 ^ k) \<le> quotient_to_zero a b" "quotient_to_zero a b < 2 ^ k"
proof -
  have "1 \<le> \<bar>b\<bar>" using assms(3) by simp
  then have le: "\<bar>a\<bar> div \<bar>b\<bar> \<le> \<bar>a\<bar>" using zdiv_mono2 [of "\<bar>a\<bar>" 1 "\<bar>b\<bar>"] by simp
  have nn: "0 \<le> \<bar>a\<bar> div \<bar>b\<bar>" using assms(3) by (simp add: pos_imp_zdiv_nonneg_iff)
  have abs: "\<bar>quotient_to_zero a b\<bar> \<le> \<bar>a\<bar> div \<bar>b\<bar>" using nn by (auto simp: quotient_to_zero_def Let_def)
  then show "- (2 ^ k) \<le> quotient_to_zero a b" using le assms(1,2) by linarith
  show "quotient_to_zero a b < 2 ^ k"
  proof (cases "a = - (2 ^ k)")
    case False
    then show ?thesis using abs le assms(1,2) by linarith
  next
    case a: True
    show ?thesis
    proof (cases "0 < b")
      case True
      then have "quotient_to_zero a b \<le> 0" using nn by (simp add: quotient_to_zero_def a Let_def)
      then show ?thesis by (smt (verit) zero_less_power)
    next
      case False
      then have "2 \<le> \<bar>b\<bar>" using assms(3,4) a by auto
      then have "\<bar>a\<bar> div \<bar>b\<bar> \<le> \<bar>a\<bar> div 2" by (intro zdiv_mono2) auto
      moreover have "\<bar>a\<bar> div 2 < \<bar>a\<bar>" using a by (intro int_div_less_self) auto
      ultimately show ?thesis using abs a by (smt (verit) zero_less_power)
    qed
  qed
qed

lemma checked_div_spec:
  fixes a b :: "'a::len word"
  shows "checked_div a b = None \<longleftrightarrow> b = 0 \<or> sint a = - (2 ^ (LENGTH('a) - 1)) \<and> b = - 1"
    and "checked_div a b = Some q \<Longrightarrow> sint q = quotient_to_zero (sint a) (sint b)"
proof -
  show "checked_div a b = None \<longleftrightarrow> b = 0 \<or> sint a = - (2 ^ (LENGTH('a) - 1)) \<and> b = - 1" by (simp add: checked_div_def)
  assume q: "checked_div a b = Some q"
  then have b: "b \<noteq> 0" "\<not> (sint a = - (2 ^ (LENGTH('a) - 1)) \<and> b = - 1)" and qq: "q = word_of_int (quotient_to_zero (sint a) (sint b))"
    by (auto simp: checked_div_def split: if_splits)
  have ne: "sint b \<noteq> 0" using b(1) signed_word_eqI [of b 0] by auto
  have m1: "sint b \<noteq> - 1 \<or> b = - 1" using signed_word_eqI [of b "- 1"] by auto
  have "- (2 ^ (LENGTH('a) - 1)) \<le> sint a" "sint a < 2 ^ (LENGTH('a) - 1)" using sint_ge [of a] sint_lt [of a] by simp_all
  then have "- (2 ^ (LENGTH('a) - 1)) \<le> quotient_to_zero (sint a) (sint b)" "quotient_to_zero (sint a) (sint b) < 2 ^ (LENGTH('a) - 1)"
    using quotient_to_zero_bounds [of "LENGTH('a) - 1" "sint a" "sint b"] ne m1 b(2) by blast+
  then have "signed_take_bit (LENGTH('a) - Suc 0) (quotient_to_zero (sint a) (sint b)) = quotient_to_zero (sint a) (sint b)"
    by (intro signed_take_bit_int_eq_self) simp_all
  then show "sint q = quotient_to_zero (sint a) (sint b)" by (simp add: qq sint_sbintrunc')
qed


definition example_sig :: function_signature where
  "example_sig = \<lparr>sig_name = ''/'', sig_args = [T_BigInt, T_BigInt], sig_ret = T_BigInt\<rparr>"


end
