(* ===== verification/Registry.thy ===== *)
theory Registry
  imports Functions_Scalar
begin

text \<open>
  The function registry (\<open>functions/src/lib.rs\<close>, \<open>registry.rs\<close> and the \<open>register_builtins\<close> functions of
  \<open>functions/src/scalar\<close> and \<open>functions/src/aggregate\<close>): the definitions of functions, the registration of
  the built in ones, the ranking of candidates and the resolution of a call to a function or to a
  compound of functions that first widens its arguments.  A rank is a sum of at most ten summands of
  at most two and is a natural number.
\<close>

section \<open>Definitions of functions\<close>

datatype compound_function = CompoundFunction string "compound_function_arg list"
and compound_function_arg = Function compound_function | Input nat

datatype 'd function_type =
    Scalar "'d scalar_function"
  | Aggregate "'d aggregate_function"
  | Compound compound_function

record 'd function_definition =
  signature :: function_signature
  custom_return_type_resolver :: "(data_type list \<Rightarrow> data_type option) option"
  function_of :: "'d function_type"

definition function_definition_new ::
  "string \<Rightarrow> data_type list \<Rightarrow> data_type \<Rightarrow> 'd function_type \<Rightarrow> 'd function_definition option" where
  "function_definition_new name args ret f =
     Some \<lparr>signature = \<lparr>sig_name = name, sig_args = args, sig_ret = ret\<rparr>, custom_return_type_resolver = None, function_of = f\<rparr>"

definition new_with_type_resolver ::
  "string \<Rightarrow> data_type list \<Rightarrow> (data_type list \<Rightarrow> data_type option) \<Rightarrow> 'd function_type \<Rightarrow> 'd function_definition option" where
  "new_with_type_resolver name args return_type_resolver f =
     map_option (\<lambda>ret. \<lparr>signature = \<lparr>sig_name = name, sig_args = args, sig_ret = ret\<rparr>,
       custom_return_type_resolver = Some return_type_resolver, function_of = f\<rparr>) (return_type_resolver args)"

type_synonym 'd registry = "string \<rightharpoonup> 'd function_definition list"

definition register_function :: "'d function_definition \<Rightarrow> 'd registry \<Rightarrow> 'd registry" where
  "register_function d r =
     r(sig_name (signature d) \<mapsto> (case r (sig_name (signature d)) of Some ds \<Rightarrow> ds @ [d] | None \<Rightarrow> [d]))"

section \<open>Return types\<close>

text \<open>The resolvers of decimal arithmetic: the precision and scale of the result.\<close>

fun either_decimal :: "data_type \<Rightarrow> data_type \<Rightarrow> data_type option" where
  "either_decimal (T_Decimal p s) _ = Some (T_Decimal p s)"
| "either_decimal _ (T_Decimal p s) = Some (T_Decimal p s)"
| "either_decimal _ _ = None"

definition arg_type :: "data_type list \<Rightarrow> nat \<Rightarrow> data_type option" where
  "arg_type args i = (if i < length args then Some (args ! i) else None)"

definition decimal_pair ::
  "nat \<Rightarrow> nat \<Rightarrow> (u8 \<Rightarrow> u8 \<Rightarrow> u8 \<Rightarrow> u8 \<Rightarrow> data_type) \<Rightarrow> data_type list \<Rightarrow> data_type option" where
  "decimal_pair i j f args =
     Option.bind (arg_type args i) (\<lambda>a. Option.bind (arg_type args j) (\<lambda>b.
       case (a, b) of
         (T_Decimal p1 s1, T_Decimal p2 s2) \<Rightarrow> Some (f p1 s1 p2 s2)
       | _ \<Rightarrow> either_decimal a b))"

definition add_type :: "data_type list \<Rightarrow> data_type option" where
  "add_type = decimal_pair 0 1 (\<lambda>p1 s1 p2 s2.
     let s = max s1 s2; p = min (max (p1 - s1) (p2 - s2) + s + 1) DECIMAL_MAX_PRECISION in T_Decimal p s)"

definition multiply_type :: "data_type list \<Rightarrow> data_type option" where
  "multiply_type = decimal_pair 0 1 (\<lambda>p1 s1 p2 s2.
     let s = min (s1 + s2) DECIMAL_MAX_SCALE; p = min (p1 + p2) DECIMAL_MAX_PRECISION in T_Decimal p s)"

definition if_type :: "data_type list \<Rightarrow> data_type option" where
  "if_type = decimal_pair 1 2 (\<lambda>p1 s1 p2 s2.
     let s = max s1 s2; p = min (max (p1 - s1) (p2 - s2) + s) DECIMAL_MAX_PRECISION in T_Decimal p s)"

fun whole_and_frac :: "data_type \<Rightarrow> (u8 \<times> u8) option" where
  "whole_and_frac (T_Decimal p s) = Some (p - s, s)"
| "whole_and_frac _ = None"

definition coalesce_type :: "data_type list \<Rightarrow> data_type option" where
  "coalesce_type args =
     map_option (\<lambda>ws. case fold (\<lambda>(w2, s2) (w1, s1). (max w1 w2, max s1 s2)) ws (0, 0) of
         (w, s) \<Rightarrow> T_Decimal (min DECIMAL_MAX_PRECISION (w + s)) s)
       (those (map whole_and_frac (filter (\<lambda>d. d \<noteq> T_Null) args)))"

definition sum_type :: "data_type list \<Rightarrow> data_type option" where
  "sum_type args =
     Option.bind (arg_type args 0) (\<lambda>a.
       case a of T_Decimal _ scale \<Rightarrow> Some (T_Decimal DECIMAL_MAX_PRECISION scale) | _ \<Rightarrow> None)"

section \<open>The built in functions\<close>

abbreviation comparable_types :: "data_type list" where
  "comparable_types \<equiv> [T_Boolean, T_Integer, T_BigInt, T_Decimal 0 0, T_Text, T_Date]"

definition and_builtins :: "'d function_definition option list" where
  "and_builtins = [function_definition_new ''and'' [T_Boolean, T_Boolean] T_Boolean (Scalar And)]"

definition between_builtins :: "'d decimal_lib \<Rightarrow> 'd function_definition option list" where
  "between_builtins D = map (\<lambda>t. function_definition_new ''between'' [t, t, t] T_Boolean (Scalar (Between D))) comparable_types"

definition eq_builtins :: "'d decimal_lib \<Rightarrow> 'd function_definition option list" where
  "eq_builtins D = map (\<lambda>t. function_definition_new ''='' [t, t] T_Boolean (Scalar (Eq D))) comparable_types"

definition gt_builtins :: "'d decimal_lib \<Rightarrow> 'd function_definition option list" where
  "gt_builtins D = map (\<lambda>t. function_definition_new ''>'' [t, t] T_Boolean (Scalar (Gt D))) comparable_types"

definition gte_builtins :: "'d decimal_lib \<Rightarrow> 'd function_definition option list" where
  "gte_builtins D = map (\<lambda>t. function_definition_new ''>='' [t, t] T_Boolean (Scalar (Gte D))) comparable_types"

definition is_false_builtins :: "'d decimal_lib \<Rightarrow> 'd function_definition option list" where
  "is_false_builtins D = [function_definition_new ''isfalse'' [T_Boolean] T_Boolean (Scalar (IsFalse D))]"

definition is_null_builtins :: "'d function_definition option list" where
  "is_null_builtins = [function_definition_new ''isnull'' [T_Null] T_Boolean (Scalar IsNull)]"

definition is_true_builtins :: "'d decimal_lib \<Rightarrow> 'd function_definition option list" where
  "is_true_builtins D = [function_definition_new ''istrue'' [T_Boolean] T_Boolean (Scalar (IsTrue D))]"

definition lt_builtins :: "'d decimal_lib \<Rightarrow> 'd function_definition option list" where
  "lt_builtins D = map (\<lambda>t. function_definition_new ''<'' [t, t] T_Boolean (Scalar (Lt D))) comparable_types"

definition lte_builtins :: "'d decimal_lib \<Rightarrow> 'd function_definition option list" where
  "lte_builtins D = map (\<lambda>t. function_definition_new ''<='' [t, t] T_Boolean (Scalar (Lte D))) comparable_types"

definition ne_builtins :: "'d decimal_lib \<Rightarrow> 'd function_definition option list" where
  "ne_builtins D = map (\<lambda>t. function_definition_new ''!='' [t, t] T_Boolean (Scalar (NE D))) comparable_types"

definition not_builtins :: "'d function_definition option list" where
  "not_builtins = [function_definition_new ''not'' [T_Boolean] T_Boolean (Scalar Not_fn)]"

definition or_builtins :: "'d function_definition option list" where
  "or_builtins = [function_definition_new ''or'' [T_Boolean, T_Boolean] T_Boolean (Scalar Or)]"

definition bool_builtins :: "'d decimal_lib \<Rightarrow> 'd function_definition option list" where
  "bool_builtins D =
     and_builtins @ between_builtins D @ eq_builtins D @ gt_builtins D @ gte_builtins D @ is_false_builtins D @ is_null_builtins @
     is_true_builtins D @ lt_builtins D @ lte_builtins D @ ne_builtins D @ not_builtins @ or_builtins"

definition to_bigint_builtins :: "'d decimal_lib \<Rightarrow> 'd function_definition option list" where
  "to_bigint_builtins D =
     [function_definition_new ''to_bigint'' [T_Boolean] T_BigInt (Scalar ToBigIntFromBoolean),
      function_definition_new ''to_bigint'' [T_Integer] T_BigInt (Scalar ToBigIntFromInt),
      function_definition_new ''to_bigint'' [T_BigInt] T_BigInt (Scalar ToBigIntFromBigInt),
      function_definition_new ''to_bigint'' [T_Decimal 0 0] T_BigInt (Scalar (ToBigIntFromDecimal D)),
      function_definition_new ''to_bigint'' [T_Text] T_BigInt (Scalar ToBigIntFromText),
      function_definition_new ''to_bigint'' [T_Json] T_BigInt (Scalar (ToBigIntFromJson D))]"

definition to_bool_builtins :: "'d function_definition option list" where
  "to_bool_builtins =
     [function_definition_new ''to_bool'' [T_Boolean] T_Boolean (Scalar ToBooleanFromBoolean),
      function_definition_new ''to_bool'' [T_Text] T_Boolean (Scalar ToBooleanFromText),
      function_definition_new ''to_bool'' [T_Json] T_Boolean (Scalar ToBooleanFromJson)]"

definition to_date_builtins :: "('n, 't) chrono \<Rightarrow> 'd function_definition option list" where
  "to_date_builtins C =
     [function_definition_new ''to_date'' [T_Text] T_Date (Scalar (ToDateFromText C))]"

definition to_decimal_builtins :: "'d decimal_lib \<Rightarrow> 'd function_definition option list" where
  "to_decimal_builtins D =
     [function_definition_new ''to_decimal'' [T_Boolean] (T_Decimal 1 0) (Scalar (ToDecimalFromBoolean D)),
      function_definition_new ''to_decimal'' [T_Integer] (T_Decimal 10 0) (Scalar (ToDecimalFromInt D)),
      function_definition_new ''to_decimal'' [T_BigInt] (T_Decimal 20 0) (Scalar (ToDecimalFromBigInt D)),
      new_with_type_resolver ''to_decimal'' [T_Decimal 0 0] (\<lambda>args. arg_type args 0) (Scalar (ToDecimalFromDecimal D)),
      function_definition_new ''to_decimal'' [T_Text] (T_Decimal DECIMAL_MAX_PRECISION DECIMAL_MAX_SCALE) (Scalar (ToDecimalFromText D)),
      function_definition_new ''to_decimal'' [T_Json] (T_Decimal DECIMAL_MAX_PRECISION DECIMAL_MAX_SCALE) (Scalar (ToDecimalFromJson D))]"

definition to_int_builtins :: "'d decimal_lib \<Rightarrow> 'd function_definition option list" where
  "to_int_builtins D =
     [function_definition_new ''to_int'' [T_Boolean] T_Integer (Scalar ToIntFromBoolean),
      function_definition_new ''to_int'' [T_Integer] T_Integer (Scalar ToIntFromInt),
      function_definition_new ''to_int'' [T_BigInt] T_Integer (Scalar ToIntFromBigInt),
      function_definition_new ''to_int'' [T_Decimal 0 0] T_Integer (Scalar (ToIntFromDecimal D)),
      function_definition_new ''to_int'' [T_Text] T_Integer (Scalar ToIntFromText),
      function_definition_new ''to_int'' [T_Json] T_Integer (Scalar (ToIntFromJson D))]"

definition to_json_builtins :: "('d, 'n, 't) function_lib \<Rightarrow> 'd function_definition option list" where
  "to_json_builtins L =
     [function_definition_new ''to_json'' [T_Boolean] T_Json (Scalar ToJsonFromBoolean),
      function_definition_new ''to_json'' [T_Integer] T_Json (Scalar ToJsonFromInt),
      function_definition_new ''to_json'' [T_BigInt] T_Json (Scalar ToJsonFromBigInt),
      function_definition_new ''to_json'' [T_Decimal 0 0] T_Json (Scalar (ToJsonFromDecimal (f_decimal L))),
      function_definition_new ''to_json'' [T_Text] T_Json (Scalar (ToJsonFromText L))]"

definition to_jsonpath_builtins :: "('d, 'n, 't) function_lib \<Rightarrow> 'd function_definition option list" where
  "to_jsonpath_builtins L =
     [function_definition_new ''to_jsonpath'' [T_Text] T_JsonPath (Scalar (ToJsonpath L))]"

definition to_text_builtins :: "('d, 'n, 't) function_lib \<Rightarrow> 'd function_definition option list" where
  "to_text_builtins L =
     [function_definition_new ''to_text'' [T_Boolean] T_Text (Scalar ToTextFromBoolean),
      function_definition_new ''to_text'' [T_Text] T_Text (Scalar ToTextFromText),
      function_definition_new ''to_text'' [T_Null] T_Text (Scalar (ToTextFromAny L))]"

definition to_timestamp_builtins :: "('n, 't) chrono \<Rightarrow> 'd function_definition option list" where
  "to_timestamp_builtins C =
     [function_definition_new ''to_timestamp'' [T_Text] T_Timestamp (Scalar (ToTimestampFromText C))]"

definition type_of_builtins :: "'d function_definition option list" where
  "type_of_builtins =
     [function_definition_new ''type_of'' [T_Null] T_Text (Scalar TypeOf)]"

definition cast_builtins :: "('d, 'n, 't) function_lib \<Rightarrow> 'd function_definition option list" where
  "cast_builtins L = (let D = f_decimal L; C = f_chrono L in
     to_bigint_builtins D @ to_bool_builtins @ to_date_builtins C @ to_decimal_builtins D @ to_int_builtins D @ to_json_builtins L @
     to_jsonpath_builtins L @ to_text_builtins L @ to_timestamp_builtins C @ type_of_builtins)"

definition date_builtins :: "('n, 't) chrono \<Rightarrow> 'd function_definition option list" where
  "date_builtins C =
     [function_definition_new ''date_sub'' [T_Date, T_Integer] T_Date (Scalar (DateSub C))]"

definition json_extract_builtins :: "'d function_definition option list" where
  "json_extract_builtins =
     [function_definition_new ''json_extract'' [T_Json, T_JsonPath] T_Json (Scalar JsonExtract),
      function_definition_new ''->'' [T_Json, T_JsonPath] T_Json (Scalar JsonExtract)]"

definition json_extract_unquote_builtins :: "'d function_definition option list" where
  "json_extract_unquote_builtins =
     [function_definition_new ''->>'' [T_Json, T_Text] T_Text
        (Compound (CompoundFunction ''json_unquote'' [Function (CompoundFunction ''json_extract'' [Input 0, Input 1])]))]"

definition json_unquote_builtins :: "('d, 'n, 't) function_lib \<Rightarrow> 'd function_definition option list" where
  "json_unquote_builtins L =
     [function_definition_new ''json_unquote'' [T_Json] T_Text (Scalar (JsonUnquote L))]"

definition json_builtins :: "('d, 'n, 't) function_lib \<Rightarrow> 'd function_definition option list" where
  "json_builtins L = json_extract_builtins @ json_extract_unquote_builtins @ json_unquote_builtins L"

definition add_builtins :: "'d decimal_lib \<Rightarrow> 'd function_definition option list" where
  "add_builtins D =
     [function_definition_new ''+'' [T_Integer, T_Integer] T_Integer (Scalar AddInteger),
      function_definition_new ''+'' [T_BigInt, T_BigInt] T_BigInt (Scalar AddBigint),
      new_with_type_resolver ''+'' [T_Decimal 0 0, T_Decimal 0 0] add_type (Scalar (AddDecimal D))]"

definition divide_builtins :: "'d decimal_lib \<Rightarrow> 'd function_definition option list" where
  "divide_builtins D =
     [function_definition_new ''/'' [T_Integer, T_Integer] T_Integer (Scalar DivideInteger),
      function_definition_new ''/'' [T_BigInt, T_BigInt] T_BigInt (Scalar DivideBigint),
      function_definition_new ''/'' [T_Decimal 0 0, T_Decimal 0 0] (T_Decimal DECIMAL_MAX_PRECISION DECIMAL_MAX_SCALE) (Scalar (DivideDecimal D))]"

definition multiply_builtins :: "'d decimal_lib \<Rightarrow> 'd function_definition option list" where
  "multiply_builtins D =
     [function_definition_new ''*'' [T_Integer, T_Integer] T_Integer (Scalar MultiplyInteger),
      function_definition_new ''*'' [T_BigInt, T_BigInt] T_BigInt (Scalar MultiplyBigint),
      new_with_type_resolver ''*'' [T_Decimal 0 0, T_Decimal 0 0] multiply_type (Scalar (MultiplyDecimal D))]"

definition subtract_builtins :: "'d decimal_lib \<Rightarrow> 'd function_definition option list" where
  "subtract_builtins D =
     [function_definition_new ''-'' [T_Integer, T_Integer] T_Integer (Scalar SubtractInteger),
      function_definition_new ''-'' [T_BigInt, T_BigInt] T_BigInt (Scalar SubtractBigint),
      new_with_type_resolver ''-'' [T_Decimal 0 0, T_Decimal 0 0] add_type (Scalar (SubtractDecimal D))]"

definition maths_builtins :: "'d decimal_lib \<Rightarrow> 'd function_definition option list" where
  "maths_builtins D = add_builtins D @ divide_builtins D @ multiply_builtins D @ subtract_builtins D"

abbreviation coalesce_types :: "data_type list" where
  "coalesce_types \<equiv> [T_Boolean, T_Integer, T_BigInt, T_Text, T_ByteA, T_Date, T_Timestamp, T_Json, T_Decimal 0 0]"

definition coalesce_builtins :: "'d function_definition option list" where
  "coalesce_builtins =
     concat (map (\<lambda>t. map (\<lambda>arg_count.
       if t = T_Decimal 0 0 then new_with_type_resolver ''coalesce'' (replicate arg_count t) coalesce_type (Scalar Coalesce)
       else function_definition_new ''coalesce'' (replicate arg_count t) t (Scalar Coalesce)) [1..<11]) coalesce_types)"

definition if_builtins :: "'d function_definition option list" where
  "if_builtins =
     map (\<lambda>t. if t = T_Decimal 0 0 then new_with_type_resolver ''if'' [T_Boolean, t, t] if_type (Scalar IfFn)
       else function_definition_new ''if'' [T_Boolean, t, t] t (Scalar IfFn)) coalesce_types"

definition misc_builtins :: "'d function_definition option list" where
  "misc_builtins = coalesce_builtins @ if_builtins"

definition session_builtins :: "'d function_definition option list" where
  "session_builtins = [function_definition_new ''database'' [] T_Text (Scalar Database)]"

definition avg_builtins :: "'d decimal_lib \<Rightarrow> 'd function_definition option list" where
  "avg_builtins D =
     [function_definition_new ''avg'' [T_Integer] (T_Decimal DECIMAL_MAX_PRECISION DECIMAL_MAX_SCALE) (Aggregate (IntAvg D)),
      function_definition_new ''avg'' [T_BigInt] (T_Decimal DECIMAL_MAX_PRECISION DECIMAL_MAX_SCALE) (Aggregate (BigIntAvg D)),
      function_definition_new ''avg'' [T_Decimal 0 0] (T_Decimal DECIMAL_MAX_PRECISION DECIMAL_MAX_SCALE) (Aggregate (DecimalAvg D))]"

definition sum_builtins :: "'d decimal_lib \<Rightarrow> 'd function_definition option list" where
  "sum_builtins D =
     [function_definition_new ''sum'' [T_Integer] T_Integer (Aggregate IntSum),
      function_definition_new ''sum'' [T_BigInt] T_BigInt (Aggregate BigintSum),
      new_with_type_resolver ''sum'' [T_Decimal 0 0] sum_type (Aggregate (DecimalSum D))]"

definition count_builtins :: "'d function_definition option list" where
  "count_builtins =
     [function_definition_new ''count'' [] T_BigInt (Aggregate Count),
      function_definition_new ''count'' [T_Null] T_BigInt (Aggregate Count)]"

definition aggregate_builtins :: "'d decimal_lib \<Rightarrow> 'd function_definition option list" where
  "aggregate_builtins D = avg_builtins D @ sum_builtins D @ count_builtins"

definition scalar_builtins :: "('d, 'n, 't) function_lib \<Rightarrow> 'd function_definition option list" where
  "scalar_builtins L =
     bool_builtins (f_decimal L) @ cast_builtins L @ date_builtins (f_chrono L) @ json_builtins L @ maths_builtins (f_decimal L) @
     misc_builtins @ session_builtins"

text \<open>\<open>register_builtins\<close>: the aggregates, then the modules of the scalar functions in their order.\<close>

definition builtins :: "('d, 'n, 't) function_lib \<Rightarrow> 'd function_definition list option" where
  "builtins L = those (aggregate_builtins (f_decimal L) @ scalar_builtins L)"

definition registry_new :: "('d, 'n, 't) function_lib \<Rightarrow> bool \<Rightarrow> 'd registry option" where
  "registry_new L with_builtins =
     (if with_builtins then map_option (\<lambda>ds. fold register_function ds Map.empty) (builtins L) else Some Map.empty)"

section \<open>Resolution\<close>

datatype function_resolution_error =
    FunctionNotFound string
  | MatchingSignatureNotFound string "data_type list"

definition datatype_rank :: "data_type \<Rightarrow> data_type \<Rightarrow> nat option" where
  "datatype_rank from to =
     (if from = to \<or> from = T_Null \<or> to = T_Null then Some 0
      else case (from, to) of
        (T_Decimal _ _, T_Decimal _ _) \<Rightarrow> Some 0
      | (T_Integer, T_BigInt) \<Rightarrow> Some 1
      | (T_Integer, T_Decimal _ _) \<Rightarrow> Some 2
      | (T_BigInt, T_Decimal _ _) \<Rightarrow> Some 1
      | (T_Text, T_JsonPath) \<Rightarrow> Some 1
      | _ \<Rightarrow> None)"

definition candidate_rank :: "data_type list \<Rightarrow> data_type list \<Rightarrow> nat option" where
  "candidate_rank to_types from_types =
     (if length to_types = length from_types
      then fold (\<lambda>b a. case (a, b) of (Some a, Some b) \<Rightarrow> Some (a + b) | _ \<Rightarrow> None)
        (map (\<lambda>(to, from). datatype_rank from to) (zip to_types from_types)) (Some 0)
      else None)"

definition ranked_candidates :: "'d function_definition list \<Rightarrow> data_type list \<Rightarrow> (nat \<times> 'd function_definition) list" where
  "ranked_candidates candidates args =
     sort_key fst (List.map_filter (\<lambda>c. map_option (\<lambda>rank. (rank, c)) (candidate_rank (sig_args (signature c)) args)) candidates)"

text \<open>The arguments of the compound: widened by the cast function of the parameter where needed.\<close>

definition compound_args :: "data_type list \<Rightarrow> data_type list \<Rightarrow> compound_function_arg list option" where
  "compound_args from_types to_types =
     those (map (\<lambda>(idx, from, to).
       if datatype_rank from to = Some 0 then Some (Input idx)
       else map_option (\<lambda>name. Function (CompoundFunction name [Input idx])) (cast_function to))
       (zip [0..<length from_types] (zip from_types to_types)))"

definition resolve_function ::
  "'d registry \<Rightarrow> function_signature \<Rightarrow> (function_resolution_error + function_signature \<times> 'd function_type) option" where
  "resolve_function registry sig =
     (case registry (sig_name sig) of
        None \<Rightarrow> Some (Inl (FunctionNotFound (sig_name sig)))
      | Some candidates \<Rightarrow>
          (case ranked_candidates candidates (sig_args sig) of
             [] \<Rightarrow> Some (Inl (MatchingSignatureNotFound (sig_name sig) (sig_args sig)))
           | (rank, candidate) # _ \<Rightarrow>
               if rank \<noteq> 0 then
                 map_option (\<lambda>args. Inr (signature candidate, Compound (CompoundFunction (sig_name (signature candidate)) args)))
                   (compound_args (sig_args sig) (sig_args (signature candidate)))
               else
                 map_option (\<lambda>ret. Inr (\<lparr>sig_name = sig_name (signature candidate), sig_args = sig_args sig, sig_ret = ret\<rparr>,
                     function_of candidate))
                   (if sig_ret sig \<noteq> T_Null then Some (sig_ret sig)
                    else case custom_return_type_resolver candidate of
                      Some type_resolver \<Rightarrow> type_resolver (sig_args sig)
                    | None \<Rightarrow> Some (sig_ret (signature candidate)))))"

section \<open>Ranks\<close>

lemma fold_ranks:
  "fold (\<lambda>b a. case (a, b) of (Some a, Some b) \<Rightarrow> Some (a + b) | _ \<Rightarrow> None) rs acc =
     (case acc of None \<Rightarrow> None | Some n \<Rightarrow> map_option (\<lambda>ks. n + sum_list ks) (those rs))"
proof (induction rs arbitrary: acc)
  case Nil
  then show ?case by (cases acc) simp_all
next
  case (Cons r rs)
  then show ?case by (cases acc; cases r; cases "those rs") (simp_all add: add.assoc)
qed

lemma those_eq_Some: "those xs = Some ys \<longleftrightarrow> xs = map Some ys"
proof (induction xs arbitrary: ys)
  case (Cons x xs)
  then show ?case by (cases ys; cases x; cases "those xs") auto
qed auto

lemma candidate_rank_iff:
  "candidate_rank to_types from_types = Some k \<longleftrightarrow>
     (\<exists>ks. list_all2 (\<lambda>(to, from) k. datatype_rank from to = Some k) (zip to_types from_types) ks \<and> sum_list ks = k \<and>
        length to_types = length from_types)"
proof -
  have "map (\<lambda>(to, from). datatype_rank from to) (zip to_types from_types) = map Some ks \<longleftrightarrow>
    list_all2 (\<lambda>(to, from) k. datatype_rank from to = Some k) (zip to_types from_types) ks" for ks
    by (auto simp: list_all2_conv_all_nth list_eq_iff_nth_eq case_prod_beta)
  then show ?thesis unfolding candidate_rank_def fold_ranks by (auto simp: those_eq_Some)
qed

lemma candidate_rank_0:
  "candidate_rank to_types from_types = Some 0 \<longleftrightarrow> list_all2 (\<lambda>to from. datatype_rank from to = Some 0) to_types from_types"
proof
  assume "candidate_rank to_types from_types = Some 0"
  then obtain ks where ks: "list_all2 (\<lambda>(to, from) k. datatype_rank from to = Some k) (zip to_types from_types) ks" "sum_list ks = 0"
    "length to_types = length from_types" by (auto simp: candidate_rank_iff)
  have "\<forall>k \<in> set ks. k = 0" using ks(2) by simp
  then show "list_all2 (\<lambda>to from. datatype_rank from to = Some 0) to_types from_types"
    using ks by (auto simp: list_all2_conv_all_nth)
next
  assume "list_all2 (\<lambda>to from. datatype_rank from to = Some 0) to_types from_types"
  then show "candidate_rank to_types from_types = Some 0"
    by (auto simp: candidate_rank_iff list_all2_conv_all_nth intro!: exI [of _ "replicate (length to_types) 0"])
qed

lemma ranked_candidates_hd:
  assumes "ranked_candidates cs args = (rank, c) # rest"
  shows "c \<in> set cs" "candidate_rank (sig_args (signature c)) args = Some rank"
    "c' \<in> set cs \<Longrightarrow> candidate_rank (sig_args (signature c')) args = Some k \<Longrightarrow> rank \<le> k"
proof -
  let ?m = "List.map_filter (\<lambda>c. map_option (\<lambda>rank. (rank, c)) (candidate_rank (sig_args (signature c)) args)) cs"
  have mem: "(k, d) \<in> set ?m \<longleftrightarrow> d \<in> set cs \<and> candidate_rank (sig_args (signature d)) args = Some k" for k d
    by (force simp: map_filter_def)
  have set: "set (ranked_candidates cs args) = set ?m" by (simp add: ranked_candidates_def)
  then have "(rank, c) \<in> set ?m" using assms by (metis list.set_intros(1))
  then show "c \<in> set cs" "candidate_rank (sig_args (signature c)) args = Some rank" using mem by blast+
  assume "c' \<in> set cs" "candidate_rank (sig_args (signature c')) args = Some k"
  then have "(k, c') \<in> set ((rank, c) # rest)" using mem set assms by metis
  moreover have "sorted (map fst ((rank, c) # rest))" using assms sorted_sort_key [of fst ?m] by (simp add: ranked_candidates_def)
  ultimately show "rank \<le> k" by (auto simp: sorted_simps)
qed

lemma ranked_candidates_Nil: "ranked_candidates cs args = [] \<longleftrightarrow> (\<forall>c \<in> set cs. candidate_rank (sig_args (signature c)) args = None)"
proof -
  have "ranked_candidates cs args = [] \<longleftrightarrow>
    List.map_filter (\<lambda>c. map_option (\<lambda>rank. (rank, c)) (candidate_rank (sig_args (signature c)) args)) cs = []"
    unfolding ranked_candidates_def length_0_conv [symmetric] length_sort ..
  then show ?thesis by (auto simp: map_filter_def filter_empty_conv)
qed

text \<open>Widening: the pairs with a rank above zero.\<close>

lemma datatype_rank_eq:
  "datatype_rank from to =
     (if from = T_Null \<or> to = T_Null \<or> same_kind from to then Some 0
      else if from = T_Integer \<and> to = T_BigInt \<or> from = T_BigInt \<and> (\<exists>p s. to = T_Decimal p s) \<or> from = T_Text \<and> to = T_JsonPath
      then Some 1
      else if from = T_Integer \<and> (\<exists>p s. to = T_Decimal p s) then Some 2 else None)"
  by (cases "from"; cases to; simp add: datatype_rank_def)

lemma datatype_rank_0: "datatype_rank from to = Some 0 \<longleftrightarrow> from = T_Null \<or> to = T_Null \<or> same_kind from to"
  by (simp add: datatype_rank_eq)

lemma rank_0_accepts:
  assumes "datatype_rank from to = Some 0" "has_type from d"
  shows "accepts to d"
proof -
  consider "from = T_Null" | "to = T_Null" | "same_kind from to" using assms(1) by (auto simp: datatype_rank_0)
  then show ?thesis
  proof cases
    case 1
    then have "d = D_Null" using assms(2) by (cases d) simp_all
    then show ?thesis by (simp add: accepts_def)
  next
    case 3
    then show ?thesis using same_kind_has_type [of "from" to d] assms(2) by (simp add: accepts_def)
  qed (simp add: accepts_def)
qed

lemma ranks_0_accept:
  "list_all2 (\<lambda>to from. datatype_rank from to = Some 0) to_types from_types \<Longrightarrow> list_all2 has_type from_types ds \<Longrightarrow> list_all2 accepts to_types ds"
  by (auto simp: list_all2_conv_all_nth rank_0_accepts)

section \<open>The registry of built in functions\<close>

lemma fold_register:
  "fold register_function ds r n =
     (let cs = filter (\<lambda>d. sig_name (signature d) = n) ds in
      case r n of Some old \<Rightarrow> Some (old @ cs) | None \<Rightarrow> if cs = [] then None else Some cs)"
proof (induction ds arbitrary: r)
  case Nil
  then show ?case by (simp split: option.split)
next
  case (Cons d ds)
  show ?case unfolding fold_Cons comp_apply Cons by (cases "r n") (auto simp: register_function_def Let_def)
qed

definition lookup :: "('d, 'n, 't) function_lib \<Rightarrow> string \<Rightarrow> 'd function_definition list" where
  "lookup L n = filter (\<lambda>d. sig_name (signature d) = n) (the (builtins L))"

text \<open>What a definition promises: a scalar function is typed and blind to representations, a resolver
  gives a decimal type except for NULL arguments, the only compound is \<open>->>\<close>.\<close>

definition null_calls :: "(string \<times> data_type list) set" where
  "null_calls = {(''+'', [T_Null, T_Null]), (''-'', [T_Null, T_Null]), (''*'', [T_Null, T_Null]), (''to_decimal'', [T_Null]),
     (''sum'', [T_Null]), (''if'', [T_Null, T_Null, T_Null]), (''if'', [T_Boolean, T_Null, T_Null])}"

definition resolver_ok :: "string \<Rightarrow> data_type list \<Rightarrow> data_type \<Rightarrow> (data_type list \<Rightarrow> data_type option) \<Rightarrow> bool" where
  "resolver_ok n params ret r \<longleftrightarrow>
     (\<forall>args. list_all2 (\<lambda>to from. datatype_rank from to = Some 0) params args \<longrightarrow> (n, args) \<notin> null_calls \<longrightarrow>
        (\<exists>t. r args = Some t \<and> same_kind t ret))"

definition unquote_compound :: compound_function where
  "unquote_compound = CompoundFunction ''json_unquote'' [Function (CompoundFunction ''json_extract'' [Input 0, Input 1])]"

definition definition_ok :: "'d function_definition \<Rightarrow> bool" where
  "definition_ok d \<longleftrightarrow>
     sig_ret (signature d) \<noteq> T_Null \<and>
     (case function_of d of
        Scalar f \<Rightarrow> respects_norm f \<and> scalar_typed f (sig_args (signature d)) (sig_ret (signature d))
      | Aggregate f \<Rightarrow> True
      | Compound cf \<Rightarrow> sig_name (signature d) = ''->>'' \<and> sig_args (signature d) = [T_Json, T_Text] \<and> cf = unquote_compound) \<and>
     (case custom_return_type_resolver d of
        None \<Rightarrow> True
      | Some r \<Rightarrow> resolver_ok (sig_name (signature d)) (sig_args (signature d)) (sig_ret (signature d)) r)"

definition good :: "'d function_definition option list \<Rightarrow> bool" where
  "good ds \<longleftrightarrow> list_all (\<lambda>d. \<exists>x. d = Some x \<and> definition_ok x) ds"

lemma good_simps [simp]:
  "good []" "good (d # ds) \<longleftrightarrow> (\<exists>x. d = Some x \<and> definition_ok x) \<and> good ds" "good (ds @ ds') \<longleftrightarrow> good ds \<and> good ds'"
  "good (map f ts) \<longleftrightarrow> (\<forall>t \<in> set ts. \<exists>x. f t = Some x \<and> definition_ok x)"
  "good (concat (map g us)) \<longleftrightarrow> (\<forall>u \<in> set us. good (g u))"
  by (auto simp: good_def list_all_iff)

lemma good_new [simp]:
  "(\<exists>x. function_definition_new n args ret f = Some x \<and> definition_ok x) \<longleftrightarrow>
     ret \<noteq> T_Null \<and>
     (case f of Scalar g \<Rightarrow> respects_norm g \<and> scalar_typed g args ret | Aggregate g \<Rightarrow> True
      | Compound cf \<Rightarrow> n = ''->>'' \<and> args = [T_Json, T_Text] \<and> cf = unquote_compound)"
  by (cases f) (simp_all add: function_definition_new_def definition_ok_def)

lemma good_resolver [simp]:
  "(\<exists>x. new_with_type_resolver n args r (Scalar f) = Some x \<and> definition_ok x) \<longleftrightarrow>
     (\<exists>t. r args = Some t \<and> t \<noteq> T_Null \<and> respects_norm f \<and> scalar_typed f args t \<and> resolver_ok n args t r)"
  "(\<exists>x. new_with_type_resolver n args r (Aggregate g) = Some x \<and> definition_ok x) \<longleftrightarrow>
     (\<exists>t. r args = Some t \<and> t \<noteq> T_Null \<and> resolver_ok n args t r)"
  by (auto simp: new_with_type_resolver_def definition_ok_def)

lemmas bool_defs = bool_builtins_def and_builtins_def between_builtins_def eq_builtins_def gt_builtins_def gte_builtins_def is_false_builtins_def
  is_null_builtins_def is_true_builtins_def lt_builtins_def lte_builtins_def ne_builtins_def not_builtins_def or_builtins_def

lemmas cast_defs = cast_builtins_def to_bigint_builtins_def to_bool_builtins_def to_date_builtins_def to_decimal_builtins_def to_int_builtins_def
  to_json_builtins_def to_jsonpath_builtins_def to_text_builtins_def to_timestamp_builtins_def type_of_builtins_def

lemmas date_json_defs = date_builtins_def json_builtins_def json_extract_builtins_def json_extract_unquote_builtins_def json_unquote_builtins_def

lemmas maths_defs = maths_builtins_def add_builtins_def divide_builtins_def multiply_builtins_def subtract_builtins_def

lemmas aggregate_defs = aggregate_builtins_def avg_builtins_def sum_builtins_def count_builtins_def

lemma good_bool: "good (bool_builtins D)"
  by (simp add: bool_defs scalar_typed respects_norm)

lemma good_date: "good (date_builtins C)"
  by (simp add: date_json_defs scalar_typed respects_norm)

lemma good_json: "good (json_builtins L)"
  by (simp add: date_json_defs scalar_typed respects_norm unquote_compound_def)

lemma good_session: "good session_builtins"
  by (simp add: session_builtins_def scalar_typed respects_norm)

text \<open>The resolvers.\<close>

lemma rank_0_decimal: "datatype_rank from (T_Decimal p s) = Some 0 \<longleftrightarrow> from = T_Null \<or> (\<exists>p' s'. from = T_Decimal p' s')"
  by (cases "from") (auto simp: datatype_rank_0)

lemma rank_0_boolean: "datatype_rank from T_Boolean = Some 0 \<longleftrightarrow> from = T_Null \<or> from = T_Boolean"
  by (cases "from") (auto simp: datatype_rank_0)

lemma is_decimal: "same_kind t (T_Decimal p s) \<longleftrightarrow> (\<exists>p s. t = T_Decimal p s)"
  by (cases t) simp_all

lemma decimal_pair_decimal:
  assumes "i < length args" "j < length args" "args ! i = T_Null \<or> (\<exists>p s. args ! i = T_Decimal p s)"
    "args ! j = T_Null \<or> (\<exists>p s. args ! j = T_Decimal p s)" "args ! i \<noteq> T_Null \<or> args ! j \<noteq> T_Null"
    "\<And>p1 s1 p2 s2. \<exists>p s. f p1 s1 p2 s2 = T_Decimal p s"
  shows "\<exists>t. decimal_pair i j f args = Some t \<and> same_kind t (T_Decimal p s)"
  using assms by (auto simp: decimal_pair_def arg_type_def is_decimal)

lemmas resolver_simps = resolver_ok_def list_all2_Cons1 rank_0_decimal rank_0_boolean null_calls_def

lemma decimal_pair_ok:
  assumes "(n, [T_Null, T_Null]) \<in> null_calls" "\<And>p1 s1 p2 s2. \<exists>p s. f p1 s1 p2 s2 = T_Decimal p s"
  shows "resolver_ok n [T_Decimal 0 0, T_Decimal 0 0] (T_Decimal p s) (decimal_pair 0 1 f)"
proof -
  have "\<exists>t. decimal_pair 0 1 f args = Some t \<and> same_kind t (T_Decimal p s)"
    if args: "list_all2 (\<lambda>to from. datatype_rank from to = Some 0) [T_Decimal 0 0, T_Decimal 0 0] args" and no_null: "(n, args) \<notin> null_calls" for args
  proof -
    obtain b c where bc: "args = [b, c]" "b = T_Null \<or> (\<exists>p s. b = T_Decimal p s)" "c = T_Null \<or> (\<exists>p s. c = T_Decimal p s)"
      using args by (auto simp: list_all2_Cons1 rank_0_decimal)
    then have "b \<noteq> T_Null \<or> c \<noteq> T_Null" using no_null assms(1) by auto
    then show ?thesis using bc assms(2) by (intro decimal_pair_decimal) simp_all
  qed
  then show ?thesis by (simp add: resolver_ok_def)
qed

lemma add_type_ok: "n \<in> {''+'', ''-''} \<Longrightarrow> resolver_ok n [T_Decimal 0 0, T_Decimal 0 0] (T_Decimal p s) add_type"
  unfolding add_type_def by (rule decimal_pair_ok) (auto simp: null_calls_def Let_def)

lemma multiply_type_ok: "resolver_ok ''*'' [T_Decimal 0 0, T_Decimal 0 0] (T_Decimal p s) multiply_type"
  unfolding multiply_type_def by (rule decimal_pair_ok) (simp_all add: null_calls_def Let_def)

lemma if_type_ok: "resolver_ok ''if'' [T_Boolean, T_Decimal 0 0, T_Decimal 0 0] (T_Decimal p s) if_type"
proof -
  have "\<exists>t. if_type args = Some t \<and> same_kind t (T_Decimal p s)"
    if args: "list_all2 (\<lambda>to from. datatype_rank from to = Some 0) [T_Boolean, T_Decimal 0 0, T_Decimal 0 0] args"
      and no_null: "(''if'', args) \<notin> null_calls" for args
  proof -
    obtain a b c where abc: "args = [a, b, c]" "a = T_Null \<or> a = T_Boolean" "b = T_Null \<or> (\<exists>p s. b = T_Decimal p s)"
      "c = T_Null \<or> (\<exists>p s. c = T_Decimal p s)" using args by (auto simp: list_all2_Cons1 rank_0_decimal rank_0_boolean)
    then have "b \<noteq> T_Null \<or> c \<noteq> T_Null" using no_null by (auto simp: null_calls_def)
    then show ?thesis unfolding if_type_def using abc by (intro decimal_pair_decimal) (simp_all add: Let_def)
  qed
  then show ?thesis by (simp add: resolver_ok_def)
qed

lemma sum_type_ok: "resolver_ok ''sum'' [T_Decimal 0 0] (T_Decimal p s) sum_type"
  unfolding resolver_simps by (auto simp: sum_type_def arg_type_def)

lemma to_decimal_type_ok: "resolver_ok ''to_decimal'' [T_Decimal 0 0] (T_Decimal p s) (\<lambda>args. arg_type args 0)"
  unfolding resolver_simps by (auto simp: arg_type_def)

lemma declared_types:
  "add_type [T_Decimal 0 0, T_Decimal 0 0] = Some (T_Decimal (min 1 DECIMAL_MAX_PRECISION) 0)"
  "multiply_type [T_Decimal 0 0, T_Decimal 0 0] = Some (T_Decimal (min 0 DECIMAL_MAX_PRECISION) (min 0 DECIMAL_MAX_SCALE))"
  "if_type [T_Boolean, T_Decimal 0 0, T_Decimal 0 0] = Some (T_Decimal (min 0 DECIMAL_MAX_PRECISION) 0)"
  "sum_type [T_Decimal 0 0] = Some (T_Decimal DECIMAL_MAX_PRECISION 0)"
  "arg_type [t] 0 = Some t"
  by (simp_all add: add_type_def multiply_type_def if_type_def sum_type_def decimal_pair_def arg_type_def Let_def)

lemma coalesce_type_decimal:
  assumes "\<forall>a \<in> set args. a = T_Null \<or> (\<exists>p s. a = T_Decimal p s)"
  shows "\<exists>p s. coalesce_type args = Some (T_Decimal p s)"
proof -
  have "those (map whole_and_frac (filter (\<lambda>d. d \<noteq> T_Null) args)) = Some (map (the \<circ> whole_and_frac) (filter (\<lambda>d. d \<noteq> T_Null) args))"
    using assms by (auto simp: those_eq_Some)
  then show ?thesis by (simp add: coalesce_type_def case_prod_beta)
qed

lemma coalesce_type_ok: "resolver_ok n (replicate k (T_Decimal 0 0)) (T_Decimal p s) coalesce_type"
proof -
  have "\<exists>t. coalesce_type args = Some t \<and> same_kind t (T_Decimal p s)"
    if "list_all2 (\<lambda>to from. datatype_rank from to = Some 0) (replicate k (T_Decimal 0 0)) args" for args
  proof -
    have "\<forall>a \<in> set args. datatype_rank a (T_Decimal 0 0) = Some 0" using that by (auto simp: list_all2_conv_all_nth in_set_conv_nth)
    then have "\<forall>a \<in> set args. a = T_Null \<or> (\<exists>p s. a = T_Decimal p s)" unfolding rank_0_decimal .
    then show ?thesis using coalesce_type_decimal [of args] by auto
  qed
  then show ?thesis by (simp add: resolver_ok_def)
qed

lemma good_cast: "good (cast_builtins L)"
  by (simp add: cast_defs Let_def scalar_typed respects_norm to_decimal_type_ok declared_types)

lemma good_maths: "good (maths_builtins D)"
  by (simp add: maths_defs scalar_typed respects_norm add_type_ok multiply_type_ok declared_types)

lemma good_aggregate: "good (aggregate_builtins D)"
  by (simp add: aggregate_defs sum_type_ok declared_types)

lemma good_coalesce: "good coalesce_builtins"
proof -
  have dec: "\<exists>p s. coalesce_type (replicate k (T_Decimal 0 0)) = Some (T_Decimal p s)" for k by (rule coalesce_type_decimal) auto
  have "\<exists>x. (if t = T_Decimal 0 0 then new_with_type_resolver ''coalesce'' (replicate k t) coalesce_type (Scalar Coalesce)
      else function_definition_new ''coalesce'' (replicate k t) t (Scalar Coalesce)) = Some x \<and> definition_ok x"
    if "t \<in> set coalesce_types" for t k
  proof (cases "t = T_Decimal 0 0")
    case True
    obtain p s where ps: "coalesce_type (replicate k (T_Decimal 0 0)) = Some (T_Decimal p s)" using dec by blast
    have "scalar_typed Coalesce (replicate k (T_Decimal 0 0)) (T_Decimal p s)" by (rule coalesce_typed) auto
    then show ?thesis using True ps by (simp add: respects_norm coalesce_type_ok)
  next
    case False
    then show ?thesis using that by (auto simp: respects_norm intro!: coalesce_typed)
  qed
  then show ?thesis unfolding coalesce_builtins_def by (simp only: good_simps) blast
qed

lemma good_misc: "good misc_builtins"
proof -
  have "\<exists>x. (if t = T_Decimal 0 0 then new_with_type_resolver ''if'' [T_Boolean, t, t] if_type (Scalar IfFn)
       else function_definition_new ''if'' [T_Boolean, t, t] t (Scalar IfFn)) = Some x \<and> definition_ok x"
    if "t \<in> set coalesce_types" for t
    using that by (auto simp: respects_norm scalar_typed if_type_ok declared_types)
  then show ?thesis unfolding misc_builtins_def if_builtins_def by (simp only: good_simps good_coalesce) blast
qed

lemma builtins_good: "good (aggregate_builtins (f_decimal L) @ scalar_builtins L)"
  by (simp only: scalar_builtins_def good_simps good_aggregate good_bool good_cast good_date good_json good_maths good_misc good_session)

lemma builtins_Some: "\<exists>ds. builtins L = Some ds \<and> (\<forall>d \<in> set ds. definition_ok d)"
proof -
  have "\<exists>ds. xs = map Some ds \<and> (\<forall>d \<in> set ds. definition_ok d)" if "good xs" for xs :: "'a function_definition option list"
    using that
  proof (induction xs)
    case (Cons x xs)
    then obtain y ys where "x = Some y" "definition_ok y" "xs = map Some ys" "\<forall>d \<in> set ys. definition_ok d" by auto
    then show ?case by (intro exI [of _ "y # ys"]) simp
  qed simp
  from this [OF builtins_good] show ?thesis unfolding builtins_def those_eq_Some .
qed

text \<open>The candidates of a name.\<close>

lemma registry_new_lookup:
  "\<exists>r. registry_new L True = Some r \<and> (\<forall>n. r n = (if lookup L n = [] then None else Some (lookup L n)))"
  using builtins_Some [of L] by (auto simp: registry_new_def fold_register lookup_def Let_def)

lemma lookup_good: "d \<in> set (lookup L n) \<Longrightarrow> definition_ok d \<and> sig_name (signature d) = n"
  using builtins_Some [of L] by (auto simp: lookup_def)

definition named :: "string \<Rightarrow> 'd function_definition option list \<Rightarrow> 'd function_definition list" where
  "named n ds = filter (\<lambda>d. sig_name (signature d) = n) (map the ds)"

lemma named_simps [simp]:
  "named n [] = []" "named n (ds @ ds') = named n ds @ named n ds'"
  "named n (d # ds) = (if sig_name (signature (the d)) = n then the d # named n ds else named n ds)"
  by (simp_all add: named_def)

lemma named_map: "(\<And>t. t \<in> set ts \<Longrightarrow> sig_name (signature (the (f t))) \<noteq> n) \<Longrightarrow> named n (map f ts) = []"
  by (auto simp: named_def filter_empty_conv)

lemma lookup_named:
  "lookup L n = named n (aggregate_builtins (f_decimal L)) @ named n (scalar_builtins L)"
proof -
  obtain ds where "builtins L = Some ds" using builtins_Some by blast
  then have "aggregate_builtins (f_decimal L) @ scalar_builtins L = map Some ds" by (simp add: builtins_def those_eq_Some)
  then have "map the (aggregate_builtins (f_decimal L) @ scalar_builtins L) = ds" by (simp only: list.map_comp) (simp add: comp_def)
  then show ?thesis using \<open>builtins L = Some ds\<close> unfolding lookup_def named_def by (simp flip: filter_append map_append)
qed

lemma new_name [simp]: "function_definition_new n args ret f = Some d \<Longrightarrow> sig_name (signature d) = n"
  by (auto simp: function_definition_new_def)

lemma the_new [simp]:
  "the (function_definition_new n args ret f) = \<lparr>signature = \<lparr>sig_name = n, sig_args = args, sig_ret = ret\<rparr>, custom_return_type_resolver = None, function_of = f\<rparr>"
  by (simp add: function_definition_new_def)

lemma the_resolver:
  "r args = Some t \<Longrightarrow> the (new_with_type_resolver n args r f) =
     \<lparr>signature = \<lparr>sig_name = n, sig_args = args, sig_ret = t\<rparr>, custom_return_type_resolver = Some r, function_of = f\<rparr>"
  by (simp add: new_with_type_resolver_def)

lemma named_coalesce: "n \<noteq> ''coalesce'' \<Longrightarrow> named n coalesce_builtins = []"
proof -
  have "sig_name (signature (the d)) = ''coalesce''" if d: "d \<in> set coalesce_builtins" for d
  proof -
    obtain t k where dd: "d = (if t = T_Decimal 0 0 then new_with_type_resolver ''coalesce'' (replicate k t) coalesce_type (Scalar Coalesce)
       else function_definition_new ''coalesce'' (replicate k t) t (Scalar Coalesce))"
      using d by (simp only: coalesce_builtins_def set_concat set_map image_image UN_iff image_iff) blast
    obtain p s where "coalesce_type (replicate k (T_Decimal 0 0)) = Some (T_Decimal p s)"
      using coalesce_type_decimal [of "replicate k (T_Decimal 0 0)"] by auto
    then show ?thesis by (simp add: dd the_resolver)
  qed
  then show "n \<noteq> ''coalesce'' \<Longrightarrow> named n coalesce_builtins = []" by (auto simp: named_def filter_empty_conv)
qed

lemmas lookup_simps = lookup_named aggregate_defs scalar_builtins_def bool_defs cast_defs date_json_defs maths_defs
  misc_builtins_def if_builtins_def session_builtins_def Let_def the_resolver declared_types named_coalesce

lemmas rank_simps = ranked_candidates_def candidate_rank_def map_filter_def datatype_rank_eq

definition resolved_without_resolver :: "('d, 'n, 't) function_lib \<Rightarrow> string \<times> data_type list \<Rightarrow> bool" where
  "resolved_without_resolver L call \<longleftrightarrow>
     (\<exists>c rest. ranked_candidates (lookup L (fst call)) (snd call) = (0, c) # rest \<and> custom_return_type_resolver c = None)"

lemma null_calls_resolved: "call \<in> null_calls \<Longrightarrow> resolved_without_resolver L call"
proof -
  have "\<forall>call \<in> null_calls. resolved_without_resolver L call"
    unfolding null_calls_def ball_simps(7) ball_empty
    by (intro conjI TrueI; simp add: resolved_without_resolver_def lookup_simps rank_simps)
  then show "call \<in> null_calls \<Longrightarrow> resolved_without_resolver L call" by blast
qed

text \<open>The functions that widen an argument.\<close>

lemma widening_functions:
  "\<exists>c rest. ranked_candidates (lookup L ''to_bigint'') [T_Integer] = (0, c) # rest \<and> function_of c = Scalar ToBigIntFromInt \<and>
     custom_return_type_resolver c = None \<and> sig_ret (signature c) = T_BigInt"
  "\<exists>c rest. ranked_candidates (lookup L ''to_decimal'') [T_Integer] = (0, c) # rest \<and> function_of c = Scalar (ToDecimalFromInt (f_decimal L)) \<and>
     custom_return_type_resolver c = None \<and> sig_ret (signature c) = T_Decimal 10 0"
  "\<exists>c rest. ranked_candidates (lookup L ''to_decimal'') [T_BigInt] = (0, c) # rest \<and> function_of c = Scalar (ToDecimalFromBigInt (f_decimal L)) \<and>
     custom_return_type_resolver c = None \<and> sig_ret (signature c) = T_Decimal 20 0"
  "\<exists>c rest. ranked_candidates (lookup L ''to_jsonpath'') [T_Text] = (0, c) # rest \<and> function_of c = Scalar (ToJsonpath L) \<and>
     custom_return_type_resolver c = None \<and> sig_ret (signature c) = T_JsonPath"
  by (simp_all add: lookup_simps rank_simps)

text \<open>The return types of the cast functions.\<close>

lemma cast_function_returns:
  assumes "cast_function dt = Some n" "c \<in> set (lookup L n)"
  shows "same_kind (sig_ret (signature c)) dt"
  using assms by (cases dt) (auto simp: lookup_simps)

section \<open>Resolving a call\<close>

definition builtin_registry :: "('d, 'n, 't) function_lib \<Rightarrow> 'd registry" where
  "builtin_registry L = the (registry_new L True)"

lemma builtin_registry_lookup: "builtin_registry L n = (if lookup L n = [] then None else Some (lookup L n))"
  using registry_new_lookup [of L] by (auto simp: builtin_registry_def)

lemma compound_args_Some:
  assumes "candidate_rank to_types from_types = Some k"
  shows "\<exists>cargs. compound_args from_types to_types = Some cargs"
proof -
  let ?f = "\<lambda>(idx, from, to). if datatype_rank from to = Some 0 then Some (Input idx)
    else map_option (\<lambda>name. Function (CompoundFunction name [Input idx])) (cast_function to)"
  have "?f x \<noteq> None" if x: "x \<in> set (zip [0..<length from_types] (zip from_types to_types))" for x
  proof -
    obtain i "from" to where f: "x = (i, from, to)" by (cases x) auto
    then have "(from, to) \<in> set (zip from_types to_types)" using x by (auto dest: set_zip_rightD)
    then have "datatype_rank from to \<noteq> None" using assms unfolding candidate_rank_iff by (force simp: list_all2_conv_all_nth set_zip)
    then show ?thesis by (cases to) (auto simp: f datatype_rank_0)
  qed
  then have "map ?f (zip [0..<length from_types] (zip from_types to_types)) =
    map Some (map (the \<circ> ?f) (zip [0..<length from_types] (zip from_types to_types)))" by auto
  then show ?thesis unfolding compound_args_def those_eq_Some by blast
qed

text \<open>The outcomes of a resolution.\<close>

lemma resolve_builtin_cases:
  fixes L :: "('d, 'n, 't) function_lib"
  obtains e where "resolve_function (builtin_registry L) sig = Some (Inl e)"
  | c ret where "c \<in> set (lookup L (sig_name sig))" "definition_ok c"
      "list_all2 (\<lambda>to from. datatype_rank from to = Some 0) (sig_args (signature c)) (sig_args sig)"
      "if sig_ret sig = T_Null then same_kind ret (sig_ret (signature c)) else ret = sig_ret sig"
      "resolve_function (builtin_registry L) sig =
         Some (Inr (\<lparr>sig_name = sig_name sig, sig_args = sig_args sig, sig_ret = ret\<rparr>, function_of c))"
  | c k cargs where "c \<in> set (lookup L (sig_name sig))" "definition_ok c"
      "candidate_rank (sig_args (signature c)) (sig_args sig) = Some k" "k \<noteq> 0"
      "compound_args (sig_args sig) (sig_args (signature c)) = Some cargs"
      "\<And>c'. c' \<in> set (lookup L (sig_name sig)) \<Longrightarrow>
         \<not> list_all2 (\<lambda>to from. datatype_rank from to = Some 0) (sig_args (signature c')) (sig_args sig)"
      "resolve_function (builtin_registry L) sig =
         Some (Inr (signature c, Compound (CompoundFunction (sig_name sig) cargs)))"
proof -
  show thesis
  proof (cases "lookup L (sig_name sig) = []")
    case True
    then show thesis by (intro that(1)) (simp add: resolve_function_def builtin_registry_lookup)
  next
    case False
    then have r: "resolve_function (builtin_registry L) sig =
      (case ranked_candidates (lookup L (sig_name sig)) (sig_args sig) of
             [] \<Rightarrow> Some (Inl (MatchingSignatureNotFound (sig_name sig) (sig_args sig)))
           | (rank, candidate) # _ \<Rightarrow>
               if rank \<noteq> 0 then
                 map_option (\<lambda>args. Inr (signature candidate, Compound (CompoundFunction (sig_name (signature candidate)) args)))
                   (compound_args (sig_args sig) (sig_args (signature candidate)))
               else
                 map_option (\<lambda>ret. Inr (\<lparr>sig_name = sig_name (signature candidate), sig_args = sig_args sig, sig_ret = ret\<rparr>,
                     function_of candidate))
                   (if sig_ret sig \<noteq> T_Null then Some (sig_ret sig)
                    else case custom_return_type_resolver candidate of
                      Some type_resolver \<Rightarrow> type_resolver (sig_args sig)
                    | None \<Rightarrow> Some (sig_ret (signature candidate))))"
      by (simp add: resolve_function_def builtin_registry_lookup)
    show thesis
    proof (cases "ranked_candidates (lookup L (sig_name sig)) (sig_args sig)")
      case Nil
      then show thesis by (intro that(1)) (simp add: r)
    next
      case (Cons kc rest)
      then obtain k c where kc: "ranked_candidates (lookup L (sig_name sig)) (sig_args sig) = (k, c) # rest" by (cases kc) auto
      note hd = ranked_candidates_hd [OF kc]
      have ok: "definition_ok c" "sig_name (signature c) = sig_name sig" using lookup_good [OF hd(1)] by auto
      show thesis
      proof (cases "k = 0")
        case False
        obtain cargs where cargs: "compound_args (sig_args sig) (sig_args (signature c)) = Some cargs"
          using compound_args_Some [OF hd(2)] by blast
        show thesis
        proof (rule that(3) [OF hd(1) ok(1) hd(2) False cargs])
          show "\<not> list_all2 (\<lambda>to from. datatype_rank from to = Some 0) (sig_args (signature c')) (sig_args sig)"
            if "c' \<in> set (lookup L (sig_name sig))" for c'
            using hd(3) [OF that, of 0] False by (auto simp flip: candidate_rank_0)
          show "resolve_function (builtin_registry L) sig = Some (Inr (signature c, Compound (CompoundFunction (sig_name sig) cargs)))"
            using False cargs ok(2) by (simp add: r kc)
        qed
      next
        case True
        have ranks: "list_all2 (\<lambda>to from. datatype_rank from to = Some 0) (sig_args (signature c)) (sig_args sig)"
          using hd(2) True by (simp add: candidate_rank_0)
        have "\<exists>ret. (if sig_ret sig \<noteq> T_Null then Some (sig_ret sig)
            else case custom_return_type_resolver c of
              Some type_resolver \<Rightarrow> type_resolver (sig_args sig)
            | None \<Rightarrow> Some (sig_ret (signature c))) = Some ret \<and>
          (if sig_ret sig = T_Null then same_kind ret (sig_ret (signature c)) else ret = sig_ret sig)"
        proof (cases "custom_return_type_resolver c")
          case None
          then show ?thesis by simp
        next
          case (Some res)
          then have "(sig_name sig, sig_args sig) \<notin> null_calls"
            using null_calls_resolved [of "(sig_name sig, sig_args sig)" L] kc by (auto simp: resolved_without_resolver_def)
          then have "\<exists>t. res (sig_args sig) = Some t \<and> same_kind t (sig_ret (signature c))"
            using ok ranks Some by (simp add: definition_ok_def resolver_ok_def)
          then show ?thesis using Some by auto
        qed
        then obtain ret where ret: "(if sig_ret sig \<noteq> T_Null then Some (sig_ret sig)
            else case custom_return_type_resolver c of
              Some type_resolver \<Rightarrow> type_resolver (sig_args sig)
            | None \<Rightarrow> Some (sig_ret (signature c))) = Some ret"
          "if sig_ret sig = T_Null then same_kind ret (sig_ret (signature c)) else ret = sig_ret sig" by blast
        show thesis by (rule that(2) [OF hd(1) ok(1) ranks ret(2)]) (simp add: r kc True ret(1) ok(2))
      qed
    qed
  qed
qed

text \<open>The contract of a resolved call: it is typed by its signature and blind to representations.\<close>

definition call_typed :: "'d scalar_function \<Rightarrow> function_signature \<Rightarrow> data_type list \<Rightarrow> bool" where
  "call_typed f sig types \<longleftrightarrow>
     (\<forall>session vals d. list_all2 has_type types vals \<longrightarrow> f session sig vals = Some d \<longrightarrow> has_type (sig_ret sig) d)"

lemma same_kind_sym: "same_kind t u \<Longrightarrow> same_kind u t"
  by (cases t; cases u) simp_all

lemma resolve_scalar:
  assumes "resolve_function (builtin_registry L) sig = Some (Inr (sig', Scalar f))"
    and "sig_ret sig = T_Null \<or> cast_function (sig_ret sig) = Some (sig_name sig)"
  shows "call_typed f sig' (sig_args sig)" "respects_norm f"
proof -
  have "call_typed f sig' (sig_args sig) \<and> respects_norm f"
  proof (cases rule: resolve_builtin_cases [of L sig])
    case (2 c ret)
    then have f: "function_of c = Scalar f" and s: "sig' = \<lparr>sig_name = sig_name sig, sig_args = sig_args sig, sig_ret = ret\<rparr>"
      using assms(1) by auto
    then have ok: "respects_norm f" "scalar_typed f (sig_args (signature c)) (sig_ret (signature c))"
      using 2(2) by (simp_all add: definition_ok_def)
    have kind: "same_kind ret (sig_ret (signature c))"
      using 2(4) assms(2) cast_function_returns [OF _ 2(1)] same_kind_sym by (auto split: if_splits)
    have "call_typed f sig' (sig_args sig)"
      using ok(2) kind ranks_0_accept [OF 2(3)] same_kind_has_type [OF kind]
      unfolding call_typed_def scalar_typed_def s by (metis function_signature.select_convs(3))
    then show ?thesis using ok(1) by blast
  qed (use assms in auto)
  then show "call_typed f sig' (sig_args sig)" "respects_norm f" by blast+
qed


text \<open>Libraries for examples.\<close>

definition example_decimal_lib :: "ref_decimal decimal_lib" where
  "example_decimal_lib = decimal_arith.extend ref_decimal_arith
     (decimal_lib.fields (\<lambda>d _. d) (\<lambda>i. (sint i < 0, nat \<bar>sint i\<bar>, 0)) (\<lambda>i. (sint i < 0, nat \<bar>sint i\<bar>, 0)) (\<lambda>_. None) (\<lambda>_. None)
        (\<lambda>_. None) (\<lambda>_. []) (\<lambda>_ _. []))"

definition example_lib :: "(ref_decimal, bool \<times> bool, unit) function_lib" where
  "example_lib = \<lparr>f_decimal = example_decimal_lib,
     f_chrono = date_ops.extend ref_date_ops (chrono.fields (\<lambda>_. None) (\<lambda>_. []) (\<lambda>d _. Some d) (\<lambda>_ _. Some ()) (\<lambda>_. 0) (\<lambda>_. None) (\<lambda>_. [])),
     f_json_parse = (\<lambda>_. JsonError), f_json_print = (\<lambda>_. []), f_path = (\<lambda>_. None)\<rparr>"


end
