(* ===== verification/Planner_Expr.thy ===== *)
theory Planner_Expr
  imports Plan Registry
begin

text \<open>
  Expressions in the planner (\<open>planner/src/utils/expr.rs\<close>, \<open>p1_validation/compile_functions_and_refs.rs\<close>,
  \<open>p2_optimization/fold_constants.rs\<close>, \<open>error.rs\<close>): their types, the compilation of calls, casts and column
  references against the function registry, constant folding and the rewriting of column references.
  Compilation re-resolves the calls it makes of a compound function; the first argument bounds the
  depth of this and two levels are shown to be enough for the built in functions.  The lemmas show
  that compilation ends, that compiled expressions evaluate to datums of their static types and that
  folding and inlining keep the values.
\<close>

section \<open>Errors\<close>

datatype catalog_error =
    CatalogStorageError storage_error
  | TableAlreadyExists string string
  | TableNotFound string string
  | DatabaseAlreadyExists string
  | DatabaseNotFound string
  | DatabaseNotEmpty string

record field =
  fd_qualifier :: "string option"
  fd_alias :: string
  fd_data_type :: data_type

datatype field_resolution_error =
    Ambiguous column_reference "field list"
  | NotFound column_reference "field list"

datatype 'd planner_error =
    FunctionResolutionError function_resolution_error
  | FieldResolutionError field_resolution_error
  | CatalogError catalog_error
  | PredicateNotBoolean data_type "'d expression"
  | UnionAllMismatch "data_type list" "data_type list" nat
  | InsertMismatch "data_type list" "data_type list"
  | AggregateNotAllowed string string

text \<open>The operator \<open>?\<close>: \<open>None\<close> is a panic, \<open>Inl\<close> the error of a \<open>Result\<close>.\<close>

type_synonym ('e, 'a) outcome = "('e + 'a) option"

definition and_then :: "('e, 'a) outcome \<Rightarrow> ('a \<Rightarrow> ('e, 'b) outcome) \<Rightarrow> ('e, 'b) outcome" where
  "and_then m f = (case m of None \<Rightarrow> None | Some (Inl e) \<Rightarrow> Some (Inl e) | Some (Inr x) \<Rightarrow> f x)"

lemma and_then_simps [simp]:
  "and_then None f = None" "and_then (Some (Inl e)) f = Some (Inl e)" "and_then (Some (Inr x)) f = f x"
  by (simp_all add: and_then_def)

lemma and_then_eq_Inr: "and_then m f = Some (Inr y) \<longleftrightarrow> (\<exists>x. m = Some (Inr x) \<and> f x = Some (Inr y))"
  by (auto simp: and_then_def split: option.splits sum.splits)

section \<open>Types and references\<close>

fun type_for_expression :: "'d expression \<Rightarrow> data_type option" where
  "type_for_expression (Constant d dt) = Some dt"
| "type_for_expression (Cast e dt) = Some dt"
| "type_for_expression (CompiledFunctionCall f args sig) = Some (sig_ret sig)"
| "type_for_expression (CompiledAggregate f args sig) = Some (sig_ret sig)"
| "type_for_expression (CompiledColumnReference i dt) = Some dt"
| "type_for_expression (FunctionCall n args) = None"
| "type_for_expression (ColumnReference c) = None"

fun contains_aggregate :: "'d expression \<Rightarrow> bool" where
  "contains_aggregate (CompiledAggregate f args sig) = True"
| "contains_aggregate (FunctionCall n args) = list_ex contains_aggregate args"
| "contains_aggregate (CompiledFunctionCall f args sig) = list_ex contains_aggregate args"
| "contains_aggregate (Cast e dt) = contains_aggregate e"
| "contains_aggregate (Constant d dt) = False"
| "contains_aggregate (ColumnReference c) = False"
| "contains_aggregate (CompiledColumnReference i dt) = False"

text \<open>\<open>(offset as isize + amount) as usize\<close>, for offsets that stay in the range of both types.\<close>

fun move_column_references :: "int \<Rightarrow> 'd expression \<Rightarrow> 'd expression" where
  "move_column_references amount (CompiledColumnReference i dt) = CompiledColumnReference (nat ((int i + amount) mod 2 ^ 64)) dt"
| "move_column_references amount (FunctionCall n args) = FunctionCall n (map (move_column_references amount) args)"
| "move_column_references amount (CompiledFunctionCall f args sig) = CompiledFunctionCall f (map (move_column_references amount) args) sig"
| "move_column_references amount (CompiledAggregate f args sig) = CompiledAggregate f (map (move_column_references amount) args) sig"
| "move_column_references amount (Cast e dt) = Cast (move_column_references amount e) dt"
| "move_column_references amount (Constant d dt) = Constant d dt"
| "move_column_references amount (ColumnReference c) = ColumnReference c"

text \<open>The panic of \<open>inline_expression\<close> is the index of a column that the source does not have.\<close>

fun inline_expression :: "'d expression list \<Rightarrow> 'd expression \<Rightarrow> 'd expression option"
and inline_expressions :: "'d expression list \<Rightarrow> 'd expression list \<Rightarrow> 'd expression list option" where
  "inline_expression src (CompiledColumnReference i dt) = (if i < length src then Some (src ! i) else None)"
| "inline_expression src (FunctionCall n args) = map_option (FunctionCall n) (inline_expressions src args)"
| "inline_expression src (CompiledFunctionCall f args sig) = map_option (\<lambda>args. CompiledFunctionCall f args sig) (inline_expressions src args)"
| "inline_expression src (CompiledAggregate f args sig) = map_option (\<lambda>args. CompiledAggregate f args sig) (inline_expressions src args)"
| "inline_expression src (Cast e dt) = map_option (\<lambda>e. Cast e dt) (inline_expression src e)"
| "inline_expression src (Constant d dt) = Some (Constant d dt)"
| "inline_expression src (ColumnReference c) = Some (ColumnReference c)"
| "inline_expressions src [] = Some []"
| "inline_expressions src (e # es) =
     Option.bind (inline_expression src e) (\<lambda>e. map_option (Cons e) (inline_expressions src es))"

definition merge_min_max :: "(nat \<times> nat) list \<Rightarrow> (nat \<times> nat) option" where
  "merge_min_max ds =
     fold (\<lambda>b a. case a of Some (min1, max1) \<Rightarrow> Some (min min1 (fst b), max max1 (snd b)) | None \<Rightarrow> Some b) ds None"

fun min_max_column_deps :: "'d expression \<Rightarrow> (nat \<times> nat) option" where
  "min_max_column_deps (CompiledColumnReference i dt) = Some (i, i)"
| "min_max_column_deps (FunctionCall n args) = merge_min_max (List.map_filter id (map min_max_column_deps args))"
| "min_max_column_deps (CompiledFunctionCall f args sig) = merge_min_max (List.map_filter id (map min_max_column_deps args))"
| "min_max_column_deps (CompiledAggregate f args sig) = merge_min_max (List.map_filter id (map min_max_column_deps args))"
| "min_max_column_deps (Cast e dt) = merge_min_max (List.map_filter id [min_max_column_deps e])"
| "min_max_column_deps (Constant d dt) = None"
| "min_max_column_deps (ColumnReference c) = None"

section \<open>Predicates\<close>

text \<open>\<open>Expression::from(true)\<close>; \<open>!=\<close> of expressions compares constants by the equality of datums.\<close>

definition true_expression :: "'d expression" where
  "true_expression = Constant (D_Boolean True) T_Boolean"

fun is_true_expression :: "'d expression \<Rightarrow> bool" where
  "is_true_expression (Constant (D_Boolean b) dt) = (b \<and> dt = T_Boolean)"
| "is_true_expression _ = False"

fun decompose_predicate :: "'d expression \<Rightarrow> 'd expression list" where
  "decompose_predicate (CompiledFunctionCall f args sig) =
     (if sig_name sig = ''and'' then filter (\<lambda>e. \<not> is_true_expression e) (concat (map decompose_predicate args))
      else [CompiledFunctionCall f args sig])"
| "decompose_predicate (FunctionCall n args) =
     (if n = ''and'' then filter (\<lambda>e. \<not> is_true_expression e) (concat (map decompose_predicate args))
      else [FunctionCall n args])"
| "decompose_predicate p = filter (\<lambda>e. \<not> is_true_expression e) [p]"

definition combine_predicates :: "'d registry \<Rightarrow> 'd expression list \<Rightarrow> 'd expression option" where
  "combine_predicates registry predicates =
     (case resolve_function registry \<lparr>sig_name = ''and'', sig_args = [T_Boolean, T_Boolean], sig_ret = T_Null\<rparr> of
        Some (Inr (and_function_sig, and_function)) \<Rightarrow>
          (case predicates of
             [] \<Rightarrow> Some true_expression
           | [first] \<Rightarrow> Some first
           | first # rest \<Rightarrow>
               (case and_function of
                  Scalar f \<Rightarrow> Some (fold (\<lambda>b a. CompiledFunctionCall f [a, b] and_function_sig) rest first)
                | _ \<Rightarrow> None))
      | _ \<Rightarrow> None)"

section \<open>Compilation\<close>

fun assemble_compound_function :: "compound_function \<Rightarrow> 'd expression list \<Rightarrow> 'd expression option"
and assemble_arg :: "compound_function_arg \<Rightarrow> 'd expression list \<Rightarrow> 'd expression option" where
  "assemble_compound_function (CompoundFunction name args) input_args =
     map_option (FunctionCall name) (those (map (\<lambda>a. assemble_arg a input_args) args))"
| "assemble_arg (Input i) input_args = (if i < length input_args then Some (input_args ! i) else None)"
| "assemble_arg (Function f) input_args = assemble_compound_function f input_args"

definition resolve_column :: "field list \<Rightarrow> column_reference \<Rightarrow> ('d planner_error, 'd expression) outcome" where
  "resolve_column source_fields c =
     (let matching_fields = filter (\<lambda>(idx, field).
            (case cr_qualifier c of
               Some q \<Rightarrow> fd_qualifier field = Some q \<and> fd_alias field = cr_alias c
             | None \<Rightarrow> fd_alias field = cr_alias c)) (List.enumerate 0 source_fields) in
      case matching_fields of
        [] \<Rightarrow> Some (Inl (FieldResolutionError (NotFound c source_fields)))
      | [(idx, field)] \<Rightarrow> Some (Inr (CompiledColumnReference idx (fd_data_type field)))
      | _ \<Rightarrow> Some (Inl (FieldResolutionError (Ambiguous c (map snd matching_fields)))))"

definition resolve_call ::
  "'d registry \<Rightarrow> string \<Rightarrow> data_type list \<Rightarrow> data_type \<Rightarrow> ('d planner_error, function_signature \<times> 'd function_type) outcome" where
  "resolve_call registry name types ret =
     (case resolve_function registry \<lparr>sig_name = name, sig_args = types, sig_ret = ret\<rparr> of
        None \<Rightarrow> None
      | Some (Inl e) \<Rightarrow> Some (Inl (FunctionResolutionError e))
      | Some (Inr r) \<Rightarrow> Some (Inr r))"

function compile_expr :: "nat \<Rightarrow> 'd registry \<Rightarrow> field list \<Rightarrow> 'd expression \<Rightarrow> ('d planner_error, 'd expression) outcome"
and compile_args :: "nat \<Rightarrow> 'd registry \<Rightarrow> field list \<Rightarrow> 'd expression list \<Rightarrow> ('d planner_error, 'd expression list) outcome" where
  "compile_expr n registry source_fields (FunctionCall name args) =
     and_then (compile_args n registry source_fields args) (\<lambda>args.
     Option.bind (those (map type_for_expression args)) (\<lambda>arg_types.
     and_then (resolve_call registry name arg_types T_Null) (\<lambda>(sig, f).
       case f of
         Scalar f \<Rightarrow> Some (Inr (CompiledFunctionCall f args sig))
       | Aggregate f \<Rightarrow> Some (Inr (CompiledAggregate f args sig))
       | Compound cf \<Rightarrow>
           (case n of
              0 \<Rightarrow> None
            | Suc m \<Rightarrow> Option.bind (assemble_compound_function cf args) (compile_expr m registry source_fields)))))"
| "compile_expr n registry source_fields (Cast e dt) =
     and_then (compile_expr n registry source_fields e) (\<lambda>e.
     Option.bind (type_for_expression e) (\<lambda>expr_type.
     Option.bind (cast_function dt) (\<lambda>name.
     and_then (resolve_call registry name [expr_type] dt) (\<lambda>(sig, f).
       case f of
         Scalar f \<Rightarrow> Some (Inr (CompiledFunctionCall f [e] sig))
       | _ \<Rightarrow> None))))"
| "compile_expr n registry source_fields (ColumnReference c) = resolve_column source_fields c"
| "compile_expr n registry source_fields (Constant d dt) = Some (Inr (Constant d dt))"
| "compile_expr n registry source_fields (CompiledFunctionCall f args sig) = Some (Inr (CompiledFunctionCall f args sig))"
| "compile_expr n registry source_fields (CompiledAggregate g args sig) = Some (Inr (CompiledAggregate g args sig))"
| "compile_expr n registry source_fields (CompiledColumnReference i dt) = Some (Inr (CompiledColumnReference i dt))"
| "compile_args n registry source_fields [] = Some (Inr [])"
| "compile_args n registry source_fields (e # es) =
     and_then (compile_expr n registry source_fields e) (\<lambda>e.
     and_then (compile_args n registry source_fields es) (\<lambda>es. Some (Inr (e # es))))"
  by pat_completeness auto
termination
  by (relation "measures [case_sum (\<lambda>(n, _). n) (\<lambda>(n, _). n), case_sum (\<lambda>(_, _, _, e). size e) (\<lambda>(_, _, _, es). size_list size es)]") auto

section \<open>Constant folding\<close>

fun is_constant :: "'d expression \<Rightarrow> bool" where
  "is_constant (Constant d dt) = True"
| "is_constant _ = False"

fun constant_value :: "'d expression \<Rightarrow> 'd datum option" where
  "constant_value (Constant d dt) = Some (ref_clone d)"
| "constant_value _ = None"

fun fold_constants_for_expr :: "session \<Rightarrow> 'd expression \<Rightarrow> 'd expression option"
and fold_constants_for_exprs :: "session \<Rightarrow> 'd expression list \<Rightarrow> 'd expression list option" where
  "fold_constants_for_expr session (CompiledFunctionCall f args sig) =
     Option.bind (fold_constants_for_exprs session args) (\<lambda>args.
       if list_all is_constant args then
         Option.bind (those (map constant_value args)) (\<lambda>function_input.
         map_option (\<lambda>d. Constant (into_static d) (sig_ret sig)) (f session sig function_input))
       else Some (CompiledFunctionCall f args sig))"
| "fold_constants_for_expr session (CompiledAggregate g args sig) =
     map_option (\<lambda>args. CompiledAggregate g args sig) (fold_constants_for_exprs session args)"
| "fold_constants_for_expr session (CompiledColumnReference i dt) = Some (CompiledColumnReference i dt)"
| "fold_constants_for_expr session (Constant d dt) = Some (Constant d dt)"
| "fold_constants_for_expr session (Cast e dt) = None"
| "fold_constants_for_expr session (FunctionCall n args) = None"
| "fold_constants_for_expr session (ColumnReference c) = None"
| "fold_constants_for_exprs session [] = Some []"
| "fold_constants_for_exprs session (e # es) =
     Option.bind (fold_constants_for_expr session e) (\<lambda>e. map_option (Cons e) (fold_constants_for_exprs session es))"

section \<open>Compiled expressions\<close>

text \<open>No call, cast or column reference is left to resolve.\<close>

fun compiled :: "'d expression \<Rightarrow> bool" where
  "compiled (Constant d dt) = True"
| "compiled (CompiledColumnReference i dt) = True"
| "compiled (CompiledFunctionCall f args sig) = list_all compiled args"
| "compiled (CompiledAggregate g args sig) = list_all compiled args"
| "compiled (FunctionCall n args) = False"
| "compiled (Cast e dt) = False"
| "compiled (ColumnReference c) = False"

text \<open>Typed over the columns \<open>ts\<close>: constants and column references have the types they state, compiled
  calls are typed by their signatures.\<close>

fun typed_in :: "data_type list \<Rightarrow> 'd expression \<Rightarrow> bool" where
  "typed_in ts (Constant d dt) = has_type dt d"
| "typed_in ts (CompiledColumnReference i dt) = (i < length ts \<and> ts ! i = dt)"
| "typed_in ts (CompiledFunctionCall f args sig) =
     (list_all (typed_in ts) args \<and> list_all compiled args \<and> respects_norm f \<and> call_typed f sig (map (the \<circ> type_for_expression) args))"
| "typed_in ts (CompiledAggregate g args sig) = (list_all (typed_in ts) args \<and> list_all compiled args)"
| "typed_in ts (FunctionCall n args) = list_all (typed_in ts) args"
| "typed_in ts (Cast e dt) = typed_in ts e"
| "typed_in ts (ColumnReference c) = True"

lemma compiled_type: "compiled e \<Longrightarrow> \<exists>t. type_for_expression e = Some t"
  by (cases e) simp_all

lemma compiled_types: "list_all compiled es \<Longrightarrow> those (map type_for_expression es) = Some (map (the \<circ> type_for_expression) es)"
  by (induction es) (auto dest: compiled_type)

lemma eval_typed:
  "typed_in ts e \<Longrightarrow> compiled e \<Longrightarrow> list_all2 has_type ts row \<Longrightarrow> eval_scalar session row e = Some d \<Longrightarrow>
    has_type (the (type_for_expression e)) d"
proof (induction e arbitrary: d)
  case (CompiledFunctionCall f args sig)
  obtain vals where vals: "eval_all session args row = Some vals" "f session sig vals = Some d"
    using CompiledFunctionCall.prems(4) by (auto simp: bind_eq_Some_conv)
  have "length vals = length args" using length_eval_all [OF vals(1)] .
  moreover have "eval_scalar session row (args ! i) = Some (vals ! i)" if "i < length args" for i
    using vals(1) that unfolding eval_all_def those_eq_Some by (metis nth_map length_map)
  ultimately have "list_all2 has_type (map (the \<circ> type_for_expression) args) vals"
    using CompiledFunctionCall.IH CompiledFunctionCall.prems(1-3) by (auto simp: list_all2_conv_all_nth list_all_length)
  then show ?case using CompiledFunctionCall.prems(1) vals(2) by (auto simp: call_typed_def)
next
  case (CompiledColumnReference i dt)
  then show ?case by (auto simp: list_all2_conv_all_nth split: if_splits)
qed auto

text \<open>Compilation keeps the types and leaves nothing to resolve.\<close>

lemma resolve_column_typed:
  assumes "resolve_column fs c = Some (Inr e)"
  shows "\<exists>i < length fs. e = CompiledColumnReference i (fd_data_type (fs ! i))"
proof -
  define ms where "ms = filter (\<lambda>(idx, field).
            (case cr_qualifier c of
               Some q \<Rightarrow> fd_qualifier field = Some q \<and> fd_alias field = cr_alias c
             | None \<Rightarrow> fd_alias field = cr_alias c)) (List.enumerate 0 fs)"
  have "\<exists>idx field. ms = [(idx, field)] \<and> e = CompiledColumnReference idx (fd_data_type field)"
    using assms unfolding resolve_column_def Let_def ms_def [symmetric] by (auto split: list.splits prod.splits)
  then obtain idx field where m: "ms = [(idx, field)]" "e = CompiledColumnReference idx (fd_data_type field)" by blast
  have "set ms \<subseteq> set (List.enumerate 0 fs)" unfolding ms_def by (rule filter_is_subset)
  then have "(idx, field) \<in> set (List.enumerate 0 fs)" using m(1) by simp
  then have "idx < length fs" "field = fs ! idx" by (auto simp: in_set_enumerate_eq)
  then show ?thesis using m(2) by blast
qed

lemma those_list_all:
  "those (map f xs) = Some ys \<Longrightarrow> (\<And>x y. x \<in> set xs \<Longrightarrow> f x = Some y \<Longrightarrow> P y) \<Longrightarrow> list_all P ys"
  unfolding those_eq_Some by (auto simp: list_all_length list_eq_iff_nth_eq) (metis nth_mem nth_map)

lemma assemble_typed:
  "assemble_compound_function cf args = Some e \<Longrightarrow> list_all (typed_in ts) args \<Longrightarrow> typed_in ts e"
  "assemble_arg a args = Some e \<Longrightarrow> list_all (typed_in ts) args \<Longrightarrow> typed_in ts e"
proof (induction cf args and a args arbitrary: e and e rule: assemble_compound_function_assemble_arg.induct)
  case (1 name cargs inputs)
  then obtain es where es: "those (map (\<lambda>a. assemble_arg a inputs) cargs) = Some es" "e = FunctionCall name es" by auto
  have "list_all (typed_in ts) es" using those_list_all [OF es(1), of "typed_in ts"] 1 by blast
  then show ?case using es(2) by simp
qed (auto simp: list_all_iff split: if_splits)

lemma resolve_call_scalar:
  assumes "resolve_call (builtin_registry L) name types ret = Some (Inr (sig, Scalar f))" "ret = T_Null \<or> cast_function ret = Some name"
  shows "respects_norm f" "call_typed f sig types"
proof -
  have "resolve_function (builtin_registry L) \<lparr>sig_name = name, sig_args = types, sig_ret = ret\<rparr> = Some (Inr (sig, Scalar f))"
    using assms(1) by (auto simp: resolve_call_def split: option.splits sum.splits)
  from resolve_scalar [OF this] assms(2) show "respects_norm f" "call_typed f sig types" by simp_all
qed

lemma only_scalar: "(case f of Scalar g \<Rightarrow> h g | _ \<Rightarrow> None) = Some r \<longleftrightarrow> (\<exists>g. f = Scalar g \<and> h g = Some r)"
  by (cases f) auto

lemma compile_call_cases:
  assumes "compile_expr n R fs (FunctionCall name args) = Some (Inr e')"
  obtains (scalar) args' types sig g where "compile_args n R fs args = Some (Inr args')" "those (map type_for_expression args') = Some types"
      "resolve_call R name types T_Null = Some (Inr (sig, Scalar g))" "e' = CompiledFunctionCall g args' sig"
  | (aggregate) args' types sig g where "compile_args n R fs args = Some (Inr args')" "those (map type_for_expression args') = Some types"
      "resolve_call R name types T_Null = Some (Inr (sig, Aggregate g))" "e' = CompiledAggregate g args' sig"
  | (compound) args' types sig cf m e where "compile_args n R fs args = Some (Inr args')" "those (map type_for_expression args') = Some types"
      "resolve_call R name types T_Null = Some (Inr (sig, Compound cf))" "n = Suc m" "assemble_compound_function cf args' = Some e"
      "compile_expr m R fs e = Some (Inr e')"
proof -
  obtain args' types sig f where c: "compile_args n R fs args = Some (Inr args')" "those (map type_for_expression args') = Some types"
    "resolve_call R name types T_Null = Some (Inr (sig, f))"
    and f: "(case f of Scalar f \<Rightarrow> Some (Inr (CompiledFunctionCall f args' sig)) | Aggregate f \<Rightarrow> Some (Inr (CompiledAggregate f args' sig))
       | Compound cf \<Rightarrow> (case n of 0 \<Rightarrow> None | Suc m \<Rightarrow> Option.bind (assemble_compound_function cf args') (compile_expr m R fs))) = Some (Inr e')"
    using assms by (fastforce simp: and_then_eq_Inr bind_eq_Some_conv)
  show thesis
  proof (cases f)
    case (Scalar g)
    then show thesis using scalar c f by simp
  next
    case (Aggregate g)
    then show thesis using aggregate c f by simp
  next
    case (Compound cf)
    then show thesis using compound c f by (auto simp: bind_eq_Some_conv split: nat.splits)
  qed
qed

lemma compile_typed:
  "compile_expr n (builtin_registry L) fs e = Some (Inr e') \<Longrightarrow> typed_in (map fd_data_type fs) e \<Longrightarrow>
     typed_in (map fd_data_type fs) e' \<and> compiled e'"
  "compile_args n (builtin_registry L) fs es = Some (Inr es') \<Longrightarrow> list_all (typed_in (map fd_data_type fs)) es \<Longrightarrow>
     list_all (typed_in (map fd_data_type fs)) es' \<and> list_all compiled es'"
proof (induction n "builtin_registry L" fs e and n "builtin_registry L" fs es arbitrary: e' and es' rule: compile_expr_compile_args.induct)
  case (1 n fs name args)
  let ?t = "typed_in (map fd_data_type fs)"
  have args: "list_all ?t args' \<and> list_all compiled args'" if "compile_args n (builtin_registry L) fs args = Some (Inr args')" for args'
    using 1(1) [OF that] 1(4) by simp
  show ?case using 1(3)
  proof (cases rule: compile_call_cases)
    case (scalar args' types sig g)
    then show ?thesis using args [OF scalar(1)] compiled_types [of args'] resolve_call_scalar [OF scalar(3)] by simp
  next
    case (aggregate args' types sig g)
    then show ?thesis using args [OF aggregate(1)] by simp
  next
    case (compound args' types sig cf m e)
    have "?t e" using assemble_typed(1) [OF compound(5)] args [OF compound(1)] by simp
    then show ?thesis using 1(2) compound by blast
  qed
next
  case (2 n fs e dt)
  obtain e1 name sig f where c: "compile_expr n (builtin_registry L) fs e = Some (Inr e1)" "cast_function dt = Some name"
    and r: "resolve_call (builtin_registry L) name [the (type_for_expression e1)] dt = Some (Inr (sig, Scalar f))"
    and e': "e' = CompiledFunctionCall f [e1] sig"
    using 2(2) by (auto simp: and_then_eq_Inr bind_eq_Some_conv only_scalar)
  have "typed_in (map fd_data_type fs) e1" "compiled e1" using 2(1) [OF c(1)] 2(3) by simp_all
  then show ?case using resolve_call_scalar [OF r] c(2) e' by simp
qed (auto simp: and_then_eq_Inr dest: resolve_column_typed)


section \<open>Compilation ends\<close>

text \<open>No cast to the type NULL.\<close>

fun castable :: "'d expression \<Rightarrow> bool" where
  "castable (Cast e dt) = (castable e \<and> dt \<noteq> T_Null)"
| "castable (FunctionCall n args) = list_all castable args"
| "castable _ = True"

lemma resolve_call_cases:
  fixes L :: "('d, 'n, 't) function_lib"
  obtains e where "resolve_call (builtin_registry L) name types ret = Some (Inl e)"
  | c sig where "c \<in> set (lookup L name)" "definition_ok c"
      "list_all2 (\<lambda>to from. datatype_rank from to = Some 0) (sig_args (signature c)) types"
      "resolve_call (builtin_registry L) name types ret = Some (Inr (sig, function_of c))"
      "if ret = T_Null then same_kind (sig_ret sig) (sig_ret (signature c)) else sig_ret sig = ret"
  | c sig cargs where "c \<in> set (lookup L name)" "definition_ok c"
      "compound_args types (sig_args (signature c)) = Some cargs" "candidate_rank (sig_args (signature c)) types \<noteq> None"
      "\<And>c'. c' \<in> set (lookup L name) \<Longrightarrow> \<not> list_all2 (\<lambda>to from. datatype_rank from to = Some 0) (sig_args (signature c')) types"
      "resolve_call (builtin_registry L) name types ret = Some (Inr (sig, Compound (CompoundFunction name cargs)))"
proof -
  let ?sig = "\<lparr>sig_name = name, sig_args = types, sig_ret = ret\<rparr>"
  show thesis
  proof (cases rule: resolve_builtin_cases [of L ?sig])
    case (1 e)
    then show ?thesis by (intro that(1)) (simp add: resolve_call_def)
  next
    case (2 c ret')
    then show ?thesis by (intro that(2) [of c "\<lparr>sig_name = name, sig_args = types, sig_ret = ret'\<rparr>"]) (auto simp: resolve_call_def)
  next
    case (3 c k cargs)
    then show ?thesis by (intro that(3) [of c cargs "signature c"]) (auto simp: resolve_call_def)
  qed
qed

text \<open>A cast is never a compound: where a parameter would need a widened argument, another candidate takes
  the argument as it is.\<close>

fun cast_params :: "data_type \<Rightarrow> data_type list" where
  "cast_params T_Boolean = [T_Boolean, T_Text, T_Json]"
| "cast_params T_Text = [T_Boolean, T_Text, T_Null]"
| "cast_params T_Json = [T_Boolean, T_Integer, T_BigInt, T_Decimal 0 0, T_Text]"
| "cast_params T_Integer = [T_Boolean, T_Integer, T_BigInt, T_Decimal 0 0, T_Text, T_Json]"
| "cast_params T_BigInt = [T_Boolean, T_Integer, T_BigInt, T_Decimal 0 0, T_Text, T_Json]"
| "cast_params (T_Decimal p s) = [T_Boolean, T_Integer, T_BigInt, T_Decimal 0 0, T_Text, T_Json]"
| "cast_params T_Date = [T_Text]"
| "cast_params T_Timestamp = [T_Text]"
| "cast_params T_JsonPath = [T_Text]"
| "cast_params T_ByteA = []"
| "cast_params T_Null = []"

lemma cast_candidates:
  assumes "cast_function dt = Some name"
  shows "map (\<lambda>c. sig_args (signature c)) (lookup L name) = map (\<lambda>t. [t]) (cast_params dt)"
    "list_all (\<lambda>c. \<exists>g. function_of c = Scalar g) (lookup L name)"
proof -
  have "map (\<lambda>c. sig_args (signature c)) (lookup L (the (cast_function dt))) = map (\<lambda>t. [t]) (cast_params dt) \<and>
    list_all (\<lambda>c. \<exists>g. function_of c = Scalar g) (lookup L (the (cast_function dt)))" if "dt \<noteq> T_Null"
    using that by (cases dt) (simp_all add: lookup_simps)
  moreover have "dt \<noteq> T_Null" using assms by auto
  ultimately show "map (\<lambda>c. sig_args (signature c)) (lookup L name) = map (\<lambda>t. [t]) (cast_params dt)"
    "list_all (\<lambda>c. \<exists>g. function_of c = Scalar g) (lookup L name)" using assms by simp_all
qed

lemma cast_params_exact:
  assumes "to \<in> set (cast_params dt)" "datatype_rank t to \<noteq> None"
  shows "\<exists>to' \<in> set (cast_params dt). datatype_rank t to' = Some 0"
  using assms by (cases dt; cases t; auto simp: datatype_rank_eq)

lemma cast_call_scalar:
  assumes "cast_function dt = Some name" "resolve_call (builtin_registry L) name [t] dt = Some (Inr (sig, f))"
  shows "\<exists>g. f = Scalar g"
proof (cases rule: resolve_call_cases [of L name "[t]" dt])
  case (2 c sig')
  then show ?thesis using assms(2) cast_candidates(2) [OF assms(1), of L] by (auto simp: list_all_iff)
next
  case (3 c sig' cargs)
  have set: "(\<lambda>c. sig_args (signature c)) ` set (lookup L name) = (\<lambda>t. [t]) ` set (cast_params dt)"
    using arg_cong [OF cast_candidates(1) [OF assms(1), of L], of set] by simp
  then obtain to where to: "to \<in> set (cast_params dt)" "sig_args (signature c) = [to]" using 3(1) by blast
  then have "datatype_rank t to \<noteq> None" using 3(4) by (auto simp: candidate_rank_def split: option.splits)
  then obtain to' where to': "to' \<in> set (cast_params dt)" "datatype_rank t to' = Some 0" using cast_params_exact [OF to(1)] by blast
  then obtain c' where "c' \<in> set (lookup L name)" "sig_args (signature c') = [to']" using set by (metis (no_types, lifting) imageE imageI)
  then show ?thesis using 3(5) [of c'] to'(2) by simp
qed (use assms in auto)

text \<open>The result of a compilation has nothing to resolve at its root.\<close>

fun resolved :: "'d expression \<Rightarrow> bool" where
  "resolved (FunctionCall n args) = False"
| "resolved (Cast e dt) = False"
| "resolved (ColumnReference c) = False"
| "resolved _ = True"

lemma resolved_compile [simp]: "resolved e \<Longrightarrow> compile_expr n R fs e = Some (Inr e)"
  by (cases e) simp_all

lemma resolved_type: "resolved e \<Longrightarrow> \<exists>t. type_for_expression e = Some t"
  by (cases e) simp_all

lemma resolved_types: "list_all resolved es \<Longrightarrow> those (map type_for_expression es) = Some (map (the \<circ> type_for_expression) es)"
  by (induction es) (auto dest: resolved_type)

lemma resolved_compile_args [simp]: "list_all resolved es \<Longrightarrow> compile_args n R fs es = Some (Inr es)"
  by (induction es) simp_all

lemma compile_resolved:
  "compile_expr n R fs e = Some (Inr e') \<Longrightarrow> resolved e'"
  "compile_args n R fs es = Some (Inr es') \<Longrightarrow> list_all resolved es'"
proof (induction n R fs e and n R fs es arbitrary: e' and es' rule: compile_expr_compile_args.induct)
  case (1 n R fs name args)
  from 1(3) show ?case
  proof (cases rule: compile_call_cases)
    case (compound args' types sig cf m e)
    then show ?thesis using 1(2) by blast
  qed simp_all
next
  case (3 n R fs c)
  then show ?case by (auto dest: resolve_column_typed)
qed (auto simp: and_then_eq_Inr bind_eq_Some_conv only_scalar)

lemma compile_call_args:
  "compile_args n R fs args = Some (Inr args') \<Longrightarrow> compile_expr n R fs (FunctionCall name args) = compile_expr n R fs (FunctionCall name args')"
  using compile_resolved(2) by (metis (no_types, lifting) compile_expr.simps(1) resolved_compile_args)

text \<open>The widened call: each argument that does not fit is wrapped in the cast function of its parameter.\<close>

definition widen :: "data_type \<Rightarrow> 'd expression \<Rightarrow> 'd expression" where
  "widen to e = (if datatype_rank (the (type_for_expression e)) to = Some 0 then e else FunctionCall (the (cast_function to)) [e])"

lemma assemble_widened:
  assumes "compound_args (map (the \<circ> type_for_expression) args) params = Some cargs" "length params = length args"
  shows "assemble_compound_function (CompoundFunction name cargs) args = Some (FunctionCall name (map2 widen params args))"
proof -
  let ?f = "\<lambda>(idx, from, to). if datatype_rank from to = Some 0 then Some (Input idx)
       else map_option (\<lambda>name. Function (CompoundFunction name [Input idx])) (cast_function to)"
  have c: "map ?f (zip [0..<length args] (zip (map (the \<circ> type_for_expression) args) params)) = map Some cargs"
    using assms(1) by (simp add: compound_args_def those_eq_Some)
  then have len: "length cargs = length args" using assms(2) by (metis (no_types, lifting) length_map length_zip length_upt min.idem diff_zero)
  have "assemble_arg (cargs ! i) args = Some (widen (params ! i) (args ! i))" if i: "i < length args" for i
  proof -
    have "?f (i, the (type_for_expression (args ! i)), params ! i) = Some (cargs ! i)"
      using arg_cong [OF c, of "\<lambda>xs. xs ! i"] i len assms(2) by simp
    then have "Some (cargs ! i) = ?f (i, the (type_for_expression (args ! i)), params ! i)" by (rule sym)
    then show ?thesis using i by (cases "cast_function (params ! i)") (auto simp: widen_def split: if_split_asm)
  qed
  then have "map (\<lambda>a. assemble_arg a args) cargs = map Some (map2 widen params args)"
    using len assms(2) by (auto simp: list_eq_iff_nth_eq)
  then show ?thesis by (simp add: those_eq_Some)
qed

lemma compile_widen:
  assumes "resolved e" "datatype_rank (the (type_for_expression e)) to = Some k"
  shows "\<exists>e'. compile_expr n (builtin_registry L) fs (widen to e) = Some (Inr e') \<and> datatype_rank (the (type_for_expression e')) to = Some 0"
proof (cases "k = 0")
  case True
  then show ?thesis using assms by (simp add: widen_def)
next
  case False
  obtain t where t: "type_for_expression e = Some t" using resolved_type [OF assms(1)] by blast
  have call: "\<exists>sig f. resolve_call (builtin_registry L) name [t] T_Null = Some (Inr (sig, Scalar f)) \<and> sig_ret sig = ret"
    if "\<exists>c rest. ranked_candidates (lookup L name) [t] = (0, c) # rest \<and> function_of c = Scalar g \<and> custom_return_type_resolver c = None \<and>
      sig_ret (signature c) = ret" for name ret g
    using that by (auto simp: resolve_call_def resolve_function_def builtin_registry_lookup ranked_candidates_def map_filter_def)
  have "\<exists>sig f ret. resolve_call (builtin_registry L) (the (cast_function to)) [t] T_Null = Some (Inr (sig, Scalar f)) \<and>
      sig_ret sig = ret \<and> datatype_rank ret to = Some 0"
    using assms(2) False widening_functions [of L] call [of "the (cast_function to)"]
    unfolding t option.sel datatype_rank_eq [of t] by (fastforce split: if_splits simp: datatype_rank_0)
  then obtain sig f where "resolve_call (builtin_registry L) (the (cast_function to)) [t] T_Null = Some (Inr (sig, Scalar f))"
    "datatype_rank (sig_ret sig) to = Some 0" by blast
  then show ?thesis using assms False t by (simp add: widen_def)
qed


lemma compile_widened:
  assumes "list_all resolved args" "list_all2 (\<lambda>to from. datatype_rank from to \<noteq> None) params (map (the \<circ> type_for_expression) args)"
  shows "\<exists>args'. compile_args n (builtin_registry L) fs (map2 widen params args) = Some (Inr args') \<and>
    list_all2 (\<lambda>to from. datatype_rank from to = Some 0) params (map (the \<circ> type_for_expression) args')"
  using assms
proof (induction args arbitrary: params)
  case (Cons e es)
  then obtain to tos where "params = to # tos" "datatype_rank (the (type_for_expression e)) to \<noteq> None"
    and tos: "list_all2 (\<lambda>to from. datatype_rank from to \<noteq> None) tos (map (the \<circ> type_for_expression) es)"
    unfolding list.map list_all2_Cons2 comp_def by blast
  then obtain k where p: "params = to # tos" "datatype_rank (the (type_for_expression e)) to = Some k" by blast
  obtain e' where "compile_expr n (builtin_registry L) fs (widen to e) = Some (Inr e')" "datatype_rank (the (type_for_expression e')) to = Some 0"
    using compile_widen [OF _ p(2)] Cons.prems(1) by fastforce
  moreover obtain es' where "compile_args n (builtin_registry L) fs (map2 widen tos es) = Some (Inr es')"
    "list_all2 (\<lambda>to from. datatype_rank from to = Some 0) tos (map (the \<circ> type_for_expression) es')"
    using Cons.IH [OF _ tos] Cons.prems(1) unfolding list.pred_inject by blast
  ultimately show ?case unfolding p(1) by (simp add: comp_def)
qed simp

lemma candidate_ranks:
  assumes "candidate_rank params types \<noteq> None"
  shows "list_all2 (\<lambda>to from. datatype_rank from to \<noteq> None) params types"
proof -
  obtain k where "candidate_rank params types = Some k" using assms by blast
  then show ?thesis unfolding candidate_rank_iff by (force simp: list_all2_conv_all_nth)
qed

lemma compile_exact_call:
  assumes "list_all resolved args" "name \<noteq> ''->>''" "c \<in> set (lookup L name)"
    "list_all2 (\<lambda>to from. datatype_rank from to = Some 0) (sig_args (signature c)) (map (the \<circ> type_for_expression) args)"
  shows "compile_expr n (builtin_registry L) fs (FunctionCall name args) \<noteq> None"
proof (cases rule: resolve_call_cases [of L name "map (the \<circ> type_for_expression) args" T_Null])
  case (2 c' sig)
  have "function_of c' \<noteq> Compound cf" for cf using 2(2) lookup_good [OF 2(1)] assms(2) by (auto simp: definition_ok_def)
  then show ?thesis using assms(1) 2(4) by (cases "function_of c'") (simp_all add: resolved_types del: not_None_eq, blast)
next
  case (3 c' sig cargs)
  then show ?thesis using assms(3,4) by blast
qed (use assms(1) in \<open>simp add: resolved_types\<close>)

lemma compile_resolved_call:
  assumes "list_all resolved args" "name \<noteq> ''->>''"
  shows "compile_expr (Suc m) (builtin_registry L) fs (FunctionCall name args) \<noteq> None"
proof (cases rule: resolve_call_cases [of L name "map (the \<circ> type_for_expression) args" T_Null])
  case (2 c sig)
  then show ?thesis using compile_exact_call [OF assms 2(1,3)] by blast
next
  case (3 c sig cargs)
  let ?params = "sig_args (signature c)"
  have ranks: "list_all2 (\<lambda>to from. datatype_rank from to \<noteq> None) ?params (map (the \<circ> type_for_expression) args)"
    using 3(4) by (rule candidate_ranks)
  then have "length ?params = length args" by (auto dest: list_all2_lengthD)
  from assemble_widened [OF 3(3) this]
  have step: "compile_expr (Suc m) (builtin_registry L) fs (FunctionCall name args) =
      compile_expr m (builtin_registry L) fs (FunctionCall name (map2 widen ?params args))"
    using assms(1) 3(6) by (simp add: resolved_types)
  obtain args' where args': "compile_args m (builtin_registry L) fs (map2 widen ?params args) = Some (Inr args')"
    "list_all2 (\<lambda>to from. datatype_rank from to = Some 0) ?params (map (the \<circ> type_for_expression) args')"
    using compile_widened [OF assms(1) ranks] by blast
  show ?thesis unfolding step compile_call_args [OF args'(1)]
    by (rule compile_exact_call [OF compile_resolved(2) [OF args'(1)] assms(2) 3(1) args'(2)])
qed (use assms(1) in \<open>simp add: resolved_types\<close>)


lemma compile_unquote:
  assumes "list_all resolved args"
  shows "compile_expr (Suc (Suc m)) (builtin_registry L) fs (FunctionCall ''->>'' args) \<noteq> None"
proof (cases rule: resolve_call_cases [of L "''->>''" "map (the \<circ> type_for_expression) args" T_Null])
  case (2 c sig)
  have c: "function_of c = Compound unquote_compound" "sig_args (signature c) = [T_Json, T_Text]"
    using 2(1) by (auto simp: lookup_simps unquote_compound_def)
  then obtain a b where args: "args = [a, b]" using 2(3) by (auto simp: list_all2_Cons1 Cons_eq_map_conv)
  let ?call = "FunctionCall ''json_extract'' [a, b]"
  have asm: "assemble_compound_function unquote_compound args = Some (FunctionCall ''json_unquote'' [?call])"
    by (simp add: unquote_compound_def args)
  have step: "compile_expr (Suc (Suc m)) (builtin_registry L) fs (FunctionCall ''->>'' args) =
      compile_expr (Suc m) (builtin_registry L) fs (FunctionCall ''json_unquote'' [?call])"
    unfolding compile_expr.simps(1) [of _ _ _ "''->>''"] resolved_compile_args [OF assms] and_then_simps resolved_types [OF assms]
      Option.bind.bind_lunit 2(4) c(1) by (simp add: asm del: compile_expr.simps compile_args.simps)
  have "compile_args (Suc m) (builtin_registry L) fs [?call] \<noteq> None"
    using compile_resolved_call [of "[a, b]" "''json_extract''" m L fs] assms by (auto simp: args and_then_def split: option.splits sum.splits)
  then obtain r where r: "compile_args (Suc m) (builtin_registry L) fs [?call] = Some r" by blast
  show ?thesis
  proof (cases r)
    case (Inl e)
    then show ?thesis unfolding step compile_expr.simps(1) [of _ _ _ "''json_unquote''"] r by simp
  next
    case (Inr args')
    show ?thesis unfolding step compile_call_args [OF r [unfolded Inr]]
      by (rule compile_resolved_call [OF compile_resolved(2) [OF r [unfolded Inr]]]) simp
  qed
next
  case (3 c sig cargs)
  have params: "sig_args (signature c) = [T_Json, T_Text]" using 3(1) by (auto simp: lookup_simps)
  have "list_all2 (\<lambda>to from. datatype_rank from to = Some 0) (sig_args (signature c)) (map (the \<circ> type_for_expression) args)"
    using candidate_ranks [OF 3(4)] by (rule list.rel_mono_strong) (auto simp: params datatype_rank_eq split: if_splits)
  then show ?thesis using 3(1,5) by blast
qed (use assms in \<open>simp add: resolved_types\<close>)

lemma compile_call:
  assumes "list_all resolved args"
  shows "compile_expr (Suc (Suc m)) (builtin_registry L) fs (FunctionCall name args) \<noteq> None"
  using compile_unquote [OF assms] compile_resolved_call [OF assms] by (cases "name = ''->>''") blast+


lemma compile_args_total:
  "(\<And>e. e \<in> set es \<Longrightarrow> compile_expr n R fs e \<noteq> None) \<Longrightarrow> compile_args n R fs es \<noteq> None"
  by (induction es) (auto simp: and_then_def split: option.splits sum.splits)

lemma compile_ends: "castable e \<Longrightarrow> compile_expr (Suc (Suc m)) (builtin_registry L) fs e \<noteq> None"
proof (induction e)
  case (FunctionCall name args)
  then obtain q where q: "compile_args (Suc (Suc m)) (builtin_registry L) fs args = Some q"
    using compile_args_total [of args "Suc (Suc m)" "builtin_registry L" fs] by (auto simp: list_all_iff)
  show ?case
  proof (cases q)
    case (Inl e)
    then show ?thesis unfolding compile_expr.simps(1) q by simp
  next
    case (Inr args')
    show ?thesis unfolding compile_call_args [OF q [unfolded Inr]] by (rule compile_call [OF compile_resolved(2) [OF q [unfolded Inr]]])
  qed
next
  case (Cast e dt)
  then obtain q where q: "compile_expr (Suc (Suc m)) (builtin_registry L) fs e = Some q" by auto
  obtain name where name: "cast_function dt = Some name" using Cast.prems by (cases dt) auto
  show ?case
  proof (cases q)
    case (Inr e')
    obtain t where t: "type_for_expression e' = Some t" using q Inr compile_resolved(1) resolved_type by blast
    obtain r where r: "resolve_call (builtin_registry L) name [t] dt = Some r" by (cases rule: resolve_call_cases [of L name "[t]" dt]) blast+
    show ?thesis
    proof (cases r)
      case [simp]: (Inr sf)
      obtain g where "snd sf = Scalar g" using cast_call_scalar [OF name] r by (metis Inr prod.collapse)
      then show ?thesis using q \<open>q = Inr e'\<close> t name r by (cases sf) simp
    qed (use q Inr t name r in simp)
  qed (use q in simp)
next
  case (ColumnReference c)
  then show ?case by (auto simp: resolve_column_def Let_def split: list.splits)
qed simp_all

lemma compile_mono:
  "compile_expr n R fs e = Some r \<Longrightarrow> compile_expr (n + k) R fs e = Some r"
  "compile_args n R fs es = Some rs \<Longrightarrow> compile_args (n + k) R fs es = Some rs"
proof (induction n R fs e and n R fs es arbitrary: r and rs rule: compile_expr_compile_args.induct)
  case (1 n R fs name args)
  obtain q where q: "compile_args n R fs args = Some q" "compile_args (n + k) R fs args = Some q"
    using 1(1,3) by (cases "compile_args n R fs args") auto
  show ?case
  proof (cases q)
    case (Inr args')
    obtain types c where c: "those (map type_for_expression args') = Some types" "resolve_call R name types T_Null = Some c"
      using 1(3) q Inr by (auto simp: bind_eq_Some_conv and_then_def split: option.split_asm)
    show ?thesis
    proof (cases c)
      case c': (Inr sf)
      obtain sig f where sf: "sf = (sig, f)" by (cases sf)
      show ?thesis
      proof (cases f)
        case (Compound cf)
        then obtain m e where m: "n = Suc m" "assemble_compound_function cf args' = Some e" "compile_expr m R fs e = Some r"
          using 1(3) q Inr c c' sf by (auto simp: bind_eq_Some_conv split: nat.split_asm)
        have "compile_expr (m + k) R fs e = Some r" using 1(2) q Inr c c' sf Compound m by blast
        then show ?thesis using q Inr c c' sf Compound m by simp
      qed (use 1(3) q Inr c c' sf in simp_all)
    qed (use 1(3) q Inr c in simp)
  qed (use 1(3) q in simp)
next
  case (2 n R fs e dt)
  then show ?case by (cases "compile_expr n R fs e") auto
next
  case (9 n R fs e es)
  obtain q where q: "compile_expr n R fs e = Some q" "compile_expr (n + k) R fs e = Some q"
    using 9(1,3) by (cases "compile_expr n R fs e") auto
  show ?case
  proof (cases q)
    case (Inr e')
    then show ?thesis using 9 q by (cases "compile_args n R fs es") auto
  qed (use 9 q in simp)
qed auto


text \<open>C20. Compilation against the built in functions ends and never panics, for every expression without a
  cast to the type NULL: resolving the calls it makes up two levels deep is enough, and allowing more
  depth does not change the outcome.\<close>

theorem compile_total:
  assumes "castable e" "2 \<le> n"
  shows "\<exists>r. compile_expr 2 (builtin_registry L) fs e = Some r \<and> compile_expr n (builtin_registry L) fs e = Some r"
proof -
  obtain r where r: "compile_expr 2 (builtin_registry L) fs e = Some r"
    using compile_ends [OF assms(1), of 0 L fs] by (auto simp: numeral_2_eq_2)
  with compile_mono(1) [OF r, of "n - 2"] show ?thesis using assms(2) by (simp flip: add_2_eq_Suc)
qed

theorem compile_total_witness:
  "\<exists>r. compile_expr 2 (builtin_registry example_lib) [] (FunctionCall ''->>'' [Constant (D_Integer 1) T_Integer]) = Some r \<and>
     compile_expr 5 (builtin_registry example_lib) [] (FunctionCall ''->>'' [Constant (D_Integer 1) T_Integer]) = Some r"
  by (rule compile_total) simp_all

text \<open>C14. A compiled expression evaluates to a datum of its static type: when the constants of the source
  expression have the types they state and the row has the types of the fields, every value of the
  expression made by compilation has the type that \<open>type_for_expression\<close> gives (NULL has every type).\<close>

theorem compiled_expression_typed:
  fixes L :: "('d, 'n, 't) function_lib"
  assumes "typed_in (map fd_data_type fs) e" "compile_expr n (builtin_registry L) fs e = Some (Inr e')"
    "list_all2 has_type (map fd_data_type fs) row" "eval_scalar session row e' = Some d"
  shows "\<exists>t. type_for_expression e' = Some t \<and> has_type t d"
  using compile_typed(1) [OF assms(2,1)] eval_typed [OF _ _ assms(3,4)] compiled_type [of e'] by auto


section \<open>Values of rewritten expressions\<close>

lemma respects_norm_bind:
  assumes "respects_norm f" "map_option (map norm) as = map_option (map norm) bs"
  shows "map_option norm (Option.bind as (f session sig)) = map_option norm (Option.bind bs (f session sig))"
proof (cases as)
  case (Some vals)
  then obtain vals' where "bs = Some vals'" "map norm vals = map norm vals'" using assms(2) by (cases bs) auto
  then show ?thesis using assms(1) Some unfolding respects_norm_def by (metis Option.bind.bind_lunit)
qed (use assms(2) in \<open>cases bs; simp\<close>)

lemma eval_all_norm_cong:
  assumes "list_all2 (\<lambda>e e'. map_option norm (eval_scalar session row e) = map_option norm (eval_scalar session row' e')) es es'"
  shows "map_option (map norm) (eval_all session es row) = map_option (map norm) (eval_all session es' row')"
  using assms
proof (induction rule: list_all2_induct)
  case (Cons e es e' es')
  then show ?case
    by (cases "eval_scalar session row e"; cases "eval_scalar session row' e'"; cases "eval_all session es row"; cases "eval_all session es' row'") auto
qed simp

lemma inline_expressions_eq: "inline_expressions src es = those (map (inline_expression src) es)"
  by (induction es) (simp_all add: those_Cons del: those.simps(2))

lemma fold_constants_eq: "fold_constants_for_exprs session es = those (map (fold_constants_for_expr session) es)"
  by (induction es) (simp_all add: those_Cons del: those.simps(2))

lemma those_list_all2: "those (map f xs) = Some ys \<longleftrightarrow> list_all2 (\<lambda>x y. f x = Some y) xs ys"
  unfolding those_eq_Some by (auto simp: list_eq_iff_nth_eq list_all2_conv_all_nth)

lemma inline_expression_value:
  assumes "eval_all session src row = Some vals"
  shows "inline_expression src e = Some e' \<Longrightarrow> typed_in ts e \<Longrightarrow> compiled e \<Longrightarrow>
    map_option norm (eval_scalar session row e') = map_option norm (eval_scalar session vals e)"
proof (induction e arbitrary: e')
  case (CompiledFunctionCall f args sig)
  obtain args' where args': "list_all2 (\<lambda>x y. inline_expression src x = Some y) args args'" "e' = CompiledFunctionCall f args' sig"
    using CompiledFunctionCall.prems(1) by (auto simp: inline_expressions_eq those_list_all2)
  have "list_all2 (\<lambda>e' e. map_option norm (eval_scalar session row e') = map_option norm (eval_scalar session vals e)) args' args"
    using CompiledFunctionCall.IH CompiledFunctionCall.prems(2,3) args'(1) by (auto simp: list_all2_conv_all_nth list_all_length)
  from respects_norm_bind [OF _ eval_all_norm_cong [OF this]] show ?case using CompiledFunctionCall.prems(2) args'(2) by simp
next
  case (CompiledColumnReference i dt)
  then have "e' = src ! i" "i < length src" by (auto split: if_splits)
  moreover have "eval_scalar session row (src ! i) = Some (vals ! i)"
    using assms \<open>i < length src\<close> unfolding eval_all_def those_eq_Some by (metis nth_map length_map)
  ultimately show ?case using length_eval_all [OF assms] by simp
qed (auto simp: inline_expressions_eq)

lemma constant_values:
  assumes "list_all is_constant es"
  shows "those (map constant_value es) = eval_all session es row"
proof -
  have "map constant_value es = map (eval_scalar session row) es" using assms by (induction es) (auto elim!: is_constant.elims)
  then show ?thesis by (simp only: eval_all_def)
qed

lemma those_None: "those (map f xs) = None \<longleftrightarrow> (\<exists>x \<in> set xs. f x = None)"
  by (induction xs) (auto split: option.splits)

lemma fold_constants_value:
  "typed_in ts e \<Longrightarrow> compiled e \<Longrightarrow>
    Option.bind (fold_constants_for_expr session e) (\<lambda>e'. map_option norm (eval_scalar session row e')) = map_option norm (eval_scalar session row e)"
proof (induction e)
  case (CompiledFunctionCall f args sig)
  have IH: "Option.bind (fold_constants_for_expr session a) (\<lambda>e'. map_option norm (eval_scalar session row e')) = map_option norm (eval_scalar session row a)"
    if "a \<in> set args" for a using CompiledFunctionCall that by (auto simp: list_all_iff)
  show ?case
  proof (cases "fold_constants_for_exprs session args")
    case None
    then obtain a where "a \<in> set args" "fold_constants_for_expr session a = None" by (auto simp: fold_constants_eq those_None)
    then have "eval_all session args row = None" using IH [of a] by (auto simp: eval_all_def those_None)
    then show ?thesis using None by simp
  next
    case (Some args')
    then have "list_all2 (\<lambda>x y. fold_constants_for_expr session x = Some y) args args'" by (simp add: fold_constants_eq those_list_all2)
    then have "list_all2 (\<lambda>a a'. map_option norm (eval_scalar session row a) = map_option norm (eval_scalar session row a')) args args'"
      by (rule list.rel_mono_strong) (simp flip: IH)
    from respects_norm_bind [OF _ eval_all_norm_cong [OF this], of f session sig] CompiledFunctionCall.prems(1)
    have eq: "map_option norm (eval_scalar session row (CompiledFunctionCall f args sig)) =
      map_option norm (Option.bind (eval_all session args' row) (f session sig))" by simp
    show ?thesis
    proof (cases "list_all is_constant args'")
      case True
      then show ?thesis unfolding eq using Some constant_values [OF True, of session row]
        by (cases "eval_all session args' row"; cases "f session sig (the (eval_all session args' row))") simp_all
    qed (use eq Some in simp)
  qed
next
  case (CompiledAggregate g args sig)
  then show ?case by (cases "fold_constants_for_exprs session args") simp_all
qed auto


lemma fold_constants_type:
  "compiled e \<Longrightarrow> fold_constants_for_expr session e = Some e' \<Longrightarrow> type_for_expression e' = type_for_expression e"
  by (cases e) (auto simp: bind_eq_Some_conv split: if_splits)

text \<open>Deepest and highest column of an expression: the bounds of the offsets it reads.\<close>

lemma merge_min_max_None: "merge_min_max ds = None \<longleftrightarrow> ds = []"
proof -
  let ?f = "\<lambda>b a. case a of Some (min1, max1) \<Rightarrow> Some (min min1 (fst b), max max1 (snd b)) | None \<Rightarrow> Some b"
  have "fold ?f ds (Some a) \<noteq> None" for ds and a :: "nat \<times> nat"
    by (induction ds arbitrary: a) (simp_all add: case_prod_beta)
  then show ?thesis unfolding merge_min_max_def by (cases ds) auto
qed

lemma fold_constants_constant:
  "compiled e \<Longrightarrow> min_max_column_deps e = None \<Longrightarrow> \<not> contains_aggregate e \<Longrightarrow> fold_constants_for_expr session e = Some e' \<Longrightarrow> is_constant e'"
proof (induction e arbitrary: e')
  case (CompiledFunctionCall f args sig)
  obtain args' where args': "fold_constants_for_exprs session args = Some args'" using CompiledFunctionCall.prems(4) by (auto simp: bind_eq_Some_conv)
  have "min_max_column_deps a = None" if "a \<in> set args" for a
    using CompiledFunctionCall.prems(2) that by (simp add: merge_min_max_None List.map_filter_def filter_empty_conv del: not_None_eq split_paired_Ex)
  then have "is_constant a'" if "fold_constants_for_expr session a = Some a'" "a \<in> set args" for a a'
    using CompiledFunctionCall.IH CompiledFunctionCall.prems(1,3) that by (auto simp: list_all_iff list_ex_iff)
  then have "list_all is_constant args'" using args' those_list_all [of "fold_constants_for_expr session" args args' is_constant]
    by (simp add: fold_constants_eq)
  then show ?case using CompiledFunctionCall.prems(4) args' by (auto simp: bind_eq_Some_conv)
qed auto

text \<open>C23. Folding the constants of a compiled expression changes neither its type nor its value on any row
  (the representation of a byte string apart): folding panics only where the evaluation would, and an
  expression that reads no column and has no aggregate becomes a constant.\<close>

theorem fold_constants_equivalent:
  fixes L :: "('d, 'n, 't) function_lib"
  assumes "typed_in (map fd_data_type fs) e" "compile_expr n (builtin_registry L) fs e = Some (Inr c)"
  shows "Option.bind (fold_constants_for_expr session c) (\<lambda>e'. map_option norm (eval_scalar session row e')) =
      map_option norm (eval_scalar session row c) \<and>
    (\<forall>e'. fold_constants_for_expr session c = Some e' \<longrightarrow> type_for_expression e' = type_for_expression c \<and>
       (min_max_column_deps c = None \<and> \<not> contains_aggregate c \<longrightarrow> is_constant e'))"
proof -
  have c: "typed_in (map fd_data_type fs) c" "compiled c" using compile_typed(1) [OF assms(2,1)] by simp_all
  show ?thesis using fold_constants_value [OF c] fold_constants_type [OF c(2)] fold_constants_constant [OF c(2)] by blast
qed

definition example_expression :: "ref_decimal expression" where
  "example_expression = FunctionCall ''+'' [Constant (D_Integer 2) T_Integer, Constant (D_Integer 3) T_Integer]"

definition example_compiled :: "ref_decimal expression" where
  "example_compiled = CompiledFunctionCall AddInteger [Constant (D_Integer 2) T_Integer, Constant (D_Integer 3) T_Integer]
     \<lparr>sig_name = ''+'', sig_args = [T_Integer, T_Integer], sig_ret = T_Integer\<rparr>"

lemma resolve_best:
  assumes "ranked_candidates (lookup L name) types = (0, c) # rest" "custom_return_type_resolver c = None"
  shows "resolve_call (builtin_registry L) name types T_Null =
    Some (Inr (\<lparr>sig_name = name, sig_args = types, sig_ret = sig_ret (signature c)\<rparr>, function_of c))"
proof -
  have "c \<in> set (lookup L name)" using ranked_candidates_hd(1) [OF assms(1)] .
  then have "lookup L name \<noteq> []" "sig_name (signature c) = name" using lookup_good by auto
  then show ?thesis using assms by (simp add: resolve_call_def resolve_function_def builtin_registry_lookup)
qed

lemma example_call:
  "\<exists>c rest. ranked_candidates (lookup L ''+'') [T_Integer, T_Integer] = (0, c) # rest \<and> function_of c = Scalar AddInteger \<and>
     custom_return_type_resolver c = None \<and> sig_ret (signature c) = T_Integer"
  by (simp add: lookup_simps rank_simps)

lemma example_compile: "compile_expr 0 (builtin_registry example_lib) [] example_expression = Some (Inr example_compiled)"
proof -
  have "resolve_call (builtin_registry example_lib) ''+'' [T_Integer, T_Integer] T_Null =
    Some (Inr (\<lparr>sig_name = ''+'', sig_args = [T_Integer, T_Integer], sig_ret = T_Integer\<rparr>, Scalar AddInteger))"
    using example_call [of example_lib] resolve_best [of example_lib "''+''"] by metis
  then show ?thesis by (simp add: example_expression_def example_compiled_def)
qed

theorem fold_constants_equivalent_witness:
  "Option.bind (fold_constants_for_expr (session_new 0) example_compiled) (\<lambda>e'. map_option norm (eval_scalar (session_new 0) [] e')) =
      Some (D_Integer 5)"
proof -
  have "typed_in (map fd_data_type []) example_expression" by (simp add: example_expression_def)
  from fold_constants_equivalent [OF this example_compile, of "session_new 0" "[]"]
  have "Option.bind (fold_constants_for_expr (session_new 0) example_compiled) (\<lambda>e'. map_option norm (eval_scalar (session_new 0) [] e')) =
      map_option norm (eval_scalar (session_new 0) [] example_compiled)" by blast
  also have "\<dots> = Some (D_Integer 5)" by (simp add: example_compiled_def AddInteger_def binary_def arg_def)
  finally show ?thesis .
qed


theorem compiled_expression_typed_witness:
  "\<exists>t. type_for_expression example_compiled = Some t \<and> has_type t (D_Integer 5 :: ref_decimal datum)"
proof -
  have "typed_in (map fd_data_type []) example_expression" by (simp add: example_expression_def)
  moreover have "eval_scalar (session_new 0) [] example_compiled = Some (D_Integer 5)"
    by (simp add: example_compiled_def AddInteger_def binary_def arg_def)
  ultimately show ?thesis by (intro compiled_expression_typed [OF _ example_compile]) simp_all
qed

end
