(* ===== verification/Logical.thy ===== *)
theory Logical
  imports Planner_Expr
begin

text \<open>
  Logical operators and statements (\<open>ast/src/rel/logical.rs\<close>, \<open>ast/src/statement.rs\<close>) and the fields an
  operator has and sees (\<open>planner/src/utils/logical.rs\<close>).  The passes of the planner visit the
  children of an operator first and then the operator, and stop at the first error: they are
  instances of \<open>walk\<close>.  The lemmas show how facts about the visit of one operator become facts
  about every operator of the result.
\<close>

section \<open>Operators\<close>

datatype 'd logical_operator =
    L_Single
  | L_Project bool "'d named_expression list" "'d logical_operator"
  | L_GroupBy "'d named_expression list" "'d expression list" "'d logical_operator"
  | L_Filter "'d expression" "'d logical_operator"
  | L_Join "'d logical_operator" "'d logical_operator" "'d expression" join_type
  | L_Sort "'d sort_expression list" "'d logical_operator"
  | L_Limit i64 i64 "'d logical_operator"
  | L_Values "(data_type \<times> string) list" "'d expression list list"
  | L_TableAlias string "'d logical_operator"
  | L_UnionAll "'d logical_operator list"
  | L_TableReference "string option" string
  | L_ResolvedTable "(string \<times> data_type) list" table
  | L_TableInsert "'d logical_operator" "'d logical_operator"
  | L_NegateFreq "'d logical_operator"
  | L_FileScan string serde_options

datatype 'd statement =
    S_Query "'d logical_operator"
  | S_ShowFunctions
  | S_ShowDatabases
  | S_ShowTables
  | S_CreateDatabase string
  | S_DropDatabase string
  | S_UseDatabase string
  | S_CreateTable "string option" string "(string \<times> data_type) list"
  | S_CreateView "string option" string string "'d logical_operator"
  | S_CompactTable "string option" string
  | S_DropTable "string option" string
  | S_Explain "'d logical_operator"

definition serde_options_default :: serde_options where
  "serde_options_default = \<lparr>delimiter = 44\<rparr>"

fun children_mut :: "'d logical_operator \<Rightarrow> 'd logical_operator list" where
  "children_mut (L_Project d es s) = [s]"
| "children_mut (L_GroupBy es ks s) = [s]"
| "children_mut (L_Filter p s) = [s]"
| "children_mut (L_Limit k l s) = [s]"
| "children_mut (L_Sort es s) = [s]"
| "children_mut (L_TableAlias n s) = [s]"
| "children_mut (L_TableInsert t s) = [t, s]"
| "children_mut (L_UnionAll ss) = ss"
| "children_mut (L_NegateFreq s) = [s]"
| "children_mut (L_Join l r c t) = [l, r]"
| "children_mut L_Single = []"
| "children_mut (L_Values fs rows) = []"
| "children_mut (L_TableReference db t) = []"
| "children_mut (L_ResolvedTable cs t) = []"
| "children_mut (L_FileScan dir opts) = []"

fun named_expressions :: "'d logical_operator \<Rightarrow> 'd named_expression list" where
  "named_expressions (L_Project d es s) = es"
| "named_expressions (L_GroupBy es ks s) = es"
| "named_expressions _ = []"

fun expressions_mut :: "'d logical_operator \<Rightarrow> 'd expression list" where
  "expressions_mut (L_Project d es s) = map ne_expression es"
| "expressions_mut (L_GroupBy es ks s) = map ne_expression es @ ks"
| "expressions_mut (L_Filter p s) = [p]"
| "expressions_mut (L_Values fs rows) = concat rows"
| "expressions_mut (L_Sort es s) = map se_expression es"
| "expressions_mut (L_Join l r c t) = [c]"
| "expressions_mut _ = []"

section \<open>Visiting an operator\<close>

text \<open>A loop over mutable references stops at the first error: \<open>traverse\<close> is that loop over a list.\<close>

fun traverse :: "('a \<Rightarrow> ('e, 'b) outcome) \<Rightarrow> 'a list \<Rightarrow> ('e, 'b list) outcome" where
  "traverse f [] = Some (Inr [])"
| "traverse f (x # xs) = and_then (f x) (\<lambda>y. and_then (traverse f xs) (\<lambda>ys. Some (Inr (y # ys))))"

lemma traverse_cong [fundef_cong]:
  "xs = ys \<Longrightarrow> (\<And>x. x \<in> set ys \<Longrightarrow> f x = g x) \<Longrightarrow> traverse f xs = traverse g ys"
  by (induction xs arbitrary: ys) auto

lemma traverse_eq_Inr: "traverse f xs = Some (Inr ys) \<longleftrightarrow> list_all2 (\<lambda>x y. f x = Some (Inr y)) xs ys"
  by (induction xs arbitrary: ys) (auto simp: and_then_eq_Inr list_all2_Cons1)

definition traverse_named :: "('d expression \<Rightarrow> ('e, 'd expression) outcome) \<Rightarrow> 'd named_expression \<Rightarrow> ('e, 'd named_expression) outcome" where
  "traverse_named f ne = and_then (f (ne_expression ne)) (\<lambda>e. Some (Inr (ne\<lparr>ne_expression := e\<rparr>)))"

definition traverse_sort :: "('d expression \<Rightarrow> ('e, 'd expression) outcome) \<Rightarrow> 'd sort_expression \<Rightarrow> ('e, 'd sort_expression) outcome" where
  "traverse_sort f se = and_then (f (se_expression se)) (\<lambda>e. Some (Inr (se\<lparr>se_expression := e\<rparr>)))"

text \<open>The loop \<open>for expr in operator.expressions_mut()\<close>.\<close>

fun traverse_expressions ::
  "('d expression \<Rightarrow> ('e, 'd expression) outcome) \<Rightarrow> 'd logical_operator \<Rightarrow> ('e, 'd logical_operator) outcome" where
  "traverse_expressions f (L_Project d es s) = and_then (traverse (traverse_named f) es) (\<lambda>es. Some (Inr (L_Project d es s)))"
| "traverse_expressions f (L_GroupBy es ks s) =
     and_then (traverse (traverse_named f) es) (\<lambda>es. and_then (traverse f ks) (\<lambda>ks. Some (Inr (L_GroupBy es ks s))))"
| "traverse_expressions f (L_Filter p s) = and_then (f p) (\<lambda>p. Some (Inr (L_Filter p s)))"
| "traverse_expressions f (L_Values fs rows) = and_then (traverse (traverse f) rows) (\<lambda>rows. Some (Inr (L_Values fs rows)))"
| "traverse_expressions f (L_Sort es s) = and_then (traverse (traverse_sort f) es) (\<lambda>es. Some (Inr (L_Sort es s)))"
| "traverse_expressions f (L_Join l r c t) = and_then (f c) (\<lambda>c. Some (Inr (L_Join l r c t)))"
| "traverse_expressions f op = Some (Inr op)"

text \<open>The loop over the children, followed by the work on the operator itself.\<close>

fun walk :: "('d logical_operator \<Rightarrow> ('e, 'd logical_operator) outcome) \<Rightarrow> 'd logical_operator \<Rightarrow> ('e, 'd logical_operator) outcome" where
  "walk f (L_Project d es s) = and_then (walk f s) (\<lambda>s. f (L_Project d es s))"
| "walk f (L_GroupBy es ks s) = and_then (walk f s) (\<lambda>s. f (L_GroupBy es ks s))"
| "walk f (L_Filter p s) = and_then (walk f s) (\<lambda>s. f (L_Filter p s))"
| "walk f (L_Limit k l s) = and_then (walk f s) (\<lambda>s. f (L_Limit k l s))"
| "walk f (L_Sort es s) = and_then (walk f s) (\<lambda>s. f (L_Sort es s))"
| "walk f (L_TableAlias n s) = and_then (walk f s) (\<lambda>s. f (L_TableAlias n s))"
| "walk f (L_TableInsert t s) = and_then (walk f t) (\<lambda>t. and_then (walk f s) (\<lambda>s. f (L_TableInsert t s)))"
| "walk f (L_UnionAll ss) = and_then (traverse (walk f) ss) (\<lambda>ss. f (L_UnionAll ss))"
| "walk f (L_NegateFreq s) = and_then (walk f s) (\<lambda>s. f (L_NegateFreq s))"
| "walk f (L_Join l r c t) = and_then (walk f l) (\<lambda>l. and_then (walk f r) (\<lambda>r. f (L_Join l r c t)))"
| "walk f L_Single = f L_Single"
| "walk f (L_Values fs rows) = f (L_Values fs rows)"
| "walk f (L_TableReference db t) = f (L_TableReference db t)"
| "walk f (L_ResolvedTable cs t) = f (L_ResolvedTable cs t)"
| "walk f (L_FileScan dir opts) = f (L_FileScan dir opts)"

text \<open>A visit that only checks.\<close>

definition walk_check :: "('d logical_operator \<Rightarrow> ('e, unit) outcome) \<Rightarrow> 'd logical_operator \<Rightarrow> ('e, 'd logical_operator) outcome" where
  "walk_check check = walk (\<lambda>op. and_then (check op) (\<lambda>_. Some (Inr op)))"

section \<open>Fields\<close>

fun field_of_named :: "'d named_expression \<Rightarrow> field option" where
  "field_of_named ne = Option.bind (ne_alias ne) (\<lambda>name. map_option (\<lambda>t. \<lparr>fd_qualifier = None, fd_alias = name, fd_data_type = t\<rparr>)
     (type_for_expression (ne_expression ne)))"

fun fields_for_operator :: "'d logical_operator \<Rightarrow> field list option" where
  "fields_for_operator (L_Project d es s) = those (map field_of_named es)"
| "fields_for_operator (L_GroupBy es ks s) = those (map field_of_named es)"
| "fields_for_operator (L_Filter p s) = fields_for_operator s"
| "fields_for_operator (L_Limit k l s) = fields_for_operator s"
| "fields_for_operator (L_Sort es s) = fields_for_operator s"
| "fields_for_operator (L_Values fs rows) =
     Some (map (\<lambda>(data_type, alias). \<lparr>fd_qualifier = None, fd_alias = alias, fd_data_type = data_type\<rparr>) fs)"
| "fields_for_operator (L_TableAlias n s) = map_option (map (\<lambda>f. f\<lparr>fd_qualifier := Some n\<rparr>)) (fields_for_operator s)"
| "fields_for_operator (L_UnionAll ss) = (case ss of [] \<Rightarrow> None | s # _ \<Rightarrow> fields_for_operator s)"
| "fields_for_operator (L_ResolvedTable cs t) =
     Some (map (\<lambda>(alias, data_type). \<lparr>fd_qualifier = None, fd_alias = alias, fd_data_type = data_type\<rparr>) cs)"
| "fields_for_operator (L_NegateFreq s) = fields_for_operator s"
| "fields_for_operator L_Single = Some []"
| "fields_for_operator (L_TableInsert t s) = Some []"
| "fields_for_operator (L_FileScan dir opts) = Some [\<lparr>fd_qualifier = None, fd_alias = ''data'', fd_data_type = T_Json\<rparr>]"
| "fields_for_operator (L_TableReference db t) = None"
| "fields_for_operator (L_Join l r c t) =
     Option.bind (fields_for_operator l) (\<lambda>ls. map_option (\<lambda>rs. ls @ rs) (fields_for_operator r))"

fun fieldnames_for_operator :: "'d logical_operator \<Rightarrow> (string option \<times> string) list option" where
  "fieldnames_for_operator (L_Project d es s) = those (map (\<lambda>ne. map_option (Pair None) (ne_alias ne)) es)"
| "fieldnames_for_operator (L_GroupBy es ks s) = those (map (\<lambda>ne. map_option (Pair None) (ne_alias ne)) es)"
| "fieldnames_for_operator (L_Filter p s) = fieldnames_for_operator s"
| "fieldnames_for_operator (L_Limit k l s) = fieldnames_for_operator s"
| "fieldnames_for_operator (L_Sort es s) = fieldnames_for_operator s"
| "fieldnames_for_operator (L_Values fs rows) = Some (map (\<lambda>(data_type, alias). (None, alias)) fs)"
| "fieldnames_for_operator (L_TableAlias n s) = map_option (map (\<lambda>(_, alias). (Some n, alias))) (fieldnames_for_operator s)"
| "fieldnames_for_operator (L_UnionAll ss) = (case ss of [] \<Rightarrow> None | s # _ \<Rightarrow> fieldnames_for_operator s)"
| "fieldnames_for_operator (L_ResolvedTable cs t) = Some (map (\<lambda>(alias, data_type). (None, alias)) cs)"
| "fieldnames_for_operator (L_NegateFreq s) = fieldnames_for_operator s"
| "fieldnames_for_operator (L_FileScan dir opts) = Some [(None, ''data'')]"
| "fieldnames_for_operator L_Single = Some []"
| "fieldnames_for_operator (L_TableInsert t s) = Some []"
| "fieldnames_for_operator (L_Join l r c t) =
     Option.bind (fieldnames_for_operator l) (\<lambda>ls. map_option (\<lambda>rs. ls @ rs) (fieldnames_for_operator r))"
| "fieldnames_for_operator (L_TableReference db t) = None"

fun source_fields_for_operator :: "'d logical_operator \<Rightarrow> field list option" where
  "source_fields_for_operator (L_Project d es s) = fields_for_operator s"
| "source_fields_for_operator (L_GroupBy es ks s) = fields_for_operator s"
| "source_fields_for_operator (L_Filter p s) = fields_for_operator s"
| "source_fields_for_operator (L_Limit k l s) = fields_for_operator s"
| "source_fields_for_operator (L_Sort es s) = fields_for_operator s"
| "source_fields_for_operator (L_TableAlias n s) = fields_for_operator s"
| "source_fields_for_operator (L_UnionAll ss) = (case ss of [] \<Rightarrow> None | s # _ \<Rightarrow> fields_for_operator s)"
| "source_fields_for_operator (L_TableInsert t s) = fields_for_operator s"
| "source_fields_for_operator (L_NegateFreq s) = fields_for_operator s"
| "source_fields_for_operator (L_Join l r c t) = fields_for_operator (L_Join l r c t)"
| "source_fields_for_operator (L_Values fs rows) = Some []"
| "source_fields_for_operator L_Single = Some []"
| "source_fields_for_operator (L_TableReference db t) = Some []"
| "source_fields_for_operator (L_FileScan dir opts) = Some []"
| "source_fields_for_operator (L_ResolvedTable cs t) = Some []"

definition create_wrapping_project :: "'d logical_operator \<Rightarrow> 'd named_expression list option" where
  "create_wrapping_project op = map_option (\<lambda>fs. map (\<lambda>(idx, field).
     \<lparr>ne_alias = Some (fd_alias field), ne_expression = CompiledColumnReference idx (fd_data_type field)\<rparr>) (List.enumerate 0 fs))
     (fields_for_operator op)"

section \<open>Every operator of a query\<close>

fun everywhere :: "('d logical_operator \<Rightarrow> bool) \<Rightarrow> 'd logical_operator \<Rightarrow> bool" where
  "everywhere P (L_Project d es s) = (P (L_Project d es s) \<and> everywhere P s)"
| "everywhere P (L_GroupBy es ks s) = (P (L_GroupBy es ks s) \<and> everywhere P s)"
| "everywhere P (L_Filter p s) = (P (L_Filter p s) \<and> everywhere P s)"
| "everywhere P (L_Limit k l s) = (P (L_Limit k l s) \<and> everywhere P s)"
| "everywhere P (L_Sort es s) = (P (L_Sort es s) \<and> everywhere P s)"
| "everywhere P (L_TableAlias n s) = (P (L_TableAlias n s) \<and> everywhere P s)"
| "everywhere P (L_TableInsert t s) = (P (L_TableInsert t s) \<and> everywhere P t \<and> everywhere P s)"
| "everywhere P (L_UnionAll ss) = (P (L_UnionAll ss) \<and> list_all (everywhere P) ss)"
| "everywhere P (L_NegateFreq s) = (P (L_NegateFreq s) \<and> everywhere P s)"
| "everywhere P (L_Join l r c t) = (P (L_Join l r c t) \<and> everywhere P l \<and> everywhere P r)"
| "everywhere P op = P op"

lemma everywhere_iff: "everywhere P op \<longleftrightarrow> P op \<and> list_all (everywhere P) (children_mut op)"
  by (cases op) auto

lemma everywhere_here: "everywhere P op \<Longrightarrow> P op"
  by (simp add: everywhere_iff)

lemma everywhere_conj: "everywhere (\<lambda>op. P op \<and> Q op) op \<longleftrightarrow> everywhere P op \<and> everywhere Q op"
  by (induction op) (auto simp: list_all_iff)

lemma everywhere_mono: "everywhere P op \<Longrightarrow> (\<And>op. P op \<Longrightarrow> Q op) \<Longrightarrow> everywhere Q op"
  by (induction op) (auto simp: list_all_iff)

text \<open>The operator with its children replaced.\<close>

fun with_children :: "'d logical_operator \<Rightarrow> 'd logical_operator list \<Rightarrow> 'd logical_operator" where
  "with_children (L_Project d es s) cs = L_Project d es (cs ! 0)"
| "with_children (L_GroupBy es ks s) cs = L_GroupBy es ks (cs ! 0)"
| "with_children (L_Filter p s) cs = L_Filter p (cs ! 0)"
| "with_children (L_Limit k l s) cs = L_Limit k l (cs ! 0)"
| "with_children (L_Sort es s) cs = L_Sort es (cs ! 0)"
| "with_children (L_TableAlias n s) cs = L_TableAlias n (cs ! 0)"
| "with_children (L_TableInsert t s) cs = L_TableInsert (cs ! 0) (cs ! 1)"
| "with_children (L_UnionAll ss) cs = L_UnionAll cs"
| "with_children (L_NegateFreq s) cs = L_NegateFreq (cs ! 0)"
| "with_children (L_Join l r c t) cs = L_Join (cs ! 0) (cs ! 1) c t"
| "with_children op cs = op"

lemma children_with_children [simp]: "length cs = length (children_mut op) \<Longrightarrow> children_mut (with_children op cs) = cs"
  by (cases op) (auto simp: length_Suc_conv numeral_2_eq_2)

lemma expressions_with_children [simp]: "expressions_mut (with_children op cs) = expressions_mut op"
  by (cases op) auto

lemma walk_eq: "walk f op = and_then (traverse (walk f) (children_mut op)) (\<lambda>cs. f (with_children op cs))"
  by (cases op) (auto simp: and_then_def split: option.splits sum.splits)

lemma traverse_eq: "traverse f xs = Some (Inr ys) \<Longrightarrow> length ys = length xs"
  by (auto simp: traverse_eq_Inr dest: list_all2_lengthD)

text \<open>Induction over the visit.\<close>

lemma walk_induct [consumes 1, case_names visit]:
  assumes "walk f op = Some (Inr op')"
    and "\<And>op cs op'. list_all2 Q (children_mut op) cs \<Longrightarrow> f (with_children op cs) = Some (Inr op') \<Longrightarrow> Q op op'"
  shows "Q op op'"
  using assms(1)
proof (induction "size op" arbitrary: op op' rule: less_induct)
  case less
  have smaller: "c \<in> set (children_mut op) \<Longrightarrow> size c < size op" for c
    by (cases op) (auto simp: less_Suc_eq_le dest: size_list_estimation' [OF _ order_refl])
  obtain cs where cs: "list_all2 (\<lambda>c c'. walk f c = Some (Inr c')) (children_mut op) cs" "f (with_children op cs) = Some (Inr op')"
    using less.prems by (subst (asm) walk_eq) (auto simp: and_then_eq_Inr traverse_eq_Inr)
  have "list_all2 Q (children_mut op) cs" using cs(1) by (rule list.rel_mono_strong) (use less.hyps smaller in blast)
  then show ?case using assms(2) cs(2) by blast
qed

lemma walk_everywhere:
  assumes "walk f op = Some (Inr op')" "everywhere P op"
    and "\<And>op cs op'. P op \<Longrightarrow> list_all (everywhere P) (children_mut op) \<Longrightarrow> list_all (everywhere Q) cs \<Longrightarrow>
      length cs = length (children_mut op) \<Longrightarrow> f (with_children op cs) = Some (Inr op') \<Longrightarrow> everywhere Q op'"
  shows "everywhere Q op'"
proof -
  from assms(1) have "everywhere P op \<longrightarrow> everywhere Q op'"
  proof (induction rule: walk_induct)
    case (visit op cs op')
    show ?case
    proof
      assume P: "everywhere P op"
      then have "list_all (everywhere P) (children_mut op)" "P op" by (simp_all add: everywhere_iff)
      moreover have "list_all (everywhere Q) cs" using visit(1) \<open>list_all (everywhere P) (children_mut op)\<close>
        by (auto simp: list_all2_conv_all_nth list_all_length)
      ultimately show "everywhere Q op'" using assms(3) visit by (metis list_all2_lengthD)
    qed
  qed
  then show ?thesis using assms(2) by blast
qed

lemma with_same_children [simp]: "with_children op (children_mut op) = op"
  by (cases op) auto

lemma walk_check_eq:
  assumes "walk_check check op = Some (Inr op')"
  shows "op' = op \<and> everywhere (\<lambda>op. check op = Some (Inr ())) op"
  using assms unfolding walk_check_def
proof (induction rule: walk_induct)
  case (visit op cs op')
  have cs: "cs = children_mut op" "list_all (everywhere (\<lambda>op. check op = Some (Inr ()))) cs"
    using visit(1) by (auto simp: list_all2_conv_all_nth list_eq_iff_nth_eq list_all_length)
  then have "check op = Some (Inr ())" "op' = op" using visit(2) by (auto simp: and_then_eq_Inr)
  then show ?case using cs by (simp add: everywhere_iff [of _ op])
qed

text \<open>What a visit of the expressions does.\<close>

lemma traverse_expressions_Inr:
  assumes "traverse_expressions f op = Some (Inr op')"
  shows "list_all2 (\<lambda>e e'. f e = Some (Inr e')) (expressions_mut op) (expressions_mut op')" "children_mut op' = children_mut op"
proof -
  have named: "list_all2 (\<lambda>e e'. f e = Some (Inr e')) (map ne_expression es) (map ne_expression es')"
    if "list_all2 (\<lambda>ne ne'. traverse_named f ne = Some (Inr ne')) es es'" for es es'
    using that by (auto simp: list_all2_map1 list_all2_map2 traverse_named_def and_then_eq_Inr elim!: list_all2_mono)
  have sort: "list_all2 (\<lambda>e e'. f e = Some (Inr e')) (map se_expression es) (map se_expression es')"
    if "list_all2 (\<lambda>ne ne'. traverse_sort f ne = Some (Inr ne')) es es'" for es es'
    using that by (auto simp: list_all2_map1 list_all2_map2 traverse_sort_def and_then_eq_Inr elim!: list_all2_mono)
  have rows: "list_all2 (\<lambda>e e'. f e = Some (Inr e')) (concat rows) (concat rows')"
    if "list_all2 (\<lambda>row row'. traverse f row = Some (Inr row')) rows rows'" for rows rows'
    using that by (induction rule: list_all2_induct) (auto simp: traverse_eq_Inr intro: list_all2_appendI)
  show "list_all2 (\<lambda>e e'. f e = Some (Inr e')) (expressions_mut op) (expressions_mut op')" "children_mut op' = children_mut op"
    using assms by (cases op; auto simp: and_then_eq_Inr traverse_eq_Inr intro: named sort rows list_all2_appendI)+
qed

text \<open>Fields and their names.\<close>

lemma those_names: "those (map field_of_named es) = Some fs \<Longrightarrow>
    those (map (\<lambda>ne. map_option (Pair None) (ne_alias ne)) es) = Some (map (\<lambda>f. (fd_qualifier f, fd_alias f)) fs)"
  unfolding those_list_all2 by (auto simp: list_all2_map2 bind_eq_Some_conv elim!: list_all2_mono)

lemma fieldnames_of_fields:
  "fields_for_operator op = Some fs \<Longrightarrow> fieldnames_for_operator op = Some (map (\<lambda>f. (fd_qualifier f, fd_alias f)) fs)"
proof (induction op arbitrary: fs)
  case (L_UnionAll ss)
  then show ?case by (cases ss) auto
next
  case (L_TableAlias n s)
  then show ?case by fastforce
qed (auto simp: bind_eq_Some_conv case_prod_beta intro: those_names simp del: field_of_named.simps)

end
