(* ===== verification/Validation.thy ===== *)
theory Validation
  imports Logical
begin

text \<open>
  The first phase of the planner (\<open>planner/src/p1_validation\<close>): special variables, column aliases, table
  and view resolution, stars, the types of inserted values, compilation of the expressions, the
  rewriting of aggregations and the checks on aggregates, predicates, inserts and unions.  The
  catalog's lookup and the parser of the view definitions are parameters.  The lemmas show that
  a validated query is well typed throughout and that resolving leaves the session as it was.
\<close>

section \<open>The passes before table resolution\<close>

fun sub_special_var :: "'d expression \<Rightarrow> 'd expression" where
  "sub_special_var (ColumnReference c) =
     (if take 2 (cr_alias c) = ''@@'' then
        (if cr_alias c = ''@@max_allowed_packet'' then Constant (D_Integer 0xffffff) T_Integer
         else if cr_alias c = ''@@socket'' then Constant (D_ByteARef []) T_Text
         else ColumnReference c)
      else ColumnReference c)"
| "sub_special_var e = e"

definition sub_in_special_vars :: "'d logical_operator \<Rightarrow> ('e, 'd logical_operator) outcome" where
  "sub_in_special_vars = walk (traverse_expressions (\<lambda>e. Some (Inr (sub_special_var e))))"

definition bytes_str :: "bytes \<Rightarrow> string" where
  "bytes_str bs = map (\<lambda>b. char_of (unat b)) bs"

definition alias_named :: "nat \<Rightarrow> 'd named_expression \<Rightarrow> 'd named_expression" where
  "alias_named idx ne =
     (if ne_alias ne = None then
        ne\<lparr>ne_alias := (case ne_expression ne of
            ColumnReference c \<Rightarrow> Some (cr_alias c)
          | _ \<Rightarrow> Some (''_col'' @ bytes_str (nat_digits (idx + 1))))\<rparr>
      else ne)"

fun alias_columns :: "'d logical_operator \<Rightarrow> 'd logical_operator" where
  "alias_columns (L_Project d es s) = L_Project d (map (\<lambda>(idx, ne). alias_named idx ne) (List.enumerate 0 es)) s"
| "alias_columns (L_GroupBy es ks s) = L_GroupBy (map (\<lambda>(idx, ne). alias_named idx ne) (List.enumerate 0 es)) ks s"
| "alias_columns op = op"

definition normalize_column_aliases :: "'d logical_operator \<Rightarrow> ('e, 'd logical_operator) outcome" where
  "normalize_column_aliases = walk (\<lambda>op. Some (Inr (alias_columns op)))"

section \<open>Tables and views\<close>

record view =
  v_sql :: string
  v_db_context :: string

datatype table_or_view = TV_Table table | TV_View view

record catalog_item =
  ci_columns :: "(string \<times> data_type) list"
  ci_item :: table_or_view

text \<open>The lookup \<open>Catalog::item\<close>, the parser, and the result of a pass that may change the session.\<close>

type_synonym catalog_lookup = "string \<Rightarrow> string \<Rightarrow> (catalog_error, catalog_item) outcome"
type_synonym 'd parser = "string \<Rightarrow> 'd statement option"
type_synonym ('d, 'a) session_outcome = "(session \<times> ('d planner_error + 'a)) option"

lemma children_size: "size_list (\<lambda>op. 3 * size op) (children_mut op) < 3 * size op"
proof -
  have "size_list (\<lambda>op. 3 * size op) ops < 3 + 3 * size_list size ops" for ops :: "'a logical_operator list"
    by (induction ops) auto
  then show ?thesis by (cases op) auto
qed

text \<open>A view is resolved with its own database as the current one: only its children are visited, and
  the database is put back afterwards, but not on an error.  The first argument bounds the depth of
  views within views.\<close>

function resolve_tables ::
  "nat \<Rightarrow> catalog_lookup \<Rightarrow> 'd parser \<Rightarrow> session \<Rightarrow> 'd logical_operator \<Rightarrow> ('d, 'd logical_operator) session_outcome"
and resolve_all ::
  "nat \<Rightarrow> catalog_lookup \<Rightarrow> 'd parser \<Rightarrow> session \<Rightarrow> 'd logical_operator list \<Rightarrow> ('d, 'd logical_operator list) session_outcome" where
  "resolve_tables n item parse session op =
     (case resolve_all n item parse session (children_mut op) of
        None \<Rightarrow> None
      | Some (session, Inl e) \<Rightarrow> Some (session, Inl e)
      | Some (session, Inr cs) \<Rightarrow>
        (case with_children op cs of
           L_TableReference database table_name \<Rightarrow>
             (case item (case database of Some db \<Rightarrow> db | None \<Rightarrow> current_database session) table_name of
                None \<Rightarrow> None
              | Some (Inl e) \<Rightarrow> Some (session, Inl (CatalogError e))
              | Some (Inr ci) \<Rightarrow>
                (case ci_item ci of
                   TV_Table table \<Rightarrow> Some (session, Inr (L_ResolvedTable (ci_columns ci) table))
                 | TV_View view \<Rightarrow>
                   (case parse (v_sql view) of
                      Some (S_Query q) \<Rightarrow>
                        (case n of
                           0 \<Rightarrow> None
                         | Suc m \<Rightarrow>
                           (case and_then (sub_in_special_vars q) normalize_column_aliases of
                              None \<Rightarrow> None
                            | Some (Inl e) \<Rightarrow> Some (session, Inl e)
                            | Some (Inr q) \<Rightarrow>
                              (case resolve_all m item parse (session\<lparr>current_database := v_db_context view\<rparr>) (children_mut q) of
                                 None \<Rightarrow> None
                               | Some (session', Inl e) \<Rightarrow> Some (session', Inl e)
                               | Some (session', Inr cs) \<Rightarrow>
                                   Some (session'\<lparr>current_database := current_database session\<rparr>, Inr (with_children q cs)))))
                    | _ \<Rightarrow> None)))
         | op \<Rightarrow> Some (session, Inr op)))"
| "resolve_all n item parse session [] = Some (session, Inr [])"
| "resolve_all n item parse session (op # ops) =
     (case resolve_tables n item parse session op of
        None \<Rightarrow> None
      | Some (session, Inl e) \<Rightarrow> Some (session, Inl e)
      | Some (session, Inr op) \<Rightarrow>
        (case resolve_all n item parse session ops of
           None \<Rightarrow> None
         | Some (session, Inl e) \<Rightarrow> Some (session, Inl e)
         | Some (session, Inr ops) \<Rightarrow> Some (session, Inr (op # ops))))"
  by pat_completeness auto

termination
  by (relation "measures [case_sum (\<lambda>(n, _). n) (\<lambda>(n, _). n),
    case_sum (\<lambda>(_, _, _, _, op). 3 * size op) (\<lambda>(_, _, _, _, ops). size_list (\<lambda>op. 3 * size op) ops)]") (auto intro: children_size)

declare resolve_tables.simps [simp del]


section \<open>Stars, values and calls\<close>

definition fields_to_ne :: "string option \<times> string \<Rightarrow> 'd named_expression" where
  "fields_to_ne field = \<lparr>ne_alias = Some (snd field),
     ne_expression = ColumnReference \<lparr>cr_qualifier = fst field, cr_alias = snd field, cr_star = False\<rparr>\<rparr>"

text \<open>The loop over the expressions of a select, with its source.\<close>

fun expand_expressions :: "'d logical_operator \<Rightarrow> 'd named_expression list \<Rightarrow> 'd named_expression list option" where
  "expand_expressions source [] = Some []"
| "expand_expressions source (ne # nes) =
     Option.bind
       (case ne_expression ne of
          ColumnReference c \<Rightarrow>
            (if cr_star c then
               Option.bind (fieldnames_for_operator source) (\<lambda>names.
                 if cr_qualifier c \<noteq> None
                 then Some (map fields_to_ne (filter (\<lambda>(field_qualifier, _). field_qualifier = cr_qualifier c) names))
                 else Some (map fields_to_ne names))
             else Some [ne])
        | _ \<Rightarrow> Some [ne])
       (\<lambda>es. map_option (\<lambda>rest. es @ rest) (expand_expressions source nes))"

fun expand_stars_here :: "'d logical_operator \<Rightarrow> ('e, 'd logical_operator) outcome" where
  "expand_stars_here (L_Project d es s) = map_option (\<lambda>es. Inr (L_Project d es s)) (expand_expressions s es)"
| "expand_stars_here (L_GroupBy es ks s) = map_option (\<lambda>es. Inr (L_GroupBy es ks s)) (expand_expressions s es)"
| "expand_stars_here op = Some (Inr op)"

definition expand_stars :: "'d logical_operator \<Rightarrow> ('e, 'd logical_operator) outcome" where
  "expand_stars = walk expand_stars_here"

text \<open>A row matches the columns it is zipped with.\<close>

fun check_rows :: "data_type list \<Rightarrow> 'd expression list list \<Rightarrow> ('d planner_error, unit) outcome" where
  "check_rows table_types [] = Some (Inr ())"
| "check_rows table_types (row # rows) =
     Option.bind (those (map type_for_expression row)) (\<lambda>row_types.
       if list_all (\<lambda>(row, table). row = table \<or> row = T_Null) (zip row_types table_types)
       then check_rows table_types rows
       else Some (Inl (InsertMismatch table_types row_types)))"

fun validate_values_here :: "'d logical_operator \<Rightarrow> ('d planner_error, 'd logical_operator) outcome" where
  "validate_values_here (L_TableInsert (L_ResolvedTable columns table) (L_Values fs rows)) =
     and_then (check_rows (map snd columns) rows)
       (\<lambda>_. Some (Inr (L_TableInsert (L_ResolvedTable columns table) (L_Values (map (\<lambda>(alias, dt). (dt, alias)) columns) rows))))"
| "validate_values_here op = Some (Inr op)"

definition validate_values_types :: "'d logical_operator \<Rightarrow> ('d planner_error, 'd logical_operator) outcome" where
  "validate_values_types = walk validate_values_here"

definition compile_functions_here :: "nat \<Rightarrow> 'd registry \<Rightarrow> 'd logical_operator \<Rightarrow> ('d planner_error, 'd logical_operator) outcome" where
  "compile_functions_here n registry op =
     Option.bind (source_fields_for_operator op) (\<lambda>source_fields. traverse_expressions (compile_expr n registry source_fields) op)"

definition compile_functions :: "nat \<Rightarrow> 'd registry \<Rightarrow> 'd logical_operator \<Rightarrow> ('d planner_error, 'd logical_operator) outcome" where
  "compile_functions n registry = walk (compile_functions_here n registry)"

fun project_to_groupby_here :: "'d logical_operator \<Rightarrow> 'd logical_operator" where
  "project_to_groupby_here (L_Project d es s) =
     (if list_ex (\<lambda>ne. contains_aggregate (ne_expression ne)) es then L_GroupBy es [] s else L_Project d es s)"
| "project_to_groupby_here op = op"

definition project_to_groupby :: "'d logical_operator \<Rightarrow> ('e, 'd logical_operator) outcome" where
  "project_to_groupby = walk (\<lambda>op. Some (Inr (project_to_groupby_here op)))"

section \<open>Checks\<close>

fun throw_on_aggregate :: "string \<Rightarrow> 'd expression \<Rightarrow> ('d planner_error, unit) outcome" where
  "throw_on_aggregate location (CompiledAggregate f args sig) = Some (Inl (AggregateNotAllowed (sig_name sig) location))"
| "throw_on_aggregate location (FunctionCall n args) = and_then (traverse (throw_on_aggregate location) args) (\<lambda>_. Some (Inr ()))"
| "throw_on_aggregate location (CompiledFunctionCall f args sig) =
     and_then (traverse (throw_on_aggregate location) args) (\<lambda>_. Some (Inr ()))"
| "throw_on_aggregate location (Cast e dt) = throw_on_aggregate location e"
| "throw_on_aggregate location e = Some (Inr ())"

fun check_aggregates_here :: "'d logical_operator \<Rightarrow> ('d planner_error, unit) outcome" where
  "check_aggregates_here (L_GroupBy es ks s) =
     and_then (traverse (throw_on_aggregate ''group by clause'') ks) (\<lambda>_. Some (Inr ()))"
| "check_aggregates_here (L_Filter p s) = throw_on_aggregate ''where clause'' p"
| "check_aggregates_here (L_Sort es s) =
     and_then (traverse (\<lambda>se. throw_on_aggregate ''order by clause'' (se_expression se)) es) (\<lambda>_. Some (Inr ()))"
| "check_aggregates_here op = Some (Inr ())"

definition check_for_aggregates :: "'d logical_operator \<Rightarrow> ('d planner_error, 'd logical_operator) outcome" where
  "check_for_aggregates = walk_check check_aggregates_here"

fun check_predicates_here :: "'d logical_operator \<Rightarrow> ('d planner_error, unit) outcome" where
  "check_predicates_here (L_Filter p s) =
     Option.bind (type_for_expression p) (\<lambda>data_type.
       if data_type = T_Boolean \<or> data_type = T_Null then Some (Inr ()) else Some (Inl (PredicateNotBoolean data_type p)))"
| "check_predicates_here op = Some (Inr ())"

definition check_predicates :: "'d logical_operator \<Rightarrow> ('d planner_error, 'd logical_operator) outcome" where
  "check_predicates = walk_check check_predicates_here"

definition field_types :: "'d logical_operator \<Rightarrow> data_type list option" where
  "field_types op = map_option (map fd_data_type) (fields_for_operator op)"

fun check_inserts_here :: "'d logical_operator \<Rightarrow> ('d planner_error, unit) outcome" where
  "check_inserts_here (L_TableInsert t s) =
     Option.bind (field_types t) (\<lambda>table_fields. Option.bind (field_types s) (\<lambda>source_fields.
       if table_fields \<noteq> source_fields then Some (Inl (InsertMismatch table_fields source_fields)) else Some (Inr ())))"
| "check_inserts_here op = Some (Inr ())"

definition check_inserts :: "'d logical_operator \<Rightarrow> ('d planner_error, 'd logical_operator) outcome" where
  "check_inserts = walk_check check_inserts_here"

fun check_union_rest :: "data_type list \<Rightarrow> nat \<Rightarrow> 'd logical_operator list \<Rightarrow> ('d planner_error, unit) outcome" where
  "check_union_rest first_fields operator_idx [] = Some (Inr ())"
| "check_union_rest first_fields operator_idx (op # ops) =
     Option.bind (field_types op) (\<lambda>source_fields.
       if first_fields \<noteq> source_fields then Some (Inl (UnionAllMismatch first_fields source_fields operator_idx))
       else check_union_rest first_fields (operator_idx + 1) ops)"

fun check_unions_here :: "'d logical_operator \<Rightarrow> ('d planner_error, unit) outcome" where
  "check_unions_here (L_UnionAll ss) =
     (case ss of [] \<Rightarrow> None | first # rest \<Rightarrow> Option.bind (field_types first) (\<lambda>first_fields. check_union_rest first_fields 1 rest))"
| "check_unions_here op = Some (Inr ())"

definition check_unions :: "'d logical_operator \<Rightarrow> ('d planner_error, 'd logical_operator) outcome" where
  "check_unions = walk_check check_unions_here"

section \<open>Validation\<close>

text \<open>The passes after table resolution, and all of them.\<close>

definition validate_resolved :: "nat \<Rightarrow> 'd registry \<Rightarrow> 'd logical_operator \<Rightarrow> ('d planner_error, 'd logical_operator) outcome" where
  "validate_resolved n registry query =
     and_then (expand_stars query) (\<lambda>query.
     and_then (validate_values_types query) (\<lambda>query.
     and_then (compile_functions n registry query) (\<lambda>query.
     and_then (project_to_groupby query) (\<lambda>query.
     and_then (check_for_aggregates query) (\<lambda>query.
     and_then (check_predicates query) (\<lambda>query.
     and_then (check_inserts query) check_unions))))))"

definition validate ::
  "nat \<Rightarrow> nat \<Rightarrow> 'd registry \<Rightarrow> catalog_lookup \<Rightarrow> 'd parser \<Rightarrow> session \<Rightarrow> 'd logical_operator \<Rightarrow>
     ('d, 'd logical_operator) session_outcome" where
  "validate depth n registry item parse session query =
     (case and_then (sub_in_special_vars query) normalize_column_aliases of
        None \<Rightarrow> None
      | Some (Inl e) \<Rightarrow> Some (session, Inl e)
      | Some (Inr query) \<Rightarrow>
        (case resolve_tables depth item parse session query of
           None \<Rightarrow> None
         | Some (session, Inl e) \<Rightarrow> Some (session, Inl e)
         | Some (session, Inr query) \<Rightarrow> map_option (Pair session) (validate_resolved n registry query)))"


section \<open>Validated queries\<close>

text \<open>Expressions as the parser makes them: nothing is compiled and constants have the types they state.\<close>

fun raw :: "'d expression \<Rightarrow> bool" where
  "raw (Constant d dt) = has_type dt d"
| "raw (FunctionCall n args) = list_all raw args"
| "raw (Cast e dt) = raw e"
| "raw (ColumnReference c) = True"
| "raw _ = False"

lemma raw_typed: "raw e \<Longrightarrow> typed_in ts e"
  by (induction e) (auto simp: list_all_iff)

definition parsed :: "'d logical_operator \<Rightarrow> bool" where
  "parsed op \<longleftrightarrow> list_all raw (expressions_mut op)"

text \<open>Compiled expressions, typed over the fields of the source.\<close>

definition typed_op :: "'d logical_operator \<Rightarrow> bool" where
  "typed_op op \<longleftrightarrow> (\<exists>fs. source_fields_for_operator op = Some fs \<and>
     list_all (\<lambda>e. typed_in (map fd_data_type fs) e \<and> compiled e) (expressions_mut op))"

text \<open>What the checks ask for: tables are resolved, predicates are boolean, aggregates stand in the outputs of
  a group by only (or in the condition of a join), the parts of a union and the two sides of an insert have
  the same types.\<close>

fun checked :: "'d logical_operator \<Rightarrow> bool" where
  "checked (L_Project d es s) = list_all (\<lambda>ne. \<not> contains_aggregate (ne_expression ne)) es"
| "checked (L_GroupBy es ks s) = list_all (\<lambda>e. \<not> contains_aggregate e) ks"
| "checked (L_Filter p s) = (\<not> contains_aggregate p \<and> (type_for_expression p = Some T_Boolean \<or> type_for_expression p = Some T_Null))"
| "checked (L_Sort es s) = list_all (\<lambda>se. \<not> contains_aggregate (se_expression se)) es"
| "checked (L_UnionAll ss) = (\<exists>ts. ss \<noteq> [] \<and> list_all (\<lambda>s. field_types s = Some ts) ss)"
| "checked (L_TableInsert t s) = (\<exists>ts. field_types t = Some ts \<and> field_types s = Some ts)"
| "checked _ = True"

lemma parsed_with_children [simp]: "parsed (with_children op cs) = parsed op"
  by (simp add: parsed_def)

lemma walk_parsed:
  assumes "walk f op = Some (Inr op')" "everywhere parsed op"
    and "\<And>op op'. f op = Some (Inr op') \<Longrightarrow> parsed op \<Longrightarrow> list_all (everywhere parsed) (children_mut op) \<Longrightarrow> everywhere parsed op'"
  shows "everywhere parsed op'"
  using assms(1,2) by (rule walk_everywhere) (use assms(3) in \<open>auto simp: parsed_def\<close>)

lemma special_vars_parsed:
  fixes op :: "'d logical_operator"
  assumes "sub_in_special_vars op = (Some (Inr op') :: ('e, 'd logical_operator) outcome)" "everywhere parsed op"
  shows "everywhere parsed op'"
  using assms unfolding sub_in_special_vars_def
proof (rule walk_parsed)
  fix op op' :: "'d logical_operator"
  assume t: "traverse_expressions (\<lambda>e. Some (Inr (sub_special_var e))) op = (Some (Inr op') :: ('e, 'd logical_operator) outcome)"
    and p: "parsed op" "list_all (everywhere parsed) (children_mut op)"
  have "raw (sub_special_var e)" if "raw e" for e :: "'d expression" using that by (cases e) auto
  note sub = this
  have "list_all raw es'" if "list_all2 (\<lambda>e e'. Some (Inr (sub_special_var e)) = (Some (Inr e') :: ('e, _) outcome)) es es'" "list_all raw es" for es es' :: "'d expression list"
    using that by (induction rule: list_all2_induct) (auto intro: sub)
  then have "parsed op'" using traverse_expressions_Inr(1) [OF t] p(1) by (simp add: parsed_def)
  then show "everywhere parsed op'" using traverse_expressions_Inr(2) [OF t] p(2) by (simp add: everywhere_iff [of _ op'])
qed

lemma column_aliases_parsed:
  fixes op :: "'d logical_operator"
  assumes "normalize_column_aliases op = (Some (Inr op') :: ('e, 'd logical_operator) outcome)" "everywhere parsed op"
  shows "everywhere parsed op'"
  using assms unfolding normalize_column_aliases_def
proof (rule walk_parsed)
  fix op op' :: "'d logical_operator"
  assume "Some (Inr (alias_columns op)) = (Some (Inr op') :: ('e, _) outcome)" "parsed op" "list_all (everywhere parsed) (children_mut op)"
  moreover have "map ne_expression (map (\<lambda>(idx, ne). alias_named idx ne) (List.enumerate n es)) = map ne_expression es" for n and es :: "'d named_expression list"
    by (induction es arbitrary: n) (auto simp: alias_named_def)
  ultimately show "everywhere parsed op'" by (cases op) (auto simp: parsed_def simp del: list.map_comp list.pred_map)
qed

lemma expand_raw:
  "expand_expressions s es = Some es' \<Longrightarrow> list_all (raw \<circ> ne_expression) es \<Longrightarrow> list_all (raw \<circ> ne_expression) es'"
proof (induction es arbitrary: es')
  case (Cons ne es)
  have star: "list_all (raw \<circ> ne_expression) (map fields_to_ne names)" for names
    by (auto simp: fields_to_ne_def list_all_iff)
  obtain here rest where "expand_expressions s es = Some rest" "es' = here @ rest" "list_all (raw \<circ> ne_expression) here"
    using Cons.prems star by (auto simp: bind_eq_Some_conv simp del: list.pred_map split: expression.split_asm if_split_asm)
  moreover have "list_all (raw \<circ> ne_expression) es" using Cons.prems(2) by (simp add: comp_def)
  ultimately show ?case using Cons.IH [of rest] by (simp only: list_all_append)
qed simp

lemma expand_stars_parsed:
  fixes op :: "'d logical_operator"
  assumes "expand_stars op = (Some (Inr op') :: ('e, 'd logical_operator) outcome)" "everywhere parsed op"
  shows "everywhere parsed op'"
  using assms unfolding expand_stars_def
proof (rule walk_parsed)
  fix op op' :: "'d logical_operator"
  assume "expand_stars_here op = (Some (Inr op') :: ('e, _) outcome)" "parsed op" "list_all (everywhere parsed) (children_mut op)"
  then show "everywhere parsed op'" by (cases op) (auto simp: parsed_def list.pred_map intro: expand_raw)
qed

lemma values_types_parsed:
  fixes op :: "'d logical_operator"
  assumes "validate_values_types op = Some (Inr op')" "everywhere parsed op"
  shows "everywhere parsed op'"
  using assms unfolding validate_values_types_def
proof (rule walk_parsed)
  fix op op' :: "'d logical_operator"
  assume "validate_values_here op = Some (Inr op')" "parsed op" "list_all (everywhere parsed) (children_mut op)"
  then show "everywhere parsed op'"
    by (cases op rule: validate_values_here.cases) (auto simp: parsed_def and_then_eq_Inr)
qed

text \<open>The outcomes of resolving an operator.\<close>

lemma resolve_tables_cases:
  fixes op :: "'d logical_operator"
  assumes "resolve_tables n item parse session op = Some (session', Inr op')"
  obtains (children) cs where "resolve_all n item parse session (children_mut op) = Some (session', Inr cs)" "op' = with_children op cs"
  | (table) db t columns tab where "op = L_TableReference db t" "op' = L_ResolvedTable columns tab" "session' = session"
  | (view) db t ci m q q' session2 cs and view :: view where "op = L_TableReference db t"
      "item (case db of None \<Rightarrow> current_database session | Some db \<Rightarrow> db) t = Some (Inr ci)" "ci_item ci = TV_View view" "n = Suc m" "parse (v_sql view) = Some (S_Query q)"
      "and_then (sub_in_special_vars q) normalize_column_aliases = Some (Inr q' :: 'd planner_error + 'd logical_operator)"
      "resolve_all m item parse (session\<lparr>current_database := v_db_context view\<rparr>) (children_mut q') = Some (session2, Inr cs)"
      "session' = session2\<lparr>current_database := current_database session\<rparr>" "op' = with_children q' cs"
proof (cases "\<exists>db t. op = L_TableReference db t")
  case True
  then obtain db t where op: "op = L_TableReference db t" by blast
  then obtain ci where ci: "item (case db of Some db \<Rightarrow> db | None \<Rightarrow> current_database session) t = Some (Inr ci)"
    using assms unfolding resolve_tables.simps [of _ _ _ _ op] by (auto split: option.split_asm sum.split_asm)
  show thesis
  proof (cases "ci_item ci")
    case (TV_Table tab)
    then show thesis using assms ci op unfolding resolve_tables.simps [of _ _ _ _ op] by (intro table) auto
  next
    case (TV_View view)
    obtain q m q' session2 cs where "parse (v_sql view) = Some (S_Query q)" "n = Suc m"
      "and_then (sub_in_special_vars q) normalize_column_aliases = Some (Inr q' :: 'd planner_error + 'd logical_operator)"
      "resolve_all m item parse (session\<lparr>current_database := v_db_context view\<rparr>) (children_mut q') = Some (session2, Inr cs)"
      using assms ci op TV_View unfolding resolve_tables.simps [of _ _ _ _ op]
      by (auto split: option.split_asm statement.split_asm nat.split_asm sum.split_asm prod.split_asm)
    then show thesis using assms ci op TV_View unfolding resolve_tables.simps [of _ _ _ _ op] by (intro view) auto
  qed
next
  case False
  obtain s cs where cs: "resolve_all n item parse session (children_mut op) = Some (s, Inr cs)"
    using assms unfolding resolve_tables.simps [of _ _ _ _ op] by (auto split: option.split_asm sum.split_asm prod.split_asm)
  have "with_children op cs \<noteq> L_TableReference db t" for db t using False by (cases op) auto
  then show thesis using assms cs unfolding resolve_tables.simps [of _ _ _ _ op]
    by (intro children [of cs]) (auto split: logical_operator.split_asm)
qed

text \<open>A successful resolution leaves the session as it was, and every expression as the parser made it.\<close>

lemma resolve_success:
  "resolve_tables n item parse session op = Some (session', Inr op') \<Longrightarrow> session' = session \<and>
     ((\<forall>sql q. parse sql = Some (S_Query q) \<longrightarrow> everywhere parsed q) \<longrightarrow> everywhere parsed op \<longrightarrow> everywhere parsed op')"
  "resolve_all n item parse session ops = Some (session', Inr ops') \<Longrightarrow> session' = session \<and> length ops' = length ops \<and>
     ((\<forall>sql q. parse sql = Some (S_Query q) \<longrightarrow> everywhere parsed q) \<longrightarrow> list_all (everywhere parsed) ops \<longrightarrow> list_all (everywhere parsed) ops')"
proof (induction n item parse session op and n item parse session ops arbitrary: session' op' and session' ops' rule: resolve_tables_resolve_all.induct)
  case (1 n item parse session op)
  from 1(3) show ?case
  proof (cases rule: resolve_tables_cases)
    case (children cs)
    note IH = 1(1) [OF children(1)]
    have "everywhere parsed op'" if "everywhere parsed op" "\<forall>sql q. parse sql = Some (S_Query q) \<longrightarrow> everywhere parsed q"
    proof -
      have "parsed op" "list_all (everywhere parsed) (children_mut op)" using that(1) by (simp_all add: everywhere_iff [of _ op])
      then show ?thesis using IH that(2) children(2) by (simp add: everywhere_iff [of _ "with_children op cs"])
    qed
    then show ?thesis using IH by blast
  next
    case (table db t columns tab)
    then show ?thesis by (simp add: parsed_def)
  next
    case (view db t ci m q q' session2 cs view)
    note IH = 1(2) [of "(session, Inr [])" session "Inr []" "[]" db t "Inr ci" ci view "S_Query q" q m "Inr q'" q' session2 cs]
    have IH: "session2 = session\<lparr>current_database := v_db_context view\<rparr> \<and> length cs = length (children_mut q') \<and>
      ((\<forall>sql q. parse sql = Some (S_Query q) \<longrightarrow> everywhere parsed q) \<longrightarrow> list_all (everywhere parsed) (children_mut q') \<longrightarrow> list_all (everywhere parsed) cs)"
      by (rule IH) (use view in simp_all)
    have "everywhere parsed op'" if parse: "\<forall>sql q. parse sql = Some (S_Query q) \<longrightarrow> everywhere parsed q"
    proof -
      have "everywhere parsed q'" using parse view(5,6) unfolding and_then_eq_Inr by (meson special_vars_parsed column_aliases_parsed)
      then have "parsed q'" "list_all (everywhere parsed) (children_mut q')" by (simp_all add: everywhere_iff [of _ q'])
      then show ?thesis using IH parse view(9) by (simp add: everywhere_iff [of _ "with_children q' cs"])
    qed
    then show ?thesis using IH view(8) by simp
  qed
next
  case (3 n item parse session op ops)
  from 3(3) obtain session1 op1 ops1 where "resolve_tables n item parse session op = Some (session1, Inr op1)"
    "resolve_all n item parse session1 ops = Some (session', Inr ops1)" "ops' = op1 # ops1"
    by (auto split: option.split_asm sum.split_asm prod.split_asm)
  with 3(1) [of session1 op1] 3(2) [of "(session1, Inr op1)" session1 "Inr op1" op1 session' ops1] show ?case by simp
qed auto


lemma traverse_source_fields:
  "traverse_expressions f op = Some (Inr op') \<Longrightarrow> source_fields_for_operator op' = source_fields_for_operator op"
  by (cases op) (auto simp: and_then_eq_Inr)

lemma compile_functions_typed:
  fixes op :: "'d logical_operator"
  assumes "compile_functions n (builtin_registry L) op = Some (Inr op')" "everywhere parsed op"
  shows "everywhere typed_op op'"
  using assms unfolding compile_functions_def
proof (rule walk_everywhere)
  fix op op' :: "'d logical_operator" and cs
  assume a: "parsed op" "list_all (everywhere typed_op) cs" "length cs = length (children_mut op)"
    "compile_functions_here n (builtin_registry L) (with_children op cs) = Some (Inr op')"
  obtain fs where fs: "source_fields_for_operator (with_children op cs) = Some fs"
    and t: "traverse_expressions (compile_expr n (builtin_registry L) fs) (with_children op cs) = Some (Inr op')"
    using a(4) by (auto simp: compile_functions_here_def bind_eq_Some_conv)
  have "list_all2 (\<lambda>e e'. compile_expr n (builtin_registry L) fs e = Some (Inr e')) (expressions_mut op) (expressions_mut op')"
    using traverse_expressions_Inr(1) [OF t] by simp
  then have "list_all (\<lambda>e. typed_in (map fd_data_type fs) e \<and> compiled e) (expressions_mut op')"
    using a(1) compile_typed(1) [of n L fs] raw_typed unfolding parsed_def list_all_length list_all2_conv_all_nth by metis
  then have "typed_op op'" using traverse_source_fields [OF t] fs by (auto simp: typed_op_def)
  then show "everywhere typed_op op'" using traverse_expressions_Inr(2) [OF t] a(2,3) by (simp add: everywhere_iff [of _ op'])
qed

lemma fields_with_children:
  assumes "list_all2 (\<lambda>c c'. fields_for_operator c' = fields_for_operator c) (children_mut op) cs"
  shows "fields_for_operator (with_children op cs) = fields_for_operator op"
    "source_fields_for_operator (with_children op cs) = source_fields_for_operator op"
  using assms by (cases op; auto simp: list_all2_Cons1 split: list.splits)+

fun aggregates_grouped :: "'d logical_operator \<Rightarrow> bool" where
  "aggregates_grouped (L_Project d es s) = list_all (\<lambda>ne. \<not> contains_aggregate (ne_expression ne)) es"
| "aggregates_grouped op = True"

lemma project_to_groupby_typed:
  fixes op :: "'d logical_operator"
  assumes "project_to_groupby op = Some (Inr op')" "everywhere typed_op op"
  shows "everywhere (\<lambda>op. typed_op op \<and> aggregates_grouped op) op'"
proof -
  have "fields_for_operator op' = fields_for_operator op \<and> (everywhere typed_op op \<longrightarrow> everywhere (\<lambda>op. typed_op op \<and> aggregates_grouped op) op')"
    using assms(1) unfolding project_to_groupby_def
  proof (induction rule: walk_induct)
    case (visit op cs op')
    let ?Q = "everywhere (\<lambda>op. typed_op op \<and> aggregates_grouped op)"
    have same: "list_all2 (\<lambda>c c'. fields_for_operator c' = fields_for_operator c) (children_mut op) cs"
      using visit(1) by (rule list_all2_mono) simp
    have op': "op' = project_to_groupby_here (with_children op cs)" using visit(2) by simp
    have here: "fields_for_operator (project_to_groupby_here r) = fields_for_operator r"
      "source_fields_for_operator (project_to_groupby_here r) = source_fields_for_operator r"
      "expressions_mut (project_to_groupby_here r) = expressions_mut r" "children_mut (project_to_groupby_here r) = children_mut r"
      "aggregates_grouped (project_to_groupby_here r)" for r :: "'d logical_operator"
      by (cases r; auto simp: list_all_iff list_ex_iff)+
    have "?Q op'" if "everywhere typed_op op"
    proof -
      have "typed_op op" "list_all (everywhere typed_op) (children_mut op)" using that by (simp_all add: everywhere_iff [of _ op])
      then have "list_all ?Q cs" using visit(1) by (auto simp: list_all_length list_all2_conv_all_nth)
      moreover have "typed_op op'" using \<open>typed_op op\<close> fields_with_children(2) [OF same] by (simp add: op' typed_op_def here)
      moreover have "length cs = length (children_mut op)" using visit(1) by (simp add: list_all2_lengthD)
      ultimately show ?thesis unfolding everywhere_iff [of _ op'] by (simp add: op' here)
    qed
    then show ?case using fields_with_children(1) [OF same] by (simp add: op' here)
  qed
  then show ?thesis using assms(2) by blast
qed

lemma traverse_unit:
  "and_then (traverse f xs) (\<lambda>_. Some (Inr ())) = Some (Inr ()) \<longleftrightarrow> (\<forall>x \<in> set xs. f x = Some (Inr ()))"
  by (induction xs) (auto simp: and_then_def split: option.splits sum.splits)

lemma throw_on_aggregate_iff: "throw_on_aggregate location e = Some (Inr ()) \<longleftrightarrow> \<not> contains_aggregate e"
  by (induction e) (auto simp: traverse_unit list_ex_iff)

lemma check_union_rest_eq:
  "check_union_rest ts idx ops = Some (Inr ()) \<longleftrightarrow> list_all (\<lambda>op. field_types op = Some ts) ops"
  by (induction ts idx ops rule: check_union_rest.induct) (auto simp: bind_eq_Some_conv)

lemma checks_checked:
  assumes "aggregates_grouped op" "check_aggregates_here op = Some (Inr ())" "check_predicates_here op = Some (Inr ())"
    "check_inserts_here op = Some (Inr ())" "check_unions_here op = Some (Inr ())"
  shows "checked op"
  using assms
  by (cases op) (auto simp: traverse_unit throw_on_aggregate_iff check_union_rest_eq list_all_iff bind_eq_Some_conv split: list.split_asm if_split_asm)

lemma validate_resolved_ok:
  assumes "validate_resolved n (builtin_registry L) q = Some (Inr q')" "everywhere parsed q"
  shows "everywhere (\<lambda>op. typed_op op \<and> checked op) q'"
proof -
  obtain q1 q2 q3 q4 q5 q6 q7 where q: "expand_stars q = (Some (Inr q1) :: ('a planner_error, _) outcome)" "validate_values_types q1 = Some (Inr q2)"
      "compile_functions n (builtin_registry L) q2 = Some (Inr q3)" "project_to_groupby q3 = (Some (Inr q4) :: ('a planner_error, _) outcome)"
    and c: "check_for_aggregates q4 = Some (Inr q5)" "check_predicates q5 = Some (Inr q6)" "check_inserts q6 = Some (Inr q7)" "check_unions q7 = Some (Inr q')"
    using assms(1) unfolding validate_resolved_def and_then_eq_Inr by blast
  have "everywhere (\<lambda>op. typed_op op \<and> aggregates_grouped op) q4"
    using q assms(2) expand_stars_parsed values_types_parsed compile_functions_typed project_to_groupby_typed by metis
  moreover have "q5 = q4 \<and> q6 = q4 \<and> q7 = q4 \<and> q' = q4 \<and> everywhere (\<lambda>op. check_aggregates_here op = Some (Inr ()) \<and>
      check_predicates_here op = Some (Inr ()) \<and> check_inserts_here op = Some (Inr ()) \<and> check_unions_here op = Some (Inr ())) q4"
    using c [unfolded check_for_aggregates_def check_predicates_def check_inserts_def check_unions_def, THEN walk_check_eq]
    by (simp add: everywhere_conj)
  ultimately have "everywhere (\<lambda>op. (typed_op op \<and> aggregates_grouped op) \<and> check_aggregates_here op = Some (Inr ()) \<and>
      check_predicates_here op = Some (Inr ()) \<and> check_inserts_here op = Some (Inr ()) \<and> check_unions_here op = Some (Inr ())) q'"
    by (simp add: everywhere_conj)
  then show ?thesis by (rule everywhere_mono) (use checks_checked in blast)
qed



definition example_query :: "ref_decimal logical_operator" where
  "example_query = L_Project False [\<lparr>ne_alias = None, ne_expression = Constant (D_Integer 1) T_Integer\<rparr>] (L_Filter true_expression L_Single)"

definition example_validated :: "ref_decimal logical_operator" where
  "example_validated = L_Project False [\<lparr>ne_alias = Some ''_col1'', ne_expression = Constant (D_Integer 1) T_Integer\<rparr>] (L_Filter true_expression L_Single)"

lemma example_validate:
  "validate 0 0 (builtin_registry example_lib) lk parse session example_query = Some (session, Inr example_validated)"
proof -
  have digit: "bytes_str (nat_digits (Suc 0)) = ''1''" by code_simp
  show ?thesis unfolding validate_def
  by (simp add: example_query_def example_validated_def sub_in_special_vars_def normalize_column_aliases_def resolve_tables.simps
    true_expression_def traverse_named_def alias_named_def validate_resolved_def expand_stars_def validate_values_types_def compile_functions_def
    compile_functions_here_def project_to_groupby_def check_for_aggregates_def check_predicates_def check_inserts_def check_unions_def walk_check_def
    digit)
qed


text \<open>A row of values of the wrong length is accepted: the types are compared with those of the columns the row
  is zipped with, and the fields of the values are then taken from the table.\<close>

lemma empty_row_accepted:
  "validate_resolved n registry (L_TableInsert (L_ResolvedTable columns table) (L_Values [] [[]])) =
     Some (Inr (L_TableInsert (L_ResolvedTable columns table) (L_Values (map (\<lambda>(alias, dt). (dt, alias)) columns) [[]])))"
  by (simp add: validate_resolved_def expand_stars_def validate_values_types_def compile_functions_def compile_functions_here_def project_to_groupby_def
    check_for_aggregates_def check_predicates_def check_inserts_def check_unions_def walk_check_def field_types_def case_prod_beta comp_def)

text \<open>An aggregate in the condition of a join is accepted.\<close>

lemma join_aggregate_accepted:
  "validate_resolved n registry (L_Join L_Single L_Single (CompiledAggregate f [] sig) join_type) =
     Some (Inr (L_Join L_Single L_Single (CompiledAggregate f [] sig) join_type))"
  by (simp add: validate_resolved_def expand_stars_def validate_values_types_def compile_functions_def compile_functions_here_def project_to_groupby_def
    check_for_aggregates_def check_predicates_def check_inserts_def check_unions_def walk_check_def)

text \<open>An error in a view leaves the database of the view as the current one.\<close>

lemma view_error_changes_database:
  assumes "item (current_database session) name = Some (Inr \<lparr>ci_columns = [], ci_item = TV_View v\<rparr>)"
    "parse (v_sql v) = Some (S_Query (L_Project False [] (L_TableReference None missing)))"
    "item (v_db_context v) missing = Some (Inl e)"
  shows "resolve_tables (Suc m) item parse session (L_TableReference None name) =
    Some (session\<lparr>current_database := v_db_context v\<rparr>, Inl (CatalogError e))"
  using assms by (simp add: resolve_tables.simps sub_in_special_vars_def normalize_column_aliases_def)

end
