(* ===== verification/Optimization.thy ===== *)
theory Optimization
  imports Validation
begin

text \<open>
  The rewriting phases of the planner (\<open>planner/src/p2_optimization\<close>, \<open>p3_common_transforms\<close>,
  \<open>p4_pit_planning\<close>): constant folding, predicate pushdown, the collapsing of projects, the
  normalization of joins and the choice of physical operators.
\<close>

section \<open>Constants and projects\<close>

definition fold_constants :: "session \<Rightarrow> 'd logical_operator \<Rightarrow> ('e, 'd logical_operator) outcome" where
  "fold_constants session = walk (traverse_expressions (\<lambda>e. map_option Inr (fold_constants_for_expr session e)))"

fun collapse_here :: "'d logical_operator \<Rightarrow> ('e, 'd logical_operator) outcome" where
  "collapse_here (L_Project d es (L_Project d' es2 s)) =
     map_option (\<lambda>es. Inr (L_Project d es s))
       (those (map (\<lambda>ne. map_option (\<lambda>e. ne\<lparr>ne_expression := e\<rparr>) (inline_expression (map ne_expression es2) (ne_expression ne))) es))"
| "collapse_here op = Some (Inr op)"

definition collapse_projects :: "'d logical_operator \<Rightarrow> ('e, 'd logical_operator) outcome" where
  "collapse_projects = walk collapse_here"

section \<open>Predicate pushdown\<close>

text \<open>Where the predicates of a join go: to the left, to the right, into the condition, above the join.\<close>

record 'd join_split =
  js_left :: "'d expression list"
  js_right :: "'d expression list"
  js_keep :: "'d expression list"
  js_wrap :: "'d expression list"

definition split_inner :: "nat \<Rightarrow> 'd expression list \<Rightarrow> 'd join_split" where
  "split_inner left_len predicates =
     fold (\<lambda>predicate s.
       case min_max_column_deps predicate of
         None \<Rightarrow> s\<lparr>js_left := js_left s @ [predicate], js_right := js_right s @ [predicate]\<rparr>
       | Some (first, last_col) \<Rightarrow>
           if last_col < left_len then s\<lparr>js_left := js_left s @ [predicate]\<rparr>
           else if left_len \<le> first then s\<lparr>js_right := js_right s @ [predicate]\<rparr>
           else s\<lparr>js_keep := js_keep s @ [predicate]\<rparr>)
       predicates \<lparr>js_left = [], js_right = [], js_keep = [], js_wrap = []\<rparr>"

definition split_outer :: "nat \<Rightarrow> 'd expression list \<Rightarrow> 'd expression list \<Rightarrow> 'd join_split" where
  "split_outer left_len predicates join_predicates =
     fold (\<lambda>condition s.
       case min_max_column_deps condition of
         None \<Rightarrow> s\<lparr>js_right := js_right s @ [condition]\<rparr>
       | Some (first, last_col) \<Rightarrow>
           if left_len \<le> first then s\<lparr>js_right := js_right s @ [condition]\<rparr>
           else s\<lparr>js_keep := js_keep s @ [condition]\<rparr>)
       join_predicates
     (fold (\<lambda>predicate s.
       case min_max_column_deps predicate of
         None \<Rightarrow> s\<lparr>js_left := js_left s @ [predicate], js_right := js_right s @ [predicate]\<rparr>
       | Some (first, last_col) \<Rightarrow>
           if last_col < left_len then s\<lparr>js_left := js_left s @ [predicate]\<rparr>
           else s\<lparr>js_wrap := js_wrap s @ [predicate]\<rparr>)
       predicates \<lparr>js_left = [], js_right = [], js_keep = [], js_wrap = []\<rparr>)"

lemma child_size: "s \<in> set (children_mut op) \<Longrightarrow> size s < size op"
  by (cases op) (auto simp: less_Suc_eq_le dest: size_list_estimation' [OF _ order_refl])

text \<open>\<open>pushdown_predicates_from_above\<close>: the arm of a filter forgets the predicates from above.\<close>

function pushdown :: "'d registry \<Rightarrow> 'd logical_operator \<Rightarrow> 'd expression list \<Rightarrow> 'd logical_operator option" where
  "pushdown registry op predicates =
     (case op of
        L_Filter predicate s \<Rightarrow> pushdown registry s (decompose_predicate predicate)
      | L_Sort es s \<Rightarrow> map_option (L_Sort es) (pushdown registry s predicates)
      | L_NegateFreq s \<Rightarrow> map_option L_NegateFreq (pushdown registry s predicates)
      | L_Project d es s \<Rightarrow>
          Option.bind (if predicates = [] then Some [] else those (map (inline_expression (map ne_expression es)) predicates))
            (\<lambda>predicates. map_option (L_Project d es) (pushdown registry s predicates))
      | L_UnionAll ss \<Rightarrow> map_option L_UnionAll (those (map (\<lambda>s. pushdown registry s predicates) ss))
      | L_Join l r c join_type \<Rightarrow>
          Option.bind (fieldnames_for_operator l) (\<lambda>names.
          let left_len = length names;
              parts = (if join_type = Inner then split_inner left_len (predicates @ decompose_predicate c)
                       else split_outer left_len predicates (decompose_predicate c)) in
          Option.bind (combine_predicates registry (js_keep parts)) (\<lambda>c.
          Option.bind (pushdown registry l (js_left parts)) (\<lambda>l.
          Option.bind (pushdown registry r (map (move_column_references (- int left_len)) (js_right parts))) (\<lambda>r.
            if js_wrap parts \<noteq> []
            then map_option (\<lambda>p. L_Filter p (L_Join l r c join_type)) (combine_predicates registry (js_wrap parts))
            else Some (L_Join l r c join_type)))))
      | _ \<Rightarrow>
          if predicates \<noteq> []
          then Option.bind (combine_predicates registry predicates) (\<lambda>p. map_option (L_Filter p) (pushdown registry op []))
          else map_option (with_children op) (those (map (\<lambda>s. pushdown registry s []) (children_mut op))))"
  by pat_completeness auto

termination
  by (relation "measures [\<lambda>(_, op, _). size op, \<lambda>(_, _, predicates). length predicates]")
     (auto simp: less_Suc_eq_le dest: size_list_estimation' [OF _ order_refl])

declare pushdown.simps [simp del]

definition predicate_pushdown :: "'d registry \<Rightarrow> 'd logical_operator \<Rightarrow> 'd logical_operator option" where
  "predicate_pushdown registry op = pushdown registry op []"

definition optimize :: "'d registry \<Rightarrow> session \<Rightarrow> 'd logical_operator \<Rightarrow> ('e, 'd logical_operator) outcome" where
  "optimize registry session query =
     and_then (fold_constants session query) (\<lambda>query.
     and_then (map_option Inr (predicate_pushdown registry query)) (\<lambda>query.
     and_then (fold_constants session query) collapse_projects))"


section \<open>Joins\<close>

text \<open>A conjunct of a join condition: an equality of a left and a right expression, in this order, or anything
  else.  The panic is the index of a missing argument.\<close>

fun classify_condition ::
  "nat \<Rightarrow> 'd expression \<Rightarrow> ('d scalar_function \<times> 'd expression list \<times> function_signature + 'd expression) option" where
  "classify_condition left_len (CompiledFunctionCall f args sig) =
     (if sig_name sig = ''='' then
        if length args < 2 then None
        else
          (case (min_max_column_deps (args ! 0), min_max_column_deps (args ! 1)) of
             (Some (left_min, left_max), Some (right_min, right_max)) \<Rightarrow>
               if left_max < left_len \<and> left_len \<le> right_min then Some (Inl (f, args, sig))
               else if left_len \<le> left_min \<and> right_max < left_len then Some (Inl (f, args[0 := args ! 1, 1 := args ! 0], sig))
               else Some (Inr (CompiledFunctionCall f args sig))
           | _ \<Rightarrow> Some (Inr (CompiledFunctionCall f args sig)))
      else Some (Inr (CompiledFunctionCall f args sig)))"
| "classify_condition left_len e = Some (Inr e)"

text \<open>The loop that moves the two sides of each equality to the front of the two projects.\<close>

definition key_alias :: "nat \<Rightarrow> string" where
  "key_alias idx = ''key_'' @ bytes_str (nat_digits idx)"

fun insert_keys ::
  "nat \<Rightarrow> nat \<Rightarrow> nat \<Rightarrow> ('d scalar_function \<times> 'd expression list \<times> function_signature) list \<Rightarrow>
     'd named_expression list \<Rightarrow> 'd named_expression list \<Rightarrow>
     ('d expression list \<times> 'd named_expression list \<times> 'd named_expression list) option" where
  "insert_keys left_len equi_len idx [] left_project right_project = Some ([], left_project, right_project)"
| "insert_keys left_len equi_len idx ((f, args, sig) # equi) left_project right_project =
     Option.bind (type_for_expression (args ! 0)) (\<lambda>left_type.
     Option.bind (type_for_expression (args ! 1)) (\<lambda>right_type.
     map_option
       (apfst (Cons (CompiledFunctionCall f (args[0 := CompiledColumnReference idx left_type,
          1 := CompiledColumnReference (idx + left_len + equi_len) right_type]) sig)))
       (insert_keys left_len equi_len (idx + 1) equi
          (\<lparr>ne_alias = Some (key_alias idx), ne_expression = args ! 0\<rparr> # left_project)
          (\<lparr>ne_alias = Some (key_alias idx), ne_expression = move_column_references (- int left_len) (args ! 1)\<rparr> # right_project))))"

text \<open>\<open>Vec::remove\<close> of the first keys, then of the keys before the right columns.\<close>

definition remove_keys :: "nat \<Rightarrow> nat \<Rightarrow> 'a list \<Rightarrow> 'a list option" where
  "remove_keys left_len equi_len es =
     (if equi_len = 0 \<or> equi_len + left_len + equi_len \<le> length es
      then Some (take left_len (drop equi_len es) @ drop (equi_len + left_len + equi_len) es) else None)"

fun normalize_join_here :: "'d registry \<Rightarrow> 'd logical_operator \<Rightarrow> ('e, 'd logical_operator) outcome" where
  "normalize_join_here registry (L_Join l r c join_type) =
     map_option Inr (
     Option.bind (map_option length (fieldnames_for_operator l)) (\<lambda>left_len.
     Option.bind (those (map (classify_condition left_len) (decompose_predicate c))) (\<lambda>conditions.
     let equi = List.map_filter (case_sum Some (\<lambda>_. None)) conditions;
         non_equi = List.map_filter (case_sum (\<lambda>_. None) Some) conditions;
         equi_len = length equi in
     Option.bind (create_wrapping_project l) (\<lambda>left_project.
     Option.bind (create_wrapping_project r) (\<lambda>right_project.
     Option.bind (insert_keys left_len equi_len 0 equi left_project right_project) (\<lambda>(equi, left_project, right_project).
     Option.bind (combine_predicates registry (equi @ non_equi)) (\<lambda>on.
     let join = L_Join (L_Project False left_project l) (L_Project False right_project r) on join_type in
     Option.bind (create_wrapping_project join) (\<lambda>wrapping_project.
     map_option (\<lambda>es. L_Project False es join) (remove_keys left_len equi_len wrapping_project))))))))) "
| "normalize_join_here registry op = Some (Inr op)"

definition normalize_joins :: "'d registry \<Rightarrow> 'd logical_operator \<Rightarrow> ('e, 'd logical_operator) outcome" where
  "normalize_joins registry = walk (normalize_join_here registry)"

definition common_transforms :: "'d registry \<Rightarrow> 'd logical_operator \<Rightarrow> ('e, 'd logical_operator) outcome" where
  "common_transforms registry query = and_then (normalize_joins registry query) collapse_projects"

section \<open>Physical plans\<close>

fun constant_datum :: "'d expression \<Rightarrow> 'd datum option" where
  "constant_datum (Constant d dt) = Some d"
| "constant_datum _ = None"

definition column_references :: "field list \<Rightarrow> 'd expression list" where
  "column_references fs = map (\<lambda>(idx, field). CompiledColumnReference idx (fd_data_type field)) (List.enumerate 0 fs)"

text \<open>The conjuncts counted as equalities of the join: any equality of two columns.\<close>

fun counts_as_equi :: "'d expression \<Rightarrow> bool option" where
  "counts_as_equi (CompiledFunctionCall f args sig) =
     (if sig_name sig = ''='' then
        (case args of
           CompiledColumnReference _ _ # CompiledColumnReference _ _ # _ \<Rightarrow> Some True
         | _ # _ # _ \<Rightarrow> Some False
         | _ \<Rightarrow> None)
      else Some False)"
| "counts_as_equi e = Some False"

text \<open>An insert below the root, which no statement can express, has no plan here.\<close>

fun build_operator :: "'d registry \<Rightarrow> 'd logical_operator \<Rightarrow> 'd point_in_time_operator option" where
  "build_operator registry L_Single = Some PIT_Single"
| "build_operator registry (L_Project d es s) =
     (if d then None else map_option (PIT_Project (map ne_expression es)) (build_operator registry s))"
| "build_operator registry (L_GroupBy es ks s) =
     (if ks = [] then map_option (\<lambda>s. PIT_SortedGroup s (map ne_expression es) 0) (build_operator registry s)
      else
        Option.bind (fields_for_operator s) (\<lambda>fs.
        map_option (\<lambda>s. PIT_HashGroup (PIT_Project (ks @ column_references fs) s)
            (map (\<lambda>ne. move_column_references (int (length ks)) (ne_expression ne)) es) (length ks))
          (build_operator registry s)))"
| "build_operator registry (L_Filter p s) = map_option (PIT_Filter p) (build_operator registry s)"
| "build_operator registry (L_Limit offset limit s) = map_option (PIT_Limit offset limit) (build_operator registry s)"
| "build_operator registry (L_Sort es s) = map_option (PIT_Sort es) (build_operator registry s)"
| "build_operator registry (L_Values fs rows) =
     map_option (\<lambda>data. PIT_Values data (length fs)) (those (map (\<lambda>row. those (map constant_datum row)) rows))"
| "build_operator registry (L_UnionAll ss) = map_option PIT_UnionAll (those (map (build_operator registry) ss))"
| "build_operator registry (L_ResolvedTable columns table) = Some (PIT_TableScan table (- 1))"
| "build_operator registry (L_TableInsert t s) = None"
| "build_operator registry (L_NegateFreq s) = map_option PIT_NegateFreq (build_operator registry s)"
| "build_operator registry (L_TableAlias n s) = build_operator registry s"
| "build_operator registry (L_FileScan directory options) = Some (PIT_FileScan directory options)"
| "build_operator registry (L_Join l r c join_type) =
     Option.bind (those (map (\<lambda>e. map_option (\<lambda>b. (b, e)) (counts_as_equi e)) (decompose_predicate c))) (\<lambda>conditions.
     Option.bind (build_operator registry l) (\<lambda>l.
     Option.bind (build_operator registry r) (\<lambda>r.
     map_option (\<lambda>non_equi. PIT_HashJoin l r (length (filter fst conditions)) non_equi join_type)
       (combine_predicates registry (map snd (filter (\<lambda>c. \<not> fst c) conditions))))))"
| "build_operator registry (L_TableReference database table) = None"

fun build_root_operator :: "'d registry \<Rightarrow> 'd logical_operator \<Rightarrow> 'd point_in_time_root option" where
  "build_root_operator registry (L_TableInsert t s) =
     (case t of L_ResolvedTable columns table \<Rightarrow> map_option (PIT_TableInsert table) (build_operator registry s) | _ \<Rightarrow> None)"
| "build_root_operator registry op = map_option PIT_Query (build_operator registry op)"

section \<open>Planning\<close>

definition plan_common ::
  "nat \<Rightarrow> nat \<Rightarrow> 'd registry \<Rightarrow> catalog_lookup \<Rightarrow> 'd parser \<Rightarrow> session \<Rightarrow> 'd logical_operator \<Rightarrow>
     ('d, field list \<times> 'd logical_operator) session_outcome" where
  "plan_common depth n registry item parse session query =
     (case validate depth n registry item parse session query of
        None \<Rightarrow> None
      | Some (session, Inl e) \<Rightarrow> Some (session, Inl e)
      | Some (session, Inr query) \<Rightarrow>
          map_option (Pair session)
            (and_then (optimize registry session query) (\<lambda>query.
             and_then (common_transforms registry query) (\<lambda>query.
               map_option (\<lambda>fs. Inr (fs, query)) (fields_for_operator query)))))"

definition plan_for_point_in_time ::
  "nat \<Rightarrow> nat \<Rightarrow> 'd registry \<Rightarrow> catalog_lookup \<Rightarrow> 'd parser \<Rightarrow> session \<Rightarrow> 'd logical_operator \<Rightarrow>
     ('d, field list \<times> 'd point_in_time_root) session_outcome" where
  "plan_for_point_in_time depth n registry item parse session query =
     (case plan_common depth n registry item parse session query of
        None \<Rightarrow> None
      | Some (session, Inl e) \<Rightarrow> Some (session, Inl e)
      | Some (session, Inr (fs, query)) \<Rightarrow>
          map_option (\<lambda>plan. (session, Inr (fs, plan))) (build_root_operator registry query))"

end
