(* ===== verification/Rewriting.thy ===== *)
theory Rewriting
  imports Optimization
begin

text \<open>
  The rows a logical query stands for, and the proof that the rewriting phases keep them.  The rows of
  tables and files and the functions that group and limit rows are given by an environment; \<open>None\<close>
  is a panic.  Byte strings are compared by their contents, so the columns of a row are normalized.
\<close>

section \<open>The rows of a query\<close>

record 'd row_env =
  re_table :: "table \<Rightarrow> 'd row list"
  re_file :: "string \<Rightarrow> serde_options \<Rightarrow> 'd row list"
  re_group :: "'d expression list \<Rightarrow> 'd expression list \<Rightarrow> 'd row list \<Rightarrow> 'd row list"
  re_limit :: "i64 \<Rightarrow> i64 \<Rightarrow> 'd row list \<Rightarrow> 'd row list"
  re_sort :: "'d sort_expression list \<Rightarrow> 'd row \<Rightarrow> bytes"

definition project_row :: "session \<Rightarrow> 'd expression list \<Rightarrow> 'd row \<Rightarrow> 'd row option" where
  "project_row session es r = map_option (\<lambda>vals. (map norm vals, snd r)) (eval_all session es (fst r))"

definition evaluates :: "session \<Rightarrow> 'd expression \<Rightarrow> 'd datum list \<Rightarrow> bool" where
  "evaluates session e t \<longleftrightarrow> eval_scalar session t e \<noteq> None"

definition joined :: "'d row \<Rightarrow> 'd row \<Rightarrow> 'd row" where
  "joined l r = (fst l @ fst r, snd l * snd r)"

definition join_rows :: "session \<Rightarrow> 'd expression \<Rightarrow> join_type \<Rightarrow> nat \<Rightarrow> 'd row list \<Rightarrow> 'd row \<Rightarrow> 'd row list" where
  "join_rows session c join_type right_len rs l =
     (let matches = filter (\<lambda>r. satisfies session c (fst l @ fst r)) rs in
      if matches = [] \<and> join_type = LeftOuter then [(fst l @ replicate right_len D_Null, snd l)] else map (joined l) matches)"

fun meaning :: "session \<Rightarrow> 'd row_env \<Rightarrow> 'd logical_operator \<Rightarrow> 'd row list option" where
  "meaning session env L_Single = Some [([], 1)]"
| "meaning session env (L_Project d es s) =
     Option.bind (meaning session env s) (\<lambda>rs. those (map (project_row session (map ne_expression es)) rs))"
| "meaning session env (L_GroupBy es ks s) = map_option (re_group env (map ne_expression es) ks) (meaning session env s)"
| "meaning session env (L_Filter p s) =
     Option.bind (meaning session env s) (\<lambda>rs.
       if list_all (\<lambda>r. evaluates session p (fst r)) rs then Some (filter (\<lambda>r. satisfies session p (fst r)) rs) else None)"
| "meaning session env (L_Join l r c join_type) =
     Option.bind (meaning session env l) (\<lambda>ls. Option.bind (meaning session env r) (\<lambda>rs.
     Option.bind (fieldnames_for_operator l) (\<lambda>left_names. Option.bind (fieldnames_for_operator r) (\<lambda>right_names.
       if list_all (\<lambda>l. length (fst l) = length left_names) ls \<and> list_all (\<lambda>r. length (fst r) = length right_names) rs \<and>
         list_all (\<lambda>l. list_all (\<lambda>r. evaluates session c (fst l @ fst r)) rs) ls
       then Some (concat (map (join_rows session c join_type (length right_names) rs) ls)) else None))))"
| "meaning session env (L_Sort es s) = map_option (sort_key (re_sort env es)) (meaning session env s)"
| "meaning session env (L_Limit k n s) = map_option (re_limit env k n) (meaning session env s)"
| "meaning session env (L_Values fs rows) = those (map (\<lambda>row. map_option (\<lambda>vals. (map norm vals, 1)) (those (map constant_datum row))) rows)"
| "meaning session env (L_TableAlias n s) = meaning session env s"
| "meaning session env (L_UnionAll ss) = map_option concat (those (map (meaning session env) ss))"
| "meaning session env (L_ResolvedTable columns table) = Some (re_table env table)"
| "meaning session env (L_NegateFreq s) = map_option (map (apsnd uminus)) (meaning session env s)"
| "meaning session env (L_FileScan directory options) = Some (re_file env directory options)"
| "meaning session env (L_TableReference database table) = None"
| "meaning session env (L_TableInsert t s) = None"

section \<open>Expressions that may be moved\<close>

text \<open>Compiled, blind to the representation of byte strings, with column offsets of a machine word; a function
  named \<open>and\<close> is the conjunction.\<close>

fun movable :: "'d expression \<Rightarrow> bool" where
  "movable (Constant d dt) = True"
| "movable (CompiledColumnReference i dt) = (i < 2 ^ 64)"
| "movable (CompiledFunctionCall f args sig) =
     (list_all movable args \<and> respects_norm f \<and> (sig_name sig = ''and'' \<longrightarrow> f = And \<and> length args = 2))"
| "movable (CompiledAggregate g args sig) = list_all movable args"
| "movable _ = False"

text \<open>The columns an expression reads.\<close>

fun columns_read :: "'d expression \<Rightarrow> nat set" where
  "columns_read (CompiledColumnReference i dt) = {i}"
| "columns_read (FunctionCall n args) = (\<Union>a \<in> set args. columns_read a)"
| "columns_read (CompiledFunctionCall f args sig) = (\<Union>a \<in> set args. columns_read a)"
| "columns_read (CompiledAggregate f args sig) = (\<Union>a \<in> set args. columns_read a)"
| "columns_read (Cast e dt) = columns_read e"
| "columns_read (Constant d dt) = {}"
| "columns_read (ColumnReference c) = {}"

lemma merge_min_max_fold:
  fixes ds :: "(nat \<times> nat) list"
  shows
  "fold (\<lambda>b a. case a of Some (min1, max1) \<Rightarrow> Some (min min1 (fst b), max max1 (snd b)) | None \<Rightarrow> Some b) ds (Some (a, b)) = Some (c1, c2) \<Longrightarrow>
     c1 \<le> a \<and> b \<le> c2 \<and> (\<forall>d \<in> set ds. c1 \<le> fst d \<and> snd d \<le> (c2 :: nat))"
proof (induction ds arbitrary: a b)
  case (Cons d ds)
  then show ?case using Cons.IH [of "min a (fst d)" "max b (snd d)"] by auto
qed simp

lemma merge_min_max_bounds:
  assumes "merge_min_max ds = Some (a, b)" "d \<in> set ds"
  shows "a \<le> fst d \<and> snd d \<le> b"
proof (cases ds)
  case (Cons e es)
  then show ?thesis using assms merge_min_max_fold [of es "fst e" "snd e" a b] by (auto simp: merge_min_max_def)
qed (use assms in simp)

definition within :: "nat set \<Rightarrow> (nat \<times> nat) option \<Rightarrow> bool" where
  "within cs bounds \<longleftrightarrow> (case bounds of None \<Rightarrow> cs = {} | Some (c1, c2) \<Rightarrow> cs \<subseteq> {c1..c2})"

lemma within_args:
  assumes IH: "\<And>a. a \<in> set args \<Longrightarrow> within (columns_read a) (min_max_column_deps a)"
  shows "within (\<Union>a \<in> set args. columns_read a) (merge_min_max (List.map_filter id (map min_max_column_deps args)))"
proof (cases "merge_min_max (List.map_filter id (map min_max_column_deps args))")
  case None
  then have "min_max_column_deps a = None" if "a \<in> set args" for a
    using that by (simp add: merge_min_max_None List.map_filter_def filter_empty_conv del: not_None_eq split_paired_Ex)
  then show ?thesis using None IH by (fastforce simp: within_def)
next
  case (Some bounds)
  obtain c1 c2 where bounds: "bounds = (c1, c2)" by (cases bounds)
  have "columns_read a \<subseteq> {c1..c2}" if a: "a \<in> set args" for a
  proof (cases "min_max_column_deps a")
    case (Some d)
    then have "d \<in> set (List.map_filter id (map min_max_column_deps args))"
      using a by (force simp: List.map_filter_def image_iff)
    then have "c1 \<le> fst d \<and> snd d \<le> c2" using merge_min_max_bounds \<open>merge_min_max _ = Some bounds\<close> bounds by blast
    then show ?thesis using IH [OF a] Some by (auto simp: within_def split: prod.splits)
  qed (use IH [OF a] in \<open>simp add: within_def\<close>)
  then show ?thesis using Some bounds by (auto simp: within_def)
qed

lemma min_max_columns: "within (columns_read e) (min_max_column_deps e)"
proof (induction e)
  case (Cast e dt)
  then show ?case using within_args [of "[e]"] by simp
qed (simp_all add: within_args, simp_all add: within_def)

text \<open>Evaluation reads these columns only.\<close>

lemma eval_columns:
  "(\<And>i. i \<in> columns_read e \<Longrightarrow> i < length t \<and> i < length t' \<and> t ! i = t' ! i) \<Longrightarrow> eval_scalar session t e = eval_scalar session t' e"
proof (induction e)
  case (CompiledFunctionCall f args sig)
  then have "eval_all session args t = eval_all session args t'" unfolding eval_all_def
    by (intro arg_cong [where f = those] map_cong) auto
  then show ?case by simp
qed auto

lemma eval_moved:
  "movable e \<Longrightarrow> (\<And>i. i \<in> columns_read e \<Longrightarrow> length l \<le> i) \<Longrightarrow>
    eval_scalar session r (move_column_references (- int (length l)) e) = eval_scalar session (l @ r) e"
proof (induction e)
  case (CompiledFunctionCall f args sig)
  then have "eval_all session (map (move_column_references (- int (length l))) args) r = eval_all session args (l @ r)"
    unfolding eval_all_def map_map comp_def by (intro arg_cong [where f = those] map_cong) (auto simp: list_all_iff)
  then show ?case by simp
next
  case (CompiledColumnReference i dt)
  then have i: "length l \<le> i" "i < 2 ^ 64" by auto
  then have "nat ((int i - int (length l)) mod 2 ^ 64) = i - length l"
    by (subst mod_pos_pos_trivial) (auto simp: of_nat_diff nat_diff_distrib)
  then show ?case using i by (auto simp: nth_append)
qed auto

lemma movable_move: "movable e \<Longrightarrow> movable (move_column_references n e)"
proof (induction e)
  case (CompiledColumnReference i dt)
  have "nat ((int i + n) mod 2 ^ 64) < 2 ^ 64" by (simp add: nat_less_iff)
  then show ?case by simp
qed (auto simp: list_all_iff)

lemma list_all2_list_all:
  "list_all2 R xs ys \<Longrightarrow> list_all P xs \<Longrightarrow> (\<And>x y. x \<in> set xs \<Longrightarrow> R x y \<Longrightarrow> P x \<Longrightarrow> Q y) \<Longrightarrow> list_all Q ys"
  by (induction rule: list_all2_induct) auto

lemma movable_inline:
  "inline_expression src e = Some e' \<Longrightarrow> movable e \<Longrightarrow> list_all movable src \<Longrightarrow> movable e'"
proof (induction e arbitrary: e')
  case (CompiledFunctionCall f args sig)
  obtain args' where args': "list_all2 (\<lambda>x y. inline_expression src x = Some y) args args'" "e' = CompiledFunctionCall f args' sig"
    using CompiledFunctionCall.prems(1) by (auto simp: inline_expressions_eq those_list_all2)
  have "list_all movable args'" by (rule list_all2_list_all [OF args'(1), where P = movable]) (use CompiledFunctionCall in auto)
  then show ?case using args' list_all2_lengthD [OF args'(1)] CompiledFunctionCall.prems(2) by simp
next
  case (CompiledAggregate g args sig)
  obtain args' where args': "list_all2 (\<lambda>x y. inline_expression src x = Some y) args args'" "e' = CompiledAggregate g args' sig"
    using CompiledAggregate.prems(1) by (auto simp: inline_expressions_eq those_list_all2)
  have "list_all movable args'" by (rule list_all2_list_all [OF args'(1), where P = movable]) (use CompiledAggregate in auto)
  then show ?case using args'(2) by simp
qed (auto simp: list_all_length split: if_splits)

lemma movable_norm:
  "movable e \<Longrightarrow> map_option norm (eval_scalar session (map norm t) e) = map_option norm (eval_scalar session t e)"
proof (induction e)
  case (CompiledFunctionCall f args sig)
  have "list_all2 (\<lambda>e e'. map_option norm (eval_scalar session (map norm t) e) = map_option norm (eval_scalar session t e')) args args"
    using CompiledFunctionCall by (auto simp: list_all2_conv_all_nth list_all_length)
  from respects_norm_bind [OF _ eval_all_norm_cong [OF this]] CompiledFunctionCall.prems show ?case by simp
qed auto

lemma norm_boolean [simp]: "norm d = D_Boolean b \<longleftrightarrow> d = D_Boolean b"
  by (cases d) auto

lemma satisfies_norm: "satisfies session p t \<longleftrightarrow> map_option norm (eval_scalar session t p) = Some (D_Boolean True)"
  by (auto simp: satisfies_def)

lemma movable_inline_value:
  assumes "eval_all session src t = Some vals"
  shows "inline_expression src e = Some e' \<Longrightarrow> movable e \<Longrightarrow> map_option norm (eval_scalar session t e') = map_option norm (eval_scalar session vals e)"
proof (induction e arbitrary: e')
  case (CompiledFunctionCall f args sig)
  obtain args' where args': "list_all2 (\<lambda>x y. inline_expression src x = Some y) args args'" "e' = CompiledFunctionCall f args' sig"
    using CompiledFunctionCall.prems(1) by (auto simp: inline_expressions_eq those_list_all2)
  have "list_all2 (\<lambda>e' e. map_option norm (eval_scalar session t e') = map_option norm (eval_scalar session vals e)) args' args"
    using CompiledFunctionCall.IH CompiledFunctionCall.prems(2) args'(1) by (auto simp: list_all2_conv_all_nth list_all_length)
  from respects_norm_bind [OF _ eval_all_norm_cong [OF this]] show ?case using CompiledFunctionCall.prems(2) args'(2) by simp
next
  case (CompiledColumnReference i dt)
  then have "e' = src ! i" "i < length src" by (auto split: if_splits)
  moreover have "eval_scalar session t (src ! i) = Some (vals ! i)"
    using assms \<open>i < length src\<close> unfolding eval_all_def those_eq_Some by (metis nth_map length_map)
  ultimately show ?case using length_eval_all [OF assms] by simp
qed (auto simp: inline_expressions_eq)

lemma inline_satisfies:
  assumes "project_row session src r = Some r'" "inline_expression src p = Some p'" "movable p" "list_all movable src"
  shows "satisfies session p' (fst r) \<longleftrightarrow> satisfies session p (fst r')"
proof -
  obtain vals where vals: "eval_all session src (fst r) = Some vals" "fst r' = map norm vals"
    using assms(1) by (auto simp: project_row_def)
  then show ?thesis using movable_inline_value [OF vals(1) assms(2,3)] assms(3) by (simp add: satisfies_norm movable_norm)
qed

section \<open>Conjunctions\<close>

definition all_satisfied :: "session \<Rightarrow> 'd expression list \<Rightarrow> 'd row \<Rightarrow> bool" where
  "all_satisfied session ps r \<longleftrightarrow> (\<forall>p \<in> set ps. satisfies session p (fst r))"

lemma all_satisfied_simps [simp]:
  "all_satisfied session [] r" "all_satisfied session (p # ps) r \<longleftrightarrow> satisfies session p (fst r) \<and> all_satisfied session ps r"
  "all_satisfied session (ps @ qs) r \<longleftrightarrow> all_satisfied session ps r \<and> all_satisfied session qs r"
  by (auto simp: all_satisfied_def)

lemma and_satisfied: "satisfies session (CompiledFunctionCall And [a, b] sig) t \<longleftrightarrow> satisfies session a t \<and> satisfies session b t"
proof -
  have "And session sig [x, y] = Some (D_Boolean True) \<longleftrightarrow> x = D_Boolean True \<and> y = D_Boolean True" for x y :: "'a datum"
    by (cases x; cases y) (auto simp: And_def binary_def arg_def)
  then show ?thesis by (auto simp: satisfies_def bind_eq_Some_conv)
qed

lemma is_true_expression_eq: "is_true_expression e \<longleftrightarrow> e = Constant (D_Boolean True) T_Boolean"
  by (cases e rule: is_true_expression.cases) auto

lemma true_satisfied: "is_true_expression e \<Longrightarrow> satisfies session e t"
  by (simp add: is_true_expression_eq satisfies_def)

lemma true_filtered: "all_satisfied session (filter (\<lambda>e. \<not> is_true_expression e) ps) r \<longleftrightarrow> all_satisfied session ps r"
  using true_satisfied [of _ session "fst r"] by (auto simp: all_satisfied_def)

lemma decompose_satisfied:
  "movable p \<Longrightarrow> all_satisfied session (decompose_predicate p) r \<longleftrightarrow> satisfies session p (fst r)"
proof (induction p)
  case (CompiledFunctionCall f args sig)
  show ?case
  proof (cases "sig_name sig = ''and''")
    case True
    then obtain a b where ab: "args = [a, b]" "f = And" using CompiledFunctionCall.prems by (auto simp: length_Suc_conv numeral_2_eq_2)
    then show ?thesis using True CompiledFunctionCall by (simp add: true_filtered and_satisfied)
  qed simp
qed (auto simp: true_satisfied)

lemma decompose_movable: "movable p \<Longrightarrow> list_all movable (decompose_predicate p)"
proof (induction p)
  case (CompiledFunctionCall f args sig)
  then show ?case by (auto simp: list_all_iff)
qed auto

lemma lookup_and: "lookup L ''and'' = [\<lparr>signature = \<lparr>sig_name = ''and'', sig_args = [T_Boolean, T_Boolean], sig_ret = T_Boolean\<rparr>,
    custom_return_type_resolver = None, function_of = Scalar And\<rparr>]"
  by (simp add: lookup_simps)

lemma resolve_and:
  "resolve_function (builtin_registry L) \<lparr>sig_name = ''and'', sig_args = [T_Boolean, T_Boolean], sig_ret = T_Null\<rparr> =
     Some (Inr (\<lparr>sig_name = ''and'', sig_args = [T_Boolean, T_Boolean], sig_ret = T_Boolean\<rparr>, Scalar And))"
  by (simp add: resolve_function_def builtin_registry_lookup lookup_and rank_simps)

lemma combine_satisfied:
  assumes "combine_predicates (builtin_registry L) ps = Some p" "list_all movable ps"
  shows "satisfies session p (fst r) \<longleftrightarrow> all_satisfied session ps r" "movable p"
proof -
  let ?and = "\<lambda>b a. CompiledFunctionCall And [a, b] \<lparr>sig_name = ''and'', sig_args = [T_Boolean, T_Boolean], sig_ret = T_Boolean\<rparr>"
  have many: "(satisfies session (fold ?and qs q) (fst r) \<longleftrightarrow> satisfies session q (fst r) \<and> all_satisfied session qs r) \<and>
    (movable q \<longrightarrow> list_all movable qs \<longrightarrow> movable (fold ?and qs q))" for q qs
    by (induction qs arbitrary: q) (auto simp: and_satisfied respects_norm)
  have "(satisfies session p (fst r) \<longleftrightarrow> all_satisfied session ps r) \<and> movable p"
  proof (cases ps rule: list.exhaust [case_names Nil Cons])
    case Nil
    then show ?thesis using assms by (auto simp: combine_predicates_def resolve_and true_expression_def satisfies_def)
  next
    case (Cons q qs)
    then have "p = fold ?and qs q" using assms(1) by (cases qs) (auto simp: combine_predicates_def resolve_and)
    then show ?thesis using many assms(2) Cons by simp
  qed
  then show "satisfies session p (fst r) \<longleftrightarrow> all_satisfied session ps r" "movable p" by blast+
qed


section \<open>Predicate pushdown\<close>

text \<open>The parts of a split, as filters.\<close>

definition reads_left :: "nat \<Rightarrow> 'd expression \<Rightarrow> bool" where
  "reads_left n p \<longleftrightarrow> (case min_max_column_deps p of None \<Rightarrow> False | Some (c1, c2) \<Rightarrow> c2 < n)"

definition reads_right :: "nat \<Rightarrow> 'd expression \<Rightarrow> bool" where
  "reads_right n p \<longleftrightarrow> (case min_max_column_deps p of None \<Rightarrow> False | Some (c1, c2) \<Rightarrow> \<not> c2 < n \<and> n \<le> c1)"

definition reads_after :: "nat \<Rightarrow> 'd expression \<Rightarrow> bool" where
  "reads_after n p \<longleftrightarrow> (case min_max_column_deps p of None \<Rightarrow> False | Some (c1, c2) \<Rightarrow> n \<le> c1)"

definition reads_nothing :: "'d expression \<Rightarrow> bool" where
  "reads_nothing p \<longleftrightarrow> min_max_column_deps p = None"

lemmas reads_defs = reads_left_def reads_right_def reads_after_def reads_nothing_def

lemma split_inner_eq:
  "split_inner n ps = \<lparr>js_left = filter (\<lambda>p. reads_nothing p \<or> reads_left n p) ps, js_right = filter (\<lambda>p. reads_nothing p \<or> reads_right n p) ps,
     js_keep = filter (\<lambda>p. \<not> reads_nothing p \<and> \<not> reads_left n p \<and> \<not> reads_right n p) ps, js_wrap = []\<rparr>"
  unfolding split_inner_def
  by (induction ps rule: rev_induct) (auto simp: reads_defs split: option.splits)

lemma split_outer_eq:
  "split_outer n ps cs = \<lparr>js_left = filter (\<lambda>p. reads_nothing p \<or> reads_left n p) ps,
     js_right = filter reads_nothing ps @ filter (\<lambda>p. reads_nothing p \<or> reads_after n p) cs,
     js_keep = filter (\<lambda>p. \<not> reads_nothing p \<and> \<not> reads_after n p) cs, js_wrap = filter (\<lambda>p. \<not> reads_nothing p \<and> \<not> reads_left n p) ps\<rparr>"
proof -
  have above: "fold (\<lambda>predicate s.
       case min_max_column_deps predicate of
         None \<Rightarrow> s\<lparr>js_left := js_left s @ [predicate], js_right := js_right s @ [predicate]\<rparr>
       | Some (first, last_col) \<Rightarrow>
           if last_col < n then s\<lparr>js_left := js_left s @ [predicate]\<rparr>
           else s\<lparr>js_wrap := js_wrap s @ [predicate]\<rparr>) ps \<lparr>js_left = [], js_right = [], js_keep = [], js_wrap = []\<rparr> =
    \<lparr>js_left = filter (\<lambda>p. reads_nothing p \<or> reads_left n p) ps, js_right = filter reads_nothing ps, js_keep = [],
     js_wrap = filter (\<lambda>p. \<not> reads_nothing p \<and> \<not> reads_left n p) ps\<rparr>"
    by (induction ps rule: rev_induct) (auto simp: reads_defs split: option.splits)
  show ?thesis unfolding split_outer_def above
    by (induction cs rule: rev_induct) (auto simp: reads_defs split: option.splits)
qed

text \<open>A predicate on one side of a joined row.\<close>

lemma satisfies_left:
  assumes "reads_nothing p \<or> reads_left (length l) p"
  shows "satisfies session p (l @ r) \<longleftrightarrow> satisfies session p l"
proof -
  have "i < length l" if "i \<in> columns_read p" for i
    using assms that min_max_columns [of p] by (auto simp: reads_defs within_def split: option.splits)
  then have "eval_scalar session (l @ r) p = eval_scalar session l p" by (intro eval_columns) (fastforce simp: nth_append)
  then show ?thesis by (simp add: satisfies_def)
qed

lemma satisfies_right:
  assumes "movable p" "reads_nothing p \<or> reads_right (length l) p \<or> reads_after (length l) p"
  shows "satisfies session (move_column_references (- int (length l)) p) r \<longleftrightarrow> satisfies session p (l @ r)"
proof -
  have "length l \<le> i" if "i \<in> columns_read p" for i
    using assms(2) that min_max_columns [of p] by (auto simp: reads_defs within_def split: option.splits)
  then show ?thesis using eval_moved [OF assms(1), of l session r] by (simp add: satisfies_def)
qed

lemma satisfies_nothing:
  assumes "reads_nothing p"
  shows "satisfies session p t \<longleftrightarrow> satisfies session p t'"
proof -
  have "columns_read p = {}" using assms min_max_columns [of p] by (simp add: reads_defs within_def)
  then have "eval_scalar session t p = eval_scalar session t' p" by (intro eval_columns) simp
  then show ?thesis by (simp add: satisfies_def)
qed

lemma all_satisfied_filter: "all_satisfied session (filter P ps) r \<longleftrightarrow> (\<forall>p \<in> set ps. P p \<longrightarrow> satisfies session p (fst r))"
  by (auto simp: all_satisfied_def)

abbreviation moved :: "nat \<Rightarrow> 'd expression list \<Rightarrow> 'd expression list" where
  "moved n ps \<equiv> map (move_column_references (- int n)) ps"

lemma moved_satisfied:
  assumes "list_all movable ps" "length (fst l) = n" "\<And>p. p \<in> set ps \<Longrightarrow> reads_nothing p \<or> reads_right n p \<or> reads_after n p"
  shows "all_satisfied session (moved n ps) r \<longleftrightarrow> all_satisfied session ps (joined l r)"
  using assms satisfies_right [of _ "fst l" session "fst r"] by (auto simp: all_satisfied_def joined_def list_all_iff)

text \<open>The rows of a join with its predicates taken apart.\<close>

lemma join_inner_rows:
  fixes ls rs :: "'d row list"
  assumes "list_all movable ps" "movable c" "list_all (\<lambda>l. length (fst l) = n) ls" "movable c'"
    and keep: "\<And>r. satisfies session c' (fst r) \<longleftrightarrow> all_satisfied session (js_keep (split_inner n (ps @ decompose_predicate c))) r"
  shows "concat (map (join_rows session c' Inner m (filter (all_satisfied session (moved n (js_right (split_inner n (ps @ decompose_predicate c))))) rs))
        (filter (all_satisfied session (js_left (split_inner n (ps @ decompose_predicate c)))) ls)) =
    filter (all_satisfied session ps) (concat (map (join_rows session c Inner m rs) ls))"
  using assms(3)
proof (induction ls)
  case (Cons l ls)
  let ?all = "ps @ decompose_predicate c"
  have mv: "list_all movable ?all" using assms(1) decompose_movable [OF assms(2)] by simp
  have pair: "all_satisfied session ps (joined l r) \<and> satisfies session c (fst l @ fst r) \<longleftrightarrow>
      all_satisfied session (js_left (split_inner n ?all)) l \<and> all_satisfied session (moved n (js_right (split_inner n ?all))) r \<and>
      satisfies session c' (fst l @ fst r)" for r
  proof -
    have "all_satisfied session ps (joined l r) \<and> satisfies session c (fst l @ fst r) \<longleftrightarrow> all_satisfied session ?all (joined l r)"
      using decompose_satisfied [OF assms(2), of session "joined l r"] by (simp add: joined_def)
    also have "\<dots> \<longleftrightarrow> all_satisfied session (js_left (split_inner n ?all)) (joined l r) \<and> all_satisfied session (js_right (split_inner n ?all)) (joined l r) \<and>
        all_satisfied session (js_keep (split_inner n ?all)) (joined l r)"
      unfolding split_inner_eq by (auto simp: all_satisfied_def)
    also have "all_satisfied session (js_left (split_inner n ?all)) (joined l r) \<longleftrightarrow> all_satisfied session (js_left (split_inner n ?all)) l"
      unfolding split_inner_eq using satisfies_left [of _ "fst l" session "fst r"] Cons.prems by (auto simp: all_satisfied_def joined_def)
    also have "all_satisfied session (js_right (split_inner n ?all)) (joined l r) \<longleftrightarrow> all_satisfied session (moved n (js_right (split_inner n ?all))) r"
      by (rule moved_satisfied [symmetric]) (use Cons.prems mv in \<open>auto simp: split_inner_eq list_all_iff\<close>)
    finally show ?thesis using keep [of "joined l r"] by (simp add: joined_def)
  qed
  have "(if all_satisfied session (js_left (split_inner n ?all)) l
       then join_rows session c' Inner m (filter (all_satisfied session (moved n (js_right (split_inner n ?all)))) rs) l else []) =
      filter (all_satisfied session ps) (join_rows session c Inner m rs l)"
  proof (cases "all_satisfied session (js_left (split_inner n ?all)) l")
    case True
    have "filter (\<lambda>r. all_satisfied session (moved n (js_right (split_inner n ?all))) r \<and> satisfies session c' (fst l @ fst r)) rs =
        filter (\<lambda>r. satisfies session c (fst l @ fst r) \<and> all_satisfied session ps (joined l r)) rs"
      by (rule filter_cong) (use pair True in blast)+
    then show ?thesis using True by (simp add: join_rows_def filter_map comp_def)
  next
    case False
    then have "filter (\<lambda>r. satisfies session c (fst l @ fst r) \<and> all_satisfied session ps (joined l r)) rs = []"
      using pair by (simp add: filter_empty_conv) blast
    then show ?thesis using False by (simp add: join_rows_def filter_map comp_def)
  qed
  then show ?case using Cons by auto
qed simp


lemma join_outer_rows:
  fixes ls rs :: "'d row list"
  assumes "list_all movable ps" "movable c" "list_all (\<lambda>l. length (fst l) = n) ls"
    and keep: "\<And>r. satisfies session c' (fst r) \<longleftrightarrow> all_satisfied session (js_keep (split_outer n ps (decompose_predicate c))) r"
  shows "filter (all_satisfied session (js_wrap (split_outer n ps (decompose_predicate c))))
      (concat (map (join_rows session c' LeftOuter m (filter (all_satisfied session (moved n (js_right (split_outer n ps (decompose_predicate c))))) rs))
        (filter (all_satisfied session (js_left (split_outer n ps (decompose_predicate c)))) ls))) =
    filter (all_satisfied session ps) (concat (map (join_rows session c LeftOuter m rs) ls))"
  using assms(3)
proof (induction ls)
  case (Cons l ls)
  let ?split = "split_outer n ps (decompose_predicate c)"
  have left: "all_satisfied session ps (fst l @ t, k) \<longleftrightarrow> all_satisfied session (js_left ?split) l \<and> all_satisfied session (js_wrap ?split) (fst l @ t, k)" for t k
    unfolding split_outer_eq using satisfies_left [of _ "fst l" session t] Cons.prems by (auto simp: all_satisfied_def)
  have "filter (all_satisfied session (js_wrap ?split)) (if all_satisfied session (js_left ?split) l
       then join_rows session c' LeftOuter m (filter (all_satisfied session (moved n (js_right ?split))) rs) l else []) =
      filter (all_satisfied session ps) (join_rows session c LeftOuter m rs l)"
  proof (cases "all_satisfied session (js_left ?split) l")
    case True
    have right: "all_satisfied session (moved n (js_right ?split)) r \<and> satisfies session c' (fst l @ fst r) \<longleftrightarrow> satisfies session c (fst l @ fst r)" for r
    proof -
      have "all_satisfied session (moved n (js_right ?split)) r \<longleftrightarrow> all_satisfied session (js_right ?split) (joined l r)"
        by (rule moved_satisfied) (use assms(1) decompose_movable [OF assms(2)] Cons.prems in \<open>auto simp: split_outer_eq list_all_iff\<close>)
      moreover have "satisfies session p (fst l @ fst r)" if "p \<in> set ps" "reads_nothing p" for p
        using True that satisfies_nothing [of p session "fst l" "fst l @ fst r"] by (auto simp: split_outer_eq all_satisfied_filter)
      ultimately show ?thesis using keep [of "joined l r"] decompose_satisfied [OF assms(2), of session "joined l r"]
        by (auto simp: split_outer_eq joined_def all_satisfied_def)
    qed
    then have "join_rows session c' LeftOuter m (filter (all_satisfied session (moved n (js_right ?split))) rs) l = join_rows session c LeftOuter m rs l"
      by (simp add: join_rows_def)
    moreover have "filter (all_satisfied session (js_wrap ?split)) (join_rows session c LeftOuter m rs l) =
        filter (all_satisfied session ps) (join_rows session c LeftOuter m rs l)"
      by (rule filter_cong) (use left True in \<open>auto simp: join_rows_def joined_def Let_def split: if_split_asm\<close>)
    ultimately show ?thesis using True by simp
  next
    case False
    then have "filter (all_satisfied session ps) (join_rows session c LeftOuter m rs l) = []"
      using left by (auto simp: filter_empty_conv join_rows_def joined_def Let_def)
    then show ?thesis using False by simp
  qed
  then show ?case using Cons by (auto split: if_split_asm)
qed simp

text \<open>No filter below predicates: a filter forgets what comes from above.  The first argument says that
  predicates may come.\<close>

fun filters_apart :: "bool \<Rightarrow> 'd logical_operator \<Rightarrow> bool" where
  "filters_apart from_above (L_Filter p s) = (\<not> from_above \<and> filters_apart True s)"
| "filters_apart from_above (L_Sort es s) = filters_apart from_above s"
| "filters_apart from_above (L_NegateFreq s) = filters_apart from_above s"
| "filters_apart from_above (L_Project d es s) = filters_apart from_above s"
| "filters_apart from_above (L_UnionAll ss) = list_all (filters_apart from_above) ss"
| "filters_apart from_above (L_Join l r c join_type) = (filters_apart True l \<and> filters_apart True r)"
| "filters_apart from_above (L_GroupBy es ks s) = filters_apart False s"
| "filters_apart from_above (L_Limit k n s) = filters_apart False s"
| "filters_apart from_above (L_TableAlias n s) = filters_apart False s"
| "filters_apart from_above (L_TableInsert t s) = (filters_apart False t \<and> filters_apart False s)"
| "filters_apart from_above op = True"

lemma filters_apart_mono: "filters_apart True op \<Longrightarrow> filters_apart from_above op"
  by (induction op) (auto simp: list_all_iff)

fun movable_op :: "'d logical_operator \<Rightarrow> bool" where
  "movable_op (L_Project d es s) = list_all (\<lambda>ne. movable (ne_expression ne)) es"
| "movable_op (L_Filter p s) = movable p"
| "movable_op (L_Join l r c join_type) = movable c"
| "movable_op op = True"


lemma those_Some_cong:
  "those (map f xs) = Some ys \<Longrightarrow> (\<And>x y. x \<in> set xs \<Longrightarrow> f x = Some y \<Longrightarrow> g y = h x) \<Longrightarrow> map g ys = map h xs"
  by (auto simp: those_list_all2 list_all2_conv_all_nth list_eq_iff_nth_eq)

fun transparent :: "'d logical_operator \<Rightarrow> bool" where
  "transparent (L_Filter p s) = True"
| "transparent (L_Sort es s) = True"
| "transparent (L_NegateFreq s) = True"
| "transparent (L_Project d es s) = True"
| "transparent (L_UnionAll ss) = True"
| "transparent (L_Join l r c join_type) = True"
| "transparent op = False"

lemma pushdown_other:
  "\<not> transparent op \<Longrightarrow> pushdown registry op ps =
     (if ps \<noteq> [] then Option.bind (combine_predicates registry ps) (\<lambda>p. map_option (L_Filter p) (pushdown registry op []))
      else map_option (with_children op) (those (map (\<lambda>s. pushdown registry s []) (children_mut op))))"
  by (subst pushdown.simps) (auto split: logical_operator.split)

lemmas pushdown_simps =
  pushdown.simps [where op = "L_Filter p s" for p s, simplified]
  pushdown.simps [where op = "L_Sort es s" for es s, simplified]
  pushdown.simps [where op = "L_NegateFreq s" for s, simplified]
  pushdown.simps [where op = "L_Project d es s" for d es s, simplified]
  pushdown.simps [where op = "L_UnionAll ss" for ss, simplified]

lemma pushdown_join:
  assumes "pushdown registry (L_Join l r c join_type) ps = Some op'"
  obtains names parts c' l' r' where "fieldnames_for_operator l = Some names"
    "parts = (if join_type = Inner then split_inner (length names) (ps @ decompose_predicate c) else split_outer (length names) ps (decompose_predicate c))"
    "combine_predicates registry (js_keep parts) = Some c'" "pushdown registry l (js_left parts) = Some l'"
    "pushdown registry r (moved (length names) (js_right parts)) = Some r'"
    "if js_wrap parts \<noteq> [] then \<exists>p. combine_predicates registry (js_wrap parts) = Some p \<and> op' = L_Filter p (L_Join l' r' c' join_type)
     else op' = L_Join l' r' c' join_type"
proof -
  obtain names where f: "fieldnames_for_operator l = Some names"
    using assms by (subst (asm) pushdown.simps) (auto simp: bind_eq_Some_conv)
  define parts where "parts = (if join_type = Inner then split_inner (length names) (ps @ decompose_predicate c)
    else split_outer (length names) ps (decompose_predicate c))"
  have "pushdown registry (L_Join l r c join_type) ps =
     Option.bind (combine_predicates registry (js_keep parts)) (\<lambda>c.
     Option.bind (pushdown registry l (js_left parts)) (\<lambda>l.
     Option.bind (pushdown registry r (moved (length names) (js_right parts))) (\<lambda>r.
       if js_wrap parts \<noteq> []
       then map_option (\<lambda>p. L_Filter p (L_Join l r c join_type)) (combine_predicates registry (js_wrap parts))
       else Some (L_Join l r c join_type))))"
    by (subst pushdown.simps) (simp only: logical_operator.case f Option.bind.bind_lunit Let_def parts_def)
  note eq = this
  obtain c' l' r' where "combine_predicates registry (js_keep parts) = Some c'" "pushdown registry l (js_left parts) = Some l'"
    "pushdown registry r (moved (length names) (js_right parts)) = Some r'"
    "(if js_wrap parts \<noteq> [] then map_option (\<lambda>p. L_Filter p (L_Join l' r' c' join_type)) (combine_predicates registry (js_wrap parts))
      else Some (L_Join l' r' c' join_type)) = Some op'"
    using assms unfolding eq bind_eq_Some_conv by blast
  then show thesis by (intro that [OF f parts_def]) (auto split: if_split_asm)
qed

lemma child_rank: "s \<in> set (children_mut op) \<Longrightarrow> 2 * size s + (if qs = [] then 0 else 1) < 2 * size op + (if ps = [] then 0 else 1)"
  using child_size [of s op] by auto

lemma pushdown_fieldnames: "pushdown registry op ps = Some op' \<Longrightarrow> fieldnames_for_operator op' = fieldnames_for_operator op"
proof (induction "2 * size op + (if ps = [] then 0 else 1)" arbitrary: op ps op' rule: less_induct)
  case less
  have IH: "fieldnames_for_operator s' = fieldnames_for_operator s" if "s \<in> set (children_mut op)" "pushdown registry s qs = Some s'" for s qs s'
    using less.hyps [OF child_rank [OF that(1), of qs ps] that(2)] .
  show ?case
  proof (cases "transparent op")
    case False
    show ?thesis
    proof (cases "ps = []")
      case True
      then show ?thesis using False less.prems IH
        by (cases op) (auto simp: pushdown_other bind_eq_Some_conv split: option.split_asm)
    next
      case ps: False
      then obtain p op2 where "op' = L_Filter p op2" "pushdown registry op [] = Some op2"
        using less.prems by (auto simp: pushdown_other [OF False] bind_eq_Some_conv)
      then show ?thesis using less.hyps [of op "[]"] ps by simp
    qed
  next
    case True
    show ?thesis
    proof (cases op)
      case (L_UnionAll ss)
      then obtain ss' where "those (map (\<lambda>s. pushdown registry s ps) ss) = Some ss'" "op' = L_UnionAll ss'"
        using less.prems by (auto simp: pushdown_simps)
      then show ?thesis using L_UnionAll IH by (cases ss) (auto simp: those_Cons bind_eq_Some_conv simp del: those.simps(2))
    next
      case (L_Join l r c join_type)
      show ?thesis by (rule pushdown_join [OF less.prems [unfolded L_Join]])
        (use L_Join IH [of l] IH [of r] in \<open>auto split: if_split_asm\<close>)
    qed (use True less.prems IH in \<open>auto simp: pushdown_simps bind_eq_Some_conv\<close>)
  qed
qed


lemma meaning_filter:
  "meaning session env (L_Filter p s) = Some rs \<Longrightarrow> \<exists>ss. meaning session env s = Some ss \<and> rs = filter (\<lambda>r. satisfies session p (fst r)) ss"
  by (auto simp: bind_eq_Some_conv split: if_split_asm)

lemma project_filter:
  assumes "list_all2 (\<lambda>r r'. project_row session src r = Some r') ss rs"
    "list_all2 (\<lambda>r r'. project_row session src r = Some r') (filter P ss) rs'"
    "\<And>r r'. project_row session src r = Some r' \<Longrightarrow> P r \<longleftrightarrow> Q r'"
  shows "rs' = filter Q rs"
  using assms(1,2)
proof (induction arbitrary: rs' rule: list_all2_induct)
  case (Cons s ss r rs)
  then show ?case using assms(3) [of s r] by (auto simp: list_all2_Cons1 split: if_split_asm)
qed simp

text \<open>Pushing predicates into an operator filters its rows by them.\<close>

lemma pushdown_join_rows:
  fixes l r :: "'d logical_operator"
  assumes "pushdown (builtin_registry L) (L_Join l r c join_type) ps = Some op'" "movable c" "list_all movable ps"
    "meaning session env (L_Join l r c join_type) = Some rs" "meaning session env op' = Some rs'"
    and IHl: "\<And>qs l' ls ls'. pushdown (builtin_registry L) l qs = Some l' \<Longrightarrow> list_all movable qs \<Longrightarrow>
      meaning session env l = Some ls \<Longrightarrow> meaning session env l' = Some ls' \<Longrightarrow> ls' = filter (all_satisfied session qs) ls"
    and IHr: "\<And>qs r' ls ls'. pushdown (builtin_registry L) r qs = Some r' \<Longrightarrow> list_all movable qs \<Longrightarrow>
      meaning session env r = Some ls \<Longrightarrow> meaning session env r' = Some ls' \<Longrightarrow> ls' = filter (all_satisfied session qs) ls"
  shows "rs' = filter (all_satisfied session ps) rs"
proof -
  obtain names parts c' l' r' where f: "fieldnames_for_operator l = Some names"
    and parts: "parts = (if join_type = Inner then split_inner (length names) (ps @ decompose_predicate c) else split_outer (length names) ps (decompose_predicate c))"
    and p: "combine_predicates (builtin_registry L) (js_keep parts) = Some c'" "pushdown (builtin_registry L) l (js_left parts) = Some l'"
      "pushdown (builtin_registry L) r (moved (length names) (js_right parts)) = Some r'"
    and op': "if js_wrap parts \<noteq> [] then \<exists>p. combine_predicates (builtin_registry L) (js_wrap parts) = Some p \<and> op' = L_Filter p (L_Join l' r' c' join_type)
     else op' = L_Join l' r' c' join_type"
    by (rule pushdown_join [OF assms(1)])
  have mv: "list_all movable (js_left parts)" "list_all movable (moved (length names) (js_right parts))" "list_all movable (js_keep parts)"
    "list_all movable (js_wrap parts)"
    using assms(3) decompose_movable [OF assms(2)] by (auto simp: parts split_inner_eq split_outer_eq list_all_iff intro: movable_move)
  obtain ls rl rn where m: "meaning session env l = Some ls" "meaning session env r = Some rl" "fieldnames_for_operator r = Some rn"
      "list_all (\<lambda>l. length (fst l) = length names) ls" "rs = concat (map (join_rows session c join_type (length rn) rl) ls)"
    using assms(4) f by (auto simp: bind_eq_Some_conv split: if_split_asm)
  have names: "fieldnames_for_operator l' = Some names" "fieldnames_for_operator r' = Some rn"
    using pushdown_fieldnames [OF p(2)] pushdown_fieldnames [OF p(3)] f m(3) by simp_all
  define joined_rows where "joined_rows = concat (map (join_rows session c' join_type (length rn) (filter (all_satisfied session (moved (length names) (js_right parts))) rl))
    (filter (all_satisfied session (js_left parts)) ls))"
  have out: "meaning session env (L_Join l' r' c' join_type) = Some out \<Longrightarrow> out = joined_rows" for out
    using IHl [OF p(2) mv(1) m(1)] IHr [OF p(3) mv(2) m(2)] names unfolding joined_rows_def
    by (auto simp: bind_eq_Some_conv split: if_split_asm)
  have rs': "rs' = filter (all_satisfied session (js_wrap parts)) joined_rows"
  proof (cases "js_wrap parts = []")
    case False
    then obtain p out where p: "combine_predicates (builtin_registry L) (js_wrap parts) = Some p"
        "meaning session env (L_Join l' r' c' join_type) = Some out" "rs' = filter (\<lambda>r. satisfies session p (fst r)) out"
      using op' assms(5) meaning_filter by metis
    then show ?thesis using out combine_satisfied(1) [OF p(1) mv(4), of session] by simp
  qed (use op' assms(5) out in simp)
  note keep = combine_satisfied(1) [OF p(1) mv(3), of session]
  show ?thesis
  proof (cases join_type)
    case Inner
    then have parts: "parts = split_inner (length names) (ps @ decompose_predicate c)" by (simp add: parts)
    then have "js_wrap parts = []" by (simp add: split_inner_eq)
    then show ?thesis
      using join_inner_rows [OF assms(3,2) m(4) _ keep [unfolded parts], of "length rn" rl] Inner combine_satisfied(2) [OF p(1) mv(3)]
      by (simp add: rs' m(5) joined_rows_def parts)
  next
    case LeftOuter
    then have parts: "parts = split_outer (length names) ps (decompose_predicate c)" by (simp add: parts)
    then show ?thesis using join_outer_rows [OF assms(3,2) m(4) keep [unfolded parts], of "length rn" rl] LeftOuter
      by (simp add: rs' m(5) joined_rows_def parts)
  qed
qed

lemma pushdown_rows:
  fixes op :: "'d logical_operator"
  assumes "pushdown (builtin_registry L) op ps = Some op'" "filters_apart (ps \<noteq> []) op" "everywhere movable_op op" "list_all movable ps"
    "meaning session env op = Some rs" "meaning session env op' = Some rs'"
  shows "rs' = filter (all_satisfied session ps) rs"
  using assms
proof (induction "2 * size op + (if ps = [] then 0 else 1)" arbitrary: op ps op' rs rs' rule: less_induct)
  case less
  let ?R = "builtin_registry L"
  have IH: "ss' = filter (all_satisfied session qs) ss"
    if "s \<in> set (children_mut op)" "pushdown ?R s qs = Some s'" "filters_apart (qs \<noteq> []) s" "list_all movable qs"
      "meaning session env s = Some ss" "meaning session env s' = Some ss'" for s s' qs ss ss'
  proof -
    have "everywhere movable_op s" using less.prems(3) that(1) by (auto simp: everywhere_iff [of _ op] list_all_iff)
    then show ?thesis using less.hyps [OF child_rank [OF that(1), of qs ps] that(2,3) _ that(4-6)] by blast
  qed
  have apart: "filters_apart b s" if "filters_apart True s" for b s using that by (rule filters_apart_mono)
  note prems = less.prems
  show ?case
  proof (cases "transparent op")
    case False
    show ?thesis
    proof (cases "ps = []")
      case True
      have same: "ss' = ss" if "s \<in> set (children_mut op)" "pushdown ?R s [] = Some s'" "filters_apart False s"
          "meaning session env s = Some ss" "meaning session env s' = Some ss'" for s s' ss ss'
        using IH [OF that(1,2) _ _ that(4,5)] that(3) by simp
      show ?thesis
      proof (cases op)
        case (L_GroupBy es ks s)
        then obtain s' ss ss' where "pushdown ?R s [] = Some s'" "op' = L_GroupBy es ks s'" "meaning session env s = Some ss" "meaning session env s' = Some ss'"
          using less.prems True by (auto simp: pushdown_other split: option.split_asm)
        then show ?thesis using same [of s s' ss ss'] less.prems(2,5,6) True L_GroupBy by simp
      next
        case (L_Limit k n s)
        then obtain s' ss ss' where "pushdown ?R s [] = Some s'" "op' = L_Limit k n s'" "meaning session env s = Some ss" "meaning session env s' = Some ss'"
          using less.prems True by (auto simp: pushdown_other split: option.split_asm)
        then show ?thesis using same [of s s' ss ss'] less.prems(2,5,6) True L_Limit by simp
      next
        case (L_TableAlias n s)
        then obtain s' ss ss' where "pushdown ?R s [] = Some s'" "op' = L_TableAlias n s'" "meaning session env s = Some ss" "meaning session env s' = Some ss'"
          using less.prems True by (auto simp: pushdown_other split: option.split_asm)
        then show ?thesis using same [of s s' ss ss'] less.prems(2,5,6) True L_TableAlias by simp
      qed (use less.prems True False in \<open>auto simp: pushdown_other\<close>)
    next
      case ps: False
      then obtain p op2 where op2: "op' = L_Filter p op2" "pushdown ?R op [] = Some op2" "combine_predicates ?R ps = Some p"
        using less.prems(1) by (auto simp: pushdown_other [OF False] bind_eq_Some_conv)
      have "filters_apart False op" using False less.prems(2) by (cases op) auto
      then have "meaning session env op2 = Some rs" using less.hyps [of op "[]" op2 rs] ps less.prems(3,5,6) op2
        by (auto simp: bind_eq_Some_conv split: if_split_asm)
      then show ?thesis using less.prems(6) op2(1) combine_satisfied(1) [OF op2(3) less.prems(4)] by (auto split: if_split_asm)
    qed
  next
    case True
    show ?thesis
    proof (cases op)
      case (L_Filter p s)
      then have "ps = []" "filters_apart True s" "movable p" using less.prems(2,3) by auto
      moreover obtain ss where "meaning session env s = Some ss" "rs = filter (\<lambda>r. satisfies session p (fst r)) ss"
        using meaning_filter less.prems(5) L_Filter by metis
      ultimately show ?thesis
        using L_Filter less.prems(1,6) IH [of s "decompose_predicate p" op' ss rs'] apart [of s] decompose_movable [of p] decompose_satisfied [of p session]
        by (simp add: pushdown_simps cong: filter_cong)
    next
      case (L_Sort es s)
      then show ?thesis using less.prems IH [of s ps] by (auto simp: pushdown_simps filter_sort)
    next
      case (L_NegateFreq s)
      then obtain s' ss ss' where s: "pushdown ?R s ps = Some s'" "op' = L_NegateFreq s'" "meaning session env s = Some ss" "meaning session env s' = Some ss'"
        using less.prems by (auto simp: pushdown_simps)
      then have "ss' = filter (all_satisfied session ps) ss" using IH [of s ps s' ss ss'] less.prems(2,4) L_NegateFreq by simp
      then show ?thesis using less.prems(5,6) s L_NegateFreq by (auto simp: filter_map comp_def all_satisfied_def [abs_def])
    next
      case (L_Project d es s)
      let ?src = "map ne_expression es"
      obtain qs s' where qs: "if ps = [] then qs = [] else those (map (inline_expression ?src) ps) = Some qs"
        and s': "pushdown ?R s qs = Some s'" "op' = L_Project d es s'"
        using less.prems(1) L_Project by (auto simp: pushdown_simps bind_eq_Some_conv split: if_split_asm)
      have inl: "list_all2 (\<lambda>p q. inline_expression ?src p = Some q) ps qs" using qs by (auto simp: those_list_all2 split: if_split_asm)
      have src: "list_all movable ?src" using less.prems(3) L_Project by (simp add: list.pred_map comp_def)
      obtain ss ss' where ss: "meaning session env s = Some ss" "list_all2 (\<lambda>r r'. project_row session ?src r = Some r') ss rs"
          "meaning session env s' = Some ss'" "list_all2 (\<lambda>r r'. project_row session ?src r = Some r') ss' rs'"
        using less.prems(5,6) L_Project s'(2) by (auto simp: bind_eq_Some_conv those_list_all2)
      have "list_all movable qs" by (rule list_all2_list_all [OF inl less.prems(4)]) (use src movable_inline in blast)
      moreover have "qs = [] \<longleftrightarrow> ps = []" using inl by (cases ps; cases qs) auto
      then have "filters_apart (qs \<noteq> []) s" using less.prems(2) L_Project by simp
      ultimately have "ss' = filter (all_satisfied session qs) ss" using IH [OF _ s'(1) _ _ ss(1,3)] L_Project by simp
      moreover have "all_satisfied session qs r \<longleftrightarrow> all_satisfied session ps r'" if "project_row session ?src r = Some r'" for r r'
        using inl less.prems(4) by (induction rule: list_all2_induct) (auto simp: inline_satisfies [OF that _ _ src])
      ultimately show ?thesis using ss(2,4) project_filter by blast
    next
      case (L_UnionAll ss)
      obtain ss' where ss': "list_all2 (\<lambda>s s'. pushdown ?R s ps = Some s') ss ss'" "op' = L_UnionAll ss'"
        using less.prems(1) L_UnionAll by (auto simp: pushdown_simps those_list_all2)
      obtain rss rss' where rss: "list_all2 (\<lambda>s rs. meaning session env s = Some rs) ss rss" "rs = concat rss"
          "list_all2 (\<lambda>s rs. meaning session env s = Some rs) ss' rss'" "rs' = concat rss'"
        using less.prems(5,6) L_UnionAll ss'(2) by (auto simp: those_list_all2)
      have "rss' ! i = filter (all_satisfied session ps) (rss ! i)" if i: "i < length ss" for i
        by (rule IH [of "ss ! i" ps "ss' ! i"])
           (use i ss' rss less.prems(2,4) L_UnionAll in \<open>auto simp: list_all2_conv_all_nth list_all_length\<close>)
      then have "rss' = map (filter (all_satisfied session ps)) rss"
        using ss'(1) rss(1,3) by (auto simp: list_all2_conv_all_nth list_eq_iff_nth_eq)
      then show ?thesis by (simp add: rss(2,4) filter_concat)
    next
      case (L_Join l r c join_type)
      then have lr: "filters_apart b l" "filters_apart b r" "movable c" for b using less.prems(2,3) apart by auto
      show ?thesis
        by (rule pushdown_join_rows [OF less.prems(1) [unfolded L_Join] lr(3) less.prems(4) less.prems(5) [unfolded L_Join] less.prems(6)])
           (rule IH; simp add: L_Join lr(1,2))+
    qed (use True in auto)
  qed
qed



text \<open>A filter below a filter: the outer predicate is lost.\<close>

lemma nested_filter_dropped:
  "predicate_pushdown registry (L_Filter p (L_Filter true_expression L_Single)) = Some L_Single"
  by (simp add: predicate_pushdown_def pushdown_simps pushdown_other true_expression_def)

section \<open>Collapsing projects\<close>

lemma project_project:
  assumes "project_row session src r = Some r1" "project_row session es r1 = Some r2" "list_all movable es"
    "list_all2 (\<lambda>e e'. inline_expression src e = Some e') es es'"
  shows "project_row session es' r = Some r2"
proof -
  obtain vals where vals: "eval_all session src (fst r) = Some vals" "r1 = (map norm vals, snd r)" using assms(1) by (auto simp: project_row_def)
  have "list_all2 (\<lambda>e' e. map_option norm (eval_scalar session (fst r) e') = map_option norm (eval_scalar session (map norm vals) e)) es' es"
    using assms(3,4) movable_inline_value [OF vals(1)] by (auto simp: list_all2_conv_all_nth list_all_length movable_norm)
  from eval_all_norm_cong [OF this] show ?thesis using assms(2) by (cases "eval_all session es' (fst r)") (auto simp: project_row_def vals(2))
qed

lemma collapse_here_rows:
  assumes "collapse_here op = (Some (Inr op') :: ('e, 'd logical_operator) outcome)" "movable_op op" "meaning session env op = Some rs"
  shows "meaning session env op' = Some rs"
proof (cases "\<exists>d es d' es2 s. op = L_Project d es (L_Project d' es2 s)")
  case True
  then obtain d es d' es2 s where op: "op = L_Project d es (L_Project d' es2 s)" by blast
  obtain es' where es': "op' = L_Project d es' s"
      "list_all2 (\<lambda>ne ne'. \<exists>e. inline_expression (map ne_expression es2) (ne_expression ne) = Some e \<and> ne\<lparr>ne_expression := e\<rparr> = ne') es es'"
    using assms(1) op by (auto simp: those_list_all2)
  have inl: "list_all2 (\<lambda>e e'. inline_expression (map ne_expression es2) e = Some e') (map ne_expression es) (map ne_expression es')"
    using es'(2) by (auto simp: list_all2_map1 list_all2_map2 elim!: list_all2_mono)
  obtain ss rs1 where ss: "meaning session env s = Some ss" "list_all2 (\<lambda>r r'. project_row session (map ne_expression es2) r = Some r') ss rs1"
      "list_all2 (\<lambda>r r'. project_row session (map ne_expression es) r = Some r') rs1 rs"
    using assms(3) op by (auto simp: bind_eq_Some_conv those_list_all2)
  have "list_all2 (\<lambda>r r'. project_row session (map ne_expression es') r = Some r') ss rs"
    using list_all2_trans [OF _ ss(2,3)] project_project [OF _ _ _ inl] assms(2) op by (simp add: list.pred_map comp_def)
  then show ?thesis using ss(1) es'(1) by (simp add: those_list_all2)
next
  case False
  then have "collapse_here op = (Some (Inr op) :: ('e, 'd logical_operator) outcome)" by (cases op rule: collapse_here.cases) auto
  then show ?thesis using assms by simp
qed


lemma collapse_here_fieldnames:
  "collapse_here op = (Some (Inr op') :: ('e, 'd logical_operator) outcome) \<Longrightarrow> fieldnames_for_operator op' = fieldnames_for_operator op"
proof (cases op rule: collapse_here.cases)
  case (1 d es d' es2 s)
  assume "collapse_here op = (Some (Inr op') :: ('e, 'd logical_operator) outcome)"
  then obtain es' where es': "op' = L_Project d es' s"
      "list_all2 (\<lambda>ne ne'. \<exists>e. inline_expression (map ne_expression es2) (ne_expression ne) = Some e \<and> ne\<lparr>ne_expression := e\<rparr> = ne') es es'"
    using 1 by (auto simp: those_list_all2)
  have "map ne_alias es' = map ne_alias es" using es'(2) by (induction rule: list_all2_induct) auto
  then have "map (\<lambda>ne. map_option (Pair None) (ne_alias ne)) es' = (map (\<lambda>ne. map_option (Pair None) (ne_alias ne)) es :: (string option \<times> string) option list)"
    by (metis (no_types, lifting) list.map_comp comp_def map_eq_conv)
  then show ?thesis using 1 es'(1) by (simp only: fieldnames_for_operator.simps)
qed auto

text \<open>Operators with children of the same rows and names have the same rows.\<close>

lemma fieldnames_with_children:
  "list_all2 (\<lambda>c c'. fieldnames_for_operator c' = fieldnames_for_operator c) (children_mut op) cs \<Longrightarrow>
    fieldnames_for_operator (with_children op cs) = fieldnames_for_operator op"
  by (cases op) (auto simp: list_all2_Cons1 split: list.splits)

lemma meaning_with_children:
  assumes "list_all2 (\<lambda>c c'. fieldnames_for_operator c' = fieldnames_for_operator c) (children_mut op) cs"
    "list_all2 (\<lambda>c c'. meaning session env c \<noteq> None \<longrightarrow> meaning session env c' = meaning session env c) (children_mut op) cs"
    and m: "meaning session env op = Some rs"
  shows "meaning session env (with_children op cs) = Some rs"
proof (cases op)
  case (L_UnionAll ss)
  then obtain rss where "list_all2 (\<lambda>s rs. meaning session env s = Some rs) ss rss" "rs = concat rss" using m by (auto simp: those_list_all2)
  then have "list_all2 (\<lambda>s rs. meaning session env s = Some rs) cs rss" using assms(2) L_UnionAll by (auto simp: list_all2_conv_all_nth)
  then show ?thesis using L_UnionAll \<open>rs = concat rss\<close> by (auto simp: those_list_all2)
qed (use assms in \<open>auto simp: list_all2_Cons1 bind_eq_Some_conv split: if_split_asm\<close>)

lemma movable_with_children [simp]: "movable_op (with_children op cs) = movable_op op"
  by (cases op) auto

text \<open>C21. Collapsing nested projections keeps the rows of a query: a query that does not panic has the same
  rows after the outer expressions of every pair of projections have been inlined.\<close>

theorem collapse_projects_equivalent:
  fixes query :: "'d logical_operator"
  assumes "collapse_projects query = (Some (Inr query') :: ('e, 'd logical_operator) outcome)" "everywhere movable_op query"
    "meaning session env query = Some rs"
  shows "meaning session env query' = Some rs"
proof -
  have "fieldnames_for_operator query' = fieldnames_for_operator query \<and>
      (everywhere movable_op query \<longrightarrow> meaning session env query \<noteq> None \<longrightarrow> meaning session env query' = meaning session env query)"
    using assms(1) unfolding collapse_projects_def
  proof (induction rule: walk_induct)
    case (visit op cs op')
    have same: "list_all2 (\<lambda>c c'. fieldnames_for_operator c' = fieldnames_for_operator c) (children_mut op) cs"
      using visit(1) by (rule list_all2_mono) simp
    have "meaning session env op' = Some rs" if "everywhere movable_op op" "meaning session env op = Some rs" for rs
    proof -
      have "list_all2 (\<lambda>c c'. meaning session env c \<noteq> None \<longrightarrow> meaning session env c' = meaning session env c) (children_mut op) cs"
        using visit(1) by (rule list.rel_mono_strong) (use that(1) in \<open>auto simp: everywhere_iff [of _ op] list_all_iff\<close>)
      from meaning_with_children [OF same this that(2)] show ?thesis
        using collapse_here_rows [OF visit(2)] everywhere_here [OF that(1)] by simp
    qed
    then show ?case using collapse_here_fieldnames [OF visit(2)] fieldnames_with_children [OF same] by auto
  qed
  then show ?thesis using assms(2,3) by simp
qed


text \<open>An example: the rows of a table that are NULL in a projected column.\<close>

definition example_is_null :: "ref_decimal expression" where
  "example_is_null = CompiledFunctionCall IsNull [CompiledColumnReference 0 T_Integer]
     \<lparr>sig_name = ''is_null'', sig_args = [T_Integer], sig_ret = T_Boolean\<rparr>"

definition example_column :: "string \<Rightarrow> ref_decimal named_expression" where
  "example_column name = \<lparr>ne_alias = Some name, ne_expression = CompiledColumnReference 0 T_Integer\<rparr>"

definition row_example_source :: "ref_decimal logical_operator" where
  "row_example_source = L_ResolvedTable [(''x'', T_Integer)] \<lparr>t_id = 6, t_length = 1, t_pk = [Asc]\<rparr>"

definition row_example_env :: "ref_decimal row_env" where
  "row_example_env = \<lparr>re_table = (\<lambda>_. [([D_Integer 1], 1), ([D_Null], 3)]), re_file = (\<lambda>_ _. []), re_group = (\<lambda>_ _ _. []),
     re_limit = (\<lambda>_ _ rs. rs), re_sort = (\<lambda>_ _. [])\<rparr>"

lemmas example_simps = example_is_null_def example_column_def row_example_source_def row_example_env_def project_row_def evaluates_def satisfies_def
  IsNull_def arg_def

lemma example_pushdown:
  "predicate_pushdown (builtin_registry example_lib) (L_Filter example_is_null (L_Project False [example_column ''y''] row_example_source)) =
     Some (L_Project False [example_column ''y''] (L_Filter example_is_null row_example_source))"
  by (simp add: predicate_pushdown_def pushdown_simps pushdown_other combine_predicates_def resolve_and example_simps)


theorem collapse_projects_equivalent_witness:
  "meaning (session_new 0) row_example_env (L_Project False [example_column ''z''] row_example_source) = Some [([D_Integer 1], 1), ([D_Null], 3)]"
proof (rule collapse_projects_equivalent)
  show "collapse_projects (L_Project False [example_column ''z''] (L_Project False [example_column ''y''] row_example_source)) =
      (Some (Inr (L_Project False [example_column ''z''] row_example_source)) :: (unit, ref_decimal logical_operator) outcome)"
    by (simp add: collapse_projects_def example_simps)
qed (simp_all add: example_simps)


section \<open>Joins\<close>

text \<open>Normalizing a join puts a key column before the columns of each side, but the parts of the condition
  that are not equalities of the two sides keep their offsets: they then read other columns.  Here the
  condition asks for NULL in the last column of the right side and reads the key after the rewriting.\<close>

definition example_join :: "ref_decimal logical_operator" where
  "example_join = L_Join (L_ResolvedTable [(''x'', T_Integer)] \<lparr>t_id = 6, t_length = 1, t_pk = [Asc]\<rparr>)
     (L_ResolvedTable [(''a'', T_Integer), (''b'', T_Integer)] \<lparr>t_id = 8, t_length = 2, t_pk = [Asc]\<rparr>)
     (CompiledFunctionCall And
       [CompiledFunctionCall (Eq ref_decimal_ops) [CompiledColumnReference 0 T_Integer, CompiledColumnReference 1 T_Integer]
          \<lparr>sig_name = ''='', sig_args = [T_Integer, T_Integer], sig_ret = T_Boolean\<rparr>,
        CompiledFunctionCall IsNull [CompiledColumnReference 2 T_Integer] \<lparr>sig_name = ''is_null'', sig_args = [T_Integer], sig_ret = T_Boolean\<rparr>]
       \<lparr>sig_name = ''and'', sig_args = [T_Boolean, T_Boolean], sig_ret = T_Boolean\<rparr>) Inner"

definition join_env :: "ref_decimal row_env" where
  "join_env = row_example_env\<lparr>re_table := (\<lambda>t. if t_id t = 6 then [([D_Integer 1], 1)] else [([D_Integer 1, D_Null], 1)])\<rparr>"

lemma normalize_joins_loses_rows:
  "meaning (session_new 0) join_env example_join = Some [([D_Integer 1, D_Integer 1, D_Null], 1)] \<and>
   (\<exists>q. normalize_joins (builtin_registry example_lib) example_join = (Some (Inr q) :: (unit, ref_decimal logical_operator) outcome) \<and>
     meaning (session_new 0) join_env q = Some [])"
proof -
  have "meaning (session_new 0) join_env example_join = Some [([D_Integer 1, D_Integer 1, D_Null], 1)]"
    by (simp add: example_join_def join_env_def example_simps join_rows_def joined_def And_def Eq_def compare_def binary_def)
  moreover have "\<exists>q. normalize_joins (builtin_registry example_lib) example_join = (Some (Inr q) :: (unit, ref_decimal logical_operator) outcome) \<and>
     meaning (session_new 0) join_env q = Some []"
    by (simp add: normalize_joins_def example_join_def join_env_def example_simps join_rows_def joined_def And_def Eq_def compare_def binary_def
      combine_predicates_def resolve_and merge_min_max_def map_filter_def create_wrapping_project_def remove_keys_def Let_def)
  ultimately show ?thesis by blast
qed

end
