(* ===== verification/Explain.thy ===== *)
theory Explain
  imports Optimization
begin

text \<open>
  Printing of expressions as SQL (\<open>ast/src/expr.rs\<close>) and of query plans as the rows of a table
  (\<open>planner/src/explain\<close>).  The escaping of a string literal by Rust's \<open>Debug\<close> is a parameter.  The
  lemmas show that a query whose expressions are typed and named can always be explained, and that
  the rows of the explanation are a well typed table of texts.
\<close>

section \<open>Printing expressions\<close>

text \<open>The regular expression \<open>^([a-z]|_)([a-z,0-9]|_)*$\<close> as it stands: the comma belongs to the second class.\<close>

definition identifier_start :: "char \<Rightarrow> bool" where
  "identifier_start c \<longleftrightarrow> c \<in> set ''abcdefghijklmnopqrstuvwxyz'' \<or> c = CHR ''_''"

definition identifier_ok :: "string \<Rightarrow> bool" where
  "identifier_ok s =
     (case s of [] \<Rightarrow> False
      | c # cs \<Rightarrow> identifier_start c \<and> list_all (\<lambda>c. identifier_start c \<or> c \<in> set '',0123456789'') cs)"

definition quote_identifier :: "string \<Rightarrow> bytes" where
  "quote_identifier s = (if identifier_ok s then str_bytes s else str_bytes ''`'' @ str_bytes s @ str_bytes ''`'')"

text \<open>\<open>Display for TypedDatum\<close> with the alternate flag: texts are quoted, and so are the digits of other byte strings.\<close>

definition typed_to_sql :: "('d, 'n, 't) function_lib \<Rightarrow> (bytes \<Rightarrow> bytes) \<Rightarrow> data_type \<Rightarrow> 'd datum \<Rightarrow> bytes option" where
  "typed_to_sql L debug dt d =
     (case as_maybe_bytea d of
        None \<Rightarrow> typed_to_string L dt d
      | Some bs \<Rightarrow>
          (case dt of
             T_Text \<Rightarrow> Some (debug bs)
           | T_Json \<Rightarrow> typed_to_string L dt d
           | _ \<Rightarrow> Some (str_bytes [CHR 34] @ concat (map lower_hex bs) @ str_bytes [CHR 34])))"

fun join_bytes :: "bytes \<Rightarrow> bytes list \<Rightarrow> bytes" where
  "join_bytes sep [] = []"
| "join_bytes sep [x] = x"
| "join_bytes sep (x # xs) = x @ sep @ join_bytes sep xs"

definition column_reference_to_string :: "column_reference \<Rightarrow> bytes" where
  "column_reference_to_string c =
     (case cr_qualifier c of None \<Rightarrow> [] | Some q \<Rightarrow> quote_identifier q @ str_bytes ''.'') @ quote_identifier (cr_alias c)"

definition call_to_string :: "string \<Rightarrow> bytes list \<Rightarrow> bytes" where
  "call_to_string name args = quote_identifier name @ str_bytes ''('' @ join_bytes (str_bytes '', '') args @ str_bytes '')''"

fun expression_to_string :: "('d, 'n, 't) function_lib \<Rightarrow> (bytes \<Rightarrow> bytes) \<Rightarrow> 'd expression \<Rightarrow> bytes option" where
  "expression_to_string L debug (Constant d dt) = typed_to_sql L debug dt d"
| "expression_to_string L debug (Cast e dt) =
     map_option (\<lambda>s. str_bytes ''CAST('' @ s @ str_bytes '' AS '' @ data_type_to_string dt @ str_bytes '')'') (expression_to_string L debug e)"
| "expression_to_string L debug (FunctionCall name args) =
     map_option (call_to_string name) (those (map (expression_to_string L debug) args))"
| "expression_to_string L debug (CompiledFunctionCall f args sig) =
     map_option (call_to_string (sig_name sig)) (those (map (expression_to_string L debug) args))"
| "expression_to_string L debug (CompiledAggregate f args sig) =
     map_option (call_to_string (sig_name sig)) (those (map (expression_to_string L debug) args))"
| "expression_to_string L debug (ColumnReference c) = Some (column_reference_to_string c)"
| "expression_to_string L debug (CompiledColumnReference i dt) =
     Some (str_bytes ''<OFFSET '' @ nat_digits i @ str_bytes ''>'')"

definition named_expression_to_string :: "('d, 'n, 't) function_lib \<Rightarrow> (bytes \<Rightarrow> bytes) \<Rightarrow> 'd named_expression \<Rightarrow> bytes option" where
  "named_expression_to_string L debug ne =
     map_option (\<lambda>s. case ne_alias ne of None \<Rightarrow> s | Some alias \<Rightarrow> s @ str_bytes '' AS '' @ quote_identifier alias)
       (expression_to_string L debug (ne_expression ne))"

definition sort_order_to_string :: "sort_order \<Rightarrow> bytes" where
  "sort_order_to_string so = str_bytes (case so of Asc \<Rightarrow> ''ASC'' | Desc \<Rightarrow> ''DESC'')"

section \<open>Nodes\<close>

fun node_name :: "'d logical_operator \<Rightarrow> bytes" where
  "node_name L_Single = str_bytes ''SINGLE''"
| "node_name (L_GroupBy es ks s) = str_bytes ''GROUP''"
| "node_name (L_Project d es s) = str_bytes ''PROJECT''"
| "node_name (L_Sort es s) = str_bytes ''SORT''"
| "node_name (L_Values fs data) = str_bytes ''VALUES''"
| "node_name (L_ResolvedTable columns t) = str_bytes ''TABLE''"
| "node_name (L_TableReference db t) = str_bytes ''TABLE''"
| "node_name (L_Filter p s) = str_bytes ''FILTER''"
| "node_name (L_Limit k l s) = str_bytes ''LIMIT''"
| "node_name (L_TableAlias a s) = node_name s @ str_bytes ''('' @ str_bytes a @ str_bytes '')''"
| "node_name (L_UnionAll ss) = str_bytes ''UNION_ALL''"
| "node_name (L_TableInsert t s) = str_bytes ''INSERT''"
| "node_name (L_NegateFreq s) = str_bytes ''NEGATE''"
| "node_name (L_FileScan d opts) = str_bytes ''FILE_SCAN''"
| "node_name (L_Join l r c t) = str_bytes ''JOIN''"

fun node_expressions :: "'d logical_operator \<Rightarrow> 'd named_expression list" where
  "node_expressions (L_TableAlias a s) = node_expressions s"
| "node_expressions (L_Project d es s) = es"
| "node_expressions (L_GroupBy es ks s) = es"
| "node_expressions _ = []"

fun table_columns :: "'d logical_operator \<Rightarrow> (string \<times> data_type) list" where
  "table_columns (L_TableAlias a s) = table_columns s"
| "table_columns (L_ResolvedTable columns t) = columns"
| "table_columns (L_FileScan d opts) = [(''data'', T_Json)]"
| "table_columns _ = []"

fun limit_offset :: "'d logical_operator \<Rightarrow> (i64 \<times> i64) option" where
  "limit_offset (L_TableAlias a s) = limit_offset s"
| "limit_offset (L_Limit offset limit s) = Some (limit, offset)"
| "limit_offset _ = None"

fun node_predicate :: "'d logical_operator \<Rightarrow> 'd expression option" where
  "node_predicate (L_TableAlias a s) = node_predicate s"
| "node_predicate (L_Filter p s) = Some p"
| "node_predicate (L_Join l r c t) = Some c"
| "node_predicate _ = None"

fun node_sort_expressions :: "'d logical_operator \<Rightarrow> 'd sort_expression list" where
  "node_sort_expressions (L_TableAlias a s) = node_sort_expressions s"
| "node_sort_expressions (L_Sort es s) = es"
| "node_sort_expressions _ = []"

fun grouping_keys :: "'d logical_operator \<Rightarrow> 'd expression list" where
  "grouping_keys (L_TableAlias a s) = grouping_keys s"
| "grouping_keys (L_GroupBy es ks s) = ks"
| "grouping_keys _ = []"

fun child_nodes :: "'d logical_operator \<Rightarrow> (bytes \<times> 'd logical_operator) list" where
  "child_nodes (L_GroupBy es ks s) = [(str_bytes ''source'', s)]"
| "child_nodes (L_Project d es s) = [(str_bytes ''source'', s)]"
| "child_nodes (L_Sort es s) = [(str_bytes ''source'', s)]"
| "child_nodes (L_Join l r c t) = [(str_bytes ''left'', l), (str_bytes ''right'', r)]"
| "child_nodes (L_Filter p s) = [(str_bytes ''source'', s)]"
| "child_nodes (L_Limit k l s) = [(str_bytes ''source'', s)]"
| "child_nodes (L_TableAlias a s) = child_nodes s"
| "child_nodes (L_UnionAll ss) = map (\<lambda>(idx, child). (str_bytes ''source_'' @ nat_digits idx, child)) (List.enumerate 0 ss)"
| "child_nodes (L_TableInsert t s) = [(str_bytes ''source'', s)]"
| "child_nodes (L_NegateFreq s) = [(str_bytes ''source'', s)]"
| "child_nodes _ = []"

section \<open>Rendering\<close>

text \<open>The padding is a stack of pads, printed from its bottom.\<close>

type_synonym padding = "bytes list"

definition padding_push :: "string \<Rightarrow> padding \<Rightarrow> padding" where
  "padding_push p self = self @ [str_bytes p]"

definition padding_pop :: "padding \<Rightarrow> padding" where
  "padding_pop self = butlast self"

record explain_line =
  el_tree :: bytes
  el_column_idx :: "nat option"
  el_expression_type :: "data_type option"
  el_expression :: "bytes option"

definition tree_only :: "padding \<Rightarrow> bytes \<Rightarrow> explain_line" where
  "tree_only padding tree = \<lparr>el_tree = concat padding @ tree, el_column_idx = None, el_expression_type = None, el_expression = None\<rparr>"

definition full_line :: "padding \<Rightarrow> bytes \<Rightarrow> nat \<Rightarrow> data_type \<Rightarrow> bytes \<Rightarrow> explain_line" where
  "full_line padding tree idx dt expression =
     \<lparr>el_tree = concat padding @ tree, el_column_idx = Some idx, el_expression_type = Some dt, el_expression = Some expression\<rparr>"

definition expr_only :: "padding \<Rightarrow> data_type \<Rightarrow> bytes \<Rightarrow> explain_line" where
  "expr_only padding dt expression =
     \<lparr>el_tree = concat padding, el_column_idx = None, el_expression_type = Some dt, el_expression = Some expression\<rparr>"

text \<open>The lines and the padding are the state; \<open>None\<close> is the panic of an expression with no alias, of the type of
  an expression that is not compiled, or of the printing of a value.\<close>

type_synonym rendering = "explain_line list \<times> padding"

definition push_line :: "(padding \<Rightarrow> explain_line) \<Rightarrow> rendering \<Rightarrow> rendering" where
  "push_line line st = (fst st @ [line (snd st)], snd st)"

definition push_pad :: "string \<Rightarrow> rendering \<Rightarrow> rendering" where
  "push_pad p st = (fst st, padding_push p (snd st))"

definition pop_pad :: "rendering \<Rightarrow> rendering" where
  "pop_pad st = (fst st, padding_pop (snd st))"

fun push_lines :: "('a \<Rightarrow> padding \<Rightarrow> explain_line option) \<Rightarrow> 'a list \<Rightarrow> rendering \<Rightarrow> rendering option" where
  "push_lines line [] st = Some st"
| "push_lines line (x # xs) st =
     Option.bind (line x (snd st)) (\<lambda>l. push_lines line xs (push_line (\<lambda>_. l) st))"

definition typed_line :: "('d, 'n, 't) function_lib \<Rightarrow> (bytes \<Rightarrow> bytes) \<Rightarrow> 'd expression \<Rightarrow> (data_type \<Rightarrow> bytes \<Rightarrow> 'l) \<Rightarrow> 'l option" where
  "typed_line L debug e line =
     Option.bind (type_for_expression e) (\<lambda>dt. map_option (line dt) (expression_to_string L debug e))"

definition output_line :: "('d, 'n, 't) function_lib \<Rightarrow> (bytes \<Rightarrow> bytes) \<Rightarrow> nat \<times> 'd named_expression \<Rightarrow> padding \<Rightarrow> explain_line option" where
  "output_line L debug = (\<lambda>(idx, ne) padding.
     Option.bind (ne_alias ne) (\<lambda>alias. typed_line L debug (ne_expression ne) (full_line padding (str_bytes alias) idx)))"

definition column_line :: "nat \<times> string \<times> data_type \<Rightarrow> padding \<Rightarrow> explain_line option" where
  "column_line = (\<lambda>(idx, alias, dt) padding. Some (full_line padding (str_bytes alias) idx dt []))"

definition key_line :: "('d, 'n, 't) function_lib \<Rightarrow> (bytes \<Rightarrow> bytes) \<Rightarrow> 'd expression \<Rightarrow> padding \<Rightarrow> explain_line option" where
  "key_line L debug e padding = typed_line L debug e (expr_only padding)"

definition sort_line :: "('d, 'n, 't) function_lib \<Rightarrow> (bytes \<Rightarrow> bytes) \<Rightarrow> 'd sort_expression \<Rightarrow> padding \<Rightarrow> explain_line option" where
  "sort_line L debug se padding =
     typed_line L debug (se_expression se) (\<lambda>dt s. expr_only padding dt
       (s @ str_bytes '' ('' @ sort_order_to_string (se_ordering se) @ str_bytes '')''))"

definition render_outputs :: "('d, 'n, 't) function_lib \<Rightarrow> (bytes \<Rightarrow> bytes) \<Rightarrow> 'd logical_operator \<Rightarrow> rendering \<Rightarrow> rendering option" where
  "render_outputs L debug node st =
     (if node_expressions node = [] then Some st
      else map_option pop_pad (push_lines (output_line L debug) (List.enumerate 0 (node_expressions node))
        (push_pad ''  '' (push_line (\<lambda>p. tree_only p (str_bytes ''output_exprs:'')) st))))"

definition render_columns :: "'d logical_operator \<Rightarrow> rendering \<Rightarrow> rendering option" where
  "render_columns node st =
     (if table_columns node = [] then Some st
      else map_option pop_pad (push_lines column_line (List.enumerate 0 (table_columns node))
        (push_pad ''  '' (push_line (\<lambda>p. tree_only p (str_bytes ''columns:'')) st))))"

definition render_limit :: "'d logical_operator \<Rightarrow> rendering \<Rightarrow> rendering option" where
  "render_limit node st =
     (case limit_offset node of
        None \<Rightarrow> Some st
      | Some (limit, offset) \<Rightarrow>
          Some (push_line (\<lambda>p. tree_only p (str_bytes ''offset: '' @ int_to_string (sint offset)))
            (push_line (\<lambda>p. tree_only p (str_bytes ''limit: '' @ int_to_string (sint limit))) st)))"

definition render_predicate :: "('d, 'n, 't) function_lib \<Rightarrow> (bytes \<Rightarrow> bytes) \<Rightarrow> 'd logical_operator \<Rightarrow> rendering \<Rightarrow> rendering option" where
  "render_predicate L debug node st =
     (case node_predicate node of
        None \<Rightarrow> Some st
      | Some e \<Rightarrow> push_lines (key_line L debug) [e] (push_line (\<lambda>p. tree_only p (str_bytes ''predicate:'')) st))"

definition render_keys :: "('d, 'n, 't) function_lib \<Rightarrow> (bytes \<Rightarrow> bytes) \<Rightarrow> 'd logical_operator \<Rightarrow> rendering \<Rightarrow> rendering option" where
  "render_keys L debug node st =
     (if grouping_keys node = [] then Some st
      else push_lines (key_line L debug) (grouping_keys node) (push_line (\<lambda>p. tree_only p (str_bytes ''group_keys:'')) st))"

definition render_sorts :: "('d, 'n, 't) function_lib \<Rightarrow> (bytes \<Rightarrow> bytes) \<Rightarrow> 'd logical_operator \<Rightarrow> rendering \<Rightarrow> rendering option" where
  "render_sorts L debug node st =
     (if node_sort_expressions node = [] then Some st
      else map_option pop_pad (push_lines (sort_line L debug) (node_sort_expressions node)
        (push_pad ''  '' (push_line (\<lambda>p. tree_only p (str_bytes ''sort_exprs:'')) st))))"

text \<open>The recursion goes down the tree of operators: an alias is rendered as its source.\<close>

fun operator_count :: "'d logical_operator \<Rightarrow> nat" where
  "operator_count (L_Project d es s) = Suc (operator_count s)"
| "operator_count (L_GroupBy es ks s) = Suc (operator_count s)"
| "operator_count (L_Filter p s) = Suc (operator_count s)"
| "operator_count (L_Limit k l s) = Suc (operator_count s)"
| "operator_count (L_Sort es s) = Suc (operator_count s)"
| "operator_count (L_TableAlias n s) = Suc (operator_count s)"
| "operator_count (L_TableInsert t s) = Suc (operator_count s)"
| "operator_count (L_UnionAll ss) = Suc (sum_list (map operator_count ss))"
| "operator_count (L_NegateFreq s) = Suc (operator_count s)"
| "operator_count (L_Join l r c t) = Suc (operator_count l + operator_count r)"
| "operator_count op = 1"

lemma operator_count_pos: "0 < operator_count op"
  by (cases op) auto

lemma map_enumerate_snd: "map (\<lambda>x. f (snd x)) (List.enumerate n xs) = map f xs"
  by (induction xs arbitrary: n) auto

lemma child_nodes_count: "sum_list (map (\<lambda>c. operator_count (snd c)) (child_nodes op)) < operator_count op"
  by (induction op rule: child_nodes.induct) (simp_all add: comp_def case_prod_beta map_enumerate_snd)

function render_node :: "('d, 'n, 't) function_lib \<Rightarrow> (bytes \<Rightarrow> bytes) \<Rightarrow> 'd logical_operator \<Rightarrow> rendering \<Rightarrow> rendering option"
  and render_sources :: "('d, 'n, 't) function_lib \<Rightarrow> (bytes \<Rightarrow> bytes) \<Rightarrow> (bytes \<times> 'd logical_operator) list \<Rightarrow> rendering \<Rightarrow> rendering option" where
  "render_node L debug node st =
     Option.bind (render_outputs L debug node (push_pad '' |'' (push_line (\<lambda>p. tree_only p (node_name node)) st))) (\<lambda>st.
     Option.bind (render_columns node st) (\<lambda>st.
     Option.bind (render_limit node st) (\<lambda>st.
     Option.bind (render_predicate L debug node st) (\<lambda>st.
     Option.bind (render_keys L debug node st) (\<lambda>st.
     Option.bind (render_sorts L debug node st) (\<lambda>st.
     map_option pop_pad (render_sources L debug (child_nodes node) st)))))))"
| "render_sources L debug [] st = Some st"
| "render_sources L debug (c # cs) st =
     Option.bind (render_node L debug (snd c) (push_pad ''  '' (push_line (\<lambda>p. tree_only p (fst c @ str_bytes '':'')) st)))
       (\<lambda>st. render_sources L debug cs (pop_pad st))"
  by pat_completeness auto
termination
proof (relation "measure (\<lambda>x. case x of Inl (L, debug, node, st) \<Rightarrow> 2 * operator_count node
      | Inr (L, debug, cs, st) \<Rightarrow> 2 * sum_list (map (\<lambda>c. operator_count (snd c)) cs) + 1)", goal_cases)
  case (2 L debug node st)
  then show ?case using child_nodes_count [of node] by simp
qed (use operator_count_pos in auto)

declare render_node.simps [simp del]

text \<open>The plan that prints the lines: \<open>&str\<close> and \<open>String\<close> become constants of type text.\<close>

definition expression_from_str :: "bytes \<Rightarrow> 'd expression" where
  "expression_from_str s = Constant (D_ByteARef s) T_Text"

definition expression_from_string :: "bytes \<Rightarrow> 'd expression" where
  "expression_from_string s = Constant (D_ByteAOwned s) T_Text"

definition or_empty :: "('a \<Rightarrow> bytes) \<Rightarrow> 'a option \<Rightarrow> 'd expression" where
  "or_empty to_string x = (case x of None \<Rightarrow> expression_from_str [] | Some v \<Rightarrow> expression_from_string (to_string v))"

definition explain_row :: "explain_line \<Rightarrow> 'd expression list" where
  "explain_row line =
     [expression_from_string (el_tree line), or_empty nat_digits (el_column_idx line),
      or_empty data_type_to_string (el_expression_type line), or_empty (\<lambda>s. s) (el_expression line)]"

definition explain :: "('d, 'n, 't) function_lib \<Rightarrow> (bytes \<Rightarrow> bytes) \<Rightarrow> 'd logical_operator \<Rightarrow> 'd logical_operator option" where
  "explain L debug node =
     map_option (\<lambda>(lines, padding).
       L_Values [(T_Text, ''tree''), (T_Text, ''col_idx''), (T_Text, ''datatype''), (T_Text, ''expression'')] (map explain_row lines))
       (render_node L debug node ([], []))"


section \<open>Nesting\<close>

text \<open>A rendering step is local when it appends the lines it writes at the left margin, shifted by the padding
  it is called with, and gives the padding back.\<close>

definition indent :: "padding \<Rightarrow> explain_line \<Rightarrow> explain_line" where
  "indent padding line = line\<lparr>el_tree := concat padding @ el_tree line\<rparr>"

definition local_step :: "(rendering \<Rightarrow> rendering option) \<Rightarrow> bool" where
  "local_step f \<longleftrightarrow> (\<forall>lines padding. f (lines, padding) = map_option (\<lambda>(ls, p). (lines @ map (indent padding) ls, padding)) (f ([], [])))"

lemma local_stepD: "local_step f \<Longrightarrow> f (lines, padding) = map_option (\<lambda>(ls, p). (lines @ map (indent padding) ls, padding)) (f ([], []))"
  unfolding local_step_def by blast

lemma indent_indent: "indent p (indent q l) = indent (p @ q) l"
  by (simp add: indent_def)

lemma indent_Nil: "indent [] = (\<lambda>l. l)"
  by (simp add: indent_def fun_eq_iff)

lemma indent_lines: "indent p (tree_only q t) = tree_only (p @ q) t" "indent p (full_line q t i dt e) = full_line (p @ q) t i dt e"
  "indent p (expr_only q dt e) = expr_only (p @ q) dt e"
  by (simp_all add: indent_def tree_only_def full_line_def expr_only_def)

lemma local_Some: "local_step Some"
  by (simp add: local_step_def)

lemma local_push_line: "local_step (\<lambda>st. Some (push_line (\<lambda>p. tree_only p t) st))"
  by (simp add: local_step_def push_line_def indent_lines)

lemma local_bind:
  assumes "local_step f" "local_step g"
  shows "local_step (\<lambda>st. Option.bind (f st) g)"
  unfolding local_step_def
proof (intro allI)
  fix lines padding
  show "Option.bind (f (lines, padding)) g = map_option (\<lambda>(ls, p). (lines @ map (indent padding) ls, padding)) (Option.bind (f ([], [])) g)"
  proof (cases "f ([], [])")
    case (Some r)
    obtain ls p where r: "r = (ls, p)" by (cases r)
    then have p: "p = []" using local_stepD [OF assms(1), of "[]" "[]"] Some by simp
    have f: "f (lines, padding) = Some (lines @ map (indent padding) ls, padding)"
      by (subst local_stepD [OF assms(1)]) (simp add: Some r)
    have g: "g (ls, []) = map_option (\<lambda>(ms, p). (ls @ ms, [])) (g ([], []))"
      by (subst local_stepD [OF assms(2)]) (simp add: indent_Nil)
    have "g (lines @ map (indent padding) ls, padding) = map_option (\<lambda>(ms, p). ((lines @ map (indent padding) ls) @ map (indent padding) ms, padding)) (g ([], []))"
      by (rule local_stepD [OF assms(2)])
    then show ?thesis using f g by (cases "g ([], [])") (auto simp: Some r p)
  qed (simp add: local_stepD [OF assms(1), of lines padding])
qed

lemma local_padded:
  assumes "local_step f"
  shows "local_step (\<lambda>st. map_option pop_pad (f (push_pad p st)))"
  using local_stepD [OF assms, of _ "_ @ [str_bytes p]"] local_stepD [OF assms, of _ "[str_bytes p]"]
  by (auto simp: local_step_def push_pad_def pop_pad_def padding_push_def padding_pop_def option.map_comp comp_def case_prod_beta indent_indent
    intro!: map_option_cong)

lemma local_push_lines:
  assumes "\<And>x p. line x p = map_option (indent p) (line x [])"
  shows "local_step (push_lines line xs)"
proof (induction xs)
  case (Cons x xs)
  have "local_step (\<lambda>st. map_option (\<lambda>l. push_line (\<lambda>_. l) st) (line x (snd st)))"
    unfolding local_step_def
  proof (intro allI)
    fix lines padding
    show "map_option (\<lambda>l. push_line (\<lambda>_. l) (lines, padding)) (line x (snd (lines, padding))) =
        map_option (\<lambda>(ls, p). (lines @ map (indent padding) ls, padding)) (map_option (\<lambda>l. push_line (\<lambda>_. l) ([], [])) (line x (snd ([], []))))"
      by (simp add: assms [of x padding] push_line_def option.map_comp comp_def)
  qed
  from local_bind [OF this Cons.IH] show ?case
    by (rule back_subst [where P = local_step]) (auto simp: fun_eq_iff bind_map_option comp_def)
qed (simp add: local_step_def)

lemma lines_indented:
  "output_line L debug x p = map_option (indent p) (output_line L debug x [])" "column_line y p = map_option (indent p) (column_line y [])"
  "key_line L debug e p = map_option (indent p) (key_line L debug e [])" "sort_line L debug se p = map_option (indent p) (sort_line L debug se [])"
  by (simp_all add: output_line_def column_line_def key_line_def sort_line_def typed_line_def indent_lines case_prod_beta
    option.map_comp comp_def map_option_bind)

lemma push_lines_local:
  "local_step (push_lines (output_line L debug) xs)" "local_step (push_lines column_line ys)"
  "local_step (push_lines (key_line L debug) es)" "local_step (push_lines (sort_line L debug) ses)"
  by (rule local_push_lines, rule lines_indented)+

lemma local_after_line:
  assumes "local_step f"
  shows "local_step (\<lambda>st. f (push_line (\<lambda>p. tree_only p t) st))"
  using local_bind [OF local_push_line assms] by simp

lemma outputs_local: "local_step (render_outputs L debug node)"
  using local_after_line [OF local_padded [OF push_lines_local(1)]]
  by (cases "node_expressions node = []") (simp_all add: render_outputs_def [abs_def] local_Some)

lemma columns_local: "local_step (render_columns node)"
  using local_after_line [OF local_padded [OF push_lines_local(2)]]
  by (cases "table_columns node = []") (simp_all add: render_columns_def [abs_def] local_Some)

lemma limit_local: "local_step (render_limit node)"
  using local_after_line [OF local_push_line]
  by (cases "limit_offset node") (simp_all add: render_limit_def [abs_def] local_Some case_prod_beta)

lemma predicate_local: "local_step (render_predicate L debug node)"
  using local_after_line [OF push_lines_local(3)]
  by (cases "node_predicate node") (simp_all add: render_predicate_def [abs_def] local_Some del: push_lines.simps)

lemma keys_local: "local_step (render_keys L debug node)"
  using local_after_line [OF push_lines_local(3)]
  by (cases "grouping_keys node = []") (simp_all add: render_keys_def [abs_def] local_Some)

lemma sorts_local: "local_step (render_sorts L debug node)"
  using local_after_line [OF local_padded [OF push_lines_local(4)]]
  by (cases "node_sort_expressions node = []") (simp_all add: render_sorts_def [abs_def] local_Some)

lemmas sections_local = outputs_local columns_local limit_local predicate_local keys_local sorts_local

lemma local_sources:
  assumes "\<And>c. c \<in> set cs \<Longrightarrow> local_step (render_node L debug (snd c))"
  shows "local_step (render_sources L debug cs)"
  using assms
proof (induction cs)
  case (Cons c cs)
  have "local_step (render_sources L debug cs)" using Cons by simp
  from local_after_line [where t = "fst c @ str_bytes '':''", OF local_bind [OF local_padded [where p = "''  ''", OF Cons.prems [of c]] this]]
  show ?case by (rule back_subst [where P = local_step]) (simp_all add: fun_eq_iff bind_map_option comp_def)
qed (simp add: local_step_def)

lemma child_counted:
  assumes "c \<in> set (child_nodes op)"
  shows "operator_count (snd c) < operator_count op"
proof -
  have "operator_count (snd c) \<le> sum_list (map (\<lambda>c. operator_count (snd c)) (child_nodes op))"
    using assms by (intro member_le_sum_list) auto
  then show ?thesis using child_nodes_count [of op] by simp
qed

lemma render_node_local: "local_step (render_node L debug node)"
proof (induction node rule: measure_induct_rule [where f = operator_count])
  case (less node)
  have "local_step (render_sources L debug (child_nodes node))" by (rule local_sources) (rule less, rule child_counted)
  then have "local_step (\<lambda>st. map_option pop_pad ((\<lambda>st.
      Option.bind (render_outputs L debug node st) (\<lambda>st. Option.bind (render_columns node st) (\<lambda>st.
      Option.bind (render_limit node st) (\<lambda>st. Option.bind (render_predicate L debug node st) (\<lambda>st.
      Option.bind (render_keys L debug node st) (\<lambda>st. Option.bind (render_sorts L debug node st)
      (render_sources L debug (child_nodes node)))))))) (push_pad '' |'' st)))"
    by (intro local_padded local_bind sections_local)
  from local_after_line [OF this, of "node_name node"] show ?case
    by (rule back_subst [where P = local_step]) (simp add: fun_eq_iff map_option_bind comp_def render_node.simps)
qed


text \<open>The lines of a child stand among those of its parent, after the line that names the source and shifted
  by two pads.\<close>

definition child_lines :: "bytes \<Rightarrow> explain_line list \<Rightarrow> explain_line list" where
  "child_lines name ls = tree_only [] (name @ str_bytes '':'') # map (indent [str_bytes ''  '']) ls"

lemma render_sources_child:
  assumes "render_sources L debug cs (lines, padding) = Some (lines', padding')" "c \<in> set cs"
  shows "\<exists>before ls after. render_node L debug (snd c) ([], []) = Some (ls, []) \<and>
    lines' = lines @ before @ map (indent padding) (child_lines (fst c) ls) @ after"
  using assms
proof (induction cs arbitrary: lines)
  case (Cons d cs)
  let ?lines = "lines @ [tree_only padding (fst d @ str_bytes '':'')]"
  have "render_node L debug (snd d) (?lines, padding @ [str_bytes ''  '']) =
      map_option (\<lambda>(ls, p). (?lines @ map (indent (padding @ [str_bytes ''  ''])) ls, padding @ [str_bytes ''  ''])) (render_node L debug (snd d) ([], []))"
    by (rule local_stepD [OF render_node_local])
  then obtain ls where ls: "render_node L debug (snd d) ([], []) = Some (ls, [])"
      and rest: "render_sources L debug cs (lines @ map (indent padding) (child_lines (fst d) ls), padding) = Some (lines', padding')"
    using Cons.prems(1) local_stepD [OF render_node_local, of L debug "snd d" "[]" "[]"]
    by (auto simp: push_line_def push_pad_def pop_pad_def padding_push_def padding_pop_def child_lines_def indent_lines indent_indent comp_def
        map_option_case split: option.split_asm)
  have tail: "\<exists>after. lines' = lines @ map (indent padding) (child_lines (fst d) ls) @ after"
  proof -
    have "local_step (render_sources L debug cs)" by (rule local_sources) (rule render_node_local)
    from local_stepD [OF this, of "lines @ map (indent padding) (child_lines (fst d) ls)" padding] rest show ?thesis
      by (auto simp: map_option_case split: option.split_asm)
  qed
  show ?case
  proof (cases "c = d")
    case True
    obtain rest where "lines' = lines @ map (indent padding) (child_lines (fst d) ls) @ rest" using tail by blast
    with True ls show ?thesis by (intro exI [of _ "[]"] exI [of _ ls] exI [of _ rest]) simp
  next
    case False
    then have "c \<in> set cs" using Cons.prems(2) by simp
    from Cons.IH [OF rest this] obtain before ms after where "render_node L debug (snd c) ([], []) = Some (ms, [])"
      "lines' = (lines @ map (indent padding) (child_lines (fst d) ls)) @ before @ map (indent padding) (child_lines (fst c) ms) @ after" by blast
    then show ?thesis by (intro exI [of _ "map (indent padding) (child_lines (fst d) ls) @ before"] exI [of _ ms] exI [of _ after]) simp
  qed
qed simp

lemma render_node_child:
  assumes "render_node L debug node ([], []) = Some (lines, padding)" "c \<in> set (child_nodes node)"
  shows "\<exists>before ls after. render_node L debug (snd c) ([], []) = Some (ls, []) \<and>
    lines = before @ map (indent [str_bytes '' |'']) (child_lines (fst c) ls) @ after"
proof -
  define start where "start = (\<lambda>st. Option.bind (render_outputs L debug node st) (\<lambda>st. Option.bind (render_columns node st) (\<lambda>st.
      Option.bind (render_limit node st) (\<lambda>st. Option.bind (render_predicate L debug node st) (\<lambda>st.
      Option.bind (render_keys L debug node st) (render_sorts L debug node))))))"
  have st: "local_step start" unfolding start_def by (intro local_bind sections_local)
  have "render_node L debug node ([], []) = map_option pop_pad (Option.bind (start ([tree_only [] (node_name node)], [str_bytes '' |'']))
      (render_sources L debug (child_nodes node)))"
    by (simp add: start_def render_node.simps push_line_def push_pad_def padding_push_def map_option_bind comp_def)
  moreover have "start ([tree_only [] (node_name node)], [str_bytes '' |'']) =
      map_option (\<lambda>(ls, p). ([tree_only [] (node_name node)] @ map (indent [str_bytes '' |'']) ls, [str_bytes '' |''])) (start ([], []))"
    by (rule local_stepD [OF st])
  ultimately obtain ls0 padding' where "render_sources L debug (child_nodes node) (ls0, [str_bytes '' |'']) = Some (lines, padding')"
    using assms(1) by (auto simp: pop_pad_def map_option_case split: option.split_asm)
  from render_sources_child [OF this assms(2)] show ?thesis by (metis append.assoc)
qed

section \<open>Every named and typed query can be explained\<close>

definition explainable :: "('d, 'n, 't) function_lib \<Rightarrow> (bytes \<Rightarrow> bytes) \<Rightarrow> 'd logical_operator \<Rightarrow> bool" where
  "explainable L debug op \<longleftrightarrow> list_all (\<lambda>ne. ne_alias ne \<noteq> None) (named_expressions op) \<and>
     list_all (\<lambda>e. type_for_expression e \<noteq> None \<and> expression_to_string L debug e \<noteq> None) (expressions_mut op)"

lemma explainable_parts:
  assumes "everywhere (explainable L debug) op"
  shows "list_all (\<lambda>ne. ne_alias ne \<noteq> None \<and> type_for_expression (ne_expression ne) \<noteq> None \<and> expression_to_string L debug (ne_expression ne) \<noteq> None) (node_expressions op)"
    "\<And>e. node_predicate op = Some e \<Longrightarrow> type_for_expression e \<noteq> None \<and> expression_to_string L debug e \<noteq> None"
    "list_all (\<lambda>e. type_for_expression e \<noteq> None \<and> expression_to_string L debug e \<noteq> None) (grouping_keys op)"
    "list_all (\<lambda>se. type_for_expression (se_expression se) \<noteq> None \<and> expression_to_string L debug (se_expression se) \<noteq> None) (node_sort_expressions op)"
    "list_all (\<lambda>c. everywhere (explainable L debug) (snd c)) (child_nodes op)"
  using assms
  by (induction op rule: child_nodes.induct)
    (auto simp: explainable_def list_all_iff in_set_enumerate_eq)


lemma push_lines_total:
  assumes "\<And>x padding. x \<in> set xs \<Longrightarrow> line x padding \<noteq> None"
  shows "push_lines line xs st \<noteq> None"
  using assms by (induction xs arbitrary: st) (auto simp: bind_eq_None_conv)

lemma typed_line_total: "type_for_expression e \<noteq> None \<Longrightarrow> expression_to_string L debug e \<noteq> None \<Longrightarrow> typed_line L debug e line \<noteq> None"
  by (auto simp: typed_line_def)

lemma output_line_total:
  "ne_alias ne \<noteq> None \<Longrightarrow> type_for_expression (ne_expression ne) \<noteq> None \<Longrightarrow> expression_to_string L debug (ne_expression ne) \<noteq> None \<Longrightarrow>
    output_line L debug (idx, ne) padding \<noteq> None"
  using typed_line_total [of "ne_expression ne" L debug] by (auto simp: output_line_def)

lemma key_lines_total:
  assumes "list_all (\<lambda>e. type_for_expression e \<noteq> None \<and> expression_to_string L debug e \<noteq> None) es"
  shows "push_lines (key_line L debug) es st \<noteq> None"
  using assms unfolding list_all_iff by (intro push_lines_total) (simp add: key_line_def typed_line_total del: not_None_eq)

lemma sort_lines_total:
  assumes "list_all (\<lambda>se. type_for_expression (se_expression se) \<noteq> None \<and> expression_to_string L debug (se_expression se) \<noteq> None) ses"
  shows "push_lines (sort_line L debug) ses st \<noteq> None"
  using assms unfolding list_all_iff by (intro push_lines_total) (simp add: sort_line_def typed_line_total del: not_None_eq)

lemma sections_total:
  assumes "everywhere (explainable L debug) node"
  shows "render_outputs L debug node st \<noteq> None" "render_columns node st \<noteq> None" "render_limit node st \<noteq> None"
    "render_predicate L debug node st \<noteq> None" "render_keys L debug node st \<noteq> None" "render_sorts L debug node st \<noteq> None"
proof -
  note parts = explainable_parts [OF assms]
  show "render_outputs L debug node st \<noteq> None"
  proof (cases "node_expressions node = []")
    case False
    have "output_line L debug x padding \<noteq> None" if "x \<in> set (List.enumerate 0 (node_expressions node))" for x padding
    proof -
      have "snd x \<in> set (node_expressions node)" using imageI [OF that, of snd] by (simp flip: set_map)
      then show ?thesis using output_line_total [of "snd x" L debug "fst x" padding] parts(1) by (simp add: list_all_iff)
    qed
    from push_lines_total [where line = "output_line L debug", OF this] show ?thesis using False by (simp add: render_outputs_def)
  qed (simp add: render_outputs_def)
  show "render_columns node st \<noteq> None"
    by (auto simp: render_columns_def column_line_def simp del: not_None_eq intro!: push_lines_total)
  show "render_limit node st \<noteq> None" by (auto simp: render_limit_def split: option.split)
  show "render_predicate L debug node st \<noteq> None"
    using parts(2) key_lines_total [of L debug "[_]"] unfolding render_predicate_def list.pred_inject
    by (cases "node_predicate node") (simp_all del: push_lines.simps not_None_eq)
  show "render_keys L debug node st \<noteq> None" using key_lines_total [OF parts(3)] by (simp add: render_keys_def)
  show "render_sorts L debug node st \<noteq> None" using sort_lines_total [OF parts(4)] by (simp add: render_sorts_def del: not_None_eq)
qed

lemma render_sources_total:
  assumes "\<And>c st. c \<in> set cs \<Longrightarrow> render_node L debug (snd c) st \<noteq> None"
  shows "render_sources L debug cs st \<noteq> None"
  using assms
proof (induction cs arbitrary: st)
  case (Cons c cs)
  have "render_node L debug (snd c) st \<noteq> None" for st using Cons.prems [of c] by simp
  moreover have "render_sources L debug cs st \<noteq> None" for st using Cons.prems by (intro Cons.IH) simp
  ultimately show ?case by (simp add: bind_eq_None_conv)
qed simp

lemma render_node_total: "everywhere (explainable L debug) node \<Longrightarrow> render_node L debug node st \<noteq> None"
proof (induction node arbitrary: st rule: measure_induct_rule [where f = operator_count])
  case (less node)
  have "render_sources L debug (child_nodes node) st \<noteq> None" for st
    using less explainable_parts(5) [OF less.prems] child_counted [of _ node] by (intro render_sources_total) (auto simp: list_all_iff)
  then show ?case using sections_total [OF less.prems] by (simp add: render_node.simps bind_eq_None_conv)
qed

text \<open>C28. A query whose outputs are named and whose expressions have a type and can be printed is explained: the
  plan is a list of rows of four texts, and the explanation of every source of the query stands in it as it would
  stand alone, after the name of the source and shifted to the right.\<close>

theorem explain_nests:
  assumes "everywhere (explainable L debug) node"
  shows "\<exists>lines. explain L debug node = Some (L_Values [(T_Text, ''tree''), (T_Text, ''col_idx''), (T_Text, ''datatype''), (T_Text, ''expression'')]
      (map explain_row lines)) \<and>
    list_all (\<lambda>row. map type_for_expression row = replicate 4 (Some T_Text)) (map explain_row lines :: 'd expression list list) \<and>
    (\<forall>c \<in> set (child_nodes node). \<exists>before ls after.
      explain L debug (snd c) = Some (L_Values [(T_Text, ''tree''), (T_Text, ''col_idx''), (T_Text, ''datatype''), (T_Text, ''expression'')] (map explain_row ls)) \<and>
      lines = before @ map (indent [str_bytes '' |'']) (child_lines (fst c) ls) @ after)"
proof -
  obtain lines padding where r: "render_node L debug node ([], []) = Some (lines, padding)"
    using render_node_total [OF assms, of "([], [])"] by auto
  have "map type_for_expression (explain_row line :: 'd expression list) = replicate 4 (Some T_Text)" for line
    by (simp add: explain_row_def or_empty_def expression_from_str_def expression_from_string_def numeral_eq_Suc split: option.split)
  moreover have "\<exists>before ls after. explain L debug (snd c) =
        Some (L_Values [(T_Text, ''tree''), (T_Text, ''col_idx''), (T_Text, ''datatype''), (T_Text, ''expression'')] (map explain_row ls)) \<and>
      lines = before @ map (indent [str_bytes '' |'']) (child_lines (fst c) ls) @ after" if c: "c \<in> set (child_nodes node)" for c
  proof -
    obtain before ls after where "render_node L debug (snd c) ([], []) = Some (ls, [])"
      "lines = before @ map (indent [str_bytes '' |'']) (child_lines (fst c) ls) @ after" using render_node_child [OF r c] by blast
    then show ?thesis by (intro exI [of _ before] exI [of _ ls] exI [of _ after]) (simp add: explain_def)
  qed
  ultimately show ?thesis using r by (intro exI [of _ lines]) (simp add: explain_def list_all_iff)
qed


theorem explain_nests_witness:
  "\<exists>lines. explain example_lib (\<lambda>s. s) example_validated =
      Some (L_Values [(T_Text, ''tree''), (T_Text, ''col_idx''), (T_Text, ''datatype''), (T_Text, ''expression'')] (map explain_row lines))"
proof -
  have "everywhere (explainable example_lib (\<lambda>s. s)) example_validated"
    by (simp add: example_validated_def true_expression_def explainable_def typed_to_sql_def typed_to_string_def)
  from explain_nests [OF this] show ?thesis by blast
qed

text \<open>The regular expression of plain identifiers admits commas: two arguments and one reference to a column whose name
  has a comma are printed alike.\<close>

lemma comma_identifier_plain: "identifier_ok ''a,b''" "quote_identifier ''a,b'' = str_bytes ''a,b''"
  by code_simp+

end
