(* ===== verification/Catalog.thy ===== *)
theory Catalog
  imports Rewriting
begin

text \<open>
  The catalog (\<open>catalog/src\<close>): databases, tables and views are rows of three system tables kept by the
  storage.  The clock, the hasher of table names and the range deletion of the storage engine are
  parameters.  The lemmas show that the catalog refines a map from names to items.
\<close>

section \<open>Data types as text\<close>

definition is_digit :: "u8 \<Rightarrow> bool" where
  "is_digit b \<longleftrightarrow> 48 \<le> b \<and> b \<le> 57"

definition parse_u8 :: "bytes \<Rightarrow> u8 option" where
  "parse_u8 bs =
     Option.bind (case bs of b # rest \<Rightarrow> if b = 43 then parse_nat rest else parse_nat bs | [] \<Rightarrow> None)
       (\<lambda>n. if n < 256 then Some (of_nat n) else None)"

text \<open>The captures of \<open>DECIMAL_RE\<close>, two nonempty runs of digits.\<close>

definition decimal_captures :: "bytes \<Rightarrow> (bytes \<times> bytes) option" where
  "decimal_captures value =
     (let prefix = str_bytes ''DECIMAL(''; value_rest = drop (length prefix) value;
          p = takeWhile is_digit value_rest; after_p = dropWhile is_digit value_rest;
          s = takeWhile is_digit (tl after_p); after_s = dropWhile is_digit (tl after_p) in
      if take (length prefix) value = prefix \<and> p \<noteq> [] \<and> take 1 after_p = str_bytes '','' \<and> s \<noteq> [] \<and> after_s = str_bytes '')''
      then Some (p, s) else None)"

definition data_type_try_from :: "bytes \<Rightarrow> (unit, data_type) outcome" where
  "data_type_try_from value =
     (if value = str_bytes ''NULL'' then Some (Inr T_Null)
      else if value = str_bytes ''BOOLEAN'' then Some (Inr T_Boolean)
      else if value = str_bytes ''INTEGER'' then Some (Inr T_Integer)
      else if value = str_bytes ''BIGINT'' then Some (Inr T_BigInt)
      else if value = str_bytes ''TEXT'' then Some (Inr T_Text)
      else if value = str_bytes ''BYTEA'' then Some (Inr T_ByteA)
      else if value = str_bytes ''JSON'' then Some (Inr T_Json)
      else if value = str_bytes ''JSONPATH'' then Some (Inr T_JsonPath)
      else if value = str_bytes ''DATE'' then Some (Inr T_Date)
      else if value = str_bytes ''TIMESTAMP'' then Some (Inr T_Timestamp)
      else
        (case decimal_captures value of
           Some (p, s) \<Rightarrow> Option.bind (parse_u8 p) (\<lambda>p. Option.bind (parse_u8 s) (\<lambda>s. Some (Inr (T_Decimal p s))))
         | None \<Rightarrow> Some (Inl ())))"

section \<open>The catalog\<close>

text \<open>\<open>LogicalTimestamp::now\<close> is \<open>k_now\<close> of the number of earlier calls, \<open>k_delete_range\<close> the committed write
  batch of one range deletion.\<close>

record ('d, 'db, 'it) catalog_env =
  k_decimal :: "'d decimal_ops"
  k_rocks :: "('db, 'it) rocks_ops"
  k_path :: "bytes \<Rightarrow> json_path_selector list option"
  k_now :: "nat \<Rightarrow> u64"
  k_hash :: "bytes \<Rightarrow> u64"
  k_delete_range :: "'db \<Rightarrow> bytes \<Rightarrow> bytes \<Rightarrow> storage_error + 'db"

record 'db catalog =
  cat_db :: 'db
  cat_ticks :: nat

type_synonym 'db change = "('db catalog \<times> (catalog_error + unit)) option"

definition prefix_metadata_table :: table where
  "prefix_metadata_table = \<lparr>t_id = 0, t_length = 3, t_pk = [Asc]\<rparr>"

definition databases_table :: table where
  "databases_table = \<lparr>t_id = 2, t_length = 1, t_pk = [Asc]\<rparr>"

definition tables_table :: table where
  "tables_table = \<lparr>t_id = 4, t_length = 8, t_pk = [Asc, Asc]\<rparr>"

definition text_datum :: "string \<Rightarrow> 'd datum" where
  "text_datum s = D_ByteARef (str_bytes s)"

definition id_datum :: "u32 \<Rightarrow> 'd datum" where
  "id_datum tid = D_BigInt (ucast tid)"

text \<open>The operator \<open>?\<close> in front of the rest of a method.\<close>

definition try_change :: "'db catalog \<Rightarrow> (catalog_error, 'a) outcome \<Rightarrow> ('a \<Rightarrow> 'db change) \<Rightarrow> 'db change" where
  "try_change self r k =
     (case r of None \<Rightarrow> None | Some (Inl e) \<Rightarrow> Some (self, Inl e) | Some (Inr x) \<Rightarrow> k x)"

definition try_then :: "'db change \<Rightarrow> ('db catalog \<Rightarrow> 'db change) \<Rightarrow> 'db change" where
  "try_then r k = (case r of Some (self, Inr u) \<Rightarrow> k self | r \<Rightarrow> r)"

definition lookup_item ::
  "('d, 'db, 'it) catalog_env \<Rightarrow> 'db \<Rightarrow> table \<Rightarrow> 'd datum list \<Rightarrow> (catalog_error, (i64 \<times> 'd datum list) option) outcome" where
  "lookup_item env db t pk = map_option (map_sum CatalogStorageError id)
     (system_point_lookup (k_rocks env) (k_decimal env) (k_path env) db t pk)"

text \<open>The first row of a scan from a key to itself, as of \<open>LogicalTimestamp::MAX\<close>.\<close>

definition first_row ::
  "('d, 'db, 'it) catalog_env \<Rightarrow> 'db \<Rightarrow> table \<Rightarrow> 'd datum list \<Rightarrow> (storage_error, 'd row option) outcome" where
  "first_row env db t key =
     Option.bind (range_scan (k_rocks env) (k_decimal env) db t (Some key) (Some key) (- 1)) (\<lambda>it.
       map_option (map_sum id snd) (iter_next (index_advance (k_rocks env) (k_decimal env) (k_path env)) index_get it))"

definition row_exists ::
  "('d, 'db, 'it) catalog_env \<Rightarrow> 'db catalog \<Rightarrow> table \<Rightarrow> 'd datum list \<Rightarrow> (catalog_error, bool) outcome" where
  "row_exists env self t key = map_option (map_sum CatalogStorageError (\<lambda>r. r \<noteq> None)) (first_row env (cat_db self) t key)"

definition write_catalog ::
  "('d, 'db, 'it) catalog_env \<Rightarrow> 'db catalog \<Rightarrow> (writer \<Rightarrow> (storage_error + writer) option) \<Rightarrow> 'db change" where
  "write_catalog env self batch =
     (case atomic_write (k_rocks env) id (cat_db self) batch of
        None \<Rightarrow> None
      | Some (Inl e) \<Rightarrow> Some (self, Inl (CatalogStorageError e))
      | Some (Inr db) \<Rightarrow> Some (self\<lparr>cat_db := db\<rparr>, Inr ()))"

section \<open>Items\<close>

definition unwrap :: "'a option option \<Rightarrow> 'a option" where
  "unwrap r = Option.bind r (\<lambda>x. x)"

definition read_column :: "bytes \<Rightarrow> (string \<times> data_type) option" where
  "read_column col =
     Option.bind (unwrap (iter_array col)) (\<lambda>it.
     Option.bind (unwrap (json_iter_next it)) (\<lambda>(name, it).
     Option.bind (unwrap (get_string name)) (\<lambda>col_name.
     Option.bind (unwrap (json_iter_next it)) (\<lambda>(dtype, _).
     Option.bind (unwrap (get_string dtype)) (\<lambda>type_name.
       case data_type_try_from type_name of
         Some (Inr col_type) \<Rightarrow> Some (bytes_str col_name, col_type)
       | _ \<Rightarrow> None)))))"

definition read_json_array :: "(bytes \<Rightarrow> 'a option) \<Rightarrow> 'd datum \<Rightarrow> 'a list option" where
  "read_json_array f d =
     Option.bind (as_maybe_bytea d) (\<lambda>j.
     Option.bind (unwrap (iter_array j)) (\<lambda>it.
     Option.bind (json_items it) (\<lambda>items. those (map f items))))"

definition read_sort_order :: "bytes \<Rightarrow> sort_order option" where
  "read_sort_order b =
     map_option (\<lambda>desc. if desc then Desc else Asc) (unwrap (get_boolean b))"

definition item ::
  "('d, 'db, 'it) catalog_env \<Rightarrow> 'db catalog \<Rightarrow> string \<Rightarrow> string \<Rightarrow> (catalog_error, catalog_item) outcome" where
  "item env self database table_name =
     and_then (lookup_item env (cat_db self) tables_table [text_datum database, text_datum table_name]) (\<lambda>found.
       case found of
         None \<Rightarrow> Some (Inl (TableNotFound database table_name))
       | Some (freq, row) \<Rightarrow>
         if freq = 0 then Some (Inl (TableNotFound database table_name))
         else if length row \<le> 4 then None
         else
           Option.bind (as_maybe_text (row ! 0)) (\<lambda>table_type.
           Option.bind (read_json_array read_column (row ! 4)) (\<lambda>columns.
             if table_type = str_bytes ''table'' then
               Option.bind (as_maybe_bigint (row ! 3)) (\<lambda>tid.
                 and_then (lookup_item env (cat_db self) prefix_metadata_table [row ! 3]) (\<lambda>found.
                   case found of
                     None \<Rightarrow> None
                   | Some (_, meta) \<Rightarrow>
                       if length meta \<le> 1 then None
                       else
                         Option.bind (read_json_array read_sort_order (meta ! 1)) (\<lambda>pk.
                         Option.bind (storage_table (ucast tid) (length columns) pk) (\<lambda>t.
                           Some (Inr \<lparr>ci_columns = columns, ci_item = TV_Table t\<rparr>)))))
             else if table_type = str_bytes ''view'' then
               Option.bind (as_maybe_text (row ! 1)) (\<lambda>sql.
               Option.bind (as_maybe_text (row ! 2)) (\<lambda>context.
                 Some (Inr \<lparr>ci_columns = columns, ci_item = TV_View \<lparr>v_sql = bytes_str sql, v_db_context = bytes_str context\<rparr>\<rparr>)))
             else None)))"

section \<open>Checks\<close>

definition db_exists :: "('d, 'db, 'it) catalog_env \<Rightarrow> 'db catalog \<Rightarrow> string \<Rightarrow> (catalog_error, bool) outcome" where
  "db_exists env self database_name = row_exists env self databases_table [text_datum database_name]"

definition check_db_exists :: "('d, 'db, 'it) catalog_env \<Rightarrow> 'db catalog \<Rightarrow> string \<Rightarrow> (catalog_error, unit) outcome" where
  "check_db_exists env self database_name =
     and_then (db_exists env self database_name) (\<lambda>e.
       if \<not> e then Some (Inl (DatabaseNotFound database_name)) else Some (Inr ()))"

definition check_db_not_exists :: "('d, 'db, 'it) catalog_env \<Rightarrow> 'db catalog \<Rightarrow> string \<Rightarrow> (catalog_error, unit) outcome" where
  "check_db_not_exists env self database_name =
     and_then (db_exists env self database_name) (\<lambda>e.
       if e then Some (Inl (DatabaseAlreadyExists database_name)) else Some (Inr ()))"

definition check_db_empty :: "('d, 'db, 'it) catalog_env \<Rightarrow> 'db catalog \<Rightarrow> string \<Rightarrow> (catalog_error, unit) outcome" where
  "check_db_empty env self database_name =
     and_then (row_exists env self tables_table [text_datum database_name]) (\<lambda>e.
       if e then Some (Inl (DatabaseNotEmpty database_name)) else Some (Inr ()))"

definition table_exists :: "('d, 'db, 'it) catalog_env \<Rightarrow> 'db catalog \<Rightarrow> string \<Rightarrow> string \<Rightarrow> (catalog_error, bool) outcome" where
  "table_exists env self database_name table_name =
     row_exists env self tables_table [text_datum database_name, text_datum table_name]"

definition check_table_exists ::
  "('d, 'db, 'it) catalog_env \<Rightarrow> 'db catalog \<Rightarrow> string \<Rightarrow> string \<Rightarrow> (catalog_error, unit) outcome" where
  "check_table_exists env self database_name table_name =
     and_then (table_exists env self database_name table_name) (\<lambda>e.
       if \<not> e then Some (Inl (TableNotFound database_name table_name)) else Some (Inr ()))"

definition check_table_not_exists ::
  "('d, 'db, 'it) catalog_env \<Rightarrow> 'db catalog \<Rightarrow> string \<Rightarrow> string \<Rightarrow> (catalog_error, unit) outcome" where
  "check_table_not_exists env self database_name table_name =
     and_then (table_exists env self database_name table_name) (\<lambda>e.
       if e then Some (Inl (TableAlreadyExists database_name table_name)) else Some (Inr ()))"

partial_function (option) table_id_loop ::
  "('d, 'db, 'it) catalog_env \<Rightarrow> 'db catalog \<Rightarrow> u32 \<Rightarrow> (catalog_error, u32) outcome" where
  "table_id_loop env self tid =
     (case row_exists env self prefix_metadata_table [id_datum tid] of
        None \<Rightarrow> None
      | Some (Inl e) \<Rightarrow> Some (Inl e)
      | Some (Inr taken) \<Rightarrow> if taken then table_id_loop env self (tid + 2) else Some (Inr tid))"

definition generate_table_id :: "('d, 'db, 'it) catalog_env \<Rightarrow> 'db catalog \<Rightarrow> string \<Rightarrow> (catalog_error, u32) outcome" where
  "generate_table_id env self table_name =
     (let tid = ucast (k_hash env (str_bytes table_name)) in
      table_id_loop env self (if tid AND 1 = 1 then tid - 1 else tid))"

section \<open>Changes\<close>

definition create_database_impl :: "('d, 'db, 'it) catalog_env \<Rightarrow> string \<Rightarrow> 'db catalog \<Rightarrow> 'db change" where
  "create_database_impl env database_name self =
     (let timestamp = k_now env (cat_ticks self); self = self\<lparr>cat_ticks := cat_ticks self + 1\<rparr> in
      write_catalog env self
        (writer_write_tuple (k_rocks env) (k_decimal env) (cat_db self) databases_table [text_datum database_name] timestamp 1))"

definition create_database :: "('d, 'db, 'it) catalog_env \<Rightarrow> string \<Rightarrow> 'db catalog \<Rightarrow> 'db change" where
  "create_database env database_name self =
     try_change self (check_db_not_exists env self database_name) (\<lambda>_. create_database_impl env database_name self)"

definition drop_database :: "('d, 'db, 'it) catalog_env \<Rightarrow> string \<Rightarrow> 'db catalog \<Rightarrow> 'db change" where
  "drop_database env database_name self =
     try_change self (check_db_exists env self database_name) (\<lambda>_.
     try_change self (check_db_empty env self database_name) (\<lambda>_.
       let timestamp = k_now env (cat_ticks self); self = self\<lparr>cat_ticks := cat_ticks self + 1\<rparr> in
       write_catalog env self
         (writer_write_tuple (k_rocks env) (k_decimal env) (cat_db self) databases_table [text_datum database_name] timestamp (- 1))))"

fun push_columns :: "(string \<times> data_type) list \<Rightarrow> bytes \<Rightarrow> bytes option" where
  "push_columns [] buf = Some buf"
| "push_columns ((alias_name, dtype) # columns) buf =
     Option.bind (push_array (\<lambda>buf. Option.bind (push_string (str_bytes alias_name) buf) (push_string (data_type_to_string dtype))) buf)
       (push_columns columns)"

definition columns_datum :: "(string \<times> data_type) list \<Rightarrow> 'd datum option" where
  "columns_datum columns = map_option D_ByteAOwned (push_array (push_columns columns) [])"

definition pks_datum :: "sort_order list \<Rightarrow> 'd datum option" where
  "pks_datum pks = map_option D_ByteAOwned (push_array (\<lambda>buf. Some (fold (\<lambda>pk. push_bool (is_desc pk)) pks buf)) [])"

definition create_table_impl ::
  "('d, 'db, 'it) catalog_env \<Rightarrow> string \<Rightarrow> string \<Rightarrow> u32 \<Rightarrow> (string \<times> data_type) list \<Rightarrow> sort_order list \<Rightarrow> bool \<Rightarrow>
    'db catalog \<Rightarrow> 'db change" where
  "create_table_impl env database_name table_name table_id columns pks system self =
     (let timestamp = k_now env (cat_ticks self); self = self\<lparr>cat_ticks := cat_ticks self + 1\<rparr> in
      Option.bind (columns_datum columns) (\<lambda>columns_json.
      Option.bind (pks_datum pks) (\<lambda>pks_json.
        write_catalog env self (\<lambda>w.
          and_then
            (writer_write_tuple (k_rocks env) (k_decimal env) (cat_db self) tables_table
              [text_datum database_name, text_datum table_name, text_datum ''table'', D_Null, D_Null, id_datum table_id,
               columns_json, D_Boolean system] timestamp 1 w)
            (writer_write_tuple (k_rocks env) (k_decimal env) (cat_db self) prefix_metadata_table
              [id_datum table_id, D_Integer (of_nat (length columns)), pks_json] timestamp 1)))))"

definition create_table ::
  "('d, 'db, 'it) catalog_env \<Rightarrow> string \<Rightarrow> string \<Rightarrow> (string \<times> data_type) list \<Rightarrow> 'db catalog \<Rightarrow> 'db change" where
  "create_table env database_name table_name columns self =
     try_change self (check_db_exists env self database_name) (\<lambda>_.
     try_change self (check_table_not_exists env self database_name table_name) (\<lambda>_.
     try_change self (generate_table_id env self table_name) (\<lambda>tid.
       create_table_impl env database_name table_name tid columns (map (\<lambda>_. Asc) columns) False self)))"

definition create_view_impl ::
  "('d, 'db, 'it) catalog_env \<Rightarrow> string \<Rightarrow> string \<Rightarrow> (string \<times> data_type) list \<Rightarrow> string \<Rightarrow> string \<Rightarrow> bool \<Rightarrow>
    'db catalog \<Rightarrow> 'db change" where
  "create_view_impl env database_name table_name columns sql context system self =
     (let timestamp = k_now env (cat_ticks self); self = self\<lparr>cat_ticks := cat_ticks self + 1\<rparr> in
      Option.bind (columns_datum columns) (\<lambda>columns_json.
        write_catalog env self
          (writer_write_tuple (k_rocks env) (k_decimal env) (cat_db self) tables_table
            [text_datum database_name, text_datum table_name, text_datum ''view'', text_datum sql, text_datum context, D_Null,
             columns_json, D_Boolean system] timestamp 1)))"

definition create_view ::
  "('d, 'db, 'it) catalog_env \<Rightarrow> string \<Rightarrow> string \<Rightarrow> (string \<times> data_type) list \<Rightarrow> string \<Rightarrow> string \<Rightarrow> 'db catalog \<Rightarrow> 'db change" where
  "create_view env database_name table_name columns view_sql view_context self =
     try_change self (check_db_exists env self database_name) (\<lambda>_.
     try_change self (check_table_not_exists env self database_name table_name) (\<lambda>_.
       create_view_impl env database_name table_name columns view_sql view_context False self))"

text \<open>Within the closure that fills the batch the data of a table is deleted at once, by a batch of its own:
  the database of the result is the one after the deletion even when the batch is not written.\<close>

definition drop_table_impl :: "('d, 'db, 'it) catalog_env \<Rightarrow> string \<Rightarrow> string \<Rightarrow> 'db catalog \<Rightarrow> 'db change" where
  "drop_table_impl env database_name table_name self =
     (let now = k_now env (cat_ticks self); self = self\<lparr>cat_ticks := cat_ticks self + 1\<rparr>;
          key = [text_datum database_name, text_datum table_name];
          failed = (\<lambda>self e. Some (self, Inl (CatalogStorageError e)));
          write = writer_write_tuple (k_rocks env) (k_decimal env) in
      case first_row env (cat_db self) tables_table key of
        None \<Rightarrow> None
      | Some (Inl e) \<Rightarrow> failed self e
      | Some (Inr None) \<Rightarrow> None
      | Some (Inr (Some (table_tuple, table_freq))) \<Rightarrow>
          if length table_tuple < 6 then None
          else
            Option.bind (as_maybe_text (table_tuple ! 2)) (\<lambda>table_type.
              if table_type = str_bytes ''table'' then
                Option.bind (as_maybe_bigint (table_tuple ! 5)) (\<lambda>big.
                let table_id = ucast big :: u32 in
                case first_row env (cat_db self) prefix_metadata_table [table_tuple ! 5] of
                  None \<Rightarrow> None
                | Some (Inl e) \<Rightarrow> failed self e
                | Some (Inr None) \<Rightarrow> None
                | Some (Inr (Some (prefix_tuple, prefix_freq))) \<Rightarrow>
                    (case k_delete_range env (cat_db self) (u32_to_be table_id) (u32_to_be (table_id + 2)) of
                       Inl e \<Rightarrow> failed self e
                     | Inr db \<Rightarrow>
                         write_catalog env (self\<lparr>cat_db := db\<rparr>) (\<lambda>w.
                           and_then (write db prefix_metadata_table prefix_tuple now (- prefix_freq) w)
                             (write db tables_table table_tuple now (- table_freq)))))
              else if table_type = str_bytes ''view'' then
                write_catalog env self (write (cat_db self) tables_table table_tuple now (- table_freq))
              else None))"

definition drop_table :: "('d, 'db, 'it) catalog_env \<Rightarrow> string \<Rightarrow> string \<Rightarrow> 'db catalog \<Rightarrow> 'db change" where
  "drop_table env database_name table_name self =
     try_change self (check_table_exists env self database_name table_name) (\<lambda>_.
       drop_table_impl env database_name table_name self)"

section \<open>First boot\<close>

definition bootstrap :: "('d, 'db, 'it) catalog_env \<Rightarrow> 'db catalog \<Rightarrow> 'db change" where
  "bootstrap env self =
     try_change self (lookup_item env (cat_db self) prefix_metadata_table [id_datum 0]) (\<lambda>found.
       if found \<noteq> None then Some (self, Inr ())
       else
         try_then (create_database_impl env ''incresql'' self) (\<lambda>self.
         try_then (create_database_impl env ''default'' self) (\<lambda>self.
         try_then (create_database_impl env ''information_schema'' self) (\<lambda>self.
         try_then (create_table_impl env ''incresql'' ''prefix_tables'' 0
           [(''table_id'', T_BigInt), (''column_len'', T_Integer), (''pk_sort'', T_Json)] [Asc] True self) (\<lambda>self.
         try_then (create_table_impl env ''incresql'' ''databases'' 2 [(''name'', T_Text)] [Asc] True self) (\<lambda>self.
           create_table_impl env ''incresql'' ''tables'' 4
             [(''database_name'', T_Text), (''name'', T_Text), (''type'', T_Text), (''sql'', T_Text), (''sql_context'', T_Text),
              (''table_id'', T_BigInt), (''columns'', T_Json), (''system'', T_Boolean)] [Asc, Asc] True self))))))"

definition catalog_new :: "('d, 'db, 'it) catalog_env \<Rightarrow> 'db \<Rightarrow> nat \<Rightarrow> 'db change" where
  "catalog_new env db ticks = bootstrap env \<lparr>cat_db = db, cat_ticks = ticks\<rparr>"

section \<open>Round trips\<close>

lemma takeWhile_nat_digits:
  assumes "\<not> is_digit b"
  shows "takeWhile is_digit (nat_digits n @ b # rest) = nat_digits n" "dropWhile is_digit (nat_digits n @ b # rest) = b # rest"
proof -
  have "\<forall>x \<in> set (nat_digits n). is_digit x"
  proof (induction n rule: nat_digits.induct)
    case (1 n)
    then show ?case using digit_byte(2,3) [of n] digit_byte(2,3) [of "n mod 10"] by (subst nat_digits.simps) (auto simp: is_digit_def)
  qed
  then show "takeWhile is_digit (nat_digits n @ b # rest) = nat_digits n" "dropWhile is_digit (nat_digits n @ b # rest) = b # rest"
    using assms by (simp_all add: takeWhile_append2 dropWhile_append2)
qed

lemma parse_u8_digits: "parse_u8 (nat_digits (unat (p :: u8))) = Some p"
proof -
  obtain b bs where d: "nat_digits (unat p) = b # bs" "48 \<le> b" using nat_digits_first by blast
  then have "b \<noteq> 43" by (auto simp: word_le_nat_alt)
  then show ?thesis using d(1) parse_nat_nat_digits [of "unat p"] unat_u8_less [of p] by (simp add: parse_u8_def)
qed

lemma data_type_round_trip: "data_type_try_from (data_type_to_string dt) = Some (Inr dt)"
proof (cases dt)
  case (T_Decimal p s)
  have digits: "int_to_string (uint w) = nat_digits (unat w)" "nat_digits (unat w) \<noteq> []" for w :: u8
    using nat_digits_first [of "unat w"] by (auto simp: int_to_string_def)
  have chars: "str_bytes '','' = [44]" "str_bytes '')'' = [41]" by (simp_all add: str_bytes_def)
  have no: "\<not> is_digit 44" "\<not> is_digit 41" by (simp_all add: is_digit_def)
  have cap: "decimal_captures (data_type_to_string (T_Decimal p s)) = Some (nat_digits (unat p), nat_digits (unat s))"
    by (simp add: decimal_captures_def digits chars takeWhile_nat_digits [OF no(1)] takeWhile_nat_digits [OF no(2)])
  show ?thesis unfolding T_Decimal data_type_try_from_def cap by (simp add: parse_u8_digits str_bytes_def)
qed (simp_all add: data_type_try_from_def str_bytes_def)

lemma unat_of_char: "unat (of_char c :: u8) = of_char c"
proof -
  have "of_char c < (256 :: nat)" by (rule nat_of_char_less_256)
  then show ?thesis using unat_of_nat [where 'a = 8, of "of_char c"] by (simp add: of_nat_of_char)
qed

lemma str_bytes_inverse [simp]: "bytes_str (str_bytes s) = s"
  by (induction s) (simp_all add: bytes_str_def str_bytes_def unat_of_char)

lemma str_bytes_inject [simp]: "str_bytes a = str_bytes b \<longleftrightarrow> a = b"
  by (metis str_bytes_inverse)

text \<open>The columns and the sort orders of a table as JSON values.\<close>

definition column_value :: "string \<times> data_type \<Rightarrow> ref_decimal json_value" where
  "column_value c = JV_Array [JV_String (str_bytes (fst c)), JV_String (data_type_to_string (snd c))]"

definition columns_value :: "(string \<times> data_type) list \<Rightarrow> ref_decimal json_value" where
  "columns_value columns = JV_Array (map column_value columns)"

definition pks_value :: "sort_order list \<Rightarrow> ref_decimal json_value" where
  "pks_value pks = JV_Array (map (\<lambda>pk. JV_Bool (is_desc pk)) pks)"

text \<open>They fit into the 32 bit sizes of the JSON format.\<close>

definition columns_fit :: "(string \<times> data_type) list \<Rightarrow> bool" where
  "columns_fit columns \<longleftrightarrow> value_ok ref_decimal_ops (columns_value columns)"

definition pks_fit :: "sort_order list \<Rightarrow> bool" where
  "pks_fit pks \<longleftrightarrow> length pks < 2 ^ 32"

lemma push_columns_visit: "push_columns columns = visit_seq ref_decimal_ops (map column_value columns)"
proof (induction columns)
  case (Cons c columns)
  obtain a d where c: "c = (a, d)" by (cases c)
  have one: "(\<lambda>buf. Option.bind (push_string (str_bytes a) buf) (push_string (data_type_to_string d))) =
      visit_seq ref_decimal_ops [JV_String (str_bytes a), JV_String (data_type_to_string d)]"
    by (rule ext, rename_tac buf, case_tac "push_string (str_bytes a) buf";
        case_tac "push_string (data_type_to_string d) (the (push_string (str_bytes a) buf))") simp_all
  show ?case by (rule ext) (simp add: c one Cons column_value_def [of "(a, d)"])
qed auto

lemma columns_datum_eq: "columns_fit columns \<Longrightarrow> columns_datum columns = Some (D_ByteAOwned (tape ref_decimal_ops (columns_value columns)))"
  using visit_eq(1) [of ref_decimal_ops "columns_value columns" "[]"]
  by (simp add: columns_datum_def columns_fit_def columns_value_def push_columns_visit)

lemma read_column_value: "value_ok ref_decimal_ops (column_value c) \<Longrightarrow> read_column (tape ref_decimal_ops (column_value c)) = Some c"
proof -
  let ?a = "str_bytes (fst c)" and ?d = "data_type_to_string (snd c)"
  assume ok: "value_ok ref_decimal_ops (column_value c)"
  then have len: "length ?a < 2 ^ 32" "length ?d < 2 ^ 32" "length (varlen 0x17 ?a @ varlen 0x17 ?d) < 2 ^ 32"
    by (simp_all add: column_value_def)
  have "json_iter_next (varlen 0x17 ?a @ varlen 0x17 ?d) = Some (Some (varlen 0x17 ?a, varlen 0x17 ?d))"
    "json_iter_next (varlen 0x17 ?d) = Some (Some (varlen 0x17 ?d, []))"
    using json_iter_next_item [OF read_string(1) [OF len(1)] tape_nonempty(2)] json_iter_next_item [OF read_string(1) [OF len(2), of "[]"] tape_nonempty(2)]
    by simp_all
  then show ?thesis using read_array(3) [OF len(3)] read_string(3) [OF len(1)] read_string(3) [OF len(2)]
    by (simp add: column_value_def read_column_def unwrap_def data_type_round_trip)
qed

lemma read_columns:
  assumes "columns_fit columns" "as_maybe_bytea d = Some (tape ref_decimal_ops (columns_value columns))"
  shows "read_json_array read_column d = Some columns"
proof -
  have ok: "\<forall>v \<in> set (map column_value columns). value_ok ref_decimal_ops v"
    "length (concat (map (tape ref_decimal_ops) (map column_value columns))) < 2 ^ 32"
    using assms(1) by (simp_all add: columns_fit_def columns_value_def)
  have "those (map read_column (map (tape ref_decimal_ops) (map column_value columns))) = Some columns"
    using ok(1) by (induction columns) (simp_all add: read_column_value)
  then show ?thesis using assms(2) read_array(3) [OF ok(2)] json_items_tapes [OF ok(1)]
    by (simp add: read_json_array_def columns_value_def unwrap_def)
qed

lemma push_pks: "fold (\<lambda>pk. push_bool (is_desc pk)) pks buf = buf @ concat (map (tape ref_decimal_ops) (map (\<lambda>pk. JV_Bool (is_desc pk)) pks))"
  by (induction pks arbitrary: buf) (simp_all add: push_bool_def)

lemma pks_ok: "pks_fit pks \<Longrightarrow> value_ok ref_decimal_ops (pks_value pks)"
proof -
  have "length (concat (map (tape ref_decimal_ops) (map (\<lambda>pk. JV_Bool (is_desc pk)) pks))) = length pks" by (induction pks) simp_all
  then show "pks_fit pks \<Longrightarrow> value_ok ref_decimal_ops (pks_value pks)" by (simp add: pks_fit_def pks_value_def)
qed

lemma pks_datum_eq:
  assumes "pks_fit pks"
  shows "pks_datum pks = Some (D_ByteAOwned (tape ref_decimal_ops (pks_value pks)))"
  using pks_ok [OF assms] push_array_eq(1) [of "\<lambda>buf. Some (fold (\<lambda>pk. push_bool (is_desc pk)) pks buf)" _ "[]", OF _] push_pks [of pks]
  by (simp add: pks_datum_def pks_value_def)

lemma read_pks:
  assumes "pks_fit pks" "as_maybe_bytea d = Some (tape ref_decimal_ops (pks_value pks))"
  shows "read_json_array read_sort_order d = Some pks"
proof -
  let ?vs = "map (\<lambda>pk. JV_Bool (is_desc pk)) pks :: ref_decimal json_value list"
  have ok: "\<forall>v \<in> set ?vs. value_ok ref_decimal_ops v" "length (concat (map (tape ref_decimal_ops) ?vs)) < 2 ^ 32"
    using pks_ok [OF assms(1)] by (simp_all add: pks_value_def)
  have "read_sort_order [if is_desc pk then 2 else 1] = Some pk" for pk
    by (cases pk) (simp_all add: read_sort_order_def get_boolean_def unwrap_def)
  then have "those (map read_sort_order (map (tape ref_decimal_ops) ?vs)) = Some pks" by (induction pks) simp_all
  then show ?thesis using assms(2) read_array(3) [OF ok(2)] json_items_tapes [OF ok(1)]
    by (simp add: read_json_array_def pks_value_def unwrap_def)
qed

end
