(* ===== verification/Table_Range.thy ===== *)
theory Table_Range
  imports Table_Insert Hash_Join
begin

text \<open>
  Range scans of a table (\<open>Table::range_scan\<close>) from a key, or from the first columns of a key, to itself,
  as the catalog uses them: as of a timestamp after every write they deliver the rows of the
  snapshot whose key starts with these columns.
\<close>

section \<open>Keys within a range\<close>

lemma row_bytes_split:
  assumes "valid_row D jp xs" "j \<le> length sos" "j \<le> length xs"
  shows "row_bytes D sos xs = row_bytes D (take j sos) (take j xs) @ row_bytes D (drop j sos) (drop j xs)"
  using assms
proof (induction j arbitrary: sos xs)
  case 0
  then show ?case by (simp add: row_bytes_def)
next
  case (Suc j)
  then obtain so sos' x xs' where s: "sos = so # sos'" "xs = x # xs'" by (cases sos; cases xs) auto
  have v: "valid_row D jp (x # take j xs')" "valid_row D jp (x # xs')"
    using valid_row_take_drop [OF Suc.prems(1), of "Suc j"] Suc.prems(1) by (simp_all add: s)
  show ?case using Suc.IH [of xs' sos'] Suc.prems by (simp add: s row_bytes_Cons [OF v(1)] row_bytes_Cons [OF v(2)])
qed

lemma row_bytes_first:
  assumes "valid_row D jp xs" "sos \<noteq> []" "xs \<noteq> []"
  shows "\<exists>b bs. row_bytes D sos xs = b # bs \<and> 0 < b \<and> b < 255"
proof -
  obtain so sos' x xs' where s: "sos = so # sos'" "xs = x # xs'" using assms(2,3) by (cases sos; cases xs) auto
  have v: "decimal_laws D" "valid_datum D jp x" using assms(1) by (simp_all add: s)
  have "0 < sealed_tag (datum_tag x) so \<and> sealed_tag (datum_tag x) so < 255"
    using datum_tag_cases [of x] by (cases so) (auto simp: sealed_tag_def word_gt_0)
  then show ?thesis using row_bytes_Cons [of D jp x xs' so sos'] assms(1) as_sortable_bytes_eq [OF v, of so "[]"] by (simp add: s)
qed

definition key_prefix :: "('d, 'z) decimal_ops_scheme \<Rightarrow> 'd datum list \<Rightarrow> 'd datum list \<Rightarrow> bool" where
  "key_prefix D key tup \<longleftrightarrow> row_matches D (take (length key) tup) key"

definition in_range :: "('d, 'z) decimal_ops_scheme \<Rightarrow> table \<Rightarrow> 'd datum list \<Rightarrow> bytes \<Rightarrow> bool" where
  "in_range D t key k \<longleftrightarrow> base_key D t key @ [0] \<le> k \<and> k < base_key D t key @ [255]"

lemma key_in_range:
  assumes tup: "valid_row D jp tup" "length (t_pk t) \<le> length tup"
    and key: "valid_row D jp key" "length key \<le> length (t_pk t)"
  shows "if key_prefix D key tup then in_range D t key (base_key D t tup @ [0]) else \<not> in_range D t key (base_key D t tup @ x)"
proof -
  let ?j = "length key" and ?sos = "take (length key) (t_pk t)"
  let ?h = "u32_to_be (t_id t) @ write_varint_unsigned (of_nat (length (t_pk t))) Asc []"
  let ?p = "row_bytes D ?sos key" and ?q = "row_bytes D ?sos (take ?j tup)"
  let ?r = "row_bytes D (drop ?j (t_pk t)) (drop ?j tup)"
  have P: "base_key D t key = ?h @ ?p"
    using row_bytes_split [OF key(1), of ?j "t_pk t"] key(2) by (simp add: base_key_def row_bytes_def)
  have B: "base_key D t tup = ?h @ ?q @ ?r"
    using row_bytes_split [OF tup(1), of ?j "t_pk t"] key(2) tup(2) by (simp add: base_key_def)
  have v: "valid_row D jp (take ?j tup)" "valid_row D jp (drop ?j tup)" using valid_row_take_drop [OF tup(1)] by blast+
  have len: "length ?sos \<le> length (take ?j tup)" "length ?sos \<le> length key" using key(2) tup(2) by simp_all
  have eq: "?q = ?p \<longleftrightarrow> key_prefix D key tup"
    using row_bytes_eq [OF v(1) key(1) len, of "[]" "[]"] key(2) by (simp add: key_prefix_def row_matches_def)
  show ?thesis
  proof (cases "key_prefix D key tup")
    case True
    then have B: "base_key D t tup @ [0] = base_key D t key @ ?r @ [0]" using eq P B by simp
    show ?thesis
    proof (cases "drop ?j (t_pk t) = []")
      case True
      then have "?r = []" by (simp add: row_bytes_def)
      then show ?thesis using \<open>key_prefix D key tup\<close> unfolding B in_range_def by simp
    next
      case False
      then obtain b bs where "?r = b # bs" "0 < b" "b < 255"
        using row_bytes_first [OF v(2) False] tup(2) by (auto simp: drop_eq_Nil)
      then have "base_key D t key @ [0] < base_key D t key @ ?r @ [0]" "base_key D t key @ ?r @ [0] < base_key D t key @ [255]" by simp_all
      then show ?thesis using \<open>key_prefix D key tup\<close> unfolding B in_range_def by (simp only: if_True less_imp_le simp_thms)
    qed
  next
    case False
    then consider "?q < ?p" | "?p < ?q" using eq by fastforce
    then have "\<not> in_range D t key (base_key D t tup @ x)"
    proof cases
      case 1
      from row_bytes_less [OF v(1) key(1) len 1, of "?r @ x" "[0]"]
      have "base_key D t tup @ x < base_key D t key @ [0]" by (simp add: P B)
      then show ?thesis by (auto simp: in_range_def)
    next
      case 2
      from row_bytes_less [OF key(1) v(1) len(2,1) 2, of "[255]" "?r @ x"]
      have "base_key D t key @ [255] < base_key D t tup @ x" by (simp add: P B)
      then show ?thesis by (auto simp: in_range_def)
    qed
    then show ?thesis using False by simp
  qed
qed

section \<open>The records within a range\<close>

text \<open>The part of a history that a range covers: the newest version of every selected key, and those of the
  older versions whose record lies within the range.\<close>

definition covered :: "(bytes \<Rightarrow> bool) \<Rightarrow> (bytes \<Rightarrow> bool) \<Rightarrow> 'd history \<Rightarrow> 'd history" where
  "covered inside chosen A B = (if chosen B then
     (case A B of [] \<Rightarrow> [] | v # vs \<Rightarrow> v # filter (\<lambda>w. inside (B @ u64_to_be (- 1 - fst w))) vs) else [])"

lemma covered_entries:
  assumes "chosen B \<Longrightarrow> A B \<noteq> [] \<Longrightarrow> inside (B @ [0])" "\<not> chosen B \<Longrightarrow> A B \<noteq> [] \<Longrightarrow> \<forall>x. \<not> inside (B @ x)"
  shows "(k, v) \<in> set (entries D B (covered inside chosen A B)) \<longleftrightarrow> (k, v) \<in> set (entries D B (A B)) \<and> inside k"
proof (cases "A B")
  case Nil
  then show ?thesis by (simp add: covered_def)
next
  case (Cons u vs)
  then show ?thesis
  proof (cases "chosen B")
    case True
    then have "inside (B @ [0])" using assms(1) Cons by simp
    moreover have "(k, v) \<in> history_entry D B ` {w \<in> set vs. inside (B @ u64_to_be (- 1 - fst w))} \<longleftrightarrow>
        (k, v) \<in> history_entry D B ` set vs \<and> inside k" by (force simp: history_entry_def split: prod.splits)
    ultimately show ?thesis using True Cons by (auto simp: covered_def header_entry_def split: prod.splits)
  next
    case False
    then have "\<not> inside k" if "(k, v) \<in> set (entries D B (A B))" using assms(2) Cons entries_key [OF that] by auto
    then show ?thesis using False by (auto simp: covered_def)
  qed
qed

lemma covered_Nil: "covered inside chosen A B = [] \<longleftrightarrow> \<not> chosen B \<or> A B = []"
  by (simp add: covered_def split: list.split)

lemma covered_valid:
  assumes "valid_history D jp t A"
  shows "valid_history D jp t (covered inside chosen A)"
proof -
  have ne: "covered inside chosen A B \<noteq> [] \<longleftrightarrow> chosen B \<and> A B \<noteq> []" for B by (simp add: covered_Nil)
  have "finite {B. chosen B \<and> A B \<noteq> []}" using assms by (auto simp: valid_history_def)
  moreover have "list_all (valid_version D jp t) (covered inside chosen A B) \<and> sorted_wrt (\<lambda>v w. fst w < fst v) (covered inside chosen A B)"
    if ne: "A B \<noteq> []" for B
  proof -
    obtain v vs where c: "A B = v # vs" using ne by (cases "A B") auto
    have "list_all (valid_version D jp t) (A B) \<and> sorted_wrt (\<lambda>v w. fst w < fst v) (A B)"
      using assms ne unfolding valid_history_def by blast
    then have l: "list_all (valid_version D jp t) (v # vs)" and w: "sorted_wrt (\<lambda>v w. fst w < fst v) (v # vs)" by (simp_all only: c)
    have "sorted_wrt (\<lambda>v w. fst w < fst v) (v # filter P vs)" for P using w sorted_wrt_filter [of "\<lambda>v w. fst w < fst v" vs P] by simp
    moreover have "list_all (valid_version D jp t) (v # filter P vs)" for P using l by (simp add: list_all_iff)
    moreover have "covered inside chosen A B = [] \<or> (\<exists>P. covered inside chosen A B = v # filter P vs)" unfolding covered_def c by auto
    ultimately show ?thesis by (metis list.pred_inject(1) sorted_wrt.simps(1))
  qed
  ultimately show ?thesis using assms unfolding valid_history_def ne by simp
qed

lemma covered_visible:
  assumes "chosen B" "\<forall>v \<in> set (A B). fst v < T"
  shows "visible T (covered inside chosen A B) = visible T (A B)"
  using assms by (cases "A B") (auto simp: covered_def visible_def)

lemma filter_list_all2:
  "list_all2 R xs ys \<Longrightarrow> (\<And>x y. R x y \<Longrightarrow> P x \<longleftrightarrow> Q y) \<Longrightarrow> list_all2 R (filter P xs) (filter Q ys)"
  by (induction rule: list_all2_induct) auto

lemma key_prefix_cong:
  assumes "decimal_laws D" "row_matches D xs ys"
  shows "key_prefix D key xs \<longleftrightarrow> key_prefix D key ys"
proof -
  have "row_matches D (take n xs) (take n ys)" for n using assms(2) by (simp add: row_matches_def)
  then show ?thesis using row_matches_trans [OF assms(1)] row_matches_sym [OF assms(1)] unfolding key_prefix_def by blast
qed

section \<open>Range scans\<close>

lemma range_scan_pending:
  assumes wf: "wf_table t" and rocks: "rocks_laws R contents rest" and repr: "table_repr D jp t (contents db) A"
    and key: "valid_row D jp key" "length key \<le> length (t_pk t)"
    and tup: "\<And>B. A B \<noteq> [] \<Longrightarrow> valid_tuple D jp t (tup_of B) \<and> base_key D t (tup_of B) = B"
  defines "A' \<equiv> covered (in_range D t key) (\<lambda>B. key_prefix D key (tup_of B)) A"
  shows "range_scan R D db t (Some key) (Some key) T =
      Some (index_iter_new (r_iter_seek R db (base_key D t key @ [255]) (base_key D t key @ [0])) T (t_length t))"
    and "rest (r_iter_seek R db (base_key D t key @ [255]) (base_key D t key @ [0])) = all_entries D t (groups_of tup_of A')"
    and "list_all (valid_group D jp t) (groups_of tup_of A')"
proof -
  let ?it = "r_iter_seek R db (base_key D t key @ [255]) (base_key D t key @ [0])"
  have vh: "valid_history D jp t A" "valid_history D jp t A'"
    using repr covered_valid by (auto simp: table_repr_def A'_def)
  have tup': "valid_tuple D jp t (tup_of B) \<and> base_key D t (tup_of B) = B" if "A' B \<noteq> []" for B
    using that tup by (auto simp: A'_def covered_def split: if_splits list.splits)
  note g = groups_entries [OF wf vh(2) tup']
  show "list_all (valid_group D jp t) (groups_of tup_of A')" by (rule g(1))
  show "range_scan R D db t (Some key) (Some key) T = Some (index_iter_new ?it T (t_length t))"
    using write_range_key_eq [OF key(1), of t] by (simp add: range_scan_def)
  have e: "(k, v) \<in> set (entries D B (A' B)) \<longleftrightarrow> (k, v) \<in> set (entries D B (A B)) \<and> in_range D t key k" for k v B
  proof -
    have "if key_prefix D key (tup_of B) then in_range D t key (B @ [0]) else \<not> in_range D t key (B @ x)" if "A B \<noteq> []" for x
      using key_in_range [OF _ _ key, of "tup_of B" x] tup [OF that] wf by (simp add: valid_tuple_def wf_table_def split: if_splits)
    then show ?thesis unfolding A'_def by (intro covered_entries) (auto split: if_splits)
  qed
  have inr: "in_table t k" if "(k, v) \<in> set (entries D B (A B))" for k v B
  proof -
    have "is_base D jp t B" using that vh(1) by (cases "A B") (auto simp: valid_history_def)
    then show ?thesis using entries_key [OF that] is_base_in_table by blast
  qed
  have "set (rest ?it) = {(k, v). contents db k = Some v \<and> in_range D t key k \<and> in_table t k}"
    unfolding rocks_seek_set [OF rocks] by (auto simp: in_table_def in_range_def base_key_def)
  also have "\<dots> = {(k, v). \<exists>B. (k, v) \<in> set (entries D B (A' B))}"
    using repr inr e by (fastforce simp: table_repr_def)
  finally show "rest ?it = all_entries D t (groups_of tup_of A')"
    using sorted_entries_unique [OF rocks_seek_sorted [OF rocks] g(2)] g(3) by simp
qed

lemma filter_sorted_set:
  assumes "finite {x. Q x}"
  shows "sorted_list_of_set {x. Q x \<and> P x} = filter P (sorted_list_of_set {x. Q x})"
proof (rule sorted_distinct_set_unique)
  have fin: "finite {x. Q x \<and> P x}" by (rule finite_subset [OF _ assms]) auto
  show "sorted (sorted_list_of_set {x. Q x \<and> P x})" "distinct (sorted_list_of_set {x. Q x \<and> P x})" by simp_all
  show "sorted (filter P (sorted_list_of_set {x. Q x}))" "distinct (filter P (sorted_list_of_set {x. Q x}))"
    by (simp_all add: sorted_wrt_filter)
  show "set (sorted_list_of_set {x. Q x \<and> P x}) = set (filter P (sorted_list_of_set {x. Q x}))" using assms fin by auto
qed

text \<open>The rows of the covered part of the history.\<close>

lemma covered_rows:
  assumes wf: "wf_table t" and A: "\<And>B v. v \<in> set (A B) \<Longrightarrow> fst v < T" and fin: "finite {B. A B \<noteq> []}"
    and tup: "\<And>B. A B \<noteq> [] \<Longrightarrow> valid_tuple D jp t (tup_of B)" and key: "length key \<le> length (t_pk t)"
  shows "visible_rows t T (groups_of tup_of (covered inside (\<lambda>B. key_prefix D key (tup_of B)) A)) =
    filter (\<lambda>r. key_prefix D key (fst r)) (visible_rows t T (groups_of tup_of A))"
proof -
  let ?ch = "\<lambda>B. key_prefix D key (tup_of B)" and ?n = "length (t_pk t)"
  let ?A' = "covered inside ?ch A" and ?Bs = "sorted_list_of_set {B. A B \<noteq> []}"
  let ?row = "\<lambda>A B. case visible T (A B) of None \<Rightarrow> [] | Some (ts, f, r) \<Rightarrow> [(take ?n (tup_of B) @ r, f)]"
  have "{B. ?A' B \<noteq> []} = {B. A B \<noteq> [] \<and> ?ch B}" by (auto simp: covered_Nil)
  then have Bs: "sorted_list_of_set {B. ?A' B \<noteq> []} = filter ?ch ?Bs" using filter_sorted_set [OF fin, of ?ch] by simp
  have rows: "visible_rows t T (groups_of tup_of A) = concat (map (?row A) ?Bs)"
    by (simp add: visible_rows_def groups_of_def comp_def)
  have one: "?row ?A' B = filter (\<lambda>r. key_prefix D key (fst r)) (?row A B)" if "A B \<noteq> []" "?ch B" for B
    using covered_visible [of ?ch B A T inside] that A tup [OF that(1)] key wf
    by (auto simp: key_prefix_def valid_tuple_def wf_table_def min_def split: option.splits)
  have none: "filter (\<lambda>r. key_prefix D key (fst r)) (?row A B) = []" if "A B \<noteq> []" "\<not> ?ch B" for B
    using that tup [OF that(1)] key wf by (auto simp: key_prefix_def valid_tuple_def wf_table_def min_def split: option.splits)
  have "concat (map (?row ?A') (filter ?ch Bs)) = filter (\<lambda>r. key_prefix D key (fst r)) (concat (map (?row A) Bs))"
    if "\<forall>B \<in> set Bs. A B \<noteq> []" for Bs
    using that one none by (induction Bs) auto
  from this [of ?Bs] show ?thesis using fin unfolding rows by (simp add: visible_rows_def groups_of_def comp_def Bs)
qed

lemma written_tuples:
  assumes "list_all (valid_write D jp t) ws"
  shows "\<exists>tup_of. \<forall>B \<in> set (map (\<lambda>(tup, ts, f). base_key D t tup) ws). valid_tuple D jp t (tup_of B) \<and> base_key D t (tup_of B) = B"
proof (intro bchoice ballI)
  fix B assume "B \<in> set (map (\<lambda>(tup, ts, f). base_key D t tup) ws)"
  then obtain u where "u \<in> set ws" "base_key D t (fst u) = B" by auto
  then show "\<exists>tup. valid_tuple D jp t tup \<and> base_key D t tup = B"
    using assms valid_write_tuple [of D jp t u] by (auto simp: list_all_iff)
qed

lemma range_scan_holds:
  assumes wf: "wf_table t" and rocks: "rocks_laws R contents rest" and laws: "decimal_laws D"
    and holds: "table_holds D jp t (contents db) ws" and T: "\<forall>w \<in> set ws. fst (snd w) < T"
    and key: "valid_row D jp key" "length key \<le> length (t_pk t)"
  shows "\<exists>it rows. range_scan R D db t (Some key) (Some key) T = Some it \<and> yields (index_advance R D jp) index_get it rows \<and>
    rows_match D rows (filter (\<lambda>r. key_prefix D key (fst r)) (snapshot D t T ws))"
proof -
  have ws: "list_all (valid_write D jp t) ws" "sorted_wrt (\<le>) (map (fst \<circ> snd) ws)" and repr: "table_repr D jp t (contents db) (history_after D t ws)"
    using holds by (simp_all add: table_holds_def)
  obtain tup_of where tup: "\<And>B. B \<in> set (map (\<lambda>(tup, ts, f). base_key D t tup) ws) \<Longrightarrow> valid_tuple D jp t (tup_of B) \<and> base_key D t (tup_of B) = B"
    using written_tuples [OF ws(1)] by blast
  let ?A = "history_after D t ws"
  let ?A' = "covered (in_range D t key) (\<lambda>B. key_prefix D key (tup_of B)) ?A"
  have tA: "valid_tuple D jp t (tup_of B) \<and> base_key D t (tup_of B) = B" if "?A B \<noteq> []" for B
    using that tup unfolding history_after_Nil by blast
  note p = range_scan_pending [where A = ?A, OF wf rocks repr key tA]
  obtain rows where rows: "list_yields D jp T (right_size_new_to (t_length t)) (all_entries D t (groups_of tup_of ?A')) rows"
    "rows_match D rows (visible_rows t T (groups_of tup_of ?A'))"
  proof -
    have "valid_tuple D jp t (right_size_new_to (t_length t))"
      using laws by (simp add: valid_tuple_def valid_row_def right_size_new_to_def list_all_iff)
    then show ?thesis
      using list_yields_groups [OF wf p(3), of "right_size_new_to (t_length t)" "[]" "right_size_new_to (t_length t)" T] that
      by (auto simp: right_size_new_to_def)
  qed
  have "fst v < T" if "v \<in> set (?A B)" for B v using history_ts [OF that] T by auto
  moreover have "finite {B. ?A B \<noteq> []}" using repr by (simp add: table_repr_def valid_history_def)
  ultimately have vis: "visible_rows t T (groups_of tup_of ?A') = filter (\<lambda>r. key_prefix D key (fst r)) (visible_rows t T (groups_of tup_of ?A))"
    using covered_rows [OF wf _ _ _ key(2)] tA by blast
  have "rows_match D (filter (\<lambda>r. key_prefix D key (fst r)) (visible_rows t T (groups_of tup_of ?A)))
      (filter (\<lambda>r. key_prefix D key (fst r)) (snapshot D t T ws))"
    using visible_rows_snapshot [OF wf laws ws tup] unfolding rows_match_def
    by (rule filter_list_all2) (auto simp: key_prefix_cong [OF laws])
  then have "rows_match D rows (filter (\<lambda>r. key_prefix D key (fst r)) (snapshot D t T ws))"
    using rows_match_trans [OF laws rows(2)] vis by simp
  moreover have "yields (index_advance R D jp) index_get
      (index_iter_new (r_iter_seek R db (base_key D t key @ [255]) (base_key D t key @ [0])) T (t_length t)) rows"
    by (rule list_yields_index [OF rocks rows(1)]) (simp_all add: index_iter_new_def pending_def p(2))
  ultimately show ?thesis using p(1) by blast
qed

end
