(* ===== verification/Catalog_Logs.thy ===== *)
theory Catalog_Logs
  imports Catalog Table_Range
begin

text \<open>
  The state of the catalog as the writes that its three system tables hold: what the checks and the
  lookups find, the effect of a committed batch, and how the writes describe an abstract catalog,
  a set of database names with a map from database and object name to items.
\<close>

section \<open>Assumptions on the environment\<close>

definition catalog_env_laws ::
  "('d, 'db, 'it) catalog_env \<Rightarrow> ('db \<Rightarrow> bytes \<rightharpoonup> bytes) \<Rightarrow> ('it \<Rightarrow> (bytes \<times> bytes) list) \<Rightarrow> bool" where
  "catalog_env_laws env contents rest \<longleftrightarrow>
     rocks_laws (k_rocks env) contents rest \<and> decimal_laws (k_decimal env) \<and>
     mono (k_now env) \<and> (\<forall>n. unat (k_now env n) < 255 * 2 ^ 56) \<and>
     (\<forall>db a b. \<exists>db'. k_delete_range env db a b = Inr db' \<and>
        contents db' = (\<lambda>k. if a \<le> k \<and> k < b then None else contents db k))"

lemma catalog_env_lawsD:
  assumes "catalog_env_laws env contents rest"
  shows "rocks_laws (k_rocks env) contents rest" "decimal_laws (k_decimal env)" "mono (k_now env)" "unat (k_now env n) < 255 * 2 ^ 56"
  using assms by (simp_all add: catalog_env_laws_def)

section \<open>The writes of the system tables\<close>

definition system_tables :: "table set" where
  "system_tables = {prefix_metadata_table, databases_table, tables_table}"

type_synonym 'd logs = "table \<Rightarrow> ('d datum list \<times> u64 \<times> i64) list"

definition logs_hold ::
  "('d, 'z) decimal_ops_scheme \<Rightarrow> (bytes \<Rightarrow> json_path_selector list option) \<Rightarrow> (bytes \<rightharpoonup> bytes) \<Rightarrow> 'd logs \<Rightarrow> bool" where
  "logs_hold D jp m ws \<longleftrightarrow> (\<forall>t \<in> system_tables. table_holds D jp t m (ws t))"

definition logs_until :: "u64 \<Rightarrow> 'd logs \<Rightarrow> bool" where
  "logs_until T ws \<longleftrightarrow> (\<forall>t \<in> system_tables. \<forall>w \<in> set (ws t). fst (snd w) \<le> T)"

definition catalog_logs ::
  "('d, 'db, 'it) catalog_env \<Rightarrow> ('db \<Rightarrow> bytes \<rightharpoonup> bytes) \<Rightarrow> 'db catalog \<Rightarrow> 'd logs \<Rightarrow> bool" where
  "catalog_logs env contents self ws \<longleftrightarrow>
     logs_hold (k_decimal env) (k_path env) (contents (cat_db self)) ws \<and> logs_until (k_now env (cat_ticks self)) ws"

lemma system_tables_wf: "t \<in> system_tables \<Longrightarrow> wf_table t"
  by (auto simp: system_tables_def wf_table_def prefix_metadata_table_def databases_table_def tables_table_def)

lemma system_tables_id: "t \<in> system_tables \<Longrightarrow> t' \<in> system_tables \<Longrightarrow> t_id t = t_id t' \<Longrightarrow> t = t'"
  by (auto simp: system_tables_def prefix_metadata_table_def databases_table_def tables_table_def)

lemma system_tablesI [simp]: "prefix_metadata_table \<in> system_tables" "databases_table \<in> system_tables" "tables_table \<in> system_tables"
  by (simp_all add: system_tables_def)

lemma tables_distinct [simp]:
  "prefix_metadata_table \<noteq> databases_table" "databases_table \<noteq> prefix_metadata_table" "prefix_metadata_table \<noteq> tables_table"
  "tables_table \<noteq> prefix_metadata_table" "databases_table \<noteq> tables_table" "tables_table \<noteq> databases_table"
  by (simp_all add: prefix_metadata_table_def databases_table_def tables_table_def)

lemma table_shapes [simp]:
  "t_length prefix_metadata_table = 3" "t_pk prefix_metadata_table = [Asc]" "t_length databases_table = 1" "t_pk databases_table = [Asc]"
  "t_length tables_table = 8" "t_pk tables_table = [Asc, Asc]"
  "t_id prefix_metadata_table = 0" "t_id databases_table = 2" "t_id tables_table = 4"
  by (simp_all add: prefix_metadata_table_def databases_table_def tables_table_def)

lemma in_table_unique: "in_table t k \<Longrightarrow> in_table t' k \<Longrightarrow> t_id t = t_id t'"
  unfolding in_table_def by (metis u32_be_inverse)

lemma table_holds_cong: "(\<And>k. in_table t k \<Longrightarrow> m k = m' k) \<Longrightarrow> table_holds D jp t m A \<longleftrightarrow> table_holds D jp t m' A"
  by (auto simp: table_holds_def table_repr_def)

lemma apply_batch_frame:
  "(\<forall>b \<in> set ops. \<exists>k v. b = Put k v \<and> in_table t k) \<Longrightarrow> \<not> in_table t k' \<Longrightarrow> apply_batch ops m k' = m k'"
  by (induction ops arbitrary: m) (auto simp: apply_batch_Cons)

lemma logs_write:
  assumes laws: "catalog_env_laws env contents rest" and t: "t \<in> system_tables"
    and logs: "logs_hold (k_decimal env) (k_path env) (apply_batch (write_batch w) (contents db)) ws"
    and tup: "valid_tuple (k_decimal env) (k_path env) t tup"
    and ts: "\<forall>u \<in> set (ws t). fst (snd u) \<le> k_now env n"
  shows "\<exists>w'. writer_write_tuple (k_rocks env) (k_decimal env) db t tup (k_now env n) f w = Some (Inr w') \<and>
    logs_hold (k_decimal env) (k_path env) (apply_batch (write_batch w') (contents db)) (ws(t := ws t @ [(tup, k_now env n, f)]))"
proof -
  let ?D = "k_decimal env" and ?ts = "k_now env n" and ?m = "apply_batch (write_batch w) (contents db)"
  have wf: "wf_table t" using system_tables_wf [OF t] .
  have holds: "table_holds ?D (k_path env) t ?m (ws t)" using logs t by (simp add: logs_hold_def)
  have repr: "table_repr ?D (k_path env) t ?m (history_after ?D t (ws t))" using holds by (simp add: table_holds_def)
  have late: "fst v \<le> ?ts" if "v \<in> set (history_after ?D t (ws t) (base_key ?D t tup))" for v
    using history_ts [OF that] ts by auto
  obtain w' where w': "writer_write_tuple (k_rocks env) ?D db t tup ?ts f w = Some (Inr w')"
    "table_repr ?D (k_path env) t (apply_batch (write_batch w') (contents db)) (history_after ?D t (ws t @ [(tup, ?ts, f)]))"
    using writer_write_tuple_repr [OF wf catalog_env_lawsD(1) [OF laws] tup catalog_env_lawsD(4) [OF laws] repr late, of f]
    unfolding history_after_snoc record_write_def prod.case by blast
  obtain ops where ops: "write_batch w' = write_batch w @ ops" "\<forall>b \<in> set ops. \<exists>k v. b = Put k v \<and> in_table t k"
    using writer_write_tuple_frame [OF tup wf w'(1)] by blast
  have "table_holds ?D (k_path env) t (apply_batch (write_batch w') (contents db)) (ws t @ [(tup, ?ts, f)])"
    using w'(2) holds tup ts catalog_env_lawsD(4) [OF laws]
    by (auto simp: table_holds_def valid_write_def sorted_wrt_append)
  moreover have "table_holds ?D (k_path env) t' (apply_batch (write_batch w') (contents db)) (ws t')"
    if "t' \<in> system_tables" "t' \<noteq> t" for t'
  proof -
    have e: "apply_batch (write_batch w') (contents db) k = ?m k" if "in_table t' k" for k
      using apply_batch_frame [OF ops(2), of k] in_table_unique [OF that, of t] system_tables_id [OF \<open>t' \<in> system_tables\<close> t] \<open>t' \<noteq> t\<close>
      by (auto simp: ops(1) apply_batch_append)
    show ?thesis using table_holds_cong [of t' "apply_batch (write_batch w') (contents db)" ?m ?D "k_path env" "ws t'", OF e] logs that
      by (simp add: logs_hold_def)
  qed
  ultimately show ?thesis using w'(1) by (auto simp: logs_hold_def)
qed

lemma write_catalog_eq:
  assumes laws: "catalog_env_laws env contents rest"
    and batch: "batch writer_new = Some (Inr w)"
    and logs: "logs_hold (k_decimal env) (k_path env) (apply_batch (write_batch w) (contents (cat_db self))) ws"
      "logs_until (k_now env (cat_ticks self)) ws"
  shows "\<exists>self'. write_catalog env self batch = Some (self', Inr ()) \<and> cat_ticks self' = cat_ticks self \<and> catalog_logs env contents self' ws"
proof -
  obtain db' where "r_write (k_rocks env) (cat_db self) (write_batch w) = Inr db'" "contents db' = apply_batch (write_batch w) (contents (cat_db self))"
    using rocks_write [OF catalog_env_lawsD(1) [OF laws]] by blast
  then show ?thesis using batch logs by (auto simp: write_catalog_def atomic_write_def catalog_logs_def)
qed

section \<open>Reading\<close>

lemma before_max: "unat (ts :: u64) < 255 * 2 ^ 56 \<Longrightarrow> ts < - 1"
proof -
  assume "unat ts < 255 * 2 ^ 56"
  moreover have "unat (- 1 :: u64) = 2 ^ 64 - 1" by (simp add: unsigned_minus_1_eq_mask mask_eq_exp_minus_1)
  ultimately show "ts < - 1" by (simp add: word_less_nat_alt)
qed

definition rows_with :: "('d, 'z) decimal_ops_scheme \<Rightarrow> table \<Rightarrow> ('d datum list \<times> u64 \<times> i64) list \<Rightarrow> 'd datum list \<Rightarrow> 'd row list" where
  "rows_with D t ws key = filter (\<lambda>r. key_prefix D key (fst r)) (snapshot D t (- 1) ws)"

lemma first_row_eq:
  assumes laws: "catalog_env_laws env contents rest" and t: "t \<in> system_tables"
    and holds: "table_holds (k_decimal env) (k_path env) t (contents db) ws"
    and key: "valid_row (k_decimal env) (k_path env) key" "length key \<le> length (t_pk t)"
  shows "\<exists>r. first_row env db t key = Some (Inr r) \<and>
    (case rows_with (k_decimal env) t ws key of [] \<Rightarrow> r = None
     | row # _ \<Rightarrow> \<exists>tup. r = Some (tup, snd row) \<and> row_matches (k_decimal env) tup (fst row))"
proof -
  let ?D = "k_decimal env"
  have T: "\<forall>w \<in> set ws. fst (snd w) < - 1"
    using holds before_max by (fastforce simp: table_holds_def list_all_iff valid_write_def)
  obtain it rows where it: "range_scan (k_rocks env) ?D db t (Some key) (Some key) (- 1) = Some it"
    "yields (index_advance (k_rocks env) ?D (k_path env)) index_get it rows" "rows_match ?D rows (rows_with ?D t ws key)"
    using range_scan_holds [OF system_tables_wf [OF t] catalog_env_lawsD(1,2) [OF laws] holds T key] by (auto simp: rows_with_def)
  from it(2) show ?thesis
  proof cases
    case yields_end
    then have "rows_with ?D t ws key = []" using it(3) by (simp add: rows_match_def)
    then show ?thesis using it(1) yields_end by (simp add: first_row_def)
  next
    case (yields_row s' r rs)
    obtain tup f where "r = (tup, f)" by (cases r)
    then show ?thesis using it(1,3) yields_row by (auto simp: first_row_def rows_match_def list_all2_Cons1)
  qed
qed

lemma row_exists_eq:
  assumes "catalog_env_laws env contents rest" "t \<in> system_tables" "catalog_logs env contents self ws"
    "valid_row (k_decimal env) (k_path env) key" "length key \<le> length (t_pk t)"
  shows "row_exists env self t key = Some (Inr (rows_with (k_decimal env) t (ws t) key \<noteq> []))"
proof -
  have "table_holds (k_decimal env) (k_path env) t (contents (cat_db self)) (ws t)"
    using assms(2,3) by (simp add: catalog_logs_def logs_hold_def)
  from first_row_eq [OF assms(1,2) this assms(4,5)] show ?thesis
    by (cases "rows_with (k_decimal env) t (ws t) key") (auto simp: row_exists_def)
qed

text \<open>Whole keys select at most one row.\<close>

abbreviation key_freq :: "('d, 'z) decimal_ops_scheme \<Rightarrow> 'd logs \<Rightarrow> table \<Rightarrow> 'd datum list \<Rightarrow> i64" where
  "key_freq D ws t key \<equiv> freq_as_of D t (- 1) (ws t) (base_key D t key)"

abbreviation key_row :: "('d, 'z) decimal_ops_scheme \<Rightarrow> 'd logs \<Rightarrow> table \<Rightarrow> 'd datum list \<Rightarrow> 'd datum list" where
  "key_row D ws t key \<equiv> tuple_as_of D t (- 1) (ws t) (base_key D t key)"

lemma key_prefix_base:
  assumes "valid_row D jp tup" "valid_row D jp key" "length (t_pk t) \<le> length tup" "length key = length (t_pk t)"
  shows "key_prefix D key tup \<longleftrightarrow> base_key D t tup = base_key D t key"
  using base_key_eq [OF assms(1,2,3), of "[]" "[]"] assms(4) by (simp add: key_prefix_def row_matches_def)

lemma filter_eq_single: "distinct xs \<Longrightarrow> filter (\<lambda>x. x = a) xs = (if a \<in> set xs then [a] else [])"
  by (induction xs) auto

lemma rows_with_key:
  assumes wf: "wf_table t" and ws: "list_all (valid_write D jp t) ws"
    and key: "valid_row D jp key" "length key = length (t_pk t)"
  shows "rows_with D t ws key = (let B = base_key D t key in
    if freq_as_of D t (- 1) ws B = 0 then [] else [(tuple_as_of D t (- 1) ws B, freq_as_of D t (- 1) ws B)])"
proof -
  let ?B = "base_key D t key" and ?f = "freq_as_of D t (- 1) ws" and ?u = "tuple_as_of D t (- 1) ws"
  let ?Bs = "sort (remdups (map (\<lambda>(tup, ts, f). base_key D t tup) ws))"
  have sel: "key_prefix D key (?u B) \<longleftrightarrow> B = ?B" if "?f B \<noteq> 0" for B
    using key_prefix_base [of D jp "?u B" key t] tuple_as_of_valid [OF ws that] key wf by (simp add: valid_tuple_def wf_table_def)
  have mem: "?B \<in> set ?Bs" if nz: "?f ?B \<noteq> 0"
  proof -
    obtain x xs where "key_writes D t (- 1) ws ?B = x # xs" using key_writes_nonempty [OF nz] by (cases "key_writes D t (- 1) ws ?B") auto
    then have "x \<in> set ws \<and> base_key D t (fst x) = ?B" using key_writes_mem [of x D t "- 1" ws ?B] by simp
    then have "x \<in> set ws" "?B = (\<lambda>(tup, ts, f). base_key D t tup) x" by (simp_all add: case_prod_beta)
    then show ?thesis by simp
  qed
  have "filter (\<lambda>B. key_prefix D key (?u B)) (filter (\<lambda>B. ?f B \<noteq> 0) ?Bs) = filter (\<lambda>B. ?f B \<noteq> 0) (filter (\<lambda>B. B = ?B) ?Bs)"
    unfolding filter_filter by (rule filter_cong) (auto simp: sel)
  also have "\<dots> = (if ?f ?B = 0 then [] else [?B])" using mem by (subst filter_eq_single) auto
  finally show ?thesis by (simp add: rows_with_def snapshot_def filter_map comp_def Let_def)
qed

lemma base_key_take: "base_key D t xs = base_key D t (take (length (t_pk t)) xs)"
  using row_bytes_take [of D "t_pk t" xs] by (simp add: base_key_def)

lemma base_of_key:
  assumes "wf_table t" "valid_row D jp key" "length key = length (t_pk t)" "decimal_laws D"
  shows "is_base D jp t (base_key D t key)"
proof -
  let ?tup = "key @ replicate (t_length t - length key) D_Null"
  have "valid_tuple D jp t ?tup" using assms by (auto simp: valid_tuple_def wf_table_def valid_row_def list_all_iff)
  moreover have "base_key D t ?tup = base_key D t key" using assms(3) by (subst base_key_take) simp
  ultimately show ?thesis by (auto simp: is_base_def intro!: exI [of _ ?tup])
qed

text \<open>The newest version of a key after a sequence of writes.\<close>

lemma history_newest:
  fixes B :: bytes
  assumes ws: "list_all (valid_write D jp t) ws"
  defines "xs \<equiv> filter (\<lambda>(tup, ts, f). base_key D t tup = B) ws"
  shows "key_writes D t (- 1) ws B = xs"
    and "xs \<noteq> [] \<Longrightarrow> \<exists>ts vs. history_after D t ws B =
      (ts, freq_as_of D t (- 1) ws B, drop (length (t_pk t)) (tuple_as_of D t (- 1) ws B)) # vs"
proof -
  let ?n = "length (t_pk t)"
  let ?g = "\<lambda>(tup, ts :: u64, f :: i64). (ts, f, drop ?n tup)"
  show kw: "key_writes D t (- 1) ws B = xs"
    unfolding key_writes_def xs_def using ws before_max by (intro filter_cong) (auto simp: list_all_iff valid_write_def)
  assume ne: "xs \<noteq> []"
  have "map (\<lambda>v. fst (snd v)) (map ?g xs) = map (\<lambda>(tup, ts, f). f) xs" by (simp add: case_prod_beta)
  then have "sum_list (map (\<lambda>v. fst (snd v)) (map ?g xs)) = freq_as_of D t (- 1) ws B" unfolding freq_as_of_def kw by (rule arg_cong)
  moreover have "snd (snd (last (map ?g xs))) = drop ?n (tuple_as_of D t (- 1) ws B)"
    using ne by (simp add: last_map tuple_as_of_def kw case_prod_beta)
  ultimately show "\<exists>ts vs. history_after D t ws B = (ts, freq_as_of D t (- 1) ws B, drop ?n (tuple_as_of D t (- 1) ws B)) # vs"
    using push_versions_head [of "map ?g xs"] ne unfolding history_after_key xs_def by auto
qed

lemma lookup_item_eq:
  fixes env :: "('d, 'db, 'it) catalog_env"
  assumes laws: "catalog_env_laws env contents rest" and t: "t \<in> system_tables"
    and holds: "table_holds (k_decimal env) (k_path env) t (contents db) ws"
    and key: "valid_row (k_decimal env) (k_path env) key" "length key = length (t_pk t)"
  defines "B \<equiv> base_key (k_decimal env) t key"
  shows "\<exists>r. lookup_item env db t key = Some (Inr r) \<and>
    (if freq_as_of (k_decimal env) t (- 1) ws B = 0 then r = None \<or> (\<exists>zs. r = Some (0, zs))
     else \<exists>zs. r = Some (freq_as_of (k_decimal env) t (- 1) ws B, zs) \<and>
       row_matches (k_decimal env) zs (drop (length (t_pk t)) (tuple_as_of (k_decimal env) t (- 1) ws B)))"
proof -
  let ?D = "k_decimal env" and ?n = "length (t_pk t)" and ?u = "tuple_as_of (k_decimal env) t (- 1) ws B"
  let ?f = "freq_as_of (k_decimal env) t (- 1) ws B" and ?xs = "filter (\<lambda>(tup, ts, f). base_key (k_decimal env) t tup = B) ws"
  have wf: "wf_table t" using system_tables_wf [OF t] .
  have ws: "list_all (valid_write ?D (k_path env) t) ws" and repr: "table_repr ?D (k_path env) t (contents db) (history_after ?D t ws)"
    using holds by (simp_all add: table_holds_def)
  have base: "is_base ?D (k_path env) t B" unfolding B_def using base_of_key [OF wf key catalog_env_lawsD(2) [OF laws]] .
  note look = table_repr_lookup [OF wf repr base, of "[0]", unfolded entries_header]
  have pk: "write_index_header_key ?D t key = Some (B @ [0])" unfolding B_def using write_index_header_key_eq [OF key(1)] key(2) by simp
  show ?thesis
  proof (cases "?xs = []")
    case True
    then have "?f = 0" "history_after ?D t ws B = []"
      using history_newest(1) [OF ws, of B] by (simp_all add: freq_as_of_def history_after_key)
    then have "contents db (B @ [0]) = None" using look by (cases "contents db (B @ [0])") auto
    then have "lookup_item env db t key = Some (Inr None)"
      using pk rocks_get [OF catalog_env_lawsD(1) [OF laws]] by (simp add: lookup_item_def system_point_lookup_def)
    then show ?thesis using \<open>?f = 0\<close> by simp
  next
    case False
    obtain ts vs where h: "history_after ?D t ws B = (ts, ?f, drop ?n ?u) # vs" using history_newest(2) [OF ws False] by blast
    have "last ?xs \<in> set ?xs" using False by (rule last_in_set)
    then have "valid_tuple ?D (k_path env) t ?u"
      using ws valid_write_tuple [of ?D "k_path env" t "last ?xs"] history_newest(1) [OF ws, of B] by (auto simp: tuple_as_of_def list_all_iff)
    then have "valid_row ?D (k_path env) (drop ?n ?u)" "length (drop ?n ?u) < 2 ^ 64"
      using valid_row_take_drop [of ?D "k_path env" ?u ?n] wf by (auto simp: valid_tuple_def wf_table_def)
    moreover have "contents db (base_key ?D t key @ [0]) = Some (le_bytes 8 (unat ts) @ payload ?D ?f (drop ?n ?u))"
      using look h by (simp add: B_def)
    ultimately obtain zs where "system_point_lookup (k_rocks env) ?D (k_path env) db t key = Some (Inr (Some (?f, zs)))"
      "row_matches ?D zs (drop ?n ?u)"
      using lookup_header [OF wf catalog_env_lawsD(1) [OF laws] key(1)] key(2) by force
    then show ?thesis by (auto simp: lookup_item_def)
  qed
qed

section \<open>The abstract catalog\<close>

record abs_catalog =
  ac_databases :: "string set"
  ac_items :: "string \<times> string \<Rightarrow> catalog_item option"

definition has_table :: "abs_catalog \<Rightarrow> string \<times> string \<Rightarrow> table \<Rightarrow> bool" where
  "has_table S k t \<longleftrightarrow> (\<exists>it. ac_items S k = Some it \<and> ci_item it = TV_Table t)"

definition table_ids :: "abs_catalog \<Rightarrow> u32 set" where
  "table_ids S = {t_id t | k t. has_table S k t}"

text \<open>The rows of an item in the two tables that describe it.\<close>

definition columns_json :: "(string \<times> data_type) list \<Rightarrow> 'd datum" where
  "columns_json columns = D_ByteAOwned (tape ref_decimal_ops (columns_value columns))"

definition pks_json :: "sort_order list \<Rightarrow> 'd datum" where
  "pks_json pks = D_ByteAOwned (tape ref_decimal_ops (pks_value pks))"

definition item_row :: "string \<Rightarrow> string \<Rightarrow> catalog_item \<Rightarrow> bool \<Rightarrow> 'd datum list" where
  "item_row db name it system =
     text_datum db # text_datum name # (case ci_item it of
         TV_Table t \<Rightarrow> [text_datum ''table'', D_Null, D_Null, id_datum (t_id t)]
       | TV_View v \<Rightarrow> [text_datum ''view'', text_datum (v_sql v), text_datum (v_db_context v), D_Null]) @
     [columns_json (ci_columns it), D_Boolean system]"

definition meta_row :: "table \<Rightarrow> 'd datum list" where
  "meta_row t = [id_datum (t_id t), D_Integer (of_nat (t_length t)), pks_json (t_pk t)]"

definition item_ok :: "catalog_item \<Rightarrow> bool" where
  "item_ok it \<longleftrightarrow> columns_fit (ci_columns it) \<and>
     (case ci_item it of
        TV_Table t \<Rightarrow> t_id t AND 1 = 0 \<and> t_length t = length (ci_columns it) \<and> length (t_pk t) \<le> t_length t \<and> pks_fit (t_pk t)
      | TV_View v \<Rightarrow> True)"

text \<open>The writes to the system tables describe an abstract catalog.\<close>

definition databases_described :: "('d, 'z) decimal_ops_scheme \<Rightarrow> 'd logs \<Rightarrow> string set \<Rightarrow> bool" where
  "databases_described D ws dbs \<longleftrightarrow> (\<forall>w \<in> set (ws databases_table). \<exists>n. fst w = [text_datum n]) \<and>
     (\<forall>n. key_freq D ws databases_table [text_datum n] = of_bool (n \<in> dbs))"

definition items_described :: "('d, 'z) decimal_ops_scheme \<Rightarrow> 'd logs \<Rightarrow> abs_catalog \<Rightarrow> bool" where
  "items_described D ws S \<longleftrightarrow>
     (\<forall>w \<in> set (ws tables_table). \<exists>db n. key_prefix D [text_datum db, text_datum n] (fst w)) \<and>
     (\<forall>db n. key_freq D ws tables_table [text_datum db, text_datum n] = of_bool (ac_items S (db, n) \<noteq> None)) \<and>
     (\<forall>db n it. ac_items S (db, n) = Some it \<longrightarrow> item_ok it \<and>
        (\<exists>system. key_row D ws tables_table [text_datum db, text_datum n] = item_row db n it system))"

definition metas_described :: "('d, 'z) decimal_ops_scheme \<Rightarrow> 'd logs \<Rightarrow> abs_catalog \<Rightarrow> bool" where
  "metas_described D ws S \<longleftrightarrow>
     (\<forall>i. key_freq D ws prefix_metadata_table [id_datum i] = of_bool (i \<in> table_ids S)) \<and>
     (\<forall>k t. has_table S k t \<longrightarrow> key_row D ws prefix_metadata_table [id_datum (t_id t)] = meta_row t) \<and>
     (\<forall>k k' t t'. has_table S k t \<longrightarrow> has_table S k' t' \<longrightarrow> t_id t = t_id t' \<longrightarrow> k = k')"

definition describes :: "('d, 'z) decimal_ops_scheme \<Rightarrow> 'd logs \<Rightarrow> abs_catalog \<Rightarrow> bool" where
  "describes D ws S \<longleftrightarrow> databases_described D ws (ac_databases S) \<and> items_described D ws S \<and> metas_described D ws S"

definition catalog_repr ::
  "('d, 'db, 'it) catalog_env \<Rightarrow> ('db \<Rightarrow> bytes \<rightharpoonup> bytes) \<Rightarrow> 'db catalog \<Rightarrow> abs_catalog \<Rightarrow> bool" where
  "catalog_repr env contents self S \<longleftrightarrow> (\<exists>ws. catalog_logs env contents self ws \<and> describes (k_decimal env) ws S)"

section \<open>Keys and rows\<close>

definition plain :: "'d datum \<Rightarrow> bool" where
  "plain d \<longleftrightarrow> as_maybe_decimal d = None \<and> as_maybe_jsonpath d = None"

lemma plain_valid: "plain d \<Longrightarrow> valid_datum D jp d"
  by (cases d) (simp_all add: plain_def)

lemma plain_row_valid: "list_all plain xs \<Longrightarrow> decimal_laws D \<Longrightarrow> valid_row D jp xs"
  by (auto simp: valid_row_def list_all_iff plain_valid)

lemma plain_eq: "datum_eq D y x \<Longrightarrow> plain x \<Longrightarrow> plain y"
  by (cases y; cases x) (auto simp: datum_eq_def plain_def)

lemma plain_matches: "row_matches D ys xs \<Longrightarrow> list_all plain xs \<Longrightarrow> list_all plain ys"
  using plain_eq by (fastforce simp: row_matches_def list_all_length list_all2_conv_all_nth)

lemma plain_simps [simp]:
  "plain D_Null" "plain (D_Boolean b)" "plain (D_Integer i)" "plain (D_BigInt j)" "plain (D_ByteAOwned s)" "plain (D_ByteARef s)"
  "plain (text_datum n)" "plain (id_datum tid)" "plain (columns_json columns)" "plain (pks_json pks)"
  by (simp_all add: plain_def text_datum_def id_datum_def columns_json_def pks_json_def)

lemma row_plain [simp]: "list_all plain (item_row db n it system)" "list_all plain (meta_row t)"
  by (simp_all add: item_row_def meta_row_def split: table_or_view.split)

lemma row_length [simp]: "length (item_row db n it system) = 8" "length (meta_row t) = 3"
  by (simp_all add: item_row_def meta_row_def split: table_or_view.split)

lemma ucast_back [simp]: "ucast (ucast (i :: u32) :: i64) = i"
  by (rule bit_word_eqI) (simp add: bit_ucast_iff)

lemma datum_eq_names [simp]:
  "datum_eq D (text_datum a) (text_datum b) \<longleftrightarrow> a = b" "datum_eq D (id_datum i) (id_datum j) \<longleftrightarrow> i = j"
proof -
  show "datum_eq D (text_datum a) (text_datum b) \<longleftrightarrow> a = b" by (auto simp: datum_eq_def text_datum_def)
  have "(ucast i :: i64) = ucast j \<longleftrightarrow> i = j" by (metis ucast_back)
  then show "datum_eq D (id_datum i) (id_datum j) \<longleftrightarrow> i = j" by (auto simp: datum_eq_def id_datum_def)
qed

lemma system_keys:
  assumes "decimal_laws D"
  shows "base_key D databases_table (text_datum a # xs) = base_key D databases_table (text_datum b # ys) \<longleftrightarrow> a = b"
    "base_key D tables_table (text_datum a # text_datum n # xs) = base_key D tables_table (text_datum b # text_datum m # ys) \<longleftrightarrow> a = b \<and> n = m"
    "base_key D prefix_metadata_table (id_datum i # xs) = base_key D prefix_metadata_table (id_datum j # ys) \<longleftrightarrow> i = j"
proof -
  have eq: "base_key D t xs = base_key D t ys \<longleftrightarrow> list_all2 (datum_eq D) (take (length (t_pk t)) xs) (take (length (t_pk t)) ys)"
    if "list_all plain (take (length (t_pk t)) xs)" "list_all plain (take (length (t_pk t)) ys)"
      "length (t_pk t) \<le> length xs" "length (t_pk t) \<le> length ys" for t xs ys
    using base_key_eq [of D "\<lambda>_. None" "take (length (t_pk t)) xs" "take (length (t_pk t)) ys" t "[]" "[]"]
      plain_row_valid [OF that(1) assms] plain_row_valid [OF that(2) assms] that(3,4) base_key_take [of D t xs] base_key_take [of D t ys]
    by simp
  show "base_key D databases_table (text_datum a # xs) = base_key D databases_table (text_datum b # ys) \<longleftrightarrow> a = b"
    "base_key D tables_table (text_datum a # text_datum n # xs) = base_key D tables_table (text_datum b # text_datum m # ys) \<longleftrightarrow> a = b \<and> n = m"
    "base_key D prefix_metadata_table (id_datum i # xs) = base_key D prefix_metadata_table (id_datum j # ys) \<longleftrightarrow> i = j"
    by (simp_all add: eq)
qed

lemma base_key_matches:
  assumes "decimal_laws D" "row_matches D ys xs" "list_all plain xs" "length (t_pk t) \<le> length xs"
  shows "base_key D t ys = base_key D t xs"
proof -
  have "length ys = length xs" using assms(2) by (simp add: row_matches_def list_all2_lengthD)
  moreover have "list_all2 (datum_eq D) (take n ys) (take n xs)" for n using assms(2) by (simp add: row_matches_def)
  ultimately show ?thesis
    using base_key_eq [of D "\<lambda>_. None" ys xs t "[]" "[]"] plain_row_valid [OF assms(3,1)] plain_row_valid [OF plain_matches [OF assms(2,3)] assms(1)] assms(4)
    by simp
qed

text \<open>The effect of a write on the frequency and the row of a key.\<close>

lemma key_freq_write:
  assumes "unat ts < 255 * 2 ^ 56"
  shows "key_freq D (ws(t := ws t @ [(tup, ts, f)])) t' key =
      key_freq D ws t' key + (if t' = t \<and> base_key D t tup = base_key D t key then f else 0)"
    "key_row D (ws(t := ws t @ [(tup, ts, f)])) t' key =
      (if t' = t \<and> base_key D t tup = base_key D t key then tup else key_row D ws t' key)"
  using before_max [OF assms] by (auto simp: freq_as_of_def tuple_as_of_def key_writes_def)

section \<open>Committed writes\<close>

lemma write_one:
  assumes laws: "catalog_env_laws env contents rest" and t: "t \<in> system_tables" "valid_tuple (k_decimal env) (k_path env) t tup"
    and logs: "logs_hold (k_decimal env) (k_path env) (contents (cat_db self)) ws" "logs_until (k_now env n) ws" and n: "cat_ticks self = n + 1"
  shows "\<exists>self'. write_catalog env self (writer_write_tuple (k_rocks env) (k_decimal env) (cat_db self) t tup (k_now env n) f) = Some (self', Inr ()) \<and>
    catalog_logs env contents self' (ws(t := ws t @ [(tup, k_now env n, f)]))"
proof -
  obtain w' where w': "writer_write_tuple (k_rocks env) (k_decimal env) (cat_db self) t tup (k_now env n) f writer_new = Some (Inr w')"
    "logs_hold (k_decimal env) (k_path env) (apply_batch (write_batch w') (contents (cat_db self))) (ws(t := ws t @ [(tup, k_now env n, f)]))"
    using logs_write [OF laws t(1) _ t(2), of writer_new "cat_db self" ws n f] logs t(1) by (auto simp: writer_new_def logs_until_def)
  have "k_now env n \<le> k_now env (n + 1)" using catalog_env_lawsD(3) [OF laws] by (simp add: monoD)
  then have "logs_until (k_now env (cat_ticks self)) (ws(t := ws t @ [(tup, k_now env n, f)]))"
    using logs(2) n by (fastforce simp: logs_until_def)
  from write_catalog_eq [where batch = "writer_write_tuple (k_rocks env) (k_decimal env) (cat_db self) t tup (k_now env n) f", OF laws w' this]
  show ?thesis by blast
qed

lemma write_two:
  assumes laws: "catalog_env_laws env contents rest" and t: "t \<in> system_tables" "valid_tuple (k_decimal env) (k_path env) t tup"
    and u: "u \<in> system_tables" "valid_tuple (k_decimal env) (k_path env) u tup'" "u \<noteq> t"
    and logs: "logs_hold (k_decimal env) (k_path env) (contents (cat_db self)) ws" "logs_until (k_now env n) ws" and n: "cat_ticks self = n + 1"
  shows "\<exists>self'. write_catalog env self (\<lambda>w.
      and_then (writer_write_tuple (k_rocks env) (k_decimal env) (cat_db self) t tup (k_now env n) f w)
        (writer_write_tuple (k_rocks env) (k_decimal env) (cat_db self) u tup' (k_now env n) g)) = Some (self', Inr ()) \<and>
    catalog_logs env contents self' (ws(t := ws t @ [(tup, k_now env n, f)], u := ws u @ [(tup', k_now env n, g)]))"
proof -
  let ?ws = "ws(t := ws t @ [(tup, k_now env n, f)])"
  let ?ws' = "?ws(u := ?ws u @ [(tup', k_now env n, g)])"
  obtain w1 where w1: "writer_write_tuple (k_rocks env) (k_decimal env) (cat_db self) t tup (k_now env n) f writer_new = Some (Inr w1)"
    "logs_hold (k_decimal env) (k_path env) (apply_batch (write_batch w1) (contents (cat_db self))) ?ws"
    using logs_write [OF laws t(1) _ t(2), of writer_new "cat_db self" ws n f] logs t(1) by (auto simp: writer_new_def logs_until_def)
  obtain w2 where w2: "writer_write_tuple (k_rocks env) (k_decimal env) (cat_db self) u tup' (k_now env n) g w1 = Some (Inr w2)"
    "logs_hold (k_decimal env) (k_path env) (apply_batch (write_batch w2) (contents (cat_db self))) ?ws'"
    using logs_write [OF laws u(1) w1(2) u(2), of n g] logs(2) u(1,3) unfolding logs_until_def by (auto simp del: fun_upd_apply simp: fun_upd_other)
  have "k_now env n \<le> k_now env (n + 1)" using catalog_env_lawsD(3) [OF laws] by (simp add: monoD)
  then have "logs_until (k_now env (cat_ticks self)) ?ws'"
    using logs(2) n u(3) by (fastforce simp: logs_until_def)
  from write_catalog_eq [where batch = "\<lambda>w. and_then (writer_write_tuple (k_rocks env) (k_decimal env) (cat_db self) t tup (k_now env n) f w)
        (writer_write_tuple (k_rocks env) (k_decimal env) (cat_db self) u tup' (k_now env n) g)", OF laws _ w2(2) this]
  show ?thesis using w1(1) w2(1) u(3) by auto
qed

section \<open>Checks\<close>

lemma of_bool_i64 [simp]: "(of_bool b :: i64) = 0 \<longleftrightarrow> \<not> b"
  by simp

lemma logs_valid: "logs_hold D jp m ws \<Longrightarrow> t \<in> system_tables \<Longrightarrow> list_all (valid_write D jp t) (ws t)"
  by (simp add: logs_hold_def table_holds_def)

lemma catalog_logs_valid: "catalog_logs env contents self ws \<Longrightarrow> t \<in> system_tables \<Longrightarrow> list_all (valid_write (k_decimal env) (k_path env) t) (ws t)"
  using logs_valid [of "k_decimal env" "k_path env" "contents (cat_db self)" ws t] by (simp add: catalog_logs_def)

lemma key_exists:
  assumes laws: "catalog_env_laws env contents rest" and t: "t \<in> system_tables" and logs: "catalog_logs env contents self ws"
    and key: "list_all plain key" "length key = length (t_pk t)"
  shows "row_exists env self t key = Some (Inr (key_freq (k_decimal env) ws t key \<noteq> 0))"
proof -
  have v: "valid_row (k_decimal env) (k_path env) key" using plain_row_valid [OF key(1) catalog_env_lawsD(2) [OF laws]] .
  have "list_all (valid_write (k_decimal env) (k_path env) t) (ws t)" using catalog_logs_valid [OF logs t] .
  from rows_with_key [OF system_tables_wf [OF t] this v key(2)] row_exists_eq [OF laws t logs v] key(2) show ?thesis by (simp add: Let_def)
qed

lemma db_exists_eq:
  assumes "catalog_env_laws env contents rest" "catalog_logs env contents self ws" "databases_described (k_decimal env) ws dbs"
  shows "db_exists env self n = Some (Inr (n \<in> dbs))"
  using key_exists [OF assms(1) _ assms(2), of databases_table "[text_datum n]"] assms(3)
  by (simp add: db_exists_def databases_described_def)

lemma table_exists_eq:
  assumes "catalog_env_laws env contents rest" "catalog_logs env contents self ws" "items_described (k_decimal env) ws S"
  shows "table_exists env self db n = Some (Inr (ac_items S (db, n) \<noteq> None))"
  using key_exists [OF assms(1) _ assms(2), of tables_table "[text_datum db, text_datum n]"] assms(3)
  by (simp add: table_exists_def items_described_def)

lemma item_described:
  assumes "items_described D ws S" "ac_items S (db, n) = Some it"
  obtains system where "item_ok it" "key_row D ws tables_table [text_datum db, text_datum n] = item_row db n it system"
  using assms unfolding items_described_def by blast

lemma rows_of_database:
  assumes laws: "decimal_laws D" and ws: "list_all (valid_write D jp tables_table) (ws tables_table)" and items: "items_described D ws S"
  shows "rows_with D tables_table (ws tables_table) [text_datum db] \<noteq> [] \<longleftrightarrow> (\<exists>n. ac_items S (db, n) \<noteq> None)"
proof
  let ?t = tables_table
  assume "rows_with D ?t (ws ?t) [text_datum db] \<noteq> []"
  then obtain r where "r \<in> set (snapshot D ?t (- 1) (ws ?t))" and pre: "key_prefix D [text_datum db] (fst r)"
    by (auto simp: rows_with_def filter_empty_conv)
  then obtain w where w: "w \<in> set (ws ?t)" "fst r = tuple_as_of D ?t (- 1) (ws ?t) (base_key D ?t (fst w))"
    "freq_as_of D ?t (- 1) (ws ?t) (base_key D ?t (fst w)) \<noteq> 0"
    by (auto simp: snapshot_def)
  then obtain db' n where dn: "key_prefix D [text_datum db', text_datum n] (fst w)" using items by (auto simp: items_described_def)
  have "valid_tuple D jp ?t (fst w)" using ws w(1) valid_write_tuple [of D jp ?t w] by (simp add: list_all_iff)
  then have key: "base_key D ?t (fst w) = base_key D ?t [text_datum db', text_datum n]"
    using key_prefix_base [of D jp "fst w" "[text_datum db', text_datum n]" ?t] dn plain_row_valid [OF _ laws, of "[text_datum db', text_datum n]"]
    by (simp add: valid_tuple_def)
  then obtain it where it: "ac_items S (db', n) = Some it" using w(3) items by (auto simp: items_described_def)
  obtain system where "fst r = item_row db' n it system" using item_described [OF items it] w(2) key by metis
  then have "db' = db" using pre by (auto simp: key_prefix_def item_row_def row_matches_def)
  then show "\<exists>n. ac_items S (db, n) \<noteq> None" using it by auto
next
  let ?t = tables_table
  assume "\<exists>n. ac_items S (db, n) \<noteq> None"
  then obtain n where "ac_items S (db, n) \<noteq> None" by blast
  then have "rows_with D ?t (ws ?t) [text_datum db, text_datum n] \<noteq> []"
    using rows_with_key [OF system_tables_wf ws plain_row_valid [OF _ laws], of "[text_datum db, text_datum n]"] items
    by (auto simp: items_described_def Let_def)
  then show "rows_with D ?t (ws ?t) [text_datum db] \<noteq> []"
    by (force simp: rows_with_def filter_empty_conv key_prefix_def row_matches_def list_all2_conv_all_nth take_Suc_conv_app_nth numeral_2_eq_2)
qed

lemma check_db_empty_eq:
  assumes "catalog_env_laws env contents rest" "catalog_logs env contents self ws" "items_described (k_decimal env) ws S"
  shows "check_db_empty env self db = Some (if \<exists>n. ac_items S (db, n) \<noteq> None then Inl (DatabaseNotEmpty db) else Inr ())"
proof -
  note D = catalog_env_lawsD(2) [OF assms(1)]
  have "list_all (valid_write (k_decimal env) (k_path env) tables_table) (ws tables_table)"
    using catalog_logs_valid [OF assms(2)] by simp
  from rows_of_database [OF D this assms(3), of db] row_exists_eq [OF assms(1) _ assms(2) plain_row_valid [OF _ D], of tables_table "[text_datum db]"]
  show ?thesis by (simp add: check_db_empty_def)
qed

section \<open>Table ids\<close>

lemma table_id_loop_finds:
  assumes "\<And>i. row_exists env self prefix_metadata_table [id_datum i] = Some (Inr (i \<in> ids))"
    and "\<forall>j < n. tid + 2 * of_nat j \<in> ids" "tid + 2 * of_nat n \<notin> ids"
  shows "table_id_loop env self tid = Some (Inr (tid + 2 * of_nat n))"
  using assms(2,3)
proof (induction n arbitrary: tid)
  case 0
  then show ?case using assms(1) by (subst table_id_loop.simps) simp
next
  case (Suc n)
  have "tid \<in> ids" using spec [OF Suc.prems(1), of 0] by simp
  moreover have shift: "tid + 2 + 2 * of_nat j = tid + 2 * of_nat (Suc j)" for j by (simp add: algebra_simps)
  have "\<forall>j < n. tid + 2 + 2 * of_nat j \<in> ids" "tid + 2 + 2 * of_nat n \<notin> ids"
    unfolding shift using Suc.prems by (blast intro: Suc_mono)+
  then have "table_id_loop env self (tid + 2) = Some (Inr (tid + 2 * of_nat (Suc n)))"
    unfolding shift [symmetric] by (rule Suc.IH)
  ultimately show ?case using assms(1) by (subst table_id_loop.simps) simp
qed

lemma and_one_even: "(w :: 'a :: len word) AND 1 = 0 \<longleftrightarrow> even w"
  by (simp add: and_one_eq even_iff_mod_2_eq_zero)

lemma generate_table_id_eq:
  assumes rows: "\<And>i. row_exists env self prefix_metadata_table [id_datum i] = Some (Inr (i \<in> ids))"
    and free: "free \<notin> ids" "free AND 1 = 0"
  shows "\<exists>tid. generate_table_id env self n = Some (Inr tid) \<and> tid \<notin> ids \<and> tid AND 1 = 0"
proof -
  define h where "h = (ucast (k_hash env (str_bytes n)) :: u32)"
  define start where "start = (if h AND 1 = 1 then h - 1 else h)"
  have "even start"
  proof (cases "even h")
    case True
    then have "h AND 1 = 0" by (simp add: and_one_even)
    then show ?thesis using True by (simp add: start_def)
  next
    case False
    then have "h AND 1 = 1" by (simp add: and_one_eq odd_iff_mod_2_eq_one)
    then show ?thesis using False by (simp add: start_def)
  qed
  moreover have "even free" using free(2) by (simp add: and_one_even)
  ultimately have "even (free - start)" by simp
  then have "2 * ((free - start) div 2) = free - start"
    using mult_div_mod_eq [of 2 "free - start"] unfolding even_iff_mod_2_eq_zero by simp
  then have "start + 2 * of_nat (unat ((free - start) div 2)) = free" by simp
  then have ex: "\<exists>m. start + 2 * of_nat m \<notin> ids" using free(1) by metis
  define m where "m = (LEAST m. start + 2 * of_nat m \<notin> ids)"
  have m: "start + 2 * of_nat m \<notin> ids" "\<forall>j < m. start + 2 * of_nat j \<in> ids"
    using LeastI_ex [OF ex] not_less_Least unfolding m_def by blast+
  have "table_id_loop env self start = Some (Inr (start + 2 * of_nat m))"
    using table_id_loop_finds [OF rows m(2,1)] .
  moreover have "even (start + 2 * of_nat m)" using \<open>even start\<close> by simp
  ultimately show ?thesis using m(1) by (auto simp: generate_table_id_def Let_def and_one_even h_def start_def)
qed

end
