(* ===== verification/Catalog_Refinement.thy ===== *)
theory Catalog_Refinement
  imports Catalog_Logs
begin

text \<open>
  The operations of the catalog refine the steps of the abstract catalog, the lookup of an item finds
  what the abstract catalog has, and the first boot creates the abstract catalog of the system
  databases and tables.
\<close>

section \<open>Changes of the described catalog\<close>

definition put_item :: "string \<times> string \<Rightarrow> catalog_item option \<Rightarrow> abs_catalog \<Rightarrow> abs_catalog" where
  "put_item k it S = S\<lparr>ac_items := (ac_items S)(k := it)\<rparr>"

lemma put_item_simps [simp]:
  "ac_databases (put_item k it S) = ac_databases S" "ac_items (put_item k it S) = (ac_items S)(k := it)"
  by (simp_all add: put_item_def)

lemma has_table_put [simp]:
  "has_table (put_item k it S) k' t \<longleftrightarrow> (if k' = k then \<exists>i. it = Some i \<and> ci_item i = TV_Table t else has_table S k' t)"
  "has_table (S\<lparr>ac_databases := dbs\<rparr>) k' t = has_table S k' t"
  by (simp_all add: has_table_def)

lemma described_other [simp]:
  "t \<noteq> databases_table \<Longrightarrow> databases_described D (ws(t := x)) dbs = databases_described D ws dbs"
  "t \<noteq> tables_table \<Longrightarrow> items_described D (ws(t := x)) S = items_described D ws S"
  "t \<noteq> prefix_metadata_table \<Longrightarrow> metas_described D (ws(t := x)) S = metas_described D ws S"
  "items_described D ws (S\<lparr>ac_databases := dbs\<rparr>) = items_described D ws S"
  "metas_described D ws (S\<lparr>ac_databases := dbs\<rparr>) = metas_described D ws S"
  by (simp_all add: databases_described_def items_described_def metas_described_def table_ids_def)

lemma databases_changed:
  assumes "decimal_laws D" "unat ts < 255 * 2 ^ 56" "databases_described D ws dbs"
  shows "n \<notin> dbs \<Longrightarrow> databases_described D (ws(databases_table := ws databases_table @ [([text_datum n], ts, 1)])) (insert n dbs)"
    "n \<in> dbs \<Longrightarrow> databases_described D (ws(databases_table := ws databases_table @ [([text_datum n], ts, - 1)])) (dbs - {n})"
  using assms(3) unfolding databases_described_def key_freq_write [OF assms(2)] by (auto simp: system_keys [OF assms(1)])

lemma items_added:
  assumes "decimal_laws D" "unat ts < 255 * 2 ^ 56" "items_described D ws S" "ac_items S (db, n) = None" "item_ok it"
  shows "items_described D (ws(tables_table := ws tables_table @ [(item_row db n it system, ts, 1)])) (put_item (db, n) (Some it) S)"
proof -
  have key: "base_key D tables_table (item_row db n it system) = base_key D tables_table [text_datum a, text_datum b] \<longleftrightarrow> db = a \<and> n = b" for a b
    by (simp add: item_row_def system_keys [OF assms(1)])
  have "key_prefix D [text_datum db, text_datum n] (item_row db n it system)"
    by (simp add: key_prefix_def item_row_def row_matches_def)
  then show ?thesis using assms(3-5) unfolding items_described_def key_freq_write [OF assms(2)] key by (auto simp del: fun_upd_apply simp: fun_upd_def)
qed

lemma items_removed:
  assumes "decimal_laws D" "unat ts < 255 * 2 ^ 56" "items_described D ws S" "ac_items S (db, n) = Some it"
    and tup: "row_matches D tup (item_row db n it system)"
  shows "items_described D (ws(tables_table := ws tables_table @ [(tup, ts, - 1)])) (put_item (db, n) None S)"
proof -
  have "base_key D tables_table tup = base_key D tables_table (item_row db n it system)" using base_key_matches [OF assms(1) tup] by simp
  then have key: "base_key D tables_table tup = base_key D tables_table [text_datum a, text_datum b] \<longleftrightarrow> db = a \<and> n = b" for a b
    by (simp add: item_row_def system_keys [OF assms(1)])
  have "key_prefix D [text_datum db, text_datum n] (item_row db n it system)"
    by (simp add: key_prefix_def item_row_def row_matches_def)
  then have "key_prefix D [text_datum db, text_datum n] tup" unfolding key_prefix_cong [OF assms(1) tup] .
  then show ?thesis using assms(3,4) unfolding items_described_def key_freq_write [OF assms(2)] key by (auto simp del: fun_upd_apply simp: fun_upd_def)
qed

lemma table_ids_iff: "i \<in> table_ids S \<longleftrightarrow> (\<exists>k t. has_table S k t \<and> t_id t = i)"
  by (auto simp: table_ids_def)

lemma metas_describedD:
  assumes "metas_described D ws S"
  shows "key_freq D ws prefix_metadata_table [id_datum i] = of_bool (i \<in> table_ids S)"
    "has_table S k t \<Longrightarrow> key_row D ws prefix_metadata_table [id_datum (t_id t)] = meta_row t"
    "has_table S k t \<Longrightarrow> has_table S k' t' \<Longrightarrow> t_id t = t_id t' \<Longrightarrow> k = k'"
  using assms unfolding metas_described_def by blast+

lemma metas_added:
  assumes "decimal_laws D" "unat ts < 255 * 2 ^ 56" "metas_described D ws S" "ac_items S k = None" "ci_item it = TV_Table t" "t_id t \<notin> table_ids S"
  shows "metas_described D (ws(prefix_metadata_table := ws prefix_metadata_table @ [(meta_row t, ts, 1)])) (put_item k (Some it) S)"
proof -
  have key: "base_key D prefix_metadata_table (meta_row t) = base_key D prefix_metadata_table [id_datum i] \<longleftrightarrow> t_id t = i" for i
    by (simp add: meta_row_def system_keys [OF assms(1)])
  have no: "\<not> has_table S k u" for u using assms(4) by (simp add: has_table_def)
  have has: "has_table (put_item k (Some it) S) k' u \<longleftrightarrow> k' = k \<and> u = t \<or> has_table S k' u" for k' u using no assms(5) by auto
  have ids: "i \<in> table_ids (put_item k (Some it) S) \<longleftrightarrow> i = t_id t \<or> i \<in> table_ids S" for i
    unfolding table_ids_iff has by blast
  have new: "t_id t \<noteq> t_id u" if "has_table S k' u" for k' u using that assms(6) unfolding table_ids_iff by metis
  note old = metas_describedD [OF assms(3)]
  show ?thesis unfolding metas_described_def key_freq_write [OF assms(2)] key ids has
  proof (intro conjI allI impI)
    show "key_freq D ws prefix_metadata_table [id_datum i] + (if prefix_metadata_table = prefix_metadata_table \<and> t_id t = i then 1 else 0) =
        of_bool (i = t_id t \<or> i \<in> table_ids S)" for i
      using old(1) [of i] assms(6) by auto
    show "(if prefix_metadata_table = prefix_metadata_table \<and> t_id t = t_id u then meta_row t
        else key_row D ws prefix_metadata_table [id_datum (t_id u)]) = meta_row u" if "k' = k \<and> u = t \<or> has_table S k' u" for k' u
      using that old(2) new by (cases "t_id t = t_id u") (simp, metis, simp, metis)
    show "k' = k''" if "k' = k \<and> u = t \<or> has_table S k' u" "k'' = k \<and> u' = t \<or> has_table S k'' u'" "t_id u = t_id u'" for k' k'' u u'
      using that old(3) new by metis
  qed
qed

lemma metas_removed:
  assumes "decimal_laws D" "unat ts < 255 * 2 ^ 56" "metas_described D ws S" "has_table S k t" and tup: "row_matches D tup (meta_row t)"
  shows "metas_described D (ws(prefix_metadata_table := ws prefix_metadata_table @ [(tup, ts, - 1)])) (put_item k None S)"
proof -
  have "base_key D prefix_metadata_table tup = base_key D prefix_metadata_table (meta_row t)" using base_key_matches [OF assms(1) tup] by simp
  then have key: "base_key D prefix_metadata_table tup = base_key D prefix_metadata_table [id_datum i] \<longleftrightarrow> t_id t = i" for i
    by (simp add: meta_row_def system_keys [OF assms(1)])
  note old = metas_describedD [OF assms(3)]
  have has: "has_table (put_item k None S) k' u \<longleftrightarrow> k' \<noteq> k \<and> has_table S k' u" for k' u by auto
  have det: "u = t" if "has_table S k u" for u using that assms(4) by (auto simp: has_table_def)
  have ids: "i \<in> table_ids (put_item k None S) \<longleftrightarrow> i \<noteq> t_id t \<and> i \<in> table_ids S" for i
    unfolding table_ids_iff has using old(3) [OF assms(4)] det by metis
  have "t_id t \<in> table_ids S" using assms(4) unfolding table_ids_iff by blast
  then show ?thesis unfolding metas_described_def key_freq_write [OF assms(2)] key ids has
  proof (intro conjI allI impI)
    show "key_freq D ws prefix_metadata_table [id_datum i] + (if prefix_metadata_table = prefix_metadata_table \<and> t_id t = i then - 1 else 0) =
        of_bool (i \<noteq> t_id t \<and> i \<in> table_ids S)" if "t_id t \<in> table_ids S" for i
      using old(1) [of i] that by auto
    show "(if prefix_metadata_table = prefix_metadata_table \<and> t_id t = t_id u then tup
        else key_row D ws prefix_metadata_table [id_datum (t_id u)]) = meta_row u" if "k' \<noteq> k \<and> has_table S k' u" for k' u
      using that old(2) [of k' u] old(3) [OF assms(4), of k' u] by (cases "t_id t = t_id u") simp_all
    show "k' = k''" if "k' \<noteq> k \<and> has_table S k' u" "k'' \<noteq> k \<and> has_table S k'' u'" "t_id u = t_id u'" for k' k'' u u'
      using that old(3) by blast
  qed
qed

lemma metas_view:
  assumes "metas_described D ws S" "\<And>t. \<not> has_table S k t" "\<And>i t. it = Some i \<Longrightarrow> ci_item i \<noteq> TV_Table t"
  shows "metas_described D ws (put_item k it S)"
proof -
  have "has_table (put_item k it S) = has_table S" using assms(2,3) by (auto simp: fun_eq_iff)
  then show ?thesis using assms(1) by (simp add: metas_described_def table_ids_def del: has_table_put)
qed

section \<open>The steps of the abstract catalog\<close>

datatype catalog_op =
    Create_Database string
  | Drop_Database string
  | Create_Table string string "(string \<times> data_type) list"
  | Create_View string string "(string \<times> data_type) list" string string
  | Drop_Table string string

fun run_op :: "('d, 'db, 'it) catalog_env \<Rightarrow> catalog_op \<Rightarrow> 'db catalog \<Rightarrow> 'db change" where
  "run_op env (Create_Database db) self = create_database env db self"
| "run_op env (Drop_Database db) self = drop_database env db self"
| "run_op env (Create_Table db n columns) self = create_table env db n columns self"
| "run_op env (Create_View db n columns sql context) self = create_view env db n columns sql context self"
| "run_op env (Drop_Table db n) self = drop_table env db n self"

definition new_table :: "u32 \<Rightarrow> (string \<times> data_type) list \<Rightarrow> sort_order list \<Rightarrow> catalog_item" where
  "new_table tid columns pks = \<lparr>ci_columns = columns, ci_item = TV_Table \<lparr>t_id = tid, t_length = length columns, t_pk = pks\<rparr>\<rparr>"

definition new_view :: "(string \<times> data_type) list \<Rightarrow> string \<Rightarrow> string \<Rightarrow> catalog_item" where
  "new_view columns sql context = \<lparr>ci_columns = columns, ci_item = TV_View \<lparr>v_sql = sql, v_db_context = context\<rparr>\<rparr>"

inductive catalog_step :: "abs_catalog \<Rightarrow> catalog_op \<Rightarrow> catalog_error + unit \<Rightarrow> abs_catalog \<Rightarrow> bool" where
  db_created: "db \<notin> ac_databases S \<Longrightarrow>
    catalog_step S (Create_Database db) (Inr ()) (S\<lparr>ac_databases := insert db (ac_databases S)\<rparr>)"
| db_taken: "db \<in> ac_databases S \<Longrightarrow> catalog_step S (Create_Database db) (Inl (DatabaseAlreadyExists db)) S"
| db_dropped: "db \<in> ac_databases S \<Longrightarrow> (\<And>n. ac_items S (db, n) = None) \<Longrightarrow>
    catalog_step S (Drop_Database db) (Inr ()) (S\<lparr>ac_databases := ac_databases S - {db}\<rparr>)"
| db_missing: "db \<notin> ac_databases S \<Longrightarrow> op \<in> {Drop_Database db, Create_Table db n columns, Create_View db n columns sql context} \<Longrightarrow>
    catalog_step S op (Inl (DatabaseNotFound db)) S"
| db_not_empty: "db \<in> ac_databases S \<Longrightarrow> ac_items S (db, n) \<noteq> None \<Longrightarrow>
    catalog_step S (Drop_Database db) (Inl (DatabaseNotEmpty db)) S"
| table_created: "db \<in> ac_databases S \<Longrightarrow> ac_items S (db, n) = None \<Longrightarrow> tid \<notin> table_ids S \<Longrightarrow> tid AND 1 = 0 \<Longrightarrow>
    catalog_step S (Create_Table db n columns) (Inr ()) (put_item (db, n) (Some (new_table tid columns (map (\<lambda>_. Asc) columns))) S)"
| view_created: "db \<in> ac_databases S \<Longrightarrow> ac_items S (db, n) = None \<Longrightarrow>
    catalog_step S (Create_View db n columns sql context) (Inr ()) (put_item (db, n) (Some (new_view columns sql context)) S)"
| name_taken: "db \<in> ac_databases S \<Longrightarrow> ac_items S (db, n) \<noteq> None \<Longrightarrow>
    op \<in> {Create_Table db n columns, Create_View db n columns sql context} \<Longrightarrow>
    catalog_step S op (Inl (TableAlreadyExists db n)) S"
| item_dropped: "ac_items S (db, n) \<noteq> None \<Longrightarrow> catalog_step S (Drop_Table db n) (Inr ()) (put_item (db, n) None S)"
| item_missing: "ac_items S (db, n) = None \<Longrightarrow> catalog_step S (Drop_Table db n) (Inl (TableNotFound db n)) S"

text \<open>What a step needs: the columns fit into the JSON format, there is an id left, and the system tables
  are not dropped.\<close>

fun op_ok :: "abs_catalog \<Rightarrow> catalog_op \<Rightarrow> bool" where
  "op_ok S (Create_Table db n columns) \<longleftrightarrow> columns_fit columns \<and> (\<exists>i. i \<notin> table_ids S \<and> i AND 1 = 0)"
| "op_ok S (Create_View db n columns sql context) \<longleftrightarrow> columns_fit columns"
| "op_ok S (Drop_Table db n) \<longleftrightarrow> (\<forall>t. has_table S (db, n) t \<longrightarrow> t_id t \<notin> t_id ` system_tables)"
| "op_ok S _ \<longleftrightarrow> True"

section \<open>The operations\<close>

lemma columns_fit_length: "columns_fit columns \<Longrightarrow> length columns < 2 ^ 32"
proof -
  have "length columns \<le> length (concat (map (tape ref_decimal_ops) (map column_value columns)))"
  proof (induction columns)
    case (Cons c columns)
    have "0 < length (tape ref_decimal_ops (column_value c))" using tape_nonempty(1) by blast
    then show ?case using Cons by (simp del: length_greater_0_conv)
  qed simp
  then show "columns_fit columns \<Longrightarrow> length columns < 2 ^ 32" by (simp add: columns_fit_def columns_value_def)
qed

lemma new_items_ok:
  assumes "columns_fit columns"
  shows "tid AND 1 = 0 \<Longrightarrow> length pks \<le> length columns \<Longrightarrow> item_ok (new_table tid columns pks)" "item_ok (new_view columns sql context)"
  using assms columns_fit_length [OF assms] by (simp_all add: item_ok_def new_table_def new_view_def pks_fit_def)

lemma row_tuples:
  assumes "decimal_laws D"
  shows "valid_tuple D jp tables_table (item_row db n it system)" "valid_tuple D jp prefix_metadata_table (meta_row t)"
    "valid_tuple D jp databases_table [text_datum db]"
  using assms plain_row_valid [OF _ assms, of "[text_datum db]" jp] by (simp_all add: valid_tuple_def plain_row_valid)

lemma create_database_impl_repr:
  fixes env :: "('d, 'db, 'it) catalog_env"
  assumes laws: "catalog_env_laws env contents rest" and repr: "catalog_repr env contents self S" and db: "db \<notin> ac_databases S"
  shows "\<exists>self'. create_database_impl env db self = Some (self', Inr ()) \<and>
    catalog_repr env contents self' (S\<lparr>ac_databases := insert db (ac_databases S)\<rparr>)"
proof -
  note D = catalog_env_lawsD(2) [OF laws] and ts = catalog_env_lawsD(4) [OF laws]
  obtain ws where ws: "catalog_logs env contents self ws" "describes (k_decimal env) ws S" using repr by (auto simp: catalog_repr_def)
  have "describes (k_decimal env) (ws(databases_table := ws databases_table @ [([text_datum db], k_now env (cat_ticks self), 1)]))
      (S\<lparr>ac_databases := insert db (ac_databases S)\<rparr>)"
    using ws(2) databases_changed(1) [OF D ts _ db] by (simp add: describes_def)
  then show ?thesis
    using write_one [OF laws system_tablesI(2) row_tuples(3) [OF D], of "self\<lparr>cat_ticks := cat_ticks self + 1\<rparr>" ws "cat_ticks self" db 1] ws(1)
    unfolding create_database_impl_def Let_def catalog_repr_def by (auto simp: catalog_logs_def)
qed

lemma create_table_impl_repr:
  fixes env :: "('d, 'db, 'it) catalog_env"
  assumes laws: "catalog_env_laws env contents rest" and repr: "catalog_repr env contents self S"
    and new: "ac_items S (db, n) = None" "tid \<notin> table_ids S" "tid AND 1 = 0" "columns_fit columns" "length pks \<le> length columns"
  shows "\<exists>self'. create_table_impl env db n tid columns pks system self = Some (self', Inr ()) \<and>
    catalog_repr env contents self' (put_item (db, n) (Some (new_table tid columns pks)) S)"
proof -
  let ?it = "new_table tid columns pks" and ?t = "\<lparr>t_id = tid, t_length = length columns, t_pk = pks\<rparr>" and ?D = "k_decimal env"
  let ?ts = "k_now env (cat_ticks self)"
  note D = catalog_env_lawsD(2) [OF laws] and ts = catalog_env_lawsD(4) [OF laws]
  obtain ws where ws: "catalog_logs env contents self ws" "describes ?D ws S" using repr by (auto simp: catalog_repr_def)
  have it: "item_ok ?it" "ci_item ?it = TV_Table ?t" using new_items_ok(1) [OF new(4,3,5)] by (simp_all add: new_table_def)
  have rows: "columns_datum columns = Some (columns_json columns :: 'd datum)" "pks_datum pks = Some (pks_json pks :: 'd datum)"
    using columns_datum_eq [OF new(4)] pks_datum_eq [of pks] it(1)
    by (simp_all add: columns_json_def pks_json_def item_ok_def new_table_def)
  let ?ws = "ws(tables_table := ws tables_table @ [(item_row db n ?it system, ?ts, 1)],
      prefix_metadata_table := ws prefix_metadata_table @ [(meta_row ?t, ?ts, 1)])"
  have "items_described ?D ?ws (put_item (db, n) (Some ?it) S)"
    using items_added [OF D ts _ new(1) it(1)] ws(2) by (simp add: describes_def)
  moreover have "metas_described ?D ?ws (put_item (db, n) (Some ?it) S)"
    using metas_added [OF D ts _ new(1) it(2), of ws "cat_ticks self"] ws(2) new(2) by (simp add: describes_def fun_upd_twist)
  ultimately have "describes ?D ?ws (put_item (db, n) (Some ?it) S)" using ws(2) by (simp add: describes_def)
  moreover obtain self' where "write_catalog env (self\<lparr>cat_ticks := cat_ticks self + 1\<rparr>) (\<lambda>w.
      and_then (writer_write_tuple (k_rocks env) ?D (cat_db self) tables_table (item_row db n ?it system) ?ts 1 w)
        (writer_write_tuple (k_rocks env) ?D (cat_db self) prefix_metadata_table (meta_row ?t) ?ts 1)) = Some (self', Inr ())"
    "catalog_logs env contents self' ?ws"
    using write_two [where self = "self\<lparr>cat_ticks := cat_ticks self + 1\<rparr>" and ws = ws and n = "cat_ticks self" and f = 1 and g = 1,
        OF laws system_tablesI(3) row_tuples(1) [OF D, where db = db and n = n and it = ?it and system = system]
          system_tablesI(1) row_tuples(2) [OF D, where t = ?t]] ws(1)
    by (auto simp: catalog_logs_def)
  moreover have "(item_row db n ?it system :: 'd datum list) =
      [text_datum db, text_datum n, text_datum ''table'', D_Null, D_Null, id_datum tid, columns_json columns, D_Boolean system]"
    "(meta_row ?t :: 'd datum list) = [id_datum tid, D_Integer (of_nat (length columns)), pks_json pks]"
    by (simp_all add: item_row_def new_table_def meta_row_def)
  ultimately show ?thesis unfolding create_table_impl_def Let_def catalog_repr_def rows by auto
qed

lemma create_view_impl_repr:
  fixes env :: "('d, 'db, 'it) catalog_env"
  assumes laws: "catalog_env_laws env contents rest" and repr: "catalog_repr env contents self S"
    and new: "ac_items S (db, n) = None" "columns_fit columns"
  shows "\<exists>self'. create_view_impl env db n columns sql context system self = Some (self', Inr ()) \<and>
    catalog_repr env contents self' (put_item (db, n) (Some (new_view columns sql context)) S)"
proof -
  let ?it = "new_view columns sql context" and ?D = "k_decimal env" and ?ts = "k_now env (cat_ticks self)"
  note D = catalog_env_lawsD(2) [OF laws] and ts = catalog_env_lawsD(4) [OF laws]
  obtain ws where ws: "catalog_logs env contents self ws" "describes ?D ws S" using repr by (auto simp: catalog_repr_def)
  let ?ws = "ws(tables_table := ws tables_table @ [(item_row db n ?it system, ?ts, 1)])"
  have "items_described ?D ?ws (put_item (db, n) (Some ?it) S)"
    using items_added [OF D ts _ new(1) new_items_ok(2) [OF new(2)]] ws(2) by (simp add: describes_def)
  moreover have "metas_described ?D ws (put_item (db, n) (Some ?it) S)"
    using ws(2) new(1) by (intro metas_view) (auto simp: describes_def has_table_def new_view_def)
  ultimately have "describes ?D ?ws (put_item (db, n) (Some ?it) S)" using ws(2) by (simp add: describes_def)
  moreover obtain self' where "write_catalog env (self\<lparr>cat_ticks := cat_ticks self + 1\<rparr>)
      (writer_write_tuple (k_rocks env) ?D (cat_db self) tables_table (item_row db n ?it system) ?ts 1) = Some (self', Inr ())"
    "catalog_logs env contents self' ?ws"
    using write_one [where self = "self\<lparr>cat_ticks := cat_ticks self + 1\<rparr>" and ws = ws and n = "cat_ticks self" and f = 1,
        OF laws system_tablesI(3) row_tuples(1) [OF D, where db = db and n = n and it = ?it and system = system]] ws(1)
    by (auto simp: catalog_logs_def)
  moreover have "(item_row db n ?it system :: 'd datum list) =
      [text_datum db, text_datum n, text_datum ''view'', text_datum sql, text_datum context, D_Null, columns_json columns, D_Boolean system]"
    by (simp add: item_row_def new_view_def)
  moreover have "(columns_datum columns :: 'd datum option) = Some (columns_json columns)" using columns_datum_eq [OF new(2)] by (simp add: columns_json_def)
  ultimately show ?thesis unfolding create_view_impl_def Let_def catalog_repr_def by auto
qed

text \<open>The row of a key that occurs once, as a scan and as a lookup find it.\<close>

lemma scan_once:
  assumes laws: "catalog_env_laws env contents rest" and t: "t \<in> system_tables"
    and logs: "logs_hold (k_decimal env) (k_path env) (contents db) ws"
    and key: "list_all plain key" "length key = length (t_pk t)"
    and once: "key_freq (k_decimal env) ws t key = 1" "key_row (k_decimal env) ws t key = row"
  shows "\<exists>tup. first_row env db t key = Some (Inr (Some (tup, 1))) \<and> row_matches (k_decimal env) tup row"
proof -
  have v: "valid_row (k_decimal env) (k_path env) key" using plain_row_valid [OF key(1) catalog_env_lawsD(2) [OF laws]] .
  have "table_holds (k_decimal env) (k_path env) t (contents db) (ws t)" using logs t by (simp add: logs_hold_def)
  from first_row_eq [OF laws t this v] rows_with_key [OF system_tables_wf [OF t] logs_valid [OF logs t] v key(2)] once key(2)
  show ?thesis by (auto simp: Let_def)
qed

lemma lookup_once:
  assumes laws: "catalog_env_laws env contents rest" and t: "t \<in> system_tables"
    and logs: "logs_hold (k_decimal env) (k_path env) (contents db) ws"
    and key: "list_all plain key" "length key = length (t_pk t)"
    and once: "key_freq (k_decimal env) ws t key = 1" "key_row (k_decimal env) ws t key = row"
  shows "\<exists>zs. lookup_item env db t key = Some (Inr (Some (1, zs))) \<and> row_matches (k_decimal env) zs (drop (length (t_pk t)) row)"
proof -
  have v: "valid_row (k_decimal env) (k_path env) key" using plain_row_valid [OF key(1) catalog_env_lawsD(2) [OF laws]] .
  have "table_holds (k_decimal env) (k_path env) t (contents db) (ws t)" using logs t by (simp add: logs_hold_def)
  from lookup_item_eq [OF laws t this v key(2)] once show ?thesis by auto
qed

lemma row_matches_nth: "row_matches D ys xs \<Longrightarrow> i < length xs \<Longrightarrow> datum_eq D (ys ! i) (xs ! i)"
  by (simp add: row_matches_def list_all2_nthD2)

lemma datum_eq_text:
  "datum_eq D y (text_datum s) \<Longrightarrow> as_maybe_text y = Some (str_bytes s)"
  "datum_eq D y (id_datum i) \<Longrightarrow> y = id_datum i"
  "datum_eq D y (D_ByteAOwned b) \<Longrightarrow> as_maybe_bytea y = Some b"
  by (cases y; simp add: datum_eq_def text_datum_def id_datum_def as_maybe_text_def)+

text \<open>Deleting the records of a table leaves the system tables alone.\<close>

lemma below_user_tables:
  assumes "(tid :: u32) AND 1 = 0" "tid \<notin> t_id ` system_tables"
  shows "4 < tid"
proof (rule ccontr)
  assume "\<not> 4 < tid"
  then have "unat tid \<le> 4" by (simp add: word_less_nat_alt)
  then have "tid \<in> of_nat ` {0, 1, 2, 3, 4}" by (intro image_eqI [of _ _ "unat tid"]) auto
  then show False using assms by (auto simp: system_tables_def)
qed

lemma outside_range:
  assumes "in_table t k" "t_id t < tid"
  shows "\<not> u32_to_be tid \<le> k"
proof -
  have k: "k = u32_to_be (t_id t) @ drop 4 k" using assms(1) append_take_drop_id [of 4 k] by (simp add: in_table_def)
  have "sep_lt (u32_to_be (t_id t)) (u32_to_be tid)" using sep_lt_u32 [of "t_id t" "[]" tid "[]"] assms(2) by simp
  then have "k < u32_to_be tid" using sep_lt_less_append [of _ _ "drop 4 k" "[]"] k by (metis append.right_neutral)
  then show ?thesis by simp
qed

lemma delete_range_logs:
  assumes laws: "catalog_env_laws env contents rest" and tid: "tid AND 1 = 0" "tid \<notin> t_id ` system_tables"
    and logs: "logs_hold (k_decimal env) (k_path env) (contents db) ws"
  shows "\<exists>db'. k_delete_range env db (u32_to_be tid) b = Inr db' \<and> logs_hold (k_decimal env) (k_path env) (contents db') ws"
proof -
  obtain db' where db': "k_delete_range env db (u32_to_be tid) b = Inr db'"
    "contents db' = (\<lambda>k. if u32_to_be tid \<le> k \<and> k < b then None else contents db k)"
    using laws unfolding catalog_env_laws_def by blast
  have "table_holds (k_decimal env) (k_path env) t (contents db') (ws t)" if t: "t \<in> system_tables" for t
  proof -
    have "t_id t < tid" using t below_user_tables [OF tid] by (auto simp: system_tables_def intro: le_less_trans [of _ 4])
    then have "contents db' k = contents db k" if "in_table t k" for k using outside_range [OF that] by (simp add: db'(2))
    then have "table_holds (k_decimal env) (k_path env) t (contents db') (ws t) = table_holds (k_decimal env) (k_path env) t (contents db) (ws t)"
      by (rule table_holds_cong)
    then show ?thesis using logs t by (simp add: logs_hold_def)
  qed
  then show ?thesis using db'(1) by (auto simp: logs_hold_def)
qed

lemma item_scanned:
  assumes laws: "catalog_env_laws env contents rest" and logs: "logs_hold (k_decimal env) (k_path env) (contents cdb) ws"
    and items: "items_described (k_decimal env) ws S" and it: "ac_items S (db, n) = Some it"
  obtains tup system where "item_ok it" "first_row env cdb tables_table [text_datum db, text_datum n] = Some (Inr (Some (tup, 1)))"
    "row_matches (k_decimal env) tup (item_row db n it system)" "valid_tuple (k_decimal env) (k_path env) tables_table tup"
proof -
  let ?D = "k_decimal env"
  obtain system where ok: "item_ok it" and row: "key_row ?D ws tables_table [text_datum db, text_datum n] = item_row db n it system"
    using item_described [OF items it] .
  have "key_freq ?D ws tables_table [text_datum db, text_datum n] = 1" using items it by (simp add: items_described_def)
  then obtain tup where first: "first_row env cdb tables_table [text_datum db, text_datum n] = Some (Inr (Some (tup, 1)))"
    and tup: "row_matches ?D tup (item_row db n it system)"
    using scan_once [OF laws system_tablesI(3) logs _ _ _ row] by auto
  have "valid_tuple ?D (k_path env) tables_table tup"
    using plain_row_valid [OF plain_matches [OF tup] catalog_env_lawsD(2) [OF laws]] tup
    by (auto simp: valid_tuple_def row_matches_def dest: list_all2_lengthD)
  then show ?thesis using that ok first tup by blast
qed

lemma meta_scanned:
  assumes laws: "catalog_env_laws env contents rest" and logs: "logs_hold (k_decimal env) (k_path env) (contents cdb) ws"
    and metas: "metas_described (k_decimal env) ws S" and has: "has_table S k t"
  obtains meta where "first_row env cdb prefix_metadata_table [id_datum (t_id t)] = Some (Inr (Some (meta, 1)))"
    "row_matches (k_decimal env) meta (meta_row t)" "valid_tuple (k_decimal env) (k_path env) prefix_metadata_table meta"
proof -
  let ?D = "k_decimal env"
  have "t_id t \<in> table_ids S" using has unfolding table_ids_iff by blast
  then have "key_freq ?D ws prefix_metadata_table [id_datum (t_id t)] = 1" "key_row ?D ws prefix_metadata_table [id_datum (t_id t)] = meta_row t"
    using metas_describedD [OF metas] has by auto
  then obtain meta where meta: "first_row env cdb prefix_metadata_table [id_datum (t_id t)] = Some (Inr (Some (meta, 1)))"
    "row_matches ?D meta (meta_row t)"
    using scan_once [OF laws system_tablesI(1) logs, of "[id_datum (t_id t)]" "meta_row t"] by auto
  moreover have "valid_tuple ?D (k_path env) prefix_metadata_table meta"
    using plain_row_valid [OF plain_matches [OF meta(2)] catalog_env_lawsD(2) [OF laws]] meta(2)
    by (auto simp: valid_tuple_def row_matches_def dest: list_all2_lengthD)
  ultimately show ?thesis using that by blast
qed

lemma item_kind:
  assumes "row_matches D tup (item_row db n it system)"
  shows "length tup = 8"
    "ci_item it = TV_View v \<Longrightarrow> as_maybe_text (tup ! 2) = Some (str_bytes ''view'')"
    "ci_item it = TV_Table t \<Longrightarrow> as_maybe_text (tup ! 2) = Some (str_bytes ''table'') \<and> tup ! 5 = id_datum (t_id t)"
proof -
  note nth = row_matches_nth [OF assms, of 2] row_matches_nth [OF assms, of 5]
  show "length tup = 8" using assms by (auto simp: row_matches_def dest: list_all2_lengthD)
  show "ci_item it = TV_View v \<Longrightarrow> as_maybe_text (tup ! 2) = Some (str_bytes ''view'')"
    using nth datum_eq_text(1) [of D "tup ! 2"] by (simp add: item_row_def)
  show "ci_item it = TV_Table t \<Longrightarrow> as_maybe_text (tup ! 2) = Some (str_bytes ''table'') \<and> tup ! 5 = id_datum (t_id t)"
    using nth datum_eq_text(1) [of D "tup ! 2"] datum_eq_text(2) [of D "tup ! 5"] by (simp add: item_row_def)
qed

lemma drop_view_repr:
  assumes laws: "catalog_env_laws env contents rest" and repr: "catalog_repr env contents self S"
    and it: "ac_items S (db, n) = Some it" "ci_item it = TV_View v"
  shows "\<exists>self'. drop_table_impl env db n self = Some (self', Inr ()) \<and> catalog_repr env contents self' (put_item (db, n) None S)"
proof -
  let ?D = "k_decimal env" and ?ts = "k_now env (cat_ticks self)" and ?self = "self\<lparr>cat_ticks := cat_ticks self + 1\<rparr>"
  note D = catalog_env_lawsD(2) [OF laws] and ts = catalog_env_lawsD(4) [OF laws]
  obtain ws where logs: "logs_hold ?D (k_path env) (contents (cat_db self)) ws" "logs_until ?ts ws" and desc: "describes ?D ws S"
    using repr by (auto simp: catalog_repr_def catalog_logs_def)
  have items: "items_described ?D ws S" using desc by (simp add: describes_def)
  obtain tup system where tup: "first_row env (cat_db self) tables_table [text_datum db, text_datum n] = Some (Inr (Some (tup, 1)))"
    "row_matches ?D tup (item_row db n it system)" "valid_tuple ?D (k_path env) tables_table tup"
    using item_scanned [OF laws logs(1) items it(1)] .
  let ?ws = "ws(tables_table := ws tables_table @ [(tup, ?ts, - 1)])"
  have "metas_described ?D ws (put_item (db, n) None S)"
    using desc it by (intro metas_view) (auto simp: has_table_def describes_def)
  then have "describes ?D ?ws (put_item (db, n) None S)" using items_removed [OF D ts items it(1) tup(2)] desc by (simp add: describes_def)
  moreover obtain self' where "write_catalog env ?self (writer_write_tuple (k_rocks env) ?D (cat_db self) tables_table tup ?ts (- 1)) = Some (self', Inr ())"
    "catalog_logs env contents self' ?ws"
    using write_one [where self = ?self and n = "cat_ticks self", OF laws system_tablesI(3) tup(3) _ logs(2), of "- 1"] logs(1) by auto
  ultimately show ?thesis using tup(1) item_kind(1,2) [OF tup(2)] it(2) unfolding drop_table_impl_def Let_def catalog_repr_def by auto
qed

lemma drop_user_table_repr:
  assumes laws: "catalog_env_laws env contents rest" and repr: "catalog_repr env contents self S"
    and it: "ac_items S (db, n) = Some it" "ci_item it = TV_Table t" and user: "t_id t \<notin> t_id ` system_tables"
  shows "\<exists>self'. drop_table_impl env db n self = Some (self', Inr ()) \<and> catalog_repr env contents self' (put_item (db, n) None S)"
proof -
  let ?D = "k_decimal env" and ?ts = "k_now env (cat_ticks self)" and ?self = "self\<lparr>cat_ticks := cat_ticks self + 1\<rparr>"
  let ?put = "writer_write_tuple (k_rocks env) (k_decimal env)"
  note D = catalog_env_lawsD(2) [OF laws] and ts = catalog_env_lawsD(4) [OF laws]
  obtain ws where logs: "logs_hold ?D (k_path env) (contents (cat_db self)) ws" "logs_until ?ts ws" and desc: "describes ?D ws S"
    using repr by (auto simp: catalog_repr_def catalog_logs_def)
  have items: "items_described ?D ws S" and metas: "metas_described ?D ws S" using desc by (simp_all add: describes_def)
  obtain tup system where ok: "item_ok it" and tup: "first_row env (cat_db self) tables_table [text_datum db, text_datum n] = Some (Inr (Some (tup, 1)))"
    "row_matches ?D tup (item_row db n it system)" "valid_tuple ?D (k_path env) tables_table tup"
    using item_scanned [OF laws logs(1) items it(1)] .
  have even: "t_id t AND 1 = 0" and has: "has_table S (db, n) t" using ok it by (simp_all add: item_ok_def has_table_def)
  obtain meta where meta: "first_row env (cat_db self) prefix_metadata_table [id_datum (t_id t)] = Some (Inr (Some (meta, 1)))"
    "row_matches ?D meta (meta_row t)" "valid_tuple ?D (k_path env) prefix_metadata_table meta"
    using meta_scanned [OF laws logs(1) metas has] .
  obtain db' where db': "k_delete_range env (cat_db self) (u32_to_be (t_id t)) (u32_to_be (t_id t + 2)) = Inr db'"
    "logs_hold ?D (k_path env) (contents db') ws"
    using delete_range_logs [OF laws even user logs(1)] by blast
  let ?ws = "ws(prefix_metadata_table := ws prefix_metadata_table @ [(meta, ?ts, - 1)], tables_table := ws tables_table @ [(tup, ?ts, - 1)])"
  have "metas_described ?D ?ws (put_item (db, n) None S)" using metas_removed [OF D ts metas has meta(2)] by simp
  moreover have "items_described ?D ?ws (put_item (db, n) None S)"
    using items_removed [OF D ts items it(1) tup(2)] by (subst fun_upd_twist) simp_all
  ultimately have "describes ?D ?ws (put_item (db, n) None S)" using desc by (simp add: describes_def)
  moreover obtain self' where "write_catalog env (?self\<lparr>cat_db := db'\<rparr>) (\<lambda>w.
      and_then (?put db' prefix_metadata_table meta ?ts (- 1) w) (?put db' tables_table tup ?ts (- 1))) = Some (self', Inr ())"
    "catalog_logs env contents self' ?ws"
    using write_two [where self = "?self\<lparr>cat_db := db'\<rparr>" and n = "cat_ticks self",
        OF laws system_tablesI(1) meta(3) system_tablesI(3) tup(3) _ _ logs(2), of "- 1" "- 1"] db'(2) by auto
  ultimately show ?thesis using tup(1) item_kind(1,3) [OF tup(2)] it(2) meta(1) db'(1)
    unfolding drop_table_impl_def Let_def catalog_repr_def by (auto simp: id_datum_def)
qed

text \<open>The largest even id: the end of the deleted range wraps to zero, so that the range is empty and the
  records of the table stay.\<close>

lemma delete_range_of_last_id: "\<not> (u32_to_be 0xFFFFFFFE \<le> k \<and> k < u32_to_be (0xFFFFFFFE + 2))"
proof -
  have "sep_lt (u32_to_be 0) (u32_to_be 0xFFFFFFFE)" using sep_lt_u32 [of 0 "[]" "0xFFFFFFFE" "[]"] by simp
  then have "u32_to_be 0 < u32_to_be 0xFFFFFFFE" using sep_lt_less_append [of _ _ "[]" "[]"] by simp
  moreover have wraps: "(0xFFFFFFFE + 2 :: u32) = 0" by simp
  ultimately have "\<not> (u32_to_be 0xFFFFFFFE \<le> k \<and> k < u32_to_be 0)" by (auto dest: order.strict_trans2)
  then show ?thesis unfolding wraps .
qed

section \<open>Properties\<close>

lemma check_results:
  assumes "catalog_env_laws env contents rest" "catalog_repr env contents self S"
  shows "check_db_exists env self db = Some (if db \<in> ac_databases S then Inr () else Inl (DatabaseNotFound db))"
    "check_db_not_exists env self db = Some (if db \<in> ac_databases S then Inl (DatabaseAlreadyExists db) else Inr ())"
    "check_db_empty env self db = Some (if \<exists>n. ac_items S (db, n) \<noteq> None then Inl (DatabaseNotEmpty db) else Inr ())"
    "check_table_exists env self db n = Some (if ac_items S (db, n) = None then Inl (TableNotFound db n) else Inr ())"
    "check_table_not_exists env self db n = Some (if ac_items S (db, n) = None then Inr () else Inl (TableAlreadyExists db n))"
    "row_exists env self prefix_metadata_table [id_datum i] = Some (Inr (i \<in> table_ids S))"
proof -
  obtain ws where ws: "catalog_logs env contents self ws" "databases_described (k_decimal env) ws (ac_databases S)"
    "items_described (k_decimal env) ws S" "metas_described (k_decimal env) ws S"
    using assms(2) by (auto simp: catalog_repr_def describes_def)
  note db = db_exists_eq [OF assms(1) ws(1,2)] and tb = table_exists_eq [OF assms(1) ws(1,3)]
  show "check_db_exists env self db = Some (if db \<in> ac_databases S then Inr () else Inl (DatabaseNotFound db))"
    "check_db_not_exists env self db = Some (if db \<in> ac_databases S then Inl (DatabaseAlreadyExists db) else Inr ())"
    by (simp_all add: check_db_exists_def check_db_not_exists_def db)
  show "check_table_exists env self db n = Some (if ac_items S (db, n) = None then Inl (TableNotFound db n) else Inr ())"
    "check_table_not_exists env self db n = Some (if ac_items S (db, n) = None then Inr () else Inl (TableAlreadyExists db n))"
    by (simp_all add: check_table_exists_def check_table_not_exists_def tb)
  show "check_db_empty env self db = Some (if \<exists>n. ac_items S (db, n) \<noteq> None then Inl (DatabaseNotEmpty db) else Inr ())"
    by (rule check_db_empty_eq [OF assms(1) ws(1,3)])
  show "row_exists env self prefix_metadata_table [id_datum i] = Some (Inr (i \<in> table_ids S))"
    using key_exists [OF assms(1) system_tablesI(1) ws(1), of "[id_datum i]"] metas_describedD(1) [OF ws(4), of i] by simp
qed

lemma drop_database_repr:
  assumes laws: "catalog_env_laws env contents rest" and repr: "catalog_repr env contents self S"
    and db: "db \<in> ac_databases S" "\<And>n. ac_items S (db, n) = None"
  shows "\<exists>self'. drop_database env db self = Some (self', Inr ()) \<and>
    catalog_repr env contents self' (S\<lparr>ac_databases := ac_databases S - {db}\<rparr>)"
proof -
  note D = catalog_env_lawsD(2) [OF laws] and ts = catalog_env_lawsD(4) [OF laws]
  obtain ws where ws: "catalog_logs env contents self ws" "describes (k_decimal env) ws S" using repr by (auto simp: catalog_repr_def)
  have "describes (k_decimal env) (ws(databases_table := ws databases_table @ [([text_datum db], k_now env (cat_ticks self), - 1)]))
      (S\<lparr>ac_databases := ac_databases S - {db}\<rparr>)"
    using ws(2) databases_changed(2) [OF D ts _ db(1)] by (simp add: describes_def)
  then show ?thesis
    using write_one [OF laws system_tablesI(2) row_tuples(3) [OF D], of "self\<lparr>cat_ticks := cat_ticks self + 1\<rparr>" ws "cat_ticks self" db "- 1"]
      ws(1) check_results(1,3) [OF laws repr, of db] db
    unfolding drop_database_def try_change_def Let_def catalog_repr_def by (auto simp: catalog_logs_def)
qed

lemma create_table_repr:
  assumes laws: "catalog_env_laws env contents rest" and repr: "catalog_repr env contents self S"
    and free: "db \<in> ac_databases S" "ac_items S (db, n) = None" and ok: "op_ok S (Create_Table db n columns)"
  shows "\<exists>self' tid. create_table env db n columns self = Some (self', Inr ()) \<and> tid \<notin> table_ids S \<and> tid AND 1 = 0 \<and>
    catalog_repr env contents self' (put_item (db, n) (Some (new_table tid columns (map (\<lambda>_. Asc) columns))) S)"
proof -
  obtain i where i: "i \<notin> table_ids S" "i AND 1 = 0" and fit: "columns_fit columns" using ok by auto
  obtain tid where tid: "generate_table_id env self n = Some (Inr tid)" "tid \<notin> table_ids S" "tid AND 1 = 0"
    using generate_table_id_eq [where ids = "table_ids S", OF check_results(6) [OF laws repr] i] by blast
  have "length (map (\<lambda>_. Asc) columns) \<le> length columns" by simp
  from create_table_impl_repr [where system = False, OF laws repr free(2) tid(2,3) fit this]
  show ?thesis using tid check_results(1,5) [OF laws repr] free by (auto simp: create_table_def try_change_def)
qed

text \<open>An operation that a step of the abstract catalog simulates.\<close>

definition simulated ::
  "('d, 'db, 'it) catalog_env \<Rightarrow> ('db \<Rightarrow> bytes \<rightharpoonup> bytes) \<Rightarrow> 'db catalog \<Rightarrow> abs_catalog \<Rightarrow> catalog_op \<Rightarrow> bool" where
  "simulated env contents self S op \<longleftrightarrow>
     (\<exists>self' r S'. run_op env op self = Some (self', r) \<and> catalog_step S op r S' \<and> catalog_repr env contents self' S')"

lemma simulatedI:
  "run_op env op self = Some (self', r) \<Longrightarrow> catalog_step S op r S' \<Longrightarrow> catalog_repr env contents self' S' \<Longrightarrow> simulated env contents self S op"
  by (auto simp: simulated_def)

lemma create_database_simulated:
  assumes laws: "catalog_env_laws env contents rest" and repr: "catalog_repr env contents self S"
  shows "simulated env contents self S (Create_Database db)"
proof (cases "db \<in> ac_databases S")
  case True
  show ?thesis using check_results(2) [OF laws repr, of db] True
    by (intro simulatedI [OF _ db_taken [OF True] repr]) (simp add: create_database_def try_change_def)
next
  case False
  then show ?thesis using create_database_impl_repr [OF laws repr False] check_results(2) [OF laws repr, of db]
    by (auto simp: create_database_def try_change_def intro: simulatedI [OF _ db_created])
qed

lemma drop_database_simulated:
  assumes laws: "catalog_env_laws env contents rest" and repr: "catalog_repr env contents self S"
  shows "simulated env contents self S (Drop_Database db)"
proof -
  consider "db \<notin> ac_databases S" | n where "db \<in> ac_databases S" "ac_items S (db, n) \<noteq> None" | "db \<in> ac_databases S" "\<And>n. ac_items S (db, n) = None"
    by blast
  then show ?thesis
  proof cases
    case 1
    show ?thesis using check_results(1) [OF laws repr, of db] 1
      by (intro simulatedI [OF _ db_missing [OF 1] repr]) (simp_all add: drop_database_def try_change_def)
  next
    case (2 n)
    have "check_db_empty env self db = Some (Inl (DatabaseNotEmpty db))" unfolding check_results(3) [OF laws repr] using 2(2) by auto
    then show ?thesis using check_results(1) [OF laws repr, of db] 2
      by (intro simulatedI [OF _ db_not_empty [OF 2] repr]) (simp add: drop_database_def try_change_def)
  next
    case 3
    then show ?thesis using drop_database_repr [OF laws repr 3] simulatedI [OF _ db_dropped [OF 3]] by auto
  qed
qed

lemma create_simulated:
  assumes laws: "catalog_env_laws env contents rest" and repr: "catalog_repr env contents self S" and ok: "op_ok S op"
    and op: "op = Create_Table db n columns \<or> op = Create_View db n columns sql context"
  shows "simulated env contents self S op"
proof -
  have m: "op \<in> {Drop_Database db, Create_Table db n columns, Create_View db n columns sql context}"
    "op \<in> {Create_Table db n columns, Create_View db n columns sql context}" using op by auto
  note checks = check_results(1,5) [OF laws repr]
  consider "db \<notin> ac_databases S" | "db \<in> ac_databases S" "ac_items S (db, n) \<noteq> None" | "db \<in> ac_databases S" "ac_items S (db, n) = None" by blast
  then show ?thesis
  proof cases
    case 1
    show ?thesis using checks op 1
      by (intro simulatedI [OF _ db_missing [OF 1 m(1)] repr]) (auto simp: create_table_def create_view_def try_change_def)
  next
    case 2
    show ?thesis using checks op 2
      by (intro simulatedI [OF _ name_taken [OF 2 m(2)] repr]) (auto simp: create_table_def create_view_def try_change_def)
  next
    case 3
    show ?thesis
    proof (cases "op = Create_Table db n columns")
      case True
      from create_table_repr [OF laws repr 3 ok [unfolded True]] show ?thesis unfolding True
        using simulatedI [OF _ table_created [OF 3]] by auto
    next
      case False
      then have view: "op = Create_View db n columns sql context" using op by blast
      from create_view_impl_repr [OF laws repr 3(2), of columns sql "context" False] show ?thesis
        unfolding view using ok checks 3 by (auto simp: view create_view_def try_change_def intro: simulatedI [OF _ view_created [OF 3]])
    qed
  qed
qed

lemma drop_table_simulated:
  assumes laws: "catalog_env_laws env contents rest" and repr: "catalog_repr env contents self S" and ok: "op_ok S (Drop_Table db n)"
  shows "simulated env contents self S (Drop_Table db n)"
proof (cases "ac_items S (db, n)")
  case None
  show ?thesis using check_results(4) [OF laws repr, of db n] None
    by (intro simulatedI [OF _ item_missing [OF None] repr]) (simp add: drop_table_def try_change_def)
next
  case (Some it)
  have "\<exists>self'. drop_table_impl env db n self = Some (self', Inr ()) \<and> catalog_repr env contents self' (put_item (db, n) None S)"
  proof (cases "ci_item it")
    case (TV_Table t)
    then have "t_id t \<notin> t_id ` system_tables" using ok Some by (simp add: has_table_def)
    from drop_user_table_repr [OF laws repr Some TV_Table this] show ?thesis .
  next
    case (TV_View v)
    from drop_view_repr [OF laws repr Some TV_View] show ?thesis .
  qed
  then show ?thesis using check_results(4) [OF laws repr, of db n] Some
    by (auto simp: drop_table_def try_change_def intro: simulatedI [OF _ item_dropped])
qed

lemma op_simulated:
  assumes laws: "catalog_env_laws env contents rest" and repr: "catalog_repr env contents self S" and ok: "op_ok S op"
  shows "simulated env contents self S op"
  using create_database_simulated [OF laws repr] drop_database_simulated [OF laws repr] create_simulated [OF laws repr ok]
    drop_table_simulated [OF laws repr] ok
  by (cases op) auto

text \<open>C4. The catalog refines the abstract catalog: every operation on a catalog that represents an abstract
  one returns, its result is the one of an abstract step, and the new catalog represents the
  abstract catalog after that step.  A new table gets an even id that no other table has; names
  are created once and dropped once, databases are dropped when they are empty, and every error
  leaves the abstract catalog as it was.\<close>

theorem catalog_refines:
  assumes laws: "catalog_env_laws env contents rest" and repr: "catalog_repr env contents self S" and ok: "op_ok S op"
  shows "\<exists>self' r S'. run_op env op self = Some (self', r) \<and> catalog_step S op r S' \<and> catalog_repr env contents self' S'"
  using op_simulated [OF assms] by (simp add: simulated_def)

section \<open>Lookups\<close>

lemma item_values:
  assumes "row_matches D zs (drop 2 (item_row db n it system))"
  shows "length zs = 6" "as_maybe_bytea (zs ! 4) = Some (tape ref_decimal_ops (columns_value (ci_columns it)))"
    "ci_item it = TV_View v \<Longrightarrow> as_maybe_text (zs ! 0) = Some (str_bytes ''view'') \<and>
      as_maybe_text (zs ! 1) = Some (str_bytes (v_sql v)) \<and> as_maybe_text (zs ! 2) = Some (str_bytes (v_db_context v))"
    "ci_item it = TV_Table t \<Longrightarrow> as_maybe_text (zs ! 0) = Some (str_bytes ''table'') \<and> zs ! 3 = id_datum (t_id t)"
proof -
  have nth: "i < 6 \<Longrightarrow> datum_eq D (zs ! i) (drop 2 (item_row db n it system) ! i)" for i using row_matches_nth [OF assms, of i] by simp
  note nths = nth [of 0] nth [of 1] nth [of 2] nth [of 3] nth [of 4]
  show "length zs = 6" using assms by (auto simp: row_matches_def dest: list_all2_lengthD)
  show "as_maybe_bytea (zs ! 4) = Some (tape ref_decimal_ops (columns_value (ci_columns it)))"
    using nths datum_eq_text(3) [of D "zs ! 4"] by (auto simp: item_row_def columns_json_def split: table_or_view.splits)
  show "ci_item it = TV_View v \<Longrightarrow> as_maybe_text (zs ! 0) = Some (str_bytes ''view'') \<and>
      as_maybe_text (zs ! 1) = Some (str_bytes (v_sql v)) \<and> as_maybe_text (zs ! 2) = Some (str_bytes (v_db_context v))"
    using nths datum_eq_text(1) [of D "zs ! 0"] datum_eq_text(1) [of D "zs ! 1"] datum_eq_text(1) [of D "zs ! 2"] by (simp add: item_row_def)
  show "ci_item it = TV_Table t \<Longrightarrow> as_maybe_text (zs ! 0) = Some (str_bytes ''table'') \<and> zs ! 3 = id_datum (t_id t)"
    using nths datum_eq_text(1) [of D "zs ! 0"] datum_eq_text(2) [of D "zs ! 3"] by (simp add: item_row_def)
qed

lemma meta_looked_up:
  assumes laws: "catalog_env_laws env contents rest" and logs: "logs_hold (k_decimal env) (k_path env) (contents cdb) ws"
    and metas: "metas_described (k_decimal env) ws S" and has: "has_table S k t" and pks: "pks_fit (t_pk t)"
  obtains f meta where "lookup_item env cdb prefix_metadata_table [id_datum (t_id t)] = Some (Inr (Some (f, meta)))"
    "1 < length meta" "read_json_array read_sort_order (meta ! 1) = Some (t_pk t)"
proof -
  let ?D = "k_decimal env"
  have "t_id t \<in> table_ids S" using has unfolding table_ids_iff by blast
  then have "key_freq ?D ws prefix_metadata_table [id_datum (t_id t)] = 1" "key_row ?D ws prefix_metadata_table [id_datum (t_id t)] = meta_row t"
    using metas_describedD [OF metas] has by auto
  then obtain meta where meta: "lookup_item env cdb prefix_metadata_table [id_datum (t_id t)] = Some (Inr (Some (1, meta)))"
    "row_matches ?D meta (drop 1 (meta_row t))"
    using lookup_once [OF laws system_tablesI(1) logs, of "[id_datum (t_id t)]" "meta_row t"] by auto
  have "length meta = 2" using meta(2) by (auto simp: row_matches_def dest: list_all2_lengthD)
  moreover have "as_maybe_bytea (meta ! 1) = Some (tape ref_decimal_ops (pks_value (t_pk t)))"
    using row_matches_nth [OF meta(2), of 1] datum_eq_text(3) [of ?D "meta ! 1"] by (simp add: meta_row_def pks_json_def)
  ultimately show ?thesis using that [OF meta(1)] read_pks [OF pks, of "meta ! 1"] by simp
qed

lemma item_eq:
  fixes env :: "('d, 'db, 'it) catalog_env"
  assumes laws: "catalog_env_laws env contents rest" and repr: "catalog_repr env contents self S"
  shows "Catalog.item env self db n = Some (case ac_items S (db, n) of None \<Rightarrow> Inl (TableNotFound db n) | Some it \<Rightarrow> Inr it)"
proof -
  let ?D = "k_decimal env" and ?key = "[text_datum db, text_datum n] :: 'd datum list"
  note D = catalog_env_lawsD(2) [OF laws]
  obtain ws where logs: "logs_hold ?D (k_path env) (contents (cat_db self)) ws"
    and items: "items_described ?D ws S" and metas: "metas_described ?D ws S"
    using repr by (auto simp: catalog_repr_def catalog_logs_def describes_def)
  have freq: "key_freq ?D ws tables_table ?key = of_bool (ac_items S (db, n) \<noteq> None)" using items by (simp add: items_described_def)
  show ?thesis
  proof (cases "ac_items S (db, n)")
    case None
    have "table_holds ?D (k_path env) tables_table (contents (cat_db self)) (ws tables_table)" using logs by (simp add: logs_hold_def)
    from lookup_item_eq [OF laws system_tablesI(3) this plain_row_valid [OF _ D], of ?key] freq None
    show ?thesis by (auto simp: item_def)
  next
    case (Some it)
    obtain system where ok: "item_ok it" and row: "key_row ?D ws tables_table ?key = item_row db n it system"
      using item_described [OF items Some] .
    obtain zs where zs: "lookup_item env (cat_db self) tables_table ?key = Some (Inr (Some (1, zs)))"
      "row_matches ?D zs (drop 2 (item_row db n it system))"
      using lookup_once [OF laws system_tablesI(3) logs _ _ _ row] freq Some by (auto simp: eval_nat_numeral)
    note v = item_values [OF zs(2)]
    have columns: "read_json_array read_column (zs ! 4) = Some (ci_columns it)"
      using read_columns [OF _ v(2)] ok by (simp add: item_ok_def)
    show ?thesis
    proof (cases "ci_item it")
      case (TV_View view)
      then show ?thesis using zs(1) v(1,3) columns Some by (cases it; cases view) (auto simp: item_def)
    next
      case (TV_Table t)
      then have t: "t_id t AND 1 = 0" "t_length t = length (ci_columns it)" "length (t_pk t) \<le> t_length t" "pks_fit (t_pk t)"
        using ok by (simp_all add: item_ok_def)
      have "has_table S (db, n) t" using Some TV_Table by (simp add: has_table_def)
      from meta_looked_up [OF laws logs metas this t(4)] obtain f meta where
        "lookup_item env (cat_db self) prefix_metadata_table [id_datum (t_id t)] = Some (Inr (Some (f, meta)))"
        "1 < length meta" "read_json_array read_sort_order (meta ! 1) = Some (t_pk t)" .
      moreover have "storage_table (t_id t) (length (ci_columns it)) (t_pk t) = Some t"
        using t by (cases t) (simp add: storage_table_def table_new_def)
      ultimately show ?thesis using zs(1) v(1) v(4) [OF TV_Table] columns Some TV_Table
        by (cases it) (auto simp: item_def id_datum_def)
    qed
  qed
qed

text \<open>C15. The lookup of a name in a catalog finds exactly the item that the abstract catalog has under that name,
  with its columns and their data types, the id, the width and the key of a table, the text and the
  database of a view; a name that was never created or has been dropped is reported as missing.\<close>

theorem item_lookup:
  fixes env :: "('d, 'db, 'it) catalog_env"
  assumes "catalog_env_laws env contents rest" "catalog_repr env contents self S"
  shows "Catalog.item env self db n = Some (case ac_items S (db, n) of None \<Rightarrow> Inl (TableNotFound db n) | Some it \<Rightarrow> Inr it)"
  using item_eq [OF assms] .

section \<open>First boot\<close>

definition system_catalog :: abs_catalog where
  "system_catalog = \<lparr>ac_databases = {''incresql'', ''default'', ''information_schema''},
     ac_items = [(''incresql'', ''prefix_tables'') \<mapsto>
         new_table 0 [(''table_id'', T_BigInt), (''column_len'', T_Integer), (''pk_sort'', T_Json)] [Asc],
       (''incresql'', ''databases'') \<mapsto> new_table 2 [(''name'', T_Text)] [Asc],
       (''incresql'', ''tables'') \<mapsto> new_table 4
         [(''database_name'', T_Text), (''name'', T_Text), (''type'', T_Text), (''sql'', T_Text), (''sql_context'', T_Text),
          (''table_id'', T_BigInt), (''columns'', T_Json), (''system'', T_Boolean)] [Asc, Asc]]\<rparr>"

lemma empty_repr_catalog:
  assumes "\<And>t k. t \<in> system_tables \<Longrightarrow> in_table t k \<Longrightarrow> contents (cat_db self) k = None"
  shows "catalog_repr env contents self \<lparr>ac_databases = {}, ac_items = \<lambda>_. None\<rparr>"
proof -
  have "catalog_logs env contents self (\<lambda>_. [])"
    using assms by (auto simp: catalog_logs_def logs_hold_def logs_until_def intro: empty_table_holds)
  moreover have "describes (k_decimal env) (\<lambda>_. []) \<lparr>ac_databases = {}, ac_items = \<lambda>_. None\<rparr>"
    by (simp add: describes_def databases_described_def items_described_def metas_described_def has_table_def table_ids_def
        freq_as_of_def key_writes_def)
  ultimately show ?thesis by (auto simp: catalog_repr_def)
qed

lemma lookup_absent:
  assumes laws: "catalog_env_laws env contents rest" and key: "list_all plain key" "length key = length (t_pk t)"
    and none: "\<And>k. in_table t k \<Longrightarrow> contents db k = None"
  shows "lookup_item env db t key = Some (Inr None)"
proof -
  have "write_index_header_key (k_decimal env) t key = Some (base_key (k_decimal env) t key @ [0])"
    using write_index_header_key_eq [OF plain_row_valid [OF key(1) catalog_env_lawsD(2) [OF laws]]] key(2) by simp
  then show ?thesis using rocks_get [OF catalog_env_lawsD(1) [OF laws]] none by (simp add: lookup_item_def system_point_lookup_def)
qed

lemmas fit_simps = columns_fit_def columns_value_def column_value_def varlen_def str_bytes_def Let_def

lemma try_then_Inr: "r = Some (self, Inr ()) \<Longrightarrow> try_then r k = k self"
  by (simp add: try_then_def)

lemma boot_represents:
  assumes laws: "catalog_env_laws env contents rest" and empty: "\<And>t k. t \<in> system_tables \<Longrightarrow> in_table t k \<Longrightarrow> contents db k = None"
  shows "\<exists>self. catalog_new env db ticks = Some (self, Inr ()) \<and> catalog_repr env contents self system_catalog"
proof -
  let ?s = "\<lparr>cat_db = db, cat_ticks = ticks\<rparr>" and ?S0 = "\<lparr>ac_databases = {}, ac_items = \<lambda>_. None\<rparr>"
  have r0: "catalog_repr env contents ?s ?S0" using empty by (intro empty_repr_catalog) simp
  obtain s1 where s1: "create_database_impl env ''incresql'' ?s = Some (s1, Inr ())" "catalog_repr env contents s1 (?S0\<lparr>ac_databases := {''incresql''}\<rparr>)"
    using create_database_impl_repr [OF laws r0, of "''incresql''"] by auto
  obtain s2 where s2: "create_database_impl env ''default'' s1 = Some (s2, Inr ())"
    "catalog_repr env contents s2 (?S0\<lparr>ac_databases := {''default'', ''incresql''}\<rparr>)"
    using create_database_impl_repr [OF laws s1(2), of "''default''"] by auto
  obtain s3 where s3: "create_database_impl env ''information_schema'' s2 = Some (s3, Inr ())"
    "catalog_repr env contents s3 (?S0\<lparr>ac_databases := {''information_schema'', ''default'', ''incresql''}\<rparr>)"
    using create_database_impl_repr [OF laws s2(2), of "''information_schema''"] by auto
  let ?S3 = "?S0\<lparr>ac_databases := {''information_schema'', ''default'', ''incresql''}\<rparr>"
  let ?c0 = "[(''table_id'', T_BigInt), (''column_len'', T_Integer), (''pk_sort'', T_Json)]" and ?c2 = "[(''name'', T_Text)]"
  let ?c4 = "[(''database_name'', T_Text), (''name'', T_Text), (''type'', T_Text), (''sql'', T_Text), (''sql_context'', T_Text),
      (''table_id'', T_BigInt), (''columns'', T_Json), (''system'', T_Boolean)]"
  let ?S4 = "put_item (''incresql'', ''prefix_tables'') (Some (new_table 0 ?c0 [Asc])) ?S3"
  let ?S5 = "put_item (''incresql'', ''databases'') (Some (new_table 2 ?c2 [Asc])) ?S4"
  let ?S6 = "put_item (''incresql'', ''tables'') (Some (new_table 4 ?c4 [Asc, Asc])) ?S5"
  have fit: "columns_fit ?c0" "columns_fit ?c2" "columns_fit ?c4" by (simp_all add: fit_simps)
  have ids: "0 \<notin> table_ids ?S3" "2 \<notin> table_ids ?S4" "4 \<notin> table_ids ?S5"
    by (auto simp: table_ids_iff has_table_def new_table_def split: if_splits)
  obtain s4 where s4: "create_table_impl env ''incresql'' ''prefix_tables'' 0 ?c0 [Asc] True s3 = Some (s4, Inr ())" "catalog_repr env contents s4 ?S4"
    using create_table_impl_repr [where db = "''incresql''" and n = "''prefix_tables''" and pks = "[Asc]" and system = True, OF laws s3(2) _ ids(1) _ fit(1)] by auto
  obtain s5 where s5: "create_table_impl env ''incresql'' ''databases'' 2 ?c2 [Asc] True s4 = Some (s5, Inr ())" "catalog_repr env contents s5 ?S5"
    using create_table_impl_repr [where db = "''incresql''" and n = "''databases''" and pks = "[Asc]" and system = True, OF laws s4(2) _ ids(2) _ fit(2)] by auto
  obtain s6 where s6: "create_table_impl env ''incresql'' ''tables'' 4 ?c4 [Asc, Asc] True s5 = Some (s6, Inr ())" "catalog_repr env contents s6 ?S6"
    using create_table_impl_repr [where db = "''incresql''" and n = "''tables''" and pks = "[Asc, Asc]" and system = True, OF laws s5(2) _ ids(3) _ fit(3)] by auto
  have "lookup_item env db prefix_metadata_table [id_datum 0] = Some (Inr None)"
    using empty [OF system_tablesI(1)] by (intro lookup_absent [OF laws]) auto
  then have "catalog_new env db ticks = Some (s6, Inr ())"
    by (simp add: catalog_new_def bootstrap_def try_change_def try_then_Inr [OF s1(1)] try_then_Inr [OF s2(1)] try_then_Inr [OF s3(1)]
        try_then_Inr [OF s4(1)] try_then_Inr [OF s5(1)] s6(1))
  moreover have "?S6 = system_catalog" by (simp add: system_catalog_def put_item_def insert_commute)
  then have "catalog_repr env contents s6 system_catalog" using s6(2) by (rule subst [where P = "catalog_repr env contents s6"])
  ultimately show ?thesis by (intro exI [of _ s6] conjI)
qed

text \<open>C25. The first boot on an empty store creates the system databases and the three system tables, which
  describe themselves: the new catalog represents exactly that abstract catalog.\<close>

theorem catalog_first_boot:
  assumes "catalog_env_laws env contents rest" "\<And>t k. t \<in> system_tables \<Longrightarrow> in_table t k \<Longrightarrow> contents db k = None"
  shows "\<exists>self. catalog_new env db ticks = Some (self, Inr ()) \<and> catalog_repr env contents self system_catalog"
  using boot_represents [OF assms] .

text \<open>A later boot changes nothing.\<close>

lemma catalog_later_boot:
  assumes laws: "catalog_env_laws env contents rest" and repr: "catalog_repr env contents self S" and booted: "0 \<in> table_ids S"
  shows "bootstrap env self = Some (self, Inr ())"
proof -
  obtain ws where ws: "logs_hold (k_decimal env) (k_path env) (contents (cat_db self)) ws" "metas_described (k_decimal env) ws S"
    using repr by (auto simp: catalog_repr_def catalog_logs_def describes_def)
  have "key_freq (k_decimal env) ws prefix_metadata_table [id_datum 0] = 1" using metas_describedD(1) [OF ws(2), of 0] booted by simp
  then show ?thesis using lookup_once [OF laws system_tablesI(1) ws(1), of "[id_datum 0]"] by (auto simp: bootstrap_def try_change_def)
qed

section \<open>An example\<close>

definition example_catalog_env :: "(ref_decimal, ref_db, ref_db) catalog_env" where
  "example_catalog_env = \<lparr>k_decimal = ref_decimal_ops, k_rocks = ref_rocks, k_path = (\<lambda>_. None), k_now = (\<lambda>_. 7), k_hash = (\<lambda>_. 9),
     k_delete_range = (\<lambda>db a b. Inr (filter (\<lambda>(k, v). \<not> (a \<le> k \<and> k < b)) db))\<rparr>"

lemma map_of_filter_key: "map_of (filter (\<lambda>(k, v). P k) db) = (\<lambda>k. if P k then map_of db k else None)"
  by (induction db) (auto simp: fun_eq_iff)

lemma example_catalog_laws: "catalog_env_laws example_catalog_env map_of (\<lambda>it. it)"
  using ref_rocks_laws ref_decimal_laws
  by (auto simp: catalog_env_laws_def example_catalog_env_def mono_def map_of_filter_key fun_eq_iff)

lemma example_boot: "\<exists>self. catalog_new example_catalog_env [] 0 = Some (self, Inr ()) \<and> catalog_repr example_catalog_env map_of self system_catalog"
  by (rule boot_represents [OF example_catalog_laws]) simp

lemma example_ids: "6 \<notin> table_ids system_catalog"
  by (auto simp: table_ids_iff has_table_def system_catalog_def new_table_def split: if_splits)

theorem catalog_refines_witness:
  "\<exists>self self' r S'. catalog_new example_catalog_env [] 0 = Some (self, Inr ()) \<and>
    run_op example_catalog_env (Create_Table ''default'' ''t'' [(''x'', T_Integer)]) self = Some (self', r) \<and>
    catalog_step system_catalog (Create_Table ''default'' ''t'' [(''x'', T_Integer)]) r S' \<and> catalog_repr example_catalog_env map_of self' S'"
proof -
  obtain self where self: "catalog_new example_catalog_env [] 0 = Some (self, Inr ())" "catalog_repr example_catalog_env map_of self system_catalog"
    using example_boot by blast
  have "op_ok system_catalog (Create_Table ''default'' ''t'' [(''x'', T_Integer)])"
    using example_ids by (auto simp: fit_simps intro!: exI [of _ 6])
  from catalog_refines [OF example_catalog_laws self(2) this] show ?thesis using self(1) by blast
qed

theorem item_lookup_witness:
  "\<exists>self. catalog_new example_catalog_env [] 0 = Some (self, Inr ()) \<and>
    Catalog.item example_catalog_env self ''incresql'' ''databases'' = Some (Inr (new_table 2 [(''name'', T_Text)] [Asc])) \<and>
    Catalog.item example_catalog_env self ''default'' ''t'' = Some (Inl (TableNotFound ''default'' ''t''))"
proof -
  obtain self where self: "catalog_new example_catalog_env [] 0 = Some (self, Inr ())" "catalog_repr example_catalog_env map_of self system_catalog"
    using example_boot by blast
  then show ?thesis using item_lookup [OF example_catalog_laws self(2)] by (intro exI [of _ self]) (simp add: system_catalog_def)
qed

theorem catalog_first_boot_witness:
  "\<exists>self. catalog_new example_catalog_env [] 0 = Some (self, Inr ()) \<and> catalog_repr example_catalog_env map_of self system_catalog"
  by (rule catalog_first_boot [OF example_catalog_laws]) simp

end
