(* ===== verification/Runtime.thy ===== *)
theory Runtime
  imports Explain Catalog_Refinement "HOL-Library.Char_ord"
begin

text \<open>
  Connections and the execution of statements (\<open>runtime/src\<close>): the runtime hands out connections with
  fresh ids and keeps weak references to them, and a connection parses a statement, runs it on the
  catalog or plans it and builds its executor.  The parser, the compaction of a key range and the
  escaping of string literals are parameters.  Locks are taken for the whole of an operation, so that operations are atomic.  The
  lemmas show that a kill reaches exactly the connection with the given conn_id as long as ids do not
  wrap around, that data definition statements are steps of the abstract catalog with the current
  database as the default, and that a query yields the rows of its plan.
\<close>

section \<open>Connections\<close>

text \<open>The live connections are objects at addresses, and \<open>connections\<close> holds weak references to them.\<close>

record runtime =
  rt_counter :: u32
  rt_connections :: "u32 \<rightharpoonup> nat"
  rt_live :: "nat \<rightharpoonup> session"
  rt_next :: nat

definition runtime_new :: runtime where
  "runtime_new = \<lparr>rt_counter = 0, rt_connections = Map.empty, rt_live = Map.empty, rt_next = 0\<rparr>"

definition new_connection :: "runtime \<Rightarrow> runtime \<times> nat" where
  "new_connection self =
     (let conn_id = rt_counter self + 1; conn = rt_next self in
      (self\<lparr>rt_counter := conn_id, rt_connections := (rt_connections self)(conn_id \<mapsto> conn),
          rt_live := (rt_live self)(conn \<mapsto> session_new conn_id), rt_next := conn + 1\<rparr>, conn))"

definition kill_connection :: "u32 \<Rightarrow> runtime \<Rightarrow> runtime" where
  "kill_connection conn_id self =
     (case rt_connections self conn_id of
        None \<Rightarrow> self
      | Some conn \<Rightarrow>
          (case rt_live self conn of
             None \<Rightarrow> self
           | Some s \<Rightarrow> self\<lparr>rt_live := (rt_live self)(conn \<mapsto> s\<lparr>kill_flag := True\<rparr>)\<rparr>))"

definition remove_connection :: "u32 \<Rightarrow> runtime \<Rightarrow> runtime" where
  "remove_connection conn_id self = self\<lparr>rt_connections := (rt_connections self)(conn_id := None)\<rparr>"

text \<open>The last reference to a connection goes away: its \<open>drop\<close> runs.\<close>

definition drop_connection :: "nat \<Rightarrow> runtime \<Rightarrow> runtime" where
  "drop_connection conn self =
     (case rt_live self conn of
        None \<Rightarrow> self
      | Some s \<Rightarrow> (remove_connection (connection_id s) self)\<lparr>rt_live := (rt_live self)(conn := None)\<rparr>)"

definition change_database :: "string \<Rightarrow> session \<Rightarrow> session" where
  "change_database database s = s\<lparr>current_database := database\<rparr>"

section \<open>Statements\<close>

datatype ('d, 'e) query_error =
    Query_Parse 'e
  | Query_Planner "'d planner_error"
  | Query_Execution execution_error
  | Query_Catalog catalog_error

record ('d, 'db, 'it, 'h, 'n, 't, 'e) runtime_env =
  r_exec :: "('d, 'db, 'it, 'h) exec_env"
  r_catalog :: "('d, 'db, 'it) catalog_env"
  r_lib :: "('d, 'n, 't) function_lib"
  r_parse :: "string \<Rightarrow> 'e + 'd statement"
  r_debug :: "bytes \<Rightarrow> bytes"
  r_compact_range :: "'db \<Rightarrow> bytes \<Rightarrow> bytes \<Rightarrow> 'db"
  r_depth :: nat
  r_fuel :: nat

type_synonym ('d, 'db, 'e) statement_result =
  "(session \<times> 'db catalog \<times> (('d, 'e) query_error + field list \<times> ('d, 'db) root_executor)) option"

definition no_rows :: "field list \<times> ('d, 'db) root_executor" where
  "no_rows = ([], Rows (box empty_advance empty_get ()))"

definition statement_parser :: "('d, 'db, 'it, 'h, 'n, 't, 'e) runtime_env \<Rightarrow> 'd parser" where
  "statement_parser r sql = (case r_parse r sql of Inr statement \<Rightarrow> Some statement | Inl _ \<Rightarrow> None)"

definition plan_query ::
  "('d, 'db, 'it, 'h, 'n, 't, 'e) runtime_env \<Rightarrow> 'db catalog \<Rightarrow> session \<Rightarrow> 'd logical_operator \<Rightarrow>
     ('d, field list \<times> 'd logical_operator) session_outcome" where
  "plan_query r self =
     plan_common (r_depth r) (r_fuel r) (builtin_registry (r_lib r)) (item (r_catalog r) self) (statement_parser r)"

text \<open>The end of \<open>execute_statement\<close>: the operator is planned and its executor is built.\<close>

definition execute_operator ::
  "('d, 'db, 'it, 'h, 'n, 't, 'e) runtime_env \<Rightarrow> session \<Rightarrow> 'db catalog \<Rightarrow> 'd logical_operator \<Rightarrow> ('d, 'db, 'e) statement_result" where
  "execute_operator r session self logical_operator =
     (case plan_for_point_in_time (r_depth r) (r_fuel r) (builtin_registry (r_lib r)) (item (r_catalog r) self) (statement_parser r)
             session logical_operator of
        None \<Rightarrow> None
      | Some (session, Inl e) \<Rightarrow> Some (session, self, Inl (Query_Planner e))
      | Some (session, Inr (fs, plan)) \<Rightarrow>
          map_option (\<lambda>ex. (session, self, Inr (fs, ex))) (build_root (r_exec r) session (cat_db self) (cat_ticks self) plan))"

definition catalog_result :: "session \<Rightarrow> 'db change \<Rightarrow> ('d, 'db, 'e) statement_result" where
  "catalog_result session change =
     map_option (\<lambda>(self, result). (session, self, case result of Inl e \<Rightarrow> Inl (Query_Catalog e) | Inr _ \<Rightarrow> Inr no_rows)) change"

definition database_or_current :: "session \<Rightarrow> string option \<Rightarrow> string" where
  "database_or_current session database = (case database of Some db \<Rightarrow> db | None \<Rightarrow> current_database session)"

text \<open>The registry is a search tree: its names come in order.\<close>

definition list_functions :: "'d registry \<Rightarrow> string list" where
  "list_functions registry = sorted_list_of_set (dom registry)"

definition show_functions :: "string list \<Rightarrow> 'd logical_operator" where
  "show_functions names = L_Values [(T_Text, ''function_name'')] (map (\<lambda>name. [expression_from_str (str_bytes name)]) names)"

definition create_view_statement ::
  "('d, 'db, 'it, 'h, 'n, 't, 'e) runtime_env \<Rightarrow> session \<Rightarrow> 'db catalog \<Rightarrow> string option \<Rightarrow> string \<Rightarrow> string \<Rightarrow> 'd logical_operator \<Rightarrow>
     ('d, 'db, 'e) statement_result" where
  "create_view_statement r session self database name sql query =
     (case plan_query r self session query of
        None \<Rightarrow> None
      | Some (session, Inl e) \<Rightarrow> Some (session, self, Inl (Query_Planner e))
      | Some (session, Inr (fs, _)) \<Rightarrow>
          catalog_result session
            (create_view (r_catalog r) (database_or_current session database) name (map (\<lambda>f. (fd_alias f, fd_data_type f)) fs) sql
              (current_database session) self))"

definition compact_table_statement ::
  "('d, 'db, 'it, 'h, 'n, 't, 'e) runtime_env \<Rightarrow> session \<Rightarrow> 'db catalog \<Rightarrow> string option \<Rightarrow> string \<Rightarrow> ('d, 'db, 'e) statement_result" where
  "compact_table_statement r session self database name =
     (case item (r_catalog r) self (database_or_current session database) name of
        None \<Rightarrow> None
      | Some (Inl e) \<Rightarrow> Some (session, self, Inl (Query_Catalog e))
      | Some (Inr ci) \<Rightarrow>
          (case ci_item ci of
             TV_Table table \<Rightarrow>
               Some (session, self\<lparr>cat_db := r_compact_range r (cat_db self) (u32_to_be (t_id table)) (u32_to_be (t_id table + 2))\<rparr>, Inr no_rows)
           | TV_View _ \<Rightarrow> Some (session, self, Inr no_rows)))"

text \<open>Two statements are run as queries over the system tables.\<close>

definition show_databases_sql :: string where
  "show_databases_sql = ''SELECT name as database FROM incresql.databases''"

definition show_tables_sql :: string where
  "show_tables_sql = ''SELECT name as table FROM incresql.tables WHERE database_name = database()''"

partial_function (option) execute_statement ::
  "('d, 'db, 'it, 'h, 'n, 't, 'e) runtime_env \<Rightarrow> session \<Rightarrow> 'db catalog \<Rightarrow> string \<Rightarrow> ('d, 'db, 'e) statement_result" where
  [code]: "execute_statement r session self query =
     (case r_parse r query of
        Inl e \<Rightarrow> Some (session, self, Inl (Query_Parse e))
      | Inr statement \<Rightarrow>
        (case statement of
           S_ShowFunctions \<Rightarrow> execute_operator r session self (show_functions (list_functions (builtin_registry (r_lib r))))
         | S_ShowDatabases \<Rightarrow> execute_statement r session self show_databases_sql
         | S_ShowTables \<Rightarrow> execute_statement r session self show_tables_sql
         | S_UseDatabase database \<Rightarrow> Some (change_database database session, self, Inr no_rows)
         | S_Query logical_operator \<Rightarrow> execute_operator r session self logical_operator
         | S_Explain operator \<Rightarrow>
             (case plan_query r self session operator of
                None \<Rightarrow> None
              | Some (session, Inl e) \<Rightarrow> Some (session, self, Inl (Query_Planner e))
              | Some (session, Inr (fs, operator)) \<Rightarrow>
                  Option.bind (explain (r_lib r) (r_debug r) operator) (execute_operator r session self))
         | S_CreateDatabase name \<Rightarrow> catalog_result session (create_database (r_catalog r) name self)
         | S_DropDatabase database \<Rightarrow> catalog_result session (drop_database (r_catalog r) database self)
         | S_CreateTable database name columns \<Rightarrow>
             catalog_result session (create_table (r_catalog r) (database_or_current session database) name columns self)
         | S_CreateView database name sql query \<Rightarrow> create_view_statement r session self database name sql query
         | S_CompactTable database name \<Rightarrow> compact_table_statement r session self database name
         | S_DropTable database name \<Rightarrow> catalog_result session (drop_table (r_catalog r) (database_or_current session database) name self)))"


declare execute_statement.simps [simp del]

section \<open>Sessions\<close>

text \<open>A statement changes nothing of its session but the current database.\<close>

definition same_connection :: "session \<Rightarrow> session \<Rightarrow> bool" where
  "same_connection s s' \<longleftrightarrow> s' = s\<lparr>current_database := current_database s'\<rparr>"

lemma same_connection_refl [simp]: "same_connection s s"
  by (simp add: same_connection_def)

lemma same_connection_iff: "same_connection s s' \<longleftrightarrow> user s' = user s \<and> connection_id s' = connection_id s \<and> kill_flag s' = kill_flag s"
  by (cases s; cases s') (auto simp: same_connection_def)

lemma same_connection_trans: "same_connection s t \<Longrightarrow> same_connection t u \<Longrightarrow> same_connection s u"
  by (simp add: same_connection_iff)

lemma same_connection_database [simp]:
  "same_connection s (t\<lparr>current_database := d\<rparr>) \<longleftrightarrow> same_connection s t" "same_connection (s\<lparr>current_database := d\<rparr>) t \<longleftrightarrow> same_connection s t"
  by (auto simp: same_connection_iff)

lemma reference_connection:
  fixes op :: "'d logical_operator"
  assumes "resolve_tables n lk parse session op = Some (session', res)" "resolve_all n lk parse session (children_mut op) = Some (session1, Inr cs)"
    and ref: "with_children op cs = L_TableReference database table_name"
    and view: "\<And>ci v q m q' s r. lk (case database of None \<Rightarrow> current_database session1 | Some db \<Rightarrow> db) table_name = Some (Inr ci) \<Longrightarrow>
      ci_item ci = TV_View v \<Longrightarrow> parse (v_sql v) = Some (S_Query q) \<Longrightarrow> n = Suc m \<Longrightarrow>
      and_then (sub_in_special_vars q) normalize_column_aliases = (Some (Inr q') :: ('d planner_error, _) outcome) \<Longrightarrow>
      resolve_all m lk parse (session1\<lparr>current_database := v_db_context v\<rparr>) (children_mut q') = Some (s, r) \<Longrightarrow> same_connection session1 s"
  shows "same_connection session1 session'"
proof -
  obtain db where db: "(case database of None \<Rightarrow> current_database session1 | Some db \<Rightarrow> db) = db" by blast
  from assms(1) show ?thesis
    unfolding resolve_tables.simps [of _ _ _ _ op] assms(2) ref option.case prod.case sum.case logical_operator.case db
    by (auto split: option.split_asm sum.split_asm prod.split_asm table_or_view.split_asm statement.split_asm nat.split_asm
        dest: view [unfolded db])
qed

lemma resolve_connection:
  "resolve_tables n lk parse session op = Some (session', res) \<Longrightarrow> same_connection session session'"
  "resolve_all n lk parse session ops = Some (session'', ress) \<Longrightarrow> same_connection session session''"
proof (induction n lk parse session op and n lk parse session ops arbitrary: session' res and session'' ress
    rule: resolve_tables_resolve_all.induct)
  case (1 n lk parse session op)
  obtain session1 r1 where r1: "resolve_all n lk parse session (children_mut op) = Some (session1, r1)"
    using "1.prems" by (subst (asm) resolve_tables.simps) (auto split: option.split_asm)
  then have s1: "same_connection session session1" by (rule "1.IH"(1))
  show ?case
  proof (cases r1)
    case (Inl e)
    then show ?thesis using "1.prems" r1 s1 by (subst (asm) resolve_tables.simps) simp
  next
    case (Inr cs)
    show ?thesis
    proof (cases "\<exists>database table_name. with_children op cs = L_TableReference database table_name")
      case True
      then obtain database table_name where ref: "with_children op cs = L_TableReference database table_name" by blast
      from "1.prems" r1 ref "1.IH"(2) [OF r1 refl Inr ref _ refl _ _ refl _ _ refl] have "same_connection session1 session'"
        unfolding Inr same_connection_database by (rule reference_connection)
      with s1 show ?thesis by (rule same_connection_trans)
    next
      case False
      then have "session' = session1" using "1.prems" r1 Inr
        by (subst (asm) resolve_tables.simps) (cases "with_children op cs"; simp)
      then show ?thesis using s1 by simp
    qed
  qed
next
  case (2 n lk parse session)
  then show ?case by simp
next
  case (3 n lk parse session op ops)
  then show ?case by (auto split: option.split_asm prod.split_asm sum.split_asm intro: same_connection_trans)
qed


lemma validate_connection: "validate depth n registry lk parse session query = Some (session', res) \<Longrightarrow> same_connection session session'"
  by (auto simp: validate_def dest: resolve_connection(1) split: option.split_asm sum.split_asm prod.split_asm)

lemma plan_common_connection: "plan_common depth n registry lk parse session query = Some (session', res) \<Longrightarrow> same_connection session session'"
  by (auto simp: plan_common_def dest: validate_connection split: option.split_asm sum.split_asm prod.split_asm)

lemma execute_operator_connection: "execute_operator r session self op = Some (session', self', res) \<Longrightarrow> same_connection session session'"
  by (auto simp: execute_operator_def plan_for_point_in_time_def dest: plan_common_connection split: option.split_asm sum.split_asm prod.split_asm)

lemma catalog_result_eq:
  "catalog_result session change = Some (session', self', res) \<longleftrightarrow> session' = session \<and>
     (\<exists>r. change = Some (self', r) \<and> res = (case r of Inl e \<Rightarrow> Inl (Query_Catalog e) | Inr _ \<Rightarrow> Inr no_rows))"
  by (auto simp: catalog_result_def)

lemma execute_statement_connection:
  assumes "execute_statement r session self query = Some (session', self', res)"
  shows "same_connection session session'"
proof -
  have "same_connection session (fst (session', self', res))"
  proof (rule execute_statement.raw_induct [where P = "\<lambda>r session self query y. same_connection session (fst y)", OF _ assms], goal_cases)
    case (1 f r session self query y)
    obtain session' self' res where y: "y = (session', self', res)" by (cases y)
    from 1(2) show ?case unfolding y
      by (auto simp: change_database_def create_view_statement_def compact_table_statement_def plan_query_def catalog_result_eq bind_eq_Some_conv
          split: sum.split_asm statement.split_asm option.split_asm prod.split_asm table_or_view.split_asm
          dest: execute_operator_connection plan_common_connection 1(1) intro: same_connection_trans)
  qed
  then show ?thesis by simp
qed

section \<open>The connections of a running system\<close>

text \<open>The steps of the system: connections are opened, killed and dropped, and live ones change their database
  and execute statements.  The number counts the connections opened so far.\<close>

inductive system_reaches ::
  "('d, 'db, 'it, 'h, 'n, 't, 'e) runtime_env \<Rightarrow> 'db catalog \<Rightarrow> nat \<Rightarrow> runtime \<Rightarrow> 'db catalog \<Rightarrow> bool" for r booted where
  started: "system_reaches r booted 0 runtime_new booted"
| opened: "system_reaches r booted n rt self \<Longrightarrow> system_reaches r booted (Suc n) (fst (new_connection rt)) self"
| killed: "system_reaches r booted n rt self \<Longrightarrow> system_reaches r booted n (kill_connection conn_id rt) self"
| dropped: "system_reaches r booted n rt self \<Longrightarrow> system_reaches r booted n (drop_connection conn rt) self"
| changed: "system_reaches r booted n rt self \<Longrightarrow> rt_live rt conn = Some s \<Longrightarrow>
    system_reaches r booted n (rt\<lparr>rt_live := (rt_live rt)(conn \<mapsto> change_database database s)\<rparr>) self"
| executed: "system_reaches r booted n rt self \<Longrightarrow> rt_live rt conn = Some s \<Longrightarrow> execute_statement r s self sql = Some (s', self', res) \<Longrightarrow>
    system_reaches r booted n (rt\<lparr>rt_live := (rt_live rt)(conn \<mapsto> s')\<rparr>) self'"

text \<open>As long as the counter has not wrapped, the registered connections are the live ones, each under its own id.\<close>

definition registered :: "nat \<Rightarrow> runtime \<Rightarrow> bool" where
  "registered n rt \<longleftrightarrow> rt_counter rt = of_nat n \<and>
     (\<forall>conn s. rt_live rt conn = Some s \<longrightarrow> conn < rt_next rt \<and> connection_id s \<noteq> 0 \<and> unat (connection_id s) \<le> n \<and>
        rt_connections rt (connection_id s) = Some conn) \<and>
     (\<forall>i conn. rt_connections rt i = Some conn \<longrightarrow> (\<exists>s. rt_live rt conn = Some s \<and> connection_id s = i))"

lemma registered_new: "registered 0 runtime_new"
  by (simp add: registered_def runtime_new_def)

lemma registered_open:
  assumes "registered n rt" "Suc n < 2 ^ 32"
  shows "registered (Suc n) (fst (new_connection rt))"
proof -
  have u: "unat (1 + word_of_nat n :: u32) = Suc n" using assms(2) by (simp add: unsigned_of_nat take_bit_nat_eq_self flip: of_nat_Suc)
  then have "(1 + word_of_nat n :: u32) \<noteq> 0" by auto
  moreover have "connection_id s \<noteq> 1 + word_of_nat n" if "rt_live rt conn = Some s" for conn s
    using assms(1) that u by (fastforce simp: registered_def)
  moreover have "conn < rt_next rt" if "rt_connections rt i = Some conn" for i conn
    using assms(1) that unfolding registered_def by blast
  ultimately show ?thesis using assms(1) u
    by (fastforce simp: registered_def new_connection_def Let_def session_new_def less_Suc_eq add.commute le_Suc_eq)
qed

lemma registered_update:
  assumes "registered n rt" "rt_live rt conn = Some s" "connection_id s' = connection_id s"
  shows "registered n (rt\<lparr>rt_live := (rt_live rt)(conn \<mapsto> s')\<rparr>)"
  using assms by (auto simp: registered_def) (metis option.inject)+

lemma registered_kill: "registered n rt \<Longrightarrow> registered n (kill_connection conn_id rt)"
  by (auto simp: kill_connection_def split: option.split intro: registered_update)

lemma registered_drop: "registered n rt \<Longrightarrow> registered n (drop_connection conn rt)"
  unfolding drop_connection_def remove_connection_def
  by (cases "rt_live rt conn") (auto simp: registered_def, (metis option.inject)+)

lemma system_registered: "system_reaches r booted n rt self \<Longrightarrow> n < 2 ^ 32 \<Longrightarrow> registered n rt"
proof (induction rule: system_reaches.induct)
  case (changed n rt self conn s database)
  then show ?case by (intro registered_update) (auto simp: change_database_def)
next
  case (executed n rt self conn s sql s' self' res)
  then show ?case using execute_statement_connection [OF executed(3)] by (intro registered_update) (auto simp: same_connection_iff)
qed (simp_all add: registered_new registered_open registered_kill registered_drop)

text \<open>C22. A kill reaches the connection it names and no other: in every state the system reaches with fewer
  than 2^32 connections opened, killing the id of a live connection sets its flag and leaves every other connection
  as it is, and an id of no live connection kills nothing.\<close>

theorem kill_reaches:
  assumes "system_reaches r booted n rt self" "n < 2 ^ 32"
  shows "(\<forall>conn s. rt_live rt conn = Some s \<longrightarrow>
      rt_live (kill_connection (connection_id s) rt) = (rt_live rt)(conn \<mapsto> s\<lparr>kill_flag := True\<rparr>)) \<and>
    (\<forall>i. (\<forall>conn s. rt_live rt conn = Some s \<longrightarrow> connection_id s \<noteq> i) \<longrightarrow> kill_connection i rt = rt)"
proof (intro conjI allI impI)
  note reg = system_registered [OF assms]
  show "rt_live (kill_connection (connection_id s) rt) = (rt_live rt)(conn \<mapsto> s\<lparr>kill_flag := True\<rparr>)" if "rt_live rt conn = Some s" for conn s
    using reg that by (auto simp: registered_def kill_connection_def)
  show "kill_connection i rt = rt" if "\<forall>conn s. rt_live rt conn = Some s \<longrightarrow> connection_id s \<noteq> i" for i
  proof (cases "rt_connections rt i")
    case (Some conn)
    then show ?thesis using reg that unfolding registered_def by blast
  qed (simp add: kill_connection_def)
qed

text \<open>When the counter has wrapped around to the id of a live connection, the new connection takes its place; when
  the old one is dropped, the new one can no longer be killed.\<close>

lemma wrapped_id_unkillable:
  assumes "rt_live rt conn = Some s" "connection_id s = rt_counter rt + 1" "conn < rt_next rt" "new_connection rt = (rt1, new)"
  shows "rt_live (drop_connection conn rt1) new = Some (session_new (connection_id s))"
    "kill_connection (connection_id s) (drop_connection conn rt1) = drop_connection conn rt1"
  using assms by (auto simp: new_connection_def Let_def drop_connection_def remove_connection_def kill_connection_def)


section \<open>Data definition\<close>

text \<open>The operation on the catalog that a statement asks for, and the session it runs in; the columns of a view are
  the fields of its planned query.\<close>

fun statement_op ::
  "('d, 'db, 'it, 'h, 'n, 't, 'e) runtime_env \<Rightarrow> 'db catalog \<Rightarrow> session \<Rightarrow> 'd statement \<Rightarrow> (session \<times> catalog_op) option" where
  "statement_op r self session (S_CreateDatabase name) = Some (session, Create_Database name)"
| "statement_op r self session (S_DropDatabase name) = Some (session, Drop_Database name)"
| "statement_op r self session (S_CreateTable database name columns) =
     Some (session, Create_Table (database_or_current session database) name columns)"
| "statement_op r self session (S_DropTable database name) = Some (session, Drop_Table (database_or_current session database) name)"
| "statement_op r self session (S_CreateView database name sql query) =
     (case plan_query r self session query of
        Some (session, Inr (fs, _)) \<Rightarrow>
          Some (session, Create_View (database_or_current session database) name (map (\<lambda>f. (fd_alias f, fd_data_type f)) fs) sql (current_database session))
      | _ \<Rightarrow> None)"
| "statement_op r self session _ = None"

lemma execute_statement_op:
  assumes "r_parse r sql = Inr statement" "statement_op r self session statement = Some (session', op)"
  shows "execute_statement r session self sql = catalog_result session' (run_op (r_catalog r) op self)"
  using assms
  by (cases statement) (auto simp: execute_statement.simps create_view_statement_def split: option.split_asm sum.split_asm prod.split_asm)

text \<open>C5. A data definition statement is a step of the abstract catalog: its names are resolved against the
  current database, it returns no rows or the error of the step, and the catalog after it represents the abstract
  catalog after the step.\<close>

theorem statement_refines_catalog:
  assumes laws: "catalog_env_laws (r_catalog r) contents rest" and repr: "catalog_repr (r_catalog r) contents self S"
    and parsed: "r_parse r sql = Inr statement" "statement_op r self session statement = Some (session', op)" and ok: "op_ok S op"
  shows "\<exists>self' result S'. execute_statement r session self sql =
      Some (session', self', case result of Inl e \<Rightarrow> Inl (Query_Catalog e) | Inr _ \<Rightarrow> Inr no_rows) \<and>
    catalog_step S op result S' \<and> catalog_repr (r_catalog r) contents self' S'"
proof -
  obtain self' result S' where "run_op (r_catalog r) op self = Some (self', result)" "catalog_step S op result S'"
    "catalog_repr (r_catalog r) contents self' S'"
    using op_simulated [OF laws repr ok] by (auto simp: simulated_def)
  then show ?thesis using execute_statement_op [OF parsed] by (intro exI [of _ self'] exI [of _ result] exI [of _ S']) (simp add: catalog_result_def)
qed


section \<open>Queries\<close>

lemma builtin_names_finite: "finite (dom (builtin_registry L))"
proof -
  obtain ds where "builtins L = Some ds" using builtins_Some [of L] by auto
  then have "dom (builtin_registry L) \<subseteq> (\<lambda>d. sig_name (signature d)) ` set ds"
    by (auto simp: dom_def builtin_registry_lookup lookup_def filter_empty_conv split: if_split_asm)
  then show ?thesis by (rule finite_subset) simp
qed

lemma list_functions_names:
  "set (list_functions (builtin_registry L)) = dom (builtin_registry L)" "distinct (list_functions r)" "sorted (list_functions r)"
  by (simp_all add: list_functions_def builtin_names_finite)


section \<open>The list of databases\<close>

text \<open>What the parser makes of the statement that \<open>SHOW DATABASES\<close> stands for.\<close>

definition show_databases_query :: "'d logical_operator" where
  "show_databases_query =
     L_Project False [\<lparr>ne_alias = Some ''database'', ne_expression = ColumnReference \<lparr>cr_qualifier = None, cr_alias = ''name'', cr_star = False\<rparr>\<rparr>]
       (L_TableAlias ''databases'' (L_TableReference (Some ''incresql'') ''databases''))"

definition database_field :: field where
  "database_field = \<lparr>fd_qualifier = None, fd_alias = ''database'', fd_data_type = T_Text\<rparr>"

definition databases_item :: catalog_item where
  "databases_item = new_table 2 [(''name'', T_Text)] [Asc]"

lemmas planning_simps = plan_for_point_in_time_def plan_common_def validate_def optimize_def common_transforms_def sub_in_special_vars_def
  normalize_column_aliases_def resolve_tables.simps traverse_named_def alias_named_def validate_resolved_def expand_stars_def
  validate_values_types_def compile_functions_def compile_functions_here_def project_to_groupby_def check_for_aggregates_def
  check_predicates_def check_inserts_def check_unions_def walk_check_def resolve_column_def fold_constants_def predicate_pushdown_def
  collapse_projects_def normalize_joins_def pushdown.simps

lemma show_databases_plan:
  assumes "lk ''incresql'' ''databases'' = Some (Inr databases_item)"
  shows "plan_for_point_in_time depth n (builtin_registry L) lk parse session show_databases_query =
    Some (session, Inr ([database_field], PIT_Query (PIT_Project [CompiledColumnReference 0 T_Text] (PIT_TableScan databases_table (- 1)))))"
  using assms by (simp add: planning_simps show_databases_query_def databases_item_def new_table_def databases_table_def database_field_def)

text \<open>The rows of the table of databases.\<close>

lemma databases_snapshot:
  assumes "decimal_laws D" "databases_described D ws dbs"
  shows "\<exists>names. distinct names \<and> set names = dbs \<and>
    snapshot D databases_table (- 1) (ws databases_table) = map (\<lambda>n. ([text_datum n], 1)) names"
proof -
  let ?t = databases_table
  let ?key = "\<lambda>n. base_key D ?t [text_datum n]"
  let ?log = "ws databases_table"
  define keys where "keys = filter (\<lambda>B. freq_as_of D ?t (- 1) ?log B \<noteq> 0) (sort (remdups (map (\<lambda>(tup, ts, f). base_key D ?t tup) ?log)))"
  have freq: "freq_as_of D ?t (- 1) ?log (?key n) = of_bool (n \<in> dbs)" for n using assms(2) by (simp add: databases_described_def)
  have texts: "\<exists>n. fst w = [text_datum n]" if "w \<in> set ?log" for w using assms(2) that by (simp add: databases_described_def)
  have "\<exists>n. B = ?key n" if "B \<in> set keys" for B using that texts by (force simp: keys_def)
  then obtain names where names: "keys = map ?key names" by (metis ex_map_conv)
  have distinct: "distinct names" using names by (metis distinct_filter distinct_map distinct_remdups distinct_sort keys_def)
  have written: "\<exists>w \<in> set ?log. base_key D ?t (fst w) = ?key n" "tuple_as_of D ?t (- 1) ?log (?key n) = [text_datum n]" if "n \<in> dbs" for n
  proof -
    have "key_writes D ?t (- 1) ?log (?key n) \<noteq> []" using freq [of n] that by (auto simp: freq_as_of_def)
    then have "last (key_writes D ?t (- 1) ?log (?key n)) \<in> set (key_writes D ?t (- 1) ?log (?key n))" by (rule last_in_set)
    then obtain w where w: "w \<in> set ?log" "base_key D ?t (fst w) = ?key n" "last (key_writes D ?t (- 1) ?log (?key n)) = w"
      by (auto simp: key_writes_def)
    then show "\<exists>w \<in> set ?log. base_key D ?t (fst w) = ?key n" by blast
    obtain m where "fst w = [text_datum m]" using texts [OF w(1)] by blast
    with w show "tuple_as_of D ?t (- 1) ?log (?key n) = [text_datum n]" by (simp add: tuple_as_of_def system_keys [OF assms(1)])
  qed
  have "n \<in> set names \<longleftrightarrow> n \<in> dbs" for n
  proof -
    have "n \<in> set names \<longleftrightarrow> ?key n \<in> set keys" by (auto simp: names system_keys [OF assms(1)])
    also have "\<dots> \<longleftrightarrow> n \<in> dbs" using written(1) [of n] freq [of n] by (auto simp: keys_def) (force simp: image_iff)
    finally show ?thesis .
  qed
  then have "set names = dbs" by blast
  moreover have "snapshot D ?t (- 1) ?log = map (\<lambda>n. ([text_datum n], 1)) names"
    using written(2) \<open>set names = dbs\<close> freq by (auto simp: snapshot_def keys_def [symmetric] names)
  ultimately show ?thesis using distinct by blast
qed


lemma single_rows_projected:
  assumes "decimal_laws D" "rows_match D rs (map (\<lambda>n. ([f n], 1)) names)"
  shows "\<forall>r \<in> set rs. eval_all session [CompiledColumnReference 0 dt] (fst r) \<noteq> None"
    "rows_match D (map (apfst (\<lambda>t. the (eval_all session [CompiledColumnReference 0 dt] t))) rs) (map (\<lambda>n. ([f n], 1)) names)"
proof -
  have clone: "datum_eq D z d \<Longrightarrow> datum_eq D (ref_clone z) d" for z d by (rule datum_eq_trans [OF assms(1) ref_clone_eq [OF assms(1)]])
  show "\<forall>r \<in> set rs. eval_all session [CompiledColumnReference 0 dt] (fst r) \<noteq> None"
    "rows_match D (map (apfst (\<lambda>t. the (eval_all session [CompiledColumnReference 0 dt] t))) rs) (map (\<lambda>n. ([f n], 1)) names)"
    using assms(2) unfolding rows_match_def
    by (induction rs names rule: list_induct2') (auto simp: row_matches_def list_all2_Cons2 clone)
qed

text \<open>C3. \<open>SHOW DATABASES\<close> lists the databases of the catalog: the statement is run as a query over the system
  table, and draining its executor yields one row for each database of the abstract catalog and no other row.\<close>

theorem show_databases_lists:
  assumes laws: "catalog_env_laws (r_catalog r) contents rest" and repr: "catalog_repr (r_catalog r) contents self S"
    and exec: "x_rocks (r_exec r) = k_rocks (r_catalog r)" "x_decimal (r_exec r) = k_decimal (r_catalog r)" "x_path (r_exec r) = k_path (r_catalog r)"
    and iteration: "\<And>l. mset (x_iteration (r_exec r) l) = mset l"
    and parsed: "r_parse r sql = Inr S_ShowDatabases" "r_parse r show_databases_sql = Inr (S_Query show_databases_query)"
    and booted: "ac_items S (''incresql'', ''databases'') = Some databases_item"
  shows "\<exists>ex out names. execute_statement r session self sql = Some (session, self, Inr ([database_field], Rows ex)) \<and>
    yields b_advance b_get ex out \<and> distinct names \<and> set names = ac_databases S \<and>
    rows_match (k_decimal (r_catalog r)) out (map (\<lambda>n. ([text_datum n], 1)) names)"
proof -
  let ?x = "r_exec r" and ?D = "k_decimal (r_catalog r)" and ?scan = "PIT_TableScan databases_table (- 1)"
  let ?plan = "PIT_Project [CompiledColumnReference 0 T_Text] ?scan"
  obtain ws where logs: "logs_hold ?D (k_path (r_catalog r)) (contents (cat_db self)) ws" and desc: "databases_described ?D ws (ac_databases S)"
    using repr by (auto simp: catalog_repr_def catalog_logs_def describes_def)
  obtain names where names: "distinct names" "set names = ac_databases S"
    and snapshot: "snapshot ?D databases_table (- 1) (ws databases_table) = map (\<lambda>n. ([text_datum n], 1)) names"
    using databases_snapshot [OF catalog_env_lawsD(2) [OF laws] desc] by blast
  have scanned: "rows_match ?D rs (map (\<lambda>n. ([text_datum n], 1)) names)" if "plan_out ?x session ws ?scan rs" for rs
    using that by (simp add: exec snapshot)
  have ok: "plan_ok ?x session (contents (cat_db self)) ws ?plan"
    using single_rows_projected(1) [OF catalog_env_lawsD(2) [OF laws] scanned] logs system_tables_wf [OF system_tablesI(2)] by (auto simp: exec logs_hold_def system_tablesI)
  have rocks: "rocks_laws (x_rocks ?x) contents rest" and D: "decimal_laws (x_decimal ?x)" using catalog_env_lawsD(1,2) [OF laws] by (simp_all add: exec)
  obtain ex out where ex: "build_executor ?x session (cat_db self) ?plan = Some ex" "yields b_advance b_get ex out" "plan_out ?x session ws ?plan out"
    using plan_executes [OF rocks D iteration ok] by (rule executesE)
  have "item (r_catalog r) self ''incresql'' ''databases'' = Some (Inr databases_item)" using item_eq [OF laws repr] booted by simp
  then have "execute_statement r session self show_databases_sql = Some (session, self, Inr ([database_field], Rows ex))"
    by (subst execute_statement.simps) (simp add: parsed execute_operator_def show_databases_plan ex(1) del: build_executor.simps)
  then have "execute_statement r session self sql = Some (session, self, Inr ([database_field], Rows ex))"
    by (subst execute_statement.simps) (simp add: parsed)
  moreover have "rows_match ?D out (map (\<lambda>n. ([text_datum n], 1)) names)"
    using ex(3) single_rows_projected(2) [OF catalog_env_lawsD(2) [OF laws] scanned] by auto
  ultimately show ?thesis using ex(2) names by blast
qed

section \<open>An example\<close>

definition example_runtime_env :: "(ref_decimal, ref_db, ref_db, unit, bool \<times> bool, unit, unit) runtime_env" where
  "example_runtime_env = \<lparr>r_exec = example_env, r_catalog = example_catalog_env, r_lib = example_lib,
     r_parse = (\<lambda>sql. if sql = ''create table t (x integer)'' then Inr (S_CreateTable None ''t'' [(''x'', T_Integer)])
       else if sql = ''select 1 where true'' then Inr (S_Query example_query)
       else if sql = ''show databases'' then Inr S_ShowDatabases
       else if sql = show_databases_sql then Inr (S_Query show_databases_query) else Inl ()),
     r_debug = (\<lambda>s. s), r_compact_range = (\<lambda>db _ _. db), r_depth = 0, r_fuel = 0\<rparr>"

lemma example_planned:
  "plan_for_point_in_time 0 0 (builtin_registry example_lib) lk parse (session_new 1) example_query =
    Some (session_new 1, Inr ([\<lparr>fd_qualifier = None, fd_alias = ''_col1'', fd_data_type = T_Integer\<rparr>],
      PIT_Query (PIT_Project [Constant (D_Integer 1) T_Integer] PIT_Single)))"
  unfolding plan_for_point_in_time_def plan_common_def example_validate
  by (simp add: planning_simps example_validated_def true_expression_def)

theorem kill_reaches_witness:
  "rt_live (kill_connection 1 (fst (new_connection runtime_new))) 0 = Some ((session_new 1)\<lparr>kill_flag := True\<rparr>)"
proof -
  have "system_reaches example_runtime_env \<lparr>cat_db = [], cat_ticks = 0\<rparr> 1 (fst (new_connection runtime_new)) \<lparr>cat_db = [], cat_ticks = 0\<rparr>"
    using system_reaches.opened [OF system_reaches.started] by simp
  from kill_reaches [OF this, THEN conjunct1, rule_format, of 0 "session_new 1"] show ?thesis
    by (simp add: new_connection_def runtime_new_def session_new_def)
qed

theorem statement_refines_catalog_witness:
  "\<exists>self self' result S'. catalog_new example_catalog_env [] 0 = Some (self, Inr ()) \<and>
    execute_statement example_runtime_env (session_new 1) self ''create table t (x integer)'' =
      Some (session_new 1, self', case result of Inl e \<Rightarrow> Inl (Query_Catalog e) | Inr _ \<Rightarrow> Inr no_rows) \<and>
    catalog_step system_catalog (Create_Table ''default'' ''t'' [(''x'', T_Integer)]) result S' \<and> catalog_repr example_catalog_env map_of self' S'"
proof -
  obtain self where self: "catalog_new example_catalog_env [] 0 = Some (self, Inr ())" "catalog_repr example_catalog_env map_of self system_catalog"
    using example_boot by blast
  have env: "r_catalog example_runtime_env = example_catalog_env"
    "r_parse example_runtime_env ''create table t (x integer)'' = Inr (S_CreateTable None ''t'' [(''x'', T_Integer)])"
    by (simp_all add: example_runtime_env_def)
  have op: "statement_op example_runtime_env self (session_new 1) (S_CreateTable None ''t'' [(''x'', T_Integer)]) =
      Some (session_new 1, Create_Table ''default'' ''t'' [(''x'', T_Integer)])"
    by (simp add: database_or_current_def session_new_def)
  have "op_ok system_catalog (Create_Table ''default'' ''t'' [(''x'', T_Integer)])"
    using example_ids by (auto simp: fit_simps intro!: exI [of _ 6])
  from statement_refines_catalog [OF _ _ env(2) op this, unfolded env(1), OF example_catalog_laws self(2)] show ?thesis using self(1) by blast
qed



theorem show_databases_lists_witness:
  "\<exists>self ex out names. catalog_new example_catalog_env [] 0 = Some (self, Inr ()) \<and>
    execute_statement example_runtime_env (session_new 1) self ''show databases'' = Some (session_new 1, self, Inr ([database_field], Rows ex)) \<and>
    yields b_advance b_get ex out \<and> distinct names \<and> set names = {''incresql'', ''default'', ''information_schema''} \<and>
    rows_match ref_decimal_ops out (map (\<lambda>n. ([text_datum n], 1)) names)"
proof -
  let ?r = example_runtime_env
  obtain self where self: "catalog_new example_catalog_env [] 0 = Some (self, Inr ())" "catalog_repr example_catalog_env map_of self system_catalog"
    using example_boot by blast
  have env: "r_catalog ?r = example_catalog_env" "k_decimal example_catalog_env = ref_decimal_ops"
    by (simp_all add: example_runtime_env_def example_catalog_env_def)
  have "ac_databases system_catalog = {''incresql'', ''default'', ''information_schema''}" by (simp add: system_catalog_def)
  moreover from show_databases_lists [where r = ?r and sql = "''show databases''" and session = "session_new 1",
      unfolded env, OF example_catalog_laws self(2)] have
    "\<exists>ex out names. execute_statement ?r (session_new 1) self ''show databases'' = Some (session_new 1, self, Inr ([database_field], Rows ex)) \<and>
      yields b_advance b_get ex out \<and> distinct names \<and> set names = ac_databases system_catalog \<and>
      rows_match ref_decimal_ops out (map (\<lambda>n. ([text_datum n], 1)) names)"
    by (simp add: example_runtime_env_def example_env_def example_catalog_env_def show_databases_sql_def system_catalog_def databases_item_def)
  ultimately show ?thesis using self(1) by auto
qed

end
