(* ===== verification/Mysql_Protocol.thy ===== *)
theory Mysql_Protocol
  imports Registry
begin

text \<open>
  The MySQL wire protocol (\<open>server/src/mysql/protocol_base.rs\<close>, \<open>constants.rs\<close>, \<open>packets.rs\<close>): integers
  and strings on the wire, the packets the server writes and those it reads.  A reader returns the
  value and the rest of the buffer, \<open>None\<close> is the panic of a slice that is too short.  The contract
  of a writer and its reader is a locale; its interpretations give round trips and unique decoding.
\<close>

section \<open>Integers\<close>

definition write_int_1 :: "u8 \<Rightarrow> bytes \<Rightarrow> bytes" where
  "write_int_1 i buffer = buffer @ [i]"

definition read_int_1 :: "bytes \<Rightarrow> (u8 \<times> bytes) option" where
  "read_int_1 buffer = (case buffer of [] \<Rightarrow> None | b # rest \<Rightarrow> Some (b, rest))"

definition write_int_2 :: "u16 \<Rightarrow> bytes \<Rightarrow> bytes" where
  "write_int_2 i buffer = buffer @ le_bytes 2 (unat i)"

definition read_int_2 :: "bytes \<Rightarrow> (u16 \<times> bytes) option" where
  "read_int_2 buffer = map_option (\<lambda>(bs, rest). (word_of_nat (le_val bs), rest)) (split_at 2 buffer)"

definition write_int_3 :: "u32 \<Rightarrow> bytes \<Rightarrow> bytes" where
  "write_int_3 i buffer = buffer @ take 3 (le_bytes 4 (unat i))"

definition read_int_3 :: "bytes \<Rightarrow> (u32 \<times> bytes) option" where
  "read_int_3 buffer = map_option (\<lambda>(bs, rest). (word_of_nat (le_val (bs @ [0])), rest)) (split_at 3 buffer)"

definition write_int_4 :: "u32 \<Rightarrow> bytes \<Rightarrow> bytes" where
  "write_int_4 i buffer = buffer @ le_bytes 4 (unat i)"

definition read_int_4 :: "bytes \<Rightarrow> (u32 \<times> bytes) option" where
  "read_int_4 buffer = map_option (\<lambda>(bs, rest). (word_of_nat (le_val bs), rest)) (split_at 4 buffer)"

definition write_enc_int :: "u64 \<Rightarrow> bytes \<Rightarrow> bytes" where
  "write_enc_int i buffer =
     (if i < 251 then buffer @ [ucast i]
      else if 251 \<le> i \<and> i \<le> 0xFFFF then write_int_2 (ucast i) (buffer @ [0xFC])
      else if 251 \<le> i \<and> i \<le> 0xFFFFFF then write_int_3 (ucast i) (buffer @ [0xFD])
      else (buffer @ [0xFE]) @ le_bytes 8 (unat i))"

definition read_enc_int :: "bytes \<Rightarrow> (u64 \<times> bytes) option" where
  "read_enc_int buffer =
     (case buffer of
        [] \<Rightarrow> None
      | b # rest \<Rightarrow>
          if b = 0xFC then map_option (apfst ucast) (read_int_2 rest)
          else if b = 0xFD then map_option (apfst ucast) (read_int_3 rest)
          else if b = 0xFE then map_option (\<lambda>(bs, rest). (word_of_nat (le_val bs), rest)) (split_at 8 rest)
          else Some (ucast b, rest))"

section \<open>Strings\<close>

definition write_null_string :: "bytes \<Rightarrow> bytes \<Rightarrow> bytes" where
  "write_null_string s buffer = (buffer @ s) @ [0]"

fun null_length :: "bytes \<Rightarrow> nat" where
  "null_length [] = 0"
| "null_length (b # bs) = (if b = 0 then 0 else Suc (null_length bs))"

definition read_null_string :: "bytes \<Rightarrow> (bytes \<times> bytes) option" where
  "read_null_string buffer =
     (let len = null_length buffer in
      if len + 1 \<le> length buffer then Some (take len buffer, drop (len + 1) buffer) else None)"

definition write_eof_string :: "bytes \<Rightarrow> bytes \<Rightarrow> bytes" where
  "write_eof_string s buffer = buffer @ s"

definition read_eof_string :: "bytes \<Rightarrow> bytes \<times> bytes" where
  "read_eof_string buffer = (buffer, [])"

definition write_enc_string :: "bytes \<Rightarrow> bytes \<Rightarrow> bytes" where
  "write_enc_string s buffer = write_eof_string s (write_enc_int (of_nat (length s)) buffer)"

definition read_fixed_length_string :: "nat \<Rightarrow> bytes \<Rightarrow> (bytes \<times> bytes) option" where
  "read_fixed_length_string n buffer = split_at n buffer"

definition read_enc_string :: "bytes \<Rightarrow> (bytes \<times> bytes) option" where
  "read_enc_string buffer = Option.bind (read_enc_int buffer) (\<lambda>(n, rem). read_fixed_length_string (unat n) rem)"

section \<open>The contract of a writer and its reader\<close>

locale wire_codec =
  fixes wr :: "'a \<Rightarrow> bytes \<Rightarrow> bytes" and rd :: "bytes \<Rightarrow> ('a \<times> bytes) option" and valid :: "'a \<Rightarrow> bool"
  assumes wr_append: "wr x buffer = buffer @ wr x []"
    and rd_wr: "valid x \<Longrightarrow> rd (wr x [] @ rest) = Some (x, rest)"
begin

lemma rd_wr_buffer: "valid x \<Longrightarrow> rd (drop (length buffer) (wr x buffer @ rest)) = Some (x, rest)"
  by (subst wr_append) (simp add: rd_wr)

lemma unique_decoding: "valid x \<Longrightarrow> valid y \<Longrightarrow> wr x [] @ r = wr y [] @ r' \<Longrightarrow> x = y \<and> r = r'"
  by (metis rd_wr option.inject prod.inject)

lemma wr_append_assoc: "wr x (buffer @ tail) = buffer @ wr x tail"
  using wr_append [of x "buffer @ tail"] wr_append [of x tail] by simp

end

lemma le_val_word:
  assumes "LENGTH('a :: len) = 8 * n"
  shows "word_of_nat (le_val (le_bytes n (unat (w :: 'a word)))) = w"
proof -
  have "unat w < 2 ^ LENGTH('a)" by (rule unsigned_less)
  then have "unat w < 256 ^ n" using assms by (simp add: power_mult)
  then show ?thesis by (simp add: le_val_le_bytes)
qed

interpretation int_1: wire_codec write_int_1 read_int_1 "\<lambda>_. True"
  by unfold_locales (simp_all add: write_int_1_def read_int_1_def)

interpretation int_2: wire_codec write_int_2 read_int_2 "\<lambda>_. True"
  by unfold_locales (simp_all add: write_int_2_def read_int_2_def split_at_def le_val_word)

interpretation int_4: wire_codec write_int_4 read_int_4 "\<lambda>_. True"
  by unfold_locales (simp_all add: write_int_4_def read_int_4_def split_at_def le_val_word)

lemma int_3_value: "unat (i :: u32) < 2 ^ 24 \<Longrightarrow> word_of_nat (le_val (take 3 (le_bytes 4 (unat i)) @ [0])) = i"
proof -
  assume i: "unat i < 2 ^ 24"
  have n: "4 = Suc (Suc (Suc (Suc 0)))" "3 = Suc (Suc (Suc 0))" by simp_all
  have "unat i div 256 div 256 div 256 = 0" using i by (simp add: div_mult2_eq [symmetric])
  then have "le_bytes 4 (unat i) = take 3 (le_bytes 4 (unat i)) @ [0]" unfolding le_bytes_def n by simp
  then show ?thesis using le_val_word [of 4 i] by simp
qed

interpretation int_3: wire_codec write_int_3 read_int_3 "\<lambda>i. unat i < 2 ^ 24"
  by unfold_locales (simp_all add: write_int_3_def read_int_3_def split_at_def int_3_value)


lemma unat_narrow: "unat i < 2 ^ LENGTH('a) \<Longrightarrow> unat (ucast i :: 'a :: len word) = unat i"
  by (simp add: unsigned_ucast_eq unsigned_take_bit_eq take_bit_nat_eq_self)

lemma narrow_widen: "unat (i :: u64) < 2 ^ LENGTH('a) \<Longrightarrow> (ucast (ucast i :: 'a :: len word) :: u64) = i"
  using unat_narrow [of i, where ?'a = 'a]
  by (simp add: word_eq_iff_unsigned [where ?'a = nat] unsigned_ucast_eq unsigned_take_bit_eq take_bit_nat_eq_self unsigned_less)

lemma enc_int_roundtrip: "read_enc_int (write_enc_int i [] @ rest) = Some (i, rest)"
proof -
  consider "i < 251" | "251 \<le> i" "i \<le> 0xFFFF" | "0xFFFF < i" "i \<le> 0xFFFFFF" | "0xFFFFFF < i" by fastforce
  then show ?thesis
  proof cases
    case 1
    then have u: "unat i < 251" by (simp add: word_less_nat_alt)
    then have "unat (ucast i :: u8) = unat i" by (intro unat_narrow) simp
    then have "(ucast i :: u8) \<noteq> 0xFC" "(ucast i :: u8) \<noteq> 0xFD" "(ucast i :: u8) \<noteq> 0xFE" using u by auto
    moreover have "(ucast (ucast i :: u8) :: u64) = i" using u by (intro narrow_widen) simp
    ultimately show ?thesis using 1 by (simp add: write_enc_int_def read_enc_int_def)
  next
    case 2
    then have "(ucast (ucast i :: u16) :: u64) = i" by (intro narrow_widen) (simp add: word_le_nat_alt)
    moreover have "\<not> i < 251" using 2 by simp
    ultimately show ?thesis using 2 int_2.rd_wr [of "ucast i" rest] int_2.wr_append [of "ucast i" "[0xFC]"]
      by (simp add: write_enc_int_def read_enc_int_def)
  next
    case 3
    then have u: "unat i < 2 ^ 24" by (simp add: word_le_nat_alt)
    then have "(ucast (ucast i :: u32) :: u64) = i" "unat (ucast i :: u32) = unat i"
      by (simp_all add: narrow_widen unat_narrow)
    moreover have "\<not> i < 251" "\<not> i \<le> 0xFFFF" "251 \<le> i" using 3 by (auto simp: word_less_nat_alt word_le_nat_alt)
    ultimately show ?thesis using 3(2) u int_3.rd_wr [of "ucast i" rest] int_3.wr_append [of "ucast i" "[0xFD]"]
      by (simp add: write_enc_int_def read_enc_int_def)
  next
    case 4
    then have "\<not> i < 251" "\<not> i \<le> 0xFFFF" "\<not> i \<le> 0xFFFFFF" by (auto simp: word_less_nat_alt word_le_nat_alt)
    then show ?thesis using le_val_word [of 8 i]
      by (simp add: write_enc_int_def read_enc_int_def split_at_def)
  qed
qed


lemma write_enc_int_append: "write_enc_int i buffer = buffer @ write_enc_int i []"
  by (simp add: write_enc_int_def write_int_2_def write_int_3_def)

interpretation enc_int: wire_codec write_enc_int read_enc_int "\<lambda>_. True"
  by unfold_locales (rule write_enc_int_append, rule enc_int_roundtrip)

lemma null_length_append: "0 \<notin> set s \<Longrightarrow> null_length (s @ 0 # rest) = length s"
  by (induction s) auto

interpretation null_string: wire_codec write_null_string read_null_string "\<lambda>s. 0 \<notin> set s"
  by unfold_locales (simp_all add: write_null_string_def read_null_string_def null_length_append Let_def)

lemma write_enc_string_append: "write_enc_string s buffer = buffer @ write_enc_string s []"
  by (simp add: write_enc_string_def write_eof_string_def write_enc_int_append [of _ buffer])

lemma enc_string_roundtrip:
  assumes "length s < 2 ^ 64"
  shows "read_enc_string (write_enc_string s [] @ rest) = Some (s, rest)"
proof -
  have "unat (of_nat (length s) :: u64) = length s" using assms by (simp add: unsigned_of_nat take_bit_nat_eq_self)
  then show ?thesis
    using enc_int.rd_wr [of "of_nat (length s)" "s @ rest"]
    by (simp add: write_enc_string_def read_enc_string_def write_eof_string_def read_fixed_length_string_def split_at_def)
qed

interpretation enc_string: wire_codec write_enc_string read_enc_string "\<lambda>s. length s < 2 ^ 64"
  by unfold_locales (rule write_enc_string_append, rule enc_string_roundtrip)

lemmas codec_roundtrips = int_1.rd_wr int_2.rd_wr int_3.rd_wr int_4.rd_wr enc_int.rd_wr null_string.rd_wr enc_string.rd_wr

lemma read_enc_int_shorter: "read_enc_int buffer = Some (i, rest) \<Longrightarrow> length rest < length buffer"
  by (auto simp: read_enc_int_def read_int_2_def read_int_3_def split_at_def split: list.split_asm if_split_asm)

lemma read_enc_string_shorter: "read_enc_string buffer = Some (s, rest) \<Longrightarrow> length rest < length buffer"
  using read_enc_int_shorter
  by (fastforce simp: read_enc_string_def read_fixed_length_string_def split_at_def bind_eq_Some_conv split: if_split_asm)


section \<open>Constants\<close>

definition client_long_password :: u32 where "client_long_password = 0x1"
definition client_found_rows :: u32 where "client_found_rows = 0x2"
definition client_long_flag :: u32 where "client_long_flag = 0x4"
definition client_connect_with_db :: u32 where "client_connect_with_db = 0x8"
definition client_no_schema :: u32 where "client_no_schema = 0x10"
definition client_protocol_41 :: u32 where "client_protocol_41 = 0x200"
definition client_transactions :: u32 where "client_transactions = 0x2000"
definition client_secure_connection :: u32 where "client_secure_connection = 0x8000"
definition client_multi_results :: u32 where "client_multi_results = 0x20000"
definition client_plugin_auth :: u32 where "client_plugin_auth = 0x80000"
definition client_connect_attrs :: u32 where "client_connect_attrs = 0x100000"
definition client_plugin_auth_lenenc :: u32 where "client_plugin_auth_lenenc = 0x200000"
definition client_session_track :: u32 where "client_session_track = 0x800000"
definition client_deprecate_eof :: u32 where "client_deprecate_eof = 0x1000000"

lemmas capability_defs = client_long_password_def client_found_rows_def client_long_flag_def client_connect_with_db_def
  client_no_schema_def client_protocol_41_def client_transactions_def client_secure_connection_def client_multi_results_def
  client_plugin_auth_def client_connect_attrs_def client_plugin_auth_lenenc_def client_session_track_def client_deprecate_eof_def

definition server_supported_capabilities :: u32 where
  "server_supported_capabilities = client_long_password OR client_found_rows OR client_long_flag OR client_connect_with_db OR
     client_no_schema OR client_protocol_41 OR client_secure_connection OR client_connect_attrs OR client_plugin_auth OR
     client_plugin_auth_lenenc OR client_deprecate_eof"

definition charset_utf8_general_ci :: u8 where "charset_utf8_general_ci = 33"
definition status_flag_autocommit :: u16 where "status_flag_autocommit = 2"

record my_error =
  er_code :: u16
  er_msg :: bytes
  er_sql_state :: bytes

definition er_unknown_com_error :: my_error where
  "er_unknown_com_error = \<lparr>er_code = 1047, er_msg = str_bytes ''Unknown command'', er_sql_state = str_bytes ''08S01''\<rparr>"
definition er_bad_db_error :: my_error where
  "er_bad_db_error = \<lparr>er_code = 1049, er_msg = str_bytes ''Unknown database'', er_sql_state = str_bytes ''42000''\<rparr>"
definition er_parse_error :: my_error where
  "er_parse_error = \<lparr>er_code = 1064, er_msg = str_bytes ''Parse Error'', er_sql_state = str_bytes ''42000''\<rparr>"

definition mysql_type :: "data_type \<Rightarrow> u8" where
  "mysql_type dt =
     (case dt of
        T_Null \<Rightarrow> 0x06
      | T_Text \<Rightarrow> 0xFD | T_Json \<Rightarrow> 0xFD | T_JsonPath \<Rightarrow> 0xFD
      | T_Integer \<Rightarrow> 0x03
      | T_Date \<Rightarrow> 0x0A
      | T_BigInt \<Rightarrow> 0x08
      | T_Boolean \<Rightarrow> 0x01
      | T_Decimal p s \<Rightarrow> 0xF6
      | T_ByteA \<Rightarrow> 0xFC
      | T_Timestamp \<Rightarrow> 0x0C)"

section \<open>Packets of the server\<close>

definition has_capability :: "u32 \<Rightarrow> u32 \<Rightarrow> bool" where
  "has_capability capabilities flag \<longleftrightarrow> capabilities AND flag \<noteq> 0"

definition write_handshake_packet :: "u32 \<Rightarrow> bytes \<Rightarrow> bytes" where
  "write_handshake_packet conn_id buffer =
     (let buffer = write_int_1 10 buffer;
          buffer = write_null_string (str_bytes ''8.0.0-incresql'') buffer;
          buffer = write_int_4 conn_id buffer;
          buffer = buffer @ [1, 2, 3, 4, 5, 6, 7, 0];
          buffer = write_int_1 0 buffer;
          buffer = write_int_2 (ucast server_supported_capabilities) buffer;
          buffer = write_int_1 charset_utf8_general_ci buffer;
          buffer = write_int_2 0 buffer;
          buffer = write_int_2 (ucast (drop_bit 16 server_supported_capabilities)) buffer;
          buffer = (if has_capability server_supported_capabilities client_plugin_auth then write_int_1 20 buffer else write_int_1 0 buffer);
          buffer = buffer @ [0, 0, 0, 0, 0, 0, 0, 0, 0, 0];
          buffer = buffer @ [1, 1, 2, 3, 4, 5, 6, 7, 8, 9, 1, 1, 0] in
      if has_capability server_supported_capabilities client_plugin_auth
      then write_null_string (str_bytes ''mysql_native_password'') buffer else buffer)"

definition write_auth_switch_request_packet :: "bytes \<Rightarrow> bytes" where
  "write_auth_switch_request_packet buffer =
     (let buffer = write_int_1 0xFE buffer;
          buffer = write_null_string (str_bytes ''mysql_native_password'') buffer in
      write_null_string [1, 1, 1, 1, 2, 2, 2, 2, 3, 3, 3, 3, 4, 4, 4, 4, 5, 5, 5, 5] buffer)"

definition write_err_packet :: "u16 \<Rightarrow> bytes \<Rightarrow> bytes \<Rightarrow> u32 \<Rightarrow> bytes \<Rightarrow> bytes" where
  "write_err_packet error_code error_message sql_state capabilities buffer =
     (let buffer = write_int_1 0xFF buffer;
          buffer = write_int_2 error_code buffer;
          buffer = (if has_capability capabilities client_protocol_41 then write_int_1 0x23 buffer @ sql_state else buffer) in
      write_eof_string error_message buffer)"

definition write_err_packet_from_err :: "my_error \<Rightarrow> u32 \<Rightarrow> bytes \<Rightarrow> bytes" where
  "write_err_packet_from_err err = write_err_packet (er_code err) (er_msg err) (er_sql_state err)"

text \<open>A row: a missing type of a column and a value that cannot be printed are panics.\<close>

fun write_tuple_from :: "('d, 'n, 't) function_lib \<Rightarrow> data_type list \<Rightarrow> nat \<Rightarrow> 'd datum list \<Rightarrow> bytes \<Rightarrow> bytes option" where
  "write_tuple_from L types idx [] buffer = Some buffer"
| "write_tuple_from L types idx (value # values) buffer =
     Option.bind
       (case value of
          D_Null \<Rightarrow> Some (buffer @ [0xFB])
        | D_Boolean b \<Rightarrow> Some (write_enc_string (str_bytes (if b then ''1'' else ''0'')) buffer)
        | _ \<Rightarrow>
            if idx < length types then map_option (\<lambda>s. write_enc_string s buffer) (typed_to_string L (types ! idx) value) else None)
       (write_tuple_from L types (idx + 1) values)"

definition write_tuple_packet :: "('d, 'n, 't) function_lib \<Rightarrow> 'd datum list \<Rightarrow> data_type list \<Rightarrow> bytes \<Rightarrow> bytes option" where
  "write_tuple_packet L tuple types = write_tuple_from L types 0 tuple"

definition write_ok_packet :: "bool \<Rightarrow> u64 \<Rightarrow> u32 \<Rightarrow> bytes \<Rightarrow> bytes" where
  "write_ok_packet eof affected_rows capabilities buffer =
     (let buffer = write_int_1 (if eof then 0xFE else 0) buffer;
          buffer = write_enc_int affected_rows buffer;
          buffer = write_enc_int 0 buffer;
          buffer = (if has_capability capabilities client_protocol_41 then write_int_2 0 (write_int_2 status_flag_autocommit buffer)
                    else if has_capability capabilities client_transactions then write_int_2 status_flag_autocommit buffer
                    else buffer) in
      if has_capability capabilities client_session_track then write_null_string [] buffer else write_eof_string [] buffer)"

definition write_eof_packet :: "u32 \<Rightarrow> bytes \<Rightarrow> bytes" where
  "write_eof_packet capabilities buffer =
     (let buffer = write_int_1 0xFE buffer in
      if has_capability capabilities client_protocol_41 then write_int_2 status_flag_autocommit (write_int_2 0 buffer) else buffer)"

definition write_resultset_packet :: "nat \<Rightarrow> u32 \<Rightarrow> bytes \<Rightarrow> bytes" where
  "write_resultset_packet column_count capabilities buffer =
     (let buffer = (if has_capability capabilities client_multi_results then write_int_1 1 buffer else buffer) in
      write_enc_int (of_nat column_count) buffer)"

definition write_column_packet :: "bytes \<Rightarrow> bytes \<Rightarrow> data_type \<Rightarrow> u32 \<Rightarrow> bytes \<Rightarrow> bytes" where
  "write_column_packet table name data_type capabilities buffer =
     (let flags = 0 :: u16;
          decimals = (case data_type of T_Text \<Rightarrow> 0x1F | T_Json \<Rightarrow> 0x1F | T_JsonPath \<Rightarrow> 0x1F | T_Decimal p s \<Rightarrow> s | _ \<Rightarrow> 0);
          column_length = (case data_type of T_Decimal p s \<Rightarrow> ucast p | _ \<Rightarrow> 1024);
          column_type = mysql_type data_type in
      if has_capability capabilities client_protocol_41 then
        let buffer = write_enc_string (str_bytes ''def'') buffer;
            buffer = write_enc_string [] buffer;
            buffer = write_enc_string table buffer;
            buffer = write_enc_string [] buffer;
            buffer = write_enc_string name buffer;
            buffer = write_enc_string [] buffer;
            buffer = write_enc_int 0x0C buffer;
            buffer = write_int_2 (ucast charset_utf8_general_ci) buffer;
            buffer = write_int_4 column_length buffer;
            buffer = write_int_1 column_type buffer;
            buffer = write_int_2 flags buffer;
            buffer = write_int_1 decimals buffer in
        write_int_2 0 buffer
      else
        let buffer = write_enc_string table buffer;
            buffer = write_enc_string name buffer;
            buffer = write_int_1 1 buffer;
            buffer = write_int_1 column_type buffer in
        if has_capability capabilities client_long_flag then
          write_int_1 decimals (write_int_2 flags (write_enc_int 3 buffer))
        else write_int_1 decimals (write_int_1 (ucast flags) (write_enc_int 2 buffer)))"

section \<open>Packets of the client\<close>

record handshake_response =
  hr_client_flags :: u32
  hr_max_packet_size :: u32
  hr_character_set :: u8
  hr_username :: bytes
  hr_auth_response :: bytes
  hr_database :: bytes
  hr_client_plugin_name :: bytes
  hr_client_connection_attrs :: "bytes \<rightharpoonup> bytes"

definition handshake_response_default :: handshake_response where
  "handshake_response_default = \<lparr>hr_client_flags = 0, hr_max_packet_size = 0, hr_character_set = 0, hr_username = [], hr_auth_response = [],
     hr_database = [], hr_client_plugin_name = [], hr_client_connection_attrs = Map.empty\<rparr>"

function read_attrs :: "bytes \<Rightarrow> (bytes \<rightharpoonup> bytes) \<Rightarrow> (bytes \<rightharpoonup> bytes) option" where
  "read_attrs buffer attrs =
     (if buffer = [] then Some attrs
      else
        Option.bind (read_enc_string buffer) (\<lambda>(key, buffer).
        Option.bind (read_enc_string buffer) (\<lambda>(value, buffer). read_attrs buffer (attrs(key \<mapsto> value)))))"
  by pat_completeness auto
termination
  by (relation "measure (\<lambda>(buffer, _). length buffer)") (auto dest!: read_enc_string_shorter)

declare read_attrs.simps [simp del]

definition read_auth_response :: "u32 \<Rightarrow> bytes \<Rightarrow> (bytes \<times> bytes) option" where
  "read_auth_response flags buffer =
     (if has_capability flags client_plugin_auth_lenenc then read_enc_string buffer
      else Option.bind (read_int_1 buffer) (\<lambda>(n, buffer). read_fixed_length_string (unat n) buffer))"

definition read_initial_database :: "u32 \<Rightarrow> bytes \<Rightarrow> (bytes \<times> bytes) option" where
  "read_initial_database flags buffer = (if has_capability flags client_connect_with_db then read_null_string buffer else Some ([], buffer))"

definition read_plugin_name :: "u32 \<Rightarrow> bytes \<Rightarrow> (bytes \<times> bytes) option" where
  "read_plugin_name flags buffer =
     (if buffer \<noteq> [] \<and> has_capability flags client_plugin_auth then read_null_string buffer else Some ([], buffer))"

definition read_connection_attrs :: "u32 \<Rightarrow> bytes \<Rightarrow> ((bytes \<rightharpoonup> bytes) \<times> bytes) option" where
  "read_connection_attrs flags buffer =
     (if buffer \<noteq> [] \<and> has_capability flags client_connect_attrs
      then Option.bind (read_enc_int buffer) (\<lambda>(_, buffer). map_option (\<lambda>attrs. (attrs, [])) (read_attrs buffer Map.empty))
      else Some (Map.empty, buffer))"

text \<open>Bytes that are left over fail the assertion at the end.\<close>

definition read_protocol_41 :: "u16 \<Rightarrow> bytes \<Rightarrow> handshake_response option" where
  "read_protocol_41 lower_capabilities buffer =
     Option.bind (read_int_2 buffer) (\<lambda>(upper_capabilities, buffer).
     let flags = (ucast lower_capabilities + push_bit 16 (ucast upper_capabilities)) AND server_supported_capabilities in
     Option.bind (read_int_4 buffer) (\<lambda>(max_packet_size, buffer).
     Option.bind (read_int_1 buffer) (\<lambda>(character_set, buffer).
     Option.bind (split_at 23 buffer) (\<lambda>(_, buffer).
     Option.bind (read_null_string buffer) (\<lambda>(username, buffer).
     Option.bind (read_auth_response flags buffer) (\<lambda>(auth_response, buffer).
     Option.bind (read_initial_database flags buffer) (\<lambda>(database, buffer).
     Option.bind (read_plugin_name flags buffer) (\<lambda>(plugin, buffer).
     Option.bind (read_connection_attrs flags buffer) (\<lambda>(attrs, buffer).
       if buffer = [] then
         Some \<lparr>hr_client_flags = flags, hr_max_packet_size = max_packet_size, hr_character_set = character_set, hr_username = username,
           hr_auth_response = auth_response, hr_database = database, hr_client_plugin_name = plugin, hr_client_connection_attrs = attrs\<rparr>
       else None)))))))))"

definition read_protocol_320 :: "u16 \<Rightarrow> bytes \<Rightarrow> handshake_response option" where
  "read_protocol_320 lower_capabilities buffer =
     (let flags = ucast lower_capabilities AND server_supported_capabilities;
          packet = handshake_response_default\<lparr>hr_client_flags := flags\<rparr> in
      Option.bind (read_int_3 buffer) (\<lambda>(max_packet_size, buffer).
      Option.bind (read_null_string buffer) (\<lambda>(username, buffer).
      let packet = packet\<lparr>hr_max_packet_size := max_packet_size, hr_username := username\<rparr> in
      if has_capability flags client_connect_with_db then
        Option.bind (read_null_string buffer) (\<lambda>(auth_response, buffer).
        Option.bind (read_null_string buffer) (\<lambda>(database, buffer).
          if buffer = [] then Some (packet\<lparr>hr_auth_response := auth_response, hr_database := database\<rparr>) else None))
      else Some (packet\<lparr>hr_auth_response := fst (read_eof_string buffer)\<rparr>))))"

definition read_handshake_response :: "bytes \<Rightarrow> handshake_response option" where
  "read_handshake_response buffer =
     Option.bind (read_int_2 buffer) (\<lambda>(lower_capabilities, buffer).
       if has_capability (ucast lower_capabilities) client_protocol_41 then read_protocol_41 lower_capabilities buffer
       else read_protocol_320 lower_capabilities buffer)"

datatype command_packet = ComQuit | ComInitDb bytes | ComQuery bytes | ComPing | ComUnknown

definition read_command :: "bytes \<Rightarrow> command_packet option" where
  "read_command buffer =
     (case buffer of
        [] \<Rightarrow> None
      | b # rest \<Rightarrow>
          Some (if b = 0x01 then ComQuit
            else if b = 0x02 then ComInitDb (fst (read_eof_string rest))
            else if b = 0x03 then ComQuery (fst (read_eof_string rest))
            else if b = 0x0E then ComPing
            else ComUnknown))"


section \<open>Rows on the wire\<close>

text \<open>What a client sees of a row: \<open>NULL\<close> or the text of each column.\<close>

definition write_column :: "bytes option \<Rightarrow> bytes \<Rightarrow> bytes" where
  "write_column x buffer = (case x of None \<Rightarrow> buffer @ [0xFB] | Some s \<Rightarrow> write_enc_string s buffer)"

definition client_column :: "bytes \<Rightarrow> (bytes option \<times> bytes) option" where
  "client_column buffer =
     (case buffer of b # rest \<Rightarrow> (if b = 0xFB then Some (None, rest) else map_option (apfst Some) (read_enc_string buffer)) | [] \<Rightarrow> None)"

fun client_columns :: "nat \<Rightarrow> bytes \<Rightarrow> (bytes option list \<times> bytes) option" where
  "client_columns 0 buffer = Some ([], buffer)"
| "client_columns (Suc n) buffer =
     Option.bind (client_column buffer) (\<lambda>(x, buffer). map_option (apfst (Cons x)) (client_columns n buffer))"

definition column_text :: "('d, 'n, 't) function_lib \<Rightarrow> data_type \<Rightarrow> 'd datum \<Rightarrow> bytes option option" where
  "column_text L dt d =
     (case d of D_Null \<Rightarrow> Some None | D_Boolean b \<Rightarrow> Some (Some (str_bytes (if b then ''1'' else ''0''))) | _ \<Rightarrow> map_option Some (typed_to_string L dt d))"

lemma write_enc_int_first: "\<exists>b rest. write_enc_int i [] = b # rest \<and> b \<noteq> 0xFB"
proof (cases "i < 251")
  case True
  then have u: "unat i < 251" by (simp add: word_less_nat_alt)
  then have "unat (ucast i :: u8) = unat i" by (intro unat_narrow) simp
  then have "(ucast i :: u8) \<noteq> 0xFB" using u by auto
  then show ?thesis using True by (simp add: write_enc_int_def)
qed (simp add: write_enc_int_def write_int_2_def write_int_3_def)

interpretation column: wire_codec write_column client_column "\<lambda>x. \<forall>s. x = Some s \<longrightarrow> length s < 2 ^ 64"
proof
  fix x :: "bytes option" and buffer
  show "write_column x buffer = buffer @ write_column x []"
    by (cases x) (simp_all add: write_column_def write_enc_string_append [of _ buffer])
next
  fix x :: "bytes option" and rest
  assume x: "\<forall>s. x = Some s \<longrightarrow> length s < 2 ^ 64"
  show "client_column (write_column x [] @ rest) = Some (x, rest)"
  proof (cases x)
    case (Some s)
    obtain b bs where "write_enc_int (of_nat (length s)) [] = b # bs" "b \<noteq> 0xFB" using write_enc_int_first by blast
    then have "\<exists>bs. write_enc_string s [] @ rest = b # bs" and "b \<noteq> 0xFB" by (simp_all add: write_enc_string_def write_eof_string_def)
    then show ?thesis using enc_string.rd_wr [of s rest] x Some by (auto simp: write_column_def client_column_def)
  qed (simp add: write_column_def client_column_def)
qed

lemma write_tuple_from_eq:
  assumes "length types = idx + length tuple" "those (map2 (column_text L) (drop idx types) tuple) = Some texts"
  shows "write_tuple_from L types idx tuple buffer = Some (buffer @ concat (map (\<lambda>x. write_column x []) texts))"
  using assms
proof (induction tuple arbitrary: idx buffer texts)
  case (Cons v vs)
  have idx: "idx < length types" "drop idx types = types ! idx # drop (Suc idx) types" using Cons.prems(1) by (simp_all add: Cons_nth_drop_Suc)
  then obtain x xs where x: "column_text L (types ! idx) v = Some x" "those (map2 (column_text L) (drop (Suc idx) types) vs) = Some xs" "texts = x # xs"
    using Cons.prems(2) by (auto split: option.split_asm)
  have "write_tuple_from L types (Suc idx) vs (write_column x buffer) = Some (write_column x buffer @ concat (map (\<lambda>x. write_column x []) xs))"
    using Cons.prems(1) x(2) by (intro Cons.IH) simp_all
  then show ?case using x(1,3) idx(1) column.wr_append [of x buffer]
    by (cases v) (auto simp: column_text_def write_column_def)
qed simp

lemma client_columns_written:
  "list_all (\<lambda>x. \<forall>s. x = Some s \<longrightarrow> length s < 2 ^ 64) texts \<Longrightarrow>
    client_columns (length texts) (concat (map (\<lambda>x. write_column x []) texts)) = Some (texts, [])"
  by (induction texts) (simp_all add: column.rd_wr)

text \<open>C26. A client reads back the row the server writes: when every value of a row can be printed, the packet is
  written, and reading as many columns as the row has gives \<open>NULL\<close> or the printed text of each value and uses up
  the packet.\<close>

theorem tuple_packet_read:
  assumes "length types = length tuple" "those (map2 (column_text L) types tuple) = Some texts"
    "list_all (\<lambda>x. \<forall>s. x = Some s \<longrightarrow> length s < 2 ^ 64) texts"
  shows "\<exists>packet. write_tuple_packet L tuple types [] = Some packet \<and> client_columns (length tuple) packet = Some (texts, [])"
proof -
  have "length texts = length tuple" using assms(1) length_those [OF assms(2)] by simp
  then show ?thesis using write_tuple_from_eq [of types 0 tuple L texts "[]"] assms client_columns_written [OF assms(3)] by (simp add: write_tuple_packet_def)
qed


section \<open>The handshake\<close>

text \<open>A client of the 4.1 protocol, which sends the parts that the capabilities of both sides ask for.\<close>

record client_hello =
  ch_flags :: u32
  ch_max_packet_size :: u32
  ch_character_set :: u8
  ch_username :: bytes
  ch_auth :: bytes
  ch_database :: bytes
  ch_plugin :: bytes
  ch_attrs :: "(bytes \<times> bytes) list"

definition client_capabilities :: "client_hello \<Rightarrow> u32" where
  "client_capabilities c = ch_flags c AND server_supported_capabilities"

definition write_attrs :: "(bytes \<times> bytes) list \<Rightarrow> bytes" where
  "write_attrs kvs = concat (map (\<lambda>(k, v). write_enc_string k [] @ write_enc_string v []) kvs)"

definition client_auth :: "u32 \<Rightarrow> bytes \<Rightarrow> bytes" where
  "client_auth flags auth = (if has_capability flags client_plugin_auth_lenenc then write_enc_string auth [] else of_nat (length auth) # auth)"

definition client_string :: "bool \<Rightarrow> bytes \<Rightarrow> bytes" where
  "client_string sent s = (if sent then write_null_string s [] else [])"

definition client_attrs :: "bool \<Rightarrow> (bytes \<times> bytes) list \<Rightarrow> bytes" where
  "client_attrs sent kvs = (if sent then write_enc_int (of_nat (length (write_attrs kvs))) [] @ write_attrs kvs else [])"

definition client_response :: "client_hello \<Rightarrow> bytes" where
  "client_response c =
     (let flags = client_capabilities c in
      write_int_2 (ucast (ch_flags c)) [] @ write_int_2 (ucast (drop_bit 16 (ch_flags c))) [] @
      write_int_4 (ch_max_packet_size c) [] @ write_int_1 (ch_character_set c) [] @ replicate 23 0 @
      write_null_string (ch_username c) [] @ client_auth flags (ch_auth c) @
      client_string (has_capability flags client_connect_with_db) (ch_database c) @
      client_string (has_capability flags client_plugin_auth) (ch_plugin c) @
      client_attrs (has_capability flags client_connect_attrs) (ch_attrs c))"

definition client_ok :: "client_hello \<Rightarrow> bool" where
  "client_ok c \<longleftrightarrow> has_capability (ch_flags c) client_protocol_41 \<and> 0 \<notin> set (ch_username c) \<and> 0 \<notin> set (ch_database c) \<and> 0 \<notin> set (ch_plugin c) \<and>
     length (ch_auth c) < 256 \<and> list_all (\<lambda>(k, v). length k < 2 ^ 64 \<and> length v < 2 ^ 64) (ch_attrs c)"

definition understood :: "client_hello \<Rightarrow> handshake_response" where
  "understood c =
     (let flags = client_capabilities c in
      \<lparr>hr_client_flags = flags, hr_max_packet_size = ch_max_packet_size c, hr_character_set = ch_character_set c, hr_username = ch_username c,
       hr_auth_response = ch_auth c, hr_database = (if has_capability flags client_connect_with_db then ch_database c else []),
       hr_client_plugin_name = (if has_capability flags client_plugin_auth then ch_plugin c else []),
       hr_client_connection_attrs = (if has_capability flags client_connect_attrs then map_of (rev (ch_attrs c)) else Map.empty)\<rparr>)"

lemma flags_joined: "(ucast (ucast (f :: u32) :: u16) :: u32) + push_bit 16 (ucast (ucast (drop_bit 16 f) :: u16)) = f"
proof -
  have "(ucast (ucast f :: u16) :: u32) = take_bit 16 f"
    "(push_bit 16 (ucast (ucast (drop_bit 16 f) :: u16)) :: u32) = push_bit 16 (drop_bit 16 f)"
    by (rule bit_word_eqI, auto simp: bit_simps)+
  then show ?thesis using bits_ident [of 16 f] by (simp only: add.commute)
qed

lemma protocol_41_low: "has_capability (ucast (ucast f :: u16)) client_protocol_41 = has_capability f client_protocol_41"
proof -
  have "bit client_protocol_41 n \<Longrightarrow> n = 9" for n
    using bit_exp_iff [of 9 n, where ?'a = u32] by (simp add: client_protocol_41_def)
  then have "n < 16" if "bit client_protocol_41 n" for n using that by fastforce
  then have "ucast (ucast f :: u16) AND client_protocol_41 = f AND client_protocol_41"
    by (intro bit_word_eqI) (auto simp: bit_simps)
  then show ?thesis by (simp add: has_capability_def)
qed

lemma write_enc_string_nonempty: "write_enc_string s [] \<noteq> []"
  using write_enc_int_first [of "of_nat (length s)"] by (auto simp: write_enc_string_def write_eof_string_def)

lemma read_attrs_written:
  "list_all (\<lambda>(k, v). length k < 2 ^ 64 \<and> length v < 2 ^ 64) kvs \<Longrightarrow> read_attrs (write_attrs kvs) m = Some (m ++ map_of (rev kvs))"
proof (induction kvs arbitrary: m)
  case (Cons kv kvs)
  obtain k v where kv: "kv = (k, v)" by (cases kv)
  then have "write_attrs (kv # kvs) = write_enc_string k [] @ write_enc_string v [] @ write_attrs kvs" by (simp add: write_attrs_def)
  then show ?case using Cons kv write_enc_string_nonempty [of k]
    by (subst read_attrs.simps) (simp add: enc_string.rd_wr)
qed (simp add: write_attrs_def read_attrs.simps)

lemma auth_read:
  assumes "length auth < 256"
  shows "read_auth_response flags (client_auth flags auth @ rest) = Some (auth, rest)"
proof -
  have "unat (of_nat (length auth) :: u8) = length auth" using assms by (simp add: unsigned_of_nat take_bit_nat_eq_self)
  then show ?thesis using assms
    by (simp add: read_auth_response_def client_auth_def enc_string.rd_wr read_int_1_def read_fixed_length_string_def split_at_def)
qed

lemma database_read:
  "0 \<notin> set s \<Longrightarrow> read_initial_database flags (client_string (has_capability flags client_connect_with_db) s @ rest) =
    Some (if has_capability flags client_connect_with_db then s else [], rest)"
  by (simp add: read_initial_database_def client_string_def null_string.rd_wr)

lemma plugin_read:
  "0 \<notin> set s \<Longrightarrow> read_plugin_name flags (client_string (has_capability flags client_plugin_auth) s @ rest) =
    Some (if has_capability flags client_plugin_auth then s else [], rest)"
  using null_string.rd_wr [of s rest] by (simp add: read_plugin_name_def client_string_def write_null_string_def)

lemma attrs_read:
  assumes "list_all (\<lambda>(k, v). length k < 2 ^ 64 \<and> length v < 2 ^ 64) kvs"
  shows "read_connection_attrs flags (client_attrs (has_capability flags client_connect_attrs) kvs) =
    Some (if has_capability flags client_connect_attrs then map_of (rev kvs) else Map.empty, [])"
  using read_attrs_written [OF assms, of Map.empty] write_enc_int_first [of "of_nat (length (write_attrs kvs))"]
  by (auto simp: read_connection_attrs_def client_attrs_def enc_int.rd_wr)

text \<open>C27. The server understands the client: the response of a client of the 4.1 protocol is read without a
  panic, to the last byte, and every part that both sides support arrives as it was sent; of repeated attributes the last
  one counts.\<close>

theorem handshake_understood:
  assumes "client_ok c"
  shows "read_handshake_response (client_response c) = Some (understood c)"
proof -
  have filler: "split_at 23 (replicate 23 0 @ rest) = Some (replicate 23 0, rest :: bytes)" for rest by (simp add: split_at_def)
  show ?thesis using assms
    by (simp add: client_ok_def read_handshake_response_def client_response_def understood_def Let_def codec_roundtrips protocol_41_low
        read_protocol_41_def flags_joined filler auth_read database_read plugin_read attrs_read client_capabilities_def [symmetric])
qed


section \<open>Examples\<close>

theorem tuple_packet_read_witness:
  "\<exists>packet. write_tuple_packet example_lib [D_Null, D_Boolean True, D_ByteARef [104, 105]] [T_Text, T_Boolean, T_Text] [] = Some packet \<and>
    client_columns 3 packet = Some ([None, Some [49], Some [104, 105]], [])"
  using tuple_packet_read [of "[T_Text, T_Boolean, T_Text]" "[D_Null, D_Boolean True, D_ByteARef [104, 105]]" example_lib
      "[None, Some [49], Some [104, 105]]"]
  by (simp add: column_text_def typed_to_string_def str_bytes_def numeral_3_eq_3)

definition example_hello :: client_hello where
  "example_hello = \<lparr>ch_flags = 0x3A020F, ch_max_packet_size = 0x1000000, ch_character_set = 33, ch_username = str_bytes ''pam'',
     ch_auth = [1, 0, 2], ch_database = str_bytes ''test'', ch_plugin = str_bytes ''mysql_native_password'',
     ch_attrs = [(str_bytes ''_os'', str_bytes ''linux''), (str_bytes ''_pid'', str_bytes ''7'')]\<rparr>"

theorem handshake_understood_witness: "read_handshake_response (client_response example_hello) = Some (understood example_hello)"
  by (rule handshake_understood) (simp add: client_ok_def example_hello_def has_capability_def client_protocol_41_def str_bytes_def)

text \<open>The packets of the examples in the protocol documentation.\<close>

lemma error_packet_example:
  "write_err_packet 1096 (str_bytes ''No tables used'') (str_bytes ''HY000'') server_supported_capabilities [] =
    [0xff, 0x48, 0x04, 0x23, 0x48, 0x59, 0x30, 0x30, 0x30, 0x4e, 0x6f, 0x20, 0x74, 0x61, 0x62, 0x6c, 0x65, 0x73, 0x20, 0x75, 0x73, 0x65, 0x64]"
  by code_simp

lemma ok_packet_example: "write_ok_packet False 0 server_supported_capabilities [] = [0, 0, 0, 2, 0, 0, 0]"
  by code_simp

end
