(* ===== verification/Error_Messages.thy ===== *)
theory Error_Messages
  imports Explain
begin

text \<open>
  The texts of errors as clients see them (the \<open>Display\<close> implementations of \<open>storage/src/error.rs\<close>,
  \<open>executor/src/lib.rs\<close>, \<open>catalog/src/error.rs\<close>, \<open>functions/src/registry.rs\<close> and
  \<open>planner/src/error.rs\<close>).  \<open>None\<close> is a panic while an expression is printed.
\<close>

section \<open>Storage, execution and the catalog\<close>

fun storage_error_to_string :: "storage_error \<Rightarrow> bytes" where
  "storage_error_to_string (RocksDbError err) = str_bytes err"

fun execution_error_to_string :: "execution_error \<Rightarrow> bytes" where
  "execution_error_to_string (StorageError err) = storage_error_to_string err"
| "execution_error_to_string (IOError err) = str_bytes err"
| "execution_error_to_string (DecodingError err) = str_bytes err"

fun catalog_error_to_string :: "catalog_error \<Rightarrow> bytes" where
  "catalog_error_to_string (CatalogStorageError err) = storage_error_to_string err"
| "catalog_error_to_string (TableAlreadyExists db table) =
     str_bytes ''Table '' @ str_bytes db @ str_bytes ''.'' @ str_bytes table @ str_bytes '' already exists''"
| "catalog_error_to_string (TableNotFound db table) =
     str_bytes ''Table '' @ str_bytes db @ str_bytes ''.'' @ str_bytes table @ str_bytes '' not found''"
| "catalog_error_to_string (DatabaseAlreadyExists db) = str_bytes ''Database '' @ str_bytes db @ str_bytes '' already exists''"
| "catalog_error_to_string (DatabaseNotFound db) = str_bytes ''Database '' @ str_bytes db @ str_bytes '' not found''"
| "catalog_error_to_string (DatabaseNotEmpty db) =
     str_bytes ''Database '' @ str_bytes db @ str_bytes '' is not empty, please remote all contained tables first''"

section \<open>Resolution of functions and fields\<close>

text \<open>The derived \<open>Debug\<close> of a list of data types.\<close>

fun data_type_debug :: "data_type \<Rightarrow> bytes" where
  "data_type_debug T_Null = str_bytes ''Null''"
| "data_type_debug T_Boolean = str_bytes ''Boolean''"
| "data_type_debug T_Integer = str_bytes ''Integer''"
| "data_type_debug T_BigInt = str_bytes ''BigInt''"
| "data_type_debug (T_Decimal p s) =
     str_bytes ''Decimal('' @ int_to_string (uint p) @ str_bytes '', '' @ int_to_string (uint s) @ str_bytes '')''"
| "data_type_debug T_Text = str_bytes ''Text''"
| "data_type_debug T_ByteA = str_bytes ''ByteA''"
| "data_type_debug T_Json = str_bytes ''Json''"
| "data_type_debug T_Date = str_bytes ''Date''"
| "data_type_debug T_Timestamp = str_bytes ''Timestamp''"
| "data_type_debug T_JsonPath = str_bytes ''JsonPath''"

fun function_resolution_error_to_string :: "function_resolution_error \<Rightarrow> bytes" where
  "function_resolution_error_to_string (FunctionNotFound name) =
     str_bytes ''Function '' @ str_bytes [CHR 34] @ str_bytes name @ str_bytes [CHR 34] @ str_bytes '' not found''"
| "function_resolution_error_to_string (MatchingSignatureNotFound name args) =
     str_bytes ''Cannot find variant for function '' @ str_bytes [CHR 34] @ str_bytes name @ str_bytes [CHR 34] @
     str_bytes '' that accepts types '' @ str_bytes ''['' @ join_bytes (str_bytes '', '') (map data_type_debug args) @ str_bytes '']''"

definition field_list :: "field list \<Rightarrow> bytes" where
  "field_list fs = join_bytes (str_bytes '', '')
     (map (\<lambda>f. column_reference_to_string \<lparr>cr_qualifier = fd_qualifier f, cr_alias = fd_alias f, cr_star = False\<rparr>) fs)"

fun field_resolution_error_to_string :: "field_resolution_error \<Rightarrow> bytes" where
  "field_resolution_error_to_string (Ambiguous col fs) =
     str_bytes ''Field '' @ column_reference_to_string col @ str_bytes '' is ambiguous, matched on ('' @ field_list fs @
     str_bytes ''), maybe you need to fully qualify the field''"
| "field_resolution_error_to_string (NotFound col fs) =
     str_bytes ''Field '' @ column_reference_to_string col @ str_bytes '' not found, possible fields are ('' @ field_list fs @ str_bytes '')''"

section \<open>The planner\<close>

definition type_list :: "data_type list \<Rightarrow> bytes" where
  "type_list ts = join_bytes (str_bytes '', '') (map data_type_to_string ts)"

definition newline :: bytes where
  "newline = [10]"

fun planner_error_to_string :: "('d, 'n, 't) function_lib \<Rightarrow> (bytes \<Rightarrow> bytes) \<Rightarrow> 'd planner_error \<Rightarrow> bytes option" where
  "planner_error_to_string L debug (FunctionResolutionError err) = Some (function_resolution_error_to_string err)"
| "planner_error_to_string L debug (FieldResolutionError err) = Some (field_resolution_error_to_string err)"
| "planner_error_to_string L debug (CatalogError err) = Some (catalog_error_to_string err)"
| "planner_error_to_string L debug (PredicateNotBoolean dt expr) =
     map_option (\<lambda>s. str_bytes ''Predicate returns '' @ data_type_to_string dt @ str_bytes '' not BOOLEAN - '' @ s) (expression_to_string L debug expr)"
| "planner_error_to_string L debug (UnionAllMismatch first other other_idx) =
     Some (if length first \<noteq> length other then
         str_bytes ''Union all mismatch, first sub expression has '' @ nat_digits (length first) @ str_bytes '' rows while the subexpr '' @
         nat_digits (other_idx + 1) @ str_bytes '' has '' @ nat_digits (length other) @ str_bytes '' rows''
       else
         str_bytes ''Union all types mismatch'' @ newline @ str_bytes ''first datatypes: '' @ type_list first @ newline @
         str_bytes ''subexpr '' @ nat_digits (other_idx + 1) @ str_bytes '' datatypes: '' @ type_list other)"
| "planner_error_to_string L debug (InsertMismatch table source) =
     Some (str_bytes ''Insert mismatch, table expects row of:'' @ newline @ str_bytes ''  '' @ type_list table @ newline @
       str_bytes ''source is:'' @ newline @ str_bytes ''  '' @ type_list source)"
| "planner_error_to_string L debug (AggregateNotAllowed function_name location) =
     Some (str_bytes ''Aggregate function '' @ str_bytes function_name @ str_bytes '' found in '' @ str_bytes location @ str_bytes '','' @ newline @
       str_bytes ''Aggregate functions can only be used in select clauses'')"

end
