(* ===== verification/Mysql_Server.thy ===== *)
theory Mysql_Server
  imports Runtime Mysql_Protocol Error_Messages
begin

text \<open>
  A connection of the MySQL server (\<open>server/src/mysql/mod.rs\<close>): framing of packets, the handshake, the
  commands and the response to a query.  The socket is the input that is still to come, the output
  written so far and the number of bytes it will still take, if it is limited: reading past the end
  and writing past the limit are the input and output errors that end a connection.  \<open>None\<close> is a
  panic, which ends the thread of the connection.  When the store fails within an insert, the
  batches committed before stay in the store; the model then keeps the store as it was before the
  statement, since the connection reports the error only.
\<close>

section \<open>The socket\<close>

record 'db mysql_connection =
  ms_input :: bytes
  ms_output :: bytes
  ms_room :: "nat option"
  ms_header :: bytes
  ms_buf :: bytes
  ms_capabilities :: u32
  ms_sequence_id :: u8
  ms_session :: session
  ms_catalog :: "'db catalog"

definition mysql_connection_new :: "bytes \<Rightarrow> nat option \<Rightarrow> session \<Rightarrow> 'db catalog \<Rightarrow> 'db mysql_connection" where
  "mysql_connection_new input room session self =
     \<lparr>ms_input = input, ms_output = [], ms_room = room, ms_header = [], ms_buf = [], ms_capabilities = 0, ms_sequence_id = 0,
      ms_session = session, ms_catalog = self\<rparr>"

text \<open>A result with the state after it: \<open>Inl ()\<close> is an error of the socket.\<close>

type_synonym ('db, 'a) io = "('db mysql_connection \<times> (unit + 'a)) option"

definition io_then :: "('db, 'a) io \<Rightarrow> ('a \<Rightarrow> 'db mysql_connection \<Rightarrow> ('db, 'b) io) \<Rightarrow> ('db, 'b) io" where
  "io_then m f = (case m of None \<Rightarrow> None | Some (st, Inl e) \<Rightarrow> Some (st, Inl e) | Some (st, Inr x) \<Rightarrow> f x st)"

definition write_all :: "bytes \<Rightarrow> 'db mysql_connection \<Rightarrow> 'db mysql_connection \<times> (unit + unit)" where
  "write_all bs st =
     (case ms_room st of
        None \<Rightarrow> (st\<lparr>ms_output := ms_output st @ bs\<rparr>, Inr ())
      | Some n \<Rightarrow>
          if length bs \<le> n then (st\<lparr>ms_output := ms_output st @ bs, ms_room := Some (n - length bs)\<rparr>, Inr ())
          else (st\<lparr>ms_output := ms_output st @ take n bs, ms_room := Some 0\<rparr>, Inl ()))"

definition read_exact :: "nat \<Rightarrow> 'db mysql_connection \<Rightarrow> ('db, bytes) io" where
  "read_exact n st =
     (if n \<le> length (ms_input st) then Some (st\<lparr>ms_input := drop n (ms_input st)\<rparr>, Inr (take n (ms_input st)))
      else Some (st\<lparr>ms_input := []\<rparr>, Inl ()))"

section \<open>Framing\<close>

lemma frame_smaller:
  assumes "n \<noteq> (0 :: u32)"
  shows "unat (n - min n 0xFFFFFF) < unat n"
proof -
  have "min n 0xFFFFFF \<noteq> 0" using assms by (simp add: min_def)
  then have "0 < unat (min n 0xFFFFFF)" by (simp add: unat_gt_0)
  moreover have "unat (min n 0xFFFFFF) \<le> unat n" unfolding word_le_nat_alt [symmetric] by simp
  ultimately show ?thesis by (simp add: unat_sub)
qed

function send_loop :: "u32 \<Rightarrow> bytes \<Rightarrow> 'db mysql_connection \<Rightarrow> ('db, unit) io" where
  "send_loop payload_length body st =
     (if payload_length = 0 then Some (st, Inr ())
      else
        let packet_length = min payload_length 0xFFFFFF;
            st = st\<lparr>ms_header := write_int_3 packet_length [] @ [ms_sequence_id st]\<rparr> in
        (case write_all (ms_header st) st of
           (st, Inl e) \<Rightarrow> Some (st, Inl e)
         | (st, Inr _) \<Rightarrow>
             (case split_at (unat packet_length) body of
                None \<Rightarrow> None
              | Some (part, rest) \<Rightarrow>
                  (case write_all part st of
                     (st, Inl e) \<Rightarrow> Some (st, Inl e)
                   | (st, Inr _) \<Rightarrow> send_loop (payload_length - packet_length) rest (st\<lparr>ms_sequence_id := ms_sequence_id st + 1\<rparr>)))))"
  by pat_completeness auto
termination
  by (relation "measure (\<lambda>(n, _). unat n)") (auto simp: frame_smaller)

declare send_loop.simps [simp del]

definition send_packet :: "(bytes \<Rightarrow> bytes option) \<Rightarrow> 'db mysql_connection \<Rightarrow> ('db, unit) io" where
  "send_packet f st =
     (case f [] of
        None \<Rightarrow> None
      | Some buf \<Rightarrow> send_loop (of_nat (length buf)) buf (st\<lparr>ms_buf := buf\<rparr>))"

text \<open>The header is read into the buffer that the last packet sent left behind.\<close>

definition receive_packet :: "(bytes \<Rightarrow> 'p option) \<Rightarrow> 'db mysql_connection \<Rightarrow> ('db, 'p) io" where
  "receive_packet read_packet st =
     io_then (read_exact (length (ms_header st)) st) (\<lambda>header st.
       case read_int_3 header of
         None \<Rightarrow> None
       | Some (packet_length, header_bytes) \<Rightarrow>
           (case read_int_1 header_bytes of
              None \<Rightarrow> None
            | Some (sequence_id, _) \<Rightarrow>
                io_then (read_exact (unat packet_length) (st\<lparr>ms_header := header, ms_sequence_id := sequence_id + 1\<rparr>)) (\<lambda>buf st.
                  case read_packet buf of
                    None \<Rightarrow> None
                  | Some packet \<Rightarrow> Some (st\<lparr>ms_buf := buf\<rparr>, Inr packet))))"

section \<open>The handshake\<close>

definition handshake :: "'db mysql_connection \<Rightarrow> ('db, unit) io" where
  "handshake st =
     io_then (send_packet (\<lambda>buf. Some (write_handshake_packet (connection_id (ms_session st)) buf)) st) (\<lambda>_ st.
     io_then (receive_packet read_handshake_response st) (\<lambda>response st.
     let capabilities = hr_client_flags response;
         session = (ms_session st)\<lparr>user := bytes_str (hr_username response)\<rparr>;
         session = (if hr_database response \<noteq> [] then session\<lparr>current_database := bytes_str (hr_database response)\<rparr> else session);
         st = st\<lparr>ms_capabilities := capabilities, ms_session := session\<rparr> in
     io_then (send_packet (\<lambda>buf. Some (write_auth_switch_request_packet buf)) st) (\<lambda>_ st.
     io_then (receive_packet (\<lambda>buffer. Some (fst (read_eof_string buffer))) st) (\<lambda>_ st.
       send_packet (\<lambda>buf. Some (write_ok_packet False 0 capabilities buf)) st))))"

section \<open>Queries\<close>

text \<open>The message of a query error; the text of a parse error is a parameter.\<close>

definition query_error_to_string ::
  "('d, 'db, 'it, 'h, 'n, 't, 'e) runtime_env \<Rightarrow> ('e \<Rightarrow> bytes) \<Rightarrow> ('d, 'e) query_error \<Rightarrow> bytes option" where
  "query_error_to_string r parse_text err =
     (case err of
        Query_Parse e \<Rightarrow> Some (parse_text e)
      | Query_Planner e \<Rightarrow> planner_error_to_string (r_lib r) (r_debug r) e
      | Query_Execution e \<Rightarrow> Some (execution_error_to_string e)
      | Query_Catalog e \<Rightarrow> Some (catalog_error_to_string e))"

definition send_error :: "my_error \<Rightarrow> 'db mysql_connection \<Rightarrow> ('db, unit) io" where
  "send_error err st = send_packet (\<lambda>buf. Some (write_err_packet_from_err err (ms_capabilities st) buf)) st"

fun send_times :: "nat \<Rightarrow> (bytes \<Rightarrow> bytes option) \<Rightarrow> 'db mysql_connection \<Rightarrow> ('db, unit) io" where
  "send_times 0 f st = Some (st, Inr ())"
| "send_times (Suc n) f st = io_then (send_packet f st) (\<lambda>_. send_times n f)"

fun send_columns :: "field list \<Rightarrow> 'db mysql_connection \<Rightarrow> ('db, unit) io" where
  "send_columns [] st = Some (st, Inr ())"
| "send_columns (f # fs) st =
     io_then (send_packet (\<lambda>buf. Some (write_column_packet [] (str_bytes (fd_alias f)) (fd_data_type f) (ms_capabilities st) buf)) st)
       (\<lambda>_. send_columns fs)"

definition send_header :: "field list \<Rightarrow> 'db mysql_connection \<Rightarrow> ('db, unit) io" where
  "send_header fs st =
     (if fs = [] then Some (st, Inr ())
      else
        io_then (send_packet (\<lambda>buf. Some (write_resultset_packet (length fs) (ms_capabilities st) buf)) st) (\<lambda>_ st.
        io_then (send_columns fs st) (\<lambda>_ st.
          if has_capability (ms_capabilities st) client_deprecate_eof then Some (st, Inr ())
          else send_packet (\<lambda>buf. Some (write_eof_packet (ms_capabilities st) buf)) st)))"

text \<open>\<open>executor.next()\<close>: an insert writes to the store of the catalog.\<close>

definition root_next ::
  "('d, 'db, 'it, 'h, 'n, 't, 'e) runtime_env \<Rightarrow> ('d, 'db) root_executor \<Rightarrow> 'db catalog \<Rightarrow>
     (execution_error + ('d, 'db) root_executor \<times> 'db catalog \<times> 'd row option) option" where
  "root_next r executor self =
     (case executor of
        Rows ex \<Rightarrow> map_option (map_sum id (\<lambda>(ex, row). (Rows ex, self, row))) (iter_next b_advance b_get ex)
      | Inserts ins \<Rightarrow>
          map_option (map_sum id (\<lambda>(ins, row). (Inserts ins, self\<lparr>cat_db := ti_db ins, cat_ticks := ti_ticks ins\<rparr>, row)))
            (iter_next (table_insert_advance (x_rocks (r_exec r)) (x_decimal (r_exec r)) (k_now (r_catalog r)) b_advance b_get) table_insert_get ins))"

text \<open>The loop over the rows; \<open>False\<close> says that an execution error was reported and ends the response.\<close>

partial_function (option) send_rows ::
  "('d, 'db, 'it, 'h, 'n, 't, 'e) runtime_env \<Rightarrow> field list \<Rightarrow> ('d, 'db) root_executor \<Rightarrow> 'db mysql_connection \<Rightarrow> ('db, bool) io" where
  [code]: "send_rows r fs executor st =
     (case root_next r executor (ms_catalog st) of
        None \<Rightarrow> None
      | Some (Inl err) \<Rightarrow>
          io_then (send_error \<lparr>er_code = 1, er_msg = execution_error_to_string err, er_sql_state = str_bytes ''HY000''\<rparr> st) (\<lambda>_ st. Some (st, Inr False))
      | Some (Inr (executor, self, None)) \<Rightarrow> Some (st\<lparr>ms_catalog := self\<rparr>, Inr True)
      | Some (Inr (executor, self, Some (tuple, freq))) \<Rightarrow>
          (case (if fs = [] then Some (st\<lparr>ms_catalog := self\<rparr>, Inr ())
                 else send_times (nat (sint freq)) (write_tuple_packet (r_lib r) tuple (map fd_data_type fs)) (st\<lparr>ms_catalog := self\<rparr>)) of
             None \<Rightarrow> None
           | Some (st, Inl e) \<Rightarrow> Some (st, Inl e)
           | Some (st, Inr _) \<Rightarrow> send_rows r fs executor st))"

declare send_rows.simps [simp del]

definition send_end :: "field list \<Rightarrow> 'db mysql_connection \<Rightarrow> ('db, unit) io" where
  "send_end fs st =
     (if fs = [] then send_packet (\<lambda>buf. Some (write_ok_packet False 0 (ms_capabilities st) buf)) st
      else if has_capability (ms_capabilities st) client_deprecate_eof then send_packet (\<lambda>buf. Some (write_ok_packet True 0 (ms_capabilities st) buf)) st
      else send_packet (\<lambda>buf. Some (write_eof_packet (ms_capabilities st) buf)) st)"

definition process_query_command ::
  "('d, 'db, 'it, 'h, 'n, 't, 'e) runtime_env \<Rightarrow> ('e \<Rightarrow> bytes) \<Rightarrow> bytes \<Rightarrow> 'db mysql_connection \<Rightarrow> ('db, unit) io" where
  "process_query_command r parse_text query st =
     (case execute_statement r (ms_session st) (ms_catalog st) (bytes_str query) of
        None \<Rightarrow> None
      | Some (session, self, result) \<Rightarrow>
          let st = st\<lparr>ms_session := session, ms_catalog := self\<rparr> in
          (case result of
             Inr (fs, executor) \<Rightarrow>
               io_then (send_header fs st) (\<lambda>_ st.
               io_then (send_rows r fs executor st) (\<lambda>complete st. if complete then send_end fs st else Some (st, Inr ())))
           | Inl err \<Rightarrow>
               (case query_error_to_string r parse_text err of
                  None \<Rightarrow> None
                | Some msg \<Rightarrow>
                    send_error (case err of Query_Parse _ \<Rightarrow> er_parse_error\<lparr>er_msg := msg\<rparr>
                      | _ \<Rightarrow> \<lparr>er_code = 1, er_msg = msg, er_sql_state = str_bytes ''HY000''\<rparr>) st)))"

section \<open>Commands\<close>

partial_function (option) command_loop ::
  "('d, 'db, 'it, 'h, 'n, 't, 'e) runtime_env \<Rightarrow> ('e \<Rightarrow> bytes) \<Rightarrow> 'db mysql_connection \<Rightarrow> ('db, unit) io" where
  [code]: "command_loop r parse_text st =
     (case receive_packet read_command st of
        None \<Rightarrow> None
      | Some (st, Inl e) \<Rightarrow> Some (st, Inl e)
      | Some (st, Inr command) \<Rightarrow>
          if command = ComQuit then Some (st, Inr ())
          else
            (case (case command of
                     ComPing \<Rightarrow> send_packet (\<lambda>buf. Some (write_ok_packet False 0 (ms_capabilities st) buf)) st
                   | ComInitDb schema \<Rightarrow>
                       send_packet (\<lambda>buf. Some (write_ok_packet False 0 (ms_capabilities st) buf))
                         (st\<lparr>ms_session := change_database (bytes_str schema) (ms_session st)\<rparr>)
                   | ComQuery query \<Rightarrow> process_query_command r parse_text query st
                   | _ \<Rightarrow> send_error er_unknown_com_error st) of
               None \<Rightarrow> None
             | Some (st, Inl e) \<Rightarrow> Some (st, Inl e)
             | Some (st, Inr _) \<Rightarrow> command_loop r parse_text st))"

declare command_loop.simps [simp del]

definition connect :: "('d, 'db, 'it, 'h, 'n, 't, 'e) runtime_env \<Rightarrow> ('e \<Rightarrow> bytes) \<Rightarrow> 'db mysql_connection \<Rightarrow> ('db, unit) io" where
  "connect r parse_text st = io_then (handshake st) (\<lambda>_. command_loop r parse_text)"


section \<open>What a client receives\<close>

text \<open>The bytes of a packet on the wire, cut into frames of at most 0xFFFFFF bytes with consecutive sequence ids.\<close>

function frames :: "u8 \<Rightarrow> bytes \<Rightarrow> bytes" where
  "frames seq body =
     (if body = [] then []
      else let k = min (length body) 0xFFFFFF in
        write_int_3 (of_nat k) [] @ [seq] @ take k body @ frames (seq + 1) (drop k body))"
  by pat_completeness auto
termination
  by (relation "measure (\<lambda>(_, body). length body)") (auto simp: min_def)

function frame_count :: "bytes \<Rightarrow> nat" where
  "frame_count body = (if body = [] then 0 else Suc (frame_count (drop 0xFFFFFF body)))"
  by pat_completeness auto
termination
  by (relation "measure length") auto

declare frames.simps [simp del] frame_count.simps [simp del]

fun packets_bytes :: "u8 \<Rightarrow> bytes list \<Rightarrow> bytes" where
  "packets_bytes seq [] = []"
| "packets_bytes seq (p # ps) = frames seq p @ packets_bytes (seq + of_nat (frame_count p)) ps"

lemma packets_bytes_append:
  "packets_bytes seq (ps @ qs) = packets_bytes seq ps @ packets_bytes (seq + of_nat (sum_list (map frame_count ps))) qs"
  by (induction ps arbitrary: seq) (simp_all add: add.assoc)

text \<open>A client joins frames until one is not full.\<close>

lemma reads_shorter:
  "read_int_3 buffer = Some (n, rest) \<Longrightarrow> length rest < length buffer" "read_int_1 buffer = Some (b, rest) \<Longrightarrow> length rest < length buffer"
  "split_at k buffer = Some (part, rest) \<Longrightarrow> length rest \<le> length buffer"
  by (auto simp: read_int_3_def read_int_1_def split_at_def split: if_split_asm list.split_asm)

function client_packet :: "bytes \<Rightarrow> (bytes \<times> bytes) option" where
  "client_packet buffer =
     (case read_int_3 buffer of
        None \<Rightarrow> None
      | Some (n, buffer) \<Rightarrow>
          (case read_int_1 buffer of
             None \<Rightarrow> None
           | Some (_, buffer) \<Rightarrow>
               (case split_at (unat n) buffer of
                  None \<Rightarrow> None
                | Some (part, buffer) \<Rightarrow>
                    if unat n < 0xFFFFFF then Some (part, buffer) else map_option (apfst ((@) part)) (client_packet buffer))))"
  by pat_completeness auto
termination
  by (relation "measure length") (auto dest!: reads_shorter)

declare client_packet.simps [simp del]

lemma client_frame:
  assumes "k \<le> 0xFFFFFF" "length part = k"
  shows "client_packet (write_int_3 (of_nat k) [] @ [seq] @ part @ rest) =
    (if k < 0xFFFFFF then Some (part, rest) else map_option (apfst ((@) part)) (client_packet rest))"
proof -
  have k: "unat (of_nat k :: u32) = k" using assms(1) by (simp add: unsigned_of_nat take_bit_nat_eq_self)
  then have "read_int_3 (write_int_3 (of_nat k) [] @ [seq] @ part @ rest) = Some (of_nat k, [seq] @ part @ rest)"
    using assms(1) by (intro int_3.rd_wr) simp
  then show ?thesis using assms k by (subst client_packet.simps) (simp add: read_int_1_def split_at_def)
qed

lemma frames_read:
  "length body mod 0xFFFFFF \<noteq> 0 \<Longrightarrow> client_packet (frames seq body @ rest) = Some (body, rest)"
proof (induction body arbitrary: seq rule: measure_induct_rule [where f = length])
  case (less body)
  have body: "body \<noteq> []" using less.prems by auto
  show ?case
  proof (cases "length body < 0xFFFFFF")
    case True
    then show ?thesis using client_frame [of "length body" body seq rest] body
      by (subst frames.simps) (simp add: min_def Let_def frames.simps [of _ "[]"])
  next
    case False
    then have "length (drop 0xFFFFFF body) mod 0xFFFFFF \<noteq> 0" using less.prems by (simp add: le_mod_geq)
    then have "client_packet (frames (seq + 1) (drop 0xFFFFFF body) @ rest) = Some (drop 0xFFFFFF body, rest)"
      using body by (intro less.IH) simp_all
    moreover have "min (length body) 0xFFFFFF = 0xFFFFFF" using False by (simp add: min_absorb2)
    ultimately show ?thesis using client_frame [of "0xFFFFFF" "take 0xFFFFFF body" seq "frames (seq + 1) (drop 0xFFFFFF body) @ rest"] body
      by (subst frames.simps) (simp add: Let_def)
  qed
qed

text \<open>A packet that fills its last frame is not ended: the client waits for another frame.\<close>

lemma full_frame_unended:
  assumes "length body = 0xFFFFFF"
  shows "client_packet (frames seq body) = None"
  using client_frame [where k = "0xFFFFFF" and part = body and seq = seq and rest = "[]"] assms
  by (subst frames.simps) (auto simp: frames.simps [of _ "[]"] client_packet.simps [of "[]"] read_int_3_def split_at_def Let_def)

fun client_packets :: "nat \<Rightarrow> bytes \<Rightarrow> (bytes list \<times> bytes) option" where
  "client_packets 0 buffer = Some ([], buffer)"
| "client_packets (Suc n) buffer = Option.bind (client_packet buffer) (\<lambda>(p, buffer). map_option (apfst (Cons p)) (client_packets n buffer))"

lemma client_packets_read:
  "list_all (\<lambda>p. length p mod 0xFFFFFF \<noteq> 0) ps \<Longrightarrow> client_packets (length ps) (packets_bytes seq ps @ rest) = Some (ps, rest)"
  by (induction ps arbitrary: seq) (simp_all add: frames_read)


section \<open>Sending packets\<close>

text \<open>The effect of sending packets over a socket without a limit.\<close>

definition sends :: "bytes list \<Rightarrow> 'db mysql_connection \<Rightarrow> 'db mysql_connection \<Rightarrow> bool" where
  "sends ps st st' \<longleftrightarrow> ms_output st' = ms_output st @ packets_bytes (ms_sequence_id st) ps \<and>
     ms_sequence_id st' = ms_sequence_id st + of_nat (sum_list (map frame_count ps)) \<and> ms_input st' = ms_input st \<and> ms_room st' = ms_room st \<and>
     ms_capabilities st' = ms_capabilities st \<and> ms_session st' = ms_session st \<and> ms_catalog st' = ms_catalog st \<and>
     (length (ms_header st) = 4 \<longrightarrow> length (ms_header st') = 4)"

lemma sends_Nil [simp]: "sends [] st st"
  by (simp add: sends_def)

lemma sends_append: "sends ps st st1 \<Longrightarrow> sends qs st1 st2 \<Longrightarrow> sends (ps @ qs) st st2"
  by (simp add: sends_def packets_bytes_append add.assoc)

lemma sends_keeps: "sends ps st st' \<Longrightarrow> ms_room st' = ms_room st \<and> ms_capabilities st' = ms_capabilities st \<and> ms_catalog st' = ms_catalog st \<and> ms_session st' = ms_session st"
  by (simp add: sends_def)

lemma send_loop_frames:
  assumes "ms_room st = None" "length body < 2 ^ 32"
  shows "\<exists>st'. send_loop (of_nat (length body)) body st = Some (st', Inr ()) \<and>
    ms_output st' = ms_output st @ frames (ms_sequence_id st) body \<and> ms_sequence_id st' = ms_sequence_id st + of_nat (frame_count body) \<and>
    ms_input st' = ms_input st \<and> ms_room st' = None \<and> ms_capabilities st' = ms_capabilities st \<and> ms_session st' = ms_session st \<and> ms_catalog st' = ms_catalog st \<and>
    (length (ms_header st) = 4 \<longrightarrow> length (ms_header st') = 4)"
  using assms
proof (induction body arbitrary: st rule: measure_induct_rule [where f = length])
  case (less body)
  show ?case
  proof (cases "body = []")
    case True
    then show ?thesis using less.prems by (simp add: send_loop.simps frames.simps frame_count.simps)
  next
    case False
    let ?n = "of_nat (length body) :: u32" and ?k = "min (length body) 0xFFFFFF"
    have n: "unat ?n = length body" using less.prems(2) by (simp add: unsigned_of_nat take_bit_nat_eq_self)
    then have "?n \<noteq> 0" using False by (metis length_0_conv unat_0)
    have k: "min ?n 0xFFFFFF = of_nat ?k"
    proof (cases "length body \<le> 0xFFFFFF")
      case True
      then have "?n \<le> 0xFFFFFF" by (simp add: word_le_nat_alt n)
      then show ?thesis using True by (simp add: min_absorb1)
    next
      case False
      then have "0xFFFFFF \<le> ?n" by (simp add: word_le_nat_alt n)
      then show ?thesis using False by (simp add: min_absorb2)
    qed
    have u: "unat (of_nat ?k :: u32) = ?k" using less.prems(2) by (simp add: unsigned_of_nat take_bit_nat_eq_self min_def)
    have rest: "?n - of_nat ?k = of_nat (length (drop ?k body))" by simp
    have drop: "drop ?k body = drop 0xFFFFFF body" by (simp add: min_def)
    let ?header = "write_int_3 (of_nat ?k) [] @ [ms_sequence_id st]"
    let ?st = "st\<lparr>ms_header := ?header, ms_output := (ms_output st @ ?header) @ take ?k body, ms_sequence_id := ms_sequence_id st + 1\<rparr>"
    have "send_loop ?n body st = send_loop (of_nat (length (drop ?k body))) (drop ?k body) ?st"
      using less.prems(1) \<open>?n \<noteq> 0\<close> u by (subst send_loop.simps) (simp add: k rest Let_def write_all_def split_at_def del: length_drop of_nat_diff)
    moreover have "length (drop ?k body) < length body" "ms_room ?st = None" "length (drop ?k body) < 2 ^ 32" using less.prems False by (auto simp: min_def)
    then obtain st' where "send_loop (of_nat (length (drop ?k body))) (drop ?k body) ?st = Some (st', Inr ())"
      "ms_output st' = ms_output ?st @ frames (ms_sequence_id ?st) (drop ?k body)"
      "ms_sequence_id st' = ms_sequence_id ?st + of_nat (frame_count (drop ?k body))" "ms_input st' = ms_input ?st"
      "ms_room st' = None" "ms_capabilities st' = ms_capabilities ?st" "ms_session st' = ms_session ?st" "ms_catalog st' = ms_catalog ?st"
      "length (ms_header ?st) = 4 \<longrightarrow> length (ms_header st') = 4"
      using less.IH [of "drop ?k body" ?st] by blast
    moreover have "length ?header = 4" by (simp add: write_int_3_def)
    ultimately show ?thesis using False frames.simps [of "ms_sequence_id st" body] frame_count.simps [of body] drop
      by (intro exI [of _ st']) (simp add: Let_def)
  qed
qed


lemma send_packet_sends:
  assumes "ms_room st = None" "f [] = Some p" "length p < 2 ^ 32"
  shows "\<exists>st'. send_packet f st = Some (st', Inr ()) \<and> sends [p] st st'"
  using send_loop_frames [of "st\<lparr>ms_buf := p\<rparr>" p] assms by (auto simp: send_packet_def sends_def)

text \<open>An action that sends the given packets.\<close>

definition sending :: "('db mysql_connection \<Rightarrow> ('db, 'a) io) \<Rightarrow> 'db mysql_connection \<Rightarrow> 'a \<Rightarrow> bytes list \<Rightarrow> bool" where
  "sending act st x ps \<longleftrightarrow> (\<exists>st'. act st = Some (st', Inr x) \<and> sends ps st st')"

lemma sending_then:
  assumes "sending act st x ps" "\<And>st'. sends ps st st' \<Longrightarrow> sending (cont x) st' y qs"
  shows "sending (\<lambda>st. io_then (act st) cont) st y (ps @ qs)"
proof -
  obtain st1 where st1: "act st = Some (st1, Inr x)" "sends ps st st1" using assms(1) by (auto simp: sending_def)
  obtain st2 where "cont x st1 = Some (st2, Inr y)" "sends qs st1 st2" using assms(2) [OF st1(2)] by (auto simp: sending_def)
  then show ?thesis using st1 sends_append [OF st1(2)] by (auto simp: sending_def io_then_def)
qed

lemma sending_nothing: "sending (\<lambda>st. Some (st, Inr x)) st x []"
  by (simp add: sending_def)

lemma sending_packet: "ms_room st = None \<Longrightarrow> f [] = Some p \<Longrightarrow> length p < 2 ^ 32 \<Longrightarrow> sending (send_packet f) st () [p]"
  using send_packet_sends by (simp add: sending_def)

lemma sending_times: "ms_room st = None \<Longrightarrow> f [] = Some p \<Longrightarrow> length p < 2 ^ 32 \<Longrightarrow> sending (send_times n f) st () (replicate n p)"
proof (induction n arbitrary: st)
  case (Suc n)
  have "sending (\<lambda>st. io_then (send_packet f st) (\<lambda>_. send_times n f)) st () ([p] @ replicate n p)"
    by (rule sending_then [OF sending_packet [where f = f, OF Suc.prems]], rule Suc.IH) (use Suc.prems in \<open>auto dest: sends_keeps\<close>)
  then show ?case by simp
qed (simp add: sending_def)

definition column_packet :: "u32 \<Rightarrow> field \<Rightarrow> bytes" where
  "column_packet capabilities f = write_column_packet [] (str_bytes (fd_alias f)) (fd_data_type f) capabilities []"

lemma sending_columns:
  "ms_room st = None \<Longrightarrow> ms_capabilities st = c \<Longrightarrow> list_all (\<lambda>f. length (column_packet c f) < 2 ^ 32) fs \<Longrightarrow>
    sending (send_columns fs) st () (map (column_packet c) fs)"
proof (induction fs arbitrary: st)
  case (Cons f fs)
  have p: "sending (send_packet (\<lambda>buf. Some (write_column_packet [] (str_bytes (fd_alias f)) (fd_data_type f) c buf))) st () [column_packet c f]"
    using Cons.prems by (intro sending_packet) (simp_all add: column_packet_def)
  have "sending (\<lambda>st. io_then (send_packet (\<lambda>buf. Some (write_column_packet [] (str_bytes (fd_alias f)) (fd_data_type f) c buf)) st) (\<lambda>_. send_columns fs))
      st () ([column_packet c f] @ map (column_packet c) fs)"
    by (rule sending_then [OF p], rule Cons.IH) (use Cons.prems in \<open>auto dest: sends_keeps\<close>)
  then show ?case using Cons.prems(2) by (simp add: sending_def)
qed (simp add: sending_def)


definition header_packets :: "u32 \<Rightarrow> field list \<Rightarrow> bytes list" where
  "header_packets c fs = write_resultset_packet (length fs) c [] # map (column_packet c) fs @
     (if has_capability c client_deprecate_eof then [] else [write_eof_packet c []])"

definition end_packet :: "u32 \<Rightarrow> bytes" where
  "end_packet c = (if has_capability c client_deprecate_eof then write_ok_packet True 0 c [] else write_eof_packet c [])"

definition row_packets :: "('d, 'n, 't) function_lib \<Rightarrow> field list \<Rightarrow> 'd row list \<Rightarrow> bytes list" where
  "row_packets L fs rows =
     concat (map (\<lambda>(tuple, freq). replicate (nat (sint freq)) (the (write_tuple_packet L tuple (map fd_data_type fs) []))) rows)"

text \<open>The small packets.\<close>

lemma enc_int_length: "length (write_enc_int i []) \<le> 9"
  by (simp add: write_enc_int_def write_int_2_def write_int_3_def)

lemma small_packets:
  "length (write_resultset_packet n c []) < 2 ^ 32" "length (write_eof_packet c []) < 2 ^ 32" "length (write_ok_packet b 0 c []) < 2 ^ 32"
proof -
  have enc: "length (write_enc_int i buffer) \<le> length buffer + 9" for i buffer
    using enc_int_length [of i] by (simp add: write_enc_int_append [of i buffer])
  show "length (write_resultset_packet n c []) < 2 ^ 32" using enc [of "of_nat n" "[]"] enc [of "of_nat n" "[1]"]
    by (simp add: write_resultset_packet_def write_int_1_def Let_def)
  show "length (write_eof_packet c []) < 2 ^ 32" by (simp add: write_eof_packet_def write_int_1_def write_int_2_def Let_def)
  show "length (write_ok_packet b 0 c []) < 2 ^ 32"
    by (simp add: write_ok_packet_def write_int_1_def write_int_2_def write_enc_int_def write_null_string_def write_eof_string_def Let_def)
qed

lemma sending_header:
  assumes "ms_room st = None" "ms_capabilities st = c" "list_all (\<lambda>f. length (column_packet c f) < 2 ^ 32) fs" "fs \<noteq> []"
  shows "sending (send_header fs) st () (header_packets c fs)"
proof -
  let ?eof = "if has_capability c client_deprecate_eof then [] else [write_eof_packet c []]"
  let ?last = "\<lambda>_ st. if has_capability (ms_capabilities st) client_deprecate_eof then Some (st, Inr ())
          else send_packet (\<lambda>buf. Some (write_eof_packet (ms_capabilities st) buf)) st"
  have last: "sending (?last u) st () ?eof" if "ms_room st = None" "ms_capabilities st = c" for st :: "'a mysql_connection" and u :: unit
    using that sending_packet [of st "\<lambda>buf. Some (write_eof_packet c buf)"] small_packets(2) [of c] by (simp add: sending_def)
  have columns: "sending (\<lambda>st. io_then (send_columns fs st) ?last) st () (map (column_packet c) fs @ ?eof)"
    if "ms_room st = None" "ms_capabilities st = c" for st :: "'a mysql_connection"
    by (rule sending_then [OF sending_columns [OF that assms(3)]], rule last) (use that in \<open>auto dest: sends_keeps\<close>)
  have "sending (\<lambda>st. io_then (send_packet (\<lambda>buf. Some (write_resultset_packet (length fs) c buf)) st) (\<lambda>_ st. io_then (send_columns fs st) ?last))
      st () ([write_resultset_packet (length fs) c []] @ map (column_packet c) fs @ ?eof)"
    by (rule sending_then [OF sending_packet [where f = "\<lambda>buf. Some (write_resultset_packet (length fs) c buf)", OF assms(1) refl small_packets(1)]], rule columns) (use assms in \<open>auto dest: sends_keeps\<close>)
  then show ?thesis using assms(2,4) by (simp add: sending_def send_header_def header_packets_def)
qed

lemma sending_rows:
  assumes "yields b_advance b_get ex rows" "ms_room st = None" "fs \<noteq> []"
    "\<forall>row \<in> set rows. \<exists>p. write_tuple_packet (r_lib r) (fst row) (map fd_data_type fs) [] = Some p \<and> length p < 2 ^ 32"
  shows "sending (send_rows r fs (Rows ex)) st True (row_packets (r_lib r) fs rows)"
  using assms(1,2,4)
proof (induction arbitrary: st rule: yields.induct)
  case (yields_end ex ex')
  then show ?case by (simp add: sending_def send_rows.simps root_next_def iter_next_def row_packets_def)
next
  case (yields_row ex ex' row rows)
  obtain tuple freq where row: "row = (tuple, freq)" by (cases row)
  obtain p where p: "write_tuple_packet (r_lib r) tuple (map fd_data_type fs) [] = Some p" "length p < 2 ^ 32" using yields_row.prems(2) row by auto
  have "sending (\<lambda>st. io_then (send_times (nat (sint freq)) (write_tuple_packet (r_lib r) tuple (map fd_data_type fs)) st) (\<lambda>_. send_rows r fs (Rows ex')))
      st True (replicate (nat (sint freq)) p @ row_packets (r_lib r) fs rows)"
    by (rule sending_then [OF sending_times [where f = "write_tuple_packet (r_lib r) tuple (map fd_data_type fs)", OF yields_row.prems(1) p]], rule yields_row.IH) (use yields_row.prems in \<open>auto dest: sends_keeps\<close>)
  moreover have "send_rows r fs (Rows ex) st =
      io_then (send_times (nat (sint freq)) (write_tuple_packet (r_lib r) tuple (map fd_data_type fs)) st) (\<lambda>_. send_rows r fs (Rows ex'))"
    using yields_row.hyps(1,2) row assms(3) by (subst send_rows.simps) (simp add: root_next_def iter_next_def io_then_def)
  ultimately show ?case using p(1) row by (simp add: sending_def row_packets_def)
qed


definition response_packets :: "('d, 'n, 't) function_lib \<Rightarrow> u32 \<Rightarrow> field list \<Rightarrow> 'd row list \<Rightarrow> bytes list" where
  "response_packets L c fs rows = header_packets c fs @ row_packets L fs rows @ [end_packet c]"

lemma sending_end:
  assumes "ms_room st = None" "ms_capabilities st = c" "fs \<noteq> []"
  shows "sending (send_end fs) st () [end_packet c]"
  using assms small_packets(2) [of c] small_packets(3) [of True c]
    sending_packet [of st "\<lambda>buf. Some (write_ok_packet True 0 c buf)"] sending_packet [of st "\<lambda>buf. Some (write_eof_packet c buf)"]
  by (simp add: sending_def send_end_def end_packet_def)

lemma query_sends:
  assumes room: "ms_room st = None" and c: "ms_capabilities st = c"
    and executed: "execute_statement r (ms_session st) (ms_catalog st) (bytes_str query) = Some (session, self, Inr (fs, Rows ex))"
    and fs: "fs \<noteq> []" "list_all (\<lambda>f. length (column_packet c f) < 2 ^ 32) fs" and rows: "yields b_advance b_get ex rows"
    and printed: "\<forall>row \<in> set rows. \<exists>p. write_tuple_packet (r_lib r) (fst row) (map fd_data_type fs) [] = Some p \<and> length p < 2 ^ 32"
  shows "\<exists>st'. process_query_command r parse_text query st = Some (st', Inr ()) \<and>
    sends (response_packets (r_lib r) c fs rows) (st\<lparr>ms_session := session, ms_catalog := self\<rparr>) st'"
proof -
  let ?st = "st\<lparr>ms_session := session, ms_catalog := self\<rparr>"
  let ?rest = "\<lambda>complete st. if complete then send_end fs st else Some (st, Inr ())"
  have "sending (\<lambda>st. io_then (send_rows r fs (Rows ex) st) ?rest) st () (row_packets (r_lib r) fs rows @ [end_packet c])"
    if st: "ms_room st = None" "ms_capabilities st = c" for st :: "'a mysql_connection"
  proof (rule sending_then [OF sending_rows [OF rows st(1) fs(1) printed]])
    fix st' assume "sends (row_packets (r_lib r) fs rows) st st'"
    then have "ms_room st' = None" "ms_capabilities st' = c" using st by (auto dest: sends_keeps)
    then show "sending (?rest True) st' () [end_packet c]" using sending_end [OF _ _ fs(1)] by simp
  qed
  then have "sending (\<lambda>st. io_then (send_header fs st) (\<lambda>_ st. io_then (send_rows r fs (Rows ex) st) ?rest)) ?st ()
      (header_packets c fs @ row_packets (r_lib r) fs rows @ [end_packet c])"
    using room c fs by (intro sending_then [OF sending_header]) (auto dest: sends_keeps)
  then show ?thesis by (simp add: sending_def process_query_command_def executed response_packets_def)
qed

section \<open>Receiving packets\<close>

text \<open>A packet of one frame is received as it was sent; the sequence continues with the next number.\<close>

lemma receive_frame:
  assumes "length (ms_header st) = 4" "length body < 2 ^ 24" "ms_input st = write_int_3 (of_nat (length body)) [] @ [seq] @ body @ rest"
    "read_packet body = Some packet"
  shows "\<exists>st'. receive_packet read_packet st = Some (st', Inr packet) \<and> ms_input st' = rest \<and> ms_sequence_id st' = seq + 1 \<and>
    length (ms_header st') = 4 \<and> ms_session st' = ms_session st \<and> ms_catalog st' = ms_catalog st \<and> ms_capabilities st' = ms_capabilities st \<and>
    ms_room st' = ms_room st \<and> ms_output st' = ms_output st"
proof -
  have n: "unat (of_nat (length body) :: u32) = length body" using assms(2) by (simp add: unsigned_of_nat take_bit_nat_eq_self)
  have header: "length (write_int_3 (of_nat (length body)) []) = 3" by (simp add: write_int_3_def)
  have "read_int_3 (write_int_3 (of_nat (length body)) [] @ [seq]) = Some (of_nat (length body), [seq])"
    using assms(2) n by (intro int_3.rd_wr) simp
  then show ?thesis using assms n header
    by (simp add: receive_packet_def read_exact_def io_then_def read_int_1_def)
qed


definition client_frame_of :: "u8 \<Rightarrow> bytes \<Rightarrow> bytes" where
  "client_frame_of seq body = write_int_3 (of_nat (length body)) [] @ [seq] @ body"

text \<open>C7. A conversation: a client sends a query and then quits.  When the statement has an executor that yields some
  rows, the server answers without a panic, and a client that joins the frames of the output reads the number of columns,
  the description of each column, every row as often as its frequency says, in order, and the end of the result,
  provided that no packet fills its last frame; then the connection ends, with the session and the catalog
  after the statement.\<close>

theorem query_conversation:
  assumes room: "ms_room st = None" and c: "ms_capabilities st = c" and header: "length (ms_header st) = 4"
    and input: "ms_input st = client_frame_of seq (3 # query) @ client_frame_of seq' [1] @ rest" "length query < 2 ^ 24 - 1"
    and executed: "execute_statement r (ms_session st) (ms_catalog st) (bytes_str query) = Some (session, self, Inr (fs, Rows ex))"
    and fs: "fs \<noteq> []" "list_all (\<lambda>f. length (column_packet c f) < 2 ^ 32) fs" and rows: "yields b_advance b_get ex rows"
    and printed: "\<forall>row \<in> set rows. \<exists>p. write_tuple_packet (r_lib r) (fst row) (map fd_data_type fs) [] = Some p \<and> length p < 2 ^ 32"
    and ends: "list_all (\<lambda>p. length p mod 0xFFFFFF \<noteq> 0) (response_packets (r_lib r) c fs rows)"
  shows "\<exists>st' sent. command_loop r parse_text st = Some (st', Inr ()) \<and> ms_output st' = ms_output st @ sent \<and>
    client_packets (length (response_packets (r_lib r) c fs rows)) sent = Some (response_packets (r_lib r) c fs rows, []) \<and>
    ms_session st' = session \<and> ms_catalog st' = self \<and> ms_input st' = rest"
proof -
  obtain st1 where st1: "receive_packet read_command st = Some (st1, Inr (ComQuery query))" "ms_input st1 = client_frame_of seq' [1] @ rest"
    "length (ms_header st1) = 4" "ms_session st1 = ms_session st" "ms_catalog st1 = ms_catalog st" "ms_capabilities st1 = c" "ms_room st1 = None"
    "ms_output st1 = ms_output st"
    using receive_frame [of st "3 # query" seq "client_frame_of seq' [1] @ rest" read_command "ComQuery query"] room c header input
    by (auto simp: client_frame_of_def read_command_def read_eof_string_def)
  obtain st2 where st2: "process_query_command r parse_text query st1 = Some (st2, Inr ())"
    "sends (response_packets (r_lib r) c fs rows) (st1\<lparr>ms_session := session, ms_catalog := self\<rparr>) st2"
    using query_sends [OF st1(7,6) _ fs rows printed, of query session self] executed st1(4,5) by auto
  have keeps: "ms_input st2 = client_frame_of seq' [1] @ rest" "length (ms_header st2) = 4" "ms_session st2 = session" "ms_catalog st2 = self"
    "ms_output st2 = ms_output st @ packets_bytes (ms_sequence_id st1) (response_packets (r_lib r) c fs rows)"
    using st2(2) st1(2,3,8) by (auto simp: sends_def)
  obtain st3 where st3: "receive_packet read_command st2 = Some (st3, Inr ComQuit)" "ms_input st3 = rest" "ms_session st3 = session" "ms_catalog st3 = self"
    "ms_output st3 = ms_output st2"
    using receive_frame [of st2 "[1]" seq' rest read_command ComQuit] keeps by (auto simp: client_frame_of_def read_command_def)
  have "command_loop r parse_text st = Some (st3, Inr ())"
    by (subst command_loop.simps) (simp add: st1(1) st2(1), subst command_loop.simps, simp add: st3(1))
  then show ?thesis using st3 keeps client_packets_read [OF ends, of "ms_sequence_id st1" "[]"] by auto
qed

section \<open>An example\<close>

lemma example_executed:
  "\<exists>ex. execute_statement example_runtime_env (session_new 1) \<lparr>cat_db = [], cat_ticks = 0\<rparr> ''select 1 where true'' =
      Some (session_new 1, \<lparr>cat_db = [], cat_ticks = 0\<rparr>, Inr ([\<lparr>fd_qualifier = None, fd_alias = ''_col1'', fd_data_type = T_Integer\<rparr>], Rows ex)) \<and>
    yields b_advance b_get ex [([D_Integer 1], 1)]"
proof -
  let ?plan = "PIT_Project [Constant (D_Integer 1) T_Integer] PIT_Single" and ?r = example_runtime_env
  have env: "r_exec ?r = example_env" "x_decimal example_env = ref_decimal_ops" "x_rocks example_env = ref_rocks" "x_iteration example_env l = l"
    "r_lib ?r = example_lib" "r_depth ?r = 0" "r_fuel ?r = 0" "r_parse ?r ''select 1 where true'' = Inr (S_Query example_query)" for l
    by (simp_all add: example_runtime_env_def example_env_def)
  have "plan_ok example_env (session_new 1) (map_of []) (\<lambda>_. []) ?plan" by simp
  from plan_executes [of example_env, unfolded env, OF ref_rocks_laws ref_decimal_laws refl this]
  obtain ex out where ex: "build_executor example_env (session_new 1) [] ?plan = Some ex" "yields b_advance b_get ex out"
    "plan_out example_env (session_new 1) (\<lambda>_. []) ?plan out" by (rule executesE)
  then have "out = [([D_Integer 1], 1)]" by simp
  then show ?thesis using ex by (subst execute_statement.simps) (simp add: env execute_operator_def example_planned)
qed


abbreviation example_field :: field where
  "example_field \<equiv> \<lparr>fd_qualifier = None, fd_alias = ''_col1'', fd_data_type = T_Integer\<rparr>"

lemma example_row: "write_tuple_packet example_lib [D_Integer 1] [T_Integer] [] = Some [1, 49]"
  by (simp add: write_tuple_packet_def typed_to_string_def int_to_string_def nat_digits.simps write_enc_string_def write_enc_int_def write_eof_string_def)

lemma example_column:
  "column_packet 0x200 example_field =
    [3, 100, 101, 102, 0, 0, 0, 5, 95, 99, 111, 108, 49, 0, 12, 33, 0, 0, 4, 0, 0, 3, 0, 0, 0, 0, 0]"
  by code_simp

lemma example_resultset: "write_resultset_packet (Suc 0) 0x200 [] = [1]"
  by code_simp

lemma example_eof: "write_eof_packet 0x200 [] = [254, 0, 0, 2, 0]"
  by code_simp

lemmas example_packets = example_row example_column example_resultset example_eof

lemma example_response:
  "response_packets example_lib 0x200 [example_field] [([D_Integer 1], 1)] =
    [[1], [3, 100, 101, 102, 0, 0, 0, 5, 95, 99, 111, 108, 49, 0, 12, 33, 0, 0, 4, 0, 0, 3, 0, 0, 0, 0, 0], [254, 0, 0, 2, 0], [1, 49],
     [254, 0, 0, 2, 0]]"
  by (simp add: response_packets_def header_packets_def row_packets_def end_packet_def example_packets has_capability_def client_deprecate_eof_def)

definition example_connection :: "ref_db mysql_connection" where
  "example_connection = (mysql_connection_new (client_frame_of 0 (3 # str_bytes ''select 1 where true'') @ client_frame_of 0 [1]) None (session_new 1)
     \<lparr>cat_db = [], cat_ticks = 0\<rparr>)\<lparr>ms_header := [0, 0, 0, 0], ms_capabilities := 0x200\<rparr>"

theorem query_conversation_witness:
  "\<exists>st' sent. command_loop example_runtime_env (\<lambda>_. []) example_connection = Some (st', Inr ()) \<and>
    ms_output st' = ms_output example_connection @ sent \<and> client_packets 5 sent = Some
      ([[1], [3, 100, 101, 102, 0, 0, 0, 5, 95, 99, 111, 108, 49, 0, 12, 33, 0, 0, 4, 0, 0, 3, 0, 0, 0, 0, 0], [254, 0, 0, 2, 0], [1, 49],
        [254, 0, 0, 2, 0]], []) \<and>
    ms_session st' = session_new 1 \<and> ms_catalog st' = \<lparr>cat_db = [], cat_ticks = 0\<rparr> \<and> ms_input st' = []"
proof -
  obtain ex where ex: "execute_statement example_runtime_env (session_new 1) \<lparr>cat_db = [], cat_ticks = 0\<rparr> ''select 1 where true'' =
      Some (session_new 1, \<lparr>cat_db = [], cat_ticks = 0\<rparr>, Inr ([example_field], Rows ex))" "yields b_advance b_get ex [([D_Integer 1], 1)]"
    using example_executed by blast
  have five: "length (response_packets example_lib 0x200 [example_field] [([D_Integer 1], 1)]) = 5" by (simp add: example_response)
  have env: "r_lib example_runtime_env = example_lib" by (simp add: example_runtime_env_def)
  have connection: "ms_room example_connection = None" "ms_capabilities example_connection = 0x200" "length (ms_header example_connection) = 4"
    "ms_input example_connection = client_frame_of 0 (3 # str_bytes ''select 1 where true'') @ client_frame_of 0 [1] @ []"
    "ms_session example_connection = session_new 1" "ms_catalog example_connection = \<lparr>cat_db = [], cat_ticks = 0\<rparr>"
    by (simp_all add: example_connection_def mysql_connection_new_def)
  have query: "bytes_str (str_bytes ''select 1 where true'') = ''select 1 where true''" by code_simp
  then have executed: "execute_statement example_runtime_env (ms_session example_connection) (ms_catalog example_connection)
      (bytes_str (str_bytes ''select 1 where true'')) = Some (session_new 1, \<lparr>cat_db = [], cat_ticks = 0\<rparr>, Inr ([example_field], Rows ex))"
    using ex(1) connection by simp
  have "length (str_bytes ''select 1 where true'') < 2 ^ 24 - 1" by (simp add: str_bytes_def)
  from query_conversation [OF connection(1-4) this executed _ _ ex(2), where parse_text = "\<lambda>_. []", unfolded env, unfolded five, unfolded example_response]
  show ?thesis by (simp add: example_packets del: client_packets.simps)
qed

end
