(* ===== verification/Spec2Isabelle.thy ===== *)
theory Spec2Isabelle
  imports Rewriting Mysql_Server
begin

text \<open>
  A verification library for incresql, an incremental SQL database in Rust.

  \<^bold>\<open>The program.\<close>  A client of the server (\<open>server\<close>) speaks the MySQL protocol with one connection of the runtime
  (\<open>runtime\<close>), which parses each statement (\<open>parser\<close>) into the syntax trees of \<open>ast\<close>.  Data definition statements
  change the catalog (\<open>catalog\<close>), which keeps databases, tables and views as rows of three system tables.
  Queries go through the planner (\<open>planner\<close>): validation resolves tables, columns and functions (\<open>functions\<close>)
  against the catalog and the registry, optimisation rewrites the query, and the result becomes a point in time plan.
  The executor (\<open>executor\<close>) turns the plan into a tree of streaming iterators over tables.  A table
  (\<open>storage\<close>) is a range of keys of an ordered key value store: each row has one index key, with the newest version
  and the history of frequencies behind it, so that a scan can read the table as of any timestamp.  Keys and rows
  are byte strings in an order preserving encoding of values (\<open>data\<close>).

  \<^bold>\<open>Conventions.\<close>  A Rust function is a HOL function with the state it changes passed and returned; \<open>None\<close> is a panic and
  a sum with the error on the left is a \<open>Result\<close>.  Machine integers are words and wrap as in a release build.
  Byte strings are lists of bytes; strings of the syntax trees are HOL strings.  An iterator is a pair of an advance
  and a get function, and \<open>yields\<close> relates its state to the list of rows it delivers before it ends: every statement
  about \<open>yields\<close> is one of termination, too.

  \<^bold>\<open>Theories and sources.\<close>
  \<^item> \<open>Prelude\<close>: bytes, big and little endian numbers, the lexicographic order of byte strings.
  \<^item> \<open>Encoding_Core\<close>, \<open>Decimal_Encoding\<close>, \<open>Sortable\<close> (\<open>data/src/encoding_core.rs\<close>): the sortable encodings of
    integers, byte strings and decimals; the contract of \<open>SortableEncoding\<close> is a locale that each encoding interprets,
    with round trips and the preservation of order in both directions.
  \<^item> \<open>Datum\<close>, \<open>Encoding_Datum\<close> (\<open>data/src/datum.rs\<close>, \<open>datatype.rs\<close>, \<open>encoding_datum.rs\<close>): the values, their
    equality, order and hash, and the encoding of rows.
  \<^item> \<open>Json\<close>, \<open>Json_Path\<close> (\<open>data/src/json.rs\<close>, \<open>json_serde.rs\<close>, \<open>jsonpath_utils.rs\<close>): JSON tapes and the evaluation of
    paths over them, refined from trees; \<open>Ascii\<close>: the parts of \<open>str\<close> the functions use.
  \<^item> \<open>Tuple_Iter\<close> (\<open>data/src/tuple_iter.rs\<close>): iterators and the peekable wrapper.
  \<^item> \<open>Storage\<close> (\<open>storage/src/storage.rs\<close>): the laws of the key value store, the merge operator and the compaction filter.
    \<open>Table_Store\<close>, \<open>Table_Mvcc\<close>, \<open>Table_Range\<close> (\<open>storage/src/table.rs\<close>): the layout of a table, the writer, full and
    range scans; \<open>table_holds\<close> says that a store represents a sequence of timestamped writes, and the scans
    return its snapshots.
  \<^item> \<open>Expr\<close>, \<open>Executors\<close>, \<open>Sort_Executor\<close>, \<open>Aggregate_Expr\<close>, \<open>Group_Executors\<close>, \<open>Hash_Join\<close>, \<open>Table_Insert\<close>, \<open>File_Scan\<close>, \<open>Plan\<close>
    (\<open>executor/src\<close>, \<open>ast/src/expr.rs\<close>, \<open>ast/src/rel/point_in_time.rs\<close>): expressions, every executor, and the
    executor of a plan, with the relational reading \<open>plan_out\<close> that it refines.
  \<^item> \<open>Functions_Aggregate\<close>, \<open>Functions_Scalar\<close>, \<open>Registry\<close> (\<open>functions/src\<close>): the functions, their registration and
    the resolution of overloaded calls.
  \<^item> \<open>Planner_Expr\<close>, \<open>Logical\<close>, \<open>Validation\<close>, \<open>Optimization\<close>, \<open>Rewriting\<close> (\<open>planner/src\<close>, \<open>ast/src/rel/logical.rs\<close>):
    compilation of expressions, logical queries, the passes of validation, the rewriting phases and the point in
    time plan; validated queries are well typed, and folding, pushdown and the collapsing of projections
    keep the rows of a query.
  \<^item> \<open>Explain\<close> (\<open>planner/src/explain\<close>, printing in \<open>ast/src/expr.rs\<close>): queries printed as tables.
  \<^item> \<open>Catalog\<close>, \<open>Catalog_Logs\<close>, \<open>Catalog_Refinement\<close> (\<open>catalog/src\<close>): the operations of the catalog, the system tables as
    logs of writes, and the refinement of an abstract catalog (a set of names and a map of items).
  \<^item> \<open>Runtime\<close> (\<open>runtime/src\<close>): connections and the execution of statements; \<open>Error_Messages\<close> (\<open>error.rs\<close> of each crate): the
    texts of errors.
  \<^item> \<open>Mysql_Protocol\<close> (\<open>server/src/mysql/protocol_base.rs\<close>, \<open>constants.rs\<close>, \<open>packets.rs\<close>): the integers, strings and packets of
    the protocol; the contract of a writer with its reader is a locale that each of them interprets.
    \<open>Mysql_Server\<close> (\<open>server/src/mysql/mod.rs\<close>): framing, the handshake, the commands and the response to a query, with what a
    client that joins the frames reads.

  \<^bold>\<open>Properties that span components\<close> stand in this theory (an insert of a query, from the plan to a later scan) and in
  \<open>Runtime\<close> (statements over the planner, the executors, the catalog and the store) and \<open>Mysql_Server\<close> (a conversation
  from the bytes of a query to the bytes of its rows).

  \<^bold>\<open>Parameters.\<close>  What the sources call but do not contain is an argument with named laws: the decimal library
  (\<open>decimal_laws\<close>), calendar dates (\<open>chrono\<close>), the JSON grammar of \<open>serde_json\<close> and its printer, the grammar of JSON
  paths, the key value engine (\<open>rocks_laws\<close>), its deletion and compaction of key ranges, the clock (monotone, with
  timestamps below 255 * 2^56), the hasher, the iteration order of hash maps
  (any permutation), the file system (the tree that a walk finds) and the CSV reader, the SQL parser with the text of its errors, the escaping of string literals, and the socket
  (the bytes that come and the room for bytes that go).  The examples instantiate each of them with a concrete function.

  \<^bold>\<open>Bounds.\<close>  \<open>compile_expr\<close> carries a fuel for calls that compilation itself makes up; two levels are enough and
  more change nothing, as \<open>Planner_Expr\<close> shows.  \<open>resolve_tables\<close> carries the depth of views within views, where the code recurses
  without a bound and a view over itself would overflow the stack.  Everything else is total by
  structural or measured recursion, except for the loops over iterators, \<open>execute_statement\<close> and the loop over the commands of
  a client, which are partial functions whose results are proved to exist.

  \<^bold>\<open>Not modelled.\<close>  The parser is a grammar of combinators of an external library, and its meaning is that of the
  library; it enters as a function from texts to statements.
  Threads and locks are left out: every operation that takes a lock holds it to its end, so that operations are
  atomic.  The loop that accepts sockets and hands each to the pool of threads (\<open>server/src/lib.rs\<close>) makes two calls, which are
  modelled, and is not modelled itself.
\<close>

section \<open>Statements\<close>

text \<open>C2. A statement that inserts the rows of a query: the plan of the query is executed, one call
  drains it into the table, and the table then holds its earlier writes followed by the rows of
  the query, stamped in order by the clock.  A later scan as of any timestamp sees the snapshot of
  exactly these writes.\<close>

theorem insert_query:
  assumes rocks: "rocks_laws (x_rocks x) contents rest" and laws: "decimal_laws (x_decimal x)"
    and iteration: "\<And>l. mset (x_iteration x l) = mset l"
    and plan: "plan_ok x session (contents db) tables plan"
    and rows: "\<And>out r. plan_out x session tables plan out \<Longrightarrow> r \<in> set out \<Longrightarrow> valid_tuple (x_decimal x) (x_path x) t (fst r)"
    and t: "wf_table t" "table_holds (x_decimal x) (x_path x) t (contents db) (tables t)" "\<forall>u \<in> set (tables t). fst (snd u) \<le> now ticks"
    and clock: "mono now" "\<forall>n. unat (now n) < 255 * 2 ^ 56"
  shows "\<exists>ins ins' out. build_root x session db ticks (PIT_TableInsert t plan) = Some (Inserts ins) \<and>
    plan_out x session tables plan out \<and>
    table_insert_advance (x_rocks x) (x_decimal x) now b_advance b_get ins = Some (Inr ins') \<and>
    table_holds (x_decimal x) (x_path x) t (contents (ti_db ins')) (tables t @ stamped now ticks out) \<and>
    (\<exists>it seen. full_scan (x_rocks x) (x_decimal x) (ti_db ins') t T = Some it \<and>
      yields (index_advance (x_rocks x) (x_decimal x) (x_path x)) index_get it seen \<and>
      rows_match (x_decimal x) seen (snapshot (x_decimal x) t T (tables t @ stamped now ticks out)))"
proof -
  obtain ex out where ex: "build_executor x session db plan = Some ex" "yields b_advance b_get ex out" "plan_out x session tables plan out"
    using plan_executes [OF rocks laws iteration plan] by (rule executesE)
  have "\<forall>r \<in> set out. valid_tuple (x_decimal x) (x_path x) t (fst r)" using rows ex(3) by blast
  then have ins: "\<exists>ins'. table_insert_advance (x_rocks x) (x_decimal x) now b_advance b_get (table_insert_new ex t db ticks) = Some (Inr ins') \<and>
    table_holds (x_decimal x) (x_path x) t (contents (ti_db ins')) (tables t @ stamped now ticks out) \<and>
    (\<exists>it seen. full_scan (x_rocks x) (x_decimal x) (ti_db ins') t T = Some it \<and>
      yields (index_advance (x_rocks x) (x_decimal x) (x_path x)) index_get it seen \<and>
      rows_match (x_decimal x) seen (snapshot (x_decimal x) t T (tables t @ stamped now ticks out)))"
    using insert_then_scan [OF t(1) rocks laws ex(2) _ t(2,3) clock, of T] by blast
  have "build_root x session db ticks (PIT_TableInsert t plan) = Some (Inserts (table_insert_new ex t db ticks))" using ex(1) by simp
  then show ?thesis using ins ex(3) by blast
qed

definition example_table :: table where
  "example_table = \<lparr>t_id = 1234, t_length = 1, t_pk = [Asc]\<rparr>"

theorem insert_query_witness:
  "\<exists>ins ins' out. build_root example_env (session_new 1) [] 0 (PIT_TableInsert example_table example_source) = Some (Inserts ins) \<and>
    table_insert_advance ref_rocks ref_decimal_ops (\<lambda>_. 7) b_advance b_get ins = Some (Inr ins') \<and>
    (\<exists>it seen. full_scan ref_rocks ref_decimal_ops (ti_db ins') example_table 15 = Some it \<and>
      yields (index_advance ref_rocks ref_decimal_ops (\<lambda>_. None)) index_get it seen \<and>
      rows_match ref_decimal_ops seen (snapshot ref_decimal_ops example_table 15 [([D_Boolean True], 7, 1), ([D_Boolean True], 7, 1)]))"
proof -
  have env: "x_decimal example_env = ref_decimal_ops" "x_rocks example_env = ref_rocks" "x_path example_env = (\<lambda>_. None)"
    "x_iteration example_env = (\<lambda>m. m)" by (simp_all add: example_env_def)
  have "plan_ok example_env (session_new 1) (map_of []) (\<lambda>_. []) example_source"
    using example_plan_ok [of "map_of []" "\<lambda>_. []"] by (simp add: example_plan_def)
  moreover have "table_holds ref_decimal_ops (\<lambda>_. None) example_table (map_of []) []" by (rule empty_table_holds) simp
  ultimately show ?thesis
    using insert_query [of example_env map_of "\<lambda>it. it" "session_new 1" "[]" "\<lambda>_. []" example_source example_table "\<lambda>_. 7" 0 15]
      ref_rocks_laws ref_decimal_laws
    by (auto simp: env example_source_out example_table_def wf_table_def valid_tuple_def valid_row_def mono_def)
qed

end
